(* ===== verification/Prelude.thy ===== *)
theory Prelude
  imports Main "HOL-Library.Word"
begin

text \<open>
  What every theory of the development shares: the machine integers of the C
  sources, errors as values, checked access to arrays, counted loops, and the
  little-endian view of byte arrays that the pointer casts of the sources
  (\<open>(uint32_t*)buf\<close>, \<open>(uint64_t*)buf\<close>, \<open>*(int32_t*)p\<close>) rely on.

  A C array is a list.  Reading or writing outside it is undefined behaviour
  in C; here it is the error \<open>OutOfBounds\<close>, so a theorem that an operation
  returns a value also says that it stays within its buffers.
\<close>

unbundle bit_operations_syntax

named_theorems res_simps \<open>unfolding the error monad\<close>
named_theorems len_simps \<open>lengths of the arrays an operation returns\<close>

section \<open>Types\<close>

type_synonym u8 = "8 word"
type_synonym u32 = "32 word"
type_synonym u64 = "64 word"
type_synonym bytes = "u8 list"

section \<open>Errors as values\<close>

text \<open>
  \<open>OutOfBounds\<close>: access outside an array; \<open>NullDeref\<close>: use of a null or
  dangling pointer; \<open>AssertFail\<close>: a failing \<open>assert\<close> or \<open>abort\<close>;
  \<open>ShortStream\<close>: the peer closed the connection before all bytes came;
  \<open>OutOfFuel\<close>: a retry loop was not given enough rounds; \<open>WouldBlock\<close>: the call
  polls for data that another thread has not produced.
\<close>

datatype cerr = OutOfBounds | NullDeref | AssertFail | ShortStream | OutOfFuel | WouldBlock

type_synonym 'a res = "cerr + 'a"

abbreviation Ok :: "'a \<Rightarrow> 'a res" where "Ok \<equiv> Inr"
abbreviation Err :: "cerr \<Rightarrow> 'a res" where "Err \<equiv> Inl"

fun rbind :: "'a res \<Rightarrow> ('a \<Rightarrow> 'b res) \<Rightarrow> 'b res" where
  "rbind (Inl e) f = Inl e"
| "rbind (Inr x) f = f x"

definition rassert :: "bool \<Rightarrow> unit res" where
  "rassert b = (if b then Ok () else Err AssertFail)"

lemma rbind_Ok_iff [res_simps]:
  "rbind r f = Ok y \<longleftrightarrow> (\<exists>x. r = Ok x \<and> f x = Ok y)"
  by (cases r) auto

lemma rbind_Err_iff:
  "rbind r f = Err e \<longleftrightarrow> r = Err e \<or> (\<exists>x. r = Ok x \<and> f x = Err e)"
  by (cases r) auto

lemma rbind_right [simp]: "rbind r Inr = r"
  by (cases r) auto

lemma rbind_assoc: "rbind (rbind r f) g = rbind r (\<lambda>x. rbind (f x) g)"
  by (cases r) auto

lemma rbind_cong [fundef_cong]:
  "r = r' \<Longrightarrow> (\<And>x. r' = Ok x \<Longrightarrow> f x = g x) \<Longrightarrow> rbind r f = rbind r' g"
  by (cases r') auto

section \<open>Checked array access\<close>

definition rd :: "'a list \<Rightarrow> nat \<Rightarrow> 'a res" where
  "rd xs i = (if i < length xs then Ok (xs ! i) else Err OutOfBounds)"

definition wr :: "'a list \<Rightarrow> nat \<Rightarrow> 'a \<Rightarrow> 'a list res" where
  "wr xs i v = (if i < length xs then Ok (xs[i := v]) else Err OutOfBounds)"

text \<open>\<open>n\<close> consecutive cells from offset \<open>i\<close>: the source or target of a \<open>memcpy\<close>.\<close>

definition rd_blk :: "'a list \<Rightarrow> nat \<Rightarrow> nat \<Rightarrow> 'a list res" where
  "rd_blk xs i n = (if i + n \<le> length xs then Ok (take n (drop i xs)) else Err OutOfBounds)"

definition blit :: "'a list \<Rightarrow> nat \<Rightarrow> 'a list \<Rightarrow> 'a list" where
  "blit xs i vs = take i xs @ vs @ drop (i + length vs) xs"

definition wr_blk :: "'a list \<Rightarrow> nat \<Rightarrow> 'a list \<Rightarrow> 'a list res" where
  "wr_blk xs i vs = (if i + length vs \<le> length xs then Ok (blit xs i vs) else Err OutOfBounds)"

text \<open>Reading through a pointer that may be null.\<close>

definition deref :: "'a option \<Rightarrow> 'a res" where
  "deref p = (case p of None \<Rightarrow> Err NullDeref | Some x \<Rightarrow> Ok x)"

lemma rd_ok [simp]: "i < length xs \<Longrightarrow> rd xs i = Ok (xs ! i)"
  by (simp add: rd_def)

lemma wr_ok [simp]: "i < length xs \<Longrightarrow> wr xs i v = Ok (xs[i := v])"
  by (simp add: wr_def)

lemma rd_blk_ok [simp]: "i + n \<le> length xs \<Longrightarrow> rd_blk xs i n = Ok (take n (drop i xs))"
  by (simp add: rd_blk_def)

lemma wr_blk_ok [simp]: "i + length vs \<le> length xs \<Longrightarrow> wr_blk xs i vs = Ok (blit xs i vs)"
  by (simp add: wr_blk_def)

lemma length_blit [simp, len_simps]: "i + length vs \<le> length xs \<Longrightarrow> length (blit xs i vs) = length xs"
  by (simp add: blit_def)

lemma nth_blit:
  "i + length vs \<le> length xs \<Longrightarrow> k < length xs \<Longrightarrow>
   blit xs i vs ! k = (if i \<le> k \<and> k < i + length vs then vs ! (k - i) else xs ! k)"
  by (auto simp: blit_def nth_append min_def)

lemma blit_same: "i + n \<le> length xs \<Longrightarrow> blit xs i (take n (drop i xs)) = xs"
  by (rule nth_equalityI) (auto simp: nth_blit)

lemma blk_blit_same:
  "i + length vs \<le> length xs \<Longrightarrow> n = length vs \<Longrightarrow> take n (drop i (blit xs i vs)) = vs"
  by (simp add: blit_def)

lemma blk_blit_disjoint:
  assumes "i + length vs \<le> length xs" and "j + n \<le> i \<or> i + length vs \<le> j"
  shows "take n (drop j (blit xs i vs)) = take n (drop j xs)"
proof (rule nth_equalityI)
  show "length (take n (drop j (blit xs i vs))) = length (take n (drop j xs))"
    using assms by simp
next
  fix k assume "k < length (take n (drop j (blit xs i vs)))"
  then show "take n (drop j (blit xs i vs)) ! k = take n (drop j xs) ! k"
    using assms by (auto simp: nth_blit)
qed

section \<open>Counted loops\<close>

text \<open>
  \<open>for (i = a; i < b; i++) body\<close> is \<open>rfold body [a..<b] s\<close>: the body takes the
  index and the state and returns the new state, or the error that ends the run.
\<close>

fun rfold :: "('i \<Rightarrow> 's \<Rightarrow> 's res) \<Rightarrow> 'i list \<Rightarrow> 's \<Rightarrow> 's res" where
  "rfold f [] s = Ok s"
| "rfold f (i # is) s = rbind (f i s) (rfold f is)"

fun rmap :: "('i \<Rightarrow> 'a res) \<Rightarrow> 'i list \<Rightarrow> 'a list res" where
  "rmap f [] = Ok []"
| "rmap f (i # is) = rbind (f i) (\<lambda>x. rbind (rmap f is) (\<lambda>xs. Ok (x # xs)))"

lemma rfold_Nil_fun [simp]: "rfold f [] = Inr"
  by (rule ext) simp

lemma rfold_single [simp]: "rfold f [i] = f i"
  by (rule ext) simp

lemma rfold_append: "rfold f (is @ js) s = rbind (rfold f is s) (rfold f js)"
proof (induction "is" arbitrary: s)
  case (Cons i "is")
  then show ?case by (cases "f i s") auto
qed simp

lemma rfold_cong [fundef_cong]:
  "is = js \<Longrightarrow> s = t \<Longrightarrow> (\<And>i s. i \<in> set js \<Longrightarrow> f i s = g i s) \<Longrightarrow> rfold f is s = rfold g js t"
proof (induction js arbitrary: "is" s t)
  case (Cons j js)
  have "f j t = g j t" and "\<And>u. rfold f js u = rfold g js u" using Cons by auto
  then show ?case using Cons.prems by (cases "g j t") auto
qed simp

lemma rfold_Ok: "(\<And>i s. i \<in> set is \<Longrightarrow> f i s = Ok (g i s)) \<Longrightarrow> rfold f is s = Ok (fold g is s)"
  by (induction "is" arbitrary: s) auto

lemma rmap_Ok: "(\<And>i. i \<in> set is \<Longrightarrow> f i = Ok (g i)) \<Longrightarrow> rmap f is = Ok (map g is)"
  by (induction "is") auto

lemma rmap_cong [fundef_cong]:
  "is = js \<Longrightarrow> (\<And>i. i \<in> set js \<Longrightarrow> f i = g i) \<Longrightarrow> rmap f is = rmap g js"
  by (induction js arbitrary: "is") auto

text \<open>A loop whose body \<open>i\<close> only replaces cell \<open>i\<close> of an array, seen through \<open>W\<close>.\<close>

lemma rfold_pointwise:
  assumes "length xs = k"
    and step: "\<And>i ys. i < k \<Longrightarrow> length ys = k \<Longrightarrow> ys ! i = xs ! i \<Longrightarrow> f i (W ys) = Ok (W (ys[i := F i]))"
  shows "rfold f [0..<k] (W xs) = Ok (W (map F [0..<k]))"
proof -
  have "rfold f [0..<j] (W xs) = Ok (W (map F [0..<j] @ drop j xs))" if "j \<le> k" for j
    using that
  proof (induction j)
    case (Suc j)
    let ?ys = "map F [0..<j] @ drop j xs"
    have "f j (W ?ys) = Ok (W (?ys[j := F j]))" using Suc.prems assms(1) by (intro step) (simp_all add: nth_append)
    moreover have "?ys[j := F j] = map F [0..<Suc j] @ drop (Suc j) xs"
      using Suc.prems assms(1) by (simp add: list_update_append Cons_nth_drop_Suc [symmetric])
    ultimately show ?case using Suc by (simp add: rfold_append)
  qed simp
  from this [of k] show ?thesis using assms(1) by simp
qed

text \<open>The invariant rule of counted loops: the body succeeds and keeps the invariant.\<close>

lemma rfold_upt_inv:
  assumes "a \<le> b" and "P a s"
    and "\<And>i s. a \<le> i \<Longrightarrow> i < b \<Longrightarrow> P i s \<Longrightarrow> \<exists>s'. f i s = Ok s' \<and> P (Suc i) s'"
  shows "\<exists>s'. rfold f [a..<b] s = Ok s' \<and> P b s'"
  using assms
proof (induction b)
  case (Suc b)
  show ?case
  proof (cases "a = Suc b")
    case False
    then have ab: "a \<le> b" using Suc by simp
    have "\<exists>s'. rfold f [a..<b] s = Ok s' \<and> P b s'"
      by (rule Suc.IH [OF ab Suc.prems(2)]) (simp add: Suc.prems(3))
    then obtain t where t: "rfold f [a..<b] s = Ok t" "P b t" by blast
    obtain u where u: "f b t = Ok u" "P (Suc b) u" using Suc.prems(3) [OF ab _ t(2)] by auto
    show ?thesis using t u ab by (simp add: rfold_append)
  qed (use Suc in auto)
qed auto

lemma rfold_inv:
  assumes "P s" and "\<And>i s. i \<in> set is \<Longrightarrow> P s \<Longrightarrow> \<exists>s'. f i s = Ok s' \<and> P s'"
  shows "\<exists>s'. rfold f is s = Ok s' \<and> P s'"
  using assms
proof (induction "is" arbitrary: s)
  case (Cons i "is")
  obtain t where "f i s = Ok t" "P t" using Cons.prems by fastforce
  then show ?case using Cons by simp
qed simp

text \<open>Two loops in step: whenever the first body succeeds, so does the second.\<close>

lemma rfold_upt_sim:
  assumes "rfold f [a..<b] s = Ok s'" "a \<le> b" "R a s t"
    and "\<And>i s t s'. a \<le> i \<Longrightarrow> i < b \<Longrightarrow> R i s t \<Longrightarrow> f i s = Ok s' \<Longrightarrow> \<exists>t'. g i t = Ok t' \<and> R (Suc i) s' t'"
  shows "\<exists>t'. rfold g [a..<b] t = Ok t' \<and> R b s' t'"
  using assms
proof (induction b arbitrary: s')
  case (Suc b)
  show ?case
  proof (cases "a = Suc b")
    case False
    then have ab: "a \<le> b" using Suc.prems(2) by simp
    then obtain s1 where s1: "rfold f [a..<b] s = Ok s1" "f b s1 = Ok s'"
      using Suc.prems(1) by (auto simp: rfold_append res_simps)
    obtain t1 where t1: "rfold g [a..<b] t = Ok t1" "R b s1 t1"
      using Suc.IH [OF s1(1) ab Suc.prems(3)] Suc.prems(4) by auto
    obtain t2 where "g b t1 = Ok t2" "R (Suc b) s' t2" using Suc.prems(4) [OF ab _ t1(2) s1(2)] by auto
    then show ?thesis using t1(1) ab by (simp add: rfold_append)
  qed (use Suc.prems in auto)
qed auto

lemma rmap_nth: "rmap f is = Ok xs \<Longrightarrow> length xs = length is \<and> (\<forall>i<length is. f (is ! i) = Ok (xs ! i))"
proof (induction "is" arbitrary: xs)
  case (Cons j "is")
  then obtain y ys where "f j = Ok y" "rmap f is = Ok ys" "xs = y # ys" by (auto simp: res_simps)
  then show ?case using Cons.IH [of ys] by (auto simp: nth_Cons split: nat.split)
qed auto

text \<open>Collecting the results in an array of null pointers.\<close>

lemma rfold_collect:
  assumes "rmap f [0..<k] = Ok xs"
  shows "rfold (\<lambda>j t. rbind (f j) (\<lambda>x. wr t j (Some x))) [0..<k] (replicate k None) = Ok (map Some xs)"
proof -
  have xs: "length xs = k" "\<And>i. i < k \<Longrightarrow> f i = Ok (xs ! i)" using rmap_nth [OF assms] by auto
  have "rfold (\<lambda>j t. rbind (f j) (\<lambda>x. wr t j (Some x))) [0..<k] (replicate k None) = Ok (map (\<lambda>i. Some (xs ! i)) [0..<k])"
    by (rule rfold_pointwise [where W = "\<lambda>x. x"]) (simp_all add: xs)
  also have "map (\<lambda>i. Some (xs ! i)) [0..<k] = map Some xs" by (rule nth_equalityI) (simp_all add: xs)
  finally show ?thesis .
qed

text \<open>Searches that return early: \<open>for (..) if (c) return 1; return 0;\<close> and its dual.\<close>

fun rany :: "('i \<Rightarrow> bool res) \<Rightarrow> 'i list \<Rightarrow> bool res" where
  "rany f [] = Ok False"
| "rany f (i # is) = rbind (f i) (\<lambda>b. if b then Ok True else rany f is)"

fun rall :: "('i \<Rightarrow> bool res) \<Rightarrow> 'i list \<Rightarrow> bool res" where
  "rall f [] = Ok True"
| "rall f (i # is) = rbind (f i) (\<lambda>b. if b then rall f is else Ok False)"

lemma rany_Ok: "(\<And>i. i \<in> set is \<Longrightarrow> f i = Ok (g i)) \<Longrightarrow> rany f is = Ok (\<exists>i\<in>set is. g i)"
  by (induction "is") auto

lemma rall_Ok: "(\<And>i. i \<in> set is \<Longrightarrow> f i = Ok (g i)) \<Longrightarrow> rall f is = Ok (\<forall>i\<in>set is. g i)"
  by (induction "is") auto

text \<open>Access by a signed index, as \<open>int32_t\<close> arithmetic produces it.\<close>

definition rdi :: "'a list \<Rightarrow> int \<Rightarrow> 'a res" where
  "rdi xs i = (if 0 \<le> i then rd xs (nat i) else Err OutOfBounds)"

definition wri :: "'a list \<Rightarrow> int \<Rightarrow> 'a \<Rightarrow> 'a list res" where
  "wri xs i v = (if 0 \<le> i then wr xs (nat i) v else Err OutOfBounds)"

lemma rdi_ok [simp]: "0 \<le> i \<Longrightarrow> i < int (length xs) \<Longrightarrow> rdi xs i = Ok (xs ! nat i)"
  by (simp add: rdi_def nat_less_iff)

lemma wri_ok [simp]: "0 \<le> i \<Longrightarrow> i < int (length xs) \<Longrightarrow> wri xs i v = Ok (xs[nat i := v])"
  by (simp add: wri_def nat_less_iff)

section \<open>XOR of byte arrays\<close>

definition bxor :: "bytes \<Rightarrow> bytes \<Rightarrow> bytes" where
  "bxor xs ys = map2 (XOR) xs ys"

lemma length_bxor [simp, len_simps]: "length (bxor xs ys) = min (length xs) (length ys)"
  by (simp add: bxor_def)

lemma nth_bxor [simp]:
  "i < length xs \<Longrightarrow> i < length ys \<Longrightarrow> bxor xs ys ! i = xs ! i XOR ys ! i"
  by (simp add: bxor_def)

lemma bxor_Nil [simp]: "bxor [] ys = []" "bxor xs [] = []"
  by (simp_all add: bxor_def)

lemma bxor_Cons [simp]: "bxor (x # xs) (y # ys) = (x XOR y) # bxor xs ys"
  by (simp add: bxor_def)

lemma bxor_commute: "bxor xs ys = bxor ys xs"
  by (rule nth_equalityI) (auto simp: ac_simps)

lemma bxor_assoc: "bxor (bxor xs ys) zs = bxor xs (bxor ys zs)"
  by (rule nth_equalityI) (auto simp: ac_simps)

lemma bxor_left_commute: "bxor xs (bxor ys zs) = bxor ys (bxor xs zs)"
  by (metis bxor_assoc bxor_commute)

lemma bxor_self: "bxor xs xs = replicate (length xs) 0"
  by (rule nth_equalityI) auto

lemma bxor_zero: "length xs \<le> n \<Longrightarrow> bxor xs (replicate n 0) = xs"
  by (rule nth_equalityI) auto

lemma bxor_zero_left: "length xs \<le> n \<Longrightarrow> bxor (replicate n 0) xs = xs"
  by (metis bxor_commute bxor_zero)

lemma bxor_cancel: "length xs \<le> length ys \<Longrightarrow> bxor (bxor xs ys) ys = xs"
  by (simp add: bxor_assoc bxor_self bxor_zero)

lemma bxor_cancel_left: "length ys \<le> length xs \<Longrightarrow> bxor xs (bxor xs ys) = ys"
  by (metis bxor_cancel bxor_commute)

lemma take_bxor: "take n (bxor xs ys) = bxor (take n xs) (take n ys)"
  by (simp add: bxor_def take_map take_zip)

lemma drop_bxor: "drop n (bxor xs ys) = bxor (drop n xs) (drop n ys)"
  by (simp add: bxor_def drop_map drop_zip)

lemma bxor_append:
  "length xs = length ys \<Longrightarrow> bxor (xs @ xs') (ys @ ys') = bxor xs ys @ bxor xs' ys'"
  by (simp add: bxor_def)

text \<open>XOR of a list of arrays onto a first one; the order does not matter.\<close>

definition bxors :: "bytes \<Rightarrow> bytes list \<Rightarrow> bytes" where
  "bxors = foldl bxor"

lemma bxors_Nil [simp]: "bxors z [] = z"
  by (simp add: bxors_def)

lemma bxors_Cons [simp]: "bxors z (x # xs) = bxors (bxor z x) xs"
  by (simp add: bxors_def)

lemma bxors_append [simp]: "bxors z (xs @ ys) = bxors (bxors z xs) ys"
  by (simp add: bxors_def)

lemma bxors_bxor: "bxors (bxor z b) xs = bxor b (bxors z xs)"
proof (induction xs arbitrary: z)
  case (Cons a xs)
  have "bxor (bxor z b) a = bxor (bxor z a) b" by (metis bxor_assoc bxor_commute)
  then show ?case using Cons by simp
qed (simp add: bxor_commute)

lemma bxors_remove1: "x \<in> set xs \<Longrightarrow> bxors z (map f xs) = bxor (f x) (bxors z (map f (remove1 x xs)))"
  by (induction xs arbitrary: z) (auto simp: bxors_bxor bxor_left_commute)

lemma bxors_length: "\<forall>x\<in>set xs. length x = length z \<Longrightarrow> length (bxors z xs) = length z"
  by (induction xs arbitrary: z) auto

lemma bxors_bxors:
  "length z = n \<Longrightarrow> \<forall>x\<in>set xs. length x = n \<Longrightarrow> bxors (bxors z xs) xs = z"
proof (induction xs arbitrary: z)
  case (Cons x xs)
  have "bxors (bxors (bxor z x) xs) (x # xs) = bxor x (bxors (bxors (bxor z x) xs) xs)"
    by (simp add: bxors_bxor)
  also have "\<dots> = bxor x (bxor z x)" using Cons by simp
  also have "\<dots> = z" using Cons.prems by (simp add: bxor_commute [of z] bxor_cancel_left)
  finally show ?case by simp
qed simp

text \<open>The elements of a list in the order of their first occurrence.\<close>

definition firsts :: "'a list \<Rightarrow> 'a list" where
  "firsts xs = rev (remdups (rev xs))"

lemma firsts_Nil [simp]: "firsts [] = []"
  by (simp add: firsts_def)

lemma firsts_snoc: "firsts (xs @ [x]) = (if x \<in> set xs then firsts xs else firsts xs @ [x])"
  by (simp add: firsts_def)

lemma set_firsts [simp]: "set (firsts xs) = set xs"
  by (simp add: firsts_def)

lemma distinct_firsts [simp]: "distinct (firsts xs)"
  by (simp add: firsts_def)

section \<open>Little-endian words\<close>

text \<open>The sources run on x86: a cast of a byte pointer reads the least significant byte first.\<close>

fun le_word :: "bytes \<Rightarrow> 'a::len word" where
  "le_word [] = 0"
| "le_word (b # bs) = ucast b OR push_bit 8 (le_word bs)"

definition le_bytes :: "nat \<Rightarrow> 'a::len word \<Rightarrow> bytes" where
  "le_bytes n w = map (\<lambda>i. ucast (drop_bit (8 * i) w)) [0..<n]"

lemma length_le_bytes [simp, len_simps]: "length (le_bytes n w) = n"
  by (simp add: le_bytes_def)

lemma bit_le_word:
  "bit (le_word bs :: 'a::len word) k \<longleftrightarrow>
   k < LENGTH('a) \<and> k div 8 < length bs \<and> bit (bs ! (k div 8)) (k mod 8)"
proof (induction bs arbitrary: k)
  case (Cons b bs)
  show ?case
  proof (cases "k < 8")
    case True
    then show ?thesis by (auto simp: bit_or_iff bit_push_bit_iff bit_ucast_iff)
  next
    case False
    then obtain j where j: "k = 8 + j" using le_Suc_ex by (metis not_less)
    have "\<not> bit b (8 + j)" using bit_imp_le_length [of b "8 + j"] by auto
    have "k div 8 = Suc (j div 8)" "k mod 8 = j mod 8" using j by auto
    moreover have "bit (le_word (b # bs) :: 'a word) k \<longleftrightarrow> k < LENGTH('a) \<and> bit (le_word bs :: 'a word) j"
      using \<open>\<not> bit b (8 + j)\<close> j
      by (simp add: bit_or_iff bit_push_bit_iff bit_ucast_iff)
    ultimately show ?thesis using Cons.IH [of j] j by auto
  qed
qed simp

lemma bit_le_bytes:
  "i < n \<Longrightarrow> bit (le_bytes n (w::'a::len word) ! i) k \<longleftrightarrow> k < 8 \<and> bit w (8 * i + k)"
  using bit_imp_le_length [of w "8 * i + k"]
  by (auto simp: le_bytes_def bit_ucast_iff bit_drop_bit_eq ac_simps)

lemma le_bytes_word:
  assumes "8 * length bs \<le> LENGTH('a::len)"
  shows "le_bytes (length bs) (le_word bs :: 'a word) = bs"
proof (rule nth_equalityI, simp)
  fix i assume "i < length (le_bytes (length bs) (le_word bs :: 'a word))"
  then have i: "i < length bs" by simp
  show "le_bytes (length bs) (le_word bs :: 'a word) ! i = bs ! i"
  proof (rule bit_word_eqI)
    fix k assume k: "k < LENGTH(8)"
    then have "8 * i + k < LENGTH('a)" using i assms by simp
    then show "bit (le_bytes (length bs) (le_word bs :: 'a word) ! i) k = bit (bs ! i) k"
      using i k by (auto simp: bit_le_bytes bit_le_word)
  qed
qed

lemma le_word_bytes:
  assumes "LENGTH('a::len) \<le> 8 * n"
  shows "le_word (le_bytes n w) = (w :: 'a word)"
proof (rule bit_word_eqI)
  fix k assume k: "k < LENGTH('a)"
  then have d: "k div 8 < n" using assms by (simp add: div_less_iff_less_mult)
  have "8 * (k div 8) + k mod 8 = k" by presburger
  then show "bit (le_word (le_bytes n w) :: 'a word) k = bit w k"
    using d k by (simp add: bit_le_word bit_le_bytes)
qed

text \<open>XOR of the words read through a cast is XOR of the bytes.\<close>

lemma le_bytes_xor: "le_bytes n (v XOR w) = bxor (le_bytes n v) (le_bytes n w)"
proof (rule nth_equalityI)
  fix i assume "i < length (le_bytes n (v XOR w))"
  then show "le_bytes n (v XOR w) ! i = bxor (le_bytes n v) (le_bytes n w) ! i"
    by (intro bit_word_eqI) (simp add: bit_le_bytes bit_xor_iff)
qed simp

lemma le_word_inj:
  assumes "length xs = length ys" and "8 * length xs \<le> LENGTH('a::len)"
  shows "(le_word xs :: 'a word) = le_word ys \<longleftrightarrow> xs = ys"
  using assms by (metis le_bytes_word)

end
