(* ===== verification/CUtil.thy ===== *)
theory CUtil
  imports Prelude
begin

text \<open>
  The byte and bit helpers of \<open>PSI_C_0.1/PSI/headers/Util.h\<close>, which every other
  part of the garbled-Bloom-filter protocol calls: the unrolled XOR and the
  comparison of byte arrays, the rounding of bit lengths to bytes, the bit maps
  stored with leading zero bits, and the searches in index histories.
\<close>

section \<open>XOR\<close>

text \<open>\<open>inOut[i] ^= in2[i]\<close> on a byte, and through casts on 32 and 64 bits.\<close>

definition xor8 :: "bytes \<Rightarrow> nat \<Rightarrow> bytes \<Rightarrow> bytes res" where
  "xor8 in2 i inOut = rbind (rd inOut i) (\<lambda>x. rbind (rd in2 i) (\<lambda>y. wr inOut i (x XOR y)))"

definition xor32 :: "bytes \<Rightarrow> nat \<Rightarrow> bytes \<Rightarrow> bytes res" where
  "xor32 in2 off inOut = rbind (rd_blk inOut off 4) (\<lambda>x. rbind (rd_blk in2 off 4) (\<lambda>y.
     wr_blk inOut off (le_bytes 4 (le_word x XOR le_word y :: u32))))"

definition xor64 :: "bytes \<Rightarrow> nat \<Rightarrow> bytes \<Rightarrow> bytes res" where
  "xor64 in2 off inOut = rbind (rd_blk inOut off 8) (\<lambda>x. rbind (rd_blk in2 off 8) (\<lambda>y.
     wr_blk inOut off (le_bytes 8 (le_word x XOR le_word y :: u64))))"

definition xorByteArray :: "bytes \<Rightarrow> bytes \<Rightarrow> nat \<Rightarrow> bytes res" where
  "xorByteArray inOut in2 len =
     (if len = 10 then
        rbind (xor64 in2 0 inOut) (\<lambda>a. rbind (xor8 in2 8 a) (\<lambda>a. xor8 in2 9 a))
      else if len = 16 then
        rfold (\<lambda>k. xor64 in2 (8 * k)) [0, 1] inOut
      else if len = 24 then
        rfold (\<lambda>k. xor64 in2 (8 * k)) [0, 1, 2] inOut
      else if len = 32 then
        rfold (\<lambda>k. xor64 in2 (8 * k)) [0, 1, 2, 3] inOut
      else if len = 20 then
        rfold (\<lambda>k. xor32 in2 (4 * k)) [0, 1, 2, 3, 4] inOut
      else
        let intLen = len div 4; r = len mod 4 in
        if r = 0 then
          rfold (\<lambda>i. xor32 in2 (4 * i)) [0..<intLen] inOut
        else
          rbind (rfold (\<lambda>i. xor8 in2 i) [0..<r] inOut) (\<lambda>a.
            rfold (\<lambda>i. xor32 in2 (r + 4 * i)) [0..<intLen] a))"

text \<open>The plain loop that the source keeps as a comment above the unrolled version.\<close>

definition xorByteArray_ref :: "bytes \<Rightarrow> bytes \<Rightarrow> nat \<Rightarrow> bytes res" where
  "xorByteArray_ref inOut in2 len = rfold (xor8 in2) [0..<len] inOut"

section \<open>Comparison\<close>

text \<open>
  \<open>compareByteArray\<close> as written: \<open>intLen = len >> 3\<close> counts groups of eight bytes,
  but the loop compares 32-bit words, so \<open>4 * (len >> 3)\<close> bytes follow the first \<open>len & 7\<close>.
\<close>

definition neq8 :: "bytes \<Rightarrow> bytes \<Rightarrow> nat \<Rightarrow> bool res" where
  "neq8 in1 in2 i = rbind (rd in1 i) (\<lambda>x. rbind (rd in2 i) (\<lambda>y. Ok (x \<noteq> y)))"

definition neq32 :: "bytes \<Rightarrow> bytes \<Rightarrow> nat \<Rightarrow> bool res" where
  "neq32 in1 in2 off = rbind (rd_blk in1 off 4) (\<lambda>x. rbind (rd_blk in2 off 4) (\<lambda>y.
     Ok ((le_word x :: u32) \<noteq> le_word y)))"

definition compareByteArray :: "bytes \<Rightarrow> bytes \<Rightarrow> nat \<Rightarrow> bool res" where
  "compareByteArray in1 in2 len =
     (let intLen = len div 8; r = len mod 8 in
      if r = 0 then
        rbind (rany (\<lambda>i. neq32 in1 in2 (4 * i)) [0..<intLen]) (\<lambda>d. Ok (\<not> d))
      else
        rbind (rany (neq8 in1 in2) [0..<r]) (\<lambda>d.
          if d then Ok False
          else rbind (rany (\<lambda>i. neq32 in1 in2 (r + 4 * i)) [0..<intLen]) (\<lambda>d. Ok (\<not> d))))"

definition compared_bytes :: "nat \<Rightarrow> nat" where
  "compared_bytes len = len mod 8 + 4 * (len div 8)"

section \<open>Bit lengths\<close>

definition getLeadingZeroes :: "u32 \<Rightarrow> u32" where
  "getLeadingZeroes len = (let r = len AND 7 in if r = 0 then 0 else 8 - r)"

definition getByteLenByBitLen :: "u32 \<Rightarrow> u32" where
  "getByteLenByBitLen len = (let r = len AND 7 in
     if r = 0 then drop_bit 3 len else drop_bit 3 len + 1)"

section \<open>Bit maps\<close>

text \<open>
  \<open>int32_t\<close> indices and shifts are \<open>int\<close> with \<open>div\<close> and \<open>mod\<close> (an arithmetic shift
  and a mask); a negative byte index is out of bounds.
\<close>

definition bit_mask :: "int \<Rightarrow> u8" where
  "bit_mask k = push_bit (nat (7 - k mod 8)) 1"

definition setBit :: "bytes \<Rightarrow> int \<Rightarrow> int \<Rightarrow> bytes res" where
  "setBit bitMap i lz = rbind (rdi bitMap ((i + lz) div 8)) (\<lambda>b.
     wri bitMap ((i + lz) div 8) (b OR bit_mask (i + lz)))"

definition getBit :: "bytes \<Rightarrow> int \<Rightarrow> int \<Rightarrow> bool res" where
  "getBit bitMap i lz = rbind (rdi bitMap ((i + lz) div 8)) (\<lambda>b.
     Ok (\<not> (b AND bit_mask (i + lz)) = 0))"

section \<open>Searches\<close>

text \<open>\<open>exists\<close> looks at the first \<open>i\<close> entries of the history, \<open>containsInt\<close> at a whole array.\<close>

definition exists_idx :: "int \<Rightarrow> int list \<Rightarrow> nat \<Rightarrow> bool res" where
  "exists_idx idx indHis i = rany (\<lambda>j. rbind (rd indHis j) (\<lambda>x. Ok (x = idx))) [0..<i]"

definition containsInt :: "int list \<Rightarrow> int \<Rightarrow> nat \<Rightarrow> bool res" where
  "containsInt S e setSize = rany (\<lambda>j. rbind (rd S j) (\<lambda>x. Ok (x = e))) [0..<setSize]"

definition contains :: "bytes list \<Rightarrow> bytes \<Rightarrow> nat \<Rightarrow> nat \<Rightarrow> bool res" where
  "contains S e setSize eByteLen =
     rany (\<lambda>i. rbind (rd S i) (\<lambda>x. compareByteArray x e eByteLen)) [0..<setSize]"

text \<open>\<open>setToInt\<close> reads the first four bytes of every element as a signed 32-bit integer.\<close>

definition setToInt :: "bytes list \<Rightarrow> nat \<Rightarrow> int list res" where
  "setToInt S n = rmap (\<lambda>i. rbind (rd S i) (\<lambda>x. rbind (rd_blk x 0 4) (\<lambda>b.
     Ok (sint (le_word b :: u32))))) [0..<n]"

section \<open>Runs of byte XORs\<close>

lemma xor8_run:
  "rfold (xor8 b) [off..<off + n] a =
   (if n = 0 \<or> off + n \<le> length a \<and> off + n \<le> length b
    then Ok (blit a off (bxor (take n (drop off a)) (take n (drop off b)))) else Err OutOfBounds)"
proof (induction n)
  case 0
  show ?case by (simp add: blit_def)
next
  case (Suc n)
  let ?x = "bxor (take n (drop off a)) (take n (drop off b))"
  have split: "rfold (xor8 b) [off..<off + Suc n] a = rbind (rfold (xor8 b) [off..<off + n] a) (xor8 b (off + n))"
    by (simp add: rfold_append)
  show ?case
  proof (cases "off + Suc n \<le> length a \<and> off + Suc n \<le> length b")
    case True
    have "(blit a off ?x)[off + n := a ! (off + n) XOR b ! (off + n)]
        = blit a off (bxor (take (Suc n) (drop off a)) (take (Suc n) (drop off b)))"
      using True by (intro nth_equalityI) (auto simp: nth_blit nth_list_update)
    moreover have "length ?x = n" using True by (auto simp: min_absorb2)
    then have "length (blit a off ?x) = length a" "blit a off ?x ! (off + n) = a ! (off + n)"
      using True by (auto simp: nth_blit)
    ultimately show ?thesis using True unfolding split Suc.IH by (simp add: xor8_def)
  next
    case False
    show ?thesis
    proof (cases "n = 0")
      case True
      then show ?thesis using False
        by (cases "off < length a") (auto simp: xor8_def rd_def wr_def)
    next
      case n: False
      show ?thesis
      proof (cases "off + n \<le> length a \<and> off + n \<le> length b")
        case True
        then show ?thesis using False n unfolding split Suc.IH
          by (cases "off + n < length a") (auto simp: xor8_def rd_def)
      next
        case False
        then show ?thesis using n unfolding split Suc.IH by auto
      qed
    qed
  qed
qed

lemma xor_blk_bytes:
  assumes "0 < n" and "8 * n \<le> LENGTH('a::len)"
  shows "rbind (rd_blk a off n) (\<lambda>x. rbind (rd_blk b off n) (\<lambda>y.
           wr_blk a off (le_bytes n (le_word x XOR le_word y :: 'a word)))) = rfold (xor8 b) [off..<off + n] a"
proof (cases "off + n \<le> length a \<and> off + n \<le> length b")
  case True
  have len: "length (take n (drop off a)) = n" "length (take n (drop off b)) = n" using True by auto
  have "le_bytes n (le_word (take n (drop off a)) :: 'a word) = take n (drop off a)"
    "le_bytes n (le_word (take n (drop off b)) :: 'a word) = take n (drop off b)"
    using le_bytes_word [of "take n (drop off a)", where 'a = 'a]
      le_bytes_word [of "take n (drop off b)", where 'a = 'a] len assms by simp_all
  then show ?thesis using True assms by (simp add: xor8_run le_bytes_xor)
next
  case False
  then show ?thesis using assms by (auto simp: xor8_run rd_blk_def)
qed

lemma xor32_bytes: "xor32 b off a = rfold (xor8 b) [off..<off + 4] a"
  unfolding xor32_def by (rule xor_blk_bytes) auto

lemma xor64_bytes: "xor64 b off a = rfold (xor8 b) [off..<off + 8] a"
  unfolding xor64_def by (rule xor_blk_bytes) auto

lemma xor32_run:
  "rfold (\<lambda>i. xor32 b (r + 4 * i)) [0..<n] a = rfold (xor8 b) [r..<r + 4 * n] a"
proof (induction n)
  case (Suc n)
  have u: "[r..<r + 4 * Suc n] = [r..<r + 4 * n] @ [r + 4 * n..<r + 4 * n + 4]"
    using upt_add_eq_append [of r "r + 4 * n" 4] by (simp add: algebra_simps)
  have "xor32 b (r + 4 * n) = rfold (xor8 b) [r + 4 * n..<r + 4 * n + 4]"
    by (rule ext) (rule xor32_bytes)
  then show ?case unfolding u by (simp add: rfold_append Suc.IH)
qed simp

lemma rfold_blocks:
  assumes "\<And>k s. g k s = rfold f [m * k..<m * k + m] s"
  shows "rfold g [0..<n] s = rfold f [0..<m * n] s"
proof (induction n)
  case (Suc n)
  have u: "[0..<m * Suc n] = [0..<m * n] @ [m * n..<m * n + m]"
    using upt_add_eq_append [of 0 "m * n" m] by (simp add: algebra_simps)
  have "g n = rfold f [m * n..<m * n + m]" using assms by blast
  then show ?case unfolding u by (simp add: rfold_append Suc.IH)
qed simp

section \<open>The unrolled XOR is the plain loop\<close>

lemma xorByteArray_loop: "xorByteArray a b len = xorByteArray_ref a b len"
proof -
  have u: "[0, 1] = [0..<2]" "[0, 1, 2] = [0..<3]" "[0, 1, 2, 3] = [0..<4]" "[0, 1, 2, 3, 4] = [0..<5]"
    by (simp_all add: upt_rec)
  have b8: "rfold (\<lambda>k. xor64 b (8 * k)) [0..<n] a = rfold (xor8 b) [0..<8 * n] a" for n
    by (rule rfold_blocks) (rule xor64_bytes)
  have b4: "rfold (\<lambda>k. xor32 b (4 * k)) [0..<n] a = rfold (xor8 b) [0..<4 * n] a" for n
    by (rule rfold_blocks) (rule xor32_bytes)
  have "[0..<10] = [0..<8] @ [8, 9::nat]" by (simp add: upt_rec)
  then have ten: "rfold (xor8 b) [0..<10] a
      = rbind (rfold (xor8 b) [0..<8] a) (\<lambda>a. rbind (xor8 b 8 a) (xor8 b 9))"
    by (simp only: rfold_append rfold.simps(2) [abs_def] rfold_Nil_fun rbind_right)
  have gen: "rbind (rfold (xor8 b) [0..<len mod 4] a) (rfold (\<lambda>i. xor32 b (len mod 4 + 4 * i)) [0..<len div 4])
      = rfold (xor8 b) [0..<len] a"
  proof -
    have "[0..<len] = [0..<len mod 4] @ [len mod 4..<len mod 4 + 4 * (len div 4)]"
      using upt_add_eq_append [of 0 "len mod 4" "4 * (len div 4)"] by simp
    then show ?thesis by (simp add: rfold_append xor32_run [abs_def])
  qed
  show ?thesis
    unfolding xorByteArray_def xorByteArray_ref_def u b8 Let_def
    using b4 [of 5] b4 [of "len div 4"] gen ten
    by (auto simp: xor64_bytes simp del: upt_conv_Cons_Cons)
qed

lemma xorByteArray_ok:
  assumes "n \<le> length a" "n \<le> length b"
  shows "xorByteArray a b n = Ok (bxor (take n a) (take n b) @ drop n a)"
proof -
  have "length (bxor (take n a) (take n b)) = n" using assms by (simp add: min_def)
  then show ?thesis using assms xor8_run [of b 0 n a]
    by (simp add: xorByteArray_loop xorByteArray_ref_def blit_def)
qed

lemma xorByteArray_short:
  "0 < n \<Longrightarrow> length a < n \<or> length b < n \<Longrightarrow> xorByteArray a b n = Err OutOfBounds"
  using xor8_run [of b 0 n a] by (auto simp: xorByteArray_loop xorByteArray_ref_def)

text \<open>
  C17: the unrolled \<open>xorByteArray\<close>, with its special cases for 10, 16, 20, 24 and 32
  bytes and its word-wise tail, computes what the byte loop it replaces computes, on
  every input and with the same out-of-bounds accesses.
\<close>


theorem xorByteArray_eq_ref: "xorByteArray a b len = xorByteArray_ref a b len"
  by (rule xorByteArray_loop)

section \<open>What the comparison compares\<close>

lemma neq32_blk:
  assumes "off + 4 \<le> length a" "off + 4 \<le> length b"
  shows "neq32 a b off = Ok (take 4 (drop off a) \<noteq> take 4 (drop off b))"
  using assms by (simp add: neq32_def le_word_inj)

lemma take_add_eq:
  "take (m + n) xs = take (m + n) ys \<longleftrightarrow>
   take m xs = take m ys \<and> take n (drop m xs) = take n (drop m ys)"
  if "m \<le> length xs" "m \<le> length ys"
  using that by (simp add: take_add)

lemma rany_words:
  assumes "r + 4 * n \<le> length a" "r + 4 * n \<le> length b"
  shows "rany (\<lambda>i. neq32 a b (r + 4 * i)) [0..<n]
       = Ok (take (4 * n) (drop r a) \<noteq> take (4 * n) (drop r b))"
proof -
  have "rany (\<lambda>i. neq32 a b (r + 4 * i)) [0..<n]
      = Ok (\<exists>i\<in>set [0..<n]. take 4 (drop (r + 4 * i) a) \<noteq> take 4 (drop (r + 4 * i) b))"
    using assms by (intro rany_Ok neq32_blk) auto
  moreover have "(\<forall>i<n. take 4 (drop (r + 4 * i) a) = take 4 (drop (r + 4 * i) b))
      \<longleftrightarrow> take (4 * n) (drop r a) = take (4 * n) (drop r b)"
    using assms
  proof (induction n)
    case (Suc n)
    have "take (4 * Suc n) (drop r a) = take (4 * Suc n) (drop r b) \<longleftrightarrow>
        take (4 * n) (drop r a) = take (4 * n) (drop r b) \<and>
        take 4 (drop (r + 4 * n) a) = take 4 (drop (r + 4 * n) b)"
      using take_add_eq [of "4 * n" "drop r a" "drop r b" 4] Suc.prems
      by (simp add: ac_simps)
    then show ?case using Suc by (simp add: less_Suc_eq all_conj_distrib imp_conjL)
  qed simp
  ultimately show ?thesis by auto
qed

lemma compared_bytes_le: "compared_bytes len \<le> len"
  unfolding compared_bytes_def by presburger

lemma rany_neq8:
  assumes "r \<le> length a" "r \<le> length b"
  shows "rany (neq8 a b) [0..<r] = Ok (take r a \<noteq> take r b)"
proof -
  have "rany (neq8 a b) [0..<r] = Ok (\<exists>i\<in>set [0..<r]. a ! i \<noteq> b ! i)"
    using assms by (intro rany_Ok) (auto simp: neq8_def)
  then show ?thesis using assms by (auto simp: list_eq_iff_nth_eq)
qed

lemma compare_prefix:
  assumes "len \<le> length a" "len \<le> length b"
  shows "compareByteArray a b len
       = Ok (take (compared_bytes len) a = take (compared_bytes len) b)"
proof -
  have le: "compared_bytes len \<le> length a" "compared_bytes len \<le> length b"
    using assms compared_bytes_le [of len] by auto
  then show ?thesis
    using rany_words [of "len mod 8" "len div 8" a b] rany_neq8 [of "len mod 8" a b]
      take_add_eq [of "len mod 8" a b "4 * (len div 8)"]
    unfolding compareByteArray_def compared_bytes_def Let_def by auto
qed

lemma compare_short:
  "len < 8 \<Longrightarrow> length a = len \<Longrightarrow> length b = len \<Longrightarrow> compareByteArray a b len = Ok (a = b)"
  by (simp add: compare_prefix compared_bytes_def)

text \<open>
  C20: within its buffers, \<open>compareByteArray\<close> compares exactly the first
  \<open>len mod 8 + 4 * (len div 8)\<close> bytes.
\<close>

theorem compareByteArray_prefix:
  assumes "len \<le> length a" "len \<le> length b"
  shows "compareByteArray a b len
       = Ok (take (compared_bytes len) a = take (compared_bytes len) b)"
  using assms by (rule compare_prefix)

theorem compareByteArray_prefix_witness:
  "compareByteArray [1, 2, 3] [1, 2, 4] 3 = Ok False"
  using compareByteArray_prefix [of 3 "[1, 2, 3]" "[1, 2, 4]"] by (simp add: compared_bytes_def)

text \<open>
  For elements of less than eight bytes (the default element of the program has
  four) the comparison is equality, so \<open>contains\<close> is membership.
\<close>

theorem contains_short:
  assumes "eByteLen < 8" "n \<le> length S" "length e = eByteLen" "\<forall>x\<in>set S. length x = eByteLen"
  shows "contains S e n eByteLen = Ok (e \<in> set (take n S))"
proof -
  have "contains S e n eByteLen = Ok (\<exists>i\<in>set [0..<n]. S ! i = e)"
    unfolding contains_def
  proof (rule rany_Ok)
    fix i assume "i \<in> set [0..<n]"
    then have i: "i < length S" "length (S ! i) = eByteLen" using assms by auto
    then show "rbind (rd S i) (\<lambda>x. compareByteArray x e eByteLen) = Ok (S ! i = e)"
      using assms compare_short by simp
  qed
  then show ?thesis using assms by (auto simp: in_set_conv_nth)
qed

theorem contains_short_witness:
  "contains [[1, 2, 3, 4], [5, 6, 7, 8]] [5, 6, 7, 8] 2 4 = Ok True"
  using contains_short [of 4 2 "[[1, 2, 3, 4], [5, 6, 7, 8]]" "[5, 6, 7, 8]"] by simp

text \<open>
  The comparison is not equality from eight bytes on: two arrays of ten bytes that
  differ in their last four bytes compare as equal.
\<close>

lemma compareByteArray_ten:
  "compareByteArray [0, 0, 0, 0, 0, 0, 0, 0, 0, 0] [0, 0, 0, 0, 0, 0, 1, 2, 3, 4] 10 = Ok True"
  by (simp add: compare_prefix compared_bytes_def)

section \<open>Rounding to bytes\<close>

lemma unat_and_7: "unat (w AND (7::u32)) = unat w mod 8"
proof -
  have "w AND 7 = w mod 8"
    using word_mod_2p_is_mask [of 3 w] by (simp add: mask_eq_exp_minus_1)
  then show ?thesis by (simp add: unat_mod)
qed

lemma unat_drop_3: "unat (drop_bit 3 (w::u32)) = unat w div 8"
  by (simp only: unat_drop_bit_eq) (simp add: drop_bit_eq_div)

lemma unat_ByteLen: "unat (getByteLenByBitLen len) = (unat len + 7) div 8"
proof -
  let ?n = "unat len"
  have r: "len AND 7 = 0 \<longleftrightarrow> ?n mod 8 = 0" by (metis unat_and_7 unat_0 unat_0_iff)
  have "?n < 2 ^ 32" using unsigned_less [of len, where 'a = nat] by simp
  then have "unat (drop_bit 3 len + 1) = ?n div 8 + 1"
    by (subst unat_add_lem [THEN iffD1]) (simp_all add: unat_drop_3)
  then have "unat (getByteLenByBitLen len) = (if ?n mod 8 = 0 then ?n div 8 else ?n div 8 + 1)"
    by (simp add: getByteLenByBitLen_def Let_def r unat_drop_3)
  also have "\<dots> = (?n + 7) div 8" by presburger
  finally show ?thesis .
qed

lemma unat_LeadingZeroes:
  "unat (getLeadingZeroes len) = (if unat len mod 8 = 0 then 0 else 8 - unat len mod 8)"
proof -
  have r: "len AND 7 = 0 \<longleftrightarrow> unat len mod 8 = 0" by (metis unat_and_7 unat_0 unat_0_iff)
  have "len AND 7 \<le> 8" by (simp add: word_le_nat_alt unat_and_7 less_imp_le)
  then have "unat (8 - (len AND 7)) = 8 - unat len mod 8"
    by (simp add: unat_sub unat_and_7)
  then show ?thesis by (simp add: getLeadingZeroes_def Let_def r)
qed

text \<open>
  A bit string of \<open>len\<close> bits is stored in \<open>ceil(len / 8)\<close> bytes and the leading
  zero bits fill the difference; neither computation wraps around, for any 32-bit length.
\<close>

theorem bit_len_rounding:
  "unat (getByteLenByBitLen len) = (unat len + 7) div 8 \<and>
   8 * unat (getByteLenByBitLen len) = unat len + unat (getLeadingZeroes len) \<and>
   unat (getLeadingZeroes len) < 8"
proof -
  have "8 * ((n + 7) div 8) = n + (if n mod 8 = 0 then 0 else 8 - n mod 8)" for n :: nat
  proof -
    have "(n + 7) div 8 = (if n mod 8 = 0 then n div 8 else n div 8 + 1)" by presburger
    moreover have "8 * (if r = 0 then q else q + 1) = m + (if r = 0 then 0 else 8 - r)"
      if "8 * q + r = m" "r < 8" for q r m :: nat
      using that by auto
    ultimately show ?thesis by simp
  qed
  from this [of "unat len"] show ?thesis
    unfolding unat_ByteLen unat_LeadingZeroes by (intro conjI) (assumption | rule refl | simp)+
qed

section \<open>Bit maps\<close>

lemma test_mask: "b AND bit_mask k = 0 \<longleftrightarrow> \<not> bit b (nat (7 - k mod 8))"
  by (simp add: bit_mask_def bit_iff_and_push_bit_not_eq_0)

lemma bit_or_mask:
  "bit (b OR bit_mask k) (nat (7 - j mod 8)) \<longleftrightarrow> bit b (nat (7 - j mod 8)) \<or> j mod 8 = k mod 8"
proof -
  have "j mod 8 \<le> 7" "k mod 8 \<le> 7" "0 \<le> j mod 8" by presburger+
  then have "nat (7 - j mod 8) < 8" "0 \<le> 7 - j mod 8" "0 \<le> 7 - k mod 8" by linarith+
  then have "nat (7 - j mod 8) = nat (7 - k mod 8) \<longleftrightarrow> j mod 8 = k mod 8" by (simp add: nat_eq_iff)
  then show ?thesis using \<open>nat (7 - j mod 8) < 8\<close>
    by (auto simp: bit_mask_def bit_or_iff bit_exp_iff push_bit_eq_mult)
qed

lemma setBit_Ok_iff:
  "setBit bm i lz = Ok bm' \<longleftrightarrow> 0 \<le> i + lz \<and> (i + lz) div 8 < int (length bm) \<and>
   bm' = bm[nat ((i + lz) div 8) := bm ! nat ((i + lz) div 8) OR bit_mask (i + lz)]"
  by (auto simp: setBit_def rdi_def wri_def rd_def wr_def res_simps nat_less_iff
      pos_imp_zdiv_nonneg_iff split: if_splits)

lemma getBit_Ok:
  "0 \<le> i + lz \<Longrightarrow> (i + lz) div 8 < int (length bm) \<Longrightarrow>
   getBit bm i lz = Ok (bit (bm ! nat ((i + lz) div 8)) (nat (7 - (i + lz) mod 8)))"
  by (simp add: getBit_def test_mask)

lemma getBit_Err:
  "\<not> (0 \<le> i + lz \<and> (i + lz) div 8 < int (length bm)) \<Longrightarrow> getBit bm i lz = Err OutOfBounds"
  by (auto simp: getBit_def rdi_def rd_def)

lemma getBit_after_setBit:
  assumes "setBit bm i lz = Ok bm'"
  shows "getBit bm' j lz = (if j = i then Ok True else getBit bm j lz)"
proof (cases "0 \<le> j + lz \<and> (j + lz) div 8 < int (length bm)")
  case True
  have S: "0 \<le> i + lz" "(i + lz) div 8 < int (length bm)"
    "bm' = bm[nat ((i + lz) div 8) := bm ! nat ((i + lz) div 8) OR bit_mask (i + lz)]"
    using assms by (simp_all add: setBit_Ok_iff)
  have eq: "nat ((i + lz) div 8) = nat ((j + lz) div 8) \<longleftrightarrow> (i + lz) div 8 = (j + lz) div 8"
    by (rule eq_nat_nat_iff) (use S True in \<open>simp_all add: pos_imp_zdiv_nonneg_iff\<close>)
  have len: "length bm' = length bm" by (simp only: S(3) length_list_update)
  have ij: "(i + lz) div 8 = (j + lz) div 8 \<and> (j + lz) mod 8 = (i + lz) mod 8 \<longleftrightarrow> j = i"
    by (metis add_right_cancel div_mult_mod_eq)
  show ?thesis
  proof (cases "(i + lz) div 8 = (j + lz) div 8")
    case same: True
    then have "getBit bm' j lz = Ok (bit (bm ! nat ((j + lz) div 8) OR bit_mask (i + lz)) (nat (7 - (j + lz) mod 8)))"
      using S True by (simp add: getBit_Ok nat_less_iff)
    moreover have "(j + lz) mod 8 = (i + lz) mod 8 \<longleftrightarrow> j = i" using same ij by blast
    moreover have "getBit bm j lz = Ok (bit (bm ! nat ((j + lz) div 8)) (nat (7 - (j + lz) mod 8)))"
      using True by (simp only: getBit_Ok)
    ultimately show ?thesis by (simp only: bit_or_mask) simp
  next
    case False
    then have ne: "nat ((i + lz) div 8) \<noteq> nat ((j + lz) div 8)" "j \<noteq> i" using eq by auto
    have new: "getBit bm' j lz = Ok (bit (bm' ! nat ((j + lz) div 8)) (nat (7 - (j + lz) mod 8)))"
      and old: "getBit bm j lz = Ok (bit (bm ! nat ((j + lz) div 8)) (nat (7 - (j + lz) mod 8)))"
      using True len by (simp_all only: getBit_Ok)
    have "bm' ! nat ((j + lz) div 8) = bm ! nat ((j + lz) div 8)"
      unfolding S(3) by (rule nth_list_update_neq) (rule ne)
    then show ?thesis using ne(2) by (simp only: new old if_False)
  qed
next
  case False
  then show ?thesis using assms by (auto simp: getBit_Err setBit_Ok_iff)
qed

lemma setBit_length: "setBit bm i lz = Ok bm' \<Longrightarrow> length bm' = length bm"
  by (auto simp: setBit_Ok_iff)

text \<open>
  C21: after \<open>setBit\<close> at position \<open>i\<close>, \<open>getBit\<close> reads 1 at \<open>i\<close> and what it read
  before at every other position, errors of positions out of range included.
\<close>

theorem getBit_setBit:
  assumes "setBit bm i lz = Ok bm'"
  shows "getBit bm' j lz = (if j = i then Ok True else getBit bm j lz)"
  using assms by (rule getBit_after_setBit)

theorem getBit_setBit_witness:
  "getBit [0x10, 0] 3 0 = Ok True \<and> getBit [0x10, 0] 12 0 = getBit [0, 0] 12 0"
proof -
  have "setBit [0, 0] 3 0 = Ok [0x10, 0]" by (simp add: setBit_Ok_iff bit_mask_def)
  from getBit_setBit [OF this, of 3] getBit_setBit [OF this, of 12] show ?thesis by simp
qed

end
