(* ===== verification/Primitives.thy ===== *)
theory Primitives
  imports CUtil
begin

text \<open>
  The wrappers around the cryptographic library: \<open>RangeHash\<close> (a keyed hash into
  \<open>[0, m-1]\<close>), \<open>MessageDigest\<close> (the hash of a security level), \<open>AESRandom\<close> (AES in
  counter mode as a pseudorandom stream) and \<open>RandomSource\<close> (precomputed random
  blocks handed from the producer threads to the builder).

  SHA and AES are not code of the repository: \<open>sha1\<close>, \<open>md\<close> and the key stream \<open>ks\<close>
  are parameters.  What is relied on is documented behaviour: SHA-1 returns 20
  bytes, and encrypting in counter mode XORs the next bytes of a key stream that
  only depends on the key.
\<close>

section \<open>Byte swapping\<close>

definition bswap32 :: "u32 \<Rightarrow> u32" where
  "bswap32 x = drop_bit 24 (x AND 0xff000000) OR drop_bit 8 (x AND 0x00ff0000) OR
               push_bit 8 (x AND 0x0000ff00) OR push_bit 24 (x AND 0x000000ff)"

definition bswap16 :: "16 word \<Rightarrow> 16 word" where
  "bswap16 x = (drop_bit 8 x AND 0xff) OR push_bit 8 (x AND 0xff)"

section \<open>RangeHash\<close>

record RangeHash =
  rh_key :: bytes
  rh_keyLen :: nat
  rh_dataBuf :: bytes
  rh_m :: int

definition RangeHash_BuffLen :: nat where "RangeHash_BuffLen = 5"
definition RangeHash_DataBufLen :: nat where "RangeHash_DataBufLen = 64"

text \<open>The fields of the freshly allocated struct before the call are \<open>hash\<close>.\<close>

definition RangeHash_Create :: "RangeHash \<Rightarrow> bytes \<Rightarrow> nat \<Rightarrow> int \<Rightarrow> RangeHash res" where
  "RangeHash_Create hash key keyLen m =
     rbind (if keyLen < RangeHash_DataBufLen
            then rbind (rd_blk key 0 keyLen) (wr_blk (rh_dataBuf hash) 0)
            else Ok (rh_dataBuf hash)) (\<lambda>buf.
     Ok (hash\<lparr>rh_m := m, rh_key := key, rh_keyLen := keyLen, rh_dataBuf := buf\<rparr>))"

text \<open>
  The reduction of the five digest words: \<open>num = first | second << 32\<close> in 64 bits and
  \<open>first = num % m\<close>, where \<open>m\<close> is converted to 64 bits.  A modulus of 0 traps.
\<close>

definition rh_step :: "int \<Rightarrow> u32 \<Rightarrow> u32 \<Rightarrow> u32" where
  "rh_step m second first =
     (let num = (ucast first :: u64) OR push_bit 32 (ucast second)
      in ucast (num mod word_of_int m))"

definition rh_word :: "bytes \<Rightarrow> nat \<Rightarrow> u32 res" where
  "rh_word digest i = rbind (rd_blk digest (4 * i) 4) (\<lambda>b. Ok (bswap32 (le_word b)))"

definition rh_reduce :: "int \<Rightarrow> bytes \<Rightarrow> int res" where
  "rh_reduce m digest =
     (if (word_of_int m :: u64) = 0 then Err AssertFail else
      rbind (rh_word digest 0) (\<lambda>first.
      rbind (rfold (\<lambda>i first. rbind (rh_word digest (i + 1)) (\<lambda>second. Ok (rh_step m second first)))
               [0..<RangeHash_BuffLen - 1] first) (\<lambda>first.
      Ok (sint first))))"

definition RangeHash_Digest ::
    "(bytes \<Rightarrow> bytes) \<Rightarrow> RangeHash \<Rightarrow> bytes \<Rightarrow> nat \<Rightarrow> (int \<times> RangeHash) res" where
  "RangeHash_Digest sha1 H data dataLen =
     (let inputLen = dataLen + rh_keyLen H in
      if inputLen > RangeHash_DataBufLen then
        rbind (rd_blk (rh_key H) 0 (rh_keyLen H)) (\<lambda>k.
        rbind (rd_blk data 0 dataLen) (\<lambda>d.
        rbind (rh_reduce (rh_m H) (sha1 (k @ d))) (\<lambda>v. Ok (v, H))))
      else
        rbind (rd_blk data 0 dataLen) (\<lambda>d.
        rbind (wr_blk (rh_dataBuf H) (rh_keyLen H) d) (\<lambda>buf.
        rbind (rd_blk buf 0 inputLen) (\<lambda>input.
        rbind (rh_reduce (rh_m H) (sha1 input)) (\<lambda>v. Ok (v, H\<lparr>rh_dataBuf := buf\<rparr>))))))"

text \<open>
  The value alone: the only field a digest changes is the scratch part of \<open>dataBuf\<close>,
  which no later digest depends on (\<open>RangeHash_Digest_ok\<close> below).
\<close>

definition RangeHash_value :: "(bytes \<Rightarrow> bytes) \<Rightarrow> RangeHash \<Rightarrow> bytes \<Rightarrow> nat \<Rightarrow> int res" where
  "RangeHash_value sha1 H data dataLen =
     rbind (RangeHash_Digest sha1 H data dataLen) (\<lambda>(v, H'). Ok v)"

section \<open>MessageDigest\<close>

datatype md_alg = SHA1 | SHA256 | SHA384 | SHA512

record MessageDigest =
  md_alg :: md_alg
  digestLen :: nat

definition MD_Create :: "int \<Rightarrow> MessageDigest res" where
  "MD_Create strength =
     (if strength = 80 then Ok \<lparr>md_alg = SHA1, digestLen = 20\<rparr>
      else if strength = 128 then Ok \<lparr>md_alg = SHA256, digestLen = 32\<rparr>
      else if strength = 192 then Ok \<lparr>md_alg = SHA384, digestLen = 48\<rparr>
      else if strength = 256 then Ok \<lparr>md_alg = SHA512, digestLen = 64\<rparr>
      else Err AssertFail)"

definition getHashInstance :: "int \<Rightarrow> MessageDigest res" where
  "getHashInstance k = rbind (rassert (k = 80 \<or> k = 128 \<or> k = 192 \<or> k = 256)) (\<lambda>_. MD_Create k)"

definition MD_Digest ::
    "(md_alg \<Rightarrow> bytes \<Rightarrow> bytes) \<Rightarrow> MessageDigest \<Rightarrow> bytes \<Rightarrow> nat \<Rightarrow> bytes \<Rightarrow> bytes res" where
  "MD_Digest md d data len out = rbind (rd_blk data 0 len) (\<lambda>x. wr_blk out 0 (md (md_alg d) x))"

section \<open>AESRandom\<close>

text \<open>
  The cipher context is the key (16, 24 or 32 bytes, which also selects the cipher)
  and the number of key stream bytes already used; the initial vector is zero.
\<close>

record AESRandom =
  ar_key :: bytes
  ar_pos :: nat

definition seedLen_ok :: "nat \<Rightarrow> bool" where
  "seedLen_ok n \<longleftrightarrow> n = 10 \<or> n = 16 \<or> n = 24 \<or> n = 32"

text \<open>\<open>rand\<close> is the key that \<open>RAND_bytes\<close> produced; the cipher uses its first bytes.\<close>

definition AESRandom_Create :: "bytes \<Rightarrow> nat \<Rightarrow> AESRandom res" where
  "AESRandom_Create rand seedLen =
     rbind (rassert (seedLen_ok seedLen)) (\<lambda>_.
     rbind (rd_blk rand 0 (if seedLen = 10 then 16 else seedLen)) (\<lambda>key.
     Ok \<lparr>ar_key = key, ar_pos = 0\<rparr>))"

definition AESRandom_Create_With_Seed :: "bytes \<Rightarrow> nat \<Rightarrow> AESRandom res" where
  "AESRandom_Create_With_Seed seed seedLen =
     rbind (rassert (seedLen_ok seedLen)) (\<lambda>_.
     rbind (rd_blk seed 0 seedLen) (\<lambda>s.
     Ok \<lparr>ar_key = (if seedLen = 10 then s @ replicate 6 0 else s), ar_pos = 0\<rparr>))"

definition getRandomInstance :: "bytes \<Rightarrow> int \<Rightarrow> AESRandom res" where
  "getRandomInstance rand k =
     rbind (rassert (k = 80 \<or> k = 128 \<or> k = 192 \<or> k = 256)) (\<lambda>_. AESRandom_Create rand (nat (k div 8)))"

definition getSeededRandomInstance :: "bytes \<Rightarrow> int \<Rightarrow> AESRandom res" where
  "getSeededRandomInstance seed k =
     rbind (rassert (k = 80 \<or> k = 128 \<or> k = 192 \<or> k = 256)) (\<lambda>_.
     AESRandom_Create_With_Seed seed (nat (k div 8)))"

text \<open>\<open>NextBytes\<close> encrypts the buffer in place, so it XORs the key stream into its contents.\<close>

definition keystream :: "(bytes \<Rightarrow> nat \<Rightarrow> u8) \<Rightarrow> AESRandom \<Rightarrow> nat \<Rightarrow> bytes" where
  "keystream ks rnd n = map (ks (ar_key rnd)) [ar_pos rnd..<ar_pos rnd + n]"

definition AESRandom_NextBytes ::
    "(bytes \<Rightarrow> nat \<Rightarrow> u8) \<Rightarrow> AESRandom \<Rightarrow> bytes \<Rightarrow> nat \<Rightarrow> (bytes \<times> AESRandom) res" where
  "AESRandom_NextBytes ks rnd out outl =
     rbind (rd_blk out 0 outl) (\<lambda>x.
     rbind (wr_blk out 0 (bxor x (keystream ks rnd outl))) (\<lambda>out'.
     Ok (out', rnd\<lparr>ar_pos := ar_pos rnd + outl\<rparr>)))"

definition AESRandom_NextInt :: "(bytes \<Rightarrow> nat \<Rightarrow> u8) \<Rightarrow> AESRandom \<Rightarrow> (u32 \<times> AESRandom) res" where
  "AESRandom_NextInt ks rnd =
     rbind (AESRandom_NextBytes ks rnd (replicate 4 0) 4) (\<lambda>(i, rnd'). Ok (le_word i, rnd'))"

section \<open>RandomSource\<close>

text \<open>
  Rows arrive from other threads: a row that has not been inserted is \<open>None\<close>.
  \<open>Take\<close> polls until the current row is there, so without it the call does not
  return (\<open>None\<close>); a row index past the array is out of bounds.
\<close>

record RandomSource =
  rndBytes :: "bytes option list"
  rs_index :: nat
  rs_start :: nat
  rs_blockSize :: nat

definition RandomSource_Create :: "nat \<Rightarrow> nat \<Rightarrow> RandomSource" where
  "RandomSource_Create numRows Blocksize =
     \<lparr>rndBytes = replicate numRows None, rs_index = 0, rs_start = 0, rs_blockSize = Blocksize\<rparr>"

definition RandomSource_Insert :: "RandomSource \<Rightarrow> bytes \<Rightarrow> nat \<Rightarrow> RandomSource res" where
  "RandomSource_Insert rs rowData i =
     rbind (wr (rndBytes rs) i (Some rowData)) (\<lambda>rows. Ok (rs\<lparr>rndBytes := rows\<rparr>))"

definition RandomSource_Take :: "RandomSource \<Rightarrow> (bytes \<times> RandomSource) res option" where
  "RandomSource_Take rs =
     (case rd (rndBytes rs) (rs_index rs) of
        Inl e \<Rightarrow> Some (Err e)
      | Inr None \<Rightarrow> None
      | Inr (Some row) \<Rightarrow> Some (
          rbind (rd_blk row (rs_start rs) (rs_blockSize rs)) (\<lambda>block.
          let start = rs_start rs + rs_blockSize rs in
          if start \<ge> length row
          then Ok (block, rs\<lparr>rs_start := 0, rs_index := rs_index rs + 1\<rparr>)
          else Ok (block, rs\<lparr>rs_start := start\<rparr>))))"

fun RandomSource_Takes :: "nat \<Rightarrow> RandomSource \<Rightarrow> (bytes list \<times> RandomSource) res option" where
  "RandomSource_Takes 0 rs = Some (Ok ([], rs))"
| "RandomSource_Takes (Suc n) rs =
     (case RandomSource_Take rs of
        None \<Rightarrow> None
      | Some (Inl e) \<Rightarrow> Some (Err e)
      | Some (Inr (b, rs')) \<Rightarrow>
          (case RandomSource_Takes n rs' of
             None \<Rightarrow> None
           | Some (Inl e) \<Rightarrow> Some (Err e)
           | Some (Inr (bs, rs'')) \<Rightarrow> Some (Ok (b # bs, rs''))))"

section \<open>Byte swapping reverses the bytes\<close>

lemma bit_bswap32:
  "bit (bswap32 x) k \<longleftrightarrow> k < 32 \<and> bit x (8 * (3 - k div 8) + k mod 8)"
proof -
  have masks: "(0xff000000::u32) = push_bit 24 (mask 8)" "(0x00ff0000::u32) = push_bit 16 (mask 8)"
    "(0x0000ff00::u32) = push_bit 8 (mask 8)" "(0x000000ff::u32) = mask 8"
    by (simp_all add: mask_eq_exp_minus_1 push_bit_eq_mult)
  have t1: "bit (drop_bit 24 (x AND push_bit 24 (mask 8))) k \<longleftrightarrow> k < 8 \<and> bit x (24 + k)"
    using bit_imp_le_length [of x "24 + k"]
    by (auto simp: bit_and_iff bit_push_bit_iff bit_drop_bit_eq bit_mask_iff)
  have t2: "bit (drop_bit 8 (x AND push_bit 16 (mask 8))) k \<longleftrightarrow> 8 \<le> k \<and> k < 16 \<and> bit x (8 + k)"
    using bit_imp_le_length [of x "8 + k"]
    by (auto simp: bit_and_iff bit_push_bit_iff bit_drop_bit_eq bit_mask_iff)
  have t3: "bit (push_bit 8 (x AND push_bit 8 (mask 8))) k \<longleftrightarrow> 16 \<le> k \<and> k < 24 \<and> bit x (k - 8)"
    by (auto simp: bit_and_iff bit_push_bit_iff bit_mask_iff)
  have t4: "bit (push_bit 24 (x AND mask 8)) k \<longleftrightarrow> 24 \<le> k \<and> k < 32 \<and> bit x (k - 24)"
    by (auto simp: bit_and_iff bit_push_bit_iff bit_mask_iff)
  have b: "bit (bswap32 x) k \<longleftrightarrow> (k < 8 \<and> bit x (24 + k)) \<or> (8 \<le> k \<and> k < 16 \<and> bit x (8 + k)) \<or>
      (16 \<le> k \<and> k < 24 \<and> bit x (k - 8)) \<or> (24 \<le> k \<and> k < 32 \<and> bit x (k - 24))"
    unfolding bswap32_def masks bit_or_iff t1 t2 t3 t4 by blast
  consider "k < 8" | "8 \<le> k" "k < 16" | "16 \<le> k" "k < 24" | "24 \<le> k" "k < 32" | "32 \<le> k" by linarith
  then show ?thesis
  proof cases
    case 2
    then have "k div 8 = 1" "k mod 8 = k - 8" by presburger+
    then show ?thesis using 2 by (simp add: b)
  next
    case 3
    then have "k div 8 = 2" "k mod 8 = k - 16" by presburger+
    then show ?thesis using 3 by (simp add: b)
  next
    case 4
    then have "k div 8 = 3" "k mod 8 = k - 24" by presburger+
    then show ?thesis using 4 by (simp add: b)
  qed (auto simp: b)
qed

lemma le_bytes_bswap32: "le_bytes 4 (bswap32 x) = rev (le_bytes 4 x)"
proof (rule nth_equalityI)
  fix i assume "i < length (le_bytes 4 (bswap32 x))"
  then have i: "i < 4" by simp
  show "le_bytes 4 (bswap32 x) ! i = rev (le_bytes 4 x) ! i"
  proof (rule bit_word_eqI)
    fix k assume "k < LENGTH(8)"
    then have k: "k < 8" by simp
    then have "(8 * i + k) div 8 = i" "(8 * i + k) mod 8 = k" by simp_all
    then show "bit (le_bytes 4 (bswap32 x) ! i) k = bit (rev (le_bytes 4 x) ! i) k"
      using i k by (simp add: rev_nth bit_le_bytes bit_bswap32)
  qed
qed simp

lemma bswap32_le_word: "length bs = 4 \<Longrightarrow> bswap32 (le_word bs) = le_word (rev bs)"
proof -
  assume len: "length bs = 4"
  have "le_bytes 4 (bswap32 (le_word bs)) = rev bs"
    using len le_bytes_word [of bs, where 'a = 32] by (simp add: le_bytes_bswap32)
  then show ?thesis using le_word_bytes [of 4 "bswap32 (le_word bs)"] by simp
qed

lemma bswap32_involution: "bswap32 (bswap32 x) = x"
  by (rule bit_word_eqI) (auto simp: bit_bswap32)

section \<open>Words as numbers\<close>

text \<open>The big-endian value of four bytes, as the digest words are meant to be read.\<close>

definition be_nat :: "bytes \<Rightarrow> nat" where
  "be_nat bs = foldl (\<lambda>v b. 256 * v + unat b) 0 bs"

fun le_nat :: "bytes \<Rightarrow> nat" where
  "le_nat [] = 0"
| "le_nat (b # bs) = unat b + 256 * le_nat bs"

lemma le_nat_less: "le_nat bs < 256 ^ length bs"
proof (induction bs)
  case (Cons b bs)
  have "unat b < 256" using unsigned_less [of b, where 'a = nat] by simp
  then have "unat b + 256 * le_nat bs < 256 * (le_nat bs + 1)" by simp
  also have "\<dots> \<le> 256 * 256 ^ length bs" using Cons by (intro mult_le_mono2) simp
  finally show ?case by simp
qed simp

lemma be_nat_rev: "be_nat bs = le_nat (rev bs)"
proof -
  have "foldl (\<lambda>v b. 256 * v + unat b) 0 (rev cs) = le_nat cs" for cs
    by (induction cs) auto
  from this [of "rev bs"] show ?thesis by (simp add: be_nat_def)
qed

lemma unat_or_disjoint:
  fixes v w :: "'a::len word"
  assumes "\<And>k. \<not> bit v k \<or> \<not> bit w k" and "unat v + unat w < 2 ^ LENGTH('a)"
  shows "unat (v OR w) = unat v + unat w"
proof -
  have "v OR w = v + w" using assms(1) by (simp add: disjunctive_add)
  then show ?thesis using assms(2) by (simp add: unat_add_lem [THEN iffD1])
qed

lemma unat_le_word: "8 * length bs \<le> LENGTH('a::len) \<Longrightarrow> unat (le_word bs :: 'a word) = le_nat bs"
proof (induction bs)
  case (Cons b bs)
  have small: "le_nat (b # bs) < 2 ^ LENGTH('a)"
  proof -
    have "le_nat (b # bs) < 256 ^ length (b # bs)" by (rule le_nat_less)
    also have "(256::nat) ^ length (b # bs) = 2 ^ (8 * length (b # bs))" 
      using power_mult [of "2::nat" 8 "length (b # bs)"] by simp
    also have "\<dots> \<le> 2 ^ LENGTH('a)" using Cons.prems by (intro power_increasing) auto
    finally show ?thesis .
  qed
  let ?w = "le_word bs :: 'a word"
  have IH: "unat ?w = le_nat bs" using Cons by simp
  have b: "unat (ucast b :: 'a word) = unat b"
    using small by (simp add: unsigned_ucast_eq take_bit_nat_eq_self)
  have p: "unat (push_bit 8 ?w) = 256 * le_nat bs"
    using small by (simp only: unsigned_push_bit_eq IH) (simp add: take_bit_nat_eq_self push_bit_eq_mult)
  have "unat (ucast b OR push_bit 8 ?w) = unat b + 256 * le_nat bs"
  proof -
    have "\<not> bit (ucast b :: 'a word) k \<or> \<not> bit (push_bit 8 ?w) k" for k
      using bit_imp_le_length [of b k] by (auto simp: bit_ucast_iff bit_push_bit_iff)
    then show ?thesis using small b p by (subst unat_or_disjoint) simp_all
  qed
  then show ?case by simp
qed simp

lemma unat_bswap32_be: "length bs = 4 \<Longrightarrow> unat (bswap32 (le_word bs)) = be_nat bs"
  by (simp add: bswap32_le_word unat_le_word be_nat_rev)

lemma be_nat_less: "length bs = 4 \<Longrightarrow> be_nat bs < 2 ^ 32"
  using le_nat_less [of "rev bs"] by (simp add: be_nat_rev)
section \<open>The range hash\<close>

text \<open>
  What the reduction computes: the first digest word plus \<open>2^32\<close> times the sum of the
  other four, modulo \<open>m\<close>.
\<close>

definition digest_word :: "bytes \<Rightarrow> nat \<Rightarrow> nat" where
  "digest_word digest i = be_nat (take 4 (drop (4 * i) digest))"

definition range_index :: "nat \<Rightarrow> bytes \<Rightarrow> nat" where
  "range_index m digest = (digest_word digest 0 + 2 ^ 32 * (digest_word digest 1 + digest_word digest 2
     + digest_word digest 3 + digest_word digest 4)) mod m"

lemma unat_rh_step:
  assumes "0 < m" "m < 2 ^ 31"
  shows "unat (rh_step m second first) = (unat first + 2 ^ 32 * unat second) mod nat m"
proof -
  let ?n = "(ucast first :: u64) OR push_bit 32 (ucast second)"
  have lt: "unat first < 2 ^ 32" "unat second < 2 ^ 32"
    using unsigned_less [of first, where 'a = nat] unsigned_less [of second, where 'a = nat] by simp_all
  have f: "unat (ucast first :: u64) = unat first"
    using lt by (simp add: unsigned_ucast_eq take_bit_nat_eq_self)
  have u: "unat (ucast second :: u64) = unat second"
    using lt by (simp add: unsigned_ucast_eq take_bit_nat_eq_self)
  have s: "unat (push_bit 32 (ucast second) :: u64) = 2 ^ 32 * unat second"
    using lt by (simp only: unsigned_push_bit_eq u) (simp add: take_bit_nat_eq_self push_bit_eq_mult)
  have d: "\<not> bit (ucast first :: u64) k \<or> \<not> bit (push_bit 32 (ucast second) :: u64) k" for k
    using bit_imp_le_length [of first k] by (auto simp: bit_ucast_iff bit_push_bit_iff)
  have n: "unat ?n = unat first + 2 ^ 32 * unat second"
    using lt f s by (subst unat_or_disjoint) (use d in simp_all)
  have m: "unat (word_of_int m :: u64) = nat m"
    using assms by (simp add: unat_eq_nat_uint uint_word_of_int)
  have "unat (?n mod word_of_int m) = (unat first + 2 ^ 32 * unat second) mod nat m"
    by (simp only: unat_mod n m)
  moreover have "\<dots> < 2 ^ 32"
  proof -
    have m: "0 < nat m" "nat m < 2 ^ 31" using assms by (simp_all add: nat_less_iff)
    show ?thesis using mod_less_divisor [OF m(1)] m(2) by (rule less_trans [OF _ less_trans]) simp
  qed
  ultimately show ?thesis
    by (simp add: rh_step_def Let_def unsigned_ucast_eq take_bit_nat_eq_self)
qed

lemma rh_word_ok: "length d = 20 \<Longrightarrow> i < 5 \<Longrightarrow> \<exists>w. rh_word d i = Ok w \<and> unat w = digest_word d i"
  by (simp add: rh_word_def digest_word_def unat_bswap32_be)

lemma rh_reduce_index:
  assumes "length digest = 20" "0 < m" "m < 2 ^ 31"
  shows "rh_reduce m digest = Ok (int (range_index (nat m) digest))"
proof -
  have w: "\<exists>w. rh_word digest i = Ok w \<and> unat w = digest_word digest i" if "i < 5" for i
    using rh_word_ok assms(1) that by blast
  obtain a b c d e where
    words: "rh_word digest 0 = Ok a" "rh_word digest (Suc 0) = Ok b" "rh_word digest 2 = Ok c"
      "rh_word digest 3 = Ok d" "rh_word digest 4 = Ok e"
    and vals: "unat a = digest_word digest 0" "unat b = digest_word digest 1" "unat c = digest_word digest 2"
      "unat d = digest_word digest 3" "unat e = digest_word digest 4"
    using w [of 0] w [of 1] w [of 2] w [of 3] w [of 4] by auto
  have m0: "(word_of_int m :: u64) \<noteq> 0" 
    using assms by (simp add: word_of_int_eq_0_iff zdvd_not_zless)
  let ?f = "rh_step m e (rh_step m d (rh_step m c (rh_step m b a)))"
  have loop: "[0..<RangeHash_BuffLen - 1] = [0, 1, 2, 3]" by (simp add: RangeHash_BuffLen_def upt_rec)
  have w2: "rh_word digest (Suc (Suc 0)) = Ok c" using words(3) by (simp add: numeral_2_eq_2)
  have red: "rh_reduce m digest = Ok (sint ?f)"
    using m0 words w2 unfolding rh_reduce_def loop by simp
  have val: "unat ?f = range_index (nat m) digest"
    unfolding range_index_def unat_rh_step [OF assms(2,3)] vals by (simp add: mod_simps algebra_simps)
  have "range_index (nat m) digest < nat m" using assms by (simp add: range_index_def)
  then have "uint ?f < 2 ^ 31" using val assms by (simp flip: uint_nat add: uint_nat)
  then have "sint ?f = uint ?f"
    unfolding sint_uint by (intro signed_take_bit_int_eq_self) (auto intro: order_trans [of _ 0])
  then show ?thesis using red val by (simp add: uint_nat)
qed

definition rh_ok :: "RangeHash \<Rightarrow> bool" where
  "rh_ok H \<longleftrightarrow> rh_keyLen H \<le> length (rh_key H) \<and> length (rh_dataBuf H) = RangeHash_DataBufLen \<and>
     (rh_keyLen H \<le> RangeHash_DataBufLen \<longrightarrow>
        take (rh_keyLen H) (rh_dataBuf H) = take (rh_keyLen H) (rh_key H))"

definition sha1_ok :: "(bytes \<Rightarrow> bytes) \<Rightarrow> bool" where
  "sha1_ok sha1 \<longleftrightarrow> (\<forall>x. length (sha1 x) = 20)"

text \<open>The keyed hash as a function of key, modulus and data.\<close>

definition rh_index :: "(bytes \<Rightarrow> bytes) \<Rightarrow> RangeHash \<Rightarrow> bytes \<Rightarrow> nat" where
  "rh_index sha1 H x = range_index (nat (rh_m H)) (sha1 (take (rh_keyLen H) (rh_key H) @ x))"

lemma RangeHash_Create_ok:
  assumes "length (rh_dataBuf hash) = RangeHash_DataBufLen" "keyLen \<le> length key"
    "keyLen \<noteq> RangeHash_DataBufLen"
  obtains H where "RangeHash_Create hash key keyLen m = Ok H" "rh_ok H"
    "rh_key H = key" "rh_keyLen H = keyLen" "rh_m H = m"
  using assms unfolding RangeHash_Create_def rh_ok_def
  by (cases "keyLen < RangeHash_DataBufLen") (auto simp: blit_def)

lemma RangeHash_Digest_ok:
  assumes "rh_ok H" "sha1_ok sha1" "0 < rh_m H" "rh_m H < 2 ^ 31" "dataLen \<le> length data"
  shows "\<exists>H'. RangeHash_Digest sha1 H data dataLen = Ok (int (rh_index sha1 H (take dataLen data)), H') \<and>
    rh_ok H' \<and> rh_key H' = rh_key H \<and> rh_keyLen H' = rh_keyLen H \<and> rh_m H' = rh_m H"
proof (cases "dataLen + rh_keyLen H > RangeHash_DataBufLen")
  case True
  have "rh_reduce (rh_m H) (sha1 (take (rh_keyLen H) (rh_key H) @ take dataLen data))
      = Ok (int (rh_index sha1 H (take dataLen data)))"
    unfolding rh_index_def using assms by (intro rh_reduce_index) (auto simp: sha1_ok_def)
  then show ?thesis using True assms by (simp add: RangeHash_Digest_def rh_ok_def)
next
  case False
  let ?b = "blit (rh_dataBuf H) (rh_keyLen H) (take dataLen data)"
  have len: "length (rh_dataBuf H) = RangeHash_DataBufLen" using assms by (simp add: rh_ok_def)
  have pre: "take (dataLen + rh_keyLen H) ?b = take (rh_keyLen H) (rh_key H) @ take dataLen data"
    "take (rh_keyLen H) ?b = take (rh_keyLen H) (rh_key H)" "length ?b = RangeHash_DataBufLen"
    using assms False len by (auto simp: rh_ok_def blit_def min_def)
  have "rh_reduce (rh_m H) (sha1 (take (rh_keyLen H) (rh_key H) @ take dataLen data))
      = Ok (int (rh_index sha1 H (take dataLen data)))"
    unfolding rh_index_def using assms by (intro rh_reduce_index) (auto simp: sha1_ok_def)
  then show ?thesis using False assms pre len by (simp add: RangeHash_Digest_def rh_ok_def)
qed

lemma RangeHash_value_ok:
  assumes "rh_ok H" "sha1_ok sha1" "0 < rh_m H" "rh_m H < 2 ^ 31" "dataLen \<le> length data"
  shows "RangeHash_value sha1 H data dataLen = Ok (int (rh_index sha1 H (take dataLen data)))"
  using RangeHash_Digest_ok [OF assms] by (auto simp: RangeHash_value_def)

lemma rh_index_less: "0 < rh_m H \<Longrightarrow> int (rh_index sha1 H x) < rh_m H"
  unfolding rh_index_def range_index_def
  by (metis mod_less_divisor nat_int zero_less_nat_eq zless_nat_eq_int_zless)
text \<open>
  C18: a range hash created with a key maps data to the same index in \<open>[0, m)\<close> as SHA-1 of
  key and data reduced to \<open>m\<close>, whether or not the input fits the 64-byte buffer, and a
  digest does not change what later digests return.
\<close>

theorem RangeHash_keyed:
  assumes "length (rh_dataBuf hash) = RangeHash_DataBufLen" "keyLen \<le> length key" "keyLen \<noteq> RangeHash_DataBufLen"
    and "sha1_ok sha1" "0 < m" "m < 2 ^ 31" "dataLen \<le> length data" "dataLen' \<le> length data'"
  shows "\<exists>H v H'. RangeHash_Create hash key keyLen m = Ok H \<and>
    RangeHash_Digest sha1 H data dataLen = Ok (v, H') \<and>
    v = int (range_index (nat m) (sha1 (take keyLen key @ take dataLen data))) \<and> 0 \<le> v \<and> v < m \<and>
    RangeHash_value sha1 H' data' dataLen' = RangeHash_value sha1 H data' dataLen'"
proof -
  obtain H where H: "RangeHash_Create hash key keyLen m = Ok H" "rh_ok H"
    "rh_key H = key" "rh_keyLen H = keyLen" "rh_m H = m"
    by (rule RangeHash_Create_ok [OF assms(1-3)])
  obtain H' where H': "RangeHash_Digest sha1 H data dataLen = Ok (int (rh_index sha1 H (take dataLen data)), H')"
    "rh_ok H'" "rh_key H' = key" "rh_keyLen H' = keyLen" "rh_m H' = m"
    using RangeHash_Digest_ok [of H sha1 dataLen data] H assms by auto
  have "RangeHash_value sha1 H' data' dataLen' = RangeHash_value sha1 H data' dataLen'"
    using H H' assms by (simp add: RangeHash_value_ok rh_index_def)
  then show ?thesis using H H' rh_index_less [of H sha1 "take dataLen data"] assms
    by (simp add: rh_index_def)
qed

text \<open>A digest of 20 bytes for the witnesses: the length of the input, then zeros.\<close>

definition toy_sha1 :: "bytes \<Rightarrow> bytes" where
  "toy_sha1 x = [0, 0, 0, of_nat (length x), 0, 0, 0, 0, 0, 0, 0, 0, 0, 0, 0, 0, 0, 0, 0, 0]"

lemma toy_sha1_ok: "sha1_ok toy_sha1"
  by (simp add: sha1_ok_def toy_sha1_def)

theorem RangeHash_keyed_witness:
  "\<exists>H v H'. RangeHash_Create \<lparr>rh_key = [], rh_keyLen = 0, rh_dataBuf = replicate 64 7, rh_m = 0\<rparr> [1, 2] 2 5 = Ok H \<and>
    RangeHash_Digest toy_sha1 H [9, 9, 9, 9] 4 = Ok (v, H') \<and> v = 1 \<and>
    RangeHash_value toy_sha1 H' [3] 1 = RangeHash_value toy_sha1 H [3] 1"
proof -
  have v: "int (range_index (nat 5) (toy_sha1 (take 2 [1, 2] @ take 4 [9, 9, 9, 9]))) = 1"
    by (simp add: range_index_def digest_word_def be_nat_def toy_sha1_def)
  have "\<exists>H v H'. RangeHash_Create \<lparr>rh_key = [], rh_keyLen = 0, rh_dataBuf = replicate 64 7, rh_m = 0\<rparr> [1, 2] 2 5 = Ok H \<and>
    RangeHash_Digest toy_sha1 H [9, 9, 9, 9] 4 = Ok (v, H') \<and>
    v = int (range_index (nat 5) (toy_sha1 (take 2 [1, 2] @ take 4 [9, 9, 9, 9]))) \<and> 0 \<le> v \<and> v < 5 \<and>
    RangeHash_value toy_sha1 H' [3] 1 = RangeHash_value toy_sha1 H [3] 1"
    by (rule RangeHash_keyed) (simp_all add: RangeHash_DataBufLen_def toy_sha1_ok)
  then show ?thesis unfolding v by blast
qed

section \<open>Pseudorandom streams\<close>

text \<open>
  The interface the protocols rely on: a generator delivers the number of bytes asked
  for, and asking for \<open>n + m\<close> bytes is asking for \<open>n\<close> and then for \<open>m\<close>.
\<close>

fun draws :: "(nat \<Rightarrow> 'g \<Rightarrow> bytes \<times> 'g) \<Rightarrow> nat list \<Rightarrow> 'g \<Rightarrow> bytes list \<times> 'g" where
  "draws nxt [] g = ([], g)"
| "draws nxt (n # ns) g = (let (b, g') = nxt n g; (bs, g'') = draws nxt ns g' in (b # bs, g''))"

locale prg_stream =
  fixes nxt :: "nat \<Rightarrow> 'g \<Rightarrow> bytes \<times> 'g"
  assumes len: "length (fst (nxt n g)) = n"
    and split: "nxt (n + m) g = (fst (nxt n g) @ fst (nxt m (snd (nxt n g))), snd (nxt m (snd (nxt n g))))"
begin

lemma empty: "fst (nxt 0 g) = []"
  using len [of 0 g] by simp

lemma draws_concat:
  "ns \<noteq> [] \<Longrightarrow> (concat (fst (draws nxt ns g)), snd (draws nxt ns g)) = nxt (sum_list ns) g"
proof (induction ns arbitrary: g)
  case (Cons n ns)
  show ?case
  proof (cases "ns = []")
    case False
    then have "(concat (fst (draws nxt ns (snd (nxt n g)))), snd (draws nxt ns (snd (nxt n g))))
        = nxt (sum_list ns) (snd (nxt n g))" by (rule Cons.IH)
    then show ?thesis using split [of n "sum_list ns" g]
      by (simp add: Let_def case_prod_beta) (metis fst_conv snd_conv)
  qed (simp add: Let_def case_prod_beta)
qed simp

lemma draws_lengths: "map length (fst (draws nxt ns g)) = ns"
  by (induction ns arbitrary: g) (auto simp: Let_def case_prod_beta len)

text \<open>Two parties that start from the same state and draw the same total are in the same place.\<close>

lemma draws_resync:
  "ns \<noteq> [] \<Longrightarrow> ms \<noteq> [] \<Longrightarrow> sum_list ns = sum_list ms \<Longrightarrow>
   concat (fst (draws nxt ns g)) = concat (fst (draws nxt ms g)) \<and> snd (draws nxt ns g) = snd (draws nxt ms g)"
  using draws_concat [of ns g] draws_concat [of ms g] by (metis prod.inject)

end

definition aes_next :: "(bytes \<Rightarrow> nat \<Rightarrow> u8) \<Rightarrow> nat \<Rightarrow> AESRandom \<Rightarrow> bytes \<times> AESRandom" where
  "aes_next ks n rnd = (keystream ks rnd n, rnd\<lparr>ar_pos := ar_pos rnd + n\<rparr>)"

lemma length_keystream [simp, len_simps]: "length (keystream ks rnd n) = n"
  by (simp add: keystream_def)

interpretation aes: prg_stream "aes_next ks"
proof (unfold_locales, goal_cases)
  case (2 n m g)
  have "[ar_pos g..<ar_pos g + (n + m)] = [ar_pos g..<ar_pos g + n] @ [ar_pos g + n..<ar_pos g + n + m]"
    using upt_add_eq_append [of "ar_pos g" "ar_pos g + n" m] by (simp add: add.assoc)
  then show ?case by (simp add: aes_next_def keystream_def add.assoc)
qed (simp add: aes_next_def)

lemma NextBytes_ok:
  "outl \<le> length out \<Longrightarrow> AESRandom_NextBytes ks rnd out outl =
   Ok (bxor (take outl out) (fst (aes_next ks outl rnd)) @ drop outl out, snd (aes_next ks outl rnd))"
  by (simp add: AESRandom_NextBytes_def aes_next_def blit_def)

lemma NextBytes_zero:
  "AESRandom_NextBytes ks rnd (replicate n 0) n = Ok (aes_next ks n rnd)"
  by (simp add: NextBytes_ok bxor_zero_left aes_next_def)



section \<open>Random blocks in order\<close>

lemma drop_concat_uniform:
  assumes "\<forall>r\<in>set rows. length r = L" "i \<le> length rows"
  shows "drop (i * L) (concat rows) = concat (drop i rows)"
  using assms
proof (induction rows arbitrary: i)
  case (Cons r rows)
  then show ?case by (cases i) auto
qed simp

lemma block_of_concat:
  assumes "\<forall>r\<in>set rows. length r = L" "i < length rows" "j + n \<le> L"
  shows "take n (drop (i * L + j) (concat rows)) = take n (drop j (rows ! i))"
proof -
  have "drop (i * L + j) (concat rows) = drop j (concat (drop i rows))"
    using drop_concat_uniform [OF assms(1), of i] assms(2) by (metis add.commute drop_drop less_imp_le)
  also have "concat (drop i rows) = rows ! i @ concat (drop (Suc i) rows)"
    using assms(2) by (metis Cons_nth_drop_Suc concat.simps(2))
  finally show ?thesis using assms by simp
qed

text \<open>A source all of whose rows have arrived, with the read position \<open>p\<close> counted in blocks.\<close>

definition rs_at :: "bytes list \<Rightarrow> nat \<Rightarrow> nat \<Rightarrow> nat \<Rightarrow> RandomSource" where
  "rs_at rows bs q p = \<lparr>rndBytes = map Some rows, rs_index = p div q, rs_start = (p mod q) * bs, rs_blockSize = bs\<rparr>"

lemma Take_at:
  assumes rows: "\<forall>r\<in>set rows. length r = q * bs" and q: "0 < q" "0 < bs" and p: "p < length rows * q"
  shows "RandomSource_Take (rs_at rows bs q p)
       = Some (Ok (take bs (drop (p * bs) (concat rows)), rs_at rows bs q (Suc p)))"
proof -
  have i: "p div q < length rows" using p by (simp add: less_mult_imp_div_less)
  then have len: "length (rows ! (p div q)) = q * bs" using rows by simp
  have "p mod q + 1 \<le> q" using q by (simp add: Suc_leI)
  then have fits: "(p mod q) * bs + bs \<le> q * bs" by (metis add_mult_distrib mult_1 mult_le_mono1)
  have "p div q * (q * bs) + (p mod q) * bs = p * bs"
    by (metis add_mult_distrib div_mult_mod_eq mult.assoc)
  then have blk: "take bs (drop ((p mod q) * bs) (rows ! (p div q))) = take bs (drop (p * bs) (concat rows))"
    using block_of_concat [OF rows i fits] by simp
  have last: "q * bs \<le> (p mod q) * bs + bs \<longleftrightarrow> Suc (p mod q) = q"
  proof -
    have "q * bs \<le> Suc (p mod q) * bs \<longleftrightarrow> q \<le> Suc (p mod q)" using q by (simp only: mult_le_cancel2) simp
    then show ?thesis using \<open>p mod q + 1 \<le> q\<close> by (simp add: add.commute) linarith
  qed
  show ?thesis
    using i fits len blk last
    by (simp add: RandomSource_Take_def rs_at_def Let_def mod_Suc div_Suc add.commute)
qed

lemma Takes_at:
  assumes "\<forall>r\<in>set rows. length r = q * bs" "0 < q" "0 < bs" "p + n \<le> length rows * q"
  shows "RandomSource_Takes n (rs_at rows bs q p)
       = Some (Ok (map (\<lambda>j. take bs (drop (j * bs) (concat rows))) [p..<p + n], rs_at rows bs q (p + n)))"
  using assms(4)
proof (induction n arbitrary: p)
  case (Suc n)
  have "RandomSource_Take (rs_at rows bs q p)
      = Some (Ok (take bs (drop (p * bs) (concat rows)), rs_at rows bs q (Suc p)))"
    using Suc.prems by (intro Take_at assms) simp
  moreover have "[p..<p + Suc n] = p # [Suc p..<Suc p + n]" by (simp add: upt_rec)
  ultimately show ?case using Suc.IH [of "Suc p"] Suc.prems by simp
qed simp

fun RandomSource_Inserts :: "bytes list \<Rightarrow> nat \<Rightarrow> RandomSource \<Rightarrow> RandomSource res" where
  "RandomSource_Inserts [] i rs = Ok rs"
| "RandomSource_Inserts (r # rows) i rs =
     rbind (RandomSource_Insert rs r i) (RandomSource_Inserts rows (Suc i))"

lemma Inserts_rows:
  assumes "rndBytes rs = pre @ replicate (length rows) None"
  shows "RandomSource_Inserts rows (length pre) rs = Ok (rs\<lparr>rndBytes := pre @ map Some rows\<rparr>)"
  using assms
proof (induction rows arbitrary: pre rs)
  case (Cons r rows)
  have "RandomSource_Insert rs r (length pre) = Ok (rs\<lparr>rndBytes := (pre @ [Some r]) @ replicate (length rows) None\<rparr>)"
    using Cons.prems by (simp add: RandomSource_Insert_def list_update_append)
  then show ?case
    using Cons.IH [of "rs\<lparr>rndBytes := (pre @ [Some r]) @ replicate (length rows) None\<rparr>" "pre @ [Some r]"]
    by simp
qed simp

text \<open>
  C19: once every producer has inserted its row, \<open>RandomSource_Take\<close> hands out the
  blocks of the rows in order, each of them once, up to the last.
\<close>

theorem RandomSource_blocks:
  assumes "\<forall>r\<in>set rows. length r = q * bs" "0 < q" "0 < bs" "n \<le> length rows * q"
  shows "\<exists>rs rs'. RandomSource_Inserts rows 0 (RandomSource_Create (length rows) bs) = Ok rs \<and>
    RandomSource_Takes n rs = Some (Ok (map (\<lambda>j. take bs (drop (j * bs) (concat rows))) [0..<n], rs'))"
proof -
  have "RandomSource_Inserts rows 0 (RandomSource_Create (length rows) bs) = Ok (rs_at rows bs q 0)"
    using Inserts_rows [of "RandomSource_Create (length rows) bs" "[]" rows]
    by (simp add: RandomSource_Create_def rs_at_def)
  then show ?thesis using Takes_at [of rows q bs 0 n] assms by simp
qed

theorem RandomSource_blocks_witness:
  "\<exists>rs rs'. RandomSource_Inserts [[1, 2, 3, 4], [5, 6, 7, 8]] 0 (RandomSource_Create 2 2) = Ok rs \<and>
    RandomSource_Takes 3 rs = Some (Ok ([[1, 2], [3, 4], [5, 6]], rs'))"
  using RandomSource_blocks [of "[[1, 2, 3, 4], [5, 6, 7, 8]]" 2 2 3]
  by (simp add: upt_rec numeral_2_eq_2)

end
