(* ===== verification/BitMatrix.thy ===== *)
theory BitMatrix
  imports CUtil
begin

text \<open>
  The bit matrix of \<open>PSI_C_0.1/PSI/headers/BitMatrix.h\<close> and \<open>PSI/BitMatrix.cpp\<close>: \<open>k\<close> columns of
  \<open>m\<close> bits, stored as byte arrays with leading zero bits, from which rows are read
  bit by bit.  The theory shows that \<open>BM_GetRow\<close> transposes, and that rows are
  additive in the columns, which the OT extension rests on.
\<close>

section \<open>Bits of byte arrays\<close>

text \<open>The bit at position \<open>n\<close> counted from the most significant bit of the first byte.\<close>

definition msb_bit :: "bytes \<Rightarrow> nat \<Rightarrow> bool" where
  "msb_bit xs n \<longleftrightarrow> bit (xs ! (n div 8)) (7 - n mod 8)"

lemma getBit_nat:
  "n + lz < 8 * length xs \<Longrightarrow> getBit xs (int n) (int lz) = Ok (msb_bit xs (n + lz))"
proof -
  assume n: "n + lz < 8 * length xs"
  have i: "int n + int lz = int (n + lz)" by simp
  have d: "(int n + int lz) div 8 = int ((n + lz) div 8)" unfolding i by (simp add: zdiv_int)
  have "(int n + int lz) mod 8 = int ((n + lz) mod 8)" unfolding i by (simp add: zmod_int)
  then have m: "nat (7 - (int n + int lz) mod 8) = 7 - (n + lz) mod 8" by linarith
  have "(n + lz) div 8 < length xs" using n by (simp add: div_less_iff_less_mult mult.commute)
  then show ?thesis by (simp add: getBit_Ok d m msb_bit_def)
qed

lemma msb_bit_ext:
  assumes "length xs = length ys" "\<And>n. n < 8 * length xs \<Longrightarrow> msb_bit xs n = msb_bit ys n"
  shows "xs = ys"
proof (rule nth_equalityI)
  fix i assume i: "i < length xs"
  show "xs ! i = ys ! i"
  proof (rule bit_word_eqI)
    fix k assume "k < LENGTH(8)"
    then have k: "k < 8" by simp
    define t where "t = 7 - k"
    have t: "t < 8" "7 - t = k" using k by (auto simp: t_def)
    then have "8 * i + t < 8 * length xs" using i by linarith
    then show "bit (xs ! i) k = bit (ys ! i) k"
      using assms(2) [of "8 * i + t"] t by (simp add: msb_bit_def)
  qed
qed (fact assms(1))

lemma msb_bit_bxor:
  "n < 8 * length xs \<Longrightarrow> length xs = length ys \<Longrightarrow> msb_bit (bxor xs ys) n = (msb_bit xs n \<noteq> msb_bit ys n)"
  by (simp add: msb_bit_def div_less_iff_less_mult mult.commute bit_xor_iff)

lemma msb_bit_zero: "n < 8 * L \<Longrightarrow> \<not> msb_bit (replicate L 0) n"
  by (simp add: msb_bit_def div_less_iff_less_mult mult.commute)

section \<open>The matrix\<close>

record BitMatrix =
  bm_data :: "bytes option list"
  leadingZeroes :: nat
  bm_m :: nat
  bm_k :: nat
  byteLenCol :: nat
  byteLenRow :: nat
  leadingZeroesRow :: nat
  bm_masks :: bytes

definition BM_Create :: "nat \<Rightarrow> nat \<Rightarrow> BitMatrix" where
  "BM_Create m k =
     (let r = m mod 8; s = k mod 8 in
      \<lparr>bm_data = replicate k None,
       leadingZeroes = (if r = 0 then 0 else 8 - r), bm_m = m, bm_k = k,
       byteLenCol = (if r = 0 then m div 8 else m div 8 + 1),
       byteLenRow = (if s = 0 then k div 8 else k div 8 + 1),
       leadingZeroesRow = (if s = 0 then 0 else 8 - s),
       bm_masks = map (\<lambda>i. drop_bit i 128) [0..<8]\<rparr>)"

definition BM_SetColumn :: "BitMatrix \<Rightarrow> nat \<Rightarrow> bytes \<Rightarrow> nat \<Rightarrow> BitMatrix res" where
  "BM_SetColumn bm i col colLen =
     rbind (rassert (i < bm_k bm)) (\<lambda>_. rbind (rassert (colLen = byteLenCol bm)) (\<lambda>_.
     rbind (wr (bm_data bm) i (Some col)) (\<lambda>d. Ok (bm\<lparr>bm_data := d\<rparr>))))"

text \<open>A column that was never set is a null pointer.\<close>

definition BM_GetColumn :: "BitMatrix \<Rightarrow> nat \<Rightarrow> bytes option res" where
  "BM_GetColumn bm i = rbind (rassert (i < bm_k bm)) (\<lambda>_. rd (bm_data bm) i)"

definition BM_GetRow_step :: "BitMatrix \<Rightarrow> nat \<Rightarrow> nat \<Rightarrow> bytes \<Rightarrow> bytes res" where
  "BM_GetRow_step bm i j result =
     (let dataByteLoc = (i + leadingZeroes bm) div 8; dataBitLoc = (i + leadingZeroes bm) mod 8 in
      rbind (rd (bm_data bm) j) (\<lambda>p. rbind (deref p) (\<lambda>col.
      rbind (rd col dataByteLoc) (\<lambda>b. rbind (rd (bm_masks bm) dataBitLoc) (\<lambda>mask.
      if b AND mask \<noteq> 0 then
        (let index = j + leadingZeroesRow bm; byteLoc = index div 8; bitInByte = index mod 8 in
         rbind (rd result byteLoc) (\<lambda>x. rbind (rd (bm_masks bm) bitInByte) (\<lambda>m.
         wr result byteLoc (x OR m))))
      else Ok result)))))"

definition BM_GetRow :: "BitMatrix \<Rightarrow> nat \<Rightarrow> bytes \<Rightarrow> nat \<Rightarrow> bytes res" where
  "BM_GetRow bm i result rowLen =
     rbind (rassert (i < bm_m bm)) (\<lambda>_. rbind (rassert (rowLen = byteLenRow bm)) (\<lambda>_.
     rbind (wr_blk result 0 (replicate rowLen 0)) (\<lambda>result.
     rfold (BM_GetRow_step bm i) [0..<bm_k bm] result)))"

section \<open>Rows\<close>

definition bm_dims :: "BitMatrix \<Rightarrow> bool" where
  "bm_dims bm \<longleftrightarrow> bm_m bm + leadingZeroes bm = 8 * byteLenCol bm \<and> leadingZeroes bm < 8 \<and>
     bm_k bm + leadingZeroesRow bm = 8 * byteLenRow bm \<and> leadingZeroesRow bm < 8 \<and>
     bm_masks bm = map (\<lambda>i. drop_bit i 128) [0..<8] \<and> length (bm_data bm) = bm_k bm"

text \<open>All columns set: \<open>cols\<close>.\<close>

definition bm_filled :: "BitMatrix \<Rightarrow> bytes list \<Rightarrow> bool" where
  "bm_filled bm cols \<longleftrightarrow> bm_dims bm \<and> bm_data bm = map Some cols \<and> (\<forall>c\<in>set cols. length c = byteLenCol bm)"

lemma pad_to_8: "(n::nat) + (if n mod 8 = 0 then 0 else 8 - n mod 8) = 8 * (if n mod 8 = 0 then n div 8 else n div 8 + 1)"
proof -
  have "m + (if r = 0 then 0 else 8 - r) = 8 * (if r = 0 then q else q + 1)" if "8 * q + r = m" "r < 8" for q r m :: nat
    using that by auto
  then show ?thesis by this simp_all
qed

lemma ceil_8: "((n::nat) + 7) div 8 = (if n mod 8 = 0 then n div 8 else n div 8 + 1)"
proof -
  have "(8 * q + r + 7) div 8 = (if r = 0 then q else q + 1)" if "r < 8" for q r :: nat
  proof (cases "r = 0")
    case False
    then have "8 * q + r + 7 = 8 * (q + 1) + (r - 1)" using that by simp
    then show ?thesis using that False by (simp add: div_nat_eqI)
  qed simp
  from this [of "n mod 8" "n div 8"] show ?thesis by simp
qed

lemma BM_Create_dims: "bm_dims (BM_Create m k)"
  unfolding bm_dims_def BM_Create_def Let_def by (simp add: pad_to_8)

lemma BM_Create_simps [simp]:
  "bm_m (BM_Create m k) = m" "bm_k (BM_Create m k) = k"
  "byteLenCol (BM_Create m k) = (m + 7) div 8" "byteLenRow (BM_Create m k) = (k + 7) div 8"
  "bm_data (BM_Create m k) = replicate k None"
proof -
  show "byteLenCol (BM_Create m k) = (m + 7) div 8" "byteLenRow (BM_Create m k) = (k + 7) div 8"
    unfolding ceil_8 by (simp_all add: BM_Create_def Let_def)
qed (simp_all add: BM_Create_def Let_def)

lemma drop_128: "b < 8 \<Longrightarrow> (drop_bit b 128 :: u8) = push_bit (7 - b) 1"
proof -
  assume "b < 8"
  then have "b = 0 \<or> b = 1 \<or> b = 2 \<or> b = 3 \<or> b = 4 \<or> b = 5 \<or> b = 6 \<or> b = 7" by linarith
  then show ?thesis by (elim disjE) simp_all
qed

lemma and_mask_bit: "b < 8 \<Longrightarrow> x AND drop_bit b (128::u8) = 0 \<longleftrightarrow> \<not> bit x (7 - b)"
  by (simp add: drop_128 bit_iff_and_push_bit_not_eq_0)

lemma msb_bit_set:
  assumes "n < 8 * length r" "p < 8 * length r"
  shows "msb_bit (r[p div 8 := r ! (p div 8) OR drop_bit (p mod 8) 128]) n \<longleftrightarrow> msb_bit r n \<or> n = p"
proof (cases "n div 8 = p div 8")
  case True
  have pd: "p div 8 < length r" using assms by (simp add: div_less_iff_less_mult mult.commute)
  have "bit (drop_bit (p mod 8) (128::u8)) (7 - n mod 8) \<longleftrightarrow> 7 - n mod 8 = 7 - p mod 8"
    by (auto simp: drop_128 bit_push_bit_iff bit_1_iff simp del: push_bit_of_1
        intro: le_antisym diff_le_mono2)
  also have "\<dots> \<longleftrightarrow> n mod 8 = p mod 8"
  proof -
    have "n mod 8 \<le> 7" "p mod 8 \<le> 7" by presburger+
    then show ?thesis by linarith
  qed
  also have "\<dots> \<longleftrightarrow> n = p" using True by (metis mult_div_mod_eq)
  finally show ?thesis using True pd by (simp add: msb_bit_def bit_or_iff)
qed (auto simp: msb_bit_def)

lemma GetRow_step:
  assumes bm: "bm_filled bm cols" and j: "j < bm_k bm" and i: "i < bm_m bm" and r: "length r = byteLenRow bm"
  shows "\<exists>r'. BM_GetRow_step bm i j r = Ok r' \<and> length r' = byteLenRow bm \<and>
    (\<forall>n<8 * byteLenRow bm. msb_bit r' n =
       (msb_bit r n \<or> n = j + leadingZeroesRow bm \<and> msb_bit (cols ! j) (i + leadingZeroes bm)))"
proof -
  let ?p = "i + leadingZeroes bm" and ?q = "j + leadingZeroesRow bm"
  have d: "bm_dims bm" "bm_data bm = map Some cols" "length cols = bm_k bm"
    using bm by (auto simp: bm_filled_def bm_dims_def dest: arg_cong [of _ _ length])
  then have cj: "rd (bm_data bm) j = Ok (Some (cols ! j))" "length (cols ! j) = byteLenCol bm"
    using bm j by (auto simp: bm_filled_def)
  have p: "?p < 8 * byteLenCol bm" and q: "?q < 8 * byteLenRow bm" using d(1) i j by (auto simp: bm_dims_def)
  have pd: "?p div 8 < length (cols ! j)" using p cj by (simp add: div_less_iff_less_mult mult.commute)
  have qd: "?q div 8 < length r" using q r by (simp add: div_less_iff_less_mult mult.commute)
  have masks: "rd (bm_masks bm) (b mod 8) = Ok (drop_bit (b mod 8) 128)" for b
    using d(1) by (simp add: bm_dims_def)
  have test: "cols ! j ! (?p div 8) AND drop_bit (?p mod 8) 128 = 0 \<longleftrightarrow> \<not> msb_bit (cols ! j) ?p"
    by (simp add: and_mask_bit msb_bit_def)
  show ?thesis
  proof (cases "msb_bit (cols ! j) ?p")
    case True
    then have "BM_GetRow_step bm i j r = Ok (r[?q div 8 := r ! (?q div 8) OR drop_bit (?q mod 8) 128])"
      using cj pd qd test by (simp add: BM_GetRow_step_def Let_def deref_def masks)
    then show ?thesis using True q r by (auto simp: msb_bit_set)
  next
    case False
    then have "BM_GetRow_step bm i j r = Ok r"
      using cj pd test by (simp add: BM_GetRow_step_def Let_def deref_def masks)
    then show ?thesis using False r by auto
  qed
qed

text \<open>The row as a byte array: leading zeros, then the \<open>i\<close>-th bits of the columns.\<close>

definition bm_row :: "BitMatrix \<Rightarrow> bytes list \<Rightarrow> nat \<Rightarrow> nat \<Rightarrow> bool" where
  "bm_row bm cols i n \<longleftrightarrow> leadingZeroesRow bm \<le> n \<and> msb_bit (cols ! (n - leadingZeroesRow bm)) (i + leadingZeroes bm)"

lemma GetRow_ok:
  assumes bm: "bm_filled bm cols" and i: "i < bm_m bm" and buf: "length buf = byteLenRow bm"
  shows "\<exists>r. BM_GetRow bm i buf (byteLenRow bm) = Ok r \<and> length r = byteLenRow bm \<and>
    (\<forall>n<8 * byteLenRow bm. msb_bit r n = bm_row bm cols i n)"
proof -
  let ?z = "leadingZeroesRow bm" and ?L = "byteLenRow bm"
  let ?P = "\<lambda>j r. length r = ?L \<and> (\<forall>n<8 * ?L. msb_bit r n = (n < j + ?z \<and> bm_row bm cols i n))"
  have dims: "bm_k bm + ?z = 8 * ?L" using bm by (simp add: bm_filled_def bm_dims_def)
  have "\<exists>r. rfold (BM_GetRow_step bm i) [0..<bm_k bm] (replicate ?L 0) = Ok r \<and> ?P (bm_k bm) r"
  proof (rule rfold_upt_inv)
    show "?P 0 (replicate ?L 0)" by (auto simp: msb_bit_zero bm_row_def)
  next
    fix j r assume j: "0 \<le> j" "j < bm_k bm" and P: "?P j r"
    obtain r' where r': "BM_GetRow_step bm i j r = Ok r'" "length r' = ?L"
      "\<forall>n<8 * ?L. msb_bit r' n = (msb_bit r n \<or> n = j + ?z \<and> msb_bit (cols ! j) (i + leadingZeroes bm))"
      using GetRow_step [OF bm j(2) i, of r] P by blast
    have "msb_bit r' n = (n < Suc j + ?z \<and> bm_row bm cols i n)" if n: "n < 8 * ?L" for n
      using r'(3) P n by (cases "n = j + ?z") (auto simp: bm_row_def less_Suc_eq)
    then show "\<exists>r'. BM_GetRow_step bm i j r = Ok r' \<and> ?P (Suc j) r'" using r' by blast
  qed simp
  then obtain r where r: "rfold (BM_GetRow_step bm i) [0..<bm_k bm] (replicate ?L 0) = Ok r" "?P (bm_k bm) r" by blast
  then show ?thesis using i buf dims by (simp add: BM_GetRow_def rassert_def blit_def)
qed

lemma GetRow_value:
  assumes "bm_filled bm cols" "i < bm_m bm" "length buf = byteLenRow bm" "length r = byteLenRow bm"
    "\<And>n. n < 8 * byteLenRow bm \<Longrightarrow> msb_bit r n = bm_row bm cols i n"
  shows "BM_GetRow bm i buf (byteLenRow bm) = Ok r"
proof -
  obtain r' where "BM_GetRow bm i buf (byteLenRow bm) = Ok r'" "length r' = byteLenRow bm"
    "\<forall>n<8 * byteLenRow bm. msb_bit r' n = bm_row bm cols i n"
    using GetRow_ok [OF assms(1-3)] by blast
  moreover from this have "r' = r" using assms(4,5) by (intro msb_bit_ext) auto
  ultimately show ?thesis by simp
qed

lemma SetColumn_ok:
  assumes "i < bm_k bm" "bm_dims bm" "length col = byteLenCol bm"
  shows "BM_SetColumn bm i col (byteLenCol bm) = Ok (bm\<lparr>bm_data := (bm_data bm)[i := Some col]\<rparr>)"
  using assms by (simp add: BM_SetColumn_def rassert_def bm_dims_def)

definition BM_SetColumns :: "BitMatrix \<Rightarrow> bytes list \<Rightarrow> BitMatrix res" where
  "BM_SetColumns bm cols = rfold (\<lambda>i bm. rbind (rd cols i) (\<lambda>c. BM_SetColumn bm i c (byteLenCol bm)))
     [0..<bm_k bm] bm"

lemma SetColumns_ok:
  assumes dims: "bm_dims bm" and n: "length cols = bm_k bm" and c: "\<forall>c\<in>set cols. length c = byteLenCol bm"
  shows "\<exists>bm'. BM_SetColumns bm cols = Ok bm' \<and> bm_filled bm' cols \<and> bm' = bm\<lparr>bm_data := map Some cols\<rparr>"
proof -
  let ?P = "\<lambda>i s. s = bm\<lparr>bm_data := map Some (take i cols) @ drop i (bm_data bm)\<rparr>"
  have len: "length (bm_data bm) = bm_k bm" using dims by (simp add: bm_dims_def)
  have "\<exists>s. BM_SetColumns bm cols = Ok s \<and> ?P (bm_k bm) s"
    unfolding BM_SetColumns_def
  proof (rule rfold_upt_inv)
    fix i s assume i: "0 \<le> i" "i < bm_k bm" and P: "?P i s"
    let ?d = "map Some (take i cols) @ drop i (bm_data bm)"
    have "?d[i := Some (cols ! i)] = map Some (take (Suc i) cols) @ drop (Suc i) (bm_data bm)"
      using i n len by (simp add: list_update_append take_Suc_conv_app_nth Cons_nth_drop_Suc [symmetric])
    moreover have "bm_dims s" using P dims n len i by (simp add: bm_dims_def)
    moreover have "length (cols ! i) = byteLenCol s" using P c i n by simp
    ultimately show "\<exists>s'. rbind (rd cols i) (\<lambda>c. BM_SetColumn s i c (byteLenCol s)) = Ok s' \<and> ?P (Suc i) s'"
      using i n P by (simp add: BM_SetColumn_def rassert_def bm_dims_def)
  qed simp_all
  then show ?thesis using assms len by (simp add: bm_filled_def bm_dims_def)
qed

text \<open>
  C13: reading row \<open>i\<close> of a matrix transposes it: bit \<open>j\<close> of the row is bit \<open>i\<close> of column
  \<open>j\<close> (positions shifted by the leading zeros), and the leading bits of the row are zero.
\<close>

theorem BM_transpose:
  assumes "length cols = k" "\<forall>c\<in>set cols. length c = (m + 7) div 8" "i < m" "length buf = (k + 7) div 8"
  shows "\<exists>bm row. BM_SetColumns (BM_Create m k) cols = Ok bm \<and>
    BM_GetRow bm i buf ((k + 7) div 8) = Ok row \<and> length row = (k + 7) div 8 \<and>
    (\<forall>j<k. getBit row (int j) (int (leadingZeroesRow bm)) = getBit (cols ! j) (int i) (int (leadingZeroes bm))) \<and>
    (\<forall>n<leadingZeroesRow bm. \<not> msb_bit row n)"
proof -
  obtain bm where bm: "BM_SetColumns (BM_Create m k) cols = Ok bm" "bm_filled bm cols"
    "bm = (BM_Create m k)\<lparr>bm_data := map Some cols\<rparr>"
    using SetColumns_ok [OF BM_Create_dims, of cols m k] assms(1,2) by auto
  then have s: "bm_m bm = m" "bm_k bm = k" "byteLenCol bm = (m + 7) div 8" "byteLenRow bm = (k + 7) div 8" by simp_all
  have dims: "bm_dims bm" using bm(2) by (simp add: bm_filled_def)
  obtain row where row: "BM_GetRow bm i buf (byteLenRow bm) = Ok row" "length row = byteLenRow bm"
    "\<forall>n<8 * byteLenRow bm. msb_bit row n = bm_row bm cols i n"
    using GetRow_ok [OF bm(2), of i buf] assms s by auto
  have "getBit row (int j) (int (leadingZeroesRow bm)) = getBit (cols ! j) (int i) (int (leadingZeroes bm))"
    if "j < k" for j
  proof -
    have "j + leadingZeroesRow bm < 8 * length row" "i + leadingZeroes bm < 8 * length (cols ! j)"
      using that dims s assms row(2) by (auto simp: bm_dims_def)
    then show ?thesis using row(2,3) by (simp add: getBit_nat bm_row_def)
  qed
  moreover have "\<not> msb_bit row n" if "n < leadingZeroesRow bm" for n
    using that row(3) dims by (auto simp: bm_dims_def bm_row_def)
  ultimately show ?thesis using bm(1) row(1,2) s by auto
qed

theorem BM_transpose_witness:
  "\<exists>bm row. BM_SetColumns (BM_Create 9 2) [[1, 0], [0, 3]] = Ok bm \<and> BM_GetRow bm 8 [7] 1 = Ok row \<and>
    getBit row 1 (int (leadingZeroesRow bm)) = getBit [0, 3] 8 (int (leadingZeroes bm))"
proof -
  have "\<exists>bm row. BM_SetColumns (BM_Create 9 2) [[1, 0], [0, 3]] = Ok bm \<and>
    BM_GetRow bm 8 [7] ((2 + 7) div 8) = Ok row \<and> length row = (2 + 7) div 8 \<and>
    (\<forall>j<2. getBit row (int j) (int (leadingZeroesRow bm)) = getBit ([[1, 0], [0, 3]] ! j) (int 8) (int (leadingZeroes bm))) \<and>
    (\<forall>n<leadingZeroesRow bm. \<not> msb_bit row n)"
    by (rule BM_transpose) simp_all
  then obtain bm row where "BM_SetColumns (BM_Create 9 2) [[1, 0], [0, 3]] = Ok bm" "BM_GetRow bm 8 [7] 1 = Ok row"
    "\<forall>j<2. getBit row (int j) (int (leadingZeroesRow bm)) = getBit ([[1, 0], [0, 3]] ! j) 8 (int (leadingZeroes bm))"
    by auto
  moreover from this(3) have "getBit row 1 (int (leadingZeroesRow bm)) = getBit [0, 3] 8 (int (leadingZeroes bm))"
    by (metis int_ops(2) nth_Cons_0 nth_Cons_Suc One_nat_def one_less_numeral_iff semiring_norm(76))
  ultimately show ?thesis by blast
qed

end
