(* ===== verification/NaorPinkas.thy ===== *)
theory NaorPinkas
  imports Primitives BitMatrix
begin

text \<open>
  The Naor-Pinkas oblivious transfer of \<open>PSI_C_0.1/PSI/OT/NPOTSndr.cpp\<close> and \<open>NPOTRcvr.cpp\<close>.
  The elliptic curve is a parameter: a group with scalar multiplication and the octet
  encoding of points, on which only the laws of an abelian group acted on by scalars
  are assumed.  The random scalars are arguments of the constructors.  The theory
  shows that the receiver obtains, for every bit of its selection string, the string
  of the pair that the bit selects.
\<close>

section \<open>Curves\<close>

record 'p curve =
  ec_add :: "'p \<Rightarrow> 'p \<Rightarrow> 'p"
  ec_inv :: "'p \<Rightarrow> 'p"
  ec_mul :: "nat \<Rightarrow> 'p \<Rightarrow> 'p"
  ec_g :: 'p
  ec_oct :: "'p \<Rightarrow> bytes"

definition curve_ok :: "'p curve \<Rightarrow> bool" where
  "curve_ok E \<longleftrightarrow>
     (\<forall>a b P. ec_mul E a (ec_mul E b P) = ec_mul E b (ec_mul E a P)) \<and>
     (\<forall>a P Q. ec_mul E a (ec_add E P Q) = ec_add E (ec_mul E a P) (ec_mul E a Q)) \<and>
     (\<forall>a P. ec_mul E a (ec_inv E P) = ec_inv E (ec_mul E a P)) \<and>
     (\<forall>P Q. ec_add E (ec_inv E (ec_add E P (ec_inv E Q))) P = Q)"

text \<open>\<open>EC_POINT_point2oct\<close> into a buffer: nothing is written when the encoding does not fit.\<close>

definition point2oct :: "'p curve \<Rightarrow> 'p \<Rightarrow> nat \<Rightarrow> bytes" where
  "point2oct E P len = (let b = ec_oct E P in if length b \<le> len then b else [])"

definition pointByteLen_of :: "int \<Rightarrow> nat res" where
  "pointByteLen_of secLev =
     (if secLev = 80 then Ok 25 else if secLev = 128 then Ok 33
      else if secLev = 192 then Ok 49 else if secLev = 256 then Ok 67 else Err AssertFail)"

section \<open>Parties\<close>

record NPOTRcvr =
  r_str :: bytes
  r_strByteLen :: nat
  r_strBitLen :: nat
  r_lz :: nat
  r_pointByteLen :: nat
  r_md :: MessageDigest
  r_ks :: "nat list"

record 'p NPOTSndr =
  s_k :: nat
  s_sendByteLen :: nat
  s_toSend :: "bytes list list"
  s_pointByteLen :: nat
  s_md :: MessageDigest
  s_rs :: "nat list"
  s_cs :: "'p list"
  s_crs :: "'p list"
  s_grs :: "'p list"

definition NPOTRcvr_Create :: "bytes \<Rightarrow> nat \<Rightarrow> nat \<Rightarrow> int \<Rightarrow> nat list \<Rightarrow> NPOTRcvr res" where
  "NPOTRcvr_Create str strLen lz secLev scalars =
     rbind (rassert (secLev = 80 \<or> secLev = 128 \<or> secLev = 192 \<or> secLev = 256)) (\<lambda>_.
     rbind (MD_Create secLev) (\<lambda>md.
     rbind (pointByteLen_of secLev) (\<lambda>plen.
     rbind (rd_blk scalars 0 (strLen * 8 - lz)) (\<lambda>ks.
     Ok \<lparr>r_str = str, r_strByteLen = strLen, r_strBitLen = strLen * 8 - lz, r_lz = lz,
         r_pointByteLen = plen, r_md = md, r_ks = ks\<rparr>))))"

text \<open>The first scalars give the points \<open>cs\<close>; the second ones replace them in \<open>rs\<close>.\<close>

definition NPOTSndr_Create ::
    "'p curve \<Rightarrow> nat \<Rightarrow> nat \<Rightarrow> bytes list list \<Rightarrow> int \<Rightarrow> nat list \<Rightarrow> nat list \<Rightarrow> 'p NPOTSndr res" where
  "NPOTSndr_Create E k sendByteLen toSend secLev scalars1 scalars2 =
     rbind (MD_Create secLev) (\<lambda>md.
     rbind (pointByteLen_of secLev) (\<lambda>plen.
     rbind (rd_blk scalars1 0 k) (\<lambda>r1.
     rbind (rd_blk scalars2 0 k) (\<lambda>r2.
     let cs = map (\<lambda>r. ec_mul E r (ec_g E)) r1 in
     Ok \<lparr>s_k = k, s_sendByteLen = sendByteLen, s_toSend = toSend, s_pointByteLen = plen, s_md = md,
         s_rs = r2, s_cs = cs, s_crs = map2 (ec_mul E) r2 cs, s_grs = map (\<lambda>r. ec_mul E r (ec_g E)) r2\<rparr>))))"

definition NPOTSndr_getCs :: "'p NPOTSndr \<Rightarrow> 'p list" where
  "NPOTSndr_getCs s = s_cs s"

section \<open>Steps\<close>

definition NPOTRcvr_RStep1Single :: "'p curve \<Rightarrow> NPOTRcvr \<Rightarrow> 'p \<Rightarrow> nat \<Rightarrow> 'p res" where
  "NPOTRcvr_RStep1Single E rcvr C i =
     rbind (rd (r_ks rcvr) i) (\<lambda>k.
     rbind (getBit (r_str rcvr) (int i) (int (r_lz rcvr))) (\<lambda>b.
     if b then
       (let PK = ec_mul E k (ec_g E); PK = ec_inv E PK; PK = ec_add E C PK in Ok PK)
     else Ok (ec_mul E k (ec_g E))))"

definition NPOTRcvr_RStep1 :: "'p curve \<Rightarrow> NPOTRcvr \<Rightarrow> 'p list \<Rightarrow> 'p list res" where
  "NPOTRcvr_RStep1 E rcvr Cs =
     rmap (\<lambda>i. rbind (rd Cs i) (\<lambda>C. NPOTRcvr_RStep1Single E rcvr C i)) [0..<r_strBitLen rcvr]"

text \<open>The digest of an encoded point followed by the byte 0 or 1.\<close>

definition pad_hash :: "(md_alg \<Rightarrow> bytes \<Rightarrow> bytes) \<Rightarrow> MessageDigest \<Rightarrow> bytes \<Rightarrow> u8 \<Rightarrow> bytes" where
  "pad_hash md H buf b = md (md_alg H) (buf @ [b])"

definition NPOTSndr_StepSingle ::
    "'p curve \<Rightarrow> (md_alg \<Rightarrow> bytes \<Rightarrow> bytes) \<Rightarrow> 'p NPOTSndr \<Rightarrow> 'p \<Rightarrow> nat \<Rightarrow> MessageDigest \<Rightarrow> (bytes list \<times> 'p) res" where
  "NPOTSndr_StepSingle E md sndr PK0 i H =
     rbind (rd (s_rs sndr) i) (\<lambda>R.
     let pk0r = ec_mul E R PK0; pk1r = ec_inv E pk0r in
     rbind (rd (s_crs sndr) i) (\<lambda>crs.
     let pk1r = ec_add E pk1r crs;
         digest0 = pad_hash md H (point2oct E pk0r (s_pointByteLen sndr)) 0;
         digest1 = pad_hash md H (point2oct E pk1r (s_pointByteLen sndr)) 1 in
     rbind (rd (s_toSend sndr) i) (\<lambda>pair.
     rbind (rd pair 0) (\<lambda>m0. rbind (rd_blk m0 0 (s_sendByteLen sndr)) (\<lambda>e0.
     rbind (xorByteArray e0 digest0 (s_sendByteLen sndr)) (\<lambda>e0.
     rbind (rd pair 1) (\<lambda>m1. rbind (rd_blk m1 0 (s_sendByteLen sndr)) (\<lambda>e1.
     rbind (xorByteArray e1 digest1 (s_sendByteLen sndr)) (\<lambda>e1.
     rbind (rd (s_grs sndr) i) (\<lambda>gr. Ok ([e0, e1], gr)))))))))))"

definition NPOTSndr_Step ::
    "'p curve \<Rightarrow> (md_alg \<Rightarrow> bytes \<Rightarrow> bytes) \<Rightarrow> 'p NPOTSndr \<Rightarrow> 'p list \<Rightarrow> (bytes list list \<times> 'p list) res" where
  "NPOTSndr_Step E md sndr PK0s =
     rbind (rmap (\<lambda>i. rbind (rd PK0s i) (\<lambda>pk. rbind (NPOTSndr_StepSingle E md sndr pk i (s_md sndr))
              (\<lambda>(enc, gr). Ok enc))) [0..<s_k sndr]) (\<lambda>encrypted. Ok (encrypted, s_grs sndr))"

definition NPOTRcvr_RStep2Single ::
    "'p curve \<Rightarrow> (md_alg \<Rightarrow> bytes \<Rightarrow> bytes) \<Rightarrow> NPOTRcvr \<Rightarrow> bytes list \<Rightarrow> nat \<Rightarrow> 'p \<Rightarrow> nat \<Rightarrow> MessageDigest \<Rightarrow> bytes res" where
  "NPOTRcvr_RStep2Single E md rcvr received recLen gr i H =
     rbind (rd (r_ks rcvr) i) (\<lambda>k.
     let buf = point2oct E (ec_mul E k gr) (r_pointByteLen rcvr) in
     rbind (getBit (r_str rcvr) (int i) (int (r_lz rcvr))) (\<lambda>b.
     if b then rbind (rd received 1) (\<lambda>r. xorByteArray r (pad_hash md H buf 1) recLen)
     else rbind (rd received 0) (\<lambda>r. xorByteArray r (pad_hash md H buf 0) recLen)))"

definition NPOTRcvr_RStep2 ::
    "'p curve \<Rightarrow> (md_alg \<Rightarrow> bytes \<Rightarrow> bytes) \<Rightarrow> NPOTRcvr \<Rightarrow> bytes list list \<Rightarrow> nat \<Rightarrow> 'p list \<Rightarrow> bytes list res" where
  "NPOTRcvr_RStep2 E md rcvr received recLen grs =
     rmap (\<lambda>i. rbind (rd received i) (\<lambda>r. rbind (rd grs i) (\<lambda>gr.
       NPOTRcvr_RStep2Single E md rcvr r recLen gr i (r_md rcvr)))) [0..<r_strBitLen rcvr]"

text \<open>The whole transfer: points, keys, encrypted pairs, selected strings.\<close>

definition NPOT_run ::
    "'p curve \<Rightarrow> (md_alg \<Rightarrow> bytes \<Rightarrow> bytes) \<Rightarrow> int \<Rightarrow> nat \<Rightarrow> bytes list list \<Rightarrow> bytes \<Rightarrow> nat \<Rightarrow>
     nat list \<Rightarrow> nat list \<Rightarrow> nat list \<Rightarrow> bytes list res" where
  "NPOT_run E md secLev len pairs str lz ks r1 r2 =
     rbind (NPOTRcvr_Create str (length str) lz secLev ks) (\<lambda>rcvr.
     rbind (NPOTSndr_Create E (length pairs) len pairs secLev r1 r2) (\<lambda>sndr.
     rbind (NPOTRcvr_RStep1 E rcvr (NPOTSndr_getCs sndr)) (\<lambda>PK.
     rbind (NPOTSndr_Step E md sndr PK) (\<lambda>(encrypted, grs).
     NPOTRcvr_RStep2 E md rcvr encrypted len grs))))"

section \<open>The functionality\<close>

text \<open>The interface a protocol builds on: of every pair the receiver gets the selected string.\<close>

locale base_ot =
  fixes transfer :: "nat \<Rightarrow> bytes list list \<Rightarrow> bool list \<Rightarrow> bytes list res"
    and admissible :: "nat \<Rightarrow> nat \<Rightarrow> bool"
  assumes selects: "admissible n len \<Longrightarrow> length pairs = n \<Longrightarrow> length bs = n \<Longrightarrow>
    \<forall>p\<in>set pairs. length p = 2 \<and> (\<forall>m\<in>set p. length m = len) \<Longrightarrow>
    transfer len pairs bs = Ok (map2 (\<lambda>p b. if b then p ! 1 else p ! 0) pairs bs)"
begin

lemma received_length:
  assumes "admissible n len" "length pairs = n" "length bs = n"
    "\<forall>p\<in>set pairs. length p = 2 \<and> (\<forall>m\<in>set p. length m = len)" "transfer len pairs bs = Ok out"
  shows "length out = n \<and> (\<forall>i<n. out ! i = pairs ! i ! (if bs ! i then 1 else 0) \<and> length (out ! i) = len)"
proof -
  have out: "out = map2 (\<lambda>p b. if b then p ! 1 else p ! 0) pairs bs" using assms selects by simp
  have "length (pairs ! i ! 0) = len" "length (pairs ! i ! 1) = len" if "i < n" for i
  proof -
    have "pairs ! i \<in> set pairs" using that assms(2) by simp
    then have "length (pairs ! i) = 2" "\<forall>m\<in>set (pairs ! i). length m = len" using assms(4) by blast+
    then show "length (pairs ! i ! 0) = len" "length (pairs ! i ! 1) = len" by simp_all
  qed
  then show ?thesis using assms(2,3) by (simp add: out)
qed

lemma equal_pairs:
  "admissible n len \<Longrightarrow> length ms = n \<Longrightarrow> length bs = n \<Longrightarrow> \<forall>m\<in>set ms. length m = len \<Longrightarrow>
   transfer len (map (\<lambda>m. [m, m]) ms) bs = Ok ms"
  by (subst selects) (auto intro: nth_equalityI)

end

definition md_ok :: "(md_alg \<Rightarrow> bytes \<Rightarrow> bytes) \<Rightarrow> bool" where
  "md_ok md \<longleftrightarrow> (\<forall>x. length (md SHA1 x) = 20 \<and> length (md SHA256 x) = 32 \<and>
     length (md SHA384 x) = 48 \<and> length (md SHA512 x) = 64)"

definition secLev_ok :: "int \<Rightarrow> bool" where
  "secLev_ok secLev \<longleftrightarrow> secLev = 80 \<or> secLev = 128 \<or> secLev = 192 \<or> secLev = 256"

lemma MD_Create_ok:
  "secLev_ok secLev \<Longrightarrow> md_ok md \<Longrightarrow> \<exists>H. MD_Create secLev = Ok H \<and> 20 \<le> digestLen H \<and>
     nat (secLev div 8) \<le> digestLen H \<and> (\<forall>x. length (md (md_alg H) x) = digestLen H)"
  by (auto simp: secLev_ok_def MD_Create_def md_ok_def)

lemma RStep1_ok:
  assumes "i < length (r_ks rcvr)" "i + r_lz rcvr < 8 * length (r_str rcvr)"
  shows "NPOTRcvr_RStep1Single E rcvr C i =
    Ok (if msb_bit (r_str rcvr) (i + r_lz rcvr) then ec_add E C (ec_inv E (ec_mul E (r_ks rcvr ! i) (ec_g E)))
        else ec_mul E (r_ks rcvr ! i) (ec_g E))"
  using assms by (simp add: NPOTRcvr_RStep1Single_def getBit_nat)

text \<open>One transfer: the key the receiver computes is the one the sender used for the selected string.\<close>

lemma NPOT_single:
  assumes E: "curve_ok E" and H: "\<forall>x. length (md (md_alg H) x) = dl" "len \<le> dl"
    and i: "i < length (r_ks rcvr)" "i + r_lz rcvr < 8 * length (r_str rcvr)"
    and s: "s_rs sndr ! i = r" "s_crs sndr ! i = ec_mul E r C" "s_grs sndr ! i = ec_mul E r (ec_g E)"
      "i < length (s_rs sndr)" "i < length (s_crs sndr)" "i < length (s_grs sndr)" "i < length (s_toSend sndr)"
      "s_toSend sndr ! i = [m0, m1]" "length m0 = len" "length m1 = len" "s_sendByteLen sndr = len"
      "s_pointByteLen sndr = r_pointByteLen rcvr"
  shows "\<exists>enc. rbind (NPOTRcvr_RStep1Single E rcvr C i) (\<lambda>pk. NPOTSndr_StepSingle E md sndr pk i H)
        = Ok (enc, ec_mul E r (ec_g E)) \<and>
      NPOTRcvr_RStep2Single E md rcvr enc len (ec_mul E r (ec_g E)) i H
        = Ok (if msb_bit (r_str rcvr) (i + r_lz rcvr) then m1 else m0)"
proof -
  let ?k = "r_ks rcvr ! i" and ?g = "ec_g E" and ?b = "msb_bit (r_str rcvr) (i + r_lz rcvr)"
  let ?key = "ec_mul E ?k (ec_mul E r ?g)"
  have comm: "ec_mul E r (ec_mul E ?k ?g) = ?key" using E by (simp add: curve_ok_def)
  have one: "ec_add E (ec_inv E (ec_mul E r (ec_add E C (ec_inv E (ec_mul E ?k ?g))))) (ec_mul E r C) = ?key"
    using E comm by (simp add: curve_ok_def)
  let ?d0 = "\<lambda>P. pad_hash md H (point2oct E P (r_pointByteLen rcvr)) 0"
  let ?d1 = "\<lambda>P. pad_hash md H (point2oct E P (r_pointByteLen rcvr)) 1"
  have dl: "len \<le> length (?d0 P)" "len \<le> length (?d1 P)" for P using H by (simp_all add: pad_hash_def)
  have undo: "xorByteArray (bxor m (take len d)) d len = Ok m" if "length m = len" "len \<le> length d" for m d
    using that by (simp add: xorByteArray_ok bxor_cancel)
  define PK where "PK = (if ?b then ec_add E C (ec_inv E (ec_mul E ?k ?g)) else ec_mul E ?k ?g)"
  define P0 where "P0 = ec_mul E r PK"
  define P1 where "P1 = ec_add E (ec_inv E P0) (ec_mul E r C)"
  have step1: "NPOTRcvr_RStep1Single E rcvr C i = Ok PK" unfolding PK_def by (rule RStep1_ok [OF i])
  have step2: "NPOTSndr_StepSingle E md sndr PK i H
      = Ok ([bxor m0 (take len (?d0 P0)), bxor m1 (take len (?d1 P1))], ec_mul E r ?g)"
    using s dl [of P0] dl [of P1]
    by (simp add: NPOTSndr_StepSingle_def Let_def xorByteArray_ok P0_def P1_def)
  have key: "?b \<Longrightarrow> P1 = ?key" "\<not> ?b \<Longrightarrow> P0 = ?key" using one comm by (simp_all add: P0_def P1_def PK_def)
  have "NPOTRcvr_RStep2Single E md rcvr [bxor m0 (take len (?d0 P0)), bxor m1 (take len (?d1 P1))] len (ec_mul E r ?g) i H
      = Ok (if ?b then m1 else m0)"
    using i s(9,10) dl key undo by (simp add: NPOTRcvr_RStep2Single_def Let_def getBit_nat)
  then show ?thesis using step1 step2 by simp
qed

section \<open>Correctness of the protocol\<close>

definition selected :: "bytes list list \<Rightarrow> bytes \<Rightarrow> nat \<Rightarrow> bytes list" where
  "selected pairs str lz = map (\<lambda>i. pairs ! i ! (if msb_bit str (i + lz) then 1 else 0)) [0..<length pairs]"

text \<open>The two messages, and what the receiver makes of the second one at each position.\<close>

lemma NPOT_exchange:
  assumes E: "curve_ok E" and md: "md_ok md" and sl: "secLev_ok secLev" and H: "MD_Create secLev = Ok H" "len \<le> digestLen H"
    and n: "length pairs + lz = 8 * length str"
    and p: "\<forall>p\<in>set pairs. length p = 2 \<and> (\<forall>m\<in>set p. length m = len)"
    and sc: "length pairs \<le> length ks" "length pairs \<le> length r1" "length pairs \<le> length r2"
  shows "\<exists>rcvr sndr pks encs. NPOTRcvr_Create str (length str) lz secLev ks = Ok rcvr \<and>
    NPOTSndr_Create E (length pairs) len pairs secLev r1 r2 = Ok sndr \<and>
    NPOTRcvr_RStep1 E rcvr (NPOTSndr_getCs sndr) = Ok pks \<and> NPOTSndr_Step E md sndr pks = Ok (encs, s_grs sndr) \<and>
    length encs = length pairs \<and> length (s_grs sndr) = length pairs \<and> r_strBitLen rcvr = length pairs \<and> r_md rcvr = H \<and>
    (\<forall>i<length pairs. NPOTRcvr_RStep2Single E md rcvr (encs ! i) len (s_grs sndr ! i) i H
      = Ok (pairs ! i ! (if msb_bit str (i + lz) then 1 else 0)))"
proof -
  let ?n = "length pairs" and ?g = "ec_g E"
  have nn: "length str * 8 - lz = ?n" using n by simp
  obtain plen where plen: "pointByteLen_of secLev = Ok plen" using sl by (auto simp: secLev_ok_def pointByteLen_of_def)
  have dl: "\<forall>x. length (md (md_alg H) x) = digestLen H" using MD_Create_ok [OF sl md] H by auto
  define rcvr where "rcvr = \<lparr>r_str = str, r_strByteLen = length str, r_strBitLen = ?n, r_lz = lz,
    r_pointByteLen = plen, r_md = H, r_ks = take ?n ks\<rparr>"
  define C where "C i = ec_mul E (r1 ! i) ?g" for i
  define cs where "cs = map (\<lambda>r. ec_mul E r ?g) (take ?n r1)"
  define sndr where "sndr = \<lparr>s_k = ?n, s_sendByteLen = len, s_toSend = pairs, s_pointByteLen = plen, s_md = H,
    s_rs = take ?n r2, s_cs = cs, s_crs = map2 (ec_mul E) (take ?n r2) cs, s_grs = map (\<lambda>r. ec_mul E r ?g) (take ?n r2)\<rparr>"
  have cr: "NPOTRcvr_Create str (length str) lz secLev ks = Ok rcvr"
    using sl plen sc H nn by (simp add: NPOTRcvr_Create_def rassert_def secLev_ok_def rcvr_def)
  have cs': "NPOTSndr_Create E ?n len pairs secLev r1 r2 = Ok sndr"
    using plen sc H by (simp add: NPOTSndr_Create_def Let_def sndr_def cs_def)
  have Ci: "rd (NPOTSndr_getCs sndr) i = Ok (C i)" if "i < ?n" for i
    using that sc by (simp add: NPOTSndr_getCs_def sndr_def cs_def C_def)
  have "\<exists>pk enc. NPOTRcvr_RStep1Single E rcvr (C i) i = Ok pk \<and>
      NPOTSndr_StepSingle E md sndr pk i H = Ok (enc, ec_mul E (r2 ! i) ?g) \<and>
      NPOTRcvr_RStep2Single E md rcvr enc len (ec_mul E (r2 ! i) ?g) i H
        = Ok (pairs ! i ! (if msb_bit str (i + lz) then 1 else 0))" if i: "i < ?n" for i
  proof -
    have len2: "length (pairs ! i) = 2" "\<forall>m\<in>set (pairs ! i). length m = len"
      using bspec [OF p nth_mem [OF i]] by blast+
    then obtain m0 m1 where m: "pairs ! i = [m0, m1]" by (auto simp: numeral_2_eq_2 length_Suc_conv)
    have "\<exists>enc. rbind (NPOTRcvr_RStep1Single E rcvr (C i) i) (\<lambda>pk. NPOTSndr_StepSingle E md sndr pk i H)
        = Ok (enc, ec_mul E (r2 ! i) ?g) \<and>
      NPOTRcvr_RStep2Single E md rcvr enc len (ec_mul E (r2 ! i) ?g) i H
        = Ok (if msb_bit (r_str rcvr) (i + r_lz rcvr) then m1 else m0)"
      by (rule NPOT_single [where md = md and H = H and dl = "digestLen H", OF E dl H(2)])
        (use i n sc m len2 in \<open>simp_all add: rcvr_def sndr_def cs_def C_def\<close>)
    then show ?thesis by (auto simp: m rcvr_def res_simps)
  qed
  then obtain pk enc where ok: "\<And>i. i < ?n \<Longrightarrow> NPOTRcvr_RStep1Single E rcvr (C i) i = Ok (pk i)"
    "\<And>i. i < ?n \<Longrightarrow> NPOTSndr_StepSingle E md sndr (pk i) i H = Ok (enc i, ec_mul E (r2 ! i) ?g)"
    "\<And>i. i < ?n \<Longrightarrow> NPOTRcvr_RStep2Single E md rcvr (enc i) len (ec_mul E (r2 ! i) ?g) i H
        = Ok (pairs ! i ! (if msb_bit str (i + lz) then 1 else 0))" by metis
  have s1: "NPOTRcvr_RStep1 E rcvr (NPOTSndr_getCs sndr) = Ok (map pk [0..<?n])"
    unfolding NPOTRcvr_RStep1_def by (simp add: rcvr_def [THEN arg_cong [of _ _ r_strBitLen]], rule rmap_Ok) (simp add: Ci ok(1))
  have s2: "NPOTSndr_Step E md sndr (map pk [0..<?n]) = Ok (map enc [0..<?n], s_grs sndr)"
  proof -
    have "s_k sndr = ?n" "s_md sndr = H" by (simp_all add: sndr_def)
    moreover have "rmap (\<lambda>i. rbind (rd (map pk [0..<?n]) i) (\<lambda>pk. rbind (NPOTSndr_StepSingle E md sndr pk i H)
        (\<lambda>(enc, gr). Ok enc))) [0..<?n] = Ok (map enc [0..<?n])"
      by (rule rmap_Ok) (simp add: ok(2))
    ultimately show ?thesis by (simp add: NPOTSndr_Step_def)
  qed
  have "length (s_grs sndr) = ?n" "\<And>i. i < ?n \<Longrightarrow> s_grs sndr ! i = ec_mul E (r2 ! i) ?g"
    using sc by (simp_all add: sndr_def)
  moreover have "r_strBitLen rcvr = ?n" "r_md rcvr = H" by (simp_all add: rcvr_def)
  ultimately have "NPOTRcvr_Create str (length str) lz secLev ks = Ok rcvr \<and>
    NPOTSndr_Create E ?n len pairs secLev r1 r2 = Ok sndr \<and>
    NPOTRcvr_RStep1 E rcvr (NPOTSndr_getCs sndr) = Ok (map pk [0..<?n]) \<and>
    NPOTSndr_Step E md sndr (map pk [0..<?n]) = Ok (map enc [0..<?n], s_grs sndr) \<and>
    length (map enc [0..<?n]) = ?n \<and> length (s_grs sndr) = ?n \<and> r_strBitLen rcvr = ?n \<and> r_md rcvr = H \<and>
    (\<forall>i<?n. NPOTRcvr_RStep2Single E md rcvr (map enc [0..<?n] ! i) len (s_grs sndr ! i) i H
      = Ok (pairs ! i ! (if msb_bit str (i + lz) then 1 else 0)))"
    using cr cs' s1 s2 ok(3) by simp
  then show ?thesis by blast
qed

lemma NPOT_run_ok:
  assumes "curve_ok E" "md_ok md" "secLev_ok secLev" "MD_Create secLev = Ok H" "len \<le> digestLen H"
    and "length pairs + lz = 8 * length str"
    and "\<forall>p\<in>set pairs. length p = 2 \<and> (\<forall>m\<in>set p. length m = len)"
    and "length pairs \<le> length ks" "length pairs \<le> length r1" "length pairs \<le> length r2"
  shows "NPOT_run E md secLev len pairs str lz ks r1 r2 = Ok (selected pairs str lz)"
proof -
  let ?n = "length pairs"
  obtain rcvr sndr pks encs where x: "NPOTRcvr_Create str (length str) lz secLev ks = Ok rcvr"
    "NPOTSndr_Create E ?n len pairs secLev r1 r2 = Ok sndr" "NPOTRcvr_RStep1 E rcvr (NPOTSndr_getCs sndr) = Ok pks"
    "NPOTSndr_Step E md sndr pks = Ok (encs, s_grs sndr)" "length encs = ?n" "length (s_grs sndr) = ?n"
    "r_strBitLen rcvr = ?n" "r_md rcvr = H"
    "\<And>i. i < ?n \<Longrightarrow> NPOTRcvr_RStep2Single E md rcvr (encs ! i) len (s_grs sndr ! i) i H
      = Ok (pairs ! i ! (if msb_bit str (i + lz) then 1 else 0))"
    using NPOT_exchange [OF assms] by blast
  have "rmap (\<lambda>i. rbind (rd encs i) (\<lambda>r. rbind (rd (s_grs sndr) i) (\<lambda>gr.
        NPOTRcvr_RStep2Single E md rcvr r len gr i H))) [0..<?n] = Ok (selected pairs str lz)"
    unfolding selected_def by (rule rmap_Ok) (simp add: x)
  then show ?thesis by (simp add: NPOT_run_def NPOTRcvr_RStep2_def x)
qed

section \<open>The transfer as an instance of the functionality\<close>

text \<open>A list of bits as a byte string with leading zero bits.\<close>

definition pad_len :: "nat \<Rightarrow> nat" where
  "pad_len n = (if n mod 8 = 0 then 0 else 8 - n mod 8)"

definition pack_bits :: "bool list \<Rightarrow> bytes" where
  "pack_bits bs = (let ps = replicate (pad_len (length bs)) False @ bs in
     map (\<lambda>j. horner_sum of_bool 2 (rev (take 8 (drop (8 * j) ps)))) [0..<length ps div 8])"

lemma pad_len_div: "(n + pad_len n) mod 8 = 0"
proof -
  have "n + pad_len n = 8 * (if n mod 8 = 0 then n div 8 else n div 8 + 1)"
    unfolding pad_len_def by (rule pad_to_8)
  then show ?thesis by simp
qed

lemma length_pack_bits: "8 * length (pack_bits bs) = length bs + pad_len (length bs)"
proof -
  have "8 * (n div 8) = n" if "n mod 8 = 0" for n :: nat using that by presburger
  from this [OF pad_len_div [of "length bs"]] show ?thesis by (simp add: pack_bits_def Let_def add.commute)
qed

lemma msb_bit_pack: "i < length bs \<Longrightarrow> msb_bit (pack_bits bs) (i + pad_len (length bs)) = bs ! i"
proof -
  assume i: "i < length bs"
  define ps where "ps = replicate (pad_len (length bs)) False @ bs"
  let ?n = "i + pad_len (length bs)"
  have n: "?n < length ps" using i by (simp add: ps_def)
  have e: "length ps mod 8 = 0" using pad_len_div [of "length bs"] by (simp add: ps_def add.commute)
  have full: "8 * (?n div 8) + 8 \<le> length ps"
  proof -
    have b: "length ps = (length ps div 8) * 8" using e by (metis add_0_right div_mult_mod_eq)
    then have "?n div 8 < length ps div 8" using n by (metis div_less_iff_less_mult zero_less_numeral)
    then show ?thesis using b by linarith
  qed
  then have l8: "length (take 8 (drop (8 * (?n div 8)) ps)) = 8" by simp
  have "?n div 8 < length ps div 8" using full by linarith
  then have "pack_bits bs ! (?n div 8) = horner_sum of_bool 2 (rev (take 8 (drop (8 * (?n div 8)) ps)))"
    by (simp add: pack_bits_def Let_def ps_def)
  then have "msb_bit (pack_bits bs) ?n \<longleftrightarrow> rev (take 8 (drop (8 * (?n div 8)) ps)) ! (7 - ?n mod 8)"
    using l8 less_imp_diff_less [of 7 8 "?n mod 8"] by (simp add: msb_bit_def bit_horner_sum_bit_iff)
  also have "\<dots> \<longleftrightarrow> ps ! (8 * (?n div 8) + ?n mod 8)"
    using l8 full by (simp add: rev_nth)
  also have "\<dots> \<longleftrightarrow> bs ! i" by (simp add: ps_def nth_append)
  finally show ?thesis .
qed

text \<open>The transfer of \<open>pairs\<close> for selection bits given as a list.\<close>

definition NPOT_transfer ::
    "'p curve \<Rightarrow> (md_alg \<Rightarrow> bytes \<Rightarrow> bytes) \<Rightarrow> int \<Rightarrow> nat list \<Rightarrow> nat list \<Rightarrow> nat list \<Rightarrow>
     nat \<Rightarrow> bytes list list \<Rightarrow> bool list \<Rightarrow> bytes list res" where
  "NPOT_transfer E md secLev ks r1 r2 len pairs bs =
     NPOT_run E md secLev len pairs (pack_bits bs) (pad_len (length bs)) ks r1 r2"

definition NPOT_admissible ::
    "'p curve \<Rightarrow> (md_alg \<Rightarrow> bytes \<Rightarrow> bytes) \<Rightarrow> int \<Rightarrow> nat list \<Rightarrow> nat list \<Rightarrow> nat list \<Rightarrow> nat \<Rightarrow> nat \<Rightarrow> bool" where
  "NPOT_admissible E md secLev ks r1 r2 n len \<longleftrightarrow> curve_ok E \<and> md_ok md \<and> secLev_ok secLev \<and>
     (\<exists>H. MD_Create secLev = Ok H \<and> len \<le> digestLen H) \<and> n \<le> length ks \<and> n \<le> length r1 \<and> n \<le> length r2"

interpretation npot: base_ot "NPOT_transfer E md secLev ks r1 r2" "NPOT_admissible E md secLev ks r1 r2"
proof (unfold_locales, goal_cases)
  case (1 n len pairs bs)
  then obtain H where H: "MD_Create secLev = Ok H" "len \<le> digestLen H" by (auto simp: NPOT_admissible_def)
  have "NPOT_transfer E md secLev ks r1 r2 len pairs bs = Ok (selected pairs (pack_bits bs) (pad_len (length bs)))"
    unfolding NPOT_transfer_def
    by (rule NPOT_run_ok [OF _ _ _ H]) (use 1 length_pack_bits [of bs] in \<open>simp_all add: NPOT_admissible_def\<close>)
  also have "selected pairs (pack_bits bs) (pad_len (length bs)) = map2 (\<lambda>p b. if b then p ! 1 else p ! 0) pairs bs"
    using 1(2,3) by (intro nth_equalityI) (simp_all add: selected_def msb_bit_pack [of _ bs, simplified 1])
  finally show ?case .
qed

text \<open>
  C7: the Naor-Pinkas transfer gives the receiver, for every position of its selection
  string, the string of the pair that the bit selects, for every choice of random
  scalars and every security level.
\<close>

theorem NPOT_correct:
  assumes "curve_ok E" "md_ok md" "secLev_ok secLev" "MD_Create secLev = Ok H" "len \<le> digestLen H"
    and "length pairs + lz = 8 * length str"
    and "\<forall>p\<in>set pairs. length p = 2 \<and> (\<forall>m\<in>set p. length m = len)"
    and "length pairs \<le> length ks" "length pairs \<le> length r1" "length pairs \<le> length r2"
  shows "NPOT_run E md secLev len pairs str lz ks r1 r2
    = Ok (map (\<lambda>i. pairs ! i ! (if getBit str (int i) (int lz) = Ok True then 1 else 0)) [0..<length pairs])"
proof -
  have "getBit str (int i) (int lz) = Ok (msb_bit str (i + lz))" if "i < length pairs" for i
    using that assms(6) by (intro getBit_nat) simp
  then have "selected pairs str lz = map (\<lambda>i. pairs ! i ! (if getBit str (int i) (int lz) = Ok True then 1 else 0)) [0..<length pairs]"
    unfolding selected_def by (intro map_cong refl) simp
  then show ?thesis using NPOT_run_ok [OF assms] by simp
qed

text \<open>The integers as a curve, with one-byte encodings, for the witnesses.\<close>

definition toy_curve :: "int curve" where
  "toy_curve = \<lparr>ec_add = (+), ec_inv = uminus, ec_mul = (\<lambda>n p. int n * p), ec_g = 1, ec_oct = (\<lambda>p. [word_of_int p])\<rparr>"

definition toy_md :: "md_alg \<Rightarrow> bytes \<Rightarrow> bytes" where
  "toy_md a x = replicate (case a of SHA1 \<Rightarrow> 20 | SHA256 \<Rightarrow> 32 | SHA384 \<Rightarrow> 48 | SHA512 \<Rightarrow> 64) (sum_list x)"

lemma toy_curve_ok: "curve_ok toy_curve"
  by (simp add: curve_ok_def toy_curve_def algebra_simps)

lemma toy_md_ok: "md_ok toy_md"
  by (simp add: md_ok_def toy_md_def)

theorem NPOT_correct_witness:
  "NPOT_run toy_curve toy_md 80 2 [[[1, 2], [3, 4]], [[5, 6], [7, 8]]] [1] 6 [3, 4] [5, 6] [7, 8]
    = Ok [[1, 2], [7, 8]]"
proof -
  have "NPOT_run toy_curve toy_md 80 2 [[[1, 2], [3, 4]], [[5, 6], [7, 8]]] [1] 6 [3, 4] [5, 6] [7, 8]
    = Ok (map (\<lambda>i. [[[1, 2], [3, 4]], [[5, 6], [7, 8]]] ! i ! (if getBit [1] (int i) (int 6) = Ok True then 1 else 0))
        [0..<length [[[1, 2], [3, 4]], [[5::u8, 6], [7, 8]]]])"
    by (rule NPOT_correct [OF toy_curve_ok toy_md_ok, of _ "\<lparr>md_alg = SHA1, digestLen = 20\<rparr>"])
      (simp_all add: secLev_ok_def MD_Create_def)
  then show ?thesis by (simp add: getBit_def bit_mask_def)
qed

end
