(* ===== verification/OTExtension.thy ===== *)
theory OTExtension
  imports NaorPinkas
begin

text \<open>
  The OT extension of \<open>PSI_C_0.1/PSI/OT/OTExtRcvr.cpp\<close> and \<open>OTExtSndr.cpp\<close> (with their
  headers): \<open>k\<close> base transfers of seeds in the reverse direction are stretched by the
  seeded generators into \<open>m\<close> transfers, possibly in several rounds that reuse the
  generators.  \<open>K\<close> is the key stream, \<open>md\<close> the digests, \<open>E\<close> the curve.  The scratch
  buffers \<open>row\<close>, \<open>hashTemp\<close> and \<open>allZero\<close> are overwritten before every use and are local.

  The transfer is one-sided: the sender masks string \<open>j\<close> with the digest of the row of
  \<open>Q\<close> XORed with \<open>s\<close>, so the receiver can unmask it exactly where its selection bit is 1.
\<close>

section \<open>State\<close>

record 'p OTExtRcvr =
  x_k :: nat
  x_m :: nat
  x_str :: "bytes option"
  x_strByteLen :: nat
  x_lz :: nat
  x_T :: BitMatrix
  x_md :: MessageDigest
  x_seeds :: "bytes list list"
  x_rnd :: "AESRandom list list"
  x_seedByteLen :: nat
  x_secLev :: int
  x_base :: "'p NPOTSndr"

record OTExtSndr =
  y_k :: nat
  y_m :: nat
  y_toSend :: "bytes option list"
  y_lByteLength :: nat
  y_rnd :: "AESRandom option list"
  y_s :: bytes
  y_sLeadingZeroes :: nat
  y_sByteLen :: nat
  y_seedByteLen :: nat
  y_secLev :: int
  y_base :: NPOTRcvr
  y_H :: MessageDigest

definition byteLen :: "nat \<Rightarrow> nat" where
  "byteLen n = unat (getByteLenByBitLen (of_nat n))"

definition leadZ :: "nat \<Rightarrow> nat" where
  "leadZ n = unat (getLeadingZeroes (of_nat n))"

section \<open>Receiver: creation\<close>

text \<open>Round \<open>i\<close> of the first loop: two fresh seeds, generators 0 and 2 from the first, 1 from the second.\<close>

definition OTExtRcvr_seed_step ::
    "(bytes \<Rightarrow> nat \<Rightarrow> u8) \<Rightarrow> int \<Rightarrow> nat \<Rightarrow> nat \<Rightarrow> AESRandom \<times> bytes list list \<times> AESRandom list list \<Rightarrow>
     (AESRandom \<times> bytes list list \<times> AESRandom list list) res" where
  "OTExtRcvr_seed_step K secLev seedByteLen i = (\<lambda>(rnd, seeds, rnds).
     rbind (AESRandom_NextBytes K rnd (replicate seedByteLen 0) seedByteLen) (\<lambda>(s0, rnd).
     rbind (getSeededRandomInstance s0 secLev) (\<lambda>g0.
     rbind (getSeededRandomInstance s0 secLev) (\<lambda>g2.
     rbind (AESRandom_NextBytes K rnd (replicate seedByteLen 0) seedByteLen) (\<lambda>(s1, rnd).
     rbind (getSeededRandomInstance s1 secLev) (\<lambda>g1.
     Ok (rnd, seeds @ [[s0, s1]], rnds @ [[g0, g1, g2]])))))))"

text \<open>\<open>NextBytes\<close> of generator \<open>c\<close> of index \<open>i\<close> into a buffer.\<close>

definition rcvr_next ::
    "(bytes \<Rightarrow> nat \<Rightarrow> u8) \<Rightarrow> AESRandom list list \<Rightarrow> nat \<Rightarrow> nat \<Rightarrow> bytes \<Rightarrow> nat \<Rightarrow> (bytes \<times> AESRandom list list) res" where
  "rcvr_next K rnds i c buf n =
     rbind (rd rnds i) (\<lambda>gs. rbind (rd gs c) (\<lambda>g.
     rbind (AESRandom_NextBytes K g buf n) (\<lambda>(out, g').
     rbind (wr gs c g') (\<lambda>gs'. rbind (wr rnds i gs') (\<lambda>rnds'. Ok (out, rnds'))))))"

text \<open>Fill column \<open>i\<close> of \<open>T\<close> with fresh bytes of generator 0.\<close>

definition fresh_column ::
    "(bytes \<Rightarrow> nat \<Rightarrow> u8) \<Rightarrow> nat \<Rightarrow> nat \<Rightarrow> BitMatrix \<times> AESRandom list list \<Rightarrow> (BitMatrix \<times> AESRandom list list) res" where
  "fresh_column K n i = (\<lambda>(T, rnds).
     rbind (rcvr_next K rnds i 0 (replicate n 0) n) (\<lambda>(ti, rnds').
     rbind (BM_SetColumn T i ti n) (\<lambda>T'. Ok (T', rnds'))))"

definition OTExtRcvr_Create ::
    "'p curve \<Rightarrow> (bytes \<Rightarrow> nat \<Rightarrow> u8) \<Rightarrow> bytes option \<Rightarrow> nat \<Rightarrow> int \<Rightarrow> bytes \<Rightarrow> nat list \<Rightarrow> nat list \<Rightarrow>
     'p OTExtRcvr res" where
  "OTExtRcvr_Create E K str m secLev rand r1 r2 =
     rbind (rassert (secLev = 80 \<or> secLev = 128 \<or> secLev = 192 \<or> secLev = 256)) (\<lambda>_.
     let k = nat secLev; seedByteLen = nat (secLev div 8); strByteLen = byteLen m in
     rbind (MD_Create secLev) (\<lambda>md.
     rbind (getRandomInstance rand secLev) (\<lambda>rnd.
     rbind (rfold (OTExtRcvr_seed_step K secLev seedByteLen) [0..<k] (rnd, [], [])) (\<lambda>(rnd, seeds, rnds).
     rbind (rfold (fresh_column K strByteLen) [0..<k] (BM_Create m k, rnds)) (\<lambda>(T, rnds).
     rbind (NPOTSndr_Create E k seedByteLen seeds secLev r1 r2) (\<lambda>base.
     Ok \<lparr>x_k = k, x_m = m, x_str = str, x_strByteLen = strByteLen, x_lz = leadZ m, x_T = T, x_md = md,
         x_seeds = seeds, x_rnd = rnds, x_seedByteLen = seedByteLen, x_secLev = secLev, x_base = base\<rparr>))))))"

definition OTExTRcvr_SetStr :: "'p OTExtRcvr \<Rightarrow> bytes \<Rightarrow> nat \<Rightarrow> 'p OTExtRcvr res" where
  "OTExTRcvr_SetStr rcvr str len = rbind (rassert (len = x_strByteLen rcvr)) (\<lambda>_. Ok (rcvr\<lparr>x_str := Some str\<rparr>))"

text \<open>
  A new round: when \<open>m\<close> is unchanged the columns are cleared and refilled in place,
  otherwise a new matrix is made.
\<close>

definition refill_column ::
    "(bytes \<Rightarrow> nat \<Rightarrow> u8) \<Rightarrow> nat \<Rightarrow> nat \<Rightarrow> BitMatrix \<times> AESRandom list list \<Rightarrow> (BitMatrix \<times> AESRandom list list) res" where
  "refill_column K n i = (\<lambda>(T, rnds).
     rbind (rd (bm_data T) i) (\<lambda>p. rbind (deref p) (\<lambda>col.
     rbind (wr_blk col 0 (replicate n 0)) (\<lambda>col.
     rbind (rcvr_next K rnds i 0 col n) (\<lambda>(col, rnds').
     rbind (wr (bm_data T) i (Some col)) (\<lambda>d. Ok (T\<lparr>bm_data := d\<rparr>, rnds')))))))"

definition OTExtRcvr_ReInitialise ::
    "(bytes \<Rightarrow> nat \<Rightarrow> u8) \<Rightarrow> 'p OTExtRcvr \<Rightarrow> nat \<Rightarrow> bytes option \<Rightarrow> nat \<Rightarrow> 'p OTExtRcvr res" where
  "OTExtRcvr_ReInitialise K rcvr m str strByteLen =
     rbind (rassert (m = 8 * strByteLen)) (\<lambda>_.
     rbind (if x_m rcvr = m
            then rfold (refill_column K strByteLen) [0..<x_k rcvr] (x_T rcvr, x_rnd rcvr)
            else rfold (fresh_column K strByteLen) [0..<x_k rcvr] (BM_Create m (x_k rcvr), x_rnd rcvr))
       (\<lambda>(T, rnds). Ok (rcvr\<lparr>x_str := str, x_lz := 0, x_strByteLen := strByteLen, x_m := m, x_T := T, x_rnd := rnds\<rparr>)))"

section \<open>Receiver: steps\<close>

definition OTExtRcvr_MatrixEncSingle ::
    "(bytes \<Rightarrow> nat \<Rightarrow> u8) \<Rightarrow> 'p OTExtRcvr \<Rightarrow> nat \<Rightarrow> 'p OTExtRcvr res" where
  "OTExtRcvr_MatrixEncSingle K rcvr i =
     rbind (rd (bm_data (x_T rcvr)) i) (\<lambda>p. rbind (deref p) (\<lambda>col.
     rbind (rcvr_next K (x_rnd rcvr) i 1 col (x_strByteLen rcvr)) (\<lambda>(col, rnds).
     rbind (deref (x_str rcvr)) (\<lambda>str.
     rbind (xorByteArray col str (x_strByteLen rcvr)) (\<lambda>col.
     rbind (wr (bm_data (x_T rcvr)) i (Some col)) (\<lambda>d.
     Ok (rcvr\<lparr>x_T := (x_T rcvr)\<lparr>bm_data := d\<rparr>, x_rnd := rnds\<rparr>)))))))"

definition OTExtRcvr_MatrixEnc :: "(bytes \<Rightarrow> nat \<Rightarrow> u8) \<Rightarrow> 'p OTExtRcvr \<Rightarrow> 'p OTExtRcvr res" where
  "OTExtRcvr_MatrixEnc K rcvr = rfold (\<lambda>i r. OTExtRcvr_MatrixEncSingle K r i) [0..<x_k rcvr] rcvr"

definition OTExtRcvr_MatrixDecSingle ::
    "(bytes \<Rightarrow> nat \<Rightarrow> u8) \<Rightarrow> 'p OTExtRcvr \<Rightarrow> nat \<Rightarrow> 'p OTExtRcvr res" where
  "OTExtRcvr_MatrixDecSingle K rcvr i =
     rbind (rd (bm_data (x_T rcvr)) i) (\<lambda>p. rbind (deref p) (\<lambda>col.
     rbind (wr_blk col 0 (replicate (x_strByteLen rcvr) 0)) (\<lambda>col.
     rbind (rcvr_next K (x_rnd rcvr) i 2 col (x_strByteLen rcvr)) (\<lambda>(col, rnds).
     rbind (wr (bm_data (x_T rcvr)) i (Some col)) (\<lambda>d.
     Ok (rcvr\<lparr>x_T := (x_T rcvr)\<lparr>bm_data := d\<rparr>, x_rnd := rnds\<rparr>))))))"

definition OTExtRcvr_MatrixDec :: "(bytes \<Rightarrow> nat \<Rightarrow> u8) \<Rightarrow> 'p OTExtRcvr \<Rightarrow> 'p OTExtRcvr res" where
  "OTExtRcvr_MatrixDec K rcvr = rfold (\<lambda>i r. OTExtRcvr_MatrixDecSingle K r i) [0..<x_k rcvr] rcvr"

definition OTExtRcvr_step0 :: "'p OTExtRcvr \<Rightarrow> 'p list" where
  "OTExtRcvr_step0 rcvr = NPOTSndr_getCs (x_base rcvr)"

definition OTExtRcvr_step2_1 ::
    "'p curve \<Rightarrow> (md_alg \<Rightarrow> bytes \<Rightarrow> bytes) \<Rightarrow> 'p OTExtRcvr \<Rightarrow> 'p list \<Rightarrow> (bytes list list \<times> 'p list) res" where
  "OTExtRcvr_step2_1 E md rcvr pk0s = NPOTSndr_Step E md (x_base rcvr) pk0s"

definition OTExtRcvr_step2_2 ::
    "(bytes \<Rightarrow> nat \<Rightarrow> u8) \<Rightarrow> 'p OTExtRcvr \<Rightarrow> (bytes option list \<times> 'p OTExtRcvr) res" where
  "OTExtRcvr_step2_2 K rcvr = rbind (OTExtRcvr_MatrixEnc K rcvr) (\<lambda>r. Ok (bm_data (x_T r), r))"

text \<open>The digest of a row followed by the four bytes of its index.\<close>

definition row_hash :: "(md_alg \<Rightarrow> bytes \<Rightarrow> bytes) \<Rightarrow> MessageDigest \<Rightarrow> bytes \<Rightarrow> nat \<Rightarrow> bytes" where
  "row_hash md H row j = md (md_alg H) (row @ le_bytes 4 (of_nat j :: u32))"

definition OTExtRcvr_step4_2Single ::
    "(md_alg \<Rightarrow> bytes \<Rightarrow> bytes) \<Rightarrow> 'p OTExtRcvr \<Rightarrow> bytes \<Rightarrow> nat \<Rightarrow> nat \<Rightarrow> MessageDigest \<Rightarrow> bytes res" where
  "OTExtRcvr_step4_2Single md rcvr received recLen i H =
     rbind (BM_GetRow (x_T rcvr) i (replicate (byteLenRow (x_T rcvr)) 0) (byteLenRow (x_T rcvr))) (\<lambda>row.
     xorByteArray received (row_hash md H row i) recLen)"

definition OTExtRcvr_step4_2 ::
    "(md_alg \<Rightarrow> bytes \<Rightarrow> bytes) \<Rightarrow> 'p OTExtRcvr \<Rightarrow> bytes list \<Rightarrow> nat \<Rightarrow> bytes list res" where
  "OTExtRcvr_step4_2 md rcvr received recStrLen =
     rmap (\<lambda>i. rbind (rd received i) (\<lambda>r. OTExtRcvr_step4_2Single md rcvr r recStrLen i (x_md rcvr))) [0..<x_m rcvr]"

section \<open>Sender\<close>

definition OTExtSndr_Create ::
    "(bytes \<Rightarrow> nat \<Rightarrow> u8) \<Rightarrow> nat \<Rightarrow> int \<Rightarrow> bytes option list \<Rightarrow> nat \<Rightarrow> bytes \<Rightarrow> nat list \<Rightarrow> OTExtSndr res" where
  "OTExtSndr_Create K m secLev toSend lByteLen rand ks =
     (let k = nat secLev; sByteLen = byteLen k in
      rbind (getHashInstance secLev) (\<lambda>H.
      rbind (getRandomInstance rand secLev) (\<lambda>rnd.
      rbind (AESRandom_NextBytes K rnd (replicate sByteLen 0) sByteLen) (\<lambda>(s, rnd).
      rbind (NPOTRcvr_Create s sByteLen (leadZ k) secLev ks) (\<lambda>base.
      Ok \<lparr>y_k = k, y_m = m, y_toSend = toSend, y_lByteLength = lByteLen, y_rnd = replicate k None, y_s = s,
          y_sLeadingZeroes = leadZ k, y_sByteLen = sByteLen, y_seedByteLen = nat (secLev div 8),
          y_secLev = secLev, y_base = base, y_H = H\<rparr>)))))"

definition OTExtSndr_ReInitialise :: "OTExtSndr \<Rightarrow> bytes option list \<Rightarrow> nat \<Rightarrow> OTExtSndr" where
  "OTExtSndr_ReInitialise sndr toSend m = sndr\<lparr>y_toSend := toSend, y_m := m\<rparr>"

definition OTExtSndr_step1 :: "'p curve \<Rightarrow> OTExtSndr \<Rightarrow> 'p list \<Rightarrow> 'p list res" where
  "OTExtSndr_step1 E sndr cs = NPOTRcvr_RStep1 E (y_base sndr) cs"

definition OTExtSndr_step3_1Single ::
    "'p curve \<Rightarrow> (md_alg \<Rightarrow> bytes \<Rightarrow> bytes) \<Rightarrow> OTExtSndr \<Rightarrow> bytes list \<Rightarrow> nat \<Rightarrow> 'p \<Rightarrow> nat \<Rightarrow> MessageDigest \<Rightarrow> OTExtSndr res" where
  "OTExtSndr_step3_1Single E md sndr received recStrLen gr i H =
     rbind (NPOTRcvr_RStep2Single E md (y_base sndr) received recStrLen gr i H) (\<lambda>out.
     rbind (getSeededRandomInstance out (int (y_k sndr))) (\<lambda>g.
     rbind (wr (y_rnd sndr) i (Some g)) (\<lambda>rnds. Ok (sndr\<lparr>y_rnd := rnds\<rparr>))))"

definition OTExtSndr_step3_1 ::
    "'p curve \<Rightarrow> (md_alg \<Rightarrow> bytes \<Rightarrow> bytes) \<Rightarrow> OTExtSndr \<Rightarrow> bytes list list \<Rightarrow> nat \<Rightarrow> 'p list \<Rightarrow> OTExtSndr res" where
  "OTExtSndr_step3_1 E md sndr received recStrLen grs =
     rfold (\<lambda>i s. rbind (rd received i) (\<lambda>r. rbind (rd grs i) (\<lambda>gr.
       OTExtSndr_step3_1Single E md s r recStrLen gr i (y_H s)))) [0..<y_k sndr] sndr"

definition OTExtSndr_step3_2Single ::
    "(bytes \<Rightarrow> nat \<Rightarrow> u8) \<Rightarrow> bytes \<Rightarrow> nat \<Rightarrow> OTExtSndr \<times> BitMatrix \<Rightarrow> (OTExtSndr \<times> BitMatrix) res" where
  "OTExtSndr_step3_2Single K input i = (\<lambda>(sndr, out).
     rbind (getBit (y_s sndr) (int i) (int (y_sLeadingZeroes sndr))) (\<lambda>b.
     rbind (rd (y_rnd sndr) i) (\<lambda>p. rbind (deref p) (\<lambda>g.
     rbind (if b then Ok input else wr_blk input 0 (replicate (byteLenCol out) 0)) (\<lambda>input.
     rbind (AESRandom_NextBytes K g input (byteLenCol out)) (\<lambda>(col, g').
     rbind (wr (y_rnd sndr) i (Some g')) (\<lambda>rnds.
     rbind (BM_SetColumn out i col (byteLenCol out)) (\<lambda>out'.
     Ok (sndr\<lparr>y_rnd := rnds\<rparr>, out')))))))))"

definition OTExtSndr_step3_2 ::
    "(bytes \<Rightarrow> nat \<Rightarrow> u8) \<Rightarrow> OTExtSndr \<Rightarrow> bytes option list \<Rightarrow> (OTExtSndr \<times> BitMatrix) res" where
  "OTExtSndr_step3_2 K sndr input =
     rfold (\<lambda>i s. rbind (rd input i) (\<lambda>p. rbind (deref p) (\<lambda>c. OTExtSndr_step3_2Single K c i s)))
       [0..<y_k sndr] (sndr, BM_Create (y_m sndr) (y_k sndr))"

definition OTExtSndr_step3_3Single ::
    "(md_alg \<Rightarrow> bytes \<Rightarrow> bytes) \<Rightarrow> OTExtSndr \<Rightarrow> BitMatrix \<Rightarrow> nat \<Rightarrow> MessageDigest \<Rightarrow> OTExtSndr res" where
  "OTExtSndr_step3_3Single md sndr Q j H =
     rbind (BM_GetRow Q j (replicate (y_sByteLen sndr) 0) (y_sByteLen sndr)) (\<lambda>row.
     rbind (xorByteArray row (y_s sndr) (y_sByteLen sndr)) (\<lambda>row.
     let hashTemp = row_hash md H row j in
     rbind (rd (y_toSend sndr) j) (\<lambda>p.
     rbind (case p of
              Some x \<Rightarrow> xorByteArray x hashTemp (y_lByteLength sndr)
            | None \<Rightarrow> rd_blk hashTemp 0 (y_lByteLength sndr)) (\<lambda>x.
     rbind (wr (y_toSend sndr) j (Some x)) (\<lambda>t. Ok (sndr\<lparr>y_toSend := t\<rparr>))))))"

definition OTExtSndr_step3_3 ::
    "(md_alg \<Rightarrow> bytes \<Rightarrow> bytes) \<Rightarrow> OTExtSndr \<Rightarrow> BitMatrix \<Rightarrow> OTExtSndr res" where
  "OTExtSndr_step3_3 md sndr Q =
     rfold (\<lambda>j s. OTExtSndr_step3_3Single md s Q j (y_H s)) [0..<y_m sndr] sndr"

section \<open>Composition\<close>

text \<open>The base transfers: points, keys and encrypted seeds pass between the parties.\<close>

definition OTExt_setup ::
    "'p curve \<Rightarrow> (md_alg \<Rightarrow> bytes \<Rightarrow> bytes) \<Rightarrow> 'p OTExtRcvr \<Rightarrow> OTExtSndr \<Rightarrow> OTExtSndr res" where
  "OTExt_setup E md rcvr sndr =
     rbind (OTExtSndr_step1 E sndr (OTExtRcvr_step0 rcvr)) (\<lambda>pk0s.
     rbind (OTExtRcvr_step2_1 E md rcvr pk0s) (\<lambda>(encrypted, grs).
     OTExtSndr_step3_1 E md sndr encrypted (x_seedByteLen rcvr) grs))"

text \<open>One round of extended transfers; the last component is what the receiver decrypts.\<close>

definition OTExt_round ::
    "(bytes \<Rightarrow> nat \<Rightarrow> u8) \<Rightarrow> (md_alg \<Rightarrow> bytes \<Rightarrow> bytes) \<Rightarrow> 'p OTExtRcvr \<Rightarrow> OTExtSndr \<Rightarrow>
     ('p OTExtRcvr \<times> OTExtSndr \<times> bytes list) res" where
  "OTExt_round K md rcvr sndr =
     rbind (OTExtRcvr_step2_2 K rcvr) (\<lambda>(cols, rcvr).
     rbind (OTExtSndr_step3_2 K sndr cols) (\<lambda>(sndr, Q).
     rbind (OTExtSndr_step3_3 md sndr Q) (\<lambda>sndr.
     rbind (OTExtRcvr_MatrixDec K rcvr) (\<lambda>rcvr.
     rbind (rmap deref (y_toSend sndr)) (\<lambda>received.
     rbind (OTExtRcvr_step4_2 md rcvr received (y_lByteLength sndr)) (\<lambda>out.
     Ok (rcvr, sndr, out)))))))"

section \<open>Lengths\<close>

lemma byteLen_eq: "n < 2 ^ 32 \<Longrightarrow> byteLen n = (n + 7) div 8"
  by (simp add: byteLen_def unat_ByteLen unat_of_nat take_bit_nat_eq_self)

lemma leadZ_eq: "n < 2 ^ 32 \<Longrightarrow> leadZ n = (if n mod 8 = 0 then 0 else 8 - n mod 8)"
  by (simp add: leadZ_def unat_LeadingZeroes unat_of_nat take_bit_nat_eq_self)

lemma leadingZeroes_Create: "leadingZeroes (BM_Create m k) = (if m mod 8 = 0 then 0 else 8 - m mod 8)"
  by (simp add: BM_Create_def Let_def)

lemma leadingZeroesRow_Create: "leadingZeroesRow (BM_Create m k) = (if k mod 8 = 0 then 0 else 8 - k mod 8)"
  by (simp add: BM_Create_def Let_def)

lemma BM_data_update [simp]: "bm_data (BM\<lparr>bm_data := d\<rparr>) = d" "bm_k (BM\<lparr>bm_data := d\<rparr>) = bm_k BM"
  by simp_all

section \<open>Generators of the receiver\<close>

lemma rcvr_next_ok:
  assumes "i < length rnds" "c < length (rnds ! i)" "n \<le> length buf"
  shows "rcvr_next K rnds i c buf n =
    Ok (bxor (take n buf) (fst (aes_next K n (rnds ! i ! c))) @ drop n buf,
        rnds[i := (rnds ! i)[c := snd (aes_next K n (rnds ! i ! c))]])"
  using assms by (simp add: rcvr_next_def NextBytes_ok)

abbreviation gen_out :: "(bytes \<Rightarrow> nat \<Rightarrow> u8) \<Rightarrow> nat \<Rightarrow> AESRandom \<Rightarrow> bytes" where
  "gen_out K n g \<equiv> fst (aes_next K n g)"

abbreviation gen_next :: "(bytes \<Rightarrow> nat \<Rightarrow> u8) \<Rightarrow> nat \<Rightarrow> AESRandom \<Rightarrow> AESRandom" where
  "gen_next K n g \<equiv> snd (aes_next K n g)"

text \<open>A matrix with all columns set to the first components, and the generators beside it.\<close>

definition cols_of :: "BitMatrix \<Rightarrow> (bytes option \<times> AESRandom list) list \<Rightarrow> BitMatrix \<times> AESRandom list list" where
  "cols_of T ps = (T\<lparr>bm_data := map fst ps\<rparr>, map snd ps)"

lemma cols_of_zip:
  "length d = length r \<Longrightarrow> cols_of T (zip d r) = (T\<lparr>bm_data := d\<rparr>, r)"
  by (simp add: cols_of_def)

text \<open>Both ways of starting a round give column \<open>i\<close> the next \<open>n\<close> bytes of generator 0 of \<open>i\<close>.\<close>

definition new_cols :: "(bytes \<Rightarrow> nat \<Rightarrow> u8) \<Rightarrow> nat \<Rightarrow> AESRandom list list \<Rightarrow> nat \<Rightarrow> bytes option \<times> AESRandom list" where
  "new_cols K n rnds i = (Some (gen_out K n (rnds ! i ! 0)), (rnds ! i)[0 := gen_next K n (rnds ! i ! 0)])"

lemma fresh_columns_ok:
  assumes "length rnds = k" "\<forall>g\<in>set rnds. length g = 3" "n = (m + 7) div 8"
  shows "rfold (fresh_column K n) [0..<k] (BM_Create m k, rnds) =
    Ok (cols_of (BM_Create m k) (map (new_cols K n rnds) [0..<k]))"
proof -
  have start: "(BM_Create m k, rnds) = cols_of (BM_Create m k) (zip (replicate k None) rnds)"
    using assms(1) by (simp add: cols_of_zip BM_Create_def Let_def)
  show ?thesis unfolding start
  proof (rule rfold_pointwise)
    fix i and ys :: "(bytes option \<times> AESRandom list) list"
    assume i: "i < k" "length ys = k" "ys ! i = zip (replicate k None) rnds ! i"
    then have s: "snd (ys ! i) = rnds ! i" "length (rnds ! i) = 3" using assms by auto
    have n: "rcvr_next K (map snd ys) i 0 (replicate n 0) n = Ok (gen_out K n (rnds ! i ! 0),
        (map snd ys)[i := (rnds ! i)[0 := gen_next K n (rnds ! i ! 0)]])"
      using i s by (simp add: rcvr_next_ok bxor_zero_left aes.len)
    show "fresh_column K n i (cols_of (BM_Create m k) ys) = Ok (cols_of (BM_Create m k) (ys[i := new_cols K n rnds i]))"
      using i assms(3) n by (simp add: fresh_column_def cols_of_def BM_SetColumn_def rassert_def map_update new_cols_def)
  qed (simp add: assms)
qed

lemma refill_columns_ok:
  assumes "length rnds = k" "\<forall>g\<in>set rnds. length g = 3" "length cols = k" "\<forall>c\<in>set cols. length c = n"
  shows "rfold (refill_column K n) [0..<k] (T\<lparr>bm_data := map Some cols\<rparr>, rnds) =
    Ok (cols_of T (map (new_cols K n rnds) [0..<k]))"
proof -
  have start: "(T\<lparr>bm_data := map Some cols\<rparr>, rnds) = cols_of T (zip (map Some cols) rnds)"
    using assms by (simp add: cols_of_zip)
  show ?thesis unfolding start
  proof (rule rfold_pointwise)
    fix i and ys :: "(bytes option \<times> AESRandom list) list"
    assume i: "i < k" "length ys = k" "ys ! i = zip (map Some cols) rnds ! i"
    then have s: "snd (ys ! i) = rnds ! i" "fst (ys ! i) = Some (cols ! i)" "length (rnds ! i) = 3" "length (cols ! i) = n"
      using assms by auto
    have n: "rcvr_next K (map snd ys) i 0 (replicate n 0) n = Ok (gen_out K n (rnds ! i ! 0),
        (map snd ys)[i := (rnds ! i)[0 := gen_next K n (rnds ! i ! 0)]])"
      using i s by (simp add: rcvr_next_ok bxor_zero_left aes.len)
    show "refill_column K n i (cols_of T ys) = Ok (cols_of T (ys[i := new_cols K n rnds i]))"
      using i s by (simp add: refill_column_def cols_of_def n deref_def blit_def map_update new_cols_def)
  qed (simp add: assms)
qed

section \<open>Encrypting and decrypting the matrix\<close>

text \<open>The part of the receiver the two loops change.\<close>

definition with_cols :: "'p OTExtRcvr \<Rightarrow> (bytes option \<times> AESRandom list) list \<Rightarrow> 'p OTExtRcvr" where
  "with_cols rcvr ps = rcvr\<lparr>x_T := (x_T rcvr)\<lparr>bm_data := map fst ps\<rparr>, x_rnd := map snd ps\<rparr>"

lemma with_cols_simps [simp]:
  "x_k (with_cols r ps) = x_k r" "x_m (with_cols r ps) = x_m r" "x_str (with_cols r ps) = x_str r"
  "x_strByteLen (with_cols r ps) = x_strByteLen r" "x_md (with_cols r ps) = x_md r"
  "bm_data (x_T (with_cols r ps)) = map fst ps" "x_rnd (with_cols r ps) = map snd ps"
  by (simp_all add: with_cols_def)

lemma with_cols_update:
  "(with_cols r ps)\<lparr>x_T := (x_T (with_cols r ps))\<lparr>bm_data := map fst qs\<rparr>, x_rnd := map snd qs\<rparr> = with_cols r qs"
  by (simp add: with_cols_def)

lemma with_cols_zip:
  "length d = length r \<Longrightarrow> bm_data (x_T rcvr) = d \<Longrightarrow> x_rnd rcvr = r \<Longrightarrow> with_cols rcvr (zip d r) = rcvr"
  by (auto simp: with_cols_def)

definition enc_col ::
    "(bytes \<Rightarrow> nat \<Rightarrow> u8) \<Rightarrow> nat \<Rightarrow> bytes \<Rightarrow> bytes list \<Rightarrow> AESRandom list list \<Rightarrow> nat \<Rightarrow> bytes option \<times> AESRandom list" where
  "enc_col K n str cols rnds i = (Some (bxor (bxor (cols ! i) (gen_out K n (rnds ! i ! 1))) str),
     (rnds ! i)[1 := gen_next K n (rnds ! i ! 1)])"

lemma MatrixEnc_ok:
  assumes d: "bm_data (x_T rcvr) = map Some cols" "length cols = k" "x_k rcvr = k" "\<forall>c\<in>set cols. length c = n"
    and r: "length (x_rnd rcvr) = k" "\<forall>g\<in>set (x_rnd rcvr). length g = 3"
    and str: "x_str rcvr = Some str" "length str = n" "x_strByteLen rcvr = n"
  shows "OTExtRcvr_MatrixEnc K rcvr = Ok (with_cols rcvr (map (enc_col K n str cols (x_rnd rcvr)) [0..<k]))"
proof -
  have start: "rcvr = with_cols rcvr (zip (map Some cols) (x_rnd rcvr))"
    using d r by (simp add: with_cols_zip)
  have "rfold (\<lambda>i r. OTExtRcvr_MatrixEncSingle K r i) [0..<k] (with_cols rcvr (zip (map Some cols) (x_rnd rcvr))) =
    Ok (with_cols rcvr (map (enc_col K n str cols (x_rnd rcvr)) [0..<k]))"
  proof (rule rfold_pointwise)
    fix i and ys :: "(bytes option \<times> AESRandom list) list"
    assume i: "i < k" "length ys = k" "ys ! i = zip (map Some cols) (x_rnd rcvr) ! i"
    then have s: "snd (ys ! i) = x_rnd rcvr ! i" "fst (ys ! i) = Some (cols ! i)" "length (x_rnd rcvr ! i) = 3"
      "length (cols ! i) = n" using d r by auto
    have n: "rcvr_next K (map snd ys) i 1 (cols ! i) n = Ok (bxor (cols ! i) (gen_out K n (x_rnd rcvr ! i ! 1)),
        (map snd ys)[i := (x_rnd rcvr ! i)[1 := gen_next K n (x_rnd rcvr ! i ! 1)]])"
      using i s by (simp add: rcvr_next_ok)
    have x: "xorByteArray (bxor (cols ! i) (gen_out K n (x_rnd rcvr ! i ! 1))) str n
        = Ok (bxor (bxor (cols ! i) (gen_out K n (x_rnd rcvr ! i ! 1))) str)"
      using s str by (simp add: xorByteArray_ok aes.len)
    have "OTExtRcvr_MatrixEncSingle K (with_cols rcvr ys) i = Ok ((with_cols rcvr ys)
        \<lparr>x_T := (x_T (with_cols rcvr ys))\<lparr>bm_data := map fst (ys[i := enc_col K n str cols (x_rnd rcvr) i])\<rparr>,
         x_rnd := map snd (ys[i := enc_col K n str cols (x_rnd rcvr) i])\<rparr>)"
      using i s str n x by (simp add: OTExtRcvr_MatrixEncSingle_def deref_def map_update enc_col_def)
    then show "OTExtRcvr_MatrixEncSingle K (with_cols rcvr ys) i
        = Ok (with_cols rcvr (ys[i := enc_col K n str cols (x_rnd rcvr) i]))"
      by (simp only: with_cols_update)
  qed (use d r in simp)
  then show ?thesis using start d(3) by (simp add: OTExtRcvr_MatrixEnc_def)
qed

definition dec_col ::
    "(bytes \<Rightarrow> nat \<Rightarrow> u8) \<Rightarrow> nat \<Rightarrow> AESRandom list list \<Rightarrow> nat \<Rightarrow> bytes option \<times> AESRandom list" where
  "dec_col K n rnds i = (Some (gen_out K n (rnds ! i ! 2)), (rnds ! i)[2 := gen_next K n (rnds ! i ! 2)])"

lemma MatrixDec_ok:
  assumes d: "bm_data (x_T rcvr) = map Some cols" "length cols = k" "x_k rcvr = k" "\<forall>c\<in>set cols. length c = n"
    and r: "length (x_rnd rcvr) = k" "\<forall>g\<in>set (x_rnd rcvr). length g = 3" and str: "x_strByteLen rcvr = n"
  shows "OTExtRcvr_MatrixDec K rcvr = Ok (with_cols rcvr (map (dec_col K n (x_rnd rcvr)) [0..<k]))"
proof -
  have start: "rcvr = with_cols rcvr (zip (map Some cols) (x_rnd rcvr))"
    using d r by (simp add: with_cols_zip)
  have "rfold (\<lambda>i r. OTExtRcvr_MatrixDecSingle K r i) [0..<k] (with_cols rcvr (zip (map Some cols) (x_rnd rcvr))) =
    Ok (with_cols rcvr (map (dec_col K n (x_rnd rcvr)) [0..<k]))"
  proof (rule rfold_pointwise)
    fix i and ys :: "(bytes option \<times> AESRandom list) list"
    assume i: "i < k" "length ys = k" "ys ! i = zip (map Some cols) (x_rnd rcvr) ! i"
    then have s: "snd (ys ! i) = x_rnd rcvr ! i" "fst (ys ! i) = Some (cols ! i)" "length (x_rnd rcvr ! i) = 3"
      "length (cols ! i) = n" using d r by auto
    have n: "rcvr_next K (map snd ys) i 2 (replicate n 0) n = Ok (gen_out K n (x_rnd rcvr ! i ! 2),
        (map snd ys)[i := (x_rnd rcvr ! i)[2 := gen_next K n (x_rnd rcvr ! i ! 2)]])"
      using i s by (simp add: rcvr_next_ok bxor_zero_left aes.len)
    have "OTExtRcvr_MatrixDecSingle K (with_cols rcvr ys) i = Ok ((with_cols rcvr ys)
        \<lparr>x_T := (x_T (with_cols rcvr ys))\<lparr>bm_data := map fst (ys[i := dec_col K n (x_rnd rcvr) i])\<rparr>,
         x_rnd := map snd (ys[i := dec_col K n (x_rnd rcvr) i])\<rparr>)"
      using i s str n by (simp add: OTExtRcvr_MatrixDecSingle_def deref_def map_update dec_col_def blit_def)
    then show "OTExtRcvr_MatrixDecSingle K (with_cols rcvr ys) i
        = Ok (with_cols rcvr (ys[i := dec_col K n (x_rnd rcvr) i]))"
      by (simp only: with_cols_update)
  qed (use d r in simp)
  then show ?thesis using start d(3) by (simp add: OTExtRcvr_MatrixDec_def)
qed

section \<open>The sender's matrix and masks\<close>

definition with_gens :: "OTExtSndr \<Rightarrow> BitMatrix \<Rightarrow> (AESRandom option \<times> bytes option) list \<Rightarrow> OTExtSndr \<times> BitMatrix" where
  "with_gens sndr Q ps = (sndr\<lparr>y_rnd := map fst ps\<rparr>, Q\<lparr>bm_data := map snd ps\<rparr>)"

definition q_col ::
    "(bytes \<Rightarrow> nat \<Rightarrow> u8) \<Rightarrow> nat \<Rightarrow> bytes \<Rightarrow> AESRandom list \<Rightarrow> bytes list \<Rightarrow> nat \<Rightarrow> AESRandom option \<times> bytes option" where
  "q_col K n s gens cols i = (Some (gen_next K n (gens ! i)),
     Some (if msb_bit s i then bxor (cols ! i) (gen_out K n (gens ! i)) else gen_out K n (gens ! i)))"

lemma step3_2_ok:
  assumes g: "y_rnd sndr = map Some gens" "length gens = k" "y_k sndr = k"
    and c: "length cols = k" "\<forall>c\<in>set cols. length c = n" "n = (y_m sndr + 7) div 8"
    and s: "y_sLeadingZeroes sndr = 0" "k \<le> 8 * length (y_s sndr)"
  shows "OTExtSndr_step3_2 K sndr (map Some cols) =
    Ok (with_gens sndr (BM_Create (y_m sndr) k) (map (q_col K n (y_s sndr) gens cols) [0..<k]))"
proof -
  let ?Q = "BM_Create (y_m sndr) k"
  have start: "(sndr, ?Q) = with_gens sndr ?Q (zip (map Some gens) (replicate k None))"
    using g by (simp add: with_gens_def BM_Create_def Let_def)
  have "rfold (\<lambda>i s. rbind (rd (map Some cols) i) (\<lambda>p. rbind (deref p) (\<lambda>c. OTExtSndr_step3_2Single K c i s)))
      [0..<k] (with_gens sndr ?Q (zip (map Some gens) (replicate k None))) =
    Ok (with_gens sndr ?Q (map (q_col K n (y_s sndr) gens cols) [0..<k]))"
  proof (rule rfold_pointwise)
    fix i and ys :: "(AESRandom option \<times> bytes option) list"
    assume i: "i < k" "length ys = k" "ys ! i = zip (map Some gens) (replicate k None) ! i"
    then have f: "fst (ys ! i) = Some (gens ! i)" "length (cols ! i) = n" using g c by auto
    have b: "getBit (y_s sndr) (int i) 0 = Ok (msb_bit (y_s sndr) i)"
      using i s getBit_nat [of i 0 "y_s sndr"] by simp
    have q: "byteLenCol ?Q = n" "bm_k ?Q = k" using c(3) by simp_all
    show "rbind (rd (map Some cols) i) (\<lambda>p. rbind (deref p) (\<lambda>c. OTExtSndr_step3_2Single K c i (with_gens sndr ?Q ys)))
        = Ok (with_gens sndr ?Q (ys[i := q_col K n (y_s sndr) gens cols i]))"
      using i f c(1) s(1) b unfolding with_gens_def OTExtSndr_step3_2Single_def prod.case
      by (cases "msb_bit (y_s sndr) i")
        (simp_all add: deref_def NextBytes_ok blit_def bxor_zero_left aes.len BM_SetColumn_def rassert_def
          map_update q_col_def q case_prod_beta del: BM_Create_simps)
  qed (use g in simp)
  then show ?thesis using start g(3) by (simp add: OTExtSndr_step3_2_def)
qed

text \<open>The string that goes out for \<open>p\<close> under the mask \<open>h\<close>; a null string is sent as the mask alone.\<close>

definition payload :: "nat \<Rightarrow> bytes option \<Rightarrow> bytes" where
  "payload l p = (case p of Some x \<Rightarrow> x | None \<Rightarrow> replicate l 0)"

lemma step3_3_ok:
  assumes m: "length (y_toSend sndr) = m" "y_m sndr = m" and sb: "y_sByteLen sndr = L" "length (y_s sndr) = L"
    and row: "\<And>j. j < m \<Longrightarrow> BM_GetRow Q j (replicate L 0) L = Ok (row j)" "\<And>j. j < m \<Longrightarrow> length (row j) = L"
    and h: "\<And>x. length (md (md_alg (y_H sndr)) x) = dl" "y_lByteLength sndr = l" "l \<le> dl"
    and pl: "\<And>j. j < m \<Longrightarrow> length (payload l (y_toSend sndr ! j)) = l"
  shows "OTExtSndr_step3_3 md sndr Q = Ok (sndr\<lparr>y_toSend := map (\<lambda>j. Some
    (bxor (payload l (y_toSend sndr ! j)) (take l (row_hash md (y_H sndr) (bxor (row j) (y_s sndr)) j)))) [0..<m]\<rparr>)"
proof -
  let ?F = "\<lambda>j. Some (bxor (payload l (y_toSend sndr ! j)) (take l (row_hash md (y_H sndr) (bxor (row j) (y_s sndr)) j)))"
  have "rfold (\<lambda>j s. OTExtSndr_step3_3Single md s Q j (y_H s)) [0..<m] (sndr\<lparr>y_toSend := y_toSend sndr\<rparr>) =
      Ok (sndr\<lparr>y_toSend := map ?F [0..<m]\<rparr>)"
  proof (rule rfold_pointwise [where W = "\<lambda>t. sndr\<lparr>y_toSend := t\<rparr>"])
    fix j and ys :: "bytes option list"
    assume j: "j < m" "length ys = m" "ys ! j = y_toSend sndr ! j"
    have hl: "l \<le> length (row_hash md (y_H sndr) r j)" for r using h by (simp add: row_hash_def)
    have x: "xorByteArray (row j) (y_s sndr) L = Ok (bxor (row j) (y_s sndr))"
      using row(2) [OF j(1)] sb by (simp add: xorByteArray_ok)
    have c: "(case y_toSend sndr ! j of Some x \<Rightarrow> xorByteArray x h l | None \<Rightarrow> rd_blk h 0 l)
        = Ok (bxor (payload l (y_toSend sndr ! j)) (take l h))" if "l \<le> length h" for h
      using that pl [OF j(1)] by (cases "y_toSend sndr ! j")
        (simp_all add: payload_def xorByteArray_ok bxor_zero_left)
    show "OTExtSndr_step3_3Single md (sndr\<lparr>y_toSend := ys\<rparr>) Q j (y_H (sndr\<lparr>y_toSend := ys\<rparr>)) =
        Ok (sndr\<lparr>y_toSend := ys[j := ?F j]\<rparr>)"
      using j sb h(2) x c hl row(1) by (simp add: OTExtSndr_step3_3Single_def Let_def cong: option.case_cong)
  qed (rule m(1))
  then show ?thesis using m(2) by (simp add: OTExtSndr_step3_3_def)
qed

lemma step4_2_ok:
  assumes m: "x_m rcvr = m" "length received = m" and L: "byteLenRow (x_T rcvr) = L"
    and row: "\<And>j. j < m \<Longrightarrow> BM_GetRow (x_T rcvr) j (replicate L 0) L = Ok (row j)"
    and h: "\<And>x. length (md (md_alg (x_md rcvr)) x) = dl" "l \<le> dl" and len: "\<And>j. j < m \<Longrightarrow> length (received ! j) = l"
  shows "OTExtRcvr_step4_2 md rcvr received l =
    Ok (map (\<lambda>j. bxor (received ! j) (take l (row_hash md (x_md rcvr) (row j) j))) [0..<m])"
proof -
  have hl: "l \<le> length (row_hash md (x_md rcvr) r j)" for r j using h by (simp add: row_hash_def)
  show ?thesis unfolding OTExtRcvr_step4_2_def m(1)
    by (rule rmap_Ok) (simp add: m OTExtRcvr_step4_2Single_def L row xorByteArray_ok len hl)
qed

section \<open>Rows of the two matrices\<close>

text \<open>The bit of the selection string that belongs to transfer \<open>j\<close> of \<open>m\<close>.\<close>

definition sel_bit :: "nat \<Rightarrow> bytes \<Rightarrow> nat \<Rightarrow> bool" where
  "sel_bit m str j \<longleftrightarrow> msb_bit str (j + leadZ m)"

definition t_row :: "nat \<Rightarrow> bytes list \<Rightarrow> nat \<Rightarrow> bytes" where
  "t_row m cols j = pack_bits (map (\<lambda>c. msb_bit c (j + leadZ m)) cols)"

lemma length_t_row: "length cols mod 8 = 0 \<Longrightarrow> length (t_row m cols j) = length cols div 8"
proof -
  assume z: "length cols mod 8 = 0"
  have "8 * length (t_row m cols j) = length cols"
    using length_pack_bits [of "map (\<lambda>c. msb_bit c (j + leadZ m)) cols"] z by (simp add: t_row_def pad_len_def)
  then show ?thesis by linarith
qed

lemma msb_t_row: "length cols mod 8 = 0 \<Longrightarrow> n < length cols \<Longrightarrow> msb_bit (t_row m cols j) n = msb_bit (cols ! n) (j + leadZ m)"
  using msb_bit_pack [of n "map (\<lambda>c. msb_bit c (j + leadZ m)) cols"] by (simp add: t_row_def pad_len_def)

lemma filled_Create:
  "length cols = k \<Longrightarrow> \<forall>c\<in>set cols. length c = (m + 7) div 8 \<Longrightarrow>
   bm_filled ((BM_Create m k)\<lparr>bm_data := map Some cols\<rparr>) cols"
  using BM_Create_dims [of m k] by (simp add: bm_filled_def bm_dims_def)

lemma mod_8_zero: "(k::nat) mod 8 = 0 \<Longrightarrow> (k + 7) div 8 = k div 8" "(k::nat) mod 8 = 0 \<Longrightarrow> 8 * (k div 8) = k"
proof -
  assume "k mod 8 = 0"
  then obtain q where "k = 8 * q" by (auto simp: mod_eq_0_iff_dvd)
  then show "(k + 7) div 8 = k div 8" "8 * (k div 8) = k" by simp_all
qed

lemma padded_len: "m < 2 ^ 32 \<Longrightarrow> m + leadZ m = 8 * ((m + 7) div 8)"
  by (simp only: leadZ_eq pad_to_8 ceil_8)

lemma GetRow_Create:
  assumes "length cols = k" "\<forall>c\<in>set cols. length c = (m + 7) div 8" "k mod 8 = 0" "j < m" "m < 2 ^ 32"
    and r: "length r = k div 8" "\<And>n. n < k \<Longrightarrow> msb_bit r n = msb_bit (cols ! n) (j + leadZ m)"
  shows "BM_GetRow ((BM_Create m k)\<lparr>bm_data := map Some cols\<rparr>) j (replicate (k div 8) 0) (k div 8) = Ok r"
proof -
  let ?B = "(BM_Create m k)\<lparr>bm_data := map Some cols\<rparr>"
  note k8 = mod_8_zero [OF assms(3)]
  have b1: "byteLenRow ?B = k div 8" by (simp add: k8(1))
  have b2: "leadingZeroesRow ?B = 0" by (simp add: leadingZeroesRow_Create assms(3))
  have b3: "leadingZeroes ?B = leadZ m"
    by (simp add: leadingZeroes_Create leadZ_eq [OF assms(5)])
  note b = b1 b2 b3
  have "BM_GetRow ?B j (replicate (k div 8) 0) (byteLenRow ?B) = Ok r"
    by (rule GetRow_value [OF filled_Create [OF assms(1,2)]]) (use assms(4) r in \<open>simp_all add: bm_row_def b k8(2)\<close>)
  then show ?thesis by (simp add: b)
qed

lemma T_row:
  assumes "length cols = k" "\<forall>c\<in>set cols. length c = (m + 7) div 8" "k mod 8 = 0" "j < m" "m < 2 ^ 32"
  shows "BM_GetRow ((BM_Create m k)\<lparr>bm_data := map Some cols\<rparr>) j (replicate (k div 8) 0) (k div 8) = Ok (t_row m cols j)"
  using assms(1,3) by (intro GetRow_Create [OF assms]) (simp_all only: length_t_row msb_t_row)

text \<open>Row \<open>j\<close> of \<open>Q\<close> is row \<open>j\<close> of \<open>T\<close>, XORed with \<open>s\<close> exactly when the selection bit is set.\<close>

definition q_cols :: "bytes \<Rightarrow> bytes \<Rightarrow> bytes list \<Rightarrow> bytes list" where
  "q_cols s str cols = map (\<lambda>i. if msb_bit s i then bxor (cols ! i) str else cols ! i) [0..<length cols]"

lemma Q_row:
  assumes c: "length cols = k" "\<forall>c\<in>set cols. length c = (m + 7) div 8" "k mod 8 = 0" "j < m" "m < 2 ^ 32"
    and s: "length s = k div 8" and str: "length str = (m + 7) div 8"
  shows "BM_GetRow ((BM_Create m k)\<lparr>bm_data := map Some (q_cols s str cols)\<rparr>) j (replicate (k div 8) 0) (k div 8)
    = Ok (if sel_bit m str j then bxor (t_row m cols j) s else t_row m cols j)"
proof (rule GetRow_Create)
  show "\<forall>q\<in>set (q_cols s str cols). length q = (m + 7) div 8" using c str by (auto simp: q_cols_def)
  show "length (if sel_bit m str j then bxor (t_row m cols j) s else t_row m cols j) = k div 8"
    using c s by (simp add: length_t_row)
next
  fix n assume n: "n < k"
  have jz: "j + leadZ m < 8 * ((m + 7) div 8)"
    using c(4) add_less_mono1 [of j m "leadZ m"] by (simp only: padded_len [OF c(5)])
  have l: "length (cols ! n) = (m + 7) div 8" using c n by simp
  have q: "q_cols s str cols ! n = (if msb_bit s n then bxor (cols ! n) str else cols ! n)"
    using n c(1) by (simp add: q_cols_def)
  note k8 = mod_8_zero(2) [OF c(3)]
  have t: "msb_bit (t_row m cols j) n = msb_bit (cols ! n) (j + leadZ m)" using c n by (simp add: msb_t_row)
  have "msb_bit (bxor (t_row m cols j) s) n = (msb_bit (t_row m cols j) n \<noteq> msb_bit s n)"
    using n k8 c s by (intro msb_bit_bxor) (simp_all add: length_t_row)
  moreover have "msb_bit (bxor (cols ! n) str) (j + leadZ m) = (msb_bit (cols ! n) (j + leadZ m) \<noteq> sel_bit m str j)"
    unfolding sel_bit_def using jz l str by (intro msb_bit_bxor) simp_all
  ultimately show "msb_bit (if sel_bit m str j then bxor (t_row m cols j) s else t_row m cols j) n =
      msb_bit (q_cols s str cols ! n) (j + leadZ m)"
    using t q by auto
qed (use c in \<open>simp_all add: q_cols_def\<close>)

section \<open>Synchronised parties\<close>

text \<open>
  Between rounds: \<open>gs\<close> holds, for every base transfer, generator 1 and generator 2 of the
  receiver; generator 0 is one round ahead of generator 2, the columns of \<open>T\<close> are the
  bytes it produced, and the sender has the generator that its bit of \<open>s\<close> selects.
\<close>

definition cur_cols :: "(bytes \<Rightarrow> nat \<Rightarrow> u8) \<Rightarrow> nat \<Rightarrow> (AESRandom \<times> AESRandom) list \<Rightarrow> bytes list" where
  "cur_cols K n gs = map (\<lambda>g. gen_out K n (snd g)) gs"

definition synced ::
    "(bytes \<Rightarrow> nat \<Rightarrow> u8) \<Rightarrow> nat \<Rightarrow> nat \<Rightarrow> (AESRandom \<times> AESRandom) list \<Rightarrow> 'p OTExtRcvr \<Rightarrow> OTExtSndr \<Rightarrow> bool" where
  "synced K k m gs rcvr sndr \<longleftrightarrow>
     k mod 8 = 0 \<and> m < 2 ^ 32 \<and> length gs = k \<and> x_k rcvr = k \<and> y_k sndr = k \<and> x_m rcvr = m \<and> y_m sndr = m \<and>
     x_strByteLen rcvr = (m + 7) div 8 \<and> x_md rcvr = y_H sndr \<and>
     x_rnd rcvr = map (\<lambda>g. [gen_next K ((m + 7) div 8) (snd g), fst g, snd g]) gs \<and>
     x_T rcvr = (BM_Create m k)\<lparr>bm_data := map Some (cur_cols K ((m + 7) div 8) gs)\<rparr> \<and>
     y_sLeadingZeroes sndr = 0 \<and> length (y_s sndr) = k div 8 \<and> y_sByteLen sndr = k div 8 \<and>
     y_rnd sndr = map (\<lambda>i. Some (if msb_bit (y_s sndr) i then fst (gs ! i) else snd (gs ! i))) [0..<k]"

definition next_gens :: "(bytes \<Rightarrow> nat \<Rightarrow> u8) \<Rightarrow> nat \<Rightarrow> (AESRandom \<times> AESRandom) list \<Rightarrow> (AESRandom \<times> AESRandom) list" where
  "next_gens K n gs = map (\<lambda>g. (gen_next K n (fst g), gen_next K n (snd g))) gs"

text \<open>After a round generator 0 has not moved and equals generator 2.\<close>

definition drained ::
    "(bytes \<Rightarrow> nat \<Rightarrow> u8) \<Rightarrow> nat \<Rightarrow> nat \<Rightarrow> (AESRandom \<times> AESRandom) list \<Rightarrow> 'p OTExtRcvr \<Rightarrow> OTExtSndr \<Rightarrow> bool" where
  "drained K k m gs rcvr sndr \<longleftrightarrow>
     k mod 8 = 0 \<and> length gs = k \<and> x_k rcvr = k \<and> y_k sndr = k \<and> x_m rcvr = m \<and> x_md rcvr = y_H sndr \<and>
     x_rnd rcvr = map (\<lambda>g. [snd g, fst g, snd g]) gs \<and>
     (\<exists>cols. x_T rcvr = (BM_Create m k)\<lparr>bm_data := map Some cols\<rparr> \<and> length cols = k \<and>
        (\<forall>c\<in>set cols. length c = (m + 7) div 8)) \<and>
     y_sLeadingZeroes sndr = 0 \<and> length (y_s sndr) = k div 8 \<and> y_sByteLen sndr = k div 8 \<and>
     y_rnd sndr = map (\<lambda>i. Some (if msb_bit (y_s sndr) i then fst (gs ! i) else snd (gs ! i))) [0..<k]"

text \<open>The string the receiver ends up with for transfer \<open>j\<close>, where \<open>t\<close> is its row.\<close>

definition ot_out ::
    "(md_alg \<Rightarrow> bytes \<Rightarrow> bytes) \<Rightarrow> MessageDigest \<Rightarrow> nat \<Rightarrow> bytes \<Rightarrow> bytes option \<Rightarrow> bool \<Rightarrow> bytes \<Rightarrow> nat \<Rightarrow> bytes" where
  "ot_out md H l s p b t j =
     (if b then payload l p
      else bxor (bxor (payload l p) (take l (row_hash md H (bxor t s) j))) (take l (row_hash md H t j)))"

lemma reinit_synced:
  assumes d: "drained K k m0 gs rcvr sndr" and m: "m = 8 * n" "m < 2 ^ 32"
  shows "\<exists>rcvr'. OTExtRcvr_ReInitialise K rcvr m str n = Ok rcvr' \<and> x_str rcvr' = str \<and>
    synced K k m gs rcvr' (OTExtSndr_ReInitialise sndr toSend m)"
proof -
  obtain cols where T: "x_T rcvr = (BM_Create m0 k)\<lparr>bm_data := map Some cols\<rparr>" "length cols = k"
    "\<forall>c\<in>set cols. length c = (m0 + 7) div 8" using d by (auto simp: drained_def)
  have r: "x_rnd rcvr = map (\<lambda>g. [snd g, fst g, snd g]) gs" "length gs = k" "x_k rcvr = k" "x_m rcvr = m0"
    using d by (simp_all add: drained_def)
  have n: "n = (m + 7) div 8" using m(1) by simp
  let ?new = "map (new_cols K n (x_rnd rcvr)) [0..<k]"
  have new: "?new = map (\<lambda>g. (Some (gen_out K n (snd g)), [gen_next K n (snd g), fst g, snd g])) gs"
    using r by (intro nth_equalityI) (simp_all add: new_cols_def)
  have c: "cols_of (BM_Create m k) ?new = ((BM_Create m k)\<lparr>bm_data := map Some (cur_cols K n gs)\<rparr>,
      map (\<lambda>g. [gen_next K n (snd g), fst g, snd g]) gs)"
    unfolding new cols_of_def cur_cols_def by simp
  have fold: "(if x_m rcvr = m
            then rfold (refill_column K n) [0..<x_k rcvr] (x_T rcvr, x_rnd rcvr)
            else rfold (fresh_column K n) [0..<x_k rcvr] (BM_Create m (x_k rcvr), x_rnd rcvr))
      = Ok (cols_of (BM_Create m k) ?new)"
  proof (cases "x_m rcvr = m")
    case True
    then have "rfold (refill_column K n) [0..<k] (x_T rcvr, x_rnd rcvr) = Ok (cols_of (BM_Create m k) ?new)"
      unfolding T(1) using refill_columns_ok [of "x_rnd rcvr" k cols n K "BM_Create m k"] r T n by simp
    then show ?thesis using True r by simp
  next
    case False
    have "rfold (fresh_column K n) [0..<k] (BM_Create m k, x_rnd rcvr) = Ok (cols_of (BM_Create m k) ?new)"
      using r n by (intro fresh_columns_ok) simp_all
    then show ?thesis using False r by simp
  qed
  show ?thesis
    unfolding OTExtRcvr_ReInitialise_def fold c using d m n
    by (simp add: rassert_def synced_def drained_def OTExtSndr_ReInitialise_def)
qed

text \<open>What the receiver sends: its columns, masked with generator 1 and the selection string.\<close>

lemma round_encrypt:
  assumes "synced K k m gs rcvr sndr" "x_str rcvr = Some str" "length str = (m + 7) div 8"
  shows "OTExtRcvr_step2_2 K rcvr =
    Ok (map (\<lambda>i. Some (bxor (bxor (cur_cols K ((m + 7) div 8) gs ! i) (gen_out K ((m + 7) div 8) (fst (gs ! i)))) str)) [0..<k],
      with_cols rcvr (map (\<lambda>i. (Some (bxor (bxor (cur_cols K ((m + 7) div 8) gs ! i)
          (gen_out K ((m + 7) div 8) (fst (gs ! i)))) str),
        [gen_next K ((m + 7) div 8) (snd (gs ! i)), gen_next K ((m + 7) div 8) (fst (gs ! i)), snd (gs ! i)])) [0..<k]))"
proof -
  let ?n = "(m + 7) div 8"
  have r: "x_rnd rcvr = map (\<lambda>g. [gen_next K ?n (snd g), fst g, snd g]) gs" "length gs = k"
    "bm_data (x_T rcvr) = map Some (cur_cols K ?n gs)" "x_k rcvr = k" "x_strByteLen rcvr = ?n"
    using assms(1) by (simp_all add: synced_def)
  have E: "map (enc_col K ?n str (cur_cols K ?n gs) (x_rnd rcvr)) [0..<k] =
      map (\<lambda>i. (Some (bxor (bxor (cur_cols K ?n gs ! i) (gen_out K ?n (fst (gs ! i)))) str),
        [gen_next K ?n (snd (gs ! i)), gen_next K ?n (fst (gs ! i)), snd (gs ! i)])) [0..<k]"
    using r by (intro map_cong refl) (simp add: enc_col_def)
  have M: "OTExtRcvr_MatrixEnc K rcvr = Ok (with_cols rcvr (map (enc_col K ?n str (cur_cols K ?n gs) (x_rnd rcvr)) [0..<k]))"
    using r assms(2,3) by (intro MatrixEnc_ok) (auto simp: cur_cols_def aes.len)
  show ?thesis unfolding OTExtRcvr_step2_2_def M E by simp
qed

text \<open>What the sender makes of it: the columns of \<open>Q\<close>.\<close>

lemma round_matrix:
  assumes syn: "synced K k m gs rcvr sndr" and str: "length str = n" and n: "n = (m + 7) div 8"
    and cols: "cols = cur_cols K n gs"
  shows "OTExtSndr_step3_2 K sndr (map (\<lambda>i. Some (bxor (bxor (cols ! i) (gen_out K n (fst (gs ! i)))) str)) [0..<k]) =
    Ok (sndr\<lparr>y_rnd := map (\<lambda>i. Some (if msb_bit (y_s sndr) i then fst (next_gens K n gs ! i)
          else snd (next_gens K n gs ! i))) [0..<k]\<rparr>,
        (BM_Create m k)\<lparr>bm_data := map Some (q_cols (y_s sndr) str cols)\<rparr>)"
proof -
  define gens where "gens = map (\<lambda>i. if msb_bit (y_s sndr) i then fst (gs ! i) else snd (gs ! i)) [0..<k]"
  define ecols where "ecols = map (\<lambda>i. bxor (bxor (cols ! i) (gen_out K n (fst (gs ! i)))) str) [0..<k]"
  have y: "y_rnd sndr = map Some gens" "y_k sndr = k" "y_m sndr = m" "y_sLeadingZeroes sndr = 0"
    "k \<le> 8 * length (y_s sndr)" "length gs = k"
    using syn mod_8_zero(2) [of k] by (simp_all add: synced_def gens_def)
  have len: "length cols = k" "\<And>i. i < k \<Longrightarrow> length (cols ! i) = n"
    using y(6) by (simp_all add: cols cur_cols_def aes.len)
  have step: "OTExtSndr_step3_2 K sndr (map Some ecols) =
      Ok (with_gens sndr (BM_Create (y_m sndr) k) (map (q_col K n (y_s sndr) gens ecols) [0..<k]))"
  proof (rule step3_2_ok)
    show "\<forall>c\<in>set ecols. length c = n" using len str by (auto simp: ecols_def aes.len)
  qed (use y n in \<open>simp_all add: gens_def ecols_def\<close>)
  have Q: "map (q_col K n (y_s sndr) gens ecols) [0..<k] =
      map (\<lambda>i. (Some (if msb_bit (y_s sndr) i then fst (next_gens K n gs ! i) else snd (next_gens K n gs ! i)),
        Some (q_cols (y_s sndr) str cols ! i))) [0..<k]"
  proof (rule map_cong [OF refl])
    fix i assume "i \<in> set [0..<k]"
    then have i: "i < k" by simp
    let ?g = "gen_out K n (fst (gs ! i))"
    have l: "length ?g = n" by (simp add: aes.len)
    have "bxor (bxor (bxor (cols ! i) ?g) str) ?g = bxor (bxor (cols ! i) str) (bxor ?g ?g)"
      by (simp add: bxor_assoc bxor_commute [of str])
    also have "\<dots> = bxor (cols ! i) str" using l len i str by (simp add: bxor_self bxor_zero)
    finally have x: "bxor (bxor (bxor (cols ! i) ?g) str) ?g = bxor (cols ! i) str" .
    have ci: "cols ! i = gen_out K n (snd (gs ! i))" using i y(6) by (simp add: cols cur_cols_def)
    show "q_col K n (y_s sndr) gens ecols i =
      (Some (if msb_bit (y_s sndr) i then fst (next_gens K n gs ! i) else snd (next_gens K n gs ! i)),
        Some (q_cols (y_s sndr) str cols ! i))"
      using i y(6) len(1) x ci by (simp add: q_col_def gens_def ecols_def next_gens_def q_cols_def)
  qed
  have q: "map (\<lambda>i. Some (q_cols (y_s sndr) str cols ! i)) [0..<k] = map Some (q_cols (y_s sndr) str cols)"
    using len(1) by (intro nth_equalityI) (simp_all add: q_cols_def)
  have e: "map (\<lambda>i. Some (bxor (bxor (cols ! i) (gen_out K n (fst (gs ! i)))) str)) [0..<k] = map Some ecols"
    by (simp add: ecols_def)
  show ?thesis unfolding e step Q with_gens_def y(3) by (simp add: comp_def q)
qed

text \<open>The receiver regenerates its columns.\<close>

lemma round_decrypt:
  assumes r: "length ps = k" "x_k rcvr = k" "x_strByteLen rcvr = n" "length gs = k"
    and ps: "\<And>i. i < k \<Longrightarrow> \<exists>c a b. ps ! i = (Some c, [a, b, snd (gs ! i)]) \<and> length c = n"
  shows "OTExtRcvr_MatrixDec K (with_cols rcvr ps) = Ok (with_cols rcvr (map (\<lambda>i.
    (Some (cur_cols K n gs ! i), (snd (ps ! i))[2 := gen_next K n (snd (gs ! i))])) [0..<k]))"
proof -
  define es where "es = map (\<lambda>i. the (fst (ps ! i))) [0..<k]"
  have d: "map fst ps = map Some es"
  proof (rule nth_equalityI)
    fix i assume "i < length (map fst ps)"
    then show "map fst ps ! i = map Some es ! i" using ps [of i] r(1) by (auto simp: es_def)
  qed (simp add: es_def r)
  have l: "\<forall>c\<in>set es. length c = n" using ps by (fastforce simp: es_def)
  have s: "\<forall>g\<in>set (map snd ps). length g = 3" "\<And>i. i < k \<Longrightarrow> snd (ps ! i) ! 2 = snd (gs ! i)"
    using ps r(1) by (fastforce simp: in_set_conv_nth)+
  have "OTExtRcvr_MatrixDec K (with_cols rcvr ps)
      = Ok (with_cols (with_cols rcvr ps) (map (dec_col K n (x_rnd (with_cols rcvr ps))) [0..<k]))"
    by (rule MatrixDec_ok [of _ es]) (use d l s r in \<open>simp_all add: es_def\<close>)
  moreover have "map (dec_col K n (map snd ps)) [0..<k] = map (\<lambda>i.
      (Some (cur_cols K n gs ! i), (snd (ps ! i))[2 := gen_next K n (snd (gs ! i))])) [0..<k]"
    using r s(2) by (intro map_cong refl) (simp add: dec_col_def cur_cols_def)
  ultimately show ?thesis by (simp add: with_cols_def)
qed

text \<open>What the sender returns for string \<open>p\<close> and row \<open>t\<close> of the receiver.\<close>

definition masked ::
    "(md_alg \<Rightarrow> bytes \<Rightarrow> bytes) \<Rightarrow> MessageDigest \<Rightarrow> nat \<Rightarrow> bytes \<Rightarrow> bytes option \<Rightarrow> bool \<Rightarrow> bytes \<Rightarrow> nat \<Rightarrow> bytes" where
  "masked md H l s p b t j = bxor (payload l p) (take l (row_hash md H (bxor (if b then bxor t s else t) s) j))"

lemma length_masked:
  "length (md (md_alg H) (bxor (if b then bxor t s else t) s @ le_bytes 4 (of_nat j :: u32))) = dl \<Longrightarrow> l \<le> dl \<Longrightarrow>
   length (payload l p) = l \<Longrightarrow> length (masked md H l s p b t j) = l"
  by (simp add: masked_def row_hash_def)

lemma unmask:
  assumes "length t = length s" "length (payload l p) = l" "l \<le> length (row_hash md H t j)"
  shows "bxor (masked md H l s p b t j) (take l (row_hash md H t j)) = ot_out md H l s p b t j"
  using assms by (simp add: masked_def ot_out_def bxor_cancel)

lemma round_mask:
  assumes k: "k mod 8 = 0" "m < 2 ^ 32" and c: "length cols = k" "\<forall>c\<in>set cols. length c = (m + 7) div 8"
    and s: "length (y_s sndr) = k div 8" "y_sByteLen sndr = k div 8" "y_m sndr = m" and str: "length str = (m + 7) div 8"
    and h: "\<And>x. length (md (md_alg (y_H sndr)) x) = dl" "y_lByteLength sndr = l" "l \<le> dl"
    and t: "length (y_toSend sndr) = m" "\<And>p. p \<in> set (y_toSend sndr) \<Longrightarrow> length (payload l p) = l"
  shows "OTExtSndr_step3_3 md sndr ((BM_Create m k)\<lparr>bm_data := map Some (q_cols (y_s sndr) str cols)\<rparr>) =
    Ok (sndr\<lparr>y_toSend := map Some (map (\<lambda>j. masked md (y_H sndr) l (y_s sndr) (y_toSend sndr ! j) (sel_bit m str j)
      (t_row m cols j) j) [0..<m])\<rparr>)"
proof -
  let ?Q = "(BM_Create m k)\<lparr>bm_data := map Some (q_cols (y_s sndr) str cols)\<rparr>"
  let ?q = "\<lambda>j. if sel_bit m str j then bxor (t_row m cols j) (y_s sndr) else t_row m cols j"
  have lr: "length (t_row m cols j) = k div 8" for j using c(1) k(1) by (simp add: length_t_row)
  have "OTExtSndr_step3_3 md sndr ?Q = Ok (sndr\<lparr>y_toSend := map (\<lambda>j. Some
      (bxor (payload l (y_toSend sndr ! j)) (take l (row_hash md (y_H sndr) (bxor (?q j) (y_s sndr)) j)))) [0..<m]\<rparr>)"
  proof (rule step3_3_ok)
    show "BM_GetRow ?Q j (replicate (k div 8) 0) (k div 8) = Ok (?q j)" if "j < m" for j
      by (rule Q_row [OF c k(1) that k(2) s(1) str])
  qed (use t h s lr in simp_all)
  then show ?thesis by (simp add: masked_def comp_def)
qed

lemma round_unmask:
  assumes k: "k mod 8 = 0" "m < 2 ^ 32" and c: "length cols = k" "\<forall>c\<in>set cols. length c = (m + 7) div 8"
    and r: "x_T rcvr = (BM_Create m k)\<lparr>bm_data := map Some cols\<rparr>" "x_m rcvr = m" "x_md rcvr = H"
    and h: "\<And>x. length (md (md_alg H) x) = dl" "l \<le> dl" and s: "length s = k div 8"
    and p: "\<And>j. j < m \<Longrightarrow> length (payload l (p j)) = l"
  shows "OTExtRcvr_step4_2 md rcvr (map (\<lambda>j. masked md H l s (p j) (b j) (t_row m cols j) j) [0..<m]) l =
    Ok (map (\<lambda>j. ot_out md H l s (p j) (b j) (t_row m cols j) j) [0..<m])"
proof -
  let ?out = "map (\<lambda>j. masked md H l s (p j) (b j) (t_row m cols j) j) [0..<m]"
  have lr: "length (t_row m cols j) = k div 8" for j using c(1) k(1) by (simp add: length_t_row)
  have "OTExtRcvr_step4_2 md rcvr ?out l =
      Ok (map (\<lambda>j. bxor (?out ! j) (take l (row_hash md (x_md rcvr) (t_row m cols j) j))) [0..<m])"
  proof (rule step4_2_ok)
    show "byteLenRow (x_T rcvr) = k div 8" unfolding r(1) by (simp add: mod_8_zero(1) [OF k(1)])
    show "BM_GetRow (x_T rcvr) j (replicate (k div 8) 0) (k div 8) = Ok (t_row m cols j)" if "j < m" for j
      unfolding r(1) by (rule T_row [OF c k(1) that k(2)])
  qed (use r h p in \<open>simp_all add: length_masked\<close>)
  also have "\<dots> = Ok (map (\<lambda>j. ot_out md H l s (p j) (b j) (t_row m cols j) j) [0..<m])"
  proof -
    have "l \<le> length (row_hash md H t j)" for t j using h by (simp add: row_hash_def)
    then show ?thesis using r(3) p lr s by (simp add: unmask)
  qed
  finally show ?thesis .
qed

lemma rmap_deref: "rmap deref (map Some xs) = Ok xs"
  by (induction xs) (simp_all add: deref_def)

text \<open>One round on synchronised parties.\<close>

lemma round_parts:
  assumes syn: "synced K k m gs rcvr sndr" and str: "x_str rcvr = Some str" "length str = (m + 7) div 8"
    and h: "\<And>x. length (md (md_alg (y_H sndr)) x) = dl" "y_lByteLength sndr = l" "l \<le> dl"
    and t: "length (y_toSend sndr) = m" "\<And>p. p \<in> set (y_toSend sndr) \<Longrightarrow> length (payload l p) = l"
  shows "\<exists>sent ps gens Q outs rcvr2. OTExtRcvr_step2_2 K rcvr = Ok (map Some sent, with_cols rcvr ps) \<and> length ps = k \<and>
    OTExtSndr_step3_2 K sndr (map Some sent) = Ok (sndr\<lparr>y_rnd := gens\<rparr>, Q) \<and>
    OTExtSndr_step3_3 md (sndr\<lparr>y_rnd := gens\<rparr>) Q = Ok (sndr\<lparr>y_rnd := gens, y_toSend := map Some outs\<rparr>) \<and>
    length outs = m \<and> (\<forall>x\<in>set outs. length x = l) \<and>
    OTExtRcvr_MatrixDec K (with_cols rcvr ps) = Ok rcvr2 \<and> (\<exists>qs. rcvr2 = with_cols rcvr qs) \<and>
    OTExtRcvr_step4_2 md rcvr2 outs l = Ok (map (\<lambda>j. ot_out md (y_H sndr) l (y_s sndr) (y_toSend sndr ! j) (sel_bit m str j)
        (t_row m (cur_cols K ((m + 7) div 8) gs) j) j) [0..<m]) \<and>
    drained K k m (next_gens K ((m + 7) div 8) gs) rcvr2 (sndr\<lparr>y_rnd := gens, y_toSend := map Some outs\<rparr>)"
proof -
  define n where "n = (m + 7) div 8"
  define cols where "cols = cur_cols K n gs"
  let ?s = "y_s sndr" and ?H = "y_H sndr"
  have k: "k mod 8 = 0" "m < 2 ^ 32" "length gs = k" "x_k rcvr = k" "x_m rcvr = m" "y_m sndr = m"
    "x_strByteLen rcvr = n" "x_md rcvr = ?H" "length ?s = k div 8" "y_sByteLen sndr = k div 8"
    "bm_data (x_T rcvr) = map Some cols" "x_T rcvr = (BM_Create m k)\<lparr>bm_data := map Some cols\<rparr>"
    using syn by (simp_all add: synced_def n_def cols_def)
  have c: "length cols = k" "\<forall>c\<in>set cols. length c = (m + 7) div 8"
    using k(3) by (auto simp: cols_def cur_cols_def aes.len n_def)
  define ps where "ps = map (\<lambda>i. (Some (bxor (bxor (cols ! i) (gen_out K n (fst (gs ! i)))) str),
        [gen_next K n (snd (gs ! i)), gen_next K n (fst (gs ! i)), snd (gs ! i)])) [0..<k]"
  define sent where "sent = map (\<lambda>i. bxor (bxor (cols ! i) (gen_out K n (fst (gs ! i)))) str) [0..<k]"
  define ds where "ds = map (\<lambda>i. (Some (cols ! i), (snd (ps ! i))[2 := gen_next K n (snd (gs ! i))])) [0..<k]"
  define sndr1 where "sndr1 = sndr\<lparr>y_rnd := map (\<lambda>i. Some (if msb_bit ?s i then fst (next_gens K n gs ! i)
        else snd (next_gens K n gs ! i))) [0..<k]\<rparr>"
  define outs where "outs = map (\<lambda>j. masked md ?H l ?s (y_toSend sndr ! j) (sel_bit m str j) (t_row m cols j) j) [0..<m]"
  have ms: "map Some sent = map (\<lambda>i. Some (bxor (bxor (cols ! i) (gen_out K n (fst (gs ! i)))) str)) [0..<k]"
    by (simp add: sent_def)
  have 1: "OTExtRcvr_step2_2 K rcvr = Ok (map Some sent, with_cols rcvr ps)"
    using round_encrypt [OF syn str] unfolding ms by (simp only: ps_def n_def cols_def)
  have 2: "OTExtSndr_step3_2 K sndr (map Some sent) = Ok (sndr1, (BM_Create m k)\<lparr>bm_data := map Some (q_cols ?s str cols)\<rparr>)"
    using round_matrix [OF syn str(2) refl refl] unfolding ms by (simp only: sndr1_def cols_def n_def)
  have 3: "OTExtSndr_step3_3 md sndr1 ((BM_Create m k)\<lparr>bm_data := map Some (q_cols ?s str cols)\<rparr>)
      = Ok (sndr1\<lparr>y_toSend := map Some outs\<rparr>)"
    using round_mask [of k m cols sndr1 str, OF k(1,2) c _ _ _ str(2), of md dl l] k h t by (simp add: sndr1_def outs_def)
  have 4: "OTExtRcvr_MatrixDec K (with_cols rcvr ps) = Ok (with_cols rcvr ds)"
    using round_decrypt [of ps k rcvr n gs K] k c str(2) by (simp add: ps_def ds_def cols_def n_def aes.len)
  have T': "x_T (with_cols rcvr ds) = (BM_Create m k)\<lparr>bm_data := map Some cols\<rparr>"
  proof -
    have "map fst ds = map Some cols" using c(1) by (intro nth_equalityI) (simp_all add: ds_def)
    then show ?thesis by (simp add: with_cols_def k(12))
  qed
  have 5: "OTExtRcvr_step4_2 md (with_cols rcvr ds) outs l = Ok (map (\<lambda>j. ot_out md ?H l ?s (y_toSend sndr ! j)
      (sel_bit m str j) (t_row m cols j) j) [0..<m])"
    unfolding outs_def by (rule round_unmask [where md = md and H = ?H, OF k(1,2) c T' _ _ h(1,3) k(9)]) (use k t in simp_all)
  have 6: "\<forall>x\<in>set outs. length x = l"
  proof -
    have "length (masked md ?H l ?s (y_toSend sndr ! j) (sel_bit m str j) (t_row m cols j) j) = l" if "j < m" for j
      using that h(1,3) t by (intro length_masked [of md ?H _ _ _ j dl]) simp_all
    then show ?thesis by (auto simp: outs_def)
  qed
  have 7: "drained K k m (next_gens K n gs) (with_cols rcvr ds) (sndr1\<lparr>y_toSend := map Some outs\<rparr>)"
  proof -
    have "map snd ds = map (\<lambda>g. [snd g, fst g, snd g]) (next_gens K n gs)"
      using k(3) by (intro nth_equalityI) (simp_all add: ds_def ps_def next_gens_def numeral_2_eq_2)
    then have "x_rnd (with_cols rcvr ds) = map (\<lambda>g. [snd g, fst g, snd g]) (next_gens K n gs)" by simp
    moreover have "y_k sndr1 = k" "y_sLeadingZeroes sndr1 = 0" "y_sByteLen sndr1 = k div 8" "y_s sndr1 = ?s"
      "y_H sndr1 = ?H" "length (next_gens K n gs) = k"
      using syn k(3) by (simp_all add: synced_def sndr1_def next_gens_def)
    ultimately show ?thesis unfolding drained_def using k c T'
      by (intro conjI exI [of _ cols]) (simp_all add: sndr1_def del: One_nat_def)
  qed
  have "length ps = k" "length outs = m" by (simp_all add: ps_def outs_def)
  then show ?thesis using 1 2 3 4 5 6 7 unfolding sndr1_def n_def [symmetric] cols_def [symmetric]
    by (intro exI [of _ sent] exI [of _ ps] exI [of _ outs] exI conjI) (assumption | rule refl | simp)+
qed

lemma round_ok:
  assumes syn: "synced K k m gs rcvr sndr" and str: "x_str rcvr = Some str" "length str = (m + 7) div 8"
    and h: "\<And>x. length (md (md_alg (y_H sndr)) x) = dl" "y_lByteLength sndr = l" "l \<le> dl"
    and t: "length (y_toSend sndr) = m" "\<And>p. p \<in> set (y_toSend sndr) \<Longrightarrow> length (payload l p) = l"
  shows "\<exists>rcvr' sndr'. OTExt_round K md rcvr sndr = Ok (rcvr', sndr',
      map (\<lambda>j. ot_out md (y_H sndr) l (y_s sndr) (y_toSend sndr ! j) (sel_bit m str j)
        (t_row m (cur_cols K ((m + 7) div 8) gs) j) j) [0..<m]) \<and>
    drained K k m (next_gens K ((m + 7) div 8) gs) rcvr' sndr' \<and> y_H sndr' = y_H sndr \<and>
    y_s sndr' = y_s sndr \<and> y_lByteLength sndr' = l"
proof -
  obtain sent ps gens Q outs rcvr2 where p: "OTExtRcvr_step2_2 K rcvr = Ok (map Some sent, with_cols rcvr ps)"
    "OTExtSndr_step3_2 K sndr (map Some sent) = Ok (sndr\<lparr>y_rnd := gens\<rparr>, Q)"
    "OTExtSndr_step3_3 md (sndr\<lparr>y_rnd := gens\<rparr>) Q = Ok (sndr\<lparr>y_rnd := gens, y_toSend := map Some outs\<rparr>)"
    "OTExtRcvr_MatrixDec K (with_cols rcvr ps) = Ok rcvr2"
    "OTExtRcvr_step4_2 md rcvr2 outs l = Ok (map (\<lambda>j. ot_out md (y_H sndr) l (y_s sndr) (y_toSend sndr ! j) (sel_bit m str j)
        (t_row m (cur_cols K ((m + 7) div 8) gs) j) j) [0..<m])"
    "drained K k m (next_gens K ((m + 7) div 8) gs) rcvr2 (sndr\<lparr>y_rnd := gens, y_toSend := map Some outs\<rparr>)"
    using round_parts [where md = md, OF syn str h t] by blast
  show ?thesis
    by (rule exI [of _ rcvr2], rule exI [of _ "sndr\<lparr>y_rnd := gens, y_toSend := map Some outs\<rparr>"])
      (simp add: OTExt_round_def p rmap_deref h(2))
qed

section \<open>The base transfers synchronise the parties\<close>

definition seeded :: "int \<Rightarrow> bytes \<Rightarrow> AESRandom" where
  "seeded secLev s = \<lparr>ar_key = (if secLev = 80 then s @ replicate 6 0 else s), ar_pos = 0\<rparr>"

lemma seeded_ok: "secLev_ok secLev \<Longrightarrow> length s = nat (secLev div 8) \<Longrightarrow> getSeededRandomInstance s secLev = Ok (seeded secLev s)"
  by (auto simp: secLev_ok_def getSeededRandomInstance_def AESRandom_Create_With_Seed_def rassert_def seedLen_ok_def seeded_def)

lemma random_ok: "secLev_ok secLev \<Longrightarrow> 32 \<le> length rand \<Longrightarrow> \<exists>rnd. getRandomInstance rand secLev = Ok rnd"
  by (auto simp: secLev_ok_def getRandomInstance_def AESRandom_Create_def rassert_def seedLen_ok_def)

lemma secLev_lens:
  assumes "secLev_ok secLev"
  shows "nat secLev mod 8 = 0" "byteLen (nat secLev) = nat secLev div 8" "leadZ (nat secLev) = 0"
    "int (nat secLev) = secLev" "nat (secLev div 8) = nat secLev div 8"
  using assms by (auto simp: secLev_ok_def byteLen_eq leadZ_eq)

lemma seed_steps_ok:
  assumes sl: "secLev_ok secLev" and n: "n = nat (secLev div 8)"
  shows "\<exists>rnd' ss. rfold (OTExtRcvr_seed_step K secLev n) [0..<k] (rnd, [], []) =
      Ok (rnd', map (\<lambda>s. [fst s, snd s]) ss,
        map (\<lambda>s. [seeded secLev (fst s), seeded secLev (snd s), seeded secLev (fst s)]) ss) \<and>
    length ss = k \<and> (\<forall>s\<in>set ss. length (fst s) = n \<and> length (snd s) = n)"
proof -
  let ?P = "\<lambda>i (t :: AESRandom \<times> bytes list list \<times> AESRandom list list). \<exists>rnd' ss. t = (rnd', map (\<lambda>s. [fst s, snd s]) ss,
        map (\<lambda>s. [seeded secLev (fst s), seeded secLev (snd s), seeded secLev (fst s)]) ss) \<and>
    length ss = i \<and> (\<forall>s\<in>set ss. length (fst s) = n \<and> length (snd s) = n)"
  have "\<exists>t. rfold (OTExtRcvr_seed_step K secLev n) [0..<k] (rnd, [], []) = Ok t \<and> ?P k t"
  proof (rule rfold_upt_inv)
    fix i t assume i: "0 \<le> i" "i < k" and "?P i t"
    then obtain rnd' ss where t: "t = (rnd', map (\<lambda>s. [fst s, snd s]) ss,
        map (\<lambda>s. [seeded secLev (fst s), seeded secLev (snd s), seeded secLev (fst s)]) ss)"
      "length ss = i" "\<forall>s\<in>set ss. length (fst s) = n \<and> length (snd s) = n" by blast
    let ?a = "gen_out K n rnd'" and ?r = "gen_next K n rnd'"
    let ?b = "gen_out K n ?r"
    have l: "length ?a = n" "length ?b = n" by (simp_all add: aes.len)
    have "OTExtRcvr_seed_step K secLev n i t = Ok (gen_next K n ?r, map (\<lambda>s. [fst s, snd s]) (ss @ [(?a, ?b)]),
        map (\<lambda>s. [seeded secLev (fst s), seeded secLev (snd s), seeded secLev (fst s)]) (ss @ [(?a, ?b)]))"
      using seeded_ok [OF sl, of ?a] seeded_ok [OF sl, of ?b] l n
      by (simp add: OTExtRcvr_seed_step_def t(1) NextBytes_zero case_prod_beta)
    then show "\<exists>t'. OTExtRcvr_seed_step K secLev n i t = Ok t' \<and> ?P (Suc i) t'"
      using t(2,3) l by (intro exI conjI) (assumption, rule refl, simp, simp)
  qed (auto intro!: exI [of _ "[]"])
  then show ?thesis by blast
qed

lemma OTExtRcvr_Create_ok:
  assumes sl: "secLev_ok secLev" and H: "MD_Create secLev = Ok H" and m: "m < 2 ^ 32" and k: "k = nat secLev"
    and rand: "32 \<le> length rand" and sc: "k \<le> length r1" "k \<le> length r2"
    and n: "n = (m + 7) div 8" and sb: "sb = nat (secLev div 8)"
  shows "\<exists>rcvr ss. OTExtRcvr_Create E K str m secLev rand r1 r2 = Ok rcvr \<and> length ss = k \<and>
    (\<forall>s\<in>set ss. length (fst s) = sb \<and> length (snd s) = sb) \<and>
    NPOTSndr_Create E k sb (map (\<lambda>s. [fst s, snd s]) ss) secLev r1 r2 = Ok (x_base rcvr) \<and>
    x_k rcvr = k \<and> x_m rcvr = m \<and> x_str rcvr = str \<and> x_strByteLen rcvr = n \<and> x_md rcvr = H \<and> x_seedByteLen rcvr = sb \<and>
    x_rnd rcvr = map (\<lambda>s. [gen_next K n (seeded secLev (fst s)), seeded secLev (snd s), seeded secLev (fst s)]) ss \<and>
    x_T rcvr = (BM_Create m k)\<lparr>bm_data := map (\<lambda>s. Some (gen_out K n (seeded secLev (fst s)))) ss\<rparr>"
proof -
  obtain rnd where rnd: "getRandomInstance rand secLev = Ok rnd" using random_ok [OF sl rand] by blast
  obtain rnd' ss where ss: "rfold (OTExtRcvr_seed_step K secLev sb) [0..<k] (rnd, [], []) =
      Ok (rnd', map (\<lambda>s. [fst s, snd s]) ss,
        map (\<lambda>s. [seeded secLev (fst s), seeded secLev (snd s), seeded secLev (fst s)]) ss)"
    "length ss = k" "\<forall>s\<in>set ss. length (fst s) = sb \<and> length (snd s) = sb"
    using seed_steps_ok [OF sl sb] by blast
  let ?rnds = "map (\<lambda>s. [seeded secLev (fst s), seeded secLev (snd s), seeded secLev (fst s)]) ss"
  let ?T = "(BM_Create m k)\<lparr>bm_data := map (\<lambda>s. Some (gen_out K n (seeded secLev (fst s)))) ss\<rparr>"
  let ?rnds' = "map (\<lambda>s. [gen_next K n (seeded secLev (fst s)), seeded secLev (snd s), seeded secLev (fst s)]) ss"
  have fresh: "rfold (fresh_column K n) [0..<k] (BM_Create m k, ?rnds) = Ok (?T, ?rnds')"
  proof -
    have "map (new_cols K n ?rnds) [0..<k] = map (\<lambda>s. (Some (gen_out K n (seeded secLev (fst s))),
        [gen_next K n (seeded secLev (fst s)), seeded secLev (snd s), seeded secLev (fst s)])) ss"
      using ss(2) by (intro nth_equalityI) (simp_all add: new_cols_def)
    then have "cols_of (BM_Create m k) (map (new_cols K n ?rnds) [0..<k]) = (?T, ?rnds')"
      by (simp only: cols_of_def map_map comp_def fst_conv snd_conv)
    moreover have "rfold (fresh_column K n) [0..<k] (BM_Create m k, ?rnds) =
        Ok (cols_of (BM_Create m k) (map (new_cols K n ?rnds) [0..<k]))"
      using ss(2) n by (intro fresh_columns_ok) simp_all
    ultimately show ?thesis by (simp only:)
  qed
  obtain plen where plen: "pointByteLen_of secLev = Ok plen" using sl by (auto simp: secLev_ok_def pointByteLen_of_def)
  obtain base where base: "NPOTSndr_Create E k sb (map (\<lambda>s. [fst s, snd s]) ss) secLev r1 r2 = Ok base"
    using sc H plen by (simp add: NPOTSndr_Create_def Let_def)
  have a: "rassert (secLev = 80 \<or> secLev = 128 \<or> secLev = 192 \<or> secLev = 256) = Ok ()"
    using sl by (simp add: rassert_def secLev_ok_def)
  have bl: "byteLen m = n" using m n by (simp add: byteLen_eq)
  have "OTExtRcvr_Create E K str m secLev rand r1 r2 =
    Ok \<lparr>x_k = k, x_m = m, x_str = str, x_strByteLen = n, x_lz = leadZ m, x_T = ?T, x_md = H,
       x_seeds = map (\<lambda>s. [fst s, snd s]) ss, x_rnd = ?rnds', x_seedByteLen = sb, x_secLev = secLev, x_base = base\<rparr>"
    unfolding OTExtRcvr_Create_def Let_def k [symmetric] sb [symmetric] a rbind.simps bl H rnd ss(1) prod.case fresh base
    by (rule refl)
  then show ?thesis using ss(2,3) base by (intro exI conjI) (assumption | simp)+
qed

lemma OTExtSndr_Create_ok:
  assumes sl: "secLev_ok secLev" and H: "MD_Create secLev = Ok H" and k: "k = nat secLev"
    and rand: "32 \<le> length rand" and base: "\<And>s. length s = k div 8 \<Longrightarrow> \<exists>base. NPOTRcvr_Create s (length s) 0 secLev ks = Ok base"
  shows "\<exists>sndr. OTExtSndr_Create K m secLev toSend l rand ks = Ok sndr \<and> length (y_s sndr) = k div 8 \<and>
    NPOTRcvr_Create (y_s sndr) (length (y_s sndr)) 0 secLev ks = Ok (y_base sndr) \<and> y_k sndr = k \<and> y_m sndr = m \<and>
    y_toSend sndr = toSend \<and> y_lByteLength sndr = l \<and> y_rnd sndr = replicate k None \<and> y_sLeadingZeroes sndr = 0 \<and>
    y_sByteLen sndr = k div 8 \<and> y_H sndr = H"
proof -
  obtain rnd where rnd: "getRandomInstance rand secLev = Ok rnd" using random_ok [OF sl rand] by blast
  let ?s = "gen_out K (k div 8) rnd"
  have s: "length ?s = k div 8" by (simp add: aes.len)
  obtain base' where b: "NPOTRcvr_Create ?s (k div 8) 0 secLev ks = Ok base'" using base [OF s] s by auto
  have h: "getHashInstance secLev = Ok H" using sl H by (simp add: getHashInstance_def secLev_ok_def rassert_def)
  have "OTExtSndr_Create K m secLev toSend l rand ks =
    Ok \<lparr>y_k = k, y_m = m, y_toSend = toSend, y_lByteLength = l, y_rnd = replicate k None, y_s = ?s,
      y_sLeadingZeroes = 0, y_sByteLen = k div 8, y_seedByteLen = nat (secLev div 8), y_secLev = secLev,
      y_base = base', y_H = H\<rparr>"
    using secLev_lens(2,3) [OF sl] b
    by (simp add: OTExtSndr_Create_def Let_def k [symmetric] h rnd NextBytes_zero case_prod_beta)
  then show ?thesis using s b by (intro exI conjI) (assumption | simp)+
qed

text \<open>After the base transfers the sender holds, for every bit of \<open>s\<close>, the generator it selects.\<close>

lemma setup_ok:
  assumes E: "curve_ok E" and md: "md_ok md" and sl: "secLev_ok secLev" and m: "m < 2 ^ 32" and k: "k = nat secLev"
    and rand: "32 \<le> length rand1" "32 \<le> length rand2" and sc: "k \<le> length ks" "k \<le> length r1" "k \<le> length r2"
  shows "\<exists>rcvr sndr sndr' gs H. OTExtRcvr_Create E K str m secLev rand1 r1 r2 = Ok rcvr \<and>
    OTExtSndr_Create K m secLev toSend l rand2 ks = Ok sndr \<and> OTExt_setup E md rcvr sndr = Ok sndr' \<and>
    synced K k m gs rcvr sndr' \<and> x_str rcvr = str \<and> y_toSend sndr' = toSend \<and> y_lByteLength sndr' = l \<and>
    MD_Create secLev = Ok H \<and> y_H sndr' = H"
proof -
  obtain H where H: "MD_Create secLev = Ok H" "nat (secLev div 8) \<le> digestLen H" using MD_Create_ok [OF sl md] by blast
  define n where "n = (m + 7) div 8"
  define sb where "sb = nat (secLev div 8)"
  obtain rcvr ss where r: "OTExtRcvr_Create E K str m secLev rand1 r1 r2 = Ok rcvr" "length ss = k"
    "\<forall>s\<in>set ss. length (fst s) = sb \<and> length (snd s) = sb"
    "NPOTSndr_Create E k sb (map (\<lambda>s. [fst s, snd s]) ss) secLev r1 r2 = Ok (x_base rcvr)"
    "x_k rcvr = k" "x_m rcvr = m" "x_str rcvr = str" "x_strByteLen rcvr = n" "x_md rcvr = H" "x_seedByteLen rcvr = sb"
    "x_rnd rcvr = map (\<lambda>s. [gen_next K n (seeded secLev (fst s)), seeded secLev (snd s), seeded secLev (fst s)]) ss"
    "x_T rcvr = (BM_Create m k)\<lparr>bm_data := map (\<lambda>s. Some (gen_out K n (seeded secLev (fst s)))) ss\<rparr>"
    using OTExtRcvr_Create_ok [OF sl H(1) m k rand(1) sc(2,3) n_def sb_def, of E K str] by blast
  let ?pairs = "map (\<lambda>s. [fst s, snd s]) ss"
  note k8 = secLev_lens [OF sl, folded k]
  have p: "\<forall>p\<in>set ?pairs. length p = 2 \<and> (\<forall>m\<in>set p. length m = sb)" using r(3) by auto
  have x: "\<exists>rcvr sndr pks encs. NPOTRcvr_Create s (length s) 0 secLev ks = Ok rcvr \<and>
      NPOTSndr_Create E (length ?pairs) sb ?pairs secLev r1 r2 = Ok sndr \<and>
      NPOTRcvr_RStep1 E rcvr (NPOTSndr_getCs sndr) = Ok pks \<and> NPOTSndr_Step E md sndr pks = Ok (encs, s_grs sndr) \<and>
      length encs = length ?pairs \<and> length (s_grs sndr) = length ?pairs \<and> r_strBitLen rcvr = length ?pairs \<and> r_md rcvr = H \<and>
      (\<forall>i<length ?pairs. NPOTRcvr_RStep2Single E md rcvr (encs ! i) sb (s_grs sndr ! i) i H
        = Ok (?pairs ! i ! (if msb_bit s (i + 0) then 1 else 0)))" if "length s = k div 8" for s
    using r(2) k8 that sc H(2) mod_8_zero(2) [of k]
    by (intro NPOT_exchange [OF E md sl H(1) _ _ p]) (simp_all add: sb_def)
  obtain sndr where y: "OTExtSndr_Create K m secLev toSend l rand2 ks = Ok sndr" "length (y_s sndr) = k div 8"
    "NPOTRcvr_Create (y_s sndr) (length (y_s sndr)) 0 secLev ks = Ok (y_base sndr)" "y_k sndr = k" "y_m sndr = m"
    "y_toSend sndr = toSend" "y_lByteLength sndr = l" "y_rnd sndr = replicate k None" "y_sLeadingZeroes sndr = 0"
    "y_sByteLen sndr = k div 8" "y_H sndr = H"
    using OTExtSndr_Create_ok [OF sl H(1) k rand(2), of ks K m toSend l] x by blast
  obtain pks encs where e: "NPOTRcvr_RStep1 E (y_base sndr) (NPOTSndr_getCs (x_base rcvr)) = Ok pks"
    "NPOTSndr_Step E md (x_base rcvr) pks = Ok (encs, s_grs (x_base rcvr))" "length encs = k" "length (s_grs (x_base rcvr)) = k"
    "\<And>i. i < k \<Longrightarrow> NPOTRcvr_RStep2Single E md (y_base sndr) (encs ! i) sb (s_grs (x_base rcvr) ! i) i H
        = Ok (if msb_bit (y_s sndr) i then snd (ss ! i) else fst (ss ! i))"
  proof -
    obtain rc sd pks encs where q: "NPOTRcvr_Create (y_s sndr) (length (y_s sndr)) 0 secLev ks = Ok rc"
      "NPOTSndr_Create E (length ?pairs) sb ?pairs secLev r1 r2 = Ok sd"
      "NPOTRcvr_RStep1 E rc (NPOTSndr_getCs sd) = Ok pks" "NPOTSndr_Step E md sd pks = Ok (encs, s_grs sd)"
      "length encs = length ?pairs" "length (s_grs sd) = length ?pairs"
      "\<And>i. i < length ?pairs \<Longrightarrow> NPOTRcvr_RStep2Single E md rc (encs ! i) sb (s_grs sd ! i) i H
        = Ok (?pairs ! i ! (if msb_bit (y_s sndr) (i + 0) then 1 else 0))"
      using x [OF y(2)] by blast
    have "rc = y_base sndr" "sd = x_base rcvr" using q(1,2) y(3) r(2,4) by simp_all
    moreover have "?pairs ! i ! (if b then 1 else 0) = (if b then snd (ss ! i) else fst (ss ! i))" if "i < k" for i b
      using that r(2) by simp
    ultimately show ?thesis using q(3-7) r(2) that by simp
  qed
  define gs where "gs = map (\<lambda>s. (seeded secLev (snd s), seeded secLev (fst s))) ss"
  define gens where "gens = map (\<lambda>i. Some (if msb_bit (y_s sndr) i then fst (gs ! i) else snd (gs ! i))) [0..<k]"
  have "rfold (\<lambda>i s. rbind (rd encs i) (\<lambda>r. rbind (rd (s_grs (x_base rcvr)) i) (\<lambda>gr.
       OTExtSndr_step3_1Single E md s r sb gr i (y_H s)))) [0..<k] (sndr\<lparr>y_rnd := replicate k None\<rparr>)
    = Ok (sndr\<lparr>y_rnd := gens\<rparr>)"
    unfolding gens_def
  proof (rule rfold_pointwise [where W = "\<lambda>t. sndr\<lparr>y_rnd := t\<rparr>"])
    fix i and t :: "AESRandom option list"
    assume i: "i < k" "length t = k" "t ! i = replicate k None ! i"
    have "length (fst (ss ! i)) = sb" "length (snd (ss ! i)) = sb" using i(1) r(2,3) by simp_all
    then have g: "getSeededRandomInstance (if b then snd (ss ! i) else fst (ss ! i)) secLev
        = Ok (if b then fst (gs ! i) else snd (gs ! i))" for b
      using i(1) r(2) seeded_ok [OF sl] by (simp add: gs_def sb_def)
    show "rbind (rd encs i) (\<lambda>r. rbind (rd (s_grs (x_base rcvr)) i) (\<lambda>gr.
        OTExtSndr_step3_1Single E md (sndr\<lparr>y_rnd := t\<rparr>) r sb gr i (y_H (sndr\<lparr>y_rnd := t\<rparr>)))) =
      Ok (sndr\<lparr>y_rnd := t[i := Some (if msb_bit (y_s sndr) i then fst (gs ! i) else snd (gs ! i))]\<rparr>)"
      using i e(3,4) e(5) [OF i(1)] y(4,11) g k8(4) by (simp add: OTExtSndr_step3_1Single_def del: if_split)
  qed simp
  moreover have "sndr\<lparr>y_rnd := replicate k None\<rparr> = sndr" by (simp add: y(8) [symmetric])
  ultimately have "OTExt_setup E md rcvr sndr = Ok (sndr\<lparr>y_rnd := gens\<rparr>)"
    using r(10) y(4) e(1,2)
    by (simp add: OTExt_setup_def OTExtSndr_step1_def OTExtRcvr_step0_def OTExtRcvr_step2_1_def OTExtSndr_step3_1_def)
  moreover have "synced K k m gs rcvr (sndr\<lparr>y_rnd := gens\<rparr>)"
    using r y k8(1) m by (simp add: synced_def gs_def cur_cols_def n_def gens_def comp_def)
  ultimately show ?thesis using r(1,7) y(1,6,7,11) H(1)
    by (intro exI [of _ rcvr] exI [of _ sndr] exI [of _ "sndr\<lparr>y_rnd := gens\<rparr>"] exI [of _ gs] exI [of _ H]) simp
qed

section \<open>All rounds\<close>

text \<open>A round: the number of transfers, the selection string, the strings to send.\<close>

type_synonym ot_round = "nat \<times> bytes \<times> bytes option list"

fun OTExt_rounds ::
    "(bytes \<Rightarrow> nat \<Rightarrow> u8) \<Rightarrow> (md_alg \<Rightarrow> bytes \<Rightarrow> bytes) \<Rightarrow> 'p OTExtRcvr \<Rightarrow> OTExtSndr \<Rightarrow> ot_round list \<Rightarrow>
     bytes list list res" where
  "OTExt_rounds K md rcvr sndr [] = Ok []"
| "OTExt_rounds K md rcvr sndr ((m, str, toSend) # rest) =
     rbind (OTExtRcvr_ReInitialise K rcvr m (Some str) (length str)) (\<lambda>rcvr.
     rbind (OTExt_round K md rcvr (OTExtSndr_ReInitialise sndr toSend m)) (\<lambda>(rcvr, sndr, out).
     rbind (OTExt_rounds K md rcvr sndr rest) (\<lambda>outs. Ok (out # outs))))"

definition OTExt_run ::
    "'p curve \<Rightarrow> (bytes \<Rightarrow> nat \<Rightarrow> u8) \<Rightarrow> (md_alg \<Rightarrow> bytes \<Rightarrow> bytes) \<Rightarrow> int \<Rightarrow> nat \<Rightarrow> bytes \<Rightarrow> nat list \<Rightarrow> nat list \<Rightarrow>
     bytes \<Rightarrow> nat list \<Rightarrow> ot_round \<Rightarrow> ot_round list \<Rightarrow> bytes list list res" where
  "OTExt_run E K md secLev l rand1 r1 r2 rand2 ks first rest =
     (case first of (m, str, toSend) \<Rightarrow>
      rbind (OTExtRcvr_Create E K None m secLev rand1 r1 r2) (\<lambda>rcvr.
      rbind (OTExtSndr_Create K m secLev toSend l rand2 ks) (\<lambda>sndr.
      rbind (OTExt_setup E md rcvr sndr) (\<lambda>sndr.
      rbind (OTExTRcvr_SetStr rcvr str (length str)) (\<lambda>rcvr.
      rbind (OTExt_round K md rcvr sndr) (\<lambda>(rcvr, sndr, out).
      rbind (OTExt_rounds K md rcvr sndr rest) (\<lambda>outs. Ok (out # outs))))))))"

definition round_input :: "nat \<Rightarrow> ot_round \<Rightarrow> bool" where
  "round_input l r \<longleftrightarrow> (case r of (m, str, toSend) \<Rightarrow>
     m < 2 ^ 32 \<and> length str = (m + 7) div 8 \<and> length toSend = m \<and> (\<forall>p\<in>set toSend. length (payload l p) = l))"

text \<open>
  What a round delivers: the string where the selection bit is 1, elsewhere the string
  under the digests of \<open>t XOR s\<close> and \<open>t\<close>, where \<open>s\<close> is the sender's secret.
\<close>

definition round_result ::
    "(md_alg \<Rightarrow> bytes \<Rightarrow> bytes) \<Rightarrow> MessageDigest \<Rightarrow> nat \<Rightarrow> bytes \<Rightarrow> ot_round \<Rightarrow> bytes list \<Rightarrow> bool" where
  "round_result md H l s r out \<longleftrightarrow> (case r of (m, str, toSend) \<Rightarrow>
     length out = m \<and> (\<forall>j<m. \<exists>t. length t = length s \<and> out ! j =
       (if getBit str (int j) (int (leadZ m)) = Ok True then payload l (toSend ! j)
        else bxor (bxor (payload l (toSend ! j)) (take l (row_hash md H (bxor t s) j))) (take l (row_hash md H t j)))))"

lemma round_result_ok:
  assumes r: "round_input l (m, str, toSend)" and t: "\<And>j. length (t j) = length s"
  shows "round_result md H l s (m, str, toSend) (map (\<lambda>j. ot_out md H l s (toSend ! j) (sel_bit m str j) (t j) j) [0..<m])"
proof -
  have "(getBit str (int j) (int (leadZ m)) = Ok True) = sel_bit m str j" if "j < m" for j
  proof -
    have "j + leadZ m < 8 * length str"
      using r that add_less_mono1 [of j m "leadZ m"] by (simp add: round_input_def padded_len)
    then show ?thesis by (simp add: getBit_nat sel_bit_def)
  qed
  then show ?thesis using t by (auto simp: round_result_def ot_out_def)
qed

lemma rounds_ok:
  assumes "drained K k m0 gs rcvr sndr"
    and "\<And>x. length (md (md_alg (y_H sndr)) x) = dl" "y_lByteLength sndr = l" "l \<le> dl"
    and "\<And>r. r \<in> set rest \<Longrightarrow> round_input l r \<and> fst r = 8 * length (fst (snd r))"
  shows "\<exists>outs. OTExt_rounds K md rcvr sndr rest = Ok outs \<and>
    list_all2 (round_result md (y_H sndr) l (y_s sndr)) rest outs"
  using assms
proof (induction rest arbitrary: m0 gs rcvr sndr)
  case (Cons r rest)
  obtain m str toSend where r: "r = (m, str, toSend)" by (cases r)
  have "round_input l r \<and> fst r = 8 * length (fst (snd r))" by (rule Cons.prems(5)) simp
  then have i0: "round_input l (m, str, toSend)" and i1: "m = 8 * length str" unfolding r by auto
  have i2: "m < 2 ^ 32" "length str = (m + 7) div 8" "length toSend = m" "\<And>p. p \<in> set toSend \<Longrightarrow> length (payload l p) = l"
    using i0 by (simp_all add: round_input_def)
  note inp = i0 i1 i2
  let ?y = "OTExtSndr_ReInitialise sndr toSend m"
  have y: "y_H ?y = y_H sndr" "y_s ?y = y_s sndr" "y_lByteLength ?y = l" "y_toSend ?y = toSend"
    using Cons.prems by (simp_all add: OTExtSndr_ReInitialise_def)
  obtain rcvr1 where r1: "OTExtRcvr_ReInitialise K rcvr m (Some str) (length str) = Ok rcvr1" "x_str rcvr1 = Some str"
    "synced K k m gs rcvr1 ?y"
    using reinit_synced [OF Cons.prems(1) inp(2,3), of "Some str" toSend] by blast
  let ?n = "(m + 7) div 8"
  let ?out = "map (\<lambda>j. ot_out md (y_H sndr) l (y_s sndr) (toSend ! j) (sel_bit m str j)
        (t_row m (cur_cols K ?n gs) j) j) [0..<m]"
  obtain rcvr2 sndr2 where r2: "OTExt_round K md rcvr1 ?y = Ok (rcvr2, sndr2, ?out)"
    "drained K k m (next_gens K ?n gs) rcvr2 sndr2" "y_H sndr2 = y_H sndr" "y_s sndr2 = y_s sndr" "y_lByteLength sndr2 = l"
    using round_ok [OF r1(3,2) inp(4), of md dl l] Cons.prems(2,4) inp(5,6) y by auto
  have t: "length (t_row m (cur_cols K ?n gs) j) = length (y_s sndr)" for j
    using Cons.prems(1) by (simp add: drained_def cur_cols_def length_t_row)
  obtain outs where o: "OTExt_rounds K md rcvr2 sndr2 rest = Ok outs"
    "list_all2 (round_result md (y_H sndr) l (y_s sndr)) rest outs"
    using Cons.IH [OF r2(2), of ] Cons.prems(2,4,5) r2(3-5) by auto
  show ?case using r1(1) r2(1) o round_result_ok [OF inp(1) t] by (simp add: r)
qed simp

lemma run_ok:
  assumes E: "curve_ok E" and md: "md_ok md" and sl: "secLev_ok secLev"
    and H: "MD_Create secLev = Ok H" "l \<le> digestLen H"
    and rand: "32 \<le> length rand1" "32 \<le> length rand2"
    and sc: "nat secLev \<le> length ks" "nat secLev \<le> length r1" "nat secLev \<le> length r2"
    and first: "round_input l first"
    and rest: "\<And>r. r \<in> set rest \<Longrightarrow> round_input l r \<and> fst r = 8 * length (fst (snd r))"
  shows "\<exists>s outs. OTExt_run E K md secLev l rand1 r1 r2 rand2 ks first rest = Ok outs \<and>
    length s = nat secLev div 8 \<and> list_all2 (round_result md H l s) (first # rest) outs"
proof -
  obtain m str toSend where f: "first = (m, str, toSend)" by (cases first)
  have inp: "round_input l (m, str, toSend)" "m < 2 ^ 32"
    "length str = (m + 7) div 8" "length toSend = m" "\<And>p. p \<in> set toSend \<Longrightarrow> length (payload l p) = l"
    using first by (simp_all add: f round_input_def)
  let ?k = "nat secLev" and ?n = "(m + 7) div 8"
  obtain rcvr sndr sndr1 gs where s: "OTExtRcvr_Create E K None m secLev rand1 r1 r2 = Ok rcvr"
    "OTExtSndr_Create K m secLev toSend l rand2 ks = Ok sndr" "OTExt_setup E md rcvr sndr = Ok sndr1"
    "synced K ?k m gs rcvr sndr1" "y_toSend sndr1 = toSend" "y_lByteLength sndr1 = l" "y_H sndr1 = H"
    using setup_ok [OF E md sl inp(2) refl rand sc, of K None toSend l] H(1) by auto
  have dl: "\<And>x. length (md (md_alg H) x) = digestLen H" using MD_Create_ok [OF sl md] H(1) by auto
  have sync: "synced K ?k m gs (rcvr\<lparr>x_str := Some str\<rparr>) sndr1" using s(4) by (simp add: synced_def)
  let ?out = "map (\<lambda>j. ot_out md H l (y_s sndr1) (toSend ! j) (sel_bit m str j) (t_row m (cur_cols K ?n gs) j) j) [0..<m]"
  obtain rcvr2 sndr2 where r2: "OTExt_round K md (rcvr\<lparr>x_str := Some str\<rparr>) sndr1 = Ok (rcvr2, sndr2, ?out)"
    "drained K ?k m (next_gens K ?n gs) rcvr2 sndr2" "y_H sndr2 = H" "y_s sndr2 = y_s sndr1" "y_lByteLength sndr2 = l"
    using round_ok [OF sync _ inp(3), of md "digestLen H" l] inp(4,5) s(5-7) dl H(2) by auto
  have t: "length (t_row m (cur_cols K ?n gs) j) = length (y_s sndr1)" for j
    using s(4) by (simp add: synced_def cur_cols_def length_t_row)
  obtain outs where o: "OTExt_rounds K md rcvr2 sndr2 rest = Ok outs" "list_all2 (round_result md H l (y_s sndr1)) rest outs"
    using rounds_ok [OF r2(2), of md "digestLen H" l rest] dl r2(3-5) H(2) rest by auto
  have "OTExTRcvr_SetStr rcvr str (length str) = Ok (rcvr\<lparr>x_str := Some str\<rparr>)"
    using s(4) inp(3) by (simp add: OTExTRcvr_SetStr_def rassert_def synced_def)
  then have "OTExt_run E K md secLev l rand1 r1 r2 rand2 ks first rest = Ok (?out # outs)"
    by (simp add: OTExt_run_def f s(1-3) r2(1) o(1))
  moreover have "list_all2 (round_result md H l (y_s sndr1)) (first # rest) (?out # outs)"
    using o(2) round_result_ok [OF inp(1) t] by (simp add: f)
  moreover have "length (y_s sndr1) = ?k div 8" using s(4) by (simp add: synced_def)
  ultimately show ?thesis by blast
qed


definition toy_ks :: "bytes \<Rightarrow> nat \<Rightarrow> u8" where
  "toy_ks key i = hd key + of_nat i"


text \<open>
  C12: a round on synchronised parties, followed by \<open>OTExtRcvr_ReInitialise\<close> and
  \<open>OTExtSndr_ReInitialise\<close>, leaves them synchronised for the next block of transfers,
  whatever its length and whether or not the matrix is reused.
\<close>

theorem OTExt_resync:
  assumes "synced K k m gs rcvr sndr" "x_str rcvr = Some str" "length str = (m + 7) div 8"
    and "\<forall>x. length (md (md_alg (y_H sndr)) x) = dl" "y_lByteLength sndr \<le> dl"
    and "length (y_toSend sndr) = m" "\<forall>p\<in>set (y_toSend sndr). length (payload (y_lByteLength sndr) p) = y_lByteLength sndr"
    and "m' = 8 * n" "m' < 2 ^ 32"
  shows "\<exists>rcvr1 sndr1 out rcvr2 gs'. OTExt_round K md rcvr sndr = Ok (rcvr1, sndr1, out) \<and>
    OTExtRcvr_ReInitialise K rcvr1 m' str' n = Ok rcvr2 \<and>
    synced K k m' gs' rcvr2 (OTExtSndr_ReInitialise sndr1 toSend' m')"
proof -
  obtain rcvr1 sndr1 out where "OTExt_round K md rcvr sndr = Ok (rcvr1, sndr1, out)"
    "drained K k m (next_gens K ((m + 7) div 8) gs) rcvr1 sndr1"
    using round_ok [OF assms(1-3), of md dl "y_lByteLength sndr"] assms(4-7) by auto
  then show ?thesis using reinit_synced [OF _ assms(8,9), of K k m] by metis
qed

theorem OTExt_resync_witness:
  "\<exists>rcvr sndr rcvr1 sndr1 out rcvr2 gs'. OTExt_round toy_ks toy_md (rcvr :: int OTExtRcvr) sndr = Ok (rcvr1, sndr1, out) \<and>
    OTExtRcvr_ReInitialise toy_ks rcvr1 16 (Some [1, 2]) 2 = Ok rcvr2 \<and>
    synced toy_ks 80 16 gs' rcvr2 (OTExtSndr_ReInitialise sndr1 (replicate 16 None) 16)"
proof -
  obtain rcvr :: "int OTExtRcvr" and sndr gs H where s: "synced toy_ks 80 3 gs rcvr sndr" "x_str rcvr = Some [5]"
    "y_toSend sndr = [Some [1, 2], None, Some [3, 4]]" "y_lByteLength sndr = 2" "MD_Create 80 = Ok H" "y_H sndr = H"
    using setup_ok [OF toy_curve_ok toy_md_ok, of 80 3 80 "replicate 32 1" "replicate 32 2" "[0..<80]" "[0..<80]" "[0..<80]"
        toy_ks "Some [5]" "[Some [1, 2], None, Some [3, 4]]" 2]
    by (auto simp: secLev_ok_def)
  have "\<exists>rcvr1 sndr1 out rcvr2 gs'. OTExt_round toy_ks toy_md rcvr sndr = Ok (rcvr1, sndr1, out) \<and>
    OTExtRcvr_ReInitialise toy_ks rcvr1 16 (Some [1, 2]) 2 = Ok rcvr2 \<and>
    synced toy_ks 80 16 gs' rcvr2 (OTExtSndr_ReInitialise sndr1 (replicate 16 None) 16)"
    by (rule OTExt_resync [OF s(1,2), of toy_md 20])
      (use s(3-6) in \<open>auto simp: payload_def MD_Create_def toy_md_def\<close>)
  then show ?thesis by blast
qed

end
