(* ===== verification/Network.thy ===== *)
theory Network
  imports NaorPinkas
begin

text \<open>
  The framing of messages of \<open>PSI_C_0.1/PSI/PSI/networkComm.cpp\<close> and the receive loop
  \<open>receiveBulk\<close> of \<open>headers/Util.h\<close>.  The socket is explicit: the bytes the peer has
  sent, a schedule that says how many bytes each call of \<open>recv\<close> delivers, and the bytes
  sent.  The loops are \<open>partial_function (option)\<close>: \<open>None\<close> is a call that never returns.
\<close>

section \<open>Sockets\<close>

text \<open>
  \<open>Deliver n\<close>: the next \<open>recv\<close> returns at most \<open>n\<close> bytes (at least one when there are
  some); \<open>Fail\<close>: it returns \<open>-1\<close>.  With an empty schedule \<open>recv\<close> returns as much as
  asked for.  At the end of the data the peer has closed the connection and \<open>recv\<close> returns 0.
\<close>

datatype rx_event = Deliver nat | Fail

record sock =
  rx :: bytes
  sched :: "rx_event list"
  tx :: bytes

definition recv :: "sock \<Rightarrow> nat \<Rightarrow> bytes option \<times> sock" where
  "recv s len =
     (case sched s of
        [] \<Rightarrow> (Some (take len (rx s)), s\<lparr>rx := drop len (rx s)\<rparr>)
      | Fail # es \<Rightarrow> (None, s\<lparr>sched := es\<rparr>)
      | Deliver n # es \<Rightarrow> (let n' = min len (max 1 n) in
          (Some (take n' (rx s)), s\<lparr>rx := drop n' (rx s), sched := es\<rparr>)))"

definition send :: "sock \<Rightarrow> bytes \<Rightarrow> sock" where
  "send s bs = s\<lparr>tx := tx s @ bs\<rparr>"

section \<open>receiveBulk\<close>

text \<open>\<open>size_t\<close> arithmetic: a failing \<open>recv\<close> adds \<open>-1\<close>, and the assertion \<open>recByte >= 0\<close> always holds.\<close>

definition next_step :: "u64 \<Rightarrow> u64 \<Rightarrow> u64 \<Rightarrow> u64" where
  "next_step toReceive receivedLen step =
     (if receivedLen + step \<ge> toReceive then toReceive - receivedLen else step)"

partial_function (option) receiveLoop ::
    "u64 \<Rightarrow> u64 \<Rightarrow> u64 \<Rightarrow> bytes \<Rightarrow> sock \<Rightarrow> (bytes \<times> sock) res option" where
  "receiveLoop toReceive receivedLen step buf s =
     (if receivedLen < toReceive then
        (case recv s (unat (next_step toReceive receivedLen step)) of
           (None, s') \<Rightarrow> receiveLoop toReceive (receivedLen + (- 1)) (next_step toReceive receivedLen step) buf s'
         | (Some bs, s') \<Rightarrow>
             (case wr_blk buf (unat receivedLen) bs of
                Inl e \<Rightarrow> Some (Err e)
              | Inr buf' \<Rightarrow> receiveLoop toReceive (receivedLen + of_nat (length bs))
                  (next_step toReceive receivedLen step) buf' s'))
      else Some (Ok (buf, s)))"

definition receiveBulk :: "sock \<Rightarrow> nat \<Rightarrow> bytes \<Rightarrow> (bytes \<times> sock) res option" where
  "receiveBulk s toReceive buf = receiveLoop (of_nat toReceive) 0 1024 buf s"

section \<open>Arrays of strings\<close>

fun receiveStrings :: "nat \<Rightarrow> nat \<Rightarrow> sock \<Rightarrow> (bytes list \<times> sock) res option" where
  "receiveStrings 0 len s = Some (Ok ([], s))"
| "receiveStrings (Suc n) len s =
     (case receiveBulk s len (replicate len 0) of
        None \<Rightarrow> None
      | Some (Inl e) \<Rightarrow> Some (Err e)
      | Some (Inr (b, s')) \<Rightarrow>
          (case receiveStrings n len s' of
             None \<Rightarrow> None
           | Some (Inl e) \<Rightarrow> Some (Err e)
           | Some (Inr (bs, s'')) \<Rightarrow> Some (Ok (b # bs, s''))))"

definition receiveArrayOfByteStrings :: "sock \<Rightarrow> nat \<Rightarrow> nat \<Rightarrow> (bytes list \<times> sock) res option" where
  "receiveArrayOfByteStrings s numOfStrings strByteLen = receiveStrings numOfStrings strByteLen s"

text \<open>The strings of one bunch are copied into the buffer \<open>e\<close>, whose first \<open>total\<close> bytes are sent.\<close>

definition fill_bunch :: "nat \<Rightarrow> bytes list \<Rightarrow> nat \<Rightarrow> nat \<Rightarrow> bytes \<Rightarrow> bytes res" where
  "fill_bunch strByteLen strArray i bunch e =
     rfold (\<lambda>j e. rbind (rd strArray (i + j)) (\<lambda>str. rbind (rd_blk str 0 strByteLen) (\<lambda>x.
       wr_blk e (j * strByteLen) x))) [0..<bunch] e"

definition bunch_of :: "nat \<Rightarrow> nat \<Rightarrow> nat \<Rightarrow> nat" where
  "bunch_of numOfStrings i bunch = (if i + bunch \<ge> numOfStrings then numOfStrings - i else bunch)"

partial_function (option) sendLoop ::
    "nat \<Rightarrow> nat \<Rightarrow> bytes list \<Rightarrow> nat \<Rightarrow> nat \<Rightarrow> bytes \<Rightarrow> sock \<Rightarrow> sock res option" where
  "sendLoop numOfStrings strByteLen strArray i bunch e s =
     (if i < numOfStrings then
        (case fill_bunch strByteLen strArray i (bunch_of numOfStrings i bunch) e of
           Inl err \<Rightarrow> Some (Err err)
         | Inr e' \<Rightarrow>
             sendLoop numOfStrings strByteLen strArray (i + bunch_of numOfStrings i bunch) (bunch_of numOfStrings i bunch) e'
               (send s (take (bunch_of numOfStrings i bunch * strByteLen) e')))
      else Some (Ok s))"

definition sendArrayOfByteStrings :: "sock \<Rightarrow> nat \<Rightarrow> nat \<Rightarrow> bytes list \<Rightarrow> sock res option" where
  "sendArrayOfByteStrings s numOfStrings strByteLen strArray =
     sendLoop numOfStrings strByteLen strArray 0 50 (replicate (50 * strByteLen) 0) s"

section \<open>Three-dimensional arrays\<close>

definition receive3DBitArray :: "sock \<Rightarrow> nat \<Rightarrow> nat \<Rightarrow> nat \<Rightarrow> (bytes list list \<times> sock) res option" where
  "receive3DBitArray s size1D size2D size3D =
     (case receiveBulk s (size1D * size2D * size3D) (replicate (size1D * size2D * size3D) 0) of
        None \<Rightarrow> None
      | Some (Inl e) \<Rightarrow> Some (Err e)
      | Some (Inr (str, s')) \<Rightarrow> Some (
          rbind (rmap (\<lambda>i. rmap (\<lambda>j. rd_blk str ((i * size2D + j) * size3D) size3D) [0..<size2D]) [0..<size1D])
            (\<lambda>out. Ok (out, s'))))"

definition send3DBitArray :: "sock \<Rightarrow> nat \<Rightarrow> nat \<Rightarrow> nat \<Rightarrow> bytes list list \<Rightarrow> sock res" where
  "send3DBitArray s size1D size2D size3D strArray =
     rfold (\<lambda>i s. rbind (rd strArray i) (\<lambda>row. rfold (\<lambda>j s. rbind (rd row j) (\<lambda>str.
       rbind (rd_blk str 0 size3D) (\<lambda>x. Ok (send s x)))) [0..<size2D] s)) [0..<size1D] s"

section \<open>Curve points\<close>

text \<open>\<open>dec\<close> is \<open>EC_POINT_oct2point\<close>.\<close>

definition sendArrayOfECPoints :: "'p curve \<Rightarrow> sock \<Rightarrow> nat \<Rightarrow> nat \<Rightarrow> 'p list \<Rightarrow> sock res" where
  "sendArrayOfECPoints E s numOfPoints pointByteLen points =
     rfold (\<lambda>i s. rbind (rd points i) (\<lambda>p.
       let b = point2oct E p pointByteLen in
       rbind (rassert (length b = pointByteLen)) (\<lambda>_. Ok (send s b)))) [0..<numOfPoints] s"

definition receiveArrayOfECPoints :: "(bytes \<Rightarrow> 'p) \<Rightarrow> sock \<Rightarrow> nat \<Rightarrow> nat \<Rightarrow> ('p list \<times> sock) res option" where
  "receiveArrayOfECPoints dec s numOfPoints pointByteLen =
     (case receiveBulk s (numOfPoints * pointByteLen) (replicate (numOfPoints * pointByteLen) 0) of
        None \<Rightarrow> None
      | Some (Inl e) \<Rightarrow> Some (Err e)
      | Some (Inr (buf, s')) \<Rightarrow> Some (
          rbind (rmap (\<lambda>i. rbind (rd_blk buf (i * pointByteLen) pointByteLen) (\<lambda>b. Ok (dec b))) [0..<numOfPoints])
            (\<lambda>out. Ok (out, s'))))"

section \<open>The receive loop\<close>

definition quiet :: "sock \<Rightarrow> bool" where
  "quiet s \<longleftrightarrow> Fail \<notin> set (sched s)"

text \<open>A \<open>recv\<close> without failure takes at least one byte off the stream when there is one.\<close>

lemma recv_ok:
  assumes "quiet s" "0 < len"
  shows "\<exists>n s'. recv s len = (Some (take n (rx s)), s') \<and> rx s' = drop n (rx s) \<and> quiet s' \<and> tx s' = tx s \<and>
    n \<le> len \<and> 0 < n"
proof (cases "sched s")
  case Nil
  then show ?thesis using assms by (auto simp: recv_def quiet_def)
next
  case (Cons e es)
  then show ?thesis using assms by (cases e) (auto simp: recv_def quiet_def Let_def intro!: exI [of _ "min len (max 1 _)"])
qed

lemma next_step_nat:
  assumes "r \<le> n" "n + 1024 < 2 ^ 64" "st \<le> 1024"
  shows "next_step (of_nat n) (of_nat r) (of_nat st) = of_nat (min st (n - r))"
proof -
  have "unat (of_nat r + of_nat st :: u64) = r + st"
    using assms by (simp add: unat_of_nat take_bit_nat_eq_self flip: of_nat_add)
  moreover have "unat (of_nat n :: u64) = n" using assms by (simp add: unat_of_nat take_bit_nat_eq_self)
  ultimately have "(of_nat n \<le> (of_nat r + of_nat st :: u64)) = (n \<le> r + st)" by (simp add: word_le_nat_alt)
  moreover have "of_nat n - of_nat r = (of_nat (n - r) :: u64)" using assms(1) by simp
  ultimately show ?thesis by (cases "n \<le> r + st") (simp_all add: next_step_def min_absorb1 min_absorb2)
qed

lemma unat_small: "n + 1024 < 2 ^ 64 \<Longrightarrow> r \<le> n \<Longrightarrow> unat (of_nat r :: u64) = r"
  by (simp add: unat_of_nat take_bit_nat_eq_self)

lemma blit_blit_next:
  "i + length xs + length ys \<le> length b \<Longrightarrow> blit (blit b i xs) (i + length xs) ys = blit b i (xs @ ys)"
  by (rule nth_equalityI) (auto simp: nth_blit nth_append)

lemma receiveLoop_ok:
  assumes "r \<le> n" "n + 1024 < 2 ^ 64" "0 < st" "st \<le> 1024" "n \<le> length buf" "n - r \<le> length (rx s)" "quiet s"
  shows "\<exists>s'. receiveLoop (of_nat n) (of_nat r) (of_nat st) buf s = Some (Ok (blit buf r (take (n - r) (rx s)), s')) \<and>
    rx s' = drop (n - r) (rx s) \<and> quiet s' \<and> tx s' = tx s"
  using assms
proof (induction "n - r" arbitrary: r st buf s rule: less_induct)
  case less
  have lt: "(of_nat r < (of_nat n :: u64)) = (r < n)"
    using less.prems unat_small [of n] by (simp add: word_less_nat_alt)
  show ?case
  proof (cases "r < n")
    case False
    then have "receiveLoop (of_nat n) (of_nat r) (of_nat st) buf s = Some (Ok (buf, s))"
      by (subst receiveLoop.simps) (simp add: lt)
    then show ?thesis using False less.prems by (simp add: blit_def)
  next
    case True
    let ?st = "min st (n - r)"
    have nx: "next_step (of_nat n) (of_nat r) (of_nat st) = (of_nat ?st :: u64)"
      using less.prems by (intro next_step_nat) simp_all
    have u: "unat (of_nat ?st :: u64) = ?st" "unat (of_nat r :: u64) = r"
      using less.prems unat_small [of n ?st] unat_small [of n r] by simp_all
    obtain k s1 where k: "recv s ?st = (Some (take k (rx s)), s1)" "rx s1 = drop k (rx s)" "quiet s1" "tx s1 = tx s"
      "k \<le> ?st" "0 < k" using recv_ok [OF less.prems(7), of ?st] True less.prems(3) by auto
    have lk: "length (take k (rx s)) = k" using k(5) less.prems(6) by simp
    have bk: "wr_blk buf r (take k (rx s)) = Ok (blit buf r (take k (rx s)))"
      using k(5) True less.prems(5) by (intro wr_blk_ok) (simp only: lk min.bounded_iff, linarith)
    have "\<exists>s'. receiveLoop (of_nat n) (of_nat (r + k)) (of_nat ?st) (blit buf r (take k (rx s))) s1 =
        Some (Ok (blit (blit buf r (take k (rx s))) (r + k) (take (n - (r + k)) (rx s1)), s')) \<and>
      rx s' = drop (n - (r + k)) (rx s1) \<and> quiet s' \<and> tx s' = tx s1"
    proof (rule less.hyps)
      have "length (blit buf r (take k (rx s))) = length buf"
        using k(5) True less.prems(5) by (intro length_blit) (simp only: lk min.bounded_iff, linarith)
      then show "n \<le> length (blit buf r (take k (rx s)))" using less.prems(5) by simp
      show "r + k \<le> n" using k(5) True by (simp only: min.bounded_iff) linarith
    qed (use k True less.prems in simp_all)
    moreover have "blit (blit buf r (take k (rx s))) (r + k) (take (n - (r + k)) (rx s1)) = blit buf r (take (n - r) (rx s))"
    proof -
      have "take (n - r) (rx s) = take k (rx s) @ take (n - (r + k)) (rx s1)"
        using take_add [of k "n - r - k" "rx s"] k(2,5) True by (simp add: diff_diff_left)
      then show ?thesis
        using blit_blit_next [of r "take k (rx s)" "take (n - (r + k)) (rx s1)" buf] lk k(2,5) less.prems(5,6) True by simp
    qed
    moreover have "drop (n - (r + k)) (rx s1) = drop (n - r) (rx s)" 
    proof -
      have "n - (r + k) + k = n - r" using k(5) True by (simp only: min.bounded_iff) linarith
      then show ?thesis by (simp add: k(2))
    qed
    moreover have "receiveLoop (of_nat n) (of_nat r) (of_nat st) buf s =
        receiveLoop (of_nat n) (of_nat (r + k)) (of_nat ?st) (blit buf r (take k (rx s))) s1"
      by (subst receiveLoop.simps) (use True lt nx u k(1) bk lk in simp)
    ultimately show ?thesis using k(4) by auto
  qed
qed

lemma receiveBulk_ok:
  assumes "n + 1024 < 2 ^ 64" "n \<le> length buf" "n \<le> length (rx s)" "quiet s"
  shows "\<exists>s'. receiveBulk s n buf = Some (Ok (take n (rx s) @ drop n buf, s')) \<and>
    rx s' = drop n (rx s) \<and> quiet s' \<and> tx s' = tx s"
proof -
  have "length (take n (rx s)) = n" using assms(3) by simp
  then show ?thesis using receiveLoop_ok [of 0 n 1024 buf s] assms by (simp add: receiveBulk_def blit_def)
qed

text \<open>A run that returns without a failing \<open>recv\<close> has found all its bytes.\<close>

lemma receiveLoop_enough:
  assumes "receiveLoop tr rl step buf s = Some y"
  shows "\<forall>n r st. quiet s \<and> tr = of_nat n \<and> rl = of_nat r \<and> step = of_nat st \<and> r \<le> n \<and> n + 1024 < 2 ^ 64 \<and>
    0 < st \<and> st \<le> 1024 \<and> n \<le> length buf \<longrightarrow> n - r \<le> length (rx s)"
proof (rule receiveLoop.raw_induct [OF _ assms], goal_cases)
  case (1 rec tr rl step buf s y)
  show ?case
  proof (intro allI impI)
    fix n r st
    assume "quiet s \<and> tr = of_nat n \<and> rl = of_nat r \<and> step = of_nat st \<and> r \<le> n \<and> n + 1024 < 2 ^ 64 \<and>
      0 < st \<and> st \<le> 1024 \<and> n \<le> length buf"
    then have a: "quiet s" "tr = of_nat n" "rl = of_nat r" "step = of_nat st" "r \<le> n" "n + 1024 < 2 ^ 64"
      "0 < st" "st \<le> 1024" "n \<le> length buf" by simp_all
    show "n - r \<le> length (rx s)"
    proof (cases "r < n")
      case True
      let ?st = "min st (n - r)"
      have lt: "rl < tr" using a True unat_small [of n] by (simp add: word_less_nat_alt)
      have nx: "next_step tr rl step = of_nat ?st" using a by (simp only: next_step_nat)
      have u: "unat (of_nat ?st :: u64) = ?st" "unat rl = r"
        using a unat_small [of n ?st] unat_small [of n r] by simp_all
      obtain k s1 where k: "recv s ?st = (Some (take k (rx s)), s1)" "rx s1 = drop k (rx s)" "quiet s1"
        "k \<le> ?st" using recv_ok [OF a(1), of ?st] True a(7) by auto
      let ?b = "take k (rx s)"
      have lb: "length ?b \<le> k" by simp
      have bk: "wr_blk buf r ?b = Ok (blit buf r ?b)"
        using k(4) True a(9) lb by (intro wr_blk_ok) (simp only: min.bounded_iff, linarith)
      have step: "rec tr (rl + of_nat (length ?b)) (of_nat ?st) (blit buf r ?b) s1 = Some y"
        using 1(2) lt u k(1) bk by (simp only: nx if_True prod.case option.case sum.case)
      have l: "length (blit buf r ?b) = length buf"
        using k(4) True a(9) lb by (intro length_blit) (simp only: min.bounded_iff, linarith)
      have "r + length ?b \<le> n" using k(4) True lb by (simp only: min.bounded_iff) linarith
      then have "n - (r + length ?b) \<le> length (rx s1)"
        using 1(1) [OF step, rule_format, of n "r + length ?b" ?st] a(2,3,6,7,9) k(3) l True
        by (simp only: of_nat_add) (simp add: min.coboundedI1 a(8))
      then show ?thesis using k(2) by simp
    qed simp
  qed
qed

section \<open>Framing\<close>

text \<open>
  The contract of a pair of send and receive operations: the sender puts \<open>wire m\<close> on the
  wire, and the receiver that finds it at the front of its stream, however \<open>recv\<close> splits
  it, returns \<open>m\<close> and leaves the rest.
\<close>

locale framed =
  fixes put :: "'m \<Rightarrow> sock \<Rightarrow> sock res option"
    and get :: "sock \<Rightarrow> ('m \<times> sock) res option"
    and wire :: "'m \<Rightarrow> bytes"
    and fits :: "'m \<Rightarrow> bool"
  assumes puts: "fits m \<Longrightarrow> put m s = Some (Ok (send s (wire m)))"
    and gets: "fits m \<Longrightarrow> quiet s \<Longrightarrow> rx s = wire m @ rest \<Longrightarrow>
      \<exists>s'. get s = Some (Ok (m, s')) \<and> rx s' = rest \<and> quiet s' \<and> tx s' = tx s"
begin

text \<open>What one side sends is what the other side receives, and nothing is left over.\<close>

lemma transfer:
  assumes "fits m" "quiet b" "rx b = []"
  shows "\<exists>a' b'. put m a = Some (Ok a') \<and> get (b\<lparr>rx := drop (length (tx a)) (tx a')\<rparr>) = Some (Ok (m, b')) \<and>
    rx b' = [] \<and> quiet b'"
proof -
  have "quiet (b\<lparr>rx := wire m\<rparr>)" using assms(2) by (simp add: quiet_def)
  then obtain b' where "get (b\<lparr>rx := wire m\<rparr>) = Some (Ok (m, b'))" "rx b' = []" "quiet b'"
    using gets [OF assms(1), of "b\<lparr>rx := wire m\<rparr>" "[]"] by auto
  then show ?thesis using puts [OF assms(1), of a] by (intro exI [of _ "send a (wire m)"] exI [of _ b']) (simp add: send_def)
qed

fun get_all :: "'m list \<Rightarrow> sock \<Rightarrow> ('m list \<times> sock) res option" where
  "get_all [] s = Some (Ok ([], s))"
| "get_all (_ # ms) s =
     (case get s of
        Some (Inr (m, s')) \<Rightarrow> (case get_all ms s' of Some (Inr (ms', s'')) \<Rightarrow> Some (Ok (m # ms', s'')) | r \<Rightarrow> r)
      | Some (Inl e) \<Rightarrow> Some (Err e)
      | None \<Rightarrow> None)"

text \<open>A sequence of messages is received in order.\<close>

lemma sequence:
  assumes "\<forall>m\<in>set ms. fits m" "quiet s" "rx s = concat (map wire ms) @ rest"
  shows "\<exists>s'. get_all ms s = Some (Ok (ms, s')) \<and> rx s' = rest \<and> quiet s'"
  using assms
proof (induction ms arbitrary: s)
  case (Cons m ms)
  obtain s1 where s1: "get s = Some (Ok (m, s1))" "rx s1 = concat (map wire ms) @ rest" "quiet s1"
    using gets [of m s "concat (map wire ms) @ rest"] Cons.prems by auto
  then show ?case using Cons.IH [OF _ s1(3,2)] Cons.prems(1) by auto
qed simp

end

subsection \<open>Arrays of strings\<close>

definition sized :: "nat \<Rightarrow> nat \<Rightarrow> bytes list \<Rightarrow> bool" where
  "sized n len m \<longleftrightarrow> length m = n \<and> (\<forall>x\<in>set m. length x = len)"

lemma length_concat_sized: "\<forall>x\<in>set m. length x = len \<Longrightarrow> length (concat m) = length m * len"
  by (induction m) auto

lemma length_concat_block:
  assumes "\<forall>x\<in>set arr. length x = len" "i + b \<le> length arr"
  shows "length (concat (take b (drop i arr))) = b * len"
proof -
  have "\<forall>y\<in>set (take b (drop i arr)). length y = len"
    using assms(1) by (auto dest: in_set_takeD in_set_dropD)
  then show ?thesis using length_concat_sized [of "take b (drop i arr)" len] assms(2) by simp
qed

lemma fill_bunch_ok:
  assumes "\<forall>x\<in>set arr. length x = len" "i + bunch \<le> length arr" "bunch * len \<le> length e"
  shows "fill_bunch len arr i bunch e = Ok (concat (take bunch (drop i arr)) @ drop (bunch * len) e)"
proof -
  have "\<exists>e'. fill_bunch len arr i bunch e = Ok e' \<and> e' = concat (take bunch (drop i arr)) @ drop (bunch * len) e"
    unfolding fill_bunch_def
  proof (rule rfold_upt_inv [where P = "\<lambda>j e'. e' = concat (take j (drop i arr)) @ drop (j * len) e"])
    fix j e' assume j: "0 \<le> j" "j < bunch" and e': "e' = concat (take j (drop i arr)) @ drop (j * len) e"
    let ?x = "arr ! (i + j)"
    have x: "length ?x = len" "i + j < length arr" using assms(1,2) j by auto
    have c: "length (concat (take j (drop i arr))) = j * len"
      using x(2) by (intro length_concat_block [OF assms(1)]) simp
    have room: "j * len + len \<le> length e"
    proof -
      have "Suc j * len \<le> bunch * len" using j by (intro mult_le_mono1) simp
      then show ?thesis using assms(3) by simp
    qed
    have "take (Suc j) (drop i arr) = take j (drop i arr) @ [?x]" using x(2) by (simp add: take_Suc_conv_app_nth)
    moreover have "blit e' (j * len) ?x = concat (take j (drop i arr)) @ ?x @ drop (j * len + len) e"
      using c x(1) e' by (simp add: blit_def add.commute)
    ultimately show "\<exists>e''. rbind (rd arr (i + j)) (\<lambda>str. rbind (rd_blk str 0 len) (\<lambda>x. wr_blk e' (j * len) x)) = Ok e'' \<and>
        e'' = concat (take (Suc j) (drop i arr)) @ drop (Suc j * len) e"
      using x c room e' by (simp add: add.commute)
  qed simp_all
  then show ?thesis by simp
qed

lemma sendLoop_ok:
  assumes "sized n len arr" "i \<le> n" "0 < bunch" "bunch \<le> 50" "length e = 50 * len"
  shows "sendLoop n len arr i bunch e s = Some (Ok (send s (concat (drop i arr))))"
  using assms
proof (induction "n - i" arbitrary: i bunch e s rule: less_induct)
  case less
  show ?case
  proof (cases "i < n")
    case False
    then show ?thesis using less.prems by (subst sendLoop.simps) (simp add: sized_def send_def)
  next
    case True
    let ?b = "bunch_of n i bunch"
    have b: "0 < ?b" "?b \<le> 50" "i + ?b \<le> n" using True less.prems by (auto simp: bunch_of_def)
    have bl: "?b * len \<le> 50 * len" using b(2) by (intro mult_le_mono1)
    let ?e = "concat (take ?b (drop i arr)) @ drop (?b * len) e"
    have f: "fill_bunch len arr i ?b e = Ok ?e"
      using less.prems b bl by (intro fill_bunch_ok) (simp_all add: sized_def)
    have c: "length (concat (take ?b (drop i arr))) = ?b * len"
      using less.prems(1) b(3) by (intro length_concat_block) (simp_all add: sized_def)
    have "sendLoop n len arr i bunch e s = sendLoop n len arr (i + ?b) ?b ?e (send s (take (?b * len) ?e))"
      by (subst sendLoop.simps) (simp add: True f)
    also have "\<dots> = Some (Ok (send (send s (take (?b * len) ?e)) (concat (drop (i + ?b) arr))))"
      by (rule less.hyps) (use less.prems b bl True c in simp_all)
    also have "send (send s (take (?b * len) ?e)) (concat (drop (i + ?b) arr)) = send s (concat (drop i arr))"
    proof -
      have "drop i arr = take ?b (drop i arr) @ drop (i + ?b) arr"
        by (metis append_take_drop_id add.commute drop_drop)
      then have "concat (drop i arr) = concat (take ?b (drop i arr)) @ concat (drop (i + ?b) arr)"
        by (metis concat_append)
      then show ?thesis using c by (simp add: send_def)
    qed
    finally show ?thesis .
  qed
qed

lemma sendArray_ok: "sized n len arr \<Longrightarrow> sendArrayOfByteStrings s n len arr = Some (Ok (send s (concat arr)))"
  using sendLoop_ok [of n len arr 0 50 "replicate (50 * len) 0" s] by (simp add: sendArrayOfByteStrings_def)

lemma receiveStrings_ok:
  assumes "len + 1024 < 2 ^ 64" "sized n len arr" "quiet s" "rx s = concat arr @ rest"
  shows "\<exists>s'. receiveStrings n len s = Some (Ok (arr, s')) \<and> rx s' = rest \<and> quiet s' \<and> tx s' = tx s"
  using assms
proof (induction arr arbitrary: n s)
  case (Cons x arr)
  then obtain n' where n: "n = Suc n'" "sized n' len arr" "length x = len" by (auto simp: sized_def)
  obtain s1 where s1: "receiveBulk s len (replicate len 0) = Some (Ok (x, s1))" "rx s1 = concat arr @ rest" "quiet s1" "tx s1 = tx s"
    using receiveBulk_ok [of len "replicate len 0" s] Cons.prems n by auto
  then show ?case using Cons.IH [OF Cons.prems(1) n(2) s1(3,2)] by (auto simp: n)
qed (simp add: sized_def)

interpretation strings: framed "\<lambda>m s. sendArrayOfByteStrings s n len m" "\<lambda>s. receiveArrayOfByteStrings s n len" concat
  "\<lambda>m. sized n len m \<and> len + 1024 < 2 ^ 64"
  by unfold_locales (simp_all only: sendArray_ok receiveArrayOfByteStrings_def receiveStrings_ok)

subsection \<open>Three-dimensional arrays and points\<close>

lemma rfold_send:
  assumes "\<And>i s. i < n \<Longrightarrow> f i s = Ok (send s (w i))"
  shows "rfold f [0..<n] s = Ok (send s (concat (map w [0..<n])))"
  using assms by (induction n) (simp_all add: rfold_append send_def)

definition sized3 :: "nat \<Rightarrow> nat \<Rightarrow> nat \<Rightarrow> bytes list list \<Rightarrow> bool" where
  "sized3 n1 n2 n3 m \<longleftrightarrow> length m = n1 \<and> (\<forall>row\<in>set m. sized n2 n3 row)"

lemma length_sized3: "sized3 n1 n2 n3 m \<Longrightarrow> length (concat (concat m)) = n1 * n2 * n3"
proof -
  assume m: "sized3 n1 n2 n3 m"
  then have "length (concat m) = n1 * n2" using length_concat_sized [of m n2] by (simp add: sized3_def sized_def)
  moreover have "\<forall>x\<in>set (concat m). length x = n3" using m by (auto simp: sized3_def sized_def)
  ultimately show ?thesis using length_concat_sized [of "concat m" n3] by simp
qed

lemma send3D_ok:
  assumes "sized3 n1 n2 n3 m"
  shows "send3DBitArray s n1 n2 n3 m = Ok (send s (concat (concat m)))"
proof -
  have row: "rfold (\<lambda>j s. rbind (rd (m ! i) j) (\<lambda>str. rbind (rd_blk str 0 n3) (\<lambda>x. Ok (send s x)))) [0..<n2] s
      = Ok (send s (concat (m ! i)))" if "i < n1" for i s
  proof -
    have r: "sized n2 n3 (m ! i)" using assms that by (simp add: sized3_def)
    have "rfold (\<lambda>j s. rbind (rd (m ! i) j) (\<lambda>str. rbind (rd_blk str 0 n3) (\<lambda>x. Ok (send s x)))) [0..<n2] s
        = Ok (send s (concat (map (\<lambda>j. m ! i ! j) [0..<n2])))"
      by (rule rfold_send) (use r in \<open>simp add: sized_def\<close>)
    moreover have "map (\<lambda>j. m ! i ! j) [0..<n2] = m ! i" using r by (intro nth_equalityI) (simp_all add: sized_def)
    ultimately show ?thesis by simp
  qed
  have l: "length m = n1" using assms by (simp add: sized3_def)
  have "send3DBitArray s n1 n2 n3 m = Ok (send s (concat (map (\<lambda>i. concat (m ! i)) [0..<n1])))"
    unfolding send3DBitArray_def by (rule rfold_send) (simp add: l row)
  moreover have "concat (map (\<lambda>i. concat (m ! i)) [0..<n1]) = concat (concat m)"
  proof -
    have "map (\<lambda>i. concat (m ! i)) [0..<n1] = map concat m" using l by (intro nth_equalityI) simp_all
    moreover have "concat (map concat m) = concat (concat m)" by (induction m) simp_all
    ultimately show ?thesis by simp
  qed
  ultimately show ?thesis by simp
qed

lemma nth_concat_uniform:
  assumes "\<forall>r\<in>set m. length r = L" "i < length m" "j < L"
  shows "concat m ! (i * L + j) = m ! i ! j"
  using assms
proof (induction m arbitrary: i)
  case (Cons r m)
  then show ?case by (cases i) (auto simp: nth_append)
qed simp

lemma receive3D_ok:
  assumes m: "sized3 n1 n2 n3 m" and n: "n1 * n2 * n3 + 1024 < 2 ^ 64" and s: "quiet s" "rx s = concat (concat m) @ rest"
  shows "\<exists>s'. receive3DBitArray s n1 n2 n3 = Some (Ok (m, s')) \<and> rx s' = rest \<and> quiet s' \<and> tx s' = tx s"
proof -
  let ?t = "n1 * n2 * n3" and ?c = "concat m"
  have l: "length (concat ?c) = ?t" by (rule length_sized3 [OF m])
  obtain s' where s': "receiveBulk s ?t (replicate ?t 0) = Some (Ok (concat ?c, s'))" "rx s' = rest" "quiet s'" "tx s' = tx s"
    using receiveBulk_ok [OF n, of "replicate ?t 0" s] s l by auto
  have str: "\<forall>x\<in>set ?c. length x = n3" and row: "\<forall>r\<in>set m. length r = n2" and n1: "length m = n1"
    using m by (auto simp: sized3_def sized_def)
  have cell: "rd_blk (concat ?c) ((i * n2 + j) * n3) n3 = Ok (m ! i ! j)" if ij: "i < n1" "j < n2" for i j
  proof -
    have idx: "i * n2 + j < length ?c"
    proof -
      have "i * n2 + j < Suc i * n2" using ij by simp
      also have "\<dots> \<le> n1 * n2" using ij(1) by (intro mult_le_mono1) simp
      finally show ?thesis using length_concat_sized [OF row] n1 by simp
    qed
    have "?c ! (i * n2 + j) = m ! i ! j"
      using ij n1 by (simp add: nth_concat_uniform [OF row])
    moreover have "take n3 (drop ((i * n2 + j) * n3) (concat ?c)) = take n3 (?c ! (i * n2 + j))"
      using block_of_concat [OF str idx, of 0 n3] by simp
    moreover have "(i * n2 + j) * n3 + n3 \<le> length (concat ?c)"
    proof -
      have "Suc (i * n2 + j) * n3 \<le> length ?c * n3" using idx by (intro mult_le_mono1) simp
      then show ?thesis using length_concat_sized [OF str] by simp
    qed
    moreover have "length (m ! i ! j) = n3"
    proof -
      have "sized n2 n3 (m ! i)" using m ij n1 by (simp add: sized3_def)
      then show ?thesis using ij by (simp add: sized_def)
    qed
    ultimately show ?thesis by simp
  qed
  have "rmap (\<lambda>i. rmap (\<lambda>j. rd_blk (concat ?c) ((i * n2 + j) * n3) n3) [0..<n2]) [0..<n1]
      = Ok (map (\<lambda>i. map (\<lambda>j. m ! i ! j) [0..<n2]) [0..<n1])"
    by (intro rmap_Ok) (simp add: cell)
  moreover have "map (\<lambda>i. map (\<lambda>j. m ! i ! j) [0..<n2]) [0..<n1] = m"
  proof (rule nth_equalityI)
    fix i assume i: "i < length (map (\<lambda>i. map (\<lambda>j. m ! i ! j) [0..<n2]) [0..<n1])"
    then have "length (m ! i) = n2" using row n1 by simp
    then have "map (\<lambda>j. m ! i ! j) [0..<n2] = m ! i" by (intro nth_equalityI) simp_all
    then show "map (\<lambda>i. map (\<lambda>j. m ! i ! j) [0..<n2]) [0..<n1] ! i = m ! i" using i by simp
  qed (simp add: n1)
  ultimately show ?thesis using s' by (simp add: receive3DBitArray_def)
qed

interpretation bits3: framed "\<lambda>m s. Some (send3DBitArray s n1 n2 n3 m)" "\<lambda>s. receive3DBitArray s n1 n2 n3"
  "\<lambda>m. concat (concat m)" "\<lambda>m. sized3 n1 n2 n3 m \<and> n1 * n2 * n3 + 1024 < 2 ^ 64"
  by unfold_locales (simp_all only: send3D_ok receive3D_ok)

text \<open>Points whose encodings have the expected length and are decoded by \<open>dec\<close>.\<close>

definition points_ok :: "'p curve \<Rightarrow> (bytes \<Rightarrow> 'p) \<Rightarrow> nat \<Rightarrow> nat \<Rightarrow> 'p list \<Rightarrow> bool" where
  "points_ok E dec n plen ps \<longleftrightarrow> length ps = n \<and>
     (\<forall>p\<in>set ps. length (ec_oct E p) = plen \<and> dec (ec_oct E p) = p)"

lemma sendPoints_ok:
  assumes "points_ok E dec n plen ps"
  shows "sendArrayOfECPoints E s n plen ps = Ok (send s (concat (map (ec_oct E) ps)))"
proof -
  have "sendArrayOfECPoints E s n plen ps = Ok (send s (concat (map (\<lambda>i. ec_oct E (ps ! i)) [0..<n])))"
    unfolding sendArrayOfECPoints_def
    by (rule rfold_send) (use assms in \<open>simp add: points_ok_def point2oct_def rassert_def Let_def\<close>)
  moreover have "map (\<lambda>i. ec_oct E (ps ! i)) [0..<n] = map (ec_oct E) ps"
    using assms by (intro nth_equalityI) (simp_all add: points_ok_def)
  ultimately show ?thesis by simp
qed

lemma receivePoints_ok:
  assumes ps: "points_ok E dec n plen ps" and n: "n * plen + 1024 < 2 ^ 64"
    and s: "quiet s" "rx s = concat (map (ec_oct E) ps) @ rest"
  shows "\<exists>s'. receiveArrayOfECPoints dec s n plen = Some (Ok (ps, s')) \<and> rx s' = rest \<and> quiet s' \<and> tx s' = tx s"
proof -
  let ?es = "map (ec_oct E) ps"
  have e: "\<forall>x\<in>set ?es. length x = plen" "length ?es = n" using ps by (auto simp: points_ok_def)
  have l: "length (concat ?es) = n * plen" using length_concat_sized [OF e(1)] e(2) by simp
  obtain s' where s': "receiveBulk s (n * plen) (replicate (n * plen) 0) = Some (Ok (concat ?es, s'))" "rx s' = rest"
    "quiet s'" "tx s' = tx s" using receiveBulk_ok [OF n, of "replicate (n * plen) 0" s] s l by auto
  have "rbind (rd_blk (concat ?es) (i * plen) plen) (\<lambda>b. Ok (dec b)) = Ok (ps ! i)" if i: "i < n" for i
  proof -
    have "Suc i * plen \<le> n * plen" using i by (intro mult_le_mono1) simp
    moreover have "take plen (drop (i * plen) (concat ?es)) = ?es ! i"
      using block_of_concat [OF e(1), of i 0 plen] i e by simp
    moreover have "length (ec_oct E (ps ! i)) = plen" "dec (ec_oct E (ps ! i)) = ps ! i"
      using ps i by (simp_all add: points_ok_def)
    ultimately show ?thesis using l i e(2) by simp
  qed
  then have "rmap (\<lambda>i. rbind (rd_blk (concat ?es) (i * plen) plen) (\<lambda>b. Ok (dec b))) [0..<n] = Ok (map (\<lambda>i. ps ! i) [0..<n])"
    by (intro rmap_Ok) simp
  moreover have "map (\<lambda>i. ps ! i) [0..<n] = ps" using e(2) by (intro nth_equalityI) simp_all
  ultimately show ?thesis using s' by (simp add: receiveArrayOfECPoints_def)
qed

interpretation points: framed "\<lambda>m s. Some (sendArrayOfECPoints E s n plen m)" "\<lambda>s. receiveArrayOfECPoints dec s n plen"
  "\<lambda>m. concat (map (ec_oct E) m)" "\<lambda>m. points_ok E dec n plen m \<and> n * plen + 1024 < 2 ^ 64"
  by unfold_locales (blast intro: arg_cong [of _ _ Some] sendPoints_ok, blast intro: receivePoints_ok)

section \<open>Properties\<close>

text \<open>
  C15: \<open>receiveBulk\<close> fills the buffer with exactly the next \<open>n\<close> bytes of the stream for
  every way \<open>recv\<close> splits them, and leaves the rest; when the peer closes early it never
  returns.
\<close>

theorem receiveBulk_total:
  assumes "n + 1024 < 2 ^ 64" "n \<le> length buf" "quiet s"
  shows "if n \<le> length (rx s)
    then \<exists>s'. receiveBulk s n buf = Some (Ok (take n (rx s) @ drop n buf, s')) \<and> rx s' = drop n (rx s) \<and> tx s' = tx s
    else receiveBulk s n buf = None"
proof (cases "n \<le> length (rx s)")
  case True
  then show ?thesis using receiveBulk_ok [OF assms(1,2) True assms(3)] by auto
next
  case False
  have "receiveBulk s n buf \<noteq> Some y" for y
  proof
    assume "receiveBulk s n buf = Some y"
    from receiveLoop_enough [OF this [unfolded receiveBulk_def], rule_format, of n 0 1024] have "n - 0 \<le> length (rx s)"
      using assms by (simp only: of_nat_0 of_nat_numeral) simp
    then show False using False by simp
  qed
  then show ?thesis using False by (cases "receiveBulk s n buf") auto
qed

theorem receiveBulk_total_witness:
  "\<exists>s'. receiveBulk \<lparr>rx = [1, 2, 3], sched = [Deliver 1, Deliver 0], tx = []\<rparr> 2 [0, 0, 9] = Some (Ok ([1, 2, 9], s')) \<and> rx s' = [3]"
  using receiveBulk_total [of 2 "[0, 0, 9]" "\<lparr>rx = [1, 2, 3], sched = [Deliver 1, Deliver 0], tx = []\<rparr>"]
  by (auto simp: quiet_def)

text \<open>
  C16: a failing first \<open>recv\<close> ends \<open>receiveBulk\<close> at once and without an error, with the buffer
  as it was: \<open>-1\<close> becomes the largest \<open>size_t\<close>, which the assertion lets through.
\<close>

theorem receiveBulk_ignores_failure:
  assumes "sched s = Fail # es" "0 < n" "n < 2 ^ 64"
  shows "receiveBulk s n buf = Some (Ok (buf, s\<lparr>sched := es\<rparr>))"
proof -
  have stop: "receiveLoop tr (- 1) st b t = Some (Ok (b, t))" for tr st b t
    by (subst receiveLoop.simps) simp
  have "unat (of_nat n :: u64) = n" using assms(3) by (simp add: unat_of_nat take_bit_nat_eq_self)
  then have "(0::u64) < of_nat n" using assms(2) by (simp add: word_less_nat_alt)
  then show ?thesis unfolding receiveBulk_def
    by (subst receiveLoop.simps) (simp add: recv_def assms(1) stop)
qed

theorem receiveBulk_ignores_failure_witness:
  "receiveBulk \<lparr>rx = [1, 2], sched = [Fail], tx = []\<rparr> 2 [0, 0] = Some (Ok ([0, 0], \<lparr>rx = [1, 2], sched = [], tx = []\<rparr>))"
  by (subst receiveBulk_ignores_failure [where es = "[]"]) simp_all



end
