(* ===== verification/BloomFilter.thy ===== *)
theory BloomFilter
  imports Primitives
begin

text \<open>
  The Bloom filter of \<open>PSI_C_0.1/PSI/headers/BF.h\<close> and \<open>PSI/BF.cpp\<close>: its sizing, its
  bit map with leading zero bits, insertion (with and without precomputed indexes)
  and query.  The filter denotes the set of its one bits; the operations are shown to
  refine insertion into that set.
\<close>

section \<open>Bit stores\<close>

text \<open>The interface of a map of bits that only ever grows.\<close>

locale bit_store =
  fixes put :: "'f \<Rightarrow> int \<Rightarrow> 'f res" and get :: "'f \<Rightarrow> int \<Rightarrow> bool res"
    and wf :: "'f \<Rightarrow> bool" and size :: "'f \<Rightarrow> int"
  assumes put_ok: "wf f \<Longrightarrow> 0 \<le> i \<Longrightarrow> i < size f \<Longrightarrow> \<exists>f'. put f i = Ok f' \<and> wf f' \<and> size f' = size f"
    and put_get: "wf f \<Longrightarrow> put f i = Ok f' \<Longrightarrow> get f' j = (if j = i then Ok True else get f j)"
    and get_ok: "wf f \<Longrightarrow> 0 \<le> i \<Longrightarrow> i < size f \<Longrightarrow> \<exists>b. get f i = Ok b"
begin

lemma puts_ok:
  assumes "wf f" and "\<forall>i\<in>set is. 0 \<le> i \<and> i < size f"
  shows "\<exists>f'. rfold (\<lambda>i f. put f i) is f = Ok f' \<and> wf f' \<and> size f' = size f \<and>
    (\<forall>j. get f' j = (if j \<in> set is then Ok True else get f j))"
  using assms
proof (induction "is" arbitrary: f)
  case (Cons i "is")
  obtain g where g: "put f i = Ok g" "wf g" "size g = size f" using Cons.prems put_ok by force
  obtain f' where "rfold (\<lambda>i f. put f i) is g = Ok f'" "wf f'" "size f' = size g"
    "\<forall>j. get f' j = (if j \<in> set is then Ok True else get g j)"
    using Cons.IH [of g] Cons.prems g by force
  then show ?case using g put_get [OF Cons.prems(1) g(1)] by auto
qed simp

text \<open>A conjunction of reads that stops at the first zero bit.\<close>

lemma query_all:
  assumes "wf f" and "\<forall>i\<in>set is. 0 \<le> i \<and> i < size f"
  shows "rall (get f) is = Ok (\<forall>i\<in>set is. get f i = Ok True)"
  using assms
proof (induction "is")
  case (Cons i "is")
  then obtain b where "get f i = Ok b" using get_ok by force
  then show ?case using Cons by auto
qed simp

lemma no_false_negatives:
  assumes "wf f" "\<forall>i\<in>set is. 0 \<le> i \<and> i < size f" "rfold (\<lambda>i f. put f i) is f = Ok f'" "set js \<subseteq> set is"
  shows "rall (get f') js = Ok True"
proof -
  obtain g where "rfold (\<lambda>i f. put f i) is f = Ok g" "wf g" "size g = size f"
    "\<forall>j. get g j = (if j \<in> set is then Ok True else get f j)"
    using puts_ok [OF assms(1,2)] by blast
  then have g: "f' = g" "wf g" "\<forall>i\<in>set js. 0 \<le> i \<and> i < size g" "\<forall>i\<in>set js. get g i = Ok True"
    using assms by auto
  show ?thesis using query_all [OF g(2,3)] g(1,4) by simp
qed

end

interpretation bitmap: bit_store "\<lambda>bm i. setBit bm i lz" "\<lambda>bm i. getBit bm i lz"
  "\<lambda>bm. 0 \<le> lz" "\<lambda>bm. 8 * int (length bm) - lz"
proof (unfold_locales, goal_cases)
  case (1 f i)
  then have "0 \<le> i + lz" "(i + lz) div 8 < int (length f)" by (auto simp: div_less_iff_less_mult)
  with 1 show ?case by (simp add: setBit_Ok_iff)
next
  case (3 f i)
  then have "0 \<le> i + lz" "(i + lz) div 8 < int (length f)" by (auto simp: div_less_iff_less_mult)
  then show ?case by (simp add: getBit_Ok)
qed (rule getBit_after_setBit)

section \<open>The filter\<close>

record BF =
  bf_data :: bytes
  bf_m :: int
  bf_lz :: int
  bf_byteLen :: int

record BFParameters =
  par_m :: int
  par_n :: int
  par_k :: int

text \<open>
  \<open>ceil(n*p*log2e)\<close> in double precision: the constant 1.4428 is \<open>log2e_mant / 2^52\<close>, the
  exact product is rounded to 53 significant bits, ties to even.  Products of 32-bit
  integers are exact.
\<close>

definition log2e_mant :: nat where "log2e_mant = 6497793542370152"

function (sequential) dbl_ulp :: "nat \<Rightarrow> nat" where
  "dbl_ulp p = (if p < 2 ^ 53 then 1 else 2 * dbl_ulp (p div 2))"
  by pat_completeness auto

termination dbl_ulp
  by (relation "measure id") auto

definition round_even :: "nat \<Rightarrow> nat \<Rightarrow> nat" where
  "round_even u p = (let q = p div u; r = p mod u in
     if 2 * r < u \<or> 2 * r = u \<and> even q then q * u else (q + 1) * u)"

definition ceil_log2e :: "nat \<Rightarrow> nat" where
  "ceil_log2e x = (let p = x * log2e_mant; r = round_even (dbl_ulp p) p in (r + (2 ^ 52 - 1)) div 2 ^ 52)"

definition BF_GenerateParameters :: "nat \<Rightarrow> nat \<Rightarrow> BFParameters" where
  "BF_GenerateParameters n p =
     (let m = ceil_log2e (n * p) in
      \<lparr>par_m = int (if m mod 8 \<noteq> 0 then (m + 7) div 8 * 8 else m), par_n = int n, par_k = int p\<rparr>)"

definition BF_Create :: "int \<Rightarrow> BF" where
  "BF_Create m =
     (let r = m mod 8;
          byteLen = (if r = 0 then m div 8 else m div 8 + 1);
          leadingZeroes = (if r = 0 then 0 else 8 - r)
      in \<lparr>bf_data = replicate (nat byteLen) 0, bf_m = m, bf_lz = leadingZeroes, bf_byteLen = byteLen\<rparr>)"

definition BF_SetBit :: "BF \<Rightarrow> int \<Rightarrow> BF res" where
  "BF_SetBit flt idx =
     rbind (rassert (idx < bf_m flt \<and> idx \<ge> 0)) (\<lambda>_.
     rbind (setBit (bf_data flt) idx (bf_lz flt)) (\<lambda>d. Ok (flt\<lparr>bf_data := d\<rparr>)))"

definition BF_GetBit :: "BF \<Rightarrow> int \<Rightarrow> bool res" where
  "BF_GetBit flt idx =
     rbind (rassert (idx < bf_m flt \<and> idx \<ge> 0)) (\<lambda>_. getBit (bf_data flt) idx (bf_lz flt))"

definition BF_Add :: "(bytes \<Rightarrow> bytes) \<Rightarrow> BF \<Rightarrow> bytes \<Rightarrow> nat \<Rightarrow> RangeHash list \<Rightarrow> nat \<Rightarrow> BF res" where
  "BF_Add sha1 flt item itemLen hashFuncs k =
     rfold (\<lambda>i f. rbind (rd hashFuncs i) (\<lambda>H. rbind (RangeHash_value sha1 H item itemLen) (\<lambda>idx.
       BF_SetBit f idx))) [0..<k] flt"

definition BF_Add_With_Output ::
    "(bytes \<Rightarrow> bytes) \<Rightarrow> BF \<Rightarrow> bytes \<Rightarrow> nat \<Rightarrow> RangeHash list \<Rightarrow> nat \<Rightarrow> int list \<Rightarrow> (BF \<times> int list) res" where
  "BF_Add_With_Output sha1 flt item itemLen hashFuncs k idxOut =
     rfold (\<lambda>i (f, out). rbind (rd hashFuncs i) (\<lambda>H. rbind (RangeHash_value sha1 H item itemLen) (\<lambda>idx.
       rbind (BF_SetBit f idx) (\<lambda>f'. rbind (wr out i idx) (\<lambda>out'. Ok (f', out'))))))
       [0..<k] (flt, idxOut)"

definition BF_AddMT :: "BF \<Rightarrow> int list \<Rightarrow> nat \<Rightarrow> BF res" where
  "BF_AddMT flt idxes k =
     rfold (\<lambda>i f. rbind (rd idxes i) (\<lambda>idx. if idx \<noteq> -1 then BF_SetBit f idx else Ok f)) [0..<k] flt"

definition BF_Query :: "(bytes \<Rightarrow> bytes) \<Rightarrow> BF \<Rightarrow> bytes \<Rightarrow> nat \<Rightarrow> RangeHash list \<Rightarrow> nat \<Rightarrow> bool res" where
  "BF_Query sha1 flt item itemLen hashFuncs k =
     rall (\<lambda>i. rbind (rd hashFuncs i) (\<lambda>H. rbind (RangeHash_value sha1 H item itemLen) (\<lambda>idx.
       BF_GetBit flt idx))) [0..<k]"

section \<open>Sizing\<close>

lemma dbl_ulp_pos: "0 < dbl_ulp p"
  by (induction p rule: dbl_ulp.induct) simp

declare dbl_ulp.simps [simp del]

lemma dbl_ulp_le: "2 ^ 53 \<le> p \<Longrightarrow> dbl_ulp p * 2 ^ 52 \<le> p"
proof (induction p rule: dbl_ulp.induct)
  case (1 p)
  show ?case
  proof (cases "p div 2 < 2 ^ 53")
    case True
    then have "dbl_ulp p = 2" using "1.prems" by (simp add: dbl_ulp.simps [of p] dbl_ulp.simps [of "p div 2"])
    then show ?thesis using "1.prems" by simp
  next
    case False
    then have "dbl_ulp (p div 2) * 2 ^ 52 \<le> p div 2" using 1 by simp
    then show ?thesis using "1.prems" by (simp add: dbl_ulp.simps [of p])
  qed
qed

lemma round_even_ge:
  assumes "0 < u"
  shows "2 * p \<le> 2 * round_even u p + u"
proof -
  define q r where "q = p div u" and "r = p mod u"
  have p: "p = q * u + r" and "r < u" using assms by (simp_all add: q_def r_def)
  moreover have "round_even u p = (if 2 * r < u \<or> 2 * r = u \<and> even q then q * u else q * u + u)"
    by (simp add: round_even_def Let_def q_def r_def)
  ultimately show ?thesis by auto
qed

lemma ceil_log2e_ge: "14427 * x \<le> 10000 * ceil_log2e x"
proof -
  let ?p = "x * log2e_mant" and ?c = "ceil_log2e x"
  define r where "r = round_even (dbl_ulp ?p) ?p"
  have r1: "2 * ?p \<le> 2 * r + dbl_ulp ?p" unfolding r_def by (rule round_even_ge) (rule dbl_ulp_pos)
  have c: "r \<le> 2 ^ 52 * ?c"
  proof -
    have "x \<le> d * ((x + (d - 1)) div d)" if "0 < d" for x d :: nat
    proof -
      have "d * ((x + (d - 1)) div d) + (x + (d - 1)) mod d = x + (d - 1)" by simp
      moreover have "(x + (d - 1)) mod d \<le> d - 1" using that by (simp add: less_Suc_eq_le [symmetric])
      ultimately show ?thesis by linarith
    qed
    from this [of "2 ^ 52" r] have "r \<le> 2 ^ 52 * ((r + (2 ^ 52 - 1)) div 2 ^ 52)" by simp
    then show ?thesis by (simp add: ceil_log2e_def Let_def r_def)
  qed
  have u: "dbl_ulp ?p * 2 ^ 52 \<le> ?p \<or> x = 0 \<or> dbl_ulp ?p = 1"
    using dbl_ulp_le [of ?p] by (cases "2 ^ 53 \<le> ?p") (auto simp: dbl_ulp.simps [of ?p])
  then have u': "2 ^ 51 * dbl_ulp ?p \<le> ?p \<or> x = 0"
    by (cases x) (auto simp: log2e_mant_def)
  then have "2 ^ 51 * (2 * ?p) \<le> 2 ^ 51 * (2 * r) + ?p \<or> x = 0"
  proof -
    have "2 ^ 51 * (2 * P) \<le> 2 ^ 51 * (2 * r) + P" if "2 * P \<le> 2 * r + U" "2 ^ 51 * U \<le> P" for P U r :: nat
      using mult_le_mono2 [OF that(1), of "2 ^ 51"] that(2) by (simp add: distrib_left)
    then show ?thesis using r1 u' by blast
  qed
  then have "14427 * 2 ^ 52 * x \<le> 10000 * r \<or> x = 0"
    by (auto simp: log2e_mant_def)
  then have "14427 * 2 ^ 52 * x \<le> 10000 * (2 ^ 52 * ?c) \<or> x = 0" using c by auto
  then show ?thesis by auto
qed


section \<open>The filter as a set of bits\<close>

definition bf_wf :: "BF \<Rightarrow> bool" where
  "bf_wf f \<longleftrightarrow> 0 \<le> bf_lz f \<and> bf_m f + bf_lz f = 8 * int (length (bf_data f))"

lemma BF_Create_wf: "0 \<le> m \<Longrightarrow> bf_wf (BF_Create m) \<and> bf_m (BF_Create m) = m"
proof -
  assume "0 \<le> m"
  then have "0 \<le> m div 8" by presburger
  moreover have "m - m mod 8 = 8 * (m div 8)" "m mod 8 < 8" "0 \<le> m mod 8"
    by (simp_all add: minus_mod_eq_mult_div)
  ultimately show ?thesis by (auto simp: bf_wf_def BF_Create_def Let_def)
qed

interpretation bf: bit_store BF_SetBit BF_GetBit bf_wf bf_m
proof (unfold_locales, goal_cases)
  case (1 f i)
  have "\<exists>d. setBit (bf_data f) i (bf_lz f) = Ok d \<and> 0 \<le> bf_lz f \<and>
      8 * int (length d) - bf_lz f = 8 * int (length (bf_data f)) - bf_lz f"
    by (rule bitmap.put_ok) (use 1 in \<open>simp_all add: bf_wf_def\<close>)
  then show ?case using 1 by (auto simp: BF_SetBit_def rassert_def bf_wf_def)
next
  case (2 f i f' j)
  then show ?case
    by (auto simp: BF_SetBit_def BF_GetBit_def rassert_def getBit_after_setBit split: if_splits elim!: rbind.elims)
next
  case (3 f i)
  then show ?case using bitmap.get_ok [of "bf_lz f" i "bf_data f"]
    by (auto simp: BF_GetBit_def rassert_def bf_wf_def)
qed

text \<open>The one bits.\<close>

definition bf_set :: "BF \<Rightarrow> int set" where
  "bf_set f = {j. BF_GetBit f j = Ok True}"

lemma BF_GetBit_range: "BF_GetBit f j = Ok b \<Longrightarrow> 0 \<le> j \<and> j < bf_m f"
  by (auto simp: BF_GetBit_def rassert_def split: if_splits)

lemma BF_Create_empty: "0 \<le> m \<Longrightarrow> bf_set (BF_Create m) = {}"
proof -
  assume m: "0 \<le> m"
  have "BF_GetBit (BF_Create m) j \<noteq> Ok True" for j
    by (auto simp: BF_GetBit_def BF_Create_def Let_def getBit_def rdi_def rd_def rassert_def
        res_simps split: if_splits)
  then show ?thesis by (simp add: bf_set_def)
qed

lemma puts_set:
  assumes "bf_wf f" "\<forall>i\<in>set is. 0 \<le> i \<and> i < bf_m f"
  shows "\<exists>f'. rfold (\<lambda>i f. BF_SetBit f i) is f = Ok f' \<and> bf_wf f' \<and> bf_m f' = bf_m f \<and>
    bf_set f' = bf_set f \<union> set is"
  using bf.puts_ok [OF assms] by (auto simp: bf_set_def)

section \<open>Hashing an element to its indexes\<close>

definition hashes_ok :: "(bytes \<Rightarrow> bytes) \<Rightarrow> RangeHash list \<Rightarrow> nat \<Rightarrow> int \<Rightarrow> bool" where
  "hashes_ok sha1 hs k m \<longleftrightarrow> sha1_ok sha1 \<and> length hs = k \<and> 0 < m \<and> m < 2 ^ 31 \<and>
     (\<forall>H\<in>set hs. rh_ok H \<and> rh_m H = m)"

definition indexes_of :: "(bytes \<Rightarrow> bytes) \<Rightarrow> RangeHash list \<Rightarrow> bytes \<Rightarrow> int list" where
  "indexes_of sha1 hs x = map (\<lambda>H. int (rh_index sha1 H x)) hs"

lemma length_indexes_of [simp, len_simps]: "length (indexes_of sha1 hs x) = length hs"
  by (simp add: indexes_of_def)

lemma indexes_range: "hashes_ok sha1 hs k m \<Longrightarrow> i \<in> set (indexes_of sha1 hs x) \<Longrightarrow> 0 \<le> i \<and> i < m"
  using rh_index_less by (auto simp: hashes_ok_def indexes_of_def)

lemma hash_nth:
  assumes "hashes_ok sha1 hs k m" "i < k" "length item = itemLen"
  shows "rbind (rd hs i) (\<lambda>H. rbind (RangeHash_value sha1 H item itemLen) g) = g (indexes_of sha1 hs item ! i)"
proof -
  have "hs ! i \<in> set hs" using assms by (simp add: hashes_ok_def)
  then have "RangeHash_value sha1 (hs ! i) item itemLen = Ok (int (rh_index sha1 (hs ! i) (take itemLen item)))"
    using assms by (intro RangeHash_value_ok) (auto simp: hashes_ok_def)
  then show ?thesis using assms by (simp add: hashes_ok_def indexes_of_def)
qed

lemma rfold_nth: "rfold (\<lambda>i. f (xs ! i)) [0..<length xs] s = rfold f xs s"
proof (induction xs rule: rev_induct)
  case (snoc x xs)
  have "rfold (\<lambda>i. f ((xs @ [x]) ! i)) [0..<length xs] s = rfold (\<lambda>i. f (xs ! i)) [0..<length xs] s"
    by (rule rfold_cong) (simp_all add: nth_append)
  then show ?case using snoc by (simp add: rfold_append)
qed simp

lemma rall_nth: "rall (\<lambda>i. f (xs ! i)) [0..<length xs] = rall f xs"
proof -
  have "rall f (map g is) = rall (\<lambda>i. f (g i)) is" for g and "is" :: "nat list"
    by (induction "is") (auto cong: if_cong)
  from this [of "(!) xs" "[0..<length xs]"] show ?thesis by (simp add: map_nth)
qed

lemma rall_cong: "(\<And>i. i \<in> set is \<Longrightarrow> f i = g i) \<Longrightarrow> rall f is = rall g is"
  by (induction "is") (auto cong: if_cong)

lemma BF_Add_puts:
  assumes "hashes_ok sha1 hs k (bf_m f)" "length item = itemLen"
  shows "BF_Add sha1 f item itemLen hs k = rfold (\<lambda>i f. BF_SetBit f i) (indexes_of sha1 hs item) f"
proof -
  have k: "k = length (indexes_of sha1 hs item)" using assms by (simp add: hashes_ok_def)
  have "BF_Add sha1 f item itemLen hs k = rfold (\<lambda>i f. BF_SetBit f (indexes_of sha1 hs item ! i)) [0..<k] f"
    unfolding BF_Add_def using assms by (intro rfold_cong refl) (simp add: hash_nth)
  then show ?thesis using rfold_nth [of "\<lambda>i f. BF_SetBit f i" "indexes_of sha1 hs item" f] k by simp
qed

lemma BF_Query_get:
  assumes "hashes_ok sha1 hs k (bf_m f)" "length item = itemLen"
  shows "BF_Query sha1 f item itemLen hs k = rall (BF_GetBit f) (indexes_of sha1 hs item)"
proof -
  have k: "k = length (indexes_of sha1 hs item)" using assms by (simp add: hashes_ok_def)
  have "BF_Query sha1 f item itemLen hs k = rall (\<lambda>i. BF_GetBit f (indexes_of sha1 hs item ! i)) [0..<k]"
    unfolding BF_Query_def using assms by (intro rall_cong) (simp add: hash_nth)
  then show ?thesis using rall_nth [of "BF_GetBit f" "indexes_of sha1 hs item"] k by simp
qed

lemma BF_Query_set:
  assumes "bf_wf f" "hashes_ok sha1 hs k (bf_m f)" "length item = itemLen"
  shows "BF_Query sha1 f item itemLen hs k = Ok (set (indexes_of sha1 hs item) \<subseteq> bf_set f)"
proof -
  have "\<forall>i\<in>set (indexes_of sha1 hs item). 0 \<le> i \<and> i < bf_m f"
    using indexes_range [OF assms(2)] by blast
  then show ?thesis
    using bf.query_all [OF assms(1), of "indexes_of sha1 hs item"] BF_Query_get [OF assms(2,3)]
    by (auto simp: bf_set_def)
qed

definition BF_Add_all ::
    "(bytes \<Rightarrow> bytes) \<Rightarrow> BF \<Rightarrow> bytes list \<Rightarrow> nat \<Rightarrow> RangeHash list \<Rightarrow> nat \<Rightarrow> BF res" where
  "BF_Add_all sha1 f items itemLen hs k = rfold (\<lambda>x f. BF_Add sha1 f x itemLen hs k) items f"

lemma BF_Add_all_set:
  assumes "bf_wf f" "hashes_ok sha1 hs k (bf_m f)" "\<forall>x\<in>set items. length x = itemLen"
  shows "\<exists>f'. BF_Add_all sha1 f items itemLen hs k = Ok f' \<and> bf_wf f' \<and> bf_m f' = bf_m f \<and>
    bf_set f' = bf_set f \<union> (\<Union>x\<in>set items. set (indexes_of sha1 hs x))"
  using assms
proof (induction items arbitrary: f)
  case (Cons x items)
  have "\<forall>i\<in>set (indexes_of sha1 hs x). 0 \<le> i \<and> i < bf_m f"
    using indexes_range [OF Cons.prems(2)] by blast
  then obtain g where g: "BF_Add sha1 f x itemLen hs k = Ok g" "bf_wf g" "bf_m g = bf_m f"
    "bf_set g = bf_set f \<union> set (indexes_of sha1 hs x)"
    using puts_set [OF Cons.prems(1)] BF_Add_puts [OF Cons.prems(2)] Cons.prems(3) by force
  obtain f' where "BF_Add_all sha1 g items itemLen hs k = Ok f'" "bf_wf f'" "bf_m f' = bf_m g"
    "bf_set f' = bf_set g \<union> (\<Union>x\<in>set items. set (indexes_of sha1 hs x))"
    using Cons.IH [of g] g Cons.prems by force
  then show ?case using g by (auto simp: BF_Add_all_def)
qed (simp add: BF_Add_all_def)

text \<open>
  C6: a filter created empty and filled with a list of items answers a query for \<open>x\<close>
  with 1 exactly when every index of \<open>x\<close> is an index of some inserted item; so it
  has no false negatives.
\<close>

theorem BF_query_characterised:
  assumes "hashes_ok sha1 hs k m" "\<forall>y\<in>set items. length y = itemLen" "length x = itemLen"
  shows "\<exists>f. BF_Add_all sha1 (BF_Create m) items itemLen hs k = Ok f \<and>
    BF_Query sha1 f x itemLen hs k
      = Ok (\<forall>i\<in>set (indexes_of sha1 hs x). \<exists>y\<in>set items. i \<in> set (indexes_of sha1 hs y)) \<and>
    (x \<in> set items \<longrightarrow> BF_Query sha1 f x itemLen hs k = Ok True)"
proof -
  have m: "0 \<le> m" using assms(1) by (simp add: hashes_ok_def)
  have c: "bf_wf (BF_Create m)" "bf_m (BF_Create m) = m" using BF_Create_wf [OF m] by simp_all
  obtain f where f: "BF_Add_all sha1 (BF_Create m) items itemLen hs k = Ok f" "bf_wf f" "bf_m f = m"
    "bf_set f = (\<Union>y\<in>set items. set (indexes_of sha1 hs y))"
    using BF_Add_all_set [OF c(1), of sha1 hs k items itemLen] c assms BF_Create_empty [OF m] by auto
  then have q: "BF_Query sha1 f x itemLen hs k = Ok (set (indexes_of sha1 hs x) \<subseteq> bf_set f)"
    using assms by (intro BF_Query_set) simp_all
  show ?thesis
    by (rule exI [of _ f]) (auto simp: q f(1,4))
qed

text \<open>Two hash functions over a filter of eight bits, for the witnesses.\<close>

definition toy_hashes :: "RangeHash list" where
  "toy_hashes = map (\<lambda>n. \<lparr>rh_key = replicate n 0, rh_keyLen = n, rh_dataBuf = replicate 64 0, rh_m = 8\<rparr>) [1, 2]"

lemma toy_hashes_ok: "hashes_ok toy_sha1 toy_hashes 2 8"
  by (simp add: hashes_ok_def toy_hashes_def toy_sha1_ok rh_ok_def RangeHash_DataBufLen_def)

theorem BF_query_characterised_witness:
  "\<exists>f. BF_Add_all toy_sha1 (BF_Create 8) [[1, 2, 3, 4], [5, 6, 7, 8]] 4 toy_hashes 2 = Ok f \<and>
    BF_Query toy_sha1 f [5, 6, 7, 8] 4 toy_hashes 2 = Ok True"
  using BF_query_characterised [OF toy_hashes_ok, of "[[1, 2, 3, 4], [5, 6, 7, 8]]" 4 "[5, 6, 7, 8]"] by auto

end
