(* ===== verification/GarbledBF.thy ===== *)
theory GarbledBF
  imports BloomFilter
begin

text \<open>
  The garbled Bloom filter of \<open>PSI_C_0.1/PSI/headers/GarbledBF.h\<close>, \<open>PSI/GarbledBF.cpp\<close> and
  \<open>Source Files/GarbledBloomFilter.cpp\<close>: an array of \<open>m\<close> slots of \<open>sigma\<close> bytes in which
  the XOR of the distinct slots of an element is the value stored for it.  The theory
  shows that insertion stores the value and keeps every value stored before, when it
  fails, and that the query recovers the stored value.
\<close>

section \<open>State\<close>

record GarbledBF =
  gbf_data :: bytes
  gbf_bf :: bytes
  gbf_m :: int
  gbf_k :: nat
  gbf_indexes :: "int list"
  gbf_sigma :: nat

definition GBFSigmaByteLen :: nat where "GBFSigmaByteLen = 10"

text \<open>\<open>index*filter->m_GBFSigmaByteLen\<close> is an unsigned 32-bit product.\<close>

definition slot_off :: "GarbledBF \<Rightarrow> int \<Rightarrow> nat" where
  "slot_off f index = nat ((index * int (gbf_sigma f)) mod 2 ^ 32)"

definition GBF_Create :: "BFParameters \<Rightarrow> nat \<Rightarrow> bytes option \<Rightarrow> GarbledBF res" where
  "GBF_Create bfParam maskSize random =
     (let size = nat (par_m bfParam) * maskSize; data = replicate size 0 in
      rbind (case random of None \<Rightarrow> Ok data | Some r \<Rightarrow> rbind (rd_blk r 0 size) (wr_blk data 0)) (\<lambda>data.
      Ok \<lparr>gbf_data = data, gbf_bf = replicate (nat (par_m bfParam)) 0, gbf_m = par_m bfParam,
          gbf_k = nat (par_k bfParam), gbf_indexes = replicate (nat (par_k bfParam)) 0, gbf_sigma = maskSize\<rparr>))"

definition GBF_get :: "GarbledBF \<Rightarrow> nat \<Rightarrow> bytes res" where
  "GBF_get f i = rbind (rassert (int i < gbf_m f)) (\<lambda>_. rd_blk (gbf_data f) (slot_off f (int i)) (gbf_sigma f))"

definition GBF_set :: "GarbledBF \<Rightarrow> nat \<Rightarrow> bytes \<Rightarrow> GarbledBF res" where
  "GBF_set f i entry = rbind (rassert (int i < gbf_m f)) (\<lambda>_.
     rbind (rd_blk entry 0 (gbf_sigma f)) (\<lambda>e.
     rbind (wr_blk (gbf_data f) (slot_off f (int i)) e) (\<lambda>d. Ok (f\<lparr>gbf_data := d\<rparr>))))"

section \<open>Insertion\<close>

text \<open>\<open>xorByteArray(acc, &filter->data[index*sigma], sigma)\<close>\<close>

definition xor_slot :: "GarbledBF \<Rightarrow> int \<Rightarrow> bytes \<Rightarrow> bytes res" where
  "xor_slot f index acc = xorByteArray acc (drop (slot_off f index) (gbf_data f)) (gbf_sigma f)"

text \<open>One round of the loop, for the index that the \<open>i\<close>-th hash returned.\<close>

definition GBF_add_step ::
    "nat \<Rightarrow> int \<Rightarrow> GarbledBF \<times> bytes \<times> int \<Rightarrow> (GarbledBF \<times> bytes \<times> int) res" where
  "GBF_add_step i index = (\<lambda>(f, finalShare, emptySlot).
     rbind (wr (gbf_indexes f) i index) (\<lambda>indHis.
     let f = f\<lparr>gbf_indexes := indHis\<rparr> in
     rbind (exists_idx index indHis i) (\<lambda>e.
     if e then Ok (f, finalShare, emptySlot)
     else rbind (rdi (gbf_bf f) index) (\<lambda>b.
       if b = 0 then
         if emptySlot = -1 then Ok (f, finalShare, index)
         else rbind (xor_slot f index finalShare) (\<lambda>share.
              rbind (wri (gbf_bf f) index 1) (\<lambda>bf'.
              Ok (f\<lparr>gbf_bf := bf'\<rparr>, share, emptySlot)))
       else rbind (xor_slot f index finalShare) (\<lambda>share. Ok (f, share, emptySlot))))))"

definition GBF_add ::
    "(bytes \<Rightarrow> bytes) \<Rightarrow> GarbledBF \<Rightarrow> RangeHash list \<Rightarrow> nat \<Rightarrow> bytes \<Rightarrow> nat \<Rightarrow> bytes \<Rightarrow> GarbledBF res" where
  "GBF_add sha1 flt hashes hashNum element eLen ehash =
     rbind (rassert (gbf_k flt = hashNum)) (\<lambda>_.
     rbind (rd_blk ehash 0 (gbf_sigma flt)) (\<lambda>finalShare.
     rbind (rfold (\<lambda>i s. rbind (rd hashes i) (\<lambda>H. rbind (RangeHash_value sha1 H element eLen) (\<lambda>index.
              GBF_add_step i index s))) [0..<hashNum] (flt, finalShare, -1)) (\<lambda>(f, finalShare, emptySlot).
     rbind (wr_blk (gbf_data f) (slot_off f emptySlot) finalShare) (\<lambda>d.
     rbind (wri (gbf_bf f) emptySlot 1) (\<lambda>bf'.
     Ok (f\<lparr>gbf_data := d, gbf_bf := bf'\<rparr>))))))"

section \<open>Query\<close>

definition GBF_query_step ::
    "nat \<Rightarrow> int \<Rightarrow> GarbledBF \<times> bytes \<Rightarrow> (GarbledBF \<times> bytes) res" where
  "GBF_query_step i index = (\<lambda>(f, recovered).
     rbind (wr (gbf_indexes f) i index) (\<lambda>indexes.
     let f = f\<lparr>gbf_indexes := indexes\<rparr> in
     rbind (exists_idx index indexes i) (\<lambda>e.
     if e then Ok (f, recovered) else rbind (xor_slot f index recovered) (\<lambda>r. Ok (f, r)))))"

definition GBF_recover ::
    "(bytes \<Rightarrow> bytes) \<Rightarrow> GarbledBF \<Rightarrow> RangeHash list \<Rightarrow> nat \<Rightarrow> bytes \<Rightarrow> nat \<Rightarrow> bytes \<Rightarrow> (GarbledBF \<times> bytes) res" where
  "GBF_recover sha1 flt hashes hashNum element eLen recovered =
     rfold (\<lambda>i s. rbind (rd hashes i) (\<lambda>H. rbind (RangeHash_value sha1 H element eLen) (\<lambda>index.
       GBF_query_step i index s))) [0..<hashNum] (flt, recovered)"

text \<open>The \<open>recovered\<close> buffer on the stack has \<open>GBFSigmaByteLen\<close> bytes.\<close>

definition GBF_query ::
    "(bytes \<Rightarrow> bytes) \<Rightarrow> GarbledBF \<Rightarrow> RangeHash list \<Rightarrow> nat \<Rightarrow> bytes \<Rightarrow> nat \<Rightarrow> bytes \<Rightarrow> (bool \<times> GarbledBF) res" where
  "GBF_query sha1 flt hashes hashNum element eLen ehash =
     rbind (rassert (hashNum = gbf_k flt)) (\<lambda>_.
     rbind (GBF_recover sha1 flt hashes hashNum element eLen (replicate GBFSigmaByteLen 0)) (\<lambda>(f, recovered).
     rbind (compareByteArray recovered ehash (gbf_sigma flt)) (\<lambda>b. Ok (b, f))))"

definition GBF_query_With_Indexes :: "GarbledBF \<Rightarrow> int list \<Rightarrow> nat \<Rightarrow> bytes \<Rightarrow> bool res" where
  "GBF_query_With_Indexes flt indexes hashNum ehash =
     rbind (rfold (\<lambda>i r. rbind (rd indexes i) (\<lambda>index.
              if index \<ge> 0 then xor_slot flt index r else Ok r))
              [0..<hashNum] (replicate (gbf_sigma flt) 0)) (\<lambda>recovered.
     compareByteArray recovered ehash (gbf_sigma flt))"

text \<open>
  \<open>GBFLeader::GBF_query\<close>: the same loop over an index array of the thread, returning
  the recovered mask instead of comparing it.
\<close>

definition GBFLeader_GBF_query ::
    "(bytes \<Rightarrow> bytes) \<Rightarrow> GarbledBF \<Rightarrow> RangeHash list \<Rightarrow> nat \<Rightarrow> bytes \<Rightarrow> nat \<Rightarrow> nat \<Rightarrow> int list \<Rightarrow> (bytes \<times> int list) res" where
  "GBFLeader_GBF_query sha1 flt hashes k element eLen maskSize indexes =
     rbind (GBF_recover sha1 (flt\<lparr>gbf_indexes := indexes\<rparr>) hashes k element eLen (replicate maskSize 0))
       (\<lambda>(f, recovered). Ok (recovered, gbf_indexes f))"

section \<open>The variants for several threads\<close>

text \<open>
  As written, these functions test \<open>filter->data[index] == NULL\<close>, which for the byte array
  \<open>data\<close> asks whether its byte at offset \<open>index\<close> is zero.
\<close>

definition GBF_addMT_step ::
    "int \<Rightarrow> GarbledBF \<times> bytes \<times> int \<times> RandomSource \<Rightarrow> (GarbledBF \<times> bytes \<times> int \<times> RandomSource) res" where
  "GBF_addMT_step index = (\<lambda>(f, finalShare, emptySlot, rnd).
     if index \<ge> 0 then
       rbind (rdi (gbf_data f) index) (\<lambda>b.
       if b = 0 then
         if emptySlot = -1 then Ok (f, finalShare, index, rnd)
         else rbind (case RandomSource_Take rnd of None \<Rightarrow> Err WouldBlock | Some r \<Rightarrow> r) (\<lambda>(block, rnd').
              rbind (rd_blk block 0 (gbf_sigma f)) (\<lambda>x.
              rbind (wr_blk (gbf_data f) (slot_off f index) x) (\<lambda>d.
              let f' = f\<lparr>gbf_data := d\<rparr> in
              rbind (xor_slot f' index finalShare) (\<lambda>share. Ok (f', share, emptySlot, rnd')))))
       else rbind (xor_slot f index finalShare) (\<lambda>share. Ok (f, share, emptySlot, rnd)))
     else Ok (f, finalShare, emptySlot, rnd))"

definition GBF_addMT ::
    "GarbledBF \<Rightarrow> int list \<Rightarrow> nat \<Rightarrow> bytes \<Rightarrow> RandomSource \<Rightarrow> (GarbledBF \<times> RandomSource) res" where
  "GBF_addMT flt indexes hashNum ehash rndSrc =
     rbind (rassert (hashNum = gbf_k flt)) (\<lambda>_.
     rbind (rd_blk ehash 0 (gbf_sigma flt)) (\<lambda>finalShare.
     rbind (rfold (\<lambda>i s. rbind (rd indexes i) (\<lambda>index. GBF_addMT_step index s)) [0..<hashNum]
              (flt, finalShare, -1, rndSrc)) (\<lambda>(f, finalShare, emptySlot, rnd).
     rbind (wr_blk (gbf_data f) (slot_off f emptySlot) finalShare) (\<lambda>d.
     Ok (f\<lparr>gbf_data := d\<rparr>, rnd)))))"

definition GBF_doFinal ::
    "(bytes \<Rightarrow> nat \<Rightarrow> u8) \<Rightarrow> GarbledBF \<Rightarrow> AESRandom \<Rightarrow> (GarbledBF \<times> AESRandom) res" where
  "GBF_doFinal ks flt rnd =
     rfold (\<lambda>i (f, rnd). rbind (rd (gbf_data f) i) (\<lambda>b.
       if b = 0 then
         rbind (rd_blk (gbf_data f) (slot_off f (int i)) (gbf_sigma f)) (\<lambda>x.
         rbind (AESRandom_NextBytes ks rnd x (gbf_sigma f)) (\<lambda>(y, rnd').
         rbind (wr_blk (gbf_data f) (slot_off f (int i)) y) (\<lambda>d. Ok (f\<lparr>gbf_data := d\<rparr>, rnd'))))
       else Ok (f, rnd))) [0..<nat (gbf_m flt)] (flt, rnd)"

definition GBF_doFinalMT :: "GarbledBF \<Rightarrow> RandomSource \<Rightarrow> (GarbledBF \<times> RandomSource) res" where
  "GBF_doFinalMT flt rnd =
     rfold (\<lambda>i (f, rnd). rbind (rd (gbf_data f) i) (\<lambda>b.
       if b = 0 then
         rbind (case RandomSource_Take rnd of None \<Rightarrow> Err WouldBlock | Some r \<Rightarrow> r) (\<lambda>(block, rnd').
         rbind (rd_blk block 0 (gbf_sigma f)) (\<lambda>x.
         rbind (wr_blk (gbf_data f) (slot_off f (int i)) x) (\<lambda>d. Ok (f\<lparr>gbf_data := d\<rparr>, rnd'))))
       else Ok (f, rnd))) [0..<nat (gbf_m flt)] (flt, rnd)"

section \<open>Slots\<close>

definition gbf_wf :: "GarbledBF \<Rightarrow> bool" where
  "gbf_wf f \<longleftrightarrow> 0 \<le> gbf_m f \<and> length (gbf_data f) = nat (gbf_m f) * gbf_sigma f \<and>
     length (gbf_bf f) = nat (gbf_m f) \<and> length (gbf_indexes f) = gbf_k f \<and>
     nat (gbf_m f) * gbf_sigma f < 2 ^ 32"

definition slot :: "GarbledBF \<Rightarrow> int \<Rightarrow> bytes" where
  "slot f j = take (gbf_sigma f) (drop (nat j * gbf_sigma f) (gbf_data f))"

definition occupied :: "GarbledBF \<Rightarrow> int \<Rightarrow> bool" where
  "occupied f j \<longleftrightarrow> gbf_bf f ! nat j \<noteq> 0"

lemma slot_fits:
  assumes "gbf_wf f" "0 \<le> j" "j < gbf_m f"
  shows "nat j * gbf_sigma f + gbf_sigma f \<le> length (gbf_data f)"
proof -
  have "Suc (nat j) * gbf_sigma f \<le> nat (gbf_m f) * gbf_sigma f" using assms by (intro mult_le_mono1) simp
  then show ?thesis using assms by (simp add: gbf_wf_def)
qed

lemma slot_off_in: "gbf_wf f \<Longrightarrow> 0 \<le> j \<Longrightarrow> j < gbf_m f \<Longrightarrow> slot_off f j = nat j * gbf_sigma f"
proof -
  assume a: "gbf_wf f" "0 \<le> j" "j < gbf_m f"
  have "nat j * gbf_sigma f < 2 ^ 32" using slot_fits [OF a] a(1) by (simp add: gbf_wf_def)
  then have "int (nat j * gbf_sigma f) < int (2 ^ 32)" by (simp only: of_nat_less_iff)
  then have "j * int (gbf_sigma f) < 2 ^ 32" using a(2) by simp
  then show ?thesis using a(2) by (simp add: slot_off_def nat_mult_distrib)
qed

lemma length_slot: "gbf_wf f \<Longrightarrow> 0 \<le> j \<Longrightarrow> j < gbf_m f \<Longrightarrow> length (slot f j) = gbf_sigma f"
  using slot_fits [of f j] by (simp add: slot_def)

lemma xor_slot_ok:
  assumes "gbf_wf f" "0 \<le> j" "j < gbf_m f" "length acc = gbf_sigma f"
  shows "xor_slot f j acc = Ok (bxor acc (slot f j))"
  using slot_fits [OF assms(1-3)] slot_off_in [OF assms(1-3)] assms(4)
  by (simp add: xor_slot_def xorByteArray_ok slot_def)

lemma exists_idx_prefix:
  assumes "i \<le> length xs" "take i xs = ys"
  shows "exists_idx x xs i = Ok (x \<in> set ys)"
proof -
  have "exists_idx x xs i = Ok (\<exists>j\<in>set [0..<i]. xs ! j = x)"
    unfolding exists_idx_def using assms by (intro rany_Ok) auto
  moreover have "(\<exists>j<i. xs ! j = x) \<longleftrightarrow> x \<in> set ys"
    using assms by (auto simp: in_set_conv_nth)
  ultimately show ?thesis by auto
qed

lemma hash_rfold:
  assumes "hashes_ok sha1 hs k m" "length item = itemLen"
  shows "rfold (\<lambda>i s. rbind (rd hs i) (\<lambda>H. rbind (RangeHash_value sha1 H item itemLen) (\<lambda>idx. f i idx s))) [0..<k] s
       = rfold (\<lambda>i. f i (indexes_of sha1 hs item ! i)) [0..<k] s"
  using assms by (intro rfold_cong refl) (simp add: hash_nth)

section \<open>Recovery\<close>

text \<open>The XOR of the distinct slots of an index list.\<close>

definition gbf_value :: "GarbledBF \<Rightarrow> int list \<Rightarrow> bytes" where
  "gbf_value f idx = bxors (replicate (gbf_sigma f) 0) (map (slot f) (firsts idx))"

lemma gbf_wf_indexes [simp]: "length xs = gbf_k f \<Longrightarrow> gbf_wf f \<Longrightarrow> gbf_wf (f\<lparr>gbf_indexes := xs\<rparr>)"
  by (simp add: gbf_wf_def)

lemma slot_cong:
  "gbf_data f = gbf_data g \<Longrightarrow> gbf_sigma f = gbf_sigma g \<Longrightarrow> slot f = slot g"
  by (rule ext) (simp add: slot_def)

lemma query_loop:
  assumes wf: "gbf_wf f" and k: "length idx = gbf_k f" and r: "\<forall>j\<in>set idx. 0 \<le> j \<and> j < gbf_m f"
  shows "rfold (\<lambda>i. GBF_query_step i (idx ! i)) [0..<gbf_k f] (f, replicate (gbf_sigma f) 0)
       = Ok (f\<lparr>gbf_indexes := idx\<rparr>, gbf_value f idx)"
proof -
  let ?P = "\<lambda>i s. s = (f\<lparr>gbf_indexes := take i idx @ drop i (gbf_indexes f)\<rparr>, gbf_value f (take i idx))"
  have lenI: "length (gbf_indexes f) = gbf_k f" using wf by (simp add: gbf_wf_def)
  have lenv: "length (gbf_value f xs) = gbf_sigma f" if "\<forall>j\<in>set xs. 0 \<le> j \<and> j < gbf_m f" for xs
    unfolding gbf_value_def using that wf by (subst bxors_length) (simp_all add: length_slot)
  have "\<exists>s'. rfold (\<lambda>i. GBF_query_step i (idx ! i)) [0..<gbf_k f] (f, replicate (gbf_sigma f) 0) = Ok s' \<and> ?P (gbf_k f) s'"
  proof (rule rfold_upt_inv)
    fix i s assume i: "0 \<le> i" "i < gbf_k f" and P: "?P i s"
    let ?f = "f\<lparr>gbf_indexes := take (Suc i) idx @ drop (Suc i) (gbf_indexes f)\<rparr>"
    have upd: "(take i idx @ drop i (gbf_indexes f))[i := idx ! i] = take (Suc i) idx @ drop (Suc i) (gbf_indexes f)"
      using i k lenI by (simp add: take_Suc_conv_app_nth list_update_append Cons_nth_drop_Suc [symmetric])
    have rng: "0 \<le> idx ! i" "idx ! i < gbf_m f" "\<forall>j\<in>set (take i idx). 0 \<le> j \<and> j < gbf_m f"
      using r i k by (auto dest: in_set_takeD)
    have ex: "exists_idx (idx ! i) (take (Suc i) idx @ drop (Suc i) (gbf_indexes f)) i = Ok (idx ! i \<in> set (take i idx))"
      using i k lenI by (intro exists_idx_prefix) auto
    have "slot ?f = slot f" by (rule slot_cong) simp_all
    then have "xor_slot ?f (idx ! i) (gbf_value f (take i idx)) = Ok (bxor (gbf_value f (take i idx)) (slot f (idx ! i)))"
      using wf rng i k lenI lenv [of "take i idx"] by (subst xor_slot_ok) simp_all
    then show "\<exists>s'. GBF_query_step i (idx ! i) s = Ok s' \<and> ?P (Suc i) s'"
      using i k lenI ex P upd
      by (auto simp: GBF_query_step_def take_Suc_conv_app_nth firsts_snoc gbf_value_def)
  qed (simp_all add: gbf_value_def)
  then show ?thesis using k lenI by simp
qed

section \<open>The insertion loop\<close>

text \<open>The distinct free slots of an index list, in the order of their first occurrence.\<close>

definition free_slots :: "GarbledBF \<Rightarrow> int list \<Rightarrow> int list" where
  "free_slots f idx = filter (\<lambda>j. \<not> occupied f j) (firsts idx)"

definition first_free :: "GarbledBF \<Rightarrow> int list \<Rightarrow> int" where
  "first_free f idx = (case free_slots f idx of [] \<Rightarrow> -1 | e # _ \<Rightarrow> e)"

text \<open>The state after the rounds of the indexes \<open>idx\<close>.\<close>

definition add_inv :: "GarbledBF \<Rightarrow> bytes \<Rightarrow> int list \<Rightarrow> GarbledBF \<times> bytes \<times> int \<Rightarrow> bool" where
  "add_inv f0 v idx = (\<lambda>(f, share, e).
     \<exists>bf'. f = f0\<lparr>gbf_indexes := idx @ drop (length idx) (gbf_indexes f0), gbf_bf := bf'\<rparr> \<and>
       length bf' = length (gbf_bf f0) \<and>
       (\<forall>j. 0 \<le> j \<longrightarrow> j < gbf_m f0 \<longrightarrow>
          (bf' ! nat j \<noteq> 0) = (occupied f0 j \<or> j \<in> set (tl (free_slots f0 idx)))) \<and>
       e = first_free f0 idx \<and>
       share = bxors v (map (slot f0) (filter (\<lambda>j. j \<noteq> e) (firsts idx))))"

lemma free_slots_snoc:
  "free_slots f (idx @ [x]) =
     (if x \<in> set idx \<or> occupied f x then free_slots f idx else free_slots f idx @ [x])"
  by (simp add: free_slots_def firsts_snoc)

lemma set_free_slots [simp]: "set (free_slots f idx) = {j \<in> set idx. \<not> occupied f j}"
  by (auto simp: free_slots_def)

lemma first_free_in: "first_free f idx \<noteq> -1 \<Longrightarrow> first_free f idx \<in> set idx \<and> \<not> occupied f (first_free f idx)"
proof -
  assume "first_free f idx \<noteq> -1"
  then obtain e es where e: "free_slots f idx = e # es" "first_free f idx = e"
    by (auto simp: first_free_def split: list.splits)
  then have "e \<in> set (free_slots f idx)" by simp
  then show ?thesis using e(2) by (simp only: set_free_slots mem_Collect_eq) simp
qed

lemma first_free_snoc:
  "first_free f (idx @ [x]) =
     (if free_slots f idx = [] \<and> \<not> occupied f x \<and> x \<notin> set idx then x else first_free f idx)"
  by (auto simp: first_free_def free_slots_snoc split: list.splits)

lemma first_free_empty:
  "\<forall>j\<in>set idx. 0 \<le> j \<Longrightarrow> first_free f idx = -1 \<longleftrightarrow> free_slots f idx = []"
proof -
  assume r: "\<forall>j\<in>set idx. 0 \<le> j"
  show ?thesis
  proof (cases "free_slots f idx")
    case (Cons e es)
    then have "e \<in> set (free_slots f idx)" by simp
    then have "e \<in> set idx" by (simp only: set_free_slots mem_Collect_eq)
    then show ?thesis using r Cons by (auto simp: first_free_def)
  qed (simp add: first_free_def)
qed

lemma filter_neq_id: "x \<notin> set xs \<Longrightarrow> filter (\<lambda>j. j \<noteq> x) xs = xs"
  by (induction xs) auto

lemma gbf_commute: "f\<lparr>gbf_bf := b, gbf_indexes := i\<rparr> = f\<lparr>gbf_indexes := i, gbf_bf := b\<rparr>"
  by simp

lemma add_step:
  assumes wf: "gbf_wf f0" and k: "length idx < gbf_k f0" and lv: "length v = gbf_sigma f0"
    and r: "\<forall>j\<in>set (idx @ [x]). 0 \<le> j \<and> j < gbf_m f0" and inv: "add_inv f0 v idx s"
  shows "\<exists>s'. GBF_add_step (length idx) x s = Ok s' \<and> add_inv f0 v (idx @ [x]) s'"
proof -
  let ?i = "length idx"
  let ?I = "(idx @ [x]) @ drop (Suc ?i) (gbf_indexes f0)"
  obtain bf' where
    s: "s = (f0\<lparr>gbf_indexes := idx @ drop ?i (gbf_indexes f0), gbf_bf := bf'\<rparr>,
        bxors v (map (slot f0) (filter (\<lambda>j. j \<noteq> first_free f0 idx) (firsts idx))), first_free f0 idx)"
    and bl: "length bf' = length (gbf_bf f0)"
    and b: "\<And>j. 0 \<le> j \<Longrightarrow> j < gbf_m f0 \<Longrightarrow> (bf' ! nat j \<noteq> 0) = (occupied f0 j \<or> j \<in> set (tl (free_slots f0 idx)))"
    using inv unfolding add_inv_def by (cases s) auto
  let ?share = "bxors v (map (slot f0) (filter (\<lambda>j. j \<noteq> first_free f0 idx) (firsts idx)))"
  let ?f = "f0\<lparr>gbf_indexes := ?I, gbf_bf := bf'\<rparr>"
  have lenI: "length (gbf_indexes f0) = gbf_k f0" using wf by (simp add: gbf_wf_def)
  have upd: "wr (idx @ drop ?i (gbf_indexes f0)) ?i x = Ok ?I"
    using k lenI by (simp add: list_update_append Cons_nth_drop_Suc [symmetric])
  have ex: "exists_idx x ?I ?i = Ok (x \<in> set idx)"
    using k lenI by (intro exists_idx_prefix) auto
  have x: "0 \<le> x" "x < gbf_m f0" using r by auto
  then have bfi: "rdi bf' x = Ok (bf' ! nat x)" "nat x < length bf'"
    using wf bl by (simp_all add: gbf_wf_def)
  have lsh: "length ?share = gbf_sigma f0"
    using r wf lv by (subst bxors_length) (auto simp: length_slot)
  have "slot ?f = slot f0" by (rule slot_cong) simp_all
  then have xs: "xor_slot ?f x ?share = Ok (bxor ?share (slot f0 x))"
    using wf x lsh bl k lenI by (subst xor_slot_ok) (simp_all add: gbf_wf_def)
  have "set (tl (free_slots f0 idx)) \<subseteq> set (free_slots f0 idx)" by (cases "free_slots f0 idx") auto
  then have tl_sub: "set (tl (free_slots f0 idx)) \<subseteq> set idx" by auto
  consider (seen) "x \<in> set idx" | (occ) "x \<notin> set idx" "occupied f0 x"
    | (first) "x \<notin> set idx" "\<not> occupied f0 x" "free_slots f0 idx = []"
    | (other) "x \<notin> set idx" "\<not> occupied f0 x" "free_slots f0 idx \<noteq> []" by blast
  then show ?thesis
  proof cases
    case seen
    then have "GBF_add_step ?i x s = Ok (?f, ?share, first_free f0 idx)"
      using upd ex unfolding s by (simp add: GBF_add_step_def)
    moreover have "add_inv f0 v (idx @ [x]) (?f, ?share, first_free f0 idx)"
      using seen bl b by (auto simp: add_inv_def first_free_snoc free_slots_snoc firsts_snoc)
    ultimately show ?thesis by blast
  next
    case occ
    have "first_free f0 idx \<noteq> x" using first_free_in [of f0 idx] occ x by force
    then have "add_inv f0 v (idx @ [x]) (?f, bxor ?share (slot f0 x), first_free f0 idx)"
      using occ bl b by (auto simp: add_inv_def first_free_snoc free_slots_snoc firsts_snoc)
    moreover have "GBF_add_step ?i x s = Ok (?f, bxor ?share (slot f0 x), first_free f0 idx)"
      using upd ex occ bfi xs b [OF x] unfolding s by (simp add: GBF_add_step_def Let_def gbf_commute)
    ultimately show ?thesis by blast
  next
    case first
    then have e: "first_free f0 idx = -1" by (simp add: first_free_def)
    have zero: "bf' ! nat x = 0" using b [OF x] first by auto
    have "filter (\<lambda>j. j \<noteq> -1) (firsts idx) = firsts idx" using r by (intro filter_neq_id) auto
    moreover have "filter (\<lambda>j. j \<noteq> x) (firsts idx) = firsts idx" using first by (intro filter_neq_id) simp
    ultimately have "add_inv f0 v (idx @ [x]) (?f, ?share, x)"
      using first bl b e by (auto simp: add_inv_def first_free_snoc free_slots_snoc firsts_snoc)
    moreover have "GBF_add_step ?i x s = Ok (?f, ?share, x)"
      using upd ex first bfi zero e unfolding s by (simp add: GBF_add_step_def)
    ultimately show ?thesis by blast
  next
    case other
    have e: "first_free f0 idx \<noteq> -1" using other r first_free_empty [of idx f0] by auto
    have zero: "bf' ! nat x = 0" using b [OF x] other tl_sub by auto
    have ne: "first_free f0 idx \<noteq> x" using first_free_in [OF e] other by auto
    let ?g = "f0\<lparr>gbf_indexes := ?I, gbf_bf := bf'[nat x := 1]\<rparr>"
    have "GBF_add_step ?i x s = Ok (?g, bxor ?share (slot f0 x), first_free f0 idx)"
      using upd ex other bfi zero e xs x bl wf unfolding s
      by (simp add: GBF_add_step_def gbf_wf_def Let_def gbf_commute)
    moreover have bx: "(bf'[nat x := 1] ! nat j = 0) = (\<not> (occupied f0 j \<or> j = x \<or> j \<in> set (tl (free_slots f0 idx))))"
      if "0 \<le> j" "j < gbf_m f0" for j
      using b [OF that] bfi(2) x(1) that(1) by (cases "j = x") (auto simp: nth_list_update eq_nat_nat_iff)
    have "add_inv f0 v (idx @ [x]) (?g, bxor ?share (slot f0 x), first_free f0 idx)"
      using other bl ne
      by (auto simp: add_inv_def first_free_snoc free_slots_snoc firsts_snoc bx
          intro!: exI [of _ "bf'[nat x := 1]"])
    ultimately show ?thesis by blast
  qed
qed

lemma add_loop:
  assumes wf: "gbf_wf f0" and k: "length idx = gbf_k f0" and lv: "length v = gbf_sigma f0"
    and r: "\<forall>j\<in>set idx. 0 \<le> j \<and> j < gbf_m f0"
  shows "\<exists>s'. rfold (\<lambda>i. GBF_add_step i (idx ! i)) [0..<gbf_k f0] (f0, v, -1) = Ok s' \<and> add_inv f0 v idx s'"
proof -
  have "\<exists>s'. rfold (\<lambda>i. GBF_add_step i (idx ! i)) [0..<gbf_k f0] (f0, v, -1) = Ok s' \<and>
      add_inv f0 v (take (gbf_k f0) idx) s'"
  proof (rule rfold_upt_inv)
    show "add_inv f0 v (take 0 idx) (f0, v, -1)"
      by (auto simp: add_inv_def first_free_def free_slots_def occupied_def intro!: exI [of _ "gbf_bf f0"])
  next
    fix i s assume i: "0 \<le> i" "i < gbf_k f0" and P: "add_inv f0 v (take i idx) s"
    have t: "take (Suc i) idx = take i idx @ [idx ! i]" and l: "length (take i idx) = i"
      using i k by (simp_all add: take_Suc_conv_app_nth)
    have "\<forall>j\<in>set (take i idx @ [idx ! i]). 0 \<le> j \<and> j < gbf_m f0"
      using r i k unfolding t [symmetric] by (auto dest: in_set_takeD)
    then show "\<exists>s'. GBF_add_step i (idx ! i) s = Ok s' \<and> add_inv f0 v (take (Suc i) idx) s'"
      using add_step [OF wf _ lv _ P, of "idx ! i"] i k l unfolding t by simp
  qed simp
  then show ?thesis using k by simp
qed

section \<open>Insertion stores the value and keeps the others\<close>

text \<open>\<open>v\<close> is stored for the indexes \<open>idx\<close>: all its slots are taken and XOR to \<open>v\<close>.\<close>

definition gbf_holds :: "GarbledBF \<Rightarrow> int list \<Rightarrow> bytes \<Rightarrow> bool" where
  "gbf_holds f idx v \<longleftrightarrow> (\<forall>j\<in>set idx. 0 \<le> j \<and> j < gbf_m f \<and> occupied f j) \<and> gbf_value f idx = v"

definition gbf_same :: "GarbledBF \<Rightarrow> GarbledBF \<Rightarrow> bool" where
  "gbf_same f f' \<longleftrightarrow> gbf_m f' = gbf_m f \<and> gbf_k f' = gbf_k f \<and> gbf_sigma f' = gbf_sigma f"

lemma slot_write:
  assumes wf: "gbf_wf f" and e: "0 \<le> e" "e < gbf_m f" and l: "length v = gbf_sigma f"
    and j: "0 \<le> j" "j < gbf_m f"
  shows "slot (f\<lparr>gbf_data := blit (gbf_data f) (slot_off f e) v\<rparr>) j = (if j = e then v else slot f j)"
proof (cases "j = e")
  case True
  then show ?thesis using slot_fits [OF wf e] slot_off_in [OF wf e] l
    by (simp add: slot_def blk_blit_same)
next
  case False
  let ?s = "gbf_sigma f"
  have "nat j < nat e \<or> nat e < nat j" using False e j by linarith
  then have "Suc (nat j) * ?s \<le> nat e * ?s \<or> Suc (nat e) * ?s \<le> nat j * ?s"
    by (metis Suc_leI mult_le_mono1)
  then have "nat j * ?s + ?s \<le> nat e * ?s \<or> nat e * ?s + length v \<le> nat j * ?s"
    using l by (simp add: add.commute)
  then show ?thesis using False slot_fits [OF wf e] slot_off_in [OF wf e] l
    by (simp add: slot_def blk_blit_disjoint)
qed

lemma slot_off_minus_1:
  assumes "gbf_wf f"
  shows "rbind (wr_blk (gbf_data f) (slot_off f (-1)) v) (\<lambda>d.
      rbind (wri b (-1) 1) (\<lambda>bf'. g d bf')) = Err OutOfBounds"
proof (cases "wr_blk (gbf_data f) (slot_off f (-1)) v")
  case (Inl e)
  then show ?thesis by (simp add: wr_blk_def split: if_splits)
next
  case (Inr d)
  then show ?thesis by (simp add: wri_def)
qed

lemma add_run:
  assumes wf: "gbf_wf f" and h: "hashes_ok sha1 hs k (gbf_m f)" and k: "gbf_k f = k"
    and x: "length x = eLen" and v: "gbf_sigma f \<le> length v"
  obtains g share where
    "add_inv f (take (gbf_sigma f) v) (indexes_of sha1 hs x) (g, share, first_free f (indexes_of sha1 hs x))"
    "GBF_add sha1 f hs k x eLen v =
       rbind (wr_blk (gbf_data g) (slot_off g (first_free f (indexes_of sha1 hs x))) share) (\<lambda>d.
       rbind (wri (gbf_bf g) (first_free f (indexes_of sha1 hs x)) 1) (\<lambda>bf'.
       Ok (g\<lparr>gbf_data := d, gbf_bf := bf'\<rparr>)))"
proof -
  let ?idx = "indexes_of sha1 hs x"
  have "length ?idx = gbf_k f" using h k by (simp add: hashes_ok_def)
  moreover have "\<forall>j\<in>set ?idx. 0 \<le> j \<and> j < gbf_m f" using indexes_range [OF h] by blast
  moreover have "length (take (gbf_sigma f) v) = gbf_sigma f" using v by simp
  ultimately obtain s where s: "rfold (\<lambda>i. GBF_add_step i (?idx ! i)) [0..<k] (f, take (gbf_sigma f) v, -1) = Ok s"
    "add_inv f (take (gbf_sigma f) v) ?idx s"
    using add_loop [OF wf] k by blast
  obtain g share e where sg: "s = (g, share, e)" by (cases s)
  then have "e = first_free f ?idx" using s(2) by (auto simp: add_inv_def)
  then show ?thesis using that [of g share] s sg k v
    by (simp add: GBF_add_def rassert_def hash_rfold [OF h x])
qed

lemma add_ok:
  assumes wf: "gbf_wf f" and h: "hashes_ok sha1 hs k (gbf_m f)" and k: "gbf_k f = k"
    and x: "length x = eLen" and v: "gbf_sigma f \<le> length v"
    and free: "\<exists>j\<in>set (indexes_of sha1 hs x). \<not> occupied f j"
  shows "\<exists>f'. GBF_add sha1 f hs k x eLen v = Ok f' \<and> gbf_wf f' \<and> gbf_same f f' \<and>
    gbf_holds f' (indexes_of sha1 hs x) (take (gbf_sigma f) v) \<and>
    (\<forall>j. 0 \<le> j \<longrightarrow> j < gbf_m f \<longrightarrow> occupied f j \<longrightarrow> occupied f' j \<and> slot f' j = slot f j)"
proof -
  let ?idx = "indexes_of sha1 hs x" and ?v = "take (gbf_sigma f) v"
  let ?e = "first_free f ?idx"
  obtain g share where inv: "add_inv f ?v ?idx (g, share, ?e)"
    and run: "GBF_add sha1 f hs k x eLen v = rbind (wr_blk (gbf_data g) (slot_off g ?e) share) (\<lambda>d.
       rbind (wri (gbf_bf g) ?e 1) (\<lambda>bf'. Ok (g\<lparr>gbf_data := d, gbf_bf := bf'\<rparr>)))"
    using add_run [OF wf h k x v] by metis
  have r: "\<forall>j\<in>set ?idx. 0 \<le> j \<and> j < gbf_m f" using indexes_range [OF h] by blast
  have lidx: "length ?idx = gbf_k f" using h k by (simp add: hashes_ok_def)
  have lv: "length ?v = gbf_sigma f" using v by simp
  have "set (free_slots f ?idx) \<noteq> {}" using free by auto
  then have fs: "free_slots f ?idx \<noteq> []" by (metis set_empty)
  then have ene: "?e \<noteq> -1" using r first_free_empty by blast
  then have e: "?e \<in> set ?idx" "\<not> occupied f ?e" "0 \<le> ?e" "?e < gbf_m f" using first_free_in r by blast+
  obtain bf' where g: "g = f\<lparr>gbf_indexes := ?idx, gbf_bf := bf'\<rparr>" and bl: "length bf' = length (gbf_bf f)"
    and b: "\<And>j. 0 \<le> j \<Longrightarrow> j < gbf_m f \<Longrightarrow> (bf' ! nat j \<noteq> 0) = (occupied f j \<or> j \<in> set (tl (free_slots f ?idx)))"
    and sh: "share = bxors ?v (map (slot f) (filter (\<lambda>j. j \<noteq> ?e) (firsts ?idx)))"
    using inv lidx wf by (auto simp: add_inv_def gbf_wf_def)
  have lsh: "length share = gbf_sigma f"
    unfolding sh using r wf lv by (subst bxors_length) (auto simp: length_slot)
  let ?f' = "g\<lparr>gbf_data := blit (gbf_data f) (slot_off f ?e) share, gbf_bf := bf'[nat ?e := 1]\<rparr>"
  have off: "slot_off g ?e = slot_off f ?e" by (simp add: g slot_off_def)
  have fits: "slot_off f ?e + length share \<le> length (gbf_data f)"
    using slot_fits [OF wf e(3,4)] slot_off_in [OF wf e(3,4)] lsh by simp
  have ebf: "nat ?e < length bf'" using e wf bl by (simp add: gbf_wf_def)
  have ok: "GBF_add sha1 f hs k x eLen v = Ok ?f'"
    unfolding run off using fits e ebf by (simp add: g)
  have wf': "gbf_wf ?f'" using wf fits bl lidx by (simp add: gbf_wf_def g)
  have "slot ?f' = slot (f\<lparr>gbf_data := blit (gbf_data f) (slot_off f ?e) share\<rparr>)"
    by (rule slot_cong) (simp_all add: g)
  then have sl: "slot ?f' j = (if j = ?e then share else slot f j)" if "0 \<le> j" "j < gbf_m f" for j
    using slot_write [OF wf e(3,4) lsh that] by simp
  have occ: "occupied ?f' j \<longleftrightarrow> occupied f j \<or> j \<in> set ?idx" if "0 \<le> j" "j < gbf_m f" for j
  proof -
    have "set (free_slots f ?idx) = insert ?e (set (tl (free_slots f ?idx)))"
      using fs by (cases "free_slots f ?idx") (auto simp: first_free_def simp del: set_free_slots)
    then have "j \<in> set (tl (free_slots f ?idx)) \<or> j = ?e \<longleftrightarrow> j \<in> set ?idx \<and> \<not> occupied f j" by auto
    then show ?thesis using b [OF that] that e ebf
      by (auto simp: occupied_def nth_list_update eq_nat_nat_iff)
  qed
  have val: "gbf_value ?f' ?idx = ?v"
  proof -
    let ?ds = "filter (\<lambda>j. j \<noteq> ?e) (firsts ?idx)"
    have "remove1 ?e (firsts ?idx) = ?ds" by (simp add: distinct_remove1_removeAll removeAll_filter_not_eq eq_commute [of ?e])
    then have "gbf_value ?f' ?idx = bxor share (bxors (replicate (gbf_sigma f) 0) (map (slot ?f') ?ds))"
      using bxors_remove1 [of ?e "firsts ?idx" _ "slot ?f'"] e sl [of ?e]
      by (simp add: gbf_value_def g)
    also have "map (slot ?f') ?ds = map (slot f) ?ds" using sl r by auto
    also have "bxor share (bxors (replicate (gbf_sigma f) 0) (map (slot f) ?ds))
        = bxors (bxor (replicate (gbf_sigma f) 0) share) (map (slot f) ?ds)" by (simp add: bxors_bxor)
    also have "bxor (replicate (gbf_sigma f) 0) share = share" using lsh by (simp add: bxor_zero_left)
    also have "bxors share (map (slot f) ?ds) = ?v"
      unfolding sh using lv r wf by (intro bxors_bxors [of _ "gbf_sigma f"]) (auto simp: length_slot)
    finally show ?thesis .
  qed
  have "gbf_holds ?f' ?idx ?v" using val r occ by (auto simp: gbf_holds_def g)
  moreover have "\<forall>j. 0 \<le> j \<longrightarrow> j < gbf_m f \<longrightarrow> occupied f j \<longrightarrow> occupied ?f' j \<and> slot ?f' j = slot f j"
    using occ sl e(2) by auto
  moreover have "gbf_same f ?f'" by (simp add: gbf_same_def g)
  ultimately show ?thesis using ok wf' by blast
qed

lemma holds_kept:
  assumes "gbf_same f f'" "gbf_holds f idx v"
    "\<forall>j. 0 \<le> j \<longrightarrow> j < gbf_m f \<longrightarrow> occupied f j \<longrightarrow> occupied f' j \<and> slot f' j = slot f j"
  shows "gbf_holds f' idx v"
proof -
  have "map (slot f') (firsts idx) = map (slot f) (firsts idx)"
    using assms by (auto simp: gbf_holds_def)
  then have "gbf_value f' idx = gbf_value f idx"
    using assms(1) by (simp only: gbf_value_def gbf_same_def)
  then show ?thesis using assms by (auto simp: gbf_holds_def gbf_same_def)
qed

lemma add_full:
  assumes wf: "gbf_wf f" and h: "hashes_ok sha1 hs k (gbf_m f)" and k: "gbf_k f = k"
    and x: "length x = eLen" and v: "gbf_sigma f \<le> length v"
    and full: "\<forall>j\<in>set (indexes_of sha1 hs x). occupied f j"
  shows "GBF_add sha1 f hs k x eLen v = Err OutOfBounds"
proof -
  let ?idx = "indexes_of sha1 hs x"
  obtain g share where inv: "add_inv f (take (gbf_sigma f) v) ?idx (g, share, first_free f ?idx)"
    and run: "GBF_add sha1 f hs k x eLen v = rbind (wr_blk (gbf_data g) (slot_off g (first_free f ?idx)) share) (\<lambda>d.
       rbind (wri (gbf_bf g) (first_free f ?idx) 1) (\<lambda>bf'. Ok (g\<lparr>gbf_data := d, gbf_bf := bf'\<rparr>)))"
    using add_run [OF wf h k x v] by metis
  have lidx: "length ?idx = gbf_k f" using h k by (simp add: hashes_ok_def)
  have wfg: "gbf_wf g" using inv wf lidx by (auto simp: add_inv_def gbf_wf_def)
  have "set (free_slots f ?idx) = {}" using full by auto
  then have "free_slots f ?idx = []" by (metis set_empty)
  then have "first_free f ?idx = -1" by (simp add: first_free_def)
  then show ?thesis unfolding run using slot_off_minus_1 [OF wfg] by simp
qed

text \<open>
  C5: an insertion into a garbled Bloom filter stores the value for its element and
  keeps every value stored before, if one of the element's slots is free; otherwise it
  writes outside the filter (\<open>emptySlot\<close> stays -1).
\<close>

theorem GBF_add_correct:
  assumes "gbf_wf f" "hashes_ok sha1 hs (gbf_k f) (gbf_m f)" "length x = eLen" "gbf_sigma f \<le> length v"
  shows "if \<exists>j\<in>set (indexes_of sha1 hs x). \<not> occupied f j
    then \<exists>f'. GBF_add sha1 f hs (gbf_k f) x eLen v = Ok f' \<and> gbf_wf f' \<and> gbf_same f f' \<and>
      gbf_holds f' (indexes_of sha1 hs x) (take (gbf_sigma f) v) \<and>
      (\<forall>idx w. gbf_holds f idx w \<longrightarrow> gbf_holds f' idx w)
    else GBF_add sha1 f hs (gbf_k f) x eLen v = Err OutOfBounds"
proof (cases "\<exists>j\<in>set (indexes_of sha1 hs x). \<not> occupied f j")
  case True
  obtain f' where "GBF_add sha1 f hs (gbf_k f) x eLen v = Ok f'" "gbf_wf f'" "gbf_same f f'"
    "gbf_holds f' (indexes_of sha1 hs x) (take (gbf_sigma f) v)"
    "\<forall>j. 0 \<le> j \<longrightarrow> j < gbf_m f \<longrightarrow> occupied f j \<longrightarrow> occupied f' j \<and> slot f' j = slot f j"
    using add_ok [OF assms(1,2) refl assms(3,4) True] by blast
  then show ?thesis using True holds_kept by auto
next
  case False
  then show ?thesis using add_full [OF assms(1,2) refl assms(3,4)] by simp
qed

section \<open>Filling a filter and reading it back\<close>

lemma GBF_Create_wf:
  assumes "0 \<le> par_m P" "nat (par_m P) * sigma < 2 ^ 32" "\<forall>r. random = Some r \<longrightarrow> nat (par_m P) * sigma \<le> length r"
  shows "\<exists>f. GBF_Create P sigma random = Ok f \<and> gbf_wf f \<and> gbf_m f = par_m P \<and> gbf_k f = nat (par_k P) \<and>
    gbf_sigma f = sigma \<and> (\<forall>j. 0 \<le> j \<longrightarrow> j < gbf_m f \<longrightarrow> \<not> occupied f j)"
  using assms
  by (cases random) (auto simp: GBF_Create_def Let_def gbf_wf_def occupied_def nat_less_iff)

definition GBF_add_all ::
    "(bytes \<Rightarrow> bytes) \<Rightarrow> GarbledBF \<Rightarrow> RangeHash list \<Rightarrow> nat \<Rightarrow> nat \<Rightarrow> (bytes \<times> bytes) list \<Rightarrow> GarbledBF res" where
  "GBF_add_all sha1 f hs k eLen items = rfold (\<lambda>(x, v) f. GBF_add sha1 f hs k x eLen v) items f"

lemma add_cases:
  assumes "gbf_wf f" "hashes_ok sha1 hs k (gbf_m f)" "gbf_k f = k" "length x = eLen" "gbf_sigma f \<le> length v"
    "GBF_add sha1 f hs k x eLen v = Ok f'"
  shows "gbf_wf f' \<and> gbf_same f f' \<and> gbf_holds f' (indexes_of sha1 hs x) (take (gbf_sigma f) v) \<and>
    (\<forall>idx w. gbf_holds f idx w \<longrightarrow> gbf_holds f' idx w)"
proof (cases "\<exists>j\<in>set (indexes_of sha1 hs x). \<not> occupied f j")
  case True
  then show ?thesis using add_ok [OF assms(1-5) True] assms(6) holds_kept by auto
next
  case False
  then show ?thesis using add_full [OF assms(1-5)] assms(6) by simp
qed

lemma add_all_holds:
  assumes "gbf_wf f" "hashes_ok sha1 hs k (gbf_m f)" "gbf_k f = k"
    "\<forall>(x, v)\<in>set items. length x = eLen \<and> gbf_sigma f \<le> length v"
    "GBF_add_all sha1 f hs k eLen items = Ok f'"
  shows "gbf_wf f' \<and> gbf_same f f' \<and>
    (\<forall>(x, v)\<in>set items. gbf_holds f' (indexes_of sha1 hs x) (take (gbf_sigma f) v)) \<and>
    (\<forall>idx w. gbf_holds f idx w \<longrightarrow> gbf_holds f' idx w)"
  using assms
proof (induction items arbitrary: f)
  case (Cons xv items)
  obtain x v where xv: "xv = (x, v)" by (cases xv)
  obtain g where g: "GBF_add sha1 f hs k x eLen v = Ok g" "GBF_add_all sha1 g hs k eLen items = Ok f'"
    using Cons.prems(5) xv by (auto simp: GBF_add_all_def res_simps)
  have a: "gbf_wf g \<and> gbf_same f g \<and> gbf_holds g (indexes_of sha1 hs x) (take (gbf_sigma f) v) \<and>
    (\<forall>idx w. gbf_holds f idx w \<longrightarrow> gbf_holds g idx w)"
    using Cons.prems xv g(1) by (intro add_cases [OF Cons.prems(1,2,3)]) auto
  then have s: "gbf_m g = gbf_m f" "gbf_k g = gbf_k f" "gbf_sigma g = gbf_sigma f" by (simp_all add: gbf_same_def)
  have "gbf_wf f' \<and> gbf_same g f' \<and>
    (\<forall>(x, v)\<in>set items. gbf_holds f' (indexes_of sha1 hs x) (take (gbf_sigma g) v)) \<and>
    (\<forall>idx w. gbf_holds g idx w \<longrightarrow> gbf_holds f' idx w)"
    using Cons.prems a s g(2) by (intro Cons.IH) auto
  then show ?case using a s xv by (auto simp: gbf_same_def)
qed (simp add: GBF_add_all_def gbf_same_def)

lemma recover_value:
  assumes "gbf_wf f" "hashes_ok sha1 hs k (gbf_m f)" "gbf_k f = k" "length x = eLen"
    "gbf_holds f (indexes_of sha1 hs x) v"
  shows "GBF_recover sha1 f hs k x eLen (replicate (gbf_sigma f) 0)
       = Ok (f\<lparr>gbf_indexes := indexes_of sha1 hs x\<rparr>, v)"
proof -
  have "length (indexes_of sha1 hs x) = gbf_k f" using assms by (simp add: hashes_ok_def)
  then show ?thesis using query_loop [OF assms(1), of "indexes_of sha1 hs x"] assms
    by (simp add: GBF_recover_def hash_rfold gbf_holds_def)
qed

text \<open>
  C4: after filling a newly created filter without running out of free slots, the
  leader's \<open>GBF_query\<close> recovers for every inserted element exactly the mask that was
  stored for it, whatever the random bytes in the other slots are.
\<close>

theorem GBF_roundtrip:
  assumes "0 \<le> par_m P" "nat (par_m P) * sigma < 2 ^ 32" "\<forall>r. random = Some r \<longrightarrow> nat (par_m P) * sigma \<le> length r"
    and "hashes_ok sha1 hs (nat (par_k P)) (par_m P)"
    and "\<forall>(x, v)\<in>set items. length x = eLen \<and> length v = sigma"
    and "GBF_Create P sigma random = Ok f0" "GBF_add_all sha1 f0 hs (nat (par_k P)) eLen items = Ok f"
    and "(x, v) \<in> set items" "length indexes = nat (par_k P)"
  shows "GBFLeader_GBF_query sha1 f hs (nat (par_k P)) x eLen sigma indexes = Ok (v, indexes_of sha1 hs x)"
proof -
  have f0: "gbf_wf f0" "gbf_m f0 = par_m P" "gbf_k f0 = nat (par_k P)" "gbf_sigma f0 = sigma"
    using GBF_Create_wf [OF assms(1-3)] assms(6) by auto
  have "gbf_wf f \<and> gbf_same f0 f \<and>
    (\<forall>(x, v)\<in>set items. gbf_holds f (indexes_of sha1 hs x) (take (gbf_sigma f0) v)) \<and>
    (\<forall>idx w. gbf_holds f0 idx w \<longrightarrow> gbf_holds f idx w)"
    using f0 assms by (intro add_all_holds) auto
  then have "gbf_wf f" "gbf_m f = par_m P" "gbf_k f = nat (par_k P)" "gbf_sigma f = sigma"
    "gbf_holds f (indexes_of sha1 hs x) (take sigma v)"
    using f0 assms(8) by (auto simp: gbf_same_def)
  moreover have "length v = sigma" using assms(5,8) by auto
  ultimately have f: "gbf_wf f" "gbf_m f = par_m P" "gbf_k f = nat (par_k P)" "gbf_sigma f = sigma"
    "gbf_holds f (indexes_of sha1 hs x) v" by simp_all
  let ?f = "f\<lparr>gbf_indexes := indexes\<rparr>"
  have "slot ?f = slot f" by (rule slot_cong) simp_all
  then have holds: "gbf_holds ?f (indexes_of sha1 hs x) v"
    using f(5) by (simp add: gbf_holds_def gbf_value_def occupied_def)
  have len: "length x = eLen" using assms(5,8) by auto
  have "GBF_recover sha1 ?f hs (nat (par_k P)) x eLen (replicate (gbf_sigma ?f) 0)
       = Ok (?f\<lparr>gbf_indexes := indexes_of sha1 hs x\<rparr>, v)"
    by (rule recover_value) (use f assms(4,9) len holds in simp_all)
  then show ?thesis using f by (simp add: GBFLeader_GBF_query_def)
qed

lemma query_short_buffer:
  assumes "gbf_wf f" "hashes_ok sha1 hs k (gbf_m f)" "gbf_k f = k" "length x = eLen" "0 < k"
    "length buf < gbf_sigma f"
  shows "GBF_recover sha1 f hs k x eLen buf = Err OutOfBounds"
proof -
  let ?j = "indexes_of sha1 hs x ! 0"
  have short: "xorByteArray buf d (gbf_sigma f) = Err OutOfBounds" for d
    using assms(6) by (intro xorByteArray_short) auto
  have "rfold (\<lambda>i. GBF_query_step i (indexes_of sha1 hs x ! i)) [0..<k] (f, buf) =
      rbind (GBF_query_step 0 ?j (f, buf)) (rfold (\<lambda>i. GBF_query_step i (indexes_of sha1 hs x ! i)) [1..<k])"
    using assms(5) by (simp add: upt_rec [of 0 k])
  also have "GBF_query_step 0 ?j (f, buf) = Err OutOfBounds"
    using assms short by (simp add: GBF_query_step_def exists_idx_def gbf_wf_def xor_slot_def Let_def)
  finally show ?thesis using assms by (simp add: GBF_recover_def hash_rfold)
qed

text \<open>
  C24: with entries of ten bytes, \<open>GBF_query\<close> answers 1 for a stored element and value;
  with longer entries it writes past its ten-byte buffer.
\<close>

theorem GBF_query_buffer:
  assumes "gbf_wf f" "hashes_ok sha1 hs (gbf_k f) (gbf_m f)" "length x = eLen" "0 < gbf_k f"
    and "length v = gbf_sigma f" "gbf_holds f (indexes_of sha1 hs x) v" "GBFSigmaByteLen \<le> gbf_sigma f"
  shows "GBF_query sha1 f hs (gbf_k f) x eLen v =
    (if gbf_sigma f = GBFSigmaByteLen then Ok (True, f\<lparr>gbf_indexes := indexes_of sha1 hs x\<rparr>)
     else Err OutOfBounds)"
proof (cases "gbf_sigma f = GBFSigmaByteLen")
  case True
  then have "GBF_recover sha1 f hs (gbf_k f) x eLen (replicate GBFSigmaByteLen 0)
      = Ok (f\<lparr>gbf_indexes := indexes_of sha1 hs x\<rparr>, v)"
    using recover_value [OF assms(1,2) refl assms(3,6)] by simp
  then show ?thesis using True assms(5) by (simp add: GBF_query_def rassert_def compare_prefix)
next
  case False
  then have "GBF_recover sha1 f hs (gbf_k f) x eLen (replicate GBFSigmaByteLen 0) = Err OutOfBounds"
    using assms by (intro query_short_buffer) auto
  then show ?thesis using False by (simp add: GBF_query_def rassert_def)
qed

section \<open>Concrete filters\<close>

text \<open>
  Eight slots of ten bytes with random contents, two hash functions; for the toy hash
  the indexes of a four-byte element are 5 and 6.
\<close>

lemma toy_indexes: "length x = 4 \<Longrightarrow> indexes_of toy_sha1 toy_hashes x = [5, 6]"
  by (simp add: indexes_of_def toy_hashes_def rh_index_def range_index_def digest_word_def be_nat_def toy_sha1_def)

definition toy_params :: BFParameters where
  "toy_params = \<lparr>par_m = 8, par_n = 1, par_k = 2\<rparr>"

definition toy_gbf :: GarbledBF where
  "toy_gbf = \<lparr>gbf_data = replicate 80 3, gbf_bf = replicate 8 0, gbf_m = 8, gbf_k = 2,
     gbf_indexes = [0, 0], gbf_sigma = 10\<rparr>"

lemma toy_gbf_wf: "gbf_wf toy_gbf"
  by (simp add: toy_gbf_def gbf_wf_def)

lemma toy_facts:
  "indexes_of toy_sha1 toy_hashes [1, 2, 3, 4] = [5, 6]" "gbf_k toy_gbf = 2" "gbf_m toy_gbf = 8"
  "gbf_sigma toy_gbf = 10" "\<exists>j\<in>set (indexes_of toy_sha1 toy_hashes [1, 2, 3, 4]). \<not> occupied toy_gbf j"
  by (simp_all add: toy_indexes toy_gbf_def occupied_def)

lemma toy_create: "GBF_Create toy_params 10 (Some (replicate 80 3)) = Ok toy_gbf"
  by (simp add: GBF_Create_def toy_params_def toy_gbf_def blit_def numeral_2_eq_2)

lemma toy_added:
  "\<exists>f. GBF_add toy_sha1 toy_gbf toy_hashes 2 [1, 2, 3, 4] 4 (replicate 10 9) = Ok f \<and> gbf_wf f \<and>
     gbf_same toy_gbf f \<and> gbf_holds f [5, 6] (replicate 10 9)"
  using add_ok [of toy_gbf toy_sha1 toy_hashes 2 "[1, 2, 3, 4]" 4 "replicate 10 9"]
    toy_hashes_ok toy_gbf_wf toy_facts by auto

theorem GBF_add_correct_witness:
  "\<exists>f'. GBF_add toy_sha1 toy_gbf toy_hashes 2 [1, 2, 3, 4] 4 (replicate 10 9) = Ok f' \<and>
    gbf_holds f' [5, 6] (replicate 10 9)"
  using GBF_add_correct [of toy_gbf toy_sha1 toy_hashes "[1, 2, 3, 4]" 4 "replicate 10 9"]
    toy_hashes_ok toy_gbf_wf toy_facts by (auto split: if_splits)

theorem GBF_roundtrip_witness:
  "\<exists>f. GBF_add_all toy_sha1 toy_gbf toy_hashes 2 4 [([1, 2, 3, 4], replicate 10 9)] = Ok f \<and>
    GBFLeader_GBF_query toy_sha1 f toy_hashes 2 [1, 2, 3, 4] 4 10 [0, 0] = Ok (replicate 10 9, [5, 6])"
proof -
  obtain f where "GBF_add toy_sha1 toy_gbf toy_hashes 2 [1, 2, 3, 4] 4 (replicate 10 9) = Ok f"
    using toy_added by blast
  then have f: "GBF_add_all toy_sha1 toy_gbf toy_hashes 2 4 [([1, 2, 3, 4], replicate 10 9)] = Ok f"
    by (simp add: GBF_add_all_def)
  have "GBFLeader_GBF_query toy_sha1 f toy_hashes (nat (par_k toy_params)) [1, 2, 3, 4] 4 10 [0, 0]
      = Ok (replicate 10 9, indexes_of toy_sha1 toy_hashes [1, 2, 3, 4])"
    by (rule GBF_roundtrip [where P = toy_params and random = "Some (replicate 80 3)" and
          items = "[([1, 2, 3, 4], replicate 10 9)]" and ?f0.0 = toy_gbf])
      (use toy_hashes_ok toy_create f in \<open>simp_all add: toy_params_def\<close>)
  then show ?thesis using f by (simp add: toy_params_def toy_facts)
qed

theorem GBF_query_buffer_witness:
  "\<exists>f f'. GBF_add toy_sha1 toy_gbf toy_hashes 2 [1, 2, 3, 4] 4 (replicate 10 9) = Ok f \<and>
    GBF_query toy_sha1 f toy_hashes 2 [1, 2, 3, 4] 4 (replicate 10 9) = Ok (True, f')"
proof -
  obtain f where f: "GBF_add toy_sha1 toy_gbf toy_hashes 2 [1, 2, 3, 4] 4 (replicate 10 9) = Ok f"
    "gbf_wf f" "gbf_same toy_gbf f" "gbf_holds f [5, 6] (replicate 10 9)"
    using toy_added by blast
  then have same: "gbf_k f = 2" "gbf_m f = 8" "gbf_sigma f = 10"
    using toy_facts by (simp_all add: gbf_same_def)
  have "GBF_query toy_sha1 f toy_hashes (gbf_k f) [1, 2, 3, 4] 4 (replicate 10 9) =
    (if gbf_sigma f = GBFSigmaByteLen
     then Ok (True, f\<lparr>gbf_indexes := indexes_of toy_sha1 toy_hashes [1, 2, 3, 4]\<rparr>) else Err OutOfBounds)"
    by (rule GBF_query_buffer) (use f same toy_hashes_ok toy_facts in \<open>simp_all add: GBFSigmaByteLen_def\<close>)
  then show ?thesis using f(1) same by (simp add: GBFSigmaByteLen_def)
qed

text \<open>Four slots of two bytes.\<close>

definition four_slots :: "bytes \<Rightarrow> GarbledBF" where
  "four_slots d = \<lparr>gbf_data = d, gbf_bf = [0, 0, 0, 0], gbf_m = 4, gbf_k = 1, gbf_indexes = [0], gbf_sigma = 2\<rparr>"

lemma four_slots_simps [simp]:
  "gbf_data (four_slots d) = d" "gbf_k (four_slots d) = 1" "gbf_sigma (four_slots d) = 2"
  "four_slots d\<lparr>gbf_data := d'\<rparr> = four_slots d'" "slot_off (four_slots d) j = nat ((j * 2) mod 2 ^ 32)"
  by (simp_all add: four_slots_def slot_off_def)


end
