(* ===== verification/Concurrency.thy ===== *)
theory Concurrency
  imports Prelude
begin

text \<open>
  Threads as the sources use them: every thread works through a fixed list of actions
  (its strided share of a loop), a scheduler picks the next thread, and an action that
  polls for data of another thread is not enabled until the data is there.  When the
  actions of different threads commute, every schedule of the threads ends in the state
  that the sequential loop computes; no schedule blocks, fails or runs forever.
\<close>

section \<open>Interleavings\<close>

text \<open>
  \<open>act a s\<close> is the effect of action \<open>a\<close>; \<open>Err WouldBlock\<close> is a poll that found nothing.
\<close>

inductive par_step ::
    "('a \<Rightarrow> 's \<Rightarrow> 's res) \<Rightarrow> 'a list list \<times> 's \<Rightarrow> 'a list list \<times> 's \<Rightarrow> bool" for act where
  par_step: "t < length qs \<Longrightarrow> qs ! t = a # as \<Longrightarrow> act a s = Ok s' \<Longrightarrow> par_step act (qs, s) (qs[t := as], s')"

inductive par_steps ::
    "('a \<Rightarrow> 's \<Rightarrow> 's res) \<Rightarrow> nat \<Rightarrow> 'a list list \<times> 's \<Rightarrow> 'a list list \<times> 's \<Rightarrow> bool" for act where
  par_refl: "par_steps act 0 c c"
| par_next: "par_step act c d \<Longrightarrow> par_steps act n d e \<Longrightarrow> par_steps act (Suc n) c e"

inductive_cases par_stepE: "par_step act c d"
inductive_cases par_steps_0E: "par_steps act 0 c d"
inductive_cases par_steps_SucE: "par_steps act (Suc n) c d"

lemma par_steps_0 [simp]: "par_steps act 0 c d \<longleftrightarrow> c = d"
  by (auto elim: par_steps_0E intro: par_refl)

lemma par_steps_Suc: "par_steps act (Suc n) c d \<longleftrightarrow> (\<exists>e. par_step act c e \<and> par_steps act n e d)"
  by (blast elim: par_steps_SucE intro: par_next)

lemma par_steps_trans: "par_steps act n c d \<Longrightarrow> par_steps act m d e \<Longrightarrow> par_steps act (n + m) c e"
  by (induction rule: par_steps.induct) (auto intro: par_next)

text \<open>The threads have nothing left to do.\<close>

definition finished :: "'a list list \<Rightarrow> bool" where
  "finished qs \<longleftrightarrow> (\<forall>q\<in>set qs. q = [])"

lemma finished_no_step: "finished qs \<Longrightarrow> \<not> par_step act (qs, s) d"
proof
  assume f: "finished qs" and "par_step act (qs, s) d"
  then obtain t a as where "t < length qs" "qs ! t = a # as" by (auto elim: par_stepE)
  then have "a # as \<in> set qs" by (metis nth_mem)
  then show False using f by (auto simp: finished_def)
qed

text \<open>The share of thread \<open>t\<close> of a sequence of actions.\<close>

definition share :: "('a \<Rightarrow> nat) \<Rightarrow> nat \<Rightarrow> 'a list \<Rightarrow> 'a list" where
  "share thr t order = filter (\<lambda>a. thr a = t) order"

definition shares :: "('a \<Rightarrow> nat) \<Rightarrow> nat \<Rightarrow> 'a list \<Rightarrow> 'a list list" where
  "shares thr T order = map (\<lambda>t. share thr t order) [0..<T]"

lemma shares_Cons: "thr a < T \<Longrightarrow> shares thr T (a # order) = (shares thr T order)[thr a := a # share thr (thr a) order]"
  by (rule nth_equalityI) (auto simp: shares_def share_def nth_list_update)

text \<open>The sequential execution is one of the schedules.\<close>

lemma sequential_run:
  assumes "rfold act order s = Ok s'" "\<forall>a\<in>set order. thr a < T"
  shows "par_steps act (length order) (shares thr T order, s) (shares thr T [], s')"
  using assms
proof (induction order arbitrary: s)
  case (Cons a order)
  obtain s1 where s1: "act a s = Ok s1" "rfold act order s1 = Ok s'" using Cons.prems by (auto simp: res_simps)
  let ?qs = "shares thr T (a # order)"
  have t: "thr a < T" using Cons.prems by simp
  have len: "length ?qs = T" by (simp add: shares_def)
  have "?qs ! thr a = a # share thr (thr a) order" using t by (simp add: shares_def share_def)
  moreover have "?qs[thr a := share thr (thr a) order] = shares thr T order"
    unfolding shares_Cons [where thr = thr, OF t] using t by (simp add: shares_def list_update_same_conv)
  ultimately have "par_step act (?qs, s) (shares thr T order, s1)"
    using par_step [of "thr a" ?qs a "share thr (thr a) order" act s s1] s1(1) t len by simp
  then show ?case using Cons s1 by (auto intro: par_next)
qed simp

text \<open>
  The scheduler as a list of the threads it picks: a poll that finds nothing and a
  thread that is done leave the state as it is.  \<open>spawn_join\<close> creates the threads and
  joins them; \<open>OutOfFuel\<close> when the schedule ends before the threads do.
\<close>

fun par_run :: "('a \<Rightarrow> 's \<Rightarrow> 's res) \<Rightarrow> nat list \<Rightarrow> 'a list list \<times> 's \<Rightarrow> ('a list list \<times> 's) res" where
  "par_run act [] c = Ok c"
| "par_run act (t # sched) (qs, s) =
     (if t < length qs then
        (case qs ! t of
           [] \<Rightarrow> par_run act sched (qs, s)
         | a # as \<Rightarrow>
             (case act a s of
                Inr s' \<Rightarrow> par_run act sched (qs[t := as], s')
              | Inl e \<Rightarrow> if e = WouldBlock then par_run act sched (qs, s) else Err e))
      else par_run act sched (qs, s))"

definition spawn_join :: "('a \<Rightarrow> 's \<Rightarrow> 's res) \<Rightarrow> nat list \<Rightarrow> 'a list list \<Rightarrow> 's \<Rightarrow> 's res" where
  "spawn_join act sched qs s =
     rbind (par_run act sched (qs, s)) (\<lambda>(qs', s'). if finished qs' then Ok s' else Err OutOfFuel)"

lemma par_run_append: "par_run act (xs @ ys) c = rbind (par_run act xs c) (par_run act ys)"
proof (induction xs arbitrary: c)
  case (Cons t xs)
  obtain qs s where "c = (qs, s)" by (cases c)
  then show ?case using Cons by (auto split: list.split sum.split)
qed simp

definition can_move :: "('a \<Rightarrow> 's \<Rightarrow> 's res) \<Rightarrow> nat \<Rightarrow> 'a list list \<times> 's \<Rightarrow> bool" where
  "can_move act t c \<longleftrightarrow> (case c of (qs, s) \<Rightarrow> t < length qs \<and> (\<exists>a as s'. qs ! t = a # as \<and> act a s = Ok s'))"

text \<open>A schedule with \<open>n\<close> sweeps, in each of which all \<open>T\<close> threads get their turn.\<close>

definition fair :: "nat \<Rightarrow> nat \<Rightarrow> nat list \<Rightarrow> bool" where
  "fair T n sched \<longleftrightarrow> (\<exists>sweeps. sched = concat sweeps \<and> n \<le> length sweeps \<and> (\<forall>w\<in>set sweeps. {0..<T} \<subseteq> set w))"

text \<open>
  What a group of threads promises against the sequential loop: no schedule makes it fail
  or end in another state, and a fair one finishes.
\<close>

definition agrees :: "('a \<Rightarrow> 's \<Rightarrow> 's res) \<Rightarrow> 'a list list \<Rightarrow> 's \<Rightarrow> nat \<Rightarrow> 's \<Rightarrow> bool" where
  "agrees act qs s n s' \<longleftrightarrow> (\<forall>sched. (\<exists>c. par_run act sched (qs, s) = Ok c) \<and>
     (spawn_join act sched qs s = Ok s' \<or> spawn_join act sched qs s = Err OutOfFuel) \<and>
     (fair (length qs) n sched \<longrightarrow> spawn_join act sched qs s = Ok s'))"

text \<open>Threads that agree under an extra guard agree without it: the guard never fires.\<close>

lemma par_run_guard:
  assumes "\<And>a s. act a s = act' a s \<or> act a s = Err AssertFail" and "par_run act sched c = Ok d"
  shows "par_run act' sched c = Ok d"
  using assms(2)
proof (induction sched arbitrary: c)
  case (Cons t sched)
  obtain qs s where c: "c = (qs, s)" by (cases c)
  show ?case
  proof (cases "t < length qs \<and> qs ! t \<noteq> []")
    case True
    then obtain a as where a: "t < length qs" "qs ! t = a # as" by (cases "qs ! t") auto
    then have "act a s = act' a s" using Cons.prems assms(1) [of a s] by (auto simp: c)
    then show ?thesis using Cons a by (auto simp: c split: sum.splits if_splits)
  next
    case False
    then show ?thesis using Cons by (auto simp: c split: list.splits)
  qed
qed simp

lemma agrees_guard:
  assumes "\<And>a s. act a s = act' a s \<or> act a s = Err AssertFail" and "agrees act qs s n s'"
  shows "agrees act' qs s n s'"
proof -
  have "par_run act' sched (qs, s) = par_run act sched (qs, s)" for sched
    using par_run_guard [where act = act and act' = act', OF assms(1)] assms(2) unfolding agrees_def by metis
  then show ?thesis using assms(2) by (simp add: agrees_def spawn_join_def)
qed

section \<open>Commuting actions\<close>

locale commuting =
  fixes act :: "'a \<Rightarrow> 's \<Rightarrow> 's res"
    and thr :: "'a \<Rightarrow> nat"
    and valid :: "'a \<Rightarrow> bool"
    and inv :: "'s \<Rightarrow> bool"
  assumes keeps: "inv s \<Longrightarrow> valid a \<Longrightarrow> act a s = Ok s' \<Longrightarrow> inv s'"
    and diamond: "inv s \<Longrightarrow> valid a \<Longrightarrow> valid b \<Longrightarrow> thr a \<noteq> thr b \<Longrightarrow> act a s = Ok s1 \<Longrightarrow> act b s = Ok s2 \<Longrightarrow>
      \<exists>s3. act b s1 = Ok s3 \<and> act a s2 = Ok s3"
    and persist: "inv s \<Longrightarrow> valid a \<Longrightarrow> valid b \<Longrightarrow> thr a \<noteq> thr b \<Longrightarrow> act a s = Err e \<Longrightarrow> e \<noteq> WouldBlock \<Longrightarrow>
      act b s = Ok s1 \<Longrightarrow> act a s1 = Err e"
begin

definition tidy :: "'a list list \<Rightarrow> bool" where
  "tidy qs \<longleftrightarrow> (\<forall>t<length qs. \<forall>a\<in>set (qs ! t). thr a = t \<and> valid a)"

lemma keeps_step: "inv s \<Longrightarrow> tidy qs \<Longrightarrow> par_step act (qs, s) (qs', s') \<Longrightarrow> inv s'"
proof -
  assume inv: "inv s" and tidy: "tidy qs" and "par_step act (qs, s) (qs', s')"
  then obtain t a as where "t < length qs" "qs ! t = a # as" "act a s = Ok s'" by (auto elim: par_stepE)
  moreover from this have "valid a" using tidy by (simp add: tidy_def)
  ultimately show "inv s'" using keeps [OF inv] by blast
qed

lemma tidy_step: "tidy qs \<Longrightarrow> par_step act (qs, s) (qs', s') \<Longrightarrow> tidy qs'"
  by (elim par_stepE) (auto simp: tidy_def nth_list_update split: if_splits)

lemma step_diamond:
  assumes "inv s" "tidy qs" "par_step act (qs, s) c1" "par_step act (qs, s) c2"
  shows "c1 = c2 \<or> (\<exists>d. par_step act c1 d \<and> par_step act c2 d)"
proof -
  obtain t a as s1 where 1: "t < length qs" "qs ! t = a # as" "act a s = Ok s1" "c1 = (qs[t := as], s1)"
    using assms(3) by (auto elim: par_stepE)
  obtain u b bs s2 where 2: "u < length qs" "qs ! u = b # bs" "act b s = Ok s2" "c2 = (qs[u := bs], s2)"
    using assms(4) by (auto elim: par_stepE)
  show ?thesis
  proof (cases "t = u")
    case False
    have "thr a = t" "thr b = u" "valid a" "valid b" using assms(2) 1(1,2) 2(1,2) by (auto simp: tidy_def)
    then obtain s3 where s3: "act b s1 = Ok s3" "act a s2 = Ok s3"
      using diamond [OF assms(1) _ _ _ 1(3) 2(3)] False by auto
    have "par_step act c1 (qs[t := as, u := bs], s3)" "par_step act c2 (qs[u := bs, t := as], s3)"
      using 1 2 s3 False by (auto intro!: par_step)
    then show ?thesis using False list_update_swap [of t u qs as bs] by auto
  qed (use 1 2 in simp)
qed

text \<open>If some schedule finishes after \<open>n\<close> steps, every first step can be followed by \<open>n - 1\<close> steps to the same end.\<close>

lemma step_towards:
  assumes "par_steps act n (qs, s) (qf, sf)" "finished qf" "inv s" "tidy qs" "par_step act (qs, s) c1"
  shows "\<exists>m. n = Suc m \<and> par_steps act m c1 (qf, sf)"
  using assms
proof (induction n arbitrary: qs s c1)
  case 0
  then have "qs = qf" "s = sf" by auto
  then show ?case using 0 finished_no_step [of qf act sf c1] by blast
next
  case (Suc n)
  obtain qs2 s2 where c2: "par_step act (qs, s) (qs2, s2)" "par_steps act n (qs2, s2) (qf, sf)"
    using Suc.prems(1) by (auto simp: par_steps_Suc)
  have inv2: "inv s2" "tidy qs2"
    using c2(1) Suc.prems(3,4) keeps_step tidy_step by blast+
  from step_diamond [OF Suc.prems(3,4) Suc.prems(5) c2(1)] show ?case
  proof (elim disjE exE conjE)
    fix d assume d: "par_step act c1 d" "par_step act (qs2, s2) d"
    obtain m where "n = Suc m" "par_steps act m d (qf, sf)"
      using Suc.IH [OF c2(2) Suc.prems(2) inv2 d(2)] by blast
    then show ?thesis using d(1) by (auto intro: par_next)
  qed (use c2 in auto)
qed

lemma steps_towards:
  assumes "par_steps act n (qs, s) (qf, sf)" "finished qf" "inv s" "tidy qs" "par_steps act k (qs, s) c"
  shows "k \<le> n \<and> par_steps act (n - k) c (qf, sf)"
  using assms
proof (induction k arbitrary: n qs s)
  case (Suc k)
  obtain qs1 s1 where c1: "par_step act (qs, s) (qs1, s1)" "par_steps act k (qs1, s1) c"
    using Suc.prems(5) by (auto simp: par_steps_Suc)
  obtain m where m: "n = Suc m" "par_steps act m (qs1, s1) (qf, sf)"
    using step_towards [OF Suc.prems(1-4) c1(1)] by blast
  have "inv s1" "tidy qs1"
    using c1(1) Suc.prems(3,4) keeps_step tidy_step by blast+
  then show ?case using Suc.IH [OF m(2) Suc.prems(2) _ _ c1(2)] m(1) by auto
qed auto

text \<open>A thread whose next action fails can never get past it.\<close>

lemma stuck:
  assumes "par_steps act n (qs, s) (qf, sf)" "finished qf" "inv s" "tidy qs"
    and "t < length qs" "qs ! t = a # as" "act a s = Err e" "e \<noteq> WouldBlock"
  shows False
  using assms
proof (induction n arbitrary: qs s)
  case 0
  then have "a # as \<in> set qf" by (metis Pair_inject nth_mem par_steps_0)
  then show ?case using 0(2) by (auto simp: finished_def)
next
  case (Suc n)
  obtain qs1 s1 where c1: "par_step act (qs, s) (qs1, s1)" "par_steps act n (qs1, s1) (qf, sf)"
    using Suc.prems(1) by (auto simp: par_steps_Suc)
  obtain u b bs where b: "u < length qs" "qs ! u = b # bs" "act b s = Ok s1" "qs1 = qs[u := bs]"
    using c1(1) by (auto elim: par_stepE)
  have u: "u \<noteq> t" using b Suc.prems(6,7) by auto
  have "thr a = t" "valid a" "thr b = u" "valid b" using Suc.prems(4-6) b(1,2) by (auto simp: tidy_def)
  then have "act a s1 = Err e" using persist [OF Suc.prems(3) _ _ _ Suc.prems(7,8) b(3)] u by auto
  then show False
    using Suc.IH [OF c1(2) Suc.prems(2)] c1(1) Suc.prems(3-6,8) b(4) u keeps_step tidy_step by auto
qed

text \<open>
  A scheduler can pick threads in any order without making a step fail; it makes
  progress when it picks a thread that can move.
\<close>

lemma par_run_steps:
  assumes "par_steps act n (qs, s) (qf, sf)" "finished qf" "inv s" "tidy qs"
  shows "\<exists>i qs1 s1. par_run act sched (qs, s) = Ok (qs1, s1) \<and> i \<le> n \<and> par_steps act (n - i) (qs1, s1) (qf, sf) \<and>
    inv s1 \<and> tidy qs1 \<and> length qs1 = length qs \<and> ((\<exists>t\<in>set sched. can_move act t (qs, s)) \<longrightarrow> 0 < i)"
  using assms
proof (induction sched arbitrary: n qs s)
  case Nil
  then show ?case by (intro exI [of _ 0]) simp
next
  case (Cons t sched)
  show ?case
  proof (cases "t < length qs \<and> qs ! t \<noteq> []")
    case True
    then obtain a as where a: "t < length qs" "qs ! t = a # as" by (cases "qs ! t") auto
    show ?thesis
    proof (cases "act a s")
      case (Inr s1)
      then have st: "par_step act (qs, s) (qs[t := as], s1)" using a by (intro par_step)
      obtain m where m: "n = Suc m" "par_steps act m (qs[t := as], s1) (qf, sf)"
        using step_towards [OF Cons.prems st] by blast
      obtain i qs2 s2 where i: "par_run act sched (qs[t := as], s1) = Ok (qs2, s2)" "i \<le> m"
        "par_steps act (m - i) (qs2, s2) (qf, sf)" "inv s2" "tidy qs2" "length qs2 = length qs"
        using Cons.IH [OF m(2) Cons.prems(2)] st Cons.prems(3,4) keeps_step tidy_step by (metis length_list_update)
      then show ?thesis using a Inr m(1) by (intro exI [of _ "Suc i"] exI [of _ qs2] exI [of _ s2]) simp
    next
      case (Inl e)
      then have "e = WouldBlock" using stuck [OF Cons.prems a] by blast
      then show ?thesis using Cons.IH [OF Cons.prems] a Inl by (simp add: can_move_def)
    qed
  next
    case False
    then show ?thesis using Cons.IH [OF Cons.prems] by (auto simp: can_move_def split: list.split)
  qed
qed

text \<open>When \<open>n\<close> steps are left, \<open>n\<close> sweeps over all threads finish the run.\<close>

lemma sweeps_finish:
  assumes "par_steps act n (qs, s) (qf, sf)" "finished qf" "inv s" "tidy qs"
    and "n \<le> length sweeps" "\<forall>w\<in>set sweeps. {0..<length qs} \<subseteq> set w"
  shows "\<exists>qs1. par_run act (concat sweeps) (qs, s) = Ok (qs1, sf) \<and> finished qs1"
  using assms
proof (induction sweeps arbitrary: n qs s)
  case Nil
  then show ?case by auto
next
  case (Cons w sweeps)
  obtain i qs1 s1 where i: "par_run act w (qs, s) = Ok (qs1, s1)" "i \<le> n" "par_steps act (n - i) (qs1, s1) (qf, sf)"
    "inv s1" "tidy qs1" "length qs1 = length qs" "(\<exists>t\<in>set w. can_move act t (qs, s)) \<longrightarrow> 0 < i"
    using par_run_steps [OF Cons.prems(1-4), of w] by blast
  have "0 < n \<longrightarrow> 0 < i"
  proof
    assume "0 < n"
    then obtain c where "par_step act (qs, s) c" using Cons.prems(1) by (cases n) (auto simp: par_steps_Suc)
    then obtain t where "t < length qs" "can_move act t (qs, s)" by (force elim: par_stepE simp: can_move_def)
    then show "0 < i" using i(7) Cons.prems(6) by auto
  qed
  then have "n - i \<le> length sweeps" using Cons.prems(5) by auto
  then obtain qs2 where "par_run act (concat sweeps) (qs1, s1) = Ok (qs2, sf)" "finished qs2"
    using Cons.IH [OF i(3) Cons.prems(2) i(4,5)] Cons.prems(6) i(6) by auto
  then show ?case using i(1) by (simp add: par_run_append)
qed

lemma tidy_shares: "\<forall>a\<in>set order. thr a < T \<and> valid a \<Longrightarrow> tidy (shares thr T order)"
  by (auto simp: tidy_def shares_def share_def)

lemma shares_agree:
  assumes seq: "rfold act order s = Ok s'" and thr: "\<forall>a\<in>set order. thr a < T \<and> valid a" and inv: "inv s"
  shows "agrees act (shares thr T order) s (length order) s'"
proof -
  have fin: "finished (shares thr T [])" by (auto simp: finished_def shares_def share_def)
  have run: "par_steps act (length order) (shares thr T order, s) (shares thr T [], s')"
    using sequential_run [OF seq] thr by blast
  note * = run fin inv tidy_shares [OF thr]
  show ?thesis unfolding agrees_def
  proof (intro allI conjI impI)
    fix sched
    obtain i qs1 s1 where i: "par_run act sched (shares thr T order, s) = Ok (qs1, s1)"
      "par_steps act (length order - i) (qs1, s1) (shares thr T [], s')"
      using par_run_steps [OF *] by blast
    show "\<exists>c. par_run act sched (shares thr T order, s) = Ok c" using i(1) by blast
    show "spawn_join act sched (shares thr T order) s = Ok s' \<or>
      spawn_join act sched (shares thr T order) s = Err OutOfFuel"
    proof (cases "finished qs1")
      case True
      then have "length order - i = 0"
        using i(2) finished_no_step [of qs1 act s1] by (cases "length order - i") (auto simp: par_steps_Suc)
      then show ?thesis using i True by (simp add: spawn_join_def)
    qed (use i in \<open>simp add: spawn_join_def\<close>)
  next
    fix sched assume "fair (length (shares thr T order)) (length order) sched"
    then obtain sweeps where w: "sched = concat sweeps" "length order \<le> length sweeps"
      "\<forall>w\<in>set sweeps. {0..<length (shares thr T order)} \<subseteq> set w" by (auto simp: fair_def)
    show "spawn_join act sched (shares thr T order) s = Ok s'"
      using sweeps_finish [OF * w(2,3)] w(1) by (auto simp: spawn_join_def)
  qed
qed

end

section \<open>Tasks on separate cells\<close>

text \<open>
  The tasks of the sources: action \<open>a\<close> of thread \<open>thr a\<close> reads and writes only the locals of
  its thread and the cell \<open>cell a\<close> of the shared arrays, seen through \<open>W\<close>; \<open>eff\<close> is its effect
  on the two.  Actions of two threads on one cell are never both enabled.
\<close>

locale cell_tasks =
  fixes act :: "'a \<Rightarrow> 's \<Rightarrow> 's res"
    and thr cell :: "'a \<Rightarrow> nat"
    and T k :: nat
    and W :: "'l list \<Rightarrow> 'c list \<Rightarrow> 's"
    and eff :: "'a \<Rightarrow> 'l \<Rightarrow> 'c \<Rightarrow> ('l \<times> 'c) res"
  assumes step: "length ls = T \<Longrightarrow> length cs = k \<Longrightarrow> thr a < T \<Longrightarrow> cell a < k \<Longrightarrow>
      act a (W ls cs) = rbind (eff a (ls ! thr a) (cs ! cell a)) (\<lambda>(l, c). Ok (W (ls[thr a := l]) (cs[cell a := c])))"
    and once: "thr a \<noteq> thr b \<Longrightarrow> cell a = cell b \<Longrightarrow> eff a l c = Ok x \<Longrightarrow> eff b l' c = Ok y \<Longrightarrow> False"
    and settled: "thr a \<noteq> thr b \<Longrightarrow> cell a = cell b \<Longrightarrow> eff a l c = Err e \<Longrightarrow> e \<noteq> WouldBlock \<Longrightarrow>
      eff b l' c = Ok (l'', c') \<Longrightarrow> eff a l c' = Err e"
begin

definition shape :: "'s \<Rightarrow> bool" where
  "shape s \<longleftrightarrow> (\<exists>ls cs. s = W ls cs \<and> length ls = T \<and> length cs = k)"

definition in_range :: "'a \<Rightarrow> bool" where
  "in_range a \<longleftrightarrow> thr a < T \<and> cell a < k"

lemma act_Ok:
  assumes "length ls = T" "length cs = k" "in_range a" "act a (W ls cs) = Ok s'"
  shows "\<exists>l c. eff a (ls ! thr a) (cs ! cell a) = Ok (l, c) \<and> s' = W (ls[thr a := l]) (cs[cell a := c])"
proof -
  have "act a (W ls cs) = rbind (eff a (ls ! thr a) (cs ! cell a)) (\<lambda>(l, c). Ok (W (ls[thr a := l]) (cs[cell a := c])))"
    using step [of ls cs a] assms(1-3) by (simp add: in_range_def)
  then show ?thesis using assms(4) by (cases "eff a (ls ! thr a) (cs ! cell a)") (auto split: prod.splits)
qed

lemma shape_step:
  assumes "shape s" "in_range a" "act a s = Ok s'"
  shows "shape s'"
proof -
  obtain ls cs where w: "s = W ls cs" "length ls = T" "length cs = k" using assms(1) by (auto simp: shape_def)
  obtain l c where "s' = W (ls[thr a := l]) (cs[cell a := c])" using act_Ok [OF w(2,3) assms(2)] assms(3) w(1) by blast
  then show ?thesis unfolding shape_def using w(2,3)
    by (intro exI [of _ "ls[thr a := l]"] exI [of _ "cs[cell a := c]"]) simp
qed

lemma commute_step:
  assumes "shape s" "in_range a" "in_range b" "thr a \<noteq> thr b" "act a s = Ok s1" "act b s = Ok s2"
  shows "\<exists>s3. act b s1 = Ok s3 \<and> act a s2 = Ok s3"
proof -
  obtain ls cs where w: "s = W ls cs" "length ls = T" "length cs = k" using assms(1) by (auto simp: shape_def)
  obtain l c where a: "eff a (ls ! thr a) (cs ! cell a) = Ok (l, c)" "s1 = W (ls[thr a := l]) (cs[cell a := c])"
    using act_Ok [OF w(2,3) assms(2)] assms(5) w(1) by blast
  obtain l' c' where b: "eff b (ls ! thr b) (cs ! cell b) = Ok (l', c')" "s2 = W (ls[thr b := l']) (cs[cell b := c'])"
    using act_Ok [OF w(2,3) assms(3)] assms(6) w(1) by blast
  have ne: "cell a \<noteq> cell b" using once [OF assms(4)] a(1) b(1) by fastforce
  have r: "thr a < T" "cell a < k" "thr b < T" "cell b < k" using assms(2,3) by (simp_all add: in_range_def)
  have "act b s1 = Ok (W (ls[thr a := l, thr b := l']) (cs[cell a := c, cell b := c']))"
    unfolding a(2) using w r ne assms(4) b(1) by (subst step) simp_all
  moreover have "act a s2 = Ok (W (ls[thr b := l', thr a := l]) (cs[cell b := c', cell a := c]))"
    unfolding b(2) using w r ne assms(4) a(1) by (subst step) simp_all
  ultimately show ?thesis using list_update_swap [OF assms(4)] list_update_swap [OF ne] by metis
qed

lemma error_stays:
  assumes "shape s" "in_range a" "in_range b" "thr a \<noteq> thr b" "act a s = Err e" "e \<noteq> WouldBlock" "act b s = Ok s1"
  shows "act a s1 = Err e"
proof -
  obtain ls cs where w: "s = W ls cs" "length ls = T" "length cs = k" using assms(1) by (auto simp: shape_def)
  obtain l' c' where b: "eff b (ls ! thr b) (cs ! cell b) = Ok (l', c')" "s1 = W (ls[thr b := l']) (cs[cell b := c'])"
    using act_Ok [OF w(2,3) assms(3)] assms(7) w(1) by blast
  have r: "thr a < T" "cell a < k" using assms(2) by (simp_all add: in_range_def)
  have "act a s = rbind (eff a (ls ! thr a) (cs ! cell a)) (\<lambda>(l, c). Ok (W (ls[thr a := l]) (cs[cell a := c])))"
    unfolding w(1) using w(2,3) r by (rule step)
  then have a: "eff a (ls ! thr a) (cs ! cell a) = Err e" using assms(5) by (cases "eff a (ls ! thr a) (cs ! cell a)") (auto split: prod.splits)
  have "eff a (ls[thr b := l'] ! thr a) (cs[cell b := c'] ! cell a) = Err e"
  proof (cases "cell a = cell b")
    case True
    then show ?thesis using settled [OF assms(4) True a assms(6)] b(1) assms(4) w(3) r by simp
  next
    case False
    then show ?thesis using a assms(4) by simp
  qed
  then show ?thesis unfolding b(2) using w r by (subst step) simp_all
qed

end

sublocale cell_tasks \<subseteq> commuting act thr in_range shape
  by unfold_locales (blast intro: shape_step, blast intro: commute_step, blast intro: error_stays)

section \<open>Strided loops\<close>

text \<open>\<open>for (j = i; j < max; j += T)\<close>.\<close>

function strided :: "nat \<Rightarrow> nat \<Rightarrow> nat \<Rightarrow> nat list" where
  "strided i limit T = (if i < limit \<and> 0 < T then i # strided (i + T) limit T else [])"
  by pat_completeness auto
termination by (relation "measure (\<lambda>(i, limit, T). limit - i)") auto

declare strided.simps [simp del]

lemma strided_filter: "t < T \<Longrightarrow> strided (t + q * T) k T = filter (\<lambda>j. j mod T = t) [t + q * T..<k]"
proof (induction "k - (t + q * T)" arbitrary: q rule: less_induct)
  case less
  let ?i = "t + q * T"
  show ?case
  proof (cases "?i < k")
    case True
    have "filter (\<lambda>j. j mod T = t) [Suc ?i..<min k (?i + T)] = []"
    proof -
      have "j mod T \<noteq> t" if j: "Suc ?i \<le> j" "j < ?i + T" for j
      proof -
        define d where "d = j - ?i"
        have d: "j = t + d + q * T" "0 < d" "d < T" using j by (auto simp: d_def)
        have "(t + d) mod T \<noteq> t"
        proof (cases "t + d < T")
          case False
          then have "(t + d) mod T = t + d - T" using less.prems d(3) by (simp add: mod_if)
          then show ?thesis using d(3) False by linarith
        qed (use d(2) in simp)
        then show ?thesis by (simp add: d(1))
      qed
      then show ?thesis by (auto simp: filter_empty_conv)
    qed
    moreover have "[Suc ?i..<k] = [Suc ?i..<min k (?i + T)] @ [min k (?i + T)..<k]"
    proof -
      have "Suc ?i \<le> min k (?i + T)" using True less.prems by simp
      then show ?thesis using upt_add_eq_append [of "Suc ?i" "min k (?i + T)" "k - min k (?i + T)"] by simp
    qed
    moreover have "filter (\<lambda>j. j mod T = t) [min k (?i + T)..<k] = strided (?i + T) k T"
    proof (cases "?i + T < k")
      case True
      then have "strided (t + Suc q * T) k T = filter (\<lambda>j. j mod T = t) [t + Suc q * T..<k]"
        using less.prems \<open>?i < k\<close> by (intro less.hyps) simp_all
      then show ?thesis using True by (simp add: ac_simps)
    qed (simp add: strided.simps)
    moreover have "strided ?i k T = ?i # strided (?i + T) k T"
      using True less.prems by (subst strided.simps) simp
    moreover have "[?i..<k] = ?i # [Suc ?i..<k]" using True by (simp add: upt_conv_Cons)
    ultimately show ?thesis using less.prems by simp
  qed (simp add: strided.simps)
qed

text \<open>The strided loops of \<open>T\<close> threads are the shares of the whole loop.\<close>

lemma strided_share: "t < T \<Longrightarrow> strided t k T = share (\<lambda>j. j mod T) t [0..<k]"
proof -
  assume t: "t < T"
  have "filter (\<lambda>j. j mod T = t) [0..<k] = filter (\<lambda>j. j mod T = t) [t..<k]"
  proof (cases "t \<le> k")
    case True
    have "filter (\<lambda>j. j mod T = t) [0..<t] = []" using t by (auto simp: filter_empty_conv)
    moreover have "[0..<k] = [0..<t] @ [t..<k]" using upt_add_eq_append [of 0 t "k - t"] True by simp
    ultimately show ?thesis by simp
  next
    case False
    then show ?thesis using t by (auto simp: filter_empty_conv)
  qed
  then show ?thesis using strided_filter [OF t, of 0 k] by (simp add: share_def)
qed

definition threads :: "nat \<Rightarrow> nat \<Rightarrow> nat list list" where
  "threads k T = map (\<lambda>t. strided t k T) [0..<T]"

lemma threads_shares: "threads k T = shares (\<lambda>j. j mod T) T [0..<k]"
  by (simp add: threads_def shares_def strided_share)

text \<open>Strided threads over cells: action \<open>j\<close> works on cell \<open>j\<close>.\<close>

locale strided_tasks =
  fixes act :: "nat \<Rightarrow> 's \<Rightarrow> 's res"
    and T k :: nat
    and W :: "'l list \<Rightarrow> 'c list \<Rightarrow> 's"
    and eff :: "nat \<Rightarrow> 'l \<Rightarrow> 'c \<Rightarrow> ('l \<times> 'c) res"
  assumes strided_step: "length ls = T \<Longrightarrow> length cs = k \<Longrightarrow> 0 < T \<Longrightarrow> j < k \<Longrightarrow>
      act j (W ls cs) = rbind (eff j (ls ! (j mod T)) (cs ! j)) (\<lambda>(l, c). Ok (W (ls[j mod T := l]) (cs[j := c])))"
begin

end

sublocale strided_tasks \<subseteq> cell_tasks act "\<lambda>j. j mod T" "\<lambda>j. j" T k W eff
  by unfold_locales (use strided_step in force)+

context strided_tasks begin

lemma threads_agree:
  assumes "rfold act [0..<k] (W ls cs) = Ok s'" "length ls = T" "length cs = k" "0 < T"
  shows "agrees act (threads k T) (W ls cs) k s'"
  using shares_agree [OF assms(1), of T] assms(2-4) unfolding threads_shares by (auto simp: shape_def in_range_def)

end

section \<open>Steps under a schedule\<close>

text \<open>
  A step under a schedule settles on \<open>x\<close>: it never fails and never returns anything else,
  and it returns when the schedule gives every thread \<open>n\<close> turns.
\<close>

definition settles :: "(nat list \<Rightarrow> 'a res) \<Rightarrow> nat \<Rightarrow> nat \<Rightarrow> 'a \<Rightarrow> bool" where
  "settles f T n x \<longleftrightarrow> (\<forall>sch. (f sch = Ok x \<or> f sch = Err OutOfFuel) \<and> (fair T n sch \<longrightarrow> f sch = Ok x))"

lemma agrees_settles: "agrees act qs s n s' \<Longrightarrow> length qs = T \<Longrightarrow> settles (\<lambda>sch. spawn_join act sch qs s) T n s'"
  by (auto simp: agrees_def settles_def)

lemma settles_bind: "settles f T n x \<Longrightarrow> g x = Ok y \<Longrightarrow> settles (\<lambda>sch. rbind (f sch) g) T n y"
  unfolding settles_def by (metis rbind.simps)

lemma length_threads [simp]: "length (threads k T) = T"
  by (simp add: threads_def)

lemmas settlesI = agrees_settles [OF _ length_threads]

end
