(* ===== verification/OTTasks.thy ===== *)
theory OTTasks
  imports OTExtension Network BloomFilter GarbledBF Concurrency
begin

text \<open>
  The threads of the transfer: \<open>PSI_C_0.1/PSI/Threads/serverTasks.cpp\<close> and
  \<open>clientTasks.cpp\<close>, the multi-threaded operations of \<open>OTExtRcvr.cpp\<close> and
  \<open>OTExtSndr.cpp\<close> they call, and \<open>OTExtRcvr_ReInitialiseMT\<close>.  The function of a thread is
  one iteration of its loop; the loop \<open>for (j = i; j < max; j += thrNum)\<close> of thread \<open>i\<close> is
  \<open>strided i max thrNum\<close>, and \<open>spawn_join\<close> runs the threads under a schedule.  The theorems
  compare them with the single-threaded operations of the theory of the OT extension.
\<close>

section \<open>Base transfers\<close>

definition OTExtSndr_step1Single :: "'p curve \<Rightarrow> OTExtSndr \<Rightarrow> 'p \<Rightarrow> nat \<Rightarrow> 'p res" where
  "OTExtSndr_step1Single E sndr c i = NPOTRcvr_RStep1Single E (y_base sndr) c i"

definition Server_step1Task :: "'p curve \<Rightarrow> OTExtSndr \<Rightarrow> 'p list \<Rightarrow> nat \<Rightarrow> 'p option list \<Rightarrow> 'p option list res" where
  "Server_step1Task E sndr cs j pks =
     rbind (rd cs j) (\<lambda>c. rbind (OTExtSndr_step1Single E sndr c j) (\<lambda>pk. wr pks j (Some pk)))"

definition OTExtRcvr_step2_1Single ::
    "'p curve \<Rightarrow> (md_alg \<Rightarrow> bytes \<Rightarrow> bytes) \<Rightarrow> 'p OTExtRcvr \<Rightarrow> 'p \<Rightarrow> nat \<Rightarrow> MessageDigest \<Rightarrow> (bytes list \<times> 'p) res" where
  "OTExtRcvr_step2_1Single E md rcvr pk0 i H = NPOTSndr_StepSingle E md (x_base rcvr) pk0 i H"

text \<open>The two output arrays \<open>encrypted\<close> and \<open>grs\<close>, written at the same index.\<close>

definition Client_Step2_1Task ::
    "'p curve \<Rightarrow> (md_alg \<Rightarrow> bytes \<Rightarrow> bytes) \<Rightarrow> 'p OTExtRcvr \<Rightarrow> 'p list \<Rightarrow> MessageDigest \<Rightarrow> nat \<Rightarrow>
     bytes list option list \<times> 'p option list \<Rightarrow> (bytes list option list \<times> 'p option list) res" where
  "Client_Step2_1Task E md rcvr pk0s H j = (\<lambda>(encrypted, grs).
     rbind (rd pk0s j) (\<lambda>pk0. rbind (OTExtRcvr_step2_1Single E md rcvr pk0 j H) (\<lambda>(enc, gr).
     rbind (wr encrypted j (Some enc)) (\<lambda>encrypted. rbind (wr grs j (Some gr)) (\<lambda>grs. Ok (encrypted, grs))))))"

definition Server_step3_1Task ::
    "'p curve \<Rightarrow> (md_alg \<Rightarrow> bytes \<Rightarrow> bytes) \<Rightarrow> bytes list list \<Rightarrow> 'p list \<Rightarrow> MessageDigest \<Rightarrow> nat \<Rightarrow> OTExtSndr \<Rightarrow> OTExtSndr res" where
  "Server_step3_1Task E md received grs H j sndr =
     rbind (rd received j) (\<lambda>r. rbind (rd grs j) (\<lambda>gr.
     OTExtSndr_step3_1Single E md sndr r (y_seedByteLen sndr) gr j H))"

section \<open>Matrix columns\<close>

definition OTExtRcvr_step2_2Single ::
    "(bytes \<Rightarrow> nat \<Rightarrow> u8) \<Rightarrow> 'p OTExtRcvr \<Rightarrow> nat \<Rightarrow> (bytes option \<times> 'p OTExtRcvr) res" where
  "OTExtRcvr_step2_2Single K rcvr i =
     rbind (OTExtRcvr_MatrixEncSingle K rcvr i) (\<lambda>rcvr. rbind (rd (bm_data (x_T rcvr)) i) (\<lambda>col. Ok (col, rcvr)))"

text \<open>\<open>toSend\<close> is null in all calls of the sources; otherwise the columns are stored there.\<close>

definition Client_Step2_2Task ::
    "(bytes \<Rightarrow> nat \<Rightarrow> u8) \<Rightarrow> nat \<Rightarrow> 'p OTExtRcvr \<times> bytes option list option \<Rightarrow>
     ('p OTExtRcvr \<times> bytes option list option) res" where
  "Client_Step2_2Task K j = (\<lambda>(rcvr, toSend).
     rbind (OTExtRcvr_step2_2Single K rcvr j) (\<lambda>(col, rcvr).
     case toSend of None \<Rightarrow> Ok (rcvr, None) | Some t \<Rightarrow> rbind (wr t j col) (\<lambda>t. Ok (rcvr, Some t))))"

definition OTExtRcvr_step4_1Single :: "(bytes \<Rightarrow> nat \<Rightarrow> u8) \<Rightarrow> 'p OTExtRcvr \<Rightarrow> nat \<Rightarrow> 'p OTExtRcvr res" where
  "OTExtRcvr_step4_1Single K rcvr i = OTExtRcvr_MatrixDecSingle K rcvr i"

definition OTExtRcvr_step4_1 :: "(bytes \<Rightarrow> nat \<Rightarrow> u8) \<Rightarrow> 'p OTExtRcvr \<Rightarrow> 'p OTExtRcvr res" where
  "OTExtRcvr_step4_1 K rcvr = OTExtRcvr_MatrixDec K rcvr"

definition Client_Step4_1Task :: "(bytes \<Rightarrow> nat \<Rightarrow> u8) \<Rightarrow> nat \<Rightarrow> 'p OTExtRcvr \<Rightarrow> 'p OTExtRcvr res" where
  "Client_Step4_1Task K j rcvr = OTExtRcvr_step4_1Single K rcvr j"

text \<open>The wait for column \<open>j\<close> of the input, then the column of the sender's matrix.\<close>

definition Server_step3_2Task ::
    "(bytes \<Rightarrow> nat \<Rightarrow> u8) \<Rightarrow> bytes option list \<Rightarrow> nat \<Rightarrow> OTExtSndr \<times> BitMatrix \<Rightarrow> (OTExtSndr \<times> BitMatrix) res" where
  "Server_step3_2Task K input j s =
     rbind (rd input j) (\<lambda>p. case p of None \<Rightarrow> Err WouldBlock | Some c \<Rightarrow> OTExtSndr_step3_2Single K c j s)"

definition rcvr_rein_task ::
    "(bytes \<Rightarrow> nat \<Rightarrow> u8) \<Rightarrow> bool \<Rightarrow> nat \<Rightarrow> nat \<Rightarrow> BitMatrix \<times> AESRandom list list \<Rightarrow> (BitMatrix \<times> AESRandom list list) res" where
  "rcvr_rein_task K newMatrix n i =
     (if newMatrix then fresh_column K n i else refill_column K n i)"

definition OTExtRcvr_ReInitialiseMT ::
    "(bytes \<Rightarrow> nat \<Rightarrow> u8) \<Rightarrow> nat \<Rightarrow> nat list \<Rightarrow> 'p OTExtRcvr \<Rightarrow> nat \<Rightarrow> bytes option \<Rightarrow> nat \<Rightarrow> 'p OTExtRcvr res" where
  "OTExtRcvr_ReInitialiseMT K cores sch rcvr m str strByteLen =
     rbind (rassert (m = 8 * strByteLen)) (\<lambda>_.
     let newMatrix = (x_m rcvr \<noteq> m);
         T = (if newMatrix then BM_Create m (x_k rcvr) else x_T rcvr) in
     rbind (spawn_join (rcvr_rein_task K newMatrix strByteLen) sch (threads (bm_k T) cores) (T, x_rnd rcvr))
       (\<lambda>(T, rnds). Ok (rcvr\<lparr>x_str := str, x_lz := 0, x_strByteLen := strByteLen, x_m := m, x_T := T, x_rnd := rnds\<rparr>)))"

section \<open>Masking and sending the strings\<close>

text \<open>The variants with the buffers of the thread instead of those of the sender or receiver.\<close>

definition OTExtSndr_step3_3SingleMT ::
    "(md_alg \<Rightarrow> bytes \<Rightarrow> bytes) \<Rightarrow> OTExtSndr \<Rightarrow> BitMatrix \<Rightarrow> nat \<Rightarrow> MessageDigest \<Rightarrow> bytes \<Rightarrow> bytes \<Rightarrow>
     (bytes \<times> bytes \<times> bytes \<times> OTExtSndr) res" where
  "OTExtSndr_step3_3SingleMT md sndr Q j H rowBuf hashBuf =
     rbind (wr_blk rowBuf 0 (replicate (y_sByteLen sndr) 0)) (\<lambda>rowBuf.
     rbind (BM_GetRow Q j rowBuf (y_sByteLen sndr)) (\<lambda>rowBuf.
     rbind (xorByteArray rowBuf (y_s sndr) (y_sByteLen sndr)) (\<lambda>rowBuf.
     rbind (rd_blk rowBuf 0 (y_sByteLen sndr)) (\<lambda>row.
     rbind (wr_blk hashBuf 0 (row_hash md H row j)) (\<lambda>hashBuf.
     rbind (rd (y_toSend sndr) j) (\<lambda>p.
     rbind (case p of
              Some x \<Rightarrow> xorByteArray x hashBuf (y_lByteLength sndr)
            | None \<Rightarrow> rd_blk hashBuf 0 (y_lByteLength sndr)) (\<lambda>x.
     rbind (wr (y_toSend sndr) j (Some x)) (\<lambda>t. Ok (x, rowBuf, hashBuf, sndr\<lparr>y_toSend := t\<rparr>)))))))))"

definition OTExtRcvr_step4_2SingleMT ::
    "(md_alg \<Rightarrow> bytes \<Rightarrow> bytes) \<Rightarrow> 'p OTExtRcvr \<Rightarrow> bytes \<Rightarrow> nat \<Rightarrow> nat \<Rightarrow> MessageDigest \<Rightarrow> bytes \<Rightarrow> bytes \<Rightarrow>
     (bytes \<times> bytes \<times> bytes) res" where
  "OTExtRcvr_step4_2SingleMT md rcvr received recLen i H rowBuf hashBuf =
     (let n = byteLenRow (x_T rcvr) in
     rbind (wr_blk rowBuf 0 (replicate n 0)) (\<lambda>rowBuf.
     rbind (BM_GetRow (x_T rcvr) i rowBuf n) (\<lambda>rowBuf.
     rbind (rd_blk rowBuf 0 n) (\<lambda>row.
     rbind (wr_blk hashBuf 0 (row_hash md H row i)) (\<lambda>hashBuf.
     rbind (xorByteArray received hashBuf recLen) (\<lambda>x. Ok (x, rowBuf, hashBuf)))))))"

text \<open>
  The nested loops of the input and the output thread: bunches of 50 strings, a shorter
  one at the end.  An iteration is the start of its bunch, the size of the bunch and the
  position in it.
\<close>

function bunches :: "nat \<Rightarrow> nat \<Rightarrow> nat \<Rightarrow> (nat \<times> nat) list" where
  "bunches n i bunch =
     (if i < n \<and> 0 < bunch
      then (i, bunch_of n i bunch) # bunches n (i + bunch_of n i bunch) (bunch_of n i bunch)
      else [])"
  by pat_completeness auto
termination by (relation "measure (\<lambda>(n, i, _). n - i)") (auto simp: bunch_of_def)

declare bunches.simps [simp del]

definition io_loop :: "nat \<Rightarrow> (nat \<times> nat \<times> nat) list" where
  "io_loop n = concat (map (\<lambda>(i, bunch). map (\<lambda>j. (i, bunch, j)) [0..<bunch]) (bunches n 0 50))"

definition Server_outputThread ::
    "bytes option list \<Rightarrow> nat \<times> nat \<times> nat \<Rightarrow> bytes \<times> sock \<Rightarrow> (bytes \<times> sock) res" where
  "Server_outputThread shared = (\<lambda>(i, bunch, j) (e, s).
     rbind (rd shared (i + j)) (\<lambda>p.
     case p of None \<Rightarrow> Err WouldBlock
     | Some x \<Rightarrow>
         rbind (rd_blk x 0 GBFSigmaByteLen) (\<lambda>b. rbind (wr_blk e (j * GBFSigmaByteLen) b) (\<lambda>e.
         if j + 1 = bunch then Ok (e, send s (take (bunch * GBFSigmaByteLen) e)) else Ok (e, s)))))"

definition Server_step3_3Task ::
    "(md_alg \<Rightarrow> bytes \<Rightarrow> bytes) \<Rightarrow> BitMatrix \<Rightarrow> MessageDigest \<Rightarrow> nat \<Rightarrow>
     (bytes \<times> bytes) \<times> OTExtSndr \<times> bytes option list \<Rightarrow> ((bytes \<times> bytes) \<times> OTExtSndr \<times> bytes option list) res" where
  "Server_step3_3Task md Q H j = (\<lambda>((rowBuf, hashBuf), sndr, shared).
     rbind (OTExtSndr_step3_3SingleMT md sndr Q j H rowBuf hashBuf) (\<lambda>(x, rowBuf, hashBuf, sndr).
     rbind (wr shared j (Some x)) (\<lambda>shared. Ok ((rowBuf, hashBuf), sndr, shared))))"

section \<open>Receiving and unmasking the strings\<close>

text \<open>A cell of the array of received strings: still null, freed, or a block of bytes.\<close>

datatype cell = Null | Freed | Block bytes

text \<open>A call that never returns is, like a poll that finds nothing, not enabled.\<close>

definition of_call :: "'a res option \<Rightarrow> 'a res" where
  "of_call r = (case r of None \<Rightarrow> Err WouldBlock | Some x \<Rightarrow> x)"

text \<open>The state of the input thread: its buffer, the pointer \<open>e\<close> into it and the socket.\<close>

definition Client_inputThread ::
    "nat \<times> nat \<times> nat \<Rightarrow> (bytes \<times> nat \<times> sock) \<times> cell list \<Rightarrow> ((bytes \<times> nat \<times> sock) \<times> cell list) res" where
  "Client_inputThread = (\<lambda>(i, bunch, j) ((buf, e, s), shared).
     let total = bunch * GBFSigmaByteLen in
     rbind (if j = 0
            then rbind (of_call (receiveBulk s total (drop e buf))) (\<lambda>(bs, s). Ok (take e buf @ bs, s))
            else Ok (buf, s)) (\<lambda>(buf, s).
     rbind (rd_blk buf (e + j * GBFSigmaByteLen) GBFSigmaByteLen) (\<lambda>ba.
     rbind (wr shared (i + j) (Block ba)) (\<lambda>shared.
     Ok ((buf, if j + 1 = bunch then e + total else e, s), shared)))))"

definition Client_Step4_2Task ::
    "(md_alg \<Rightarrow> bytes \<Rightarrow> bytes) \<Rightarrow> 'p OTExtRcvr \<Rightarrow> MessageDigest \<Rightarrow> bool \<Rightarrow> nat \<Rightarrow>
     (bytes \<times> bytes) \<times> cell list \<Rightarrow> ((bytes \<times> bytes) \<times> cell list) res" where
  "Client_Step4_2Task md rcvr H partial j = (\<lambda>((rowBuf, hashBuf), shared).
     rbind (rd shared j) (\<lambda>p.
     case p of Null \<Rightarrow> Err WouldBlock
     | _ \<Rightarrow>
         rbind (deref (x_str rcvr)) (\<lambda>selection.
         rbind (getBit selection (int j) (int (x_lz rcvr))) (\<lambda>b.
         if b then
           (case p of
              Block x \<Rightarrow>
                rbind (OTExtRcvr_step4_2SingleMT md rcvr x GBFSigmaByteLen j H rowBuf hashBuf) (\<lambda>(x, rowBuf, hashBuf).
                rbind (wr shared j (Block x)) (\<lambda>shared. Ok ((rowBuf, hashBuf), shared)))
            | _ \<Rightarrow> Err NullDeref)
         else if partial then rbind (wr shared j Freed) (\<lambda>shared. Ok ((rowBuf, hashBuf), shared))
         else Ok ((rowBuf, hashBuf), shared)))))"

text \<open>One iteration of the query thread: the elements found go to the front of its list.\<close>

definition Client_QueryTask ::
    "GarbledBF \<Rightarrow> int list list \<Rightarrow> nat \<Rightarrow> bytes list \<Rightarrow> bytes list \<Rightarrow> nat \<Rightarrow> bytes list \<Rightarrow> bytes list res" where
  "Client_QueryTask filt indexes hashNum eHashes S j L =
     rbind (rd indexes j) (\<lambda>idx. rbind (rd eHashes j) (\<lambda>h.
     rbind (GBF_query_With_Indexes filt idx hashNum h) (\<lambda>b.
     if b then rbind (rd S j) (\<lambda>x. Ok (x # L)) else Ok L)))"

section \<open>Threads of single columns and seeds\<close>

text \<open>
  Every group works on separate cells of the shared arrays, so each is an instance of the
  strided tasks; \<open>eff\<close> is the effect of an iteration on its cell.
\<close>

definition step1_eff :: "'p curve \<Rightarrow> OTExtSndr \<Rightarrow> 'p list \<Rightarrow> nat \<Rightarrow> unit \<Rightarrow> 'p option \<Rightarrow> (unit \<times> 'p option) res" where
  "step1_eff E sndr cs j l _ = rbind (rd cs j) (\<lambda>c. rbind (OTExtSndr_step1Single E sndr c j) (\<lambda>pk. Ok (l, Some pk)))"

interpretation step1: strided_tasks "Server_step1Task E sndr cs" T k "\<lambda>_ pks. pks" "step1_eff E sndr cs"
  for E sndr cs T k
  by unfold_locales (simp add: Server_step1Task_def step1_eff_def rbind_assoc)

definition step2_1_eff ::
    "'p curve \<Rightarrow> (md_alg \<Rightarrow> bytes \<Rightarrow> bytes) \<Rightarrow> 'p OTExtRcvr \<Rightarrow> 'p list \<Rightarrow> MessageDigest \<Rightarrow> nat \<Rightarrow> unit \<Rightarrow>
     bytes list option \<times> 'p option \<Rightarrow> (unit \<times> bytes list option \<times> 'p option) res" where
  "step2_1_eff E md rcvr pk0s H j l _ = rbind (rd pk0s j) (\<lambda>pk0.
     rbind (OTExtRcvr_step2_1Single E md rcvr pk0 j H) (\<lambda>(enc, gr). Ok (l, Some enc, Some gr)))"

interpretation step2_1: strided_tasks "Client_Step2_1Task E md rcvr pk0s H" T k "\<lambda>_ cs. (map fst cs, map snd cs)"
  "step2_1_eff E md rcvr pk0s H" for E md rcvr pk0s H T k
  by unfold_locales (simp add: Client_Step2_1Task_def step2_1_eff_def rbind_assoc case_prod_unfold map_update)

definition step3_1_eff ::
    "'p curve \<Rightarrow> (md_alg \<Rightarrow> bytes \<Rightarrow> bytes) \<Rightarrow> OTExtSndr \<Rightarrow> bytes list list \<Rightarrow> 'p list \<Rightarrow> MessageDigest \<Rightarrow> nat \<Rightarrow> unit \<Rightarrow>
     AESRandom option \<Rightarrow> (unit \<times> AESRandom option) res" where
  "step3_1_eff E md sndr received grs H j l _ = rbind (rd received j) (\<lambda>r. rbind (rd grs j) (\<lambda>gr.
     rbind (NPOTRcvr_RStep2Single E md (y_base sndr) r (y_seedByteLen sndr) gr j H) (\<lambda>out.
     rbind (getSeededRandomInstance out (int (y_k sndr))) (\<lambda>g. Ok (l, Some g)))))"

interpretation step3_1: strided_tasks "Server_step3_1Task E md received grs H" T k "\<lambda>_ rnds. sndr\<lparr>y_rnd := rnds\<rparr>"
  "step3_1_eff E md sndr received grs H" for E md received grs H T k sndr
  by unfold_locales (simp add: Server_step3_1Task_def step3_1_eff_def OTExtSndr_step3_1Single_def rbind_assoc)

definition enc_eff ::
    "(bytes \<Rightarrow> nat \<Rightarrow> u8) \<Rightarrow> 'p OTExtRcvr \<Rightarrow> nat \<Rightarrow> unit \<Rightarrow> bytes option \<times> AESRandom list \<Rightarrow>
     (unit \<times> bytes option \<times> AESRandom list) res" where
  "enc_eff K rcvr j l = (\<lambda>(p, gs). rbind (deref p) (\<lambda>col. rbind (rd gs 1) (\<lambda>g.
     rbind (AESRandom_NextBytes K g col (x_strByteLen rcvr)) (\<lambda>(col, g').
     rbind (wr gs 1 g') (\<lambda>gs'. rbind (deref (x_str rcvr)) (\<lambda>str.
     rbind (xorByteArray col str (x_strByteLen rcvr)) (\<lambda>col. Ok (l, Some col, gs'))))))))"

interpretation step2_2: strided_tasks "Client_Step2_2Task K" T k "\<lambda>_ cs. (with_cols rcvr cs, None)" "enc_eff K rcvr"
  for K T k rcvr
  by unfold_locales (simp add: Client_Step2_2Task_def OTExtRcvr_step2_2Single_def OTExtRcvr_MatrixEncSingle_def
    rcvr_next_def enc_eff_def rbind_assoc case_prod_beta map_update with_cols_def)

definition dec_eff ::
    "(bytes \<Rightarrow> nat \<Rightarrow> u8) \<Rightarrow> 'p OTExtRcvr \<Rightarrow> nat \<Rightarrow> unit \<Rightarrow> bytes option \<times> AESRandom list \<Rightarrow>
     (unit \<times> bytes option \<times> AESRandom list) res" where
  "dec_eff K rcvr j l = (\<lambda>(p, gs). rbind (deref p) (\<lambda>col.
     rbind (wr_blk col 0 (replicate (x_strByteLen rcvr) 0)) (\<lambda>col. rbind (rd gs 2) (\<lambda>g.
     rbind (AESRandom_NextBytes K g col (x_strByteLen rcvr)) (\<lambda>(col, g').
     rbind (wr gs 2 g') (\<lambda>gs'. Ok (l, Some col, gs')))))))"

interpretation step4_1: strided_tasks "Client_Step4_1Task K" T k "\<lambda>_ cs. with_cols rcvr cs" "dec_eff K rcvr"
  for K T k rcvr
  by unfold_locales (simp add: Client_Step4_1Task_def OTExtRcvr_step4_1Single_def OTExtRcvr_MatrixDecSingle_def
    rcvr_next_def dec_eff_def rbind_assoc case_prod_beta map_update with_cols_def)

definition rein_eff ::
    "(bytes \<Rightarrow> nat \<Rightarrow> u8) \<Rightarrow> bool \<Rightarrow> nat \<Rightarrow> BitMatrix \<Rightarrow> nat \<Rightarrow> unit \<Rightarrow> bytes option \<times> AESRandom list \<Rightarrow>
     (unit \<times> bytes option \<times> AESRandom list) res" where
  "rein_eff K new n T j l = (\<lambda>(p, gs).
     rbind (if new then Ok (replicate n 0) else rbind (deref p) (\<lambda>col. wr_blk col 0 (replicate n 0))) (\<lambda>col.
     rbind (rd gs 0) (\<lambda>g. rbind (AESRandom_NextBytes K g col n) (\<lambda>(col, g'). rbind (wr gs 0 g') (\<lambda>gs'.
     rbind (rassert (\<not> new \<or> j < bm_k T)) (\<lambda>_. rbind (rassert (\<not> new \<or> n = byteLenCol T)) (\<lambda>_.
     Ok (l, Some col, gs'))))))))"

interpretation rein: strided_tasks "rcvr_rein_task K new n" T k "\<lambda>_ cs. cols_of M cs" "rein_eff K new n M"
  for K new n T k M
  by unfold_locales (simp add: rcvr_rein_task_def fresh_column_def refill_column_def BM_SetColumn_def rassert_def
    rcvr_next_def rein_eff_def rbind_assoc case_prod_beta map_update cols_of_def)

definition step3_2_eff ::
    "(bytes \<Rightarrow> nat \<Rightarrow> u8) \<Rightarrow> bytes option list \<Rightarrow> OTExtSndr \<Rightarrow> BitMatrix \<Rightarrow> nat \<Rightarrow> unit \<Rightarrow>
     AESRandom option \<times> bytes option \<Rightarrow> (unit \<times> AESRandom option \<times> bytes option) res" where
  "step3_2_eff K input sndr out j l = (\<lambda>(g, _).
     rbind (rd input j) (\<lambda>p. case p of None \<Rightarrow> Err WouldBlock | Some c \<Rightarrow>
     rbind (getBit (y_s sndr) (int j) (int (y_sLeadingZeroes sndr))) (\<lambda>b.
     rbind (deref g) (\<lambda>g.
     rbind (if b then Ok c else wr_blk c 0 (replicate (byteLenCol out) 0)) (\<lambda>c.
     rbind (AESRandom_NextBytes K g c (byteLenCol out)) (\<lambda>(col, g').
     rbind (rassert (j < bm_k out)) (\<lambda>_. Ok (l, Some g', Some col))))))))"

lemma rassert_True: "rassert True = Ok ()"
  by (simp add: rassert_def)

lemma step3_2_step:
  assumes "length cs = k" "j < k"
  shows "Server_step3_2Task K input j (with_gens sndr out cs) =
    rbind (step3_2_eff K input sndr out j l (cs ! j)) (\<lambda>p. Ok (with_gens sndr out (cs[j := snd p])))"
proof (cases "rd input j")
  case (Inr p)
  then show ?thesis using assms
    by (cases p) (simp_all add: Server_step3_2Task_def OTExtSndr_step3_2Single_def BM_SetColumn_def
      step3_2_eff_def rbind_assoc case_prod_unfold map_update with_gens_def rassert_True cong: if_cong)
qed (simp add: Server_step3_2Task_def step3_2_eff_def)

interpretation step3_2: strided_tasks "Server_step3_2Task K input" T k "\<lambda>_ cs. with_gens sndr out cs"
  "step3_2_eff K input sndr out" for K input T k sndr out
  by unfold_locales (simp add: step3_2_step [where l = "()"] case_prod_unfold)

section \<open>The threaded steps\<close>

lemma rmap_deref_Some: "rmap deref (map Some xs) = Ok xs"
  by (induction xs) (simp_all add: deref_def)

definition Server_step1_MT :: "'p curve \<Rightarrow> nat \<Rightarrow> OTExtSndr \<Rightarrow> 'p list \<Rightarrow> nat list \<Rightarrow> 'p list res" where
  "Server_step1_MT E T sndr cs sch =
     rbind (spawn_join (Server_step1Task E sndr cs) sch (threads (y_k sndr) T) (replicate (y_k sndr) None)) (rmap deref)"

definition Client_step2_1_MT ::
    "'p curve \<Rightarrow> (md_alg \<Rightarrow> bytes \<Rightarrow> bytes) \<Rightarrow> nat \<Rightarrow> 'p OTExtRcvr \<Rightarrow> 'p list \<Rightarrow> nat list \<Rightarrow> (bytes list list \<times> 'p list) res" where
  "Client_step2_1_MT E md T rcvr pk0s sch =
     rbind (getHashInstance (x_secLev rcvr)) (\<lambda>H.
     rbind (spawn_join (Client_Step2_1Task E md rcvr pk0s H) sch (threads (x_k rcvr) T)
              (replicate (x_k rcvr) None, replicate (x_k rcvr) None)) (\<lambda>(encrypted, grs).
     rbind (rmap deref encrypted) (\<lambda>encrypted. rbind (rmap deref grs) (\<lambda>grs. Ok (encrypted, grs)))))"

definition Server_step3_1_MT ::
    "'p curve \<Rightarrow> (md_alg \<Rightarrow> bytes \<Rightarrow> bytes) \<Rightarrow> nat \<Rightarrow> OTExtSndr \<Rightarrow> bytes list list \<Rightarrow> 'p list \<Rightarrow> nat list \<Rightarrow> OTExtSndr res" where
  "Server_step3_1_MT E md T sndr received grs sch =
     rbind (getHashInstance (int (y_k sndr))) (\<lambda>H.
     spawn_join (Server_step3_1Task E md received grs H) sch (threads (y_k sndr) T) sndr)"

lemma step1_settles:
  assumes seq: "OTExtSndr_step1 E sndr cs = Ok pks" and k: "r_strBitLen (y_base sndr) = y_k sndr" and T: "0 < T"
  shows "settles (Server_step1_MT E T sndr cs) T (y_k sndr) pks"
proof -
  let ?f = "\<lambda>j. rbind (rd cs j) (\<lambda>c. OTExtSndr_step1Single E sndr c j)"
  have "rmap ?f [0..<y_k sndr] = Ok pks"
    using seq k by (simp add: OTExtSndr_step1_def NPOTRcvr_RStep1_def OTExtSndr_step1Single_def)
  then have "rfold (\<lambda>j t. rbind (?f j) (\<lambda>x. wr t j (Some x))) [0..<y_k sndr] (replicate (y_k sndr) None) = Ok (map Some pks)"
    by (rule rfold_collect)
  then have "rfold (Server_step1Task E sndr cs) [0..<y_k sndr] (replicate (y_k sndr) None) = Ok (map Some pks)"
    by (simp add: Server_step1Task_def [abs_def] rbind_assoc)
  then have "agrees (Server_step1Task E sndr cs) (threads (y_k sndr) T) (replicate (y_k sndr) None) (y_k sndr) (map Some pks)"
    using T by (intro step1.threads_agree [where ls = "replicate T ()"]) simp_all
  from settlesI [OF this] show ?thesis unfolding Server_step1_MT_def [abs_def]
    by (rule settles_bind) (rule rmap_deref_Some)
qed

lemma step2_1_settles:
  assumes seq: "OTExtRcvr_step2_1 E md rcvr pk0s = Ok (encs, grs)" and k: "s_k (x_base rcvr) = x_k rcvr"
    and g: "length (s_grs (x_base rcvr)) = x_k rcvr" and H: "getHashInstance (x_secLev rcvr) = Ok (s_md (x_base rcvr))"
    and T: "0 < T"
  shows "settles (Client_step2_1_MT E md T rcvr pk0s) T (x_k rcvr) (encs, grs)"
proof -
  let ?k = "x_k rcvr" and ?H = "s_md (x_base rcvr)"
  have grs: "grs = s_grs (x_base rcvr)" and m: "rmap (\<lambda>i. rbind (rd pk0s i) (\<lambda>pk.
      rbind (NPOTSndr_StepSingle E md (x_base rcvr) pk i ?H) (\<lambda>(enc, gr). Ok enc))) [0..<?k] = Ok encs"
    using seq k by (auto simp: OTExtRcvr_step2_1_def NPOTSndr_Step_def res_simps)
  have len: "length encs = ?k" using rmap_nth [OF m] by simp
  have one: "rbind (rd pk0s i) (\<lambda>pk. NPOTSndr_StepSingle E md (x_base rcvr) pk i ?H) = Ok (encs ! i, grs ! i)" if "i < ?k" for i
  proof -
    have "rbind (rd pk0s i) (\<lambda>pk. rbind (NPOTSndr_StepSingle E md (x_base rcvr) pk i ?H) (\<lambda>(enc, gr). Ok enc)) = Ok (encs ! i)"
      using rmap_nth [OF m] that by simp
    then obtain pk gr where pk: "rd pk0s i = Ok pk" "NPOTSndr_StepSingle E md (x_base rcvr) pk i ?H = Ok (encs ! i, gr)"
      by (auto simp: res_simps)
    then have "gr = grs ! i" using g that grs by (auto simp: NPOTSndr_StepSingle_def Let_def res_simps)
    then show ?thesis using pk by simp
  qed
  have "rfold (Client_Step2_1Task E md rcvr pk0s ?H) [0..<?k] ((\<lambda>cs. (map fst cs, map snd cs)) (replicate ?k (None, None)))
      = Ok ((\<lambda>cs. (map fst cs, map snd cs)) (map (\<lambda>i. (Some (encs ! i), Some (grs ! i))) [0..<?k]))"
  proof (rule rfold_pointwise)
    fix i and ys :: "(bytes list option \<times> 'a option) list"
    assume "i < ?k" "length ys = ?k"
    then show "Client_Step2_1Task E md rcvr pk0s ?H i (map fst ys, map snd ys)
        = Ok (map fst (ys[i := (Some (encs ! i), Some (grs ! i))]), map snd (ys[i := (Some (encs ! i), Some (grs ! i))]))"
      using one [of i] by (auto simp: Client_Step2_1Task_def OTExtRcvr_step2_1Single_def res_simps map_update)
  qed simp
  moreover have "map (\<lambda>i. Some (encs ! i)) [0..<?k] = map Some encs" "map (\<lambda>i. Some (grs ! i)) [0..<?k] = map Some grs"
    using len g grs by (auto intro!: nth_equalityI)
  ultimately have "rfold (Client_Step2_1Task E md rcvr pk0s ?H) [0..<?k] (replicate ?k None, replicate ?k None)
      = Ok (map Some encs, map Some grs)"
    by (simp add: comp_def)
  then have "agrees (Client_Step2_1Task E md rcvr pk0s ?H) (threads ?k T) (replicate ?k None, replicate ?k None) ?k
      (map Some encs, map Some grs)"
    using T by (intro step2_1.threads_agree [where ls = "replicate T ()" and cs = "replicate ?k (None, None)", simplified]) simp_all
  from settlesI [OF this] show ?thesis unfolding Client_step2_1_MT_def [abs_def] H rbind.simps
    by (rule settles_bind) (simp add: rmap_deref_Some)
qed

lemma step3_1_settles:
  assumes seq: "OTExtSndr_step3_1 E md sndr received (y_seedByteLen sndr) grs = Ok sndr'"
    and k: "length (y_rnd sndr) = y_k sndr" and H: "getHashInstance (int (y_k sndr)) = Ok (y_H sndr)" and T: "0 < T"
  shows "settles (Server_step3_1_MT E md T sndr received grs) T (y_k sndr) sndr'"
proof -
  have "\<exists>t'. rfold (Server_step3_1Task E md received grs (y_H sndr)) [0..<y_k sndr] sndr = Ok t' \<and>
      sndr' = t' \<and> y_H t' = y_H sndr \<and> y_seedByteLen t' = y_seedByteLen sndr"
    using seq unfolding OTExtSndr_step3_1_def
    by (rule rfold_upt_sim [where R = "\<lambda>i s t. s = t \<and> y_H t = y_H sndr \<and> y_seedByteLen t = y_seedByteLen sndr"])
      (auto simp: Server_step3_1Task_def OTExtSndr_step3_1Single_def res_simps)
  then have "agrees (Server_step3_1Task E md received grs (y_H sndr)) (threads (y_k sndr) T) (sndr\<lparr>y_rnd := y_rnd sndr\<rparr>)
      (y_k sndr) sndr'"
    using k T by (intro step3_1.threads_agree [where ls = "replicate T ()"]) simp_all
  then show ?thesis unfolding Server_step3_1_MT_def H rbind.simps by (intro settlesI) simp
qed

definition Client_step2_2_MT ::
    "(bytes \<Rightarrow> nat \<Rightarrow> u8) \<Rightarrow> nat \<Rightarrow> 'p OTExtRcvr \<Rightarrow> nat list \<Rightarrow> (bytes option list \<times> 'p OTExtRcvr) res" where
  "Client_step2_2_MT K T rcvr sch =
     rbind (spawn_join (Client_Step2_2Task K) sch (threads (x_k rcvr) T) (rcvr, None))
       (\<lambda>(rcvr, _). Ok (bm_data (x_T rcvr), rcvr))"

definition Client_step4_1_MT :: "(bytes \<Rightarrow> nat \<Rightarrow> u8) \<Rightarrow> nat \<Rightarrow> 'p OTExtRcvr \<Rightarrow> nat list \<Rightarrow> 'p OTExtRcvr res" where
  "Client_step4_1_MT K T rcvr sch = spawn_join (Client_Step4_1Task K) sch (threads (x_k rcvr) T) rcvr"

definition Server_step3_2_MT ::
    "(bytes \<Rightarrow> nat \<Rightarrow> u8) \<Rightarrow> nat \<Rightarrow> OTExtSndr \<Rightarrow> bytes option list \<Rightarrow> nat list \<Rightarrow> (OTExtSndr \<times> BitMatrix) res" where
  "Server_step3_2_MT K T sndr input sch =
     spawn_join (Server_step3_2Task K input) sch (threads (y_k sndr) T) (sndr, BM_Create (y_m sndr) (y_k sndr))"

text \<open>The columns and generators have one entry per base transfer.\<close>

definition rcvr_sized :: "'p OTExtRcvr \<Rightarrow> bool" where
  "rcvr_sized rcvr \<longleftrightarrow> length (bm_data (x_T rcvr)) = x_k rcvr \<and> length (x_rnd rcvr) = x_k rcvr \<and> bm_k (x_T rcvr) = x_k rcvr"

lemma step2_2_settles:
  assumes seq: "OTExtRcvr_step2_2 K rcvr = Ok (cols, rcvr')" and k: "rcvr_sized rcvr" and T: "0 < T"
  shows "settles (Client_step2_2_MT K T rcvr) T (x_k rcvr) (cols, rcvr')"
proof -
  have enc: "rfold (\<lambda>i r. OTExtRcvr_MatrixEncSingle K r i) [0..<x_k rcvr] rcvr = Ok rcvr'" and cols: "cols = bm_data (x_T rcvr')"
    using seq by (auto simp: OTExtRcvr_step2_2_def OTExtRcvr_MatrixEnc_def res_simps)
  have "\<exists>t'. rfold (Client_Step2_2Task K) [0..<x_k rcvr] (rcvr, None) = Ok t' \<and> t' = (rcvr', None)"
    using enc
  proof (rule rfold_upt_sim [where R = "\<lambda>i s t. t = (s, None)"])
    fix i s and t :: "'a OTExtRcvr \<times> bytes option list option" and s'
    assume t: "t = (s, None)" and st: "OTExtRcvr_MatrixEncSingle K s i = Ok s'"
    have "i < length (bm_data (x_T s'))"
      using st by (auto simp: OTExtRcvr_MatrixEncSingle_def res_simps wr_def split: if_splits)
    then show "\<exists>t'. Client_Step2_2Task K i t = Ok t' \<and> t' = (s', None)"
      using st t by (simp add: Client_Step2_2Task_def OTExtRcvr_step2_2Single_def)
  qed simp_all
  then have "rfold (Client_Step2_2Task K) [0..<x_k rcvr] (with_cols rcvr (zip (bm_data (x_T rcvr)) (x_rnd rcvr)), None) = Ok (rcvr', None)"
    using k by (simp add: with_cols_zip rcvr_sized_def)
  then have "agrees (Client_Step2_2Task K) (threads (x_k rcvr) T) (with_cols rcvr (zip (bm_data (x_T rcvr)) (x_rnd rcvr)), None)
      (x_k rcvr) (rcvr', None)"
    using k T by (intro step2_2.threads_agree [where ls = "replicate T ()"]) (simp_all add: rcvr_sized_def)
  then have "agrees (Client_Step2_2Task K) (threads (x_k rcvr) T) (rcvr, None) (x_k rcvr) (rcvr', None)"
    using k by (simp add: with_cols_zip rcvr_sized_def)
  from settlesI [OF this] show ?thesis unfolding Client_step2_2_MT_def [abs_def]
    by (rule settles_bind) (simp add: cols)
qed

lemma step4_1_settles:
  assumes seq: "OTExtRcvr_step4_1 K rcvr = Ok rcvr'" and k: "rcvr_sized rcvr" and T: "0 < T"
  shows "settles (Client_step4_1_MT K T rcvr) T (x_k rcvr) rcvr'"
proof -
  have "rfold (Client_Step4_1Task K) [0..<x_k rcvr] (with_cols rcvr (zip (bm_data (x_T rcvr)) (x_rnd rcvr))) = Ok rcvr'"
    using seq k by (simp add: OTExtRcvr_step4_1_def OTExtRcvr_MatrixDec_def Client_Step4_1Task_def [abs_def]
      OTExtRcvr_step4_1Single_def with_cols_zip rcvr_sized_def)
  then have "agrees (Client_Step4_1Task K) (threads (x_k rcvr) T) (with_cols rcvr (zip (bm_data (x_T rcvr)) (x_rnd rcvr)))
      (x_k rcvr) rcvr'"
    using k T by (intro step4_1.threads_agree [where ls = "replicate T ()"]) (simp_all add: rcvr_sized_def)
  then have "agrees (Client_Step4_1Task K) (threads (x_k rcvr) T) rcvr (x_k rcvr) rcvr'"
    using k by (simp add: with_cols_zip rcvr_sized_def)
  from settlesI [OF this] show ?thesis by (simp add: Client_step4_1_MT_def [abs_def])
qed

lemma reinit_settles:
  assumes seq: "OTExtRcvr_ReInitialise K rcvr m str n = Ok rcvr'" and k: "rcvr_sized rcvr" and T: "0 < T"
  shows "settles (\<lambda>sch. OTExtRcvr_ReInitialiseMT K T sch rcvr m str n) T (x_k rcvr) rcvr'"
proof -
  let ?new = "x_m rcvr \<noteq> m"
  let ?M = "if ?new then BM_Create m (x_k rcvr) else x_T rcvr"
  have m: "m = 8 * n" using seq by (auto simp: OTExtRcvr_ReInitialise_def rassert_def res_simps split: if_splits)
  have M: "bm_k ?M = x_k rcvr" "length (bm_data ?M) = x_k rcvr" using k by (auto simp: rcvr_sized_def BM_Create_def Let_def)
  obtain T1 rnds where loop: "rfold (rcvr_rein_task K ?new n) [0..<x_k rcvr] (?M, x_rnd rcvr) = Ok (T1, rnds)"
    and r: "rcvr' = rcvr\<lparr>x_str := str, x_lz := 0, x_strByteLen := n, x_m := m, x_T := T1, x_rnd := rnds\<rparr>"
    using seq by (cases ?new) (auto simp: OTExtRcvr_ReInitialise_def rcvr_rein_task_def [abs_def] rassert_def res_simps split: if_splits)
  have w: "(?M, x_rnd rcvr) = cols_of ?M (zip (bm_data ?M) (x_rnd rcvr))" using M k by (simp add: cols_of_zip rcvr_sized_def)
  have "agrees (rcvr_rein_task K ?new n) (threads (x_k rcvr) T) (cols_of ?M (zip (bm_data ?M) (x_rnd rcvr))) (x_k rcvr) (T1, rnds)"
    using loop k T M unfolding w by (intro rein.threads_agree [where ls = "replicate T ()"]) (simp_all add: rcvr_sized_def)
  from settlesI [OF this [folded w]]
  have "settles (\<lambda>sch. rbind (spawn_join (rcvr_rein_task K ?new n) sch (threads (x_k rcvr) T) (?M, x_rnd rcvr))
       (\<lambda>(T, rnds). Ok (rcvr\<lparr>x_str := str, x_lz := 0, x_strByteLen := n, x_m := m, x_T := T, x_rnd := rnds\<rparr>))) T (x_k rcvr) rcvr'"
    by (rule settles_bind) (simp add: r)
  moreover have "rassert (m = 8 * n) = Ok ()" by (simp add: m rassert_True)
  ultimately show ?thesis by (simp only: OTExtRcvr_ReInitialiseMT_def Let_def M(1) rbind.simps)
qed

lemma step3_2_settles:
  assumes seq: "OTExtSndr_step3_2 K sndr input = Ok (sndr', Q)" and k: "length (y_rnd sndr) = y_k sndr"
    and full: "None \<notin> set input" and T: "0 < T"
  shows "settles (Server_step3_2_MT K T sndr input) T (y_k sndr) (sndr', Q)"
proof -
  let ?Q = "BM_Create (y_m sndr) (y_k sndr)"
  have Q: "length (bm_data ?Q) = y_k sndr" by (simp add: BM_Create_def Let_def)
  have w: "(sndr, ?Q) = with_gens sndr ?Q (zip (y_rnd sndr) (bm_data ?Q))" using k Q by (simp add: with_gens_def)
  have "Server_step3_2Task K input i s = s'"
    if "rbind (rd input i) (\<lambda>p. rbind (deref p) (\<lambda>c. OTExtSndr_step3_2Single K c i s)) = s'" for i s s'
    using that full by (auto simp: Server_step3_2Task_def rd_def deref_def nth_mem split: if_splits option.split) (metis nth_mem)
  then have "Server_step3_2Task K input = (\<lambda>i s. rbind (rd input i) (\<lambda>p. rbind (deref p) (\<lambda>c. OTExtSndr_step3_2Single K c i s)))"
    by blast
  then have "rfold (Server_step3_2Task K input) [0..<y_k sndr] (with_gens sndr ?Q (zip (y_rnd sndr) (bm_data ?Q))) = Ok (sndr', Q)"
    unfolding w [symmetric] using seq by (simp add: OTExtSndr_step3_2_def)
  then have "agrees (Server_step3_2Task K input) (threads (y_k sndr) T) (with_gens sndr ?Q (zip (y_rnd sndr) (bm_data ?Q)))
      (y_k sndr) (sndr', Q)"
    using k T Q by (intro step3_2.threads_agree [where ls = "replicate T ()"]) simp_all
  from settlesI [OF this [folded w]] show ?thesis by (simp add: Server_step3_2_MT_def [abs_def])
qed

section \<open>The sender's pipeline\<close>

text \<open>
  \<open>threads - 1\<close> masking threads fill \<open>shared\<close> while the calling thread sends it in
  order.  Thread 0 is the output thread; a thread has its own buffers and socket.
\<close>

datatype thread_local = NetOut bytes sock | NetIn bytes nat sock | Bufs bytes bytes

datatype io_act = IO "nat \<times> nat \<times> nat" | Work nat

definition io_thr :: "nat \<Rightarrow> io_act \<Rightarrow> nat" where
  "io_thr T a = (case a of IO _ \<Rightarrow> 0 | Work j \<Rightarrow> 1 + j mod T)"

definition io_cell :: "io_act \<Rightarrow> nat" where
  "io_cell a = (case a of IO (i, bunch, j) \<Rightarrow> i + j | Work j \<Rightarrow> j)"

type_synonym send_state = "thread_local list \<times> OTExtSndr \<times> bytes option list"

definition send_act ::
    "(md_alg \<Rightarrow> bytes \<Rightarrow> bytes) \<Rightarrow> BitMatrix \<Rightarrow> MessageDigest \<Rightarrow> nat \<Rightarrow> io_act \<Rightarrow> send_state \<Rightarrow> send_state res" where
  "send_act md Q H T a = (\<lambda>(ls, sndr, shared).
     rbind (rd ls (io_thr T a)) (\<lambda>l.
     case a of
       IO x \<Rightarrow>
         (case l of
            NetOut e s \<Rightarrow> rbind (Server_outputThread shared x (e, s)) (\<lambda>(e, s). Ok (ls[io_thr T a := NetOut e s], sndr, shared))
          | _ \<Rightarrow> Err AssertFail)
     | Work j \<Rightarrow>
         (case l of
            Bufs r h \<Rightarrow> rbind (Server_step3_3Task md Q H j ((r, h), sndr, shared)) (\<lambda>((r, h), sndr, shared).
              Ok (ls[io_thr T a := Bufs r h], sndr, shared))
          | _ \<Rightarrow> Err AssertFail)))"

definition io_queues :: "nat \<Rightarrow> nat \<Rightarrow> nat \<Rightarrow> io_act list list" where
  "io_queues n m T = map IO (io_loop n) # map (map Work) (threads m T)"

definition Server_send_MT ::
    "(md_alg \<Rightarrow> bytes \<Rightarrow> bytes) \<Rightarrow> nat \<Rightarrow> OTExtSndr \<Rightarrow> BitMatrix \<Rightarrow> nat \<Rightarrow> sock \<Rightarrow> nat list \<Rightarrow> (OTExtSndr \<times> sock) res" where
  "Server_send_MT md T sndr Q n s sch =
     rbind (getHashInstance (int (y_k sndr))) (\<lambda>H.
     rbind (spawn_join (send_act md Q H T) sch (io_queues n (y_m sndr) T)
              (NetOut (replicate (50 * GBFSigmaByteLen) 0) s #
               replicate T (Bufs (replicate (byteLenRow Q) 0) (replicate (digestLen H) 0)), sndr, replicate n None))
       (\<lambda>(ls, sndr, shared). case ls of NetOut e s # _ \<Rightarrow> Ok (sndr, s) | _ \<Rightarrow> Err AssertFail))"

text \<open>The masking thread behind a guard that its cell of \<open>shared\<close> is still null.\<close>

definition send_guarded ::
    "(md_alg \<Rightarrow> bytes \<Rightarrow> bytes) \<Rightarrow> BitMatrix \<Rightarrow> MessageDigest \<Rightarrow> nat \<Rightarrow> io_act \<Rightarrow> send_state \<Rightarrow> send_state res" where
  "send_guarded md Q H T a s = (case a of
     Work j \<Rightarrow> (case rd (snd (snd s)) j of Inr (Some _) \<Rightarrow> Err AssertFail | _ \<Rightarrow> send_act md Q H T a s)
   | IO _ \<Rightarrow> send_act md Q H T a s)"

definition send_eff ::
    "(md_alg \<Rightarrow> bytes \<Rightarrow> bytes) \<Rightarrow> BitMatrix \<Rightarrow> MessageDigest \<Rightarrow> OTExtSndr \<Rightarrow> io_act \<Rightarrow> thread_local \<Rightarrow>
     bytes option \<times> bytes option \<Rightarrow> (thread_local \<times> bytes option \<times> bytes option) res" where
  "send_eff md Q H sndr a l = (\<lambda>(p, sh).
     case a of
       IO (i, bunch, j) \<Rightarrow>
         (case l of
            NetOut e s \<Rightarrow>
              (case sh of None \<Rightarrow> Err WouldBlock
               | Some x \<Rightarrow> rbind (rd_blk x 0 GBFSigmaByteLen) (\<lambda>b. rbind (wr_blk e (j * GBFSigmaByteLen) b) (\<lambda>e.
                   Ok (if j + 1 = bunch then NetOut e (send s (take (bunch * GBFSigmaByteLen) e)) else NetOut e s, p, sh))))
          | _ \<Rightarrow> Err AssertFail)
     | Work j \<Rightarrow>
         (case sh of Some _ \<Rightarrow> Err AssertFail
          | None \<Rightarrow>
            (case l of
               Bufs r h \<Rightarrow>
                 rbind (OTExtSndr_step3_3SingleMT md (sndr\<lparr>y_toSend := replicate j None @ [p]\<rparr>) Q j H r h) (\<lambda>(x, r, h, _).
                 Ok (Bufs r h, Some x, Some x))
             | _ \<Rightarrow> Err AssertFail)))"

lemma step3_3MT_local:
  assumes "j < length t"
  shows "OTExtSndr_step3_3SingleMT md (sndr\<lparr>y_toSend := t\<rparr>) Q j H r h =
    rbind (OTExtSndr_step3_3SingleMT md (sndr\<lparr>y_toSend := replicate j None @ [t ! j]\<rparr>) Q j H r h)
      (\<lambda>(x, r, h, _). Ok (x, r, h, sndr\<lparr>y_toSend := t[j := Some x]\<rparr>))"
  using assms by (cases "t ! j") (simp_all add: OTExtSndr_step3_3SingleMT_def rbind_assoc nth_append)

definition send_view :: "OTExtSndr \<Rightarrow> thread_local list \<Rightarrow> (bytes option \<times> bytes option) list \<Rightarrow> send_state" where
  "send_view sndr ls cs = (ls, sndr\<lparr>y_toSend := map fst cs\<rparr>, map snd cs)"

lemma send_step:
  assumes "length ls = Suc T" "length cs = k" "io_thr T a < Suc T" "io_cell a < k"
  shows "send_guarded md Q H T a (send_view sndr ls cs) =
    rbind (send_eff md Q H sndr a (ls ! io_thr T a) (cs ! io_cell a))
      (\<lambda>(l, c). Ok (send_view sndr (ls[io_thr T a := l]) (cs[io_cell a := c])))"
proof (cases a)
  case (IO x)
  obtain i bunch j where x: "x = (i, bunch, j)" by (cases x)
  obtain p sh where c: "cs ! (i + j) = (p, sh)" by (cases "cs ! (i + j)")
  then have upd: "cs[i + j := (p, sh)] = cs" by (metis list_update_id)
  show ?thesis using assms upd c
    by (cases "ls ! 0"; cases sh; cases "Suc j = bunch")
      (simp_all add: IO x send_guarded_def send_act_def send_eff_def send_view_def io_thr_def io_cell_def
        Server_outputThread_def rbind_assoc case_prod_unfold)
next
  case (Work j)
  show ?thesis using assms
    by (cases "ls ! (1 + j mod T)"; cases "snd (cs ! j)")
      (simp_all add: Work send_guarded_def send_act_def send_eff_def send_view_def io_thr_def io_cell_def
        Server_step3_3Task_def step3_3MT_local [of j "map fst cs"] rbind_assoc case_prod_unfold map_update)
qed

interpretation sending: cell_tasks "send_guarded md Q H T" "io_thr T" io_cell "Suc T" k "send_view sndr" "send_eff md Q H sndr"
  for md Q H T k sndr
proof (unfold_locales, goal_cases)
  case (1 ls cs a)
  then show ?case by (rule send_step)
next
  case (2 a b l c x l' y)
  then show ?case
    by (cases a; cases b; cases c; cases "snd c")
      (auto simp: io_thr_def io_cell_def send_eff_def split: thread_local.splits)
next
  case (3 a b l c e l' l'' c')
  then show ?case
    by (cases a; cases b; cases c; cases "snd c")
      (auto simp: io_thr_def io_cell_def send_eff_def res_simps split: thread_local.splits)
qed

text \<open>The output thread on its own is \<open>sendArrayOfByteStrings\<close> of the shared array.\<close>

lemma rfold_preserves:
  assumes "rfold f is s = Ok s'" "P s" "\<And>i s s'. f i s = Ok s' \<Longrightarrow> P s \<Longrightarrow> P s'"
  shows "P s'"
  using assms(1,2) by (induction "is" arbitrary: s) (auto simp: res_simps intro: assms(3))

lemma rfold_map: "rfold f (map g is) s = rfold (\<lambda>i. f (g i)) is s"
proof (induction "is" arbitrary: s)
  case (Cons i "is")
  then show ?case by (cases "f (g i) s") auto
qed simp

lemma output_bunch:
  assumes "0 < b"
  shows "rfold (Server_outputThread (map Some xs)) (map (\<lambda>j. (i, b, j)) [0..<b]) (e, s) =
    rbind (fill_bunch GBFSigmaByteLen xs i b e) (\<lambda>e. Ok (e, send s (take (b * GBFSigmaByteLen) e)))"
proof -
  have rd: "rd (map Some xs) n = rbind (rd xs n) (\<lambda>x. Ok (Some x))" for n by (simp add: rd_def)
  let ?fill = "\<lambda>j e. rbind (rd xs (i + j)) (\<lambda>str. rbind (rd_blk str 0 GBFSigmaByteLen) (wr_blk e (j * GBFSigmaByteLen)))"
  have pre: "rfold (\<lambda>j. Server_outputThread (map Some xs) (i, b, j)) [0..<n] (e, s) =
      rbind (rfold ?fill [0..<n] e) (\<lambda>e. Ok (e, s))" if "n < b" for n
    using that
  proof (induction n)
    case (Suc n)
    then show ?case by (simp add: rfold_append Server_outputThread_def rd rbind_assoc)
  qed simp
  obtain n where n: "b = Suc n" using assms by (cases b) auto
  have "rfold (\<lambda>j. Server_outputThread (map Some xs) (i, b, j)) [0..<b] (e, s) =
      rbind (rfold ?fill [0..<b] e) (\<lambda>e. Ok (e, send s (take (b * GBFSigmaByteLen) e)))"
    using pre [of n] by (simp add: n rfold_append Server_outputThread_def rd rbind_assoc)
  then show ?thesis by (simp add: rfold_map fill_bunch_def)
qed

lemma output_loop:
  assumes "0 < bunch"
  shows "sendLoop n GBFSigmaByteLen xs i bunch e s =
    Some (rbind (rfold (Server_outputThread (map Some xs)) (concat (map (\<lambda>(i, b). map (\<lambda>j. (i, b, j)) [0..<b]) (bunches n i bunch))) (e, s))
      (\<lambda>(e, s). Ok s))"
  using assms
proof (induction n i bunch arbitrary: e s rule: bunches.induct)
  case (1 n i bunch)
  show ?case
  proof (cases "i < n")
    case True
    let ?b = "bunch_of n i bunch"
    have b: "0 < ?b" using True 1(2) by (auto simp: bunch_of_def)
    show ?thesis
    proof (cases "fill_bunch GBFSigmaByteLen xs i ?b e")
      case (Inl err)
      then show ?thesis using True 1(2) b
        by (subst bunches.simps, subst sendLoop.simps) (simp add: rfold_append output_bunch)
    next
      case (Inr e')
      then show ?thesis using True 1 b
        by (subst bunches.simps, subst sendLoop.simps) (simp add: rfold_append output_bunch)
    qed
  next
    case False
    then show ?thesis by (subst bunches.simps, subst sendLoop.simps) simp
  qed
qed

lemma output_all:
  assumes "sized n GBFSigmaByteLen xs"
  shows "\<exists>e'. rfold (Server_outputThread (map Some xs)) (io_loop n) (replicate (50 * GBFSigmaByteLen) 0, s) = Ok (e', send s (concat xs))"
proof -
  have "sendArrayOfByteStrings s n GBFSigmaByteLen xs = Some (Ok (send s (concat xs)))" by (rule sendArray_ok [OF assms])
  then show ?thesis unfolding sendArrayOfByteStrings_def io_loop_def
    by (subst (asm) output_loop) (auto simp: res_simps)
qed

lemma io_loop_cells: "x \<in> set (io_loop n) \<Longrightarrow> io_cell (IO x) < n"
proof -
  have "i + j < n" if "(i, b) \<in> set (bunches n i0 b0)" "j < b" for i b j i0 b0
    using that
  proof (induction n i0 b0 rule: bunches.induct)
    case (1 n i0 b0)
    show ?case
    proof (cases "i0 < n \<and> 0 < b0")
      case True
      then have "(i, b) = (i0, bunch_of n i0 b0) \<or> (i, b) \<in> set (bunches n (i0 + bunch_of n i0 b0) (bunch_of n i0 b0))"
        using 1(2) by (subst (asm) bunches.simps) auto
      then show ?thesis using 1(1) [OF True] 1(3) True by (auto simp: bunch_of_def split: if_splits)
    next
      case False
      then show ?thesis using 1(2) by (subst (asm) bunches.simps) auto
    qed
  qed
  then show "x \<in> set (io_loop n) \<Longrightarrow> io_cell (IO x) < n" by (auto simp: io_loop_def io_cell_def)
qed

lemma io_queues_shares:
  assumes T: "0 < T" and order: "order = map Work [0..<m] @ map IO (io_loop n) \<or> order = map IO (io_loop n) @ map Work [0..<m]"
  shows "io_queues n m T = shares (io_thr T) (Suc T) order"
proof -
  have "share (io_thr T) 0 order = map IO (io_loop n)"
    using order by (auto simp: share_def io_thr_def comp_def filter_empty_conv filter_id_conv)
  moreover have "share (io_thr T) (Suc t) order = map Work (strided t m T)" if "t < T" for t
    using that order by (auto simp: strided_share share_def io_thr_def comp_def filter_map)
  moreover have "[0..<Suc T] = 0 # map Suc [0..<T]" by (simp add: map_Suc_upt upt_conv_Cons del: upt_Suc)
  ultimately show ?thesis by (simp add: io_queues_def shares_def threads_def comp_def del: upt_Suc)
qed

lemma length_io_loop: "length (io_loop n) = n"
proof -
  have "length (concat (map (\<lambda>(i, b). map (\<lambda>j. (i, b, j)) [0..<b]) (bunches n i b))) = n - i" if "0 < b" for i b
    using that
  proof (induction n i b rule: bunches.induct)
    case (1 n i b)
    show ?case
    proof (cases "i < n")
      case True
      then have "0 < bunch_of n i b" "bunch_of n i b \<le> n - i" using 1(2) by (auto simp: bunch_of_def)
      then show ?thesis using 1 True by (subst bunches.simps) simp
    qed (simp add: bunches.simps)
  qed
  then show ?thesis by (simp add: io_loop_def)
qed

lemma xorByteArray_length: "xorByteArray a b n = Ok c \<Longrightarrow> length c = length a"
proof -
  assume x: "xorByteArray a b n = Ok c"
  have "n \<le> length a \<and> n \<le> length b" using x xorByteArray_short [of n a b] by (cases "n = 0") (force simp: not_less)+
  then show ?thesis using x xorByteArray_ok [of n a b] by auto
qed

lemma BM_GetRow_length: "BM_GetRow bm i r n = Ok r' \<Longrightarrow> length r' = length r \<and> n = byteLenRow bm"
proof -
  assume r: "BM_GetRow bm i r n = Ok r'"
  then obtain r1 where r1: "wr_blk r 0 (replicate n 0) = Ok r1" "rfold (BM_GetRow_step bm i) [0..<bm_k bm] r1 = Ok r'"
    and n: "n = byteLenRow bm" by (auto simp: BM_GetRow_def rassert_def res_simps split: if_splits)
  have "length r' = length r1"
    by (rule rfold_preserves [OF r1(2), where P = "\<lambda>x. length x = length r1"])
      (auto simp: BM_GetRow_step_def Let_def res_simps wr_def split: if_splits)
  then show ?thesis using r1(1) n by (auto simp: wr_blk_def split: if_splits)
qed

lemma blit_all: "length vs = length xs \<Longrightarrow> blit xs 0 vs = vs"
  by (simp add: blit_def)

text \<open>With buffers of the right size the multi-threaded variants are the single-threaded ones.\<close>

lemma step3_3MT_ok:
  assumes "OTExtSndr_step3_3Single md sndr Q j H = Ok sndr'" and h: "\<And>x. length (md (md_alg H) x) = digestLen H"
    and b: "length r = byteLenRow Q" "length hb = digestLen H"
  shows "\<exists>x r' hb'. OTExtSndr_step3_3SingleMT md sndr Q j H r hb = Ok (x, r', hb', sndr') \<and> j < length (y_toSend sndr) \<and>
    sndr' = sndr\<lparr>y_toSend := (y_toSend sndr)[j := Some x]\<rparr> \<and> length r' = byteLenRow Q \<and> length hb' = digestLen H"
proof -
  let ?n = "y_sByteLen sndr"
  obtain r1 r2 p x where s: "BM_GetRow Q j (replicate ?n 0) ?n = Ok r1" "xorByteArray r1 (y_s sndr) ?n = Ok r2"
    "rd (y_toSend sndr) j = Ok p"
    "(case p of Some x \<Rightarrow> xorByteArray x (row_hash md H r2 j) (y_lByteLength sndr)
      | None \<Rightarrow> rd_blk (row_hash md H r2 j) 0 (y_lByteLength sndr)) = Ok x"
    "wr (y_toSend sndr) j (Some x) = Ok (y_toSend sndr')" "sndr' = sndr\<lparr>y_toSend := y_toSend sndr'\<rparr>"
    using assms(1) by (auto simp: OTExtSndr_step3_3Single_def Let_def res_simps)
  have n: "?n = byteLenRow Q" "length r1 = ?n" using BM_GetRow_length [OF s(1)] by simp_all
  then have r2: "length r2 = ?n" using xorByteArray_length [OF s(2)] by simp
  have hl: "length (row_hash md H r2 j) = digestLen H" using h by (simp add: row_hash_def)
  have w: "wr_blk r 0 (replicate ?n 0) = Ok (replicate ?n 0)" "wr_blk hb 0 (row_hash md H r2 j) = Ok (row_hash md H r2 j)"
    using b n hl by (simp_all add: blit_all)
  have "OTExtSndr_step3_3SingleMT md sndr Q j H r hb = Ok (x, r2, row_hash md H r2 j, sndr')"
    unfolding OTExtSndr_step3_3SingleMT_def w s(1-3) rbind.simps using w(2) s(4-6) r2 by simp
  then show ?thesis using s(3,5,6) r2 n hl by (auto simp: rd_def wr_def split: if_splits)
qed

lemma masking_run:
  assumes seq: "OTExtSndr_step3_3 md sndr Q = Ok sndr'" and H: "y_H sndr = H" "\<And>x. length (md (md_alg H) x) = digestLen H"
    and n: "length (y_toSend sndr) = n" "y_m sndr = n"
    and b: "length bufs = T" "\<forall>b\<in>set bufs. \<exists>r h. b = Bufs r h \<and> length r = byteLenRow Q \<and> length h = digestLen H" and T: "0 < T"
  shows "\<exists>bufs'. rfold (send_guarded md Q H T) (map Work [0..<n]) (l # bufs, sndr, replicate n None) = Ok (l # bufs', sndr', y_toSend sndr')"
proof -
  define R where "R = (\<lambda>j s (t :: send_state). \<exists>bufs. t = (l # bufs, s, map (\<lambda>i. if i < j then y_toSend s ! i else None) [0..<n]) \<and>
      y_H s = H \<and> length (y_toSend s) = n \<and> length bufs = T \<and>
      (\<forall>b\<in>set bufs. \<exists>r h. b = Bufs r h \<and> length r = byteLenRow Q \<and> length h = digestLen H))"
  have "\<exists>t'. rfold (\<lambda>j. send_guarded md Q H T (Work j)) [0..<n] (l # bufs, sndr, replicate n None) = Ok t' \<and> R n sndr' t'"
  proof (rule rfold_upt_sim [where R = R])
    show "rfold (\<lambda>j s. OTExtSndr_step3_3Single md s Q j (y_H s)) [0..<n] sndr = Ok sndr'"
      using seq n(2) by (simp add: OTExtSndr_step3_3_def)
    show "R 0 sndr (l # bufs, sndr, replicate n None)" using H(1) n b by (auto simp: R_def map_replicate_const)
  next
    fix j s t s' assume j: "j < n" "R j s t" "OTExtSndr_step3_3Single md s Q j (y_H s) = Ok s'"
    obtain bufs where t: "t = (l # bufs, s, map (\<lambda>i. if i < j then y_toSend s ! i else None) [0..<n])" "y_H s = H"
      "length (y_toSend s) = n" "length bufs = T"
      "\<forall>b\<in>set bufs. \<exists>r h. b = Bufs r h \<and> length r = byteLenRow Q \<and> length h = digestLen H"
      using j(2) by (auto simp: R_def)
    have "bufs ! (j mod T) \<in> set bufs" using t(4) T by simp
    then obtain r h where rh: "bufs ! (j mod T) = Bufs r h" "length r = byteLenRow Q" "length h = digestLen H" using t(5) by blast
    obtain x r' h' where x: "OTExtSndr_step3_3SingleMT md s Q j H r h = Ok (x, r', h', s')"
      "s' = s\<lparr>y_toSend := (y_toSend s)[j := Some x]\<rparr>" "length r' = byteLenRow Q" "length h' = digestLen H"
      using step3_3MT_ok [where md = md and H = H and sndr = s and sndr' = s' and Q = Q and j = j, OF _ H(2) rh(2,3)] j(3) t(2) by auto
    let ?sh = "map (\<lambda>i. if i < j then y_toSend s ! i else None) [0..<n]"
    have "?sh[j := Some x] = map (\<lambda>i. if i < Suc j then y_toSend s' ! i else None) [0..<n]"
      using j(1) t(3) by (intro nth_equalityI) (auto simp: x(2) nth_list_update)
    then have "send_guarded md Q H T (Work j) t = Ok (l # bufs[j mod T := Bufs r' h'], s', map (\<lambda>i. if i < Suc j then y_toSend s' ! i else None) [0..<n])"
      using j(1) t(4) rh(1) x(1) T by (simp add: t(1) send_guarded_def send_act_def io_thr_def Server_step3_3Task_def)
    moreover have "\<forall>b\<in>set (bufs[j mod T := Bufs r' h']). \<exists>r h. b = Bufs r h \<and> length r = byteLenRow Q \<and> length h = digestLen H"
      using t(5) x(3,4) set_update_subset_insert [of bufs "j mod T" "Bufs r' h'"] by blast
    ultimately show "\<exists>t'. send_guarded md Q H T (Work j) t = Ok t' \<and> R (Suc j) s' t'"
      using t(2-4) by (auto simp: R_def x(2))
  qed simp
  then obtain bufs' where "rfold (\<lambda>j. send_guarded md Q H T (Work j)) [0..<n] (l # bufs, sndr, replicate n None)
      = Ok (l # bufs', sndr', map (\<lambda>i. if i < n then y_toSend sndr' ! i else None) [0..<n])" "length (y_toSend sndr') = n"
    by (auto simp: R_def)
  moreover from this have "map (\<lambda>i. if i < n then y_toSend sndr' ! i else None) [0..<n] = y_toSend sndr'"
    by (auto intro: nth_equalityI)
  ultimately show ?thesis by (auto simp: rfold_map)
qed

lemma sending_run:
  assumes "rfold (Server_outputThread sh) xs (e, s) = Ok (e', s')"
  shows "rfold (send_guarded md Q H T) (map IO xs) (NetOut e s # bufs, sndr, sh) = Ok (NetOut e' s' # bufs, sndr, sh)"
  using assms
proof (induction xs arbitrary: e s)
  case (Cons x xs)
  then obtain e1 s1 where "Server_outputThread sh x (e, s) = Ok (e1, s1)" "rfold (Server_outputThread sh) xs (e1, s1) = Ok (e', s')"
    by (auto simp: res_simps)
  then show ?case using Cons.IH by (simp add: send_guarded_def send_act_def io_thr_def)
qed simp

lemma send_settles:
  assumes seq: "OTExtSndr_step3_3 md sndr Q = Ok sndr'" and H: "getHashInstance (int (y_k sndr)) = Ok (y_H sndr)"
    "\<And>x. length (md (md_alg (y_H sndr)) x) = digestLen (y_H sndr)"
    and n: "length (y_toSend sndr) = n" "y_m sndr = n" and T: "0 < T"
    and xs: "y_toSend sndr' = map Some xs" "sized n GBFSigmaByteLen xs"
  shows "settles (Server_send_MT md T sndr Q n s) (Suc T) (2 * n) (sndr', send s (concat xs))"
proof -
  let ?H = "y_H sndr" and ?e = "replicate (50 * GBFSigmaByteLen) 0 :: bytes"
  let ?bufs = "replicate T (Bufs (replicate (byteLenRow Q) 0) (replicate (digestLen ?H) 0))"
  let ?order = "map Work [0..<n] @ map IO (io_loop n)" and ?start = "(NetOut ?e s # ?bufs, sndr, replicate n None)"
  obtain bufs' where m: "rfold (send_guarded md Q ?H T) (map Work [0..<n]) ?start = Ok (NetOut ?e s # bufs', sndr', map Some xs)"
    using masking_run [OF seq refl H(2) n, where bufs = ?bufs and T = T and l = "NetOut ?e s"] T xs(1) by auto
  obtain e' where "rfold (Server_outputThread (map Some xs)) (io_loop n) (?e, s) = Ok (e', send s (concat xs))"
    using output_all [OF xs(2)] by blast
  then have run: "rfold (send_guarded md Q ?H T) ?order ?start = Ok (NetOut e' (send s (concat xs)) # bufs', sndr', map Some xs)"
    using m sending_run by (simp add: rfold_append)
  have view: "?start = send_view sndr (NetOut ?e s # ?bufs) (zip (y_toSend sndr) (replicate n None))"
    using n by (simp add: send_view_def)
  have "agrees (send_guarded md Q ?H T) (shares (io_thr T) (Suc T) ?order) ?start (length ?order)
      (NetOut e' (send s (concat xs)) # bufs', sndr', map Some xs)"
  proof (rule sending.shares_agree [where T = "Suc T" and k = n and sndr = sndr])
    show "\<forall>a\<in>set ?order. io_thr T a < Suc T \<and> cell_tasks.in_range (io_thr T) io_cell (Suc T) n a"
      using io_loop_cells T by (auto simp: sending.in_range_def io_thr_def io_cell_def)
    show "cell_tasks.shape (Suc T) n (send_view sndr) ?start"
      unfolding sending.shape_def view using n by (intro exI [of _ "NetOut ?e s # ?bufs"] exI) auto
  qed (rule run)
  then have "agrees (send_guarded md Q ?H T) (io_queues n n T) ?start (2 * n) (NetOut e' (send s (concat xs)) # bufs', sndr', map Some xs)"
    using io_queues_shares [OF T, of ?order n n] by (simp add: length_io_loop mult_2)
  then have "agrees (send_act md Q ?H T) (io_queues n n T) ?start (2 * n) (NetOut e' (send s (concat xs)) # bufs', sndr', map Some xs)"
    by (rule agrees_guard [rotated]) (auto simp: send_guarded_def split: io_act.split sum.split option.split)
  from agrees_settles [OF this, of "Suc T"]
  have "settles (\<lambda>sch. spawn_join (send_act md Q ?H T) sch (io_queues n n T) ?start) (Suc T) (2 * n)
      (NetOut e' (send s (concat xs)) # bufs', sndr', map Some xs)" by (simp add: io_queues_def)
  then show ?thesis unfolding Server_send_MT_def [abs_def] H(1) rbind.simps n(2) by (rule settles_bind) simp
qed

section \<open>The receiver's pipeline\<close>

type_synonym recv_state = "thread_local list \<times> cell list"

definition recv_act ::
    "(md_alg \<Rightarrow> bytes \<Rightarrow> bytes) \<Rightarrow> 'p OTExtRcvr \<Rightarrow> MessageDigest \<Rightarrow> bool \<Rightarrow> nat \<Rightarrow> io_act \<Rightarrow> recv_state \<Rightarrow> recv_state res" where
  "recv_act md rcvr H partial T a = (\<lambda>(ls, shared).
     rbind (rd ls (io_thr T a)) (\<lambda>l.
     case a of
       IO x \<Rightarrow>
         (case l of
            NetIn buf e s \<Rightarrow> rbind (Client_inputThread x ((buf, e, s), shared)) (\<lambda>((buf, e, s), shared).
              Ok (ls[io_thr T a := NetIn buf e s], shared))
          | _ \<Rightarrow> Err AssertFail)
     | Work j \<Rightarrow>
         (case l of
            Bufs r h \<Rightarrow> rbind (Client_Step4_2Task md rcvr H partial j ((r, h), shared)) (\<lambda>((r, h), shared).
              Ok (ls[io_thr T a := Bufs r h], shared))
          | _ \<Rightarrow> Err AssertFail)))"

definition Client_receive_MT ::
    "(md_alg \<Rightarrow> bytes \<Rightarrow> bytes) \<Rightarrow> nat \<Rightarrow> 'p OTExtRcvr \<Rightarrow> bool \<Rightarrow> nat \<Rightarrow> sock \<Rightarrow> nat list \<Rightarrow> (cell list \<times> sock) res" where
  "Client_receive_MT md T rcvr partial n s sch =
     rbind (getHashInstance (x_secLev rcvr)) (\<lambda>H.
     rbind (spawn_join (recv_act md rcvr H partial T) sch (io_queues n (x_m rcvr) T)
              (NetIn (replicate (n * GBFSigmaByteLen) 0) 0 s #
               replicate T (Bufs (replicate (byteLenRow (x_T rcvr)) 0) (replicate (digestLen H) 0)), replicate n Null))
       (\<lambda>(ls, shared). case ls of NetIn _ _ s # _ \<Rightarrow> Ok (shared, s) | _ \<Rightarrow> Err AssertFail))"

text \<open>The input thread behind a guard that the cell it fills is still null.\<close>

definition recv_guarded ::
    "(md_alg \<Rightarrow> bytes \<Rightarrow> bytes) \<Rightarrow> 'p OTExtRcvr \<Rightarrow> MessageDigest \<Rightarrow> bool \<Rightarrow> nat \<Rightarrow> io_act \<Rightarrow> recv_state \<Rightarrow> recv_state res" where
  "recv_guarded md rcvr H partial T a s = (case a of
     IO _ \<Rightarrow> (case rd (snd s) (io_cell a) of
       Inr c \<Rightarrow> if c = Null then recv_act md rcvr H partial T a s else Err AssertFail
     | _ \<Rightarrow> recv_act md rcvr H partial T a s)
   | Work _ \<Rightarrow> recv_act md rcvr H partial T a s)"

definition recv_eff ::
    "(md_alg \<Rightarrow> bytes \<Rightarrow> bytes) \<Rightarrow> 'p OTExtRcvr \<Rightarrow> MessageDigest \<Rightarrow> bool \<Rightarrow> io_act \<Rightarrow> thread_local \<Rightarrow> cell \<Rightarrow>
     (thread_local \<times> cell) res" where
  "recv_eff md rcvr H partial a l c =
     (case a of
       IO (i, bunch, j) \<Rightarrow>
         (if c \<noteq> Null then Err AssertFail
          else case l of
            NetIn buf e s \<Rightarrow>
              rbind (Client_inputThread (0, bunch, j) ((buf, e, s), replicate (Suc j) Null)) (\<lambda>((buf, e, s), sh).
              Ok (NetIn buf e s, sh ! j))
          | _ \<Rightarrow> Err AssertFail)
     | Work j \<Rightarrow>
         (case l of
            Bufs r h \<Rightarrow> rbind (Client_Step4_2Task md rcvr H partial j ((r, h), replicate j Null @ [c])) (\<lambda>((r, h), sh).
              Ok (Bufs r h, sh ! j))
          | _ \<Rightarrow> Err AssertFail))"

lemma inputThread_local:
  assumes "i + j < length sh"
  shows "Client_inputThread (i, b, j) ((buf, e, s), sh) =
    rbind (Client_inputThread (0, b, j) ((buf, e, s), replicate (Suc j) Null)) (\<lambda>((buf, e, s), sh'). Ok ((buf, e, s), sh[i + j := sh' ! j]))"
  using assms by (simp add: Client_inputThread_def Let_def rbind_assoc case_prod_unfold del: replicate_Suc)

lemma Step4_2Task_local:
  assumes "j < length sh"
  shows "Client_Step4_2Task md rcvr H partial j ((r, h), sh) =
    rbind (Client_Step4_2Task md rcvr H partial j ((r, h), replicate j Null @ [sh ! j])) (\<lambda>((r, h), sh'). Ok ((r, h), sh[j := sh' ! j]))"
proof -
  let ?sel = "deref (x_str rcvr)" and ?bit = "\<lambda>str. getBit str (int j) (int (x_lz rcvr))"
  show ?thesis using assms
    by (cases "sh ! j"; cases partial; cases ?sel; cases "?bit (projr ?sel)"; cases "projr (?bit (projr ?sel))")
      (simp_all add: Client_Step4_2Task_def rbind_assoc case_prod_unfold nth_append, (metis list_update_id)+)
qed

lemma recv_step:
  assumes "length ls = Suc T" "length cs = k" "io_thr T a < Suc T" "io_cell a < k"
  shows "recv_guarded md rcvr H partial T a (ls, cs) =
    rbind (recv_eff md rcvr H partial a (ls ! io_thr T a) (cs ! io_cell a))
      (\<lambda>(l, c). Ok (ls[io_thr T a := l], cs[io_cell a := c]))"
proof (cases a)
  case (IO x)
  obtain i bunch j where x: "x = (i, bunch, j)" by (cases x)
  show ?thesis using assms
    by (cases "ls ! 0"; cases "cs ! (i + j) = Null")
      (simp_all add: IO x recv_guarded_def recv_act_def recv_eff_def io_thr_def io_cell_def
        inputThread_local [of i j cs] rbind_assoc case_prod_unfold)
next
  case (Work j)
  show ?thesis using assms
    by (cases "ls ! (1 + j mod T)")
      (simp_all add: Work recv_guarded_def recv_act_def recv_eff_def io_thr_def io_cell_def
        Step4_2Task_local [of j cs] rbind_assoc case_prod_unfold)
qed

interpretation receiving: cell_tasks "recv_guarded md rcvr H partial T" "io_thr T" io_cell "Suc T" k "\<lambda>ls cs. (ls, cs)"
  "recv_eff md rcvr H partial" for md rcvr H partial T k
proof (unfold_locales, goal_cases)
  case (1 ls cs a)
  then show ?case by (rule recv_step)
next
  case (2 a b l c x l' y)
  then show ?case
    by (cases a; cases b; cases c)
      (auto simp: io_thr_def io_cell_def recv_eff_def Client_Step4_2Task_def nth_append split: thread_local.splits)
next
  case (3 a b l c e l' l'' c')
  then show ?case
    by (cases a; cases b; cases c)
      (auto simp: io_thr_def io_cell_def recv_eff_def Client_Step4_2Task_def nth_append res_simps
        split: thread_local.splits if_splits)
qed

text \<open>The input thread on its own stores the strings the peer sent.\<close>

lemma input_bunch:
  assumes xs: "length xs = n" "\<forall>x\<in>set xs. length x = GBFSigmaByteLen" and b: "0 < b" "b * GBFSigmaByteLen + 1024 < 2 ^ 64" "i + b \<le> n"
    and buf: "length buf = n * GBFSigmaByteLen" and s: "quiet s" "rx s = concat (drop i xs) @ rest"
  shows "\<exists>buf' s'. rfold Client_inputThread (map (\<lambda>j. (i, b, j)) [0..<b])
      ((buf, i * GBFSigmaByteLen, s), map Block (take i xs) @ replicate (n - i) Null) =
    Ok ((buf', (i + b) * GBFSigmaByteLen, s'), map Block (take (i + b) xs) @ replicate (n - (i + b)) Null) \<and>
    length buf' = length buf \<and> quiet s' \<and> rx s' = concat (drop (i + b) xs) @ rest \<and> tx s' = tx s"
proof -
  let ?L = GBFSigmaByteLen
  have split: "drop i xs = take b (drop i xs) @ drop (i + b) xs" using append_take_drop_id [of b "drop i xs"] by (simp add: add.commute)
  have blk: "length (concat (take b (drop i xs))) = b * ?L" using xs b(3) by (intro length_concat_block) simp_all
  have rx: "rx s = concat (take b (drop i xs)) @ concat (drop (i + b) xs) @ rest" unfolding s(2) by (subst split) simp
  have room: "i * ?L + b * ?L \<le> n * ?L" using mult_le_mono1 [OF b(3), of ?L] by (simp add: add_mult_distrib)
  have room2: "b * ?L \<le> length (drop (i * ?L) buf)" using room buf by simp
  have avail: "b * ?L \<le> length (rx s)" by (simp add: rx blk)
  obtain s' where s': "receiveBulk s (b * ?L) (drop (i * ?L) buf)
      = Some (Ok (take (b * ?L) (rx s) @ drop (b * ?L) (drop (i * ?L) buf), s'))"
    "rx s' = drop (b * ?L) (rx s)" "quiet s'" "tx s' = tx s"
    using receiveBulk_ok [OF b(2) room2 avail s(1)] by blast
  define buf' where "buf' = take (i * ?L) buf @ concat (take b (drop i xs)) @ drop (b * ?L) (drop (i * ?L) buf)"
  have m: "min (n * ?L) (i * ?L) = i * ?L" using b(3) by (intro min_absorb2 mult_le_mono1) simp
  have rcv: "receiveBulk s (b * ?L) (drop (i * ?L) buf) = Some (Ok (drop (i * ?L) buf', s'))"
    using s'(1) blk buf room m by (simp add: buf'_def rx)
  have buf'_eq: "take (i * ?L) buf @ drop (i * ?L) buf' = buf'" "length buf' = length buf"
    using buf room blk m by (simp_all add: buf'_def)
  have str: "take ?L (drop (i * ?L + j * ?L) buf') = xs ! (i + j)" "i * ?L + j * ?L + ?L \<le> length buf'" if j: "j < b" for j
  proof -
    have "take j (take b (drop i xs)) = take j (drop i xs)" using j by (simp add: min_def)
    then have "concat (take b (drop i xs)) = concat (take j (drop i xs)) @ concat (drop j (take b (drop i xs)))"
      by (metis append_take_drop_id concat_append)
    then have "drop (i * ?L) buf' = concat (take j (drop i xs)) @ concat (drop j (take b (drop i xs))) @ drop (b * ?L) (drop (i * ?L) buf)"
      using buf m by (simp add: buf'_def)
    moreover have "length (concat (take j (drop i xs))) = j * ?L" using xs b(3) j by (intro length_concat_block) simp_all
    moreover have "drop j (take b (drop i xs)) = xs ! (i + j) # drop (Suc j) (take b (drop i xs))"
      using j b(3) xs(1) by (subst Cons_nth_drop_Suc [symmetric]) simp_all
    moreover have "length (xs ! (i + j)) = ?L" using xs j b(3) by simp
    ultimately show "take ?L (drop (i * ?L + j * ?L) buf') = xs ! (i + j)"
      by (simp add: drop_drop [symmetric] add.commute [of "i * ?L"] del: drop_drop)
    have "i * ?L + j * ?L + ?L \<le> i * ?L + b * ?L" using mult_le_mono1 [of "Suc j" b ?L] j by simp
    then show "i * ?L + j * ?L + ?L \<le> length buf'" using room buf buf'_eq(2) by simp
  qed
  define cells where "cells = (\<lambda>m. map Block (take m xs) @ replicate (n - m) Null)"
  have upd: "(cells m)[m := Block (xs ! m)] = cells (Suc m)" if "m < n" for m
    using that xs(1) by (simp add: cells_def take_Suc_conv_app_nth list_update_append Suc_diff_Suc [symmetric] del: Suc_diff_Suc)
  let ?P = "\<lambda>j t. t = (if j = 0 then ((buf, i * ?L, s), cells i) else ((buf', if j = b then (i + b) * ?L else i * ?L, s'), cells (i + j)))"
  have "\<exists>t. rfold (\<lambda>j. Client_inputThread (i, b, j)) [0..<b] ((buf, i * ?L, s), cells i) = Ok t \<and> ?P b t"
  proof (rule rfold_upt_inv [where P = ?P])
    fix j t assume j: "0 \<le> j" "j < b" and t: "?P j t"
    have len: "i + j < length (cells m)" if "m \<le> n" for m using that j(2) b(3) xs(1) by (simp add: cells_def)
    have "Client_inputThread (i, b, j) t = Ok ((buf', if Suc j = b then (i + b) * ?L else i * ?L, s'), (cells (i + j))[i + j := Block (xs ! (i + j))])"
    proof (cases "j = 0")
      case True
      then show ?thesis using t rcv buf'_eq(1) str [of 0] b len [of i]
        by (simp add: Client_inputThread_def of_call_def Let_def add_mult_distrib)
    next
      case False
      then show ?thesis using t str [of j] j len [of "i + j"] b(3)
        by (simp add: Client_inputThread_def Let_def add_mult_distrib)
    qed
    then show "\<exists>t'. Client_inputThread (i, b, j) t = Ok t' \<and> ?P (Suc j) t'" using upd [of "i + j"] j(2) b(3) by simp
  qed simp_all
  then show ?thesis using b(1) buf'_eq(2) s' blk by (auto simp: rfold_map cells_def rx)
qed

lemma input_loop:
  assumes "length xs = n" "\<forall>x\<in>set xs. length x = GBFSigmaByteLen" "length buf = n * GBFSigmaByteLen" "0 < b" "b \<le> 50" "i \<le> n"
    and "quiet s" "rx s = concat (drop i xs) @ rest"
  shows "\<exists>buf' e' s'. rfold Client_inputThread (concat (map (\<lambda>(i, b). map (\<lambda>j. (i, b, j)) [0..<b]) (bunches n i b)))
      ((buf, i * GBFSigmaByteLen, s), map Block (take i xs) @ replicate (n - i) Null) = Ok ((buf', e', s'), map Block xs) \<and>
      quiet s' \<and> rx s' = rest \<and> tx s' = tx s"
  using assms
proof (induction n i b arbitrary: buf s rule: bunches.induct)
  case (1 n i b)
  let ?L = GBFSigmaByteLen and ?b = "bunch_of n i b"
  show ?case
  proof (cases "i < n")
    case True
    have b: "0 < ?b" "?b \<le> 50" "i + ?b \<le> n" using True 1(5,6) by (auto simp: bunch_of_def)
    have small: "?b * ?L + 1024 < 2 ^ 64" using b(2) by (simp add: GBFSigmaByteLen_def)
    obtain buf1 s1 where one: "rfold Client_inputThread (map (\<lambda>j. (i, ?b, j)) [0..<?b])
        ((buf, i * ?L, s), map Block (take i xs) @ replicate (n - i) Null) =
        Ok ((buf1, (i + ?b) * ?L, s1), map Block (take (i + ?b) xs) @ replicate (n - (i + ?b)) Null)"
      "length buf1 = length buf" "quiet s1" "rx s1 = concat (drop (i + ?b) xs) @ rest" "tx s1 = tx s"
      using input_bunch [OF 1(2,3) b(1) small b(3) 1(4,8,9)] by blast
    have lb: "length buf1 = n * ?L" using one(2) 1(4) by simp
    obtain buf2 e2 s2 where two: "rfold Client_inputThread (concat (map (\<lambda>(i, b). map (\<lambda>j. (i, b, j)) [0..<b]) (bunches n (i + ?b) ?b)))
        ((buf1, (i + ?b) * ?L, s1), map Block (take (i + ?b) xs) @ replicate (n - (i + ?b)) Null) = Ok ((buf2, e2, s2), map Block xs)"
      "quiet s2" "rx s2 = rest" "tx s2 = tx s1"
      using 1(1) [OF conjI [OF True 1(5)] 1(2,3) lb b one(3,4)] by blast
    show ?thesis using one two True 1(5) by (subst bunches.simps) (simp add: rfold_append)
  next
    case False
    then show ?thesis using 1 by (subst bunches.simps) simp
  qed
qed

lemma input_run:
  assumes "length xs = n" "\<forall>x\<in>set xs. length x = GBFSigmaByteLen" "quiet s" "rx s = concat xs @ rest"
  shows "\<exists>buf' e' s'. rfold Client_inputThread (io_loop n) ((replicate (n * GBFSigmaByteLen) 0, 0, s), replicate n Null) =
    Ok ((buf', e', s'), map Block xs) \<and> quiet s' \<and> rx s' = rest \<and> tx s' = tx s"
  using input_loop [OF assms(1,2), of "replicate (n * GBFSigmaByteLen) 0" 50 0 s rest] assms(3,4) by (simp add: io_loop_def)

text \<open>The guard never fires in the sequential run.\<close>

lemma io_loop_order: "map (\<lambda>(i, b, j). i + j) (io_loop n) = [0..<n]"
proof -
  have "map (\<lambda>(i, b, j). i + j) (concat (map (\<lambda>(i, b). map (\<lambda>j. (i, b, j)) [0..<b]) (bunches n i b))) = [i..<n]" if "0 < b" for i b
    using that
  proof (induction n i b rule: bunches.induct)
    case (1 n i b)
    show ?case
    proof (cases "i < n")
      case True
      let ?b = "bunch_of n i b"
      have b: "0 < ?b" "i + ?b \<le> n" using True 1(2) by (auto simp: bunch_of_def)
      have "map (\<lambda>j. i + j) [0..<?b] = [i..<i + ?b]" by (rule nth_equalityI) simp_all
      moreover have "[i..<n] = [i..<i + ?b] @ [i + ?b..<n]" using upt_add_eq_append [of i "i + ?b" "n - (i + ?b)"] b(2) by simp
      ultimately show ?thesis using 1 True b by (subst bunches.simps) (simp add: comp_def)
    qed (simp add: bunches.simps)
  qed
  from this [of 50 0] show ?thesis by (simp add: io_loop_def)
qed

lemma receiving_run:
  assumes "rfold Client_inputThread xs ((buf, e, s), sh) = Ok ((buf', e', s'), sh')"
    and "distinct (map (\<lambda>(i, b, j). i + j) xs)" "\<forall>x\<in>set xs. io_cell (IO x) < length sh \<and> sh ! io_cell (IO x) = Null"
  shows "rfold (recv_guarded md rcvr H partial T) (map IO xs) (NetIn buf e s # bufs, sh) = Ok (NetIn buf' e' s' # bufs, sh')"
  using assms
proof (induction xs arbitrary: buf e s sh)
  case (Cons x xs)
  obtain i b j where x: "x = (i, b, j)" by (cases x)
  obtain buf1 e1 s1 sh1 where one: "Client_inputThread x ((buf, e, s), sh) = Ok ((buf1, e1, s1), sh1)"
    "rfold Client_inputThread xs ((buf1, e1, s1), sh1) = Ok ((buf', e', s'), sh')"
    using Cons.prems(1) by (auto simp: res_simps)
  have cell: "i + j < length sh" "sh ! (i + j) = Null" using Cons.prems(3) by (simp_all add: x io_cell_def)
  have upd: "\<exists>v. sh1 = sh[i + j := v]"
    using one(1) cell(1) by (auto simp: x Client_inputThread_def Let_def res_simps wr_def split: if_splits)
  have "\<forall>y\<in>set xs. io_cell (IO y) < length sh1 \<and> sh1 ! io_cell (IO y) = Null"
    using Cons.prems(2,3) upd by (force simp: x io_cell_def nth_list_update split: prod.splits)
  then have "rfold (recv_guarded md rcvr H partial T) (map IO xs) (NetIn buf1 e1 s1 # bufs, sh1) = Ok (NetIn buf' e' s' # bufs, sh')"
    using Cons.IH [OF one(2)] Cons.prems(2) by simp
  moreover have "recv_guarded md rcvr H partial T (IO x) (NetIn buf e s # bufs, sh) = Ok (NetIn buf1 e1 s1 # bufs, sh1)"
    using one(1) cell by (simp add: recv_guarded_def recv_act_def io_thr_def io_cell_def x)
  ultimately show ?case by simp
qed simp

text \<open>What the received cells hold in the end: unmasked, as received, or freed.\<close>

definition unmasked :: "'p OTExtRcvr \<Rightarrow> bool \<Rightarrow> bytes list \<Rightarrow> bytes list \<Rightarrow> nat \<Rightarrow> cell" where
  "unmasked rcvr partial received out j =
     (if getBit (the (x_str rcvr)) (int j) (int (x_lz rcvr)) = Ok True then Block (out ! j)
      else if partial then Freed else Block (received ! j))"

lemma step4_2MT_ok:
  assumes "OTExtRcvr_step4_2Single md rcvr x l j H = Ok y" and h: "\<And>x. length (md (md_alg H) x) = digestLen H"
    and b: "length r = byteLenRow (x_T rcvr)" "length hb = digestLen H"
  shows "\<exists>r' hb'. OTExtRcvr_step4_2SingleMT md rcvr x l j H r hb = Ok (y, r', hb') \<and>
    length r' = byteLenRow (x_T rcvr) \<and> length hb' = digestLen H"
proof -
  let ?n = "byteLenRow (x_T rcvr)"
  obtain row where s: "BM_GetRow (x_T rcvr) j (replicate ?n 0) ?n = Ok row" "xorByteArray x (row_hash md H row j) l = Ok y"
    using assms(1) by (auto simp: OTExtRcvr_step4_2Single_def res_simps)
  have n: "length row = ?n" using BM_GetRow_length [OF s(1)] by simp
  have hl: "length (row_hash md H row j) = digestLen H" using h by (simp add: row_hash_def)
  have w: "wr_blk r 0 (replicate ?n 0) = Ok (replicate ?n 0)" "wr_blk hb 0 (row_hash md H row j) = Ok (row_hash md H row j)"
    using b n hl by (simp_all add: blit_all)
  have "OTExtRcvr_step4_2SingleMT md rcvr x l j H r hb = Ok (y, row, row_hash md H row j)"
    unfolding OTExtRcvr_step4_2SingleMT_def Let_def w s(1) rbind.simps using w(2) s(2) n by simp
  then show ?thesis using n hl by blast
qed

lemma unmasking_run:
  assumes seq: "OTExtRcvr_step4_2 md rcvr xs GBFSigmaByteLen = Ok out" and H: "x_md rcvr = H" "\<And>x. length (md (md_alg H) x) = digestLen H"
    and n: "length xs = n" "x_m rcvr = n" and str: "x_str rcvr = Some str" "\<And>j. j < n \<Longrightarrow> \<exists>b. getBit str (int j) (int (x_lz rcvr)) = Ok b"
    and b: "length bufs = T" "\<forall>b\<in>set bufs. \<exists>r h. b = Bufs r h \<and> length r = byteLenRow (x_T rcvr) \<and> length h = digestLen H" and T: "0 < T"
  shows "\<exists>bufs'. rfold (recv_guarded md rcvr H partial T) (map Work [0..<n]) (l # bufs, map Block xs) =
    Ok (l # bufs', map (unmasked rcvr partial xs out) [0..<n])"
proof -
  let ?u = "unmasked rcvr partial xs out"
  define P where "P = (\<lambda>j (t :: recv_state). \<exists>bufs. t = (l # bufs, map ?u [0..<j] @ map Block (drop j xs)) \<and> length bufs = T \<and>
      (\<forall>b\<in>set bufs. \<exists>r h. b = Bufs r h \<and> length r = byteLenRow (x_T rcvr) \<and> length h = digestLen H))"
  have "\<exists>t'. rfold (\<lambda>j. recv_guarded md rcvr H partial T (Work j)) [0..<n] (l # bufs, map Block xs) = Ok t' \<and> P n t'"
  proof (rule rfold_upt_inv [where P = P])
    show "P 0 (l # bufs, map Block xs)" using b by (simp add: P_def)
  next
    fix j t assume j: "j < n" "P j t"
    obtain bufs where t: "t = (l # bufs, map ?u [0..<j] @ map Block (drop j xs))" "length bufs = T"
      "\<forall>b\<in>set bufs. \<exists>r h. b = Bufs r h \<and> length r = byteLenRow (x_T rcvr) \<and> length h = digestLen H"
      using j(2) by (auto simp: P_def)
    let ?sh = "map ?u [0..<j] @ map Block (drop j xs)"
    have cell: "?sh ! j = Block (xs ! j)" "j < length ?sh" using j(1) n(1) by (simp_all add: nth_append)
    have next_sh: "?sh[j := ?u j] = map ?u [0..<Suc j] @ map Block (drop (Suc j) xs)"
      using j(1) n(1) by (simp add: list_update_append Cons_nth_drop_Suc [symmetric])
    have "bufs ! (j mod T) \<in> set bufs" using t(2) T by simp
    then obtain r h where rh: "bufs ! (j mod T) = Bufs r h" "length r = byteLenRow (x_T rcvr)" "length h = digestLen H" using t(3) by blast
    have "OTExtRcvr_step4_2Single md rcvr (xs ! j) GBFSigmaByteLen j H = Ok (out ! j)"
      using rmap_nth [OF seq [unfolded OTExtRcvr_step4_2_def]] j(1) n H(1) by simp
    then obtain r' h' where mt: "OTExtRcvr_step4_2SingleMT md rcvr (xs ! j) GBFSigmaByteLen j H r h = Ok (out ! j, r', h')"
      "length r' = byteLenRow (x_T rcvr)" "length h' = digestLen H"
      using step4_2MT_ok [where md = md and H = H, OF _ H(2) rh(2,3)] by blast
    obtain bit where bit: "getBit str (int j) (int (x_lz rcvr)) = Ok bit" using str(2) [OF j(1)] by blast
    have "\<exists>r2 h2. Client_Step4_2Task md rcvr H partial j ((r, h), ?sh) = Ok ((r2, h2), ?sh[j := ?u j]) \<and>
        length r2 = byteLenRow (x_T rcvr) \<and> length h2 = digestLen H"
    proof (cases bit)
      case True
      then have "Client_Step4_2Task md rcvr H partial j ((r, h), ?sh) = Ok ((r', h'), ?sh[j := ?u j])"
        using mt cell bit str(1) by (simp add: Client_Step4_2Task_def deref_def unmasked_def del: map_append)
      then show ?thesis using mt by blast
    next
      case False
      moreover have "?sh[j := Block (xs ! j)] = ?sh" using cell(1) by (metis list_update_id)
      ultimately have "Client_Step4_2Task md rcvr H partial j ((r, h), ?sh) = Ok ((r, h), ?sh[j := ?u j])"
        using cell bit str(1) by (cases partial) (simp_all add: Client_Step4_2Task_def deref_def unmasked_def del: map_append)
      then show ?thesis using rh(2,3) by blast
    qed
    then obtain r2 h2 where task: "Client_Step4_2Task md rcvr H partial j ((r, h), ?sh) = Ok ((r2, h2), ?sh[j := ?u j])"
      "length r2 = byteLenRow (x_T rcvr)" "length h2 = digestLen H" by blast
    have "recv_guarded md rcvr H partial T (Work j) t = Ok (l # bufs[j mod T := Bufs r2 h2], map ?u [0..<Suc j] @ map Block (drop (Suc j) xs))"
      using task(1) t(2) rh(1) T unfolding t(1) next_sh [symmetric] by (simp add: recv_guarded_def recv_act_def io_thr_def)
    moreover have "\<forall>b\<in>set (bufs[j mod T := Bufs r2 h2]). \<exists>r h. b = Bufs r h \<and> length r = byteLenRow (x_T rcvr) \<and> length h = digestLen H"
      using t(3) task(2,3) set_update_subset_insert [of bufs "j mod T" "Bufs r2 h2"] by blast
    ultimately show "\<exists>t'. recv_guarded md rcvr H partial T (Work j) t = Ok t' \<and> P (Suc j) t'"
      using t(2) by (auto simp: P_def)
  qed simp
  then show ?thesis using n(1) by (auto simp: P_def rfold_map)
qed

lemma receive_settles:
  assumes seq: "OTExtRcvr_step4_2 md rcvr xs GBFSigmaByteLen = Ok out"
    and H: "getHashInstance (x_secLev rcvr) = Ok (x_md rcvr)" "\<And>x. length (md (md_alg (x_md rcvr)) x) = digestLen (x_md rcvr)"
    and xs: "sized n GBFSigmaByteLen xs" "x_m rcvr = n" and T: "0 < T"
    and str: "x_str rcvr = Some str" "\<And>j. j < n \<Longrightarrow> \<exists>b. getBit str (int j) (int (x_lz rcvr)) = Ok b"
    and s: "quiet s" "rx s = concat xs @ rest"
  shows "\<exists>s'. settles (Client_receive_MT md T rcvr partial n s) (Suc T) (2 * n) (map (unmasked rcvr partial xs out) [0..<n], s') \<and>
    quiet s' \<and> rx s' = rest \<and> tx s' = tx s"
proof -
  let ?H = "x_md rcvr" and ?e = "replicate (n * GBFSigmaByteLen) 0 :: bytes"
  let ?bufs = "replicate T (Bufs (replicate (byteLenRow (x_T rcvr)) 0) (replicate (digestLen ?H) 0))"
  let ?order = "map IO (io_loop n) @ map Work [0..<n]" and ?start = "(NetIn ?e 0 s # ?bufs, replicate n Null)"
  let ?cells = "map (unmasked rcvr partial xs out) [0..<n]"
  have len: "length xs = n" "\<forall>x\<in>set xs. length x = GBFSigmaByteLen" using xs(1) by (auto simp: sized_def)
  obtain buf' e' s' where inp: "rfold Client_inputThread (io_loop n) ((?e, 0, s), replicate n Null) = Ok ((buf', e', s'), map Block xs)"
    and s': "quiet s'" "rx s' = rest" "tx s' = tx s" using input_run [OF len s] by blast
  have "rfold (recv_guarded md rcvr ?H partial T) (map IO (io_loop n)) ?start = Ok (NetIn buf' e' s' # ?bufs, map Block xs)"
    using inp by (rule receiving_run) (use io_loop_cells in \<open>auto simp: io_loop_order\<close>)
  moreover obtain bufs' where "rfold (recv_guarded md rcvr ?H partial T) (map Work [0..<n]) (NetIn buf' e' s' # ?bufs, map Block xs) =
      Ok (NetIn buf' e' s' # bufs', ?cells)"
    using unmasking_run [OF seq refl H(2) len(1) xs(2) str, where bufs = ?bufs and T = T and l = "NetIn buf' e' s'"] T by auto
  ultimately have run: "rfold (recv_guarded md rcvr ?H partial T) ?order ?start = Ok (NetIn buf' e' s' # bufs', ?cells)"
    by (simp add: rfold_append)
  have "agrees (recv_guarded md rcvr ?H partial T) (shares (io_thr T) (Suc T) ?order) ?start (length ?order) (NetIn buf' e' s' # bufs', ?cells)"
  proof (rule receiving.shares_agree [where T = "Suc T" and k = n])
    show "\<forall>a\<in>set ?order. io_thr T a < Suc T \<and> cell_tasks.in_range (io_thr T) io_cell (Suc T) n a"
      using io_loop_cells T by (auto simp: receiving.in_range_def io_thr_def io_cell_def)
    show "cell_tasks.shape (Suc T) n (\<lambda>ls cs. (ls, cs)) ?start" by (simp add: receiving.shape_def)
  qed (rule run)
  then have "agrees (recv_guarded md rcvr ?H partial T) (io_queues n n T) ?start (2 * n) (NetIn buf' e' s' # bufs', ?cells)"
    using io_queues_shares [OF T, of ?order n n] by (simp add: length_io_loop mult_2)
  then have "agrees (recv_act md rcvr ?H partial T) (io_queues n n T) ?start (2 * n) (NetIn buf' e' s' # bufs', ?cells)"
    by (rule agrees_guard [rotated]) (auto simp: recv_guarded_def split: io_act.split sum.split)
  from agrees_settles [OF this, of "Suc T"]
  have "settles (\<lambda>sch. spawn_join (recv_act md rcvr ?H partial T) sch (io_queues n n T) ?start) (Suc T) (2 * n)
      (NetIn buf' e' s' # bufs', ?cells)" by (simp add: io_queues_def)
  then have "settles (Client_receive_MT md T rcvr partial n s) (Suc T) (2 * n) (?cells, s')"
    unfolding Client_receive_MT_def [abs_def] H(1) rbind.simps xs(2) by (rule settles_bind) simp
  then show ?thesis using s' by blast
qed

section \<open>Properties\<close>

lemma base_sizes:
  assumes "OTExtRcvr_Create E K str m secLev rand1 r1 r2 = Ok rcvr" "OTExtSndr_Create K m secLev toSend l rand2 ks = Ok sndr"
    and sl: "secLev_ok secLev"
  shows "x_k rcvr = nat secLev" "s_k (x_base rcvr) = nat secLev" "length (s_grs (x_base rcvr)) = nat secLev"
    "getHashInstance (x_secLev rcvr) = Ok (s_md (x_base rcvr))" "y_seedByteLen sndr = x_seedByteLen rcvr"
    "y_k sndr = nat secLev" "r_strBitLen (y_base sndr) = nat secLev" "length (y_rnd sndr) = nat secLev"
    "getHashInstance (int (y_k sndr)) = Ok (y_H sndr)"
proof -
  obtain k md rnd s0 T base rnds where r: "k = nat secLev" "rcvr = \<lparr>x_k = k, x_m = m, x_str = str, x_strByteLen = byteLen m,
      x_lz = leadZ m, x_T = T, x_md = md, x_seeds = s0, x_rnd = rnds, x_seedByteLen = nat (secLev div 8), x_secLev = secLev, x_base = base\<rparr>"
    "NPOTSndr_Create E k (nat (secLev div 8)) s0 secLev r1 r2 = Ok base"
    using assms(1) by (auto simp: OTExtRcvr_Create_def Let_def res_simps rassert_def split: if_splits)
  have H: "getHashInstance secLev = MD_Create secLev" using sl by (auto simp: secLev_ok_def getHashInstance_def rassert_def)
  have s: "s_k base = k \<and> length (s_grs base) = k \<and> MD_Create secLev = Ok (s_md base)"
    using r(3) by (auto simp: NPOTSndr_Create_def Let_def res_simps rd_blk_def split: if_splits)
  then show "x_k rcvr = nat secLev" "s_k (x_base rcvr) = nat secLev" "length (s_grs (x_base rcvr)) = nat secLev"
    "getHashInstance (x_secLev rcvr) = Ok (s_md (x_base rcvr))" using r(1,2) H by simp_all
  have kl: "byteLen (nat secLev) * 8 - leadZ (nat secLev) = nat secLev"
    using sl by (auto simp: secLev_ok_def byteLen_eq leadZ_eq)
  have k8: "int (nat secLev) = secLev" using sl by (auto simp: secLev_ok_def)
  obtain Hs s base where y: "getHashInstance secLev = Ok Hs" "NPOTRcvr_Create s (byteLen (nat secLev)) (leadZ (nat secLev)) secLev ks = Ok base"
    "sndr = \<lparr>y_k = nat secLev, y_m = m, y_toSend = toSend, y_lByteLength = l, y_rnd = replicate (nat secLev) None, y_s = s,
          y_sLeadingZeroes = leadZ (nat secLev), y_sByteLen = byteLen (nat secLev), y_seedByteLen = nat (secLev div 8),
          y_secLev = secLev, y_base = base, y_H = Hs\<rparr>"
    using assms(2) by (auto simp: OTExtSndr_Create_def Let_def res_simps)
  have "r_strBitLen base = nat secLev"
    using y(2) kl by (auto simp: NPOTRcvr_Create_def Let_def res_simps)
  then show "y_seedByteLen sndr = x_seedByteLen rcvr" "y_k sndr = nat secLev" "r_strBitLen (y_base sndr) = nat secLev"
    "length (y_rnd sndr) = nat secLev" "getHashInstance (int (y_k sndr)) = Ok (y_H sndr)"
    using r(2) y(1,3) k8 by simp_all
qed

text \<open>
  C26: the base transfers with any number of threads on either side.  Whatever the
  schedules, the three groups of tasks compute what the single-threaded set-up computes,
  and they finish when every thread gets its turns.
\<close>

theorem setup_threads:
  assumes "OTExtRcvr_Create E K str m secLev rand1 r1 r2 = Ok rcvr" "OTExtSndr_Create K m secLev toSend l rand2 ks = Ok sndr"
    and "secLev_ok secLev" "OTExt_setup E md rcvr sndr = Ok sndr'" "0 < c" "0 < d"
  shows "\<exists>pks encs grs. settles (Server_step1_MT E d sndr (OTExtRcvr_step0 rcvr)) d (nat secLev) pks \<and>
    settles (Client_step2_1_MT E md c rcvr pks) c (nat secLev) (encs, grs) \<and>
    settles (Server_step3_1_MT E md d sndr encs grs) d (nat secLev) sndr'"
proof -
  note z = base_sizes [OF assms(1-3)]
  obtain pks encs grs where s: "OTExtSndr_step1 E sndr (OTExtRcvr_step0 rcvr) = Ok pks"
    "OTExtRcvr_step2_1 E md rcvr pks = Ok (encs, grs)" "OTExtSndr_step3_1 E md sndr encs (y_seedByteLen sndr) grs = Ok sndr'"
    using assms(4) z(5) by (auto simp: OTExt_setup_def res_simps)
  have "settles (Server_step1_MT E d sndr (OTExtRcvr_step0 rcvr)) d (nat secLev) pks"
    using step1_settles [OF s(1) _ assms(6)] z by simp
  moreover have "settles (Client_step2_1_MT E md c rcvr pks) c (nat secLev) (encs, grs)"
    using step2_1_settles [OF s(2) _ _ _ assms(5)] z by simp
  moreover have "settles (Server_step3_1_MT E md d sndr encs grs) d (nat secLev) sndr'"
    using step3_1_settles [OF s(3) _ _ assms(6)] z by simp
  ultimately show ?thesis by blast
qed

theorem setup_threads_witness:
  "\<exists>rcvr sndr sndr' pks encs grs. OTExtRcvr_Create toy_curve toy_ks None 3 80 (replicate 32 1) [0..<80] [0..<80] = Ok rcvr \<and>
    settles (Server_step1_MT toy_curve 3 sndr (OTExtRcvr_step0 rcvr)) 3 80 pks \<and>
    settles (Client_step2_1_MT toy_curve toy_md 2 rcvr pks) 2 80 (encs, grs) \<and>
    settles (Server_step3_1_MT toy_curve toy_md 3 sndr encs grs) 3 80 sndr'"
proof -
  obtain rcvr sndr sndr' where s: "OTExtRcvr_Create toy_curve toy_ks None 3 80 (replicate 32 1) [0..<80] [0..<80] = Ok rcvr"
    "OTExtSndr_Create toy_ks 3 80 [None, None, None] 10 (replicate 32 2) [0..<80] = Ok sndr"
    "OTExt_setup toy_curve toy_md rcvr sndr = Ok sndr'"
    using setup_ok [OF toy_curve_ok toy_md_ok, of 80 3 80 "replicate 32 1" "replicate 32 2" "[0..<80]" "[0..<80]" "[0..<80]"
        toy_ks None "[None, None, None]" 10] by (auto simp: secLev_ok_def)
  have "\<exists>pks encs grs. settles (Server_step1_MT toy_curve 3 sndr (OTExtRcvr_step0 rcvr)) 3 (nat 80) pks \<and>
    settles (Client_step2_1_MT toy_curve toy_md 2 rcvr pks) 2 (nat 80) (encs, grs) \<and>
    settles (Server_step3_1_MT toy_curve toy_md 3 sndr encs grs) 3 (nat 80) sndr'"
    by (rule setup_threads [OF s(1,2) _ s(3)]) (simp_all add: secLev_ok_def)
  then show ?thesis using s(1) unfolding nat_numeral by blast
qed

text \<open>
  C27: a round with \<open>c\<close> threads at the receiver and \<open>d\<close> at the sender, at least two each.
  Under every schedule the threads compute the columns, the matrix, the masked strings, the
  stream on the wire and the regenerated columns of the single-threaded round; and the
  received cells end up with the string of the sender where the selection bit is 1 and
  freed or as received elsewhere.  Every group finishes under a fair schedule.
\<close>

theorem round_threads:
  assumes "synced K k m gs rcvr sndr" "x_str rcvr = Some str" "length str = (m + 7) div 8" "x_lz rcvr = leadZ m"
    and "getHashInstance (int k) = Ok (y_H sndr)" "x_secLev rcvr = int k" "\<forall>x. length (md (md_alg (y_H sndr)) x) = digestLen (y_H sndr)"
    and "y_lByteLength sndr = GBFSigmaByteLen" "GBFSigmaByteLen \<le> digestLen (y_H sndr)" "length (y_toSend sndr) = m"
    and "\<forall>p\<in>set (y_toSend sndr). length (payload GBFSigmaByteLen p) = GBFSigmaByteLen" "1 < c" "1 < d"
  shows "\<exists>cols rcvr1 sndr1 Q sndr2 sent rcvr2 out. OTExt_round K md rcvr sndr = Ok (rcvr2, sndr2, out) \<and>
    settles (Client_step2_2_MT K c rcvr) c k (cols, rcvr1) \<and>
    settles (Server_step3_2_MT K d sndr cols) d k (sndr1, Q) \<and>
    settles (Server_send_MT md (d - 1) sndr1 Q m s) d (2 * m) (sndr2, send s (concat sent)) \<and>
    settles (Client_step4_1_MT K c rcvr1) c k rcvr2 \<and>
    (\<forall>s rest. quiet s \<longrightarrow> rx s = concat sent @ rest \<longrightarrow> (\<exists>s' cells. rx s' = rest \<and>
       settles (Client_receive_MT md (c - 1) rcvr2 partial m s) c (2 * m) (cells, s') \<and>
       (\<forall>j<m. cells ! j = (if getBit str (int j) (int (leadZ m)) = Ok True then Block (payload GBFSigmaByteLen (y_toSend sndr ! j))
          else if partial then Freed else Block (sent ! j)))))"
proof -
  let ?L = GBFSigmaByteLen
  let ?out = "map (\<lambda>j. ot_out md (y_H sndr) ?L (y_s sndr) (y_toSend sndr ! j) (sel_bit m str j)
        (t_row m (cur_cols K ((m + 7) div 8) gs) j) j) [0..<m]"
  have h: "\<And>x. length (md (md_alg (y_H sndr)) x) = digestLen (y_H sndr)" using assms(7) by blast
  obtain sent ps gens Q outs qs where p: "OTExtRcvr_step2_2 K rcvr = Ok (map Some sent, with_cols rcvr ps)" "length ps = k"
    "OTExtSndr_step3_2 K sndr (map Some sent) = Ok (sndr\<lparr>y_rnd := gens\<rparr>, Q)"
    "OTExtSndr_step3_3 md (sndr\<lparr>y_rnd := gens\<rparr>) Q = Ok (sndr\<lparr>y_rnd := gens, y_toSend := map Some outs\<rparr>)"
    "length outs = m" "\<forall>x\<in>set outs. length x = ?L"
    "OTExtRcvr_MatrixDec K (with_cols rcvr ps) = Ok (with_cols rcvr qs)"
    "OTExtRcvr_step4_2 md (with_cols rcvr qs) outs ?L = Ok ?out"
    using round_parts [where md = md, OF assms(1-3) h assms(8,9,10)] assms(11) by blast
  have k: "x_k rcvr = k" "y_k sndr = k" "x_m rcvr = m" "y_m sndr = m" "m < 2 ^ 32" "x_md rcvr = y_H sndr" "length (y_rnd sndr) = k"
    "bm_k (x_T rcvr) = k" "length (bm_data (x_T rcvr)) = k" "length (x_rnd rcvr) = k"
    using assms(1) by (auto simp: synced_def cur_cols_def)
  have round: "OTExt_round K md rcvr sndr = Ok (with_cols rcvr qs, sndr\<lparr>y_rnd := gens, y_toSend := map Some outs\<rparr>, ?out)"
    by (simp add: OTExt_round_def p rmap_deref assms(8))
  have 1: "settles (Client_step2_2_MT K c rcvr) c k (map Some sent, with_cols rcvr ps)"
    using step2_2_settles [OF p(1), of c] k assms(12) by (simp add: rcvr_sized_def)
  have 2: "settles (Server_step3_2_MT K d sndr (map Some sent)) d k (sndr\<lparr>y_rnd := gens\<rparr>, Q)"
    using step3_2_settles [OF p(3), of d] k assms(13) by auto
  have 3: "settles (Server_send_MT md (d - 1) (sndr\<lparr>y_rnd := gens\<rparr>) Q m s) d (2 * m)
      (sndr\<lparr>y_rnd := gens, y_toSend := map Some outs\<rparr>, send s (concat outs))"
    using send_settles [where md = md, OF p(4), of m "d - 1" outs s] k assms(5,10,13) h p(5,6) by (simp add: sized_def)
  have 4: "settles (Client_step4_1_MT K c (with_cols rcvr ps)) c k (with_cols rcvr qs)"
    using step4_1_settles [of K "with_cols rcvr ps" "with_cols rcvr qs" c] p(2,7) k assms(12)
    by (simp add: OTExtRcvr_step4_1_def rcvr_sized_def with_cols_def)
  have bit: "getBit str (int j) (int (leadZ m)) = Ok (sel_bit m str j)" if "j < m" for j
  proof -
    have "j + leadZ m < 8 * length str" using padded_len [OF k(5)] assms(3) that by linarith
    then show ?thesis by (simp add: getBit_nat sel_bit_def)
  qed
  have 5: "\<exists>s' cells. rx s' = rest \<and> settles (Client_receive_MT md (c - 1) (with_cols rcvr qs) partial m s) c (2 * m) (cells, s') \<and>
      (\<forall>j<m. cells ! j = (if getBit str (int j) (int (leadZ m)) = Ok True then Block (payload ?L (y_toSend sndr ! j))
        else if partial then Freed else Block (outs ! j)))" if s: "quiet s" "rx s = concat outs @ rest" for s rest
  proof -
    have lz: "x_lz (with_cols rcvr qs) = leadZ m" "x_secLev (with_cols rcvr qs) = int k"
      using assms(4,6) by (simp_all add: with_cols_def)
    obtain s' where "settles (Client_receive_MT md (c - 1) (with_cols rcvr qs) partial m s) (Suc (c - 1)) (2 * m)
        (map (unmasked (with_cols rcvr qs) partial outs ?out) [0..<m], s')" "rx s' = rest"
      using receive_settles [where md = md and n = m and str = str and T = "c - 1" and partial = partial, OF p(8) _ _ _ _ _ _ _ s]
        h assms(2,5,12) bit p(5,6) k(3,6) lz by (auto simp: sized_def)
    moreover have "unmasked (with_cols rcvr qs) partial outs ?out j = (if getBit str (int j) (int (leadZ m)) = Ok True
        then Block (payload ?L (y_toSend sndr ! j)) else if partial then Freed else Block (outs ! j))" if "j < m" for j
      using that assms(2) lz bit [OF that] by (simp add: unmasked_def ot_out_def)
    ultimately show ?thesis using assms(12) by (intro exI [of _ s'] exI conjI) auto
  qed
  show ?thesis using round 1 2 3 4 5 by blast
qed

lemma Create_fields:
  "OTExtRcvr_Create E K str m secLev rand r1 r2 = Ok rcvr \<Longrightarrow> x_lz rcvr = leadZ m \<and> x_secLev rcvr = secLev"
  by (auto simp: OTExtRcvr_Create_def Let_def res_simps)

theorem round_threads_witness:
  "\<exists>rcvr sndr rcvr2 sndr2 out sent s' cells. x_str (rcvr :: int OTExtRcvr) = Some [5] \<and>
    y_toSend sndr = [Some (replicate 10 1), None, Some (replicate 10 3)] \<and>
    OTExt_round toy_ks toy_md rcvr sndr = Ok (rcvr2, sndr2, out) \<and>
    settles (Client_receive_MT toy_md 1 rcvr2 True 3 \<lparr>rx = concat sent, sched = [], tx = []\<rparr>) 2 6 (cells, s') \<and>
    cells ! 0 = Block (replicate 10 1) \<and> cells ! 1 = Freed \<and> cells ! 2 = Block (replicate 10 3)"
proof -
  let ?send = "[Some (replicate 10 1), None, Some (replicate 10 3)] :: bytes option list"
  obtain rcvr :: "int OTExtRcvr" and sndr gs H where s: "OTExtRcvr_Create toy_curve toy_ks (Some [5]) 3 80 (replicate 32 1) [0..<80] [0..<80] = Ok rcvr"
    "synced toy_ks 80 3 gs rcvr sndr" "x_str rcvr = Some [5]" "y_toSend sndr = ?send" "y_lByteLength sndr = 10" "MD_Create 80 = Ok H" "y_H sndr = H"
    using setup_ok [OF toy_curve_ok toy_md_ok, of 80 3 80 "replicate 32 1" "replicate 32 2" "[0..<80]" "[0..<80]" "[0..<80]"
        toy_ks "Some [5]" ?send 10] by (auto simp: secLev_ok_def)
  have H: "getHashInstance (int 80) = Ok (y_H sndr)" "\<forall>x. length (toy_md (md_alg (y_H sndr)) x) = digestLen (y_H sndr)"
    "digestLen (y_H sndr) = 20"
    using s(6,7) by (auto simp: getHashInstance_def rassert_def MD_Create_def toy_md_def)
  have "\<exists>cols rcvr1 sndr1 Q sndr2 sent rcvr2 out. OTExt_round toy_ks toy_md rcvr sndr = Ok (rcvr2, sndr2, out) \<and>
    settles (Client_step2_2_MT toy_ks 2 rcvr) 2 80 (cols, rcvr1) \<and>
    settles (Server_step3_2_MT toy_ks 2 sndr cols) 2 80 (sndr1, Q) \<and>
    settles (Server_send_MT toy_md (2 - 1) sndr1 Q 3 \<lparr>rx = [], sched = [], tx = []\<rparr>) 2 (2 * 3)
      (sndr2, send \<lparr>rx = [], sched = [], tx = []\<rparr> (concat sent)) \<and>
    settles (Client_step4_1_MT toy_ks 2 rcvr1) 2 80 rcvr2 \<and>
    (\<forall>s rest. quiet s \<longrightarrow> rx s = concat sent @ rest \<longrightarrow> (\<exists>s' cells. rx s' = rest \<and>
       settles (Client_receive_MT toy_md (2 - 1) rcvr2 True 3 s) 2 (2 * 3) (cells, s') \<and>
       (\<forall>j<3. cells ! j = (if getBit [5] (int j) (int (leadZ 3)) = Ok True then Block (payload GBFSigmaByteLen (y_toSend sndr ! j))
          else if True then Freed else Block (sent ! j)))))"
    by (rule round_threads [OF s(2,3)])
      (use s(4,5) H Create_fields [OF s(1)] in \<open>simp_all add: GBFSigmaByteLen_def payload_def\<close>)
  then obtain sent sndr2 rcvr2 out where r: "OTExt_round toy_ks toy_md rcvr sndr = Ok (rcvr2, sndr2, out)"
    "\<forall>s rest. quiet s \<longrightarrow> rx s = concat sent @ rest \<longrightarrow> (\<exists>s' cells. rx s' = rest \<and>
       settles (Client_receive_MT toy_md (2 - 1) rcvr2 True 3 s) 2 (2 * 3) (cells, s') \<and>
       (\<forall>j<3. cells ! j = (if getBit [5] (int j) (int (leadZ 3)) = Ok True then Block (payload GBFSigmaByteLen (y_toSend sndr ! j))
          else if True then Freed else Block (sent ! j))))" by blast
  obtain s' cells where c: "settles (Client_receive_MT toy_md 1 rcvr2 True 3 \<lparr>rx = concat sent, sched = [], tx = []\<rparr>) 2 6 (cells, s')"
    "\<And>j. j < 3 \<Longrightarrow> cells ! j = (if getBit [5] (int j) (int (leadZ 3)) = Ok True then Block (payload GBFSigmaByteLen (y_toSend sndr ! j)) else Freed)"
    using r(2) [rule_format, of "\<lparr>rx = concat sent, sched = [], tx = []\<rparr>" "[]"] by (auto simp: quiet_def)
  have "getBit [5] 0 5 = Ok True" "getBit [5] 1 5 = Ok False" "getBit [5] 2 5 = Ok True"
    by (simp_all add: getBit_def rdi_def rd_def bit_mask_def)
  then have "cells ! 0 = Block (replicate 10 1)" "cells ! 1 = Freed" "cells ! 2 = Block (replicate 10 3)"
    using c(2) [of 0] c(2) [of 1] c(2) [of 2] s(4) by (simp_all add: leadZ_eq payload_def GBFSigmaByteLen_def)
  then show ?thesis using s(3,4) r(1) c(1) by blast
qed



end
