(* ===== verification/BuilderTasks.thy ===== *)
theory BuilderTasks
  imports GarbledBF BitMatrix Concurrency
begin

text \<open>
  The threads that build the filters: \<open>PSI_C_0.1/PSI/Threads/BuilderTasks.cpp\<close> and
  \<open>PSI/MTBuilder.cpp\<close>.  \<open>num_cores()\<close> and the random seeds are arguments.  The hash
  functions that every thread creates for itself from the same keys are created once.
\<close>

section \<open>Indexes of an element\<close>

text \<open>\<open>mem\<close> is the uninitialised memory of a hash function.\<close>

definition create_hashes :: "RangeHash \<Rightarrow> bytes list \<Rightarrow> nat \<Rightarrow> nat \<Rightarrow> int \<Rightarrow> RangeHash list res" where
  "create_hashes mem hashKeys hashNum keyLen m =
     rmap (\<lambda>i. rbind (rd hashKeys i) (\<lambda>key. RangeHash_Create mem key keyLen m)) [0..<hashNum]"

text \<open>An index that repeats an earlier one is replaced by -1.\<close>

definition produce_indexes :: "(bytes \<Rightarrow> bytes) \<Rightarrow> RangeHash list \<Rightarrow> nat \<Rightarrow> bytes \<Rightarrow> nat \<Rightarrow> int list res" where
  "produce_indexes sha1 hashes hashNum x dataLen =
     rfold (\<lambda>j result. rbind (rd hashes j) (\<lambda>H. rbind (RangeHash_value sha1 H x dataLen) (\<lambda>idx.
       rbind (wr result j idx) (\<lambda>result. rbind (exists_idx idx result j) (\<lambda>e.
       if e then wr result j (-1) else Ok result))))) [0..<hashNum] (replicate hashNum 0)"

definition marked :: "int list \<Rightarrow> int list" where
  "marked idx = map (\<lambda>j. if idx ! j \<in> set (take j idx) then -1 else idx ! j) [0..<length idx]"

lemma length_marked [simp, len_simps]: "length (marked idx) = length idx"
  by (simp add: marked_def)

lemma marked_nth: "j < length idx \<Longrightarrow> marked idx ! j = (if idx ! j \<in> set (take j idx) then -1 else idx ! j)"
  by (simp add: marked_def)

lemma set_marked: "set (marked idx) - {-1} = set idx - {-1}"
proof -
  have "\<exists>j<length idx. marked idx ! j = x" if x: "x \<in> set idx" for x
  proof -
    obtain j where j: "j < length idx" "idx ! j = x" "\<forall>i<j. idx ! i \<noteq> x"
      using x by (metis in_set_conv_nth exists_least_iff [of "\<lambda>j. j < length idx \<and> idx ! j = x"] dual_order.strict_trans)
    then have "x \<notin> set (take j idx)" by (auto simp: in_set_conv_nth)
    then show ?thesis using j by (auto simp: marked_nth)
  qed
  then have "set idx \<subseteq> set (marked idx)" by (metis in_set_conv_nth length_marked subsetI)
  moreover have "set (marked idx) \<subseteq> insert (-1) (set idx)" by (auto simp: marked_def)
  ultimately show ?thesis by auto
qed

text \<open>The history check sees the same repetitions in the marked list.\<close>

lemma marked_prefix: "j \<le> length idx \<Longrightarrow> x \<noteq> -1 \<Longrightarrow> x \<in> set (take j (marked idx)) \<longleftrightarrow> x \<in> set (take j idx)"
proof -
  assume j: "j \<le> length idx" and x: "x \<noteq> -1"
  have "take j (marked idx) = marked (take j idx)"
    using j by (intro nth_equalityI) (auto simp: marked_nth min_absorb1)
  then show ?thesis using set_marked [of "take j idx"] x by auto
qed

lemma produce_indexes_ok:
  assumes "hashes_ok sha1 hs k m" "length x = dataLen"
  shows "produce_indexes sha1 hs k x dataLen = Ok (marked (indexes_of sha1 hs x))"
proof -
  let ?idx = "indexes_of sha1 hs x"
  have k: "length ?idx = k" using assms by (simp add: hashes_ok_def)
  have "rfold (\<lambda>j result. rbind (rd hs j) (\<lambda>H. rbind (RangeHash_value sha1 H x dataLen) (\<lambda>idx.
       rbind (wr result j idx) (\<lambda>result. rbind (exists_idx idx result j) (\<lambda>e.
       if e then wr result j (-1) else Ok result))))) [0..<j] (replicate k 0)
     = Ok (take j (marked ?idx) @ replicate (k - j) 0)" if "j \<le> k" for j
    using that
  proof (induction j)
    case (Suc j)
    let ?r = "take j (marked ?idx) @ replicate (k - j) 0" and ?x = "?idx ! j"
    let ?s = "take j (marked ?idx) @ ?x # replicate (k - Suc j) 0"
    have j: "j < k" using Suc.prems by simp
    have w: "wr ?r j y = Ok (take j (marked ?idx) @ y # replicate (k - Suc j) 0)" for y
      using j k by (simp add: wr_def list_update_append Cons_replicate_eq [symmetric] Suc_diff_Suc)
        (metis Suc_diff_Suc list_update_code(2) replicate_Suc)
    have w2: "wr ?s j y = Ok (take j (marked ?idx) @ y # replicate (k - Suc j) 0)" for y
      using j k by (simp add: wr_def list_update_append)
    have "0 \<le> ?x" using indexes_range [OF assms(1), of ?x x] j k by simp
    then have e: "exists_idx ?x ?s j = Ok (?x \<in> set (take j ?idx))"
      using exists_idx_prefix [of j ?s "take j (marked ?idx)" ?x] marked_prefix [of j ?idx ?x] j k by simp
    have "take (Suc j) (marked ?idx) = take j (marked ?idx) @ [if ?x \<in> set (take j ?idx) then -1 else ?x]"
      using j k by (simp add: take_Suc_conv_app_nth marked_nth)
    then show ?case using Suc j by (simp add: rfold_append hash_nth [OF assms(1) _ assms(2)] w e w2)
  qed simp
  from this [of k] k show ?thesis by (simp add: produce_indexes_def)
qed

section \<open>Bloom filters\<close>

text \<open>One iteration of the loop of a producer.\<close>

definition BFProducer ::
    "(bytes \<Rightarrow> bytes) \<Rightarrow> RangeHash list \<Rightarrow> nat \<Rightarrow> bytes list \<Rightarrow> nat \<Rightarrow> nat \<Rightarrow> BF \<times> int list option list \<Rightarrow>
     (BF \<times> int list option list) res" where
  "BFProducer sha1 hashes hashNum inputs dataLen i = (\<lambda>(flt, out).
     rbind (rd inputs i) (\<lambda>x. rbind (produce_indexes sha1 hashes hashNum x dataLen) (\<lambda>result.
     rbind (wr out i (Some result)) (\<lambda>out. rbind (BF_AddMT flt result hashNum) (\<lambda>flt. Ok (flt, out))))))"

definition MTBuilder_BF ::
    "(bytes \<Rightarrow> bytes) \<Rightarrow> nat \<Rightarrow> RangeHash \<Rightarrow> BF \<Rightarrow> BFParameters \<Rightarrow> bytes list \<Rightarrow> nat \<Rightarrow> nat \<Rightarrow> bytes list \<Rightarrow> nat \<Rightarrow> nat \<Rightarrow>
     int list option list \<Rightarrow> nat list \<Rightarrow> (BF \<times> int list option list) res" where
  "MTBuilder_BF sha1 cores mem flt param hashKeys hashNum keyLen input eLen inputLen indexOut sch =
     rbind (rassert (int hashNum = par_k param)) (\<lambda>_.
     rbind (create_hashes mem hashKeys hashNum keyLen (par_m param)) (\<lambda>hashes.
     spawn_join (BFProducer sha1 hashes hashNum input eLen) sch (threads inputLen cores) (flt, indexOut)))"

text \<open>Setting a bit, as a total function on the bit map; the order of two bits does not matter.\<close>

definition or_bit :: "int \<Rightarrow> bytes \<Rightarrow> bytes" where
  "or_bit p d = d[nat (p div 8) := d ! nat (p div 8) OR bit_mask p]"

lemma length_or_bit [simp, len_simps]: "length (or_bit p d) = length d"
  by (simp add: or_bit_def)

lemma or_bit_commute: "or_bit p \<circ> or_bit q = or_bit q \<circ> or_bit p"
proof
  fix d :: bytes
  let ?a = "nat (p div 8)" and ?b = "nat (q div 8)"
  show "(or_bit p \<circ> or_bit q) d = (or_bit q \<circ> or_bit p) d"
  proof (cases "?a = ?b")
    case True
    then show ?thesis by (cases "?a < length d") (simp_all add: or_bit_def ac_simps or.left_commute list_update_beyond)
  next
    case False
    then show ?thesis by (simp add: or_bit_def list_update_swap)
  qed
qed

definition or_bits :: "int \<Rightarrow> int list \<Rightarrow> bytes \<Rightarrow> bytes" where
  "or_bits lz idx = fold (\<lambda>i. if i \<noteq> -1 then or_bit (i + lz) else id) idx"

lemma length_or_bits [simp, len_simps]: "length (or_bits lz idx d) = length d"
  unfolding or_bits_def by (induction idx arbitrary: d) auto

lemma or_bits_commute: "or_bits lz is (or_bits lz js d) = or_bits lz js (or_bits lz is d)"
proof -
  let ?f = "\<lambda>i::int. if i \<noteq> -1 then or_bit (i + lz) else id"
  have c: "?f i \<circ> ?f j = ?f j \<circ> ?f i" for i j by (simp add: or_bit_commute)
  have "?f i \<circ> fold ?f js = fold ?f js \<circ> ?f i" for i by (rule fold_commute) (simp only: c)
  then have "fold ?f js \<circ> fold ?f is = fold ?f is \<circ> fold ?f js" by (intro fold_commute) (simp only:)
  then show ?thesis by (simp add: or_bits_def fun_eq_iff)
qed

lemma BF_SetBit_or:
  assumes "bf_wf f" "0 \<le> i" "i < bf_m f"
  shows "BF_SetBit f i = Ok (f\<lparr>bf_data := or_bit (i + bf_lz f) (bf_data f)\<rparr>)"
proof -
  obtain d where d: "setBit (bf_data f) i (bf_lz f) = Ok d"
    using bf.put_ok [OF assms] assms(2,3) by (auto simp: BF_SetBit_def rassert_def res_simps)
  then have "d = or_bit (i + bf_lz f) (bf_data f)" by (simp add: setBit_Ok_iff or_bit_def)
  then show ?thesis using assms d by (simp add: BF_SetBit_def rassert_def)
qed

lemma BF_AddMT_fold: "BF_AddMT f idx (length idx) = rfold (\<lambda>i f. if i \<noteq> -1 then BF_SetBit f i else Ok f) idx f"
proof -
  let ?g = "\<lambda>(i::int) f. if i \<noteq> -1 then BF_SetBit f i else Ok f"
  have "BF_AddMT f idx (length idx) = rfold (\<lambda>i. ?g (idx ! i)) [0..<length idx] f"
    unfolding BF_AddMT_def by (intro rfold_cong) simp_all
  also have "\<dots> = rfold ?g idx f" by (rule rfold_nth)
  finally show ?thesis .
qed

lemma BF_AddMT_or:
  assumes "bf_wf f" "\<forall>i\<in>set idx. i = -1 \<or> 0 \<le> i \<and> i < bf_m f"
  shows "BF_AddMT f idx (length idx) = Ok (f\<lparr>bf_data := or_bits (bf_lz f) idx (bf_data f)\<rparr>)"
proof -
  have "rfold (\<lambda>i f. if i \<noteq> -1 then BF_SetBit f i else Ok f) idx f = Ok (f\<lparr>bf_data := or_bits (bf_lz f) idx (bf_data f)\<rparr>)"
    using assms
  proof (induction idx arbitrary: f)
    case (Cons i idx)
    show ?case
    proof (cases "i = -1")
      case False
      let ?f = "f\<lparr>bf_data := or_bit (i + bf_lz f) (bf_data f)\<rparr>"
      have "bf_wf ?f" using Cons.prems(1) by (simp add: bf_wf_def)
      then show ?thesis using Cons.IH [of ?f] Cons.prems False by (simp add: BF_SetBit_or or_bits_def)
    qed (use Cons in \<open>simp add: or_bits_def\<close>)
  qed (simp add: or_bits_def)
  then show ?thesis by (simp add: BF_AddMT_fold)
qed

lemma marked_set:
  assumes "hashes_ok sha1 hs k m"
  shows "\<forall>i\<in>set (marked (indexes_of sha1 hs x)). i = -1 \<or> 0 \<le> i \<and> i < m"
proof
  fix i assume "i \<in> set (marked (indexes_of sha1 hs x))"
  then have "i = -1 \<or> i \<in> set (indexes_of sha1 hs x)" using set_marked by fastforce
  then show "i = -1 \<or> 0 \<le> i \<and> i < m" using indexes_range [OF assms] by blast
qed

text \<open>The producers commute on the bit map and write separate cells of the output.\<close>

definition bf_task_ok :: "(bytes \<Rightarrow> bytes) \<Rightarrow> RangeHash list \<Rightarrow> nat \<Rightarrow> int \<Rightarrow> bytes list \<Rightarrow> nat \<Rightarrow> nat \<Rightarrow> bool" where
  "bf_task_ok sha1 hs k m inputs eLen j \<longleftrightarrow> hashes_ok sha1 hs k m \<and> j < length inputs \<and> length (inputs ! j) = eLen"

definition bf_state_ok :: "int \<Rightarrow> nat \<Rightarrow> BF \<times> int list option list \<Rightarrow> bool" where
  "bf_state_ok m n = (\<lambda>(f, out). bf_wf f \<and> bf_m f = m \<and> length out = n)"

definition bf_task :: "(bytes \<Rightarrow> bytes) \<Rightarrow> RangeHash list \<Rightarrow> bytes \<Rightarrow> nat \<Rightarrow> BF \<times> int list option list \<Rightarrow> BF \<times> int list option list" where
  "bf_task sha1 hs x j = (\<lambda>(f, out). (f\<lparr>bf_data := or_bits (bf_lz f) (marked (indexes_of sha1 hs x)) (bf_data f)\<rparr>,
     out[j := Some (marked (indexes_of sha1 hs x))]))"

lemma BFProducer_task:
  assumes "bf_state_ok m (length inputs) s" "bf_task_ok sha1 hs k m inputs eLen j"
  shows "BFProducer sha1 hs k inputs eLen j s = Ok (bf_task sha1 hs (inputs ! j) j s)"
    "bf_state_ok m (length inputs) (bf_task sha1 hs x j s)"
proof -
  obtain f out where s: "s = (f, out)" "bf_wf f" "bf_m f = m" "length out = length inputs"
    using assms(1) by (auto simp: bf_state_ok_def)
  have h: "hashes_ok sha1 hs k m" "j < length inputs" "length (inputs ! j) = eLen"
    using assms(2) by (simp_all add: bf_task_ok_def)
  let ?idx = "marked (indexes_of sha1 hs (inputs ! j))"
  have "length ?idx = k" using h(1) by (simp add: hashes_ok_def)
  then have "BF_AddMT f ?idx k = Ok (f\<lparr>bf_data := or_bits (bf_lz f) ?idx (bf_data f)\<rparr>)"
    using BF_AddMT_or [OF s(2), of ?idx] marked_set [OF h(1)] s(3) by simp
  then show "BFProducer sha1 hs k inputs eLen j s = Ok (bf_task sha1 hs (inputs ! j) j s)"
    using h s by (simp add: BFProducer_def produce_indexes_ok [OF h(1)] bf_task_def)
  show "bf_state_ok m (length inputs) (bf_task sha1 hs x j s)"
    using s by (simp add: bf_state_ok_def bf_task_def bf_wf_def)
qed

interpretation bf_producers: commuting "BFProducer sha1 hs k inputs eLen" "\<lambda>j. j mod T"
  "bf_task_ok sha1 hs k m inputs eLen" "bf_state_ok m (length inputs)"
proof (unfold_locales, goal_cases)
  case (1 s a s')
  then show ?case using BFProducer_task(2) [OF 1(1,2), of "inputs ! a"] by (simp add: BFProducer_task(1) [OF 1(1,2)])
next
  case (2 s a b s1 s2)
  then have ab: "a \<noteq> b" by auto
  have "bf_task sha1 hs (inputs ! b) b (bf_task sha1 hs (inputs ! a) a s)
      = bf_task sha1 hs (inputs ! a) a (bf_task sha1 hs (inputs ! b) b s)"
    by (cases s) (simp add: bf_task_def or_bits_commute list_update_swap [OF ab])
  then show ?case using 2(5,6) BFProducer_task(1) [OF 2(1,2)] BFProducer_task(1) [OF 2(1,3)]
      BFProducer_task(1) [OF BFProducer_task(2) [OF 2(1,2), of "inputs ! a"] 2(3)]
      BFProducer_task(1) [OF BFProducer_task(2) [OF 2(1,3), of "inputs ! b"] 2(2)] by auto
next
  case (3 s a b e s1)
  then show ?case using BFProducer_task(1) [OF 3(1,2)] by simp
qed

lemma bf_set_task:
  assumes "bf_state_ok m n (f, out)" "hashes_ok sha1 hs k m"
  shows "bf_set (fst (bf_task sha1 hs x j (f, out))) = bf_set f \<union> set (indexes_of sha1 hs x)"
proof -
  let ?idx = "marked (indexes_of sha1 hs x)"
  let ?js = "filter (\<lambda>i. i \<noteq> -1) ?idx"
  have f: "bf_wf f" "bf_m f = m" using assms(1) by (simp_all add: bf_state_ok_def)
  have r: "\<forall>i\<in>set ?js. 0 \<le> i \<and> i < bf_m f" using marked_set [OF assms(2), of x] f by auto
  obtain g where g: "rfold (\<lambda>i f. BF_SetBit f i) ?js f = Ok g" "bf_set g = bf_set f \<union> set ?js"
    using puts_set [OF f(1) r] by blast
  have "rfold (\<lambda>i f. BF_SetBit f i) (filter (\<lambda>i. i \<noteq> -1) xs) f = rfold (\<lambda>i f. if i \<noteq> -1 then BF_SetBit f i else Ok f) xs f" for xs f
  proof (induction xs arbitrary: f)
    case (Cons x xs)
    then show ?case by (cases "x = -1"; cases "BF_SetBit f x") auto
  qed simp
  then have "rfold (\<lambda>i f. BF_SetBit f i) ?js f = BF_AddMT f ?idx (length ?idx)"
    unfolding BF_AddMT_fold .
  then have "g = f\<lparr>bf_data := or_bits (bf_lz f) ?idx (bf_data f)\<rparr>"
    using g(1) BF_AddMT_or [OF f(1), of ?idx] marked_set [OF assms(2), of x] f(2) by simp
  moreover have "set ?js = set (indexes_of sha1 hs x)"
    using set_marked [of "indexes_of sha1 hs x"] indexes_range [OF assms(2), of _ x] by fastforce
  ultimately show ?thesis using g(2) by (simp add: bf_task_def)
qed

lemma bf_sequential:
  assumes "hashes_ok sha1 hs k m" "\<forall>x\<in>set inputs. length x = eLen" "bf_state_ok m (length inputs) (f, out)" "n \<le> length inputs"
  shows "\<exists>g. rfold (BFProducer sha1 hs k inputs eLen) [0..<n] (f, out)
      = Ok (g, map (\<lambda>x. Some (marked (indexes_of sha1 hs x))) (take n inputs) @ drop n out) \<and>
    bf_wf g \<and> bf_m g = m \<and> bf_set g = bf_set f \<union> (\<Union>x\<in>set (take n inputs). set (indexes_of sha1 hs x))"
  using assms(4)
proof (induction n)
  case 0
  then show ?case using assms(3) by (simp add: bf_state_ok_def)
next
  case (Suc n)
  let ?out = "map (\<lambda>x. Some (marked (indexes_of sha1 hs x))) (take n inputs) @ drop n out"
  obtain g where g: "rfold (BFProducer sha1 hs k inputs eLen) [0..<n] (f, out) = Ok (g, ?out)" "bf_wf g" "bf_m g = m"
    "bf_set g = bf_set f \<union> (\<Union>x\<in>set (take n inputs). set (indexes_of sha1 hs x))"
    using Suc by auto
  have n: "n < length inputs" "length out = length inputs" using Suc.prems assms(3) by (simp_all add: bf_state_ok_def)
  then have ok: "bf_state_ok m (length inputs) (g, ?out)" "bf_task_ok sha1 hs k m inputs eLen n"
    using g assms(1,2) by (simp_all add: bf_state_ok_def bf_task_ok_def)
  let ?t = "bf_task sha1 hs (inputs ! n) n (g, ?out)"
  have "snd ?t = map (\<lambda>x. Some (marked (indexes_of sha1 hs x))) (take (Suc n) inputs) @ drop (Suc n) out"
    using n by (simp add: bf_task_def list_update_append take_Suc_conv_app_nth Cons_nth_drop_Suc [symmetric])
  moreover have "bf_set (fst ?t) = bf_set f \<union> (\<Union>x\<in>set (take (Suc n) inputs). set (indexes_of sha1 hs x))"
    using bf_set_task [OF ok(1) assms(1)] g(4) n by (auto simp: take_Suc_conv_app_nth)
  moreover have "bf_state_ok m (length inputs) ?t" using BFProducer_task(2) [OF ok] .
  moreover have "rfold (BFProducer sha1 hs k inputs eLen) [0..<Suc n] (f, out) = Ok ?t"
    using g(1) BFProducer_task(1) [OF ok] by (simp add: rfold_append)
  ultimately show ?case by (cases ?t) (auto simp: bf_state_ok_def)
qed


text \<open>Three inputs on two threads, for the witness.\<close>

definition toy_mem :: RangeHash where
  "toy_mem = \<lparr>rh_key = [], rh_keyLen = 0, rh_dataBuf = replicate 64 0, rh_m = 0\<rparr>"

lemma toy_create_hashes:
  "\<exists>hs. create_hashes toy_mem [[1], [1, 2]] 2 1 8 = Ok hs \<and> hashes_ok toy_sha1 hs 2 8"
  by (simp add: create_hashes_def toy_mem_def RangeHash_Create_def RangeHash_DataBufLen_def blit_def numeral_2_eq_2
      hashes_ok_def toy_sha1_ok rh_ok_def)


section \<open>Producers at the grain of memory accesses\<close>

text \<open>
  \<open>setBit\<close> is \<open>bitMap[k] |= mask\<close>: a load of the byte into a register of the thread and a store.
  Between the two another thread may store to the same byte.
\<close>

datatype byte_act = Hash nat | Load nat nat | Store nat nat

definition byte_step ::
    "(bytes \<Rightarrow> bytes) \<Rightarrow> RangeHash list \<Rightarrow> nat \<Rightarrow> bytes list \<Rightarrow> nat \<Rightarrow> nat \<Rightarrow> byte_act \<Rightarrow>
     u8 list \<times> BF \<times> int list option list \<Rightarrow> (u8 list \<times> BF \<times> int list option list) res" where
  "byte_step sha1 hashes hashNum inputs dataLen T a = (\<lambda>(regs, flt, out).
     case a of
       Hash i \<Rightarrow>
         rbind (rd inputs i) (\<lambda>x. rbind (produce_indexes sha1 hashes hashNum x dataLen) (\<lambda>result.
         rbind (wr out i (Some result)) (\<lambda>out. Ok (regs, flt, out))))
     | Load i j \<Rightarrow>
         rbind (rd out i) (\<lambda>p. rbind (deref p) (\<lambda>result. rbind (rd result j) (\<lambda>idx.
         if idx = -1 then Ok (regs, flt, out)
         else rbind (rassert (idx < bf_m flt \<and> idx \<ge> 0)) (\<lambda>_.
              rbind (rdi (bf_data flt) ((idx + bf_lz flt) div 8)) (\<lambda>b.
              rbind (wr regs (i mod T) b) (\<lambda>regs. Ok (regs, flt, out)))))))
     | Store i j \<Rightarrow>
         rbind (rd out i) (\<lambda>p. rbind (deref p) (\<lambda>result. rbind (rd result j) (\<lambda>idx.
         if idx = -1 then Ok (regs, flt, out)
         else rbind (rd regs (i mod T)) (\<lambda>b.
              rbind (wri (bf_data flt) ((idx + bf_lz flt) div 8) (b OR bit_mask (idx + bf_lz flt))) (\<lambda>d.
              Ok (regs, flt\<lparr>bf_data := d\<rparr>, out)))))))"

definition byte_acts :: "nat \<Rightarrow> nat \<Rightarrow> byte_act list" where
  "byte_acts k i = Hash i # concat (map (\<lambda>j. [Load i j, Store i j]) [0..<k])"

definition byte_queues :: "nat \<Rightarrow> nat \<Rightarrow> nat \<Rightarrow> byte_act list list" where
  "byte_queues k n T = map (\<lambda>q. concat (map (byte_acts k) q)) (threads n T)"

text \<open>Undisturbed, the accesses of an iteration are the iteration.\<close>

lemma byte_pair:
  assumes "bf_wf f" "i < length out" "out ! i = Some result" "j < length result" "result ! j = -1 \<or> 0 \<le> result ! j \<and> result ! j < bf_m f" "i mod T < length regs"
  shows "\<exists>regs'. rfold (byte_step sha1 hs k inputs dataLen T) [Load i j, Store i j] (regs, f, out)
      = rbind (if result ! j \<noteq> -1 then BF_SetBit f (result ! j) else Ok f) (\<lambda>f. Ok (regs', f, out)) \<and> length regs' = length regs"
proof (cases "result ! j = -1")
  case True
  then show ?thesis using assms by (intro exI [of _ regs]) (simp add: byte_step_def deref_def)
next
  case False
  then have r: "0 \<le> result ! j" "result ! j < bf_m f" using assms(5) by auto
  let ?p = "result ! j + bf_lz f"
  obtain d where d: "setBit (bf_data f) (result ! j) (bf_lz f) = Ok d"
    using bf.put_ok [OF assms(1) r] r by (auto simp: BF_SetBit_def rassert_def res_simps)
  then have p: "0 \<le> ?p div 8" "?p div 8 < int (length (bf_data f))" by (auto simp: setBit_Ok_iff)
  have b: "BF_SetBit f (result ! j) = Ok (f\<lparr>bf_data := (bf_data f)[nat (?p div 8) := bf_data f ! nat (?p div 8) OR bit_mask ?p]\<rparr>)"
    using BF_SetBit_or [OF assms(1) r] by (simp add: or_bit_def)
  show ?thesis using assms False r p
    by (intro exI [of _ "regs[i mod T := bf_data f ! nat (?p div 8)]"]) (simp add: byte_step_def deref_def rassert_def b)
qed

lemma byte_iteration:
  assumes "bf_state_ok m (length inputs) (f, out)" "bf_task_ok sha1 hs k m inputs eLen i" "i mod T < length regs"
  shows "\<exists>regs'. rfold (byte_step sha1 hs k inputs eLen T) (byte_acts k i) (regs, f, out)
    = rbind (BFProducer sha1 hs k inputs eLen i (f, out)) (\<lambda>s. Ok (regs', s))"
proof -
  let ?r = "marked (indexes_of sha1 hs (inputs ! i))"
  let ?out = "out[i := Some ?r]" and ?S = "\<lambda>f n. if ?r ! n \<noteq> -1 then BF_SetBit f (?r ! n) else Ok f"
  have h: "hashes_ok sha1 hs k m" "i < length inputs" "length (inputs ! i) = eLen" "length ?r = k"
    using assms(2) by (auto simp: bf_task_ok_def hashes_ok_def)
  have f: "bf_wf f" "bf_m f = m" "length out = length inputs" using assms(1) by (simp_all add: bf_state_ok_def)
  have r: "?r ! n = -1 \<or> 0 \<le> ?r ! n \<and> ?r ! n < m" if "n < k" for n
    using marked_set [OF h(1), of "inputs ! i"] that h(4) by (metis nth_mem)
  have loop: "\<exists>regs' g. rfold (byte_step sha1 hs k inputs eLen T) (concat (map (\<lambda>j. [Load i j, Store i j]) [0..<n])) (regs, f, ?out)
      = Ok (regs', g, ?out) \<and> rfold (\<lambda>n f. ?S f n) [0..<n] f = Ok g \<and> length regs' = length regs \<and> bf_wf g \<and> bf_m g = m" if "n \<le> k" for n
    using that
  proof (induction n)
    case (Suc n)
    then obtain regs1 g where g: "rfold (byte_step sha1 hs k inputs eLen T) (concat (map (\<lambda>j. [Load i j, Store i j]) [0..<n])) (regs, f, ?out)
      = Ok (regs1, g, ?out)" "rfold (\<lambda>n f. ?S f n) [0..<n] f = Ok g" "length regs1 = length regs" "bf_wf g" "bf_m g = m" by auto
    have n: "n < k" using Suc.prems by simp
    obtain g' where g': "?S g n = Ok g'" "bf_wf g'" "bf_m g' = m"
      using bf.put_ok [OF g(4), of "?r ! n"] r [OF n] g(4,5) by (cases "?r ! n = -1") auto
    obtain regs2 where "rfold (byte_step sha1 hs k inputs eLen T) [Load i n, Store i n] (regs1, g, ?out) = rbind (?S g n) (\<lambda>f. Ok (regs2, f, ?out))"
      "length regs2 = length regs1"
      using byte_pair [OF g(4), of i ?out ?r n T regs1 sha1 hs k inputs eLen] f h(2,4) n r [OF n] g(3,5) assms(3) by auto
    then show ?case using g g' by (simp add: rfold_append del: rfold.simps(2))
  qed (use f in auto)
  obtain regs' g where g: "rfold (byte_step sha1 hs k inputs eLen T) (concat (map (\<lambda>j. [Load i j, Store i j]) [0..<k])) (regs, f, ?out)
      = Ok (regs', g, ?out)" "rfold (\<lambda>n f. ?S f n) [0..<k] f = Ok g" using loop [OF order_refl] by blast
  have "BF_AddMT f ?r k = Ok g"
    using g(2) h(4) unfolding BF_AddMT_def by (subst rfold_cong [OF refl refl]) auto
  then have "BFProducer sha1 hs k inputs eLen i (f, out) = Ok (g, ?out)"
    using h f by (simp add: BFProducer_def produce_indexes_ok [OF h(1)])
  then show ?thesis using g(1) h f
    by (intro exI [of _ regs']) (simp add: byte_acts_def byte_step_def produce_indexes_ok [OF h(1)])
qed

text \<open>A digest that only depends on the last byte of its input: elements with different indexes.\<close>

definition last_sha1 :: "bytes \<Rightarrow> bytes" where
  "last_sha1 x = [0, 0, 0, last x, 0, 0, 0, 0, 0, 0, 0, 0, 0, 0, 0, 0, 0, 0, 0, 0]"

definition last_hashes :: "RangeHash list" where
  "last_hashes = [\<lparr>rh_key = [0], rh_keyLen = 1, rh_dataBuf = replicate 64 0, rh_m = 8\<rparr>]"

lemma last_hashes_ok: "hashes_ok last_sha1 last_hashes 1 8"
  by (simp add: hashes_ok_def last_hashes_def sha1_ok_def last_sha1_def rh_ok_def RangeHash_DataBufLen_def)

lemma last_indexes: "indexes_of last_sha1 last_hashes [1] = [1]" "indexes_of last_sha1 last_hashes [2] = [2]"
  by (simp_all add: indexes_of_def last_hashes_def rh_index_def range_index_def digest_word_def be_nat_def last_sha1_def)

text \<open>
  C31: at the grain of memory accesses the producers race.  Two threads insert the elements \<open>[1]\<close>
  and \<open>[2]\<close> into a filter of eight bits; run one after the other the filter contains both,
  but when both load the byte before either stores it, the first update is lost and the filter
  built answers that \<open>[1]\<close> was never inserted.
\<close>

theorem BFProducer_lost_update:
  "\<exists>f g out regs regs'.
    spawn_join (byte_step last_sha1 last_hashes 1 [[1], [2]] 1 2) [0, 0, 0, 1, 1, 1] (byte_queues 1 2 2)
      ([0, 0], BF_Create 8, [None, None]) = Ok (regs, f, out) \<and>
    BF_Query last_sha1 f [1] 1 last_hashes 1 = Ok True \<and> BF_Query last_sha1 f [2] 1 last_hashes 1 = Ok True \<and>
    spawn_join (byte_step last_sha1 last_hashes 1 [[1], [2]] 1 2) [0, 1, 0, 1, 0, 1] (byte_queues 1 2 2)
      ([0, 0], BF_Create 8, [None, None]) = Ok (regs', g, out) \<and>
    BF_Query last_sha1 g [1] 1 last_hashes 1 = Ok False"
proof -
  have q: "byte_queues 1 2 2 = [[Hash 0, Load 0 0, Store 0 0], [Hash 1, Load 1 0, Store 1 0]]"
    by (simp add: byte_queues_def threads_def strided.simps byte_acts_def upt_rec numeral_2_eq_2)
  have p: "produce_indexes last_sha1 last_hashes 1 [1] 1 = Ok [1]" "produce_indexes last_sha1 last_hashes 1 [2] 1 = Ok [2]"
    using produce_indexes_ok [OF last_hashes_ok, of "[1]" 1] produce_indexes_ok [OF last_hashes_ok, of "[2]" 1]
    by (simp_all add: last_indexes marked_def)
  let ?f = "\<lambda>b. \<lparr>bf_data = [b], bf_m = 8, bf_lz = 0, bf_byteLen = 1\<rparr>"
  have c: "BF_Create 8 = ?f 0" by (simp add: BF_Create_def Let_def)
  have s: "byte_step last_sha1 last_hashes 1 [[1], [2]] 1 2 (Hash 0) (r, f, [a, b]) = Ok (r, f, [Some [1], b])"
    "byte_step last_sha1 last_hashes 1 [[1], [2]] 1 2 (Hash 1) (r, f, [a, b]) = Ok (r, f, [a, Some [2]])"
    "byte_step last_sha1 last_hashes 1 [[1], [2]] 1 2 (Load 0 0) ([u, v], ?f w, [Some [1], b]) = Ok ([w, v], ?f w, [Some [1], b])"
    "byte_step last_sha1 last_hashes 1 [[1], [2]] 1 2 (Load 1 0) ([u, v], ?f w, [a, Some [2]]) = Ok ([u, w], ?f w, [a, Some [2]])"
    "byte_step last_sha1 last_hashes 1 [[1], [2]] 1 2 (Store 0 0) ([u, v], ?f w, [Some [1], b]) = Ok ([u, v], ?f (u OR 64), [Some [1], b])"
    "byte_step last_sha1 last_hashes 1 [[1], [2]] 1 2 (Store 1 0) ([u, v], ?f w, [a, Some [2]]) = Ok ([u, v], ?f (v OR 32), [a, Some [2]])"
    for r f a b u v w
    by (simp_all add: byte_step_def p [simplified] deref_def rassert_def bit_mask_def rdi_def wri_def)
  have g: "BF_Query last_sha1 (?f w) [1] 1 last_hashes 1 = Ok (bit w 6)" "BF_Query last_sha1 (?f w) [2] 1 last_hashes 1 = Ok (bit w 5)" for w
    using BF_Query_get [of last_sha1 last_hashes 1 "?f w" "[1]" 1] BF_Query_get [of last_sha1 last_hashes 1 "?f w" "[2]" 1] last_hashes_ok
    by (simp_all add: last_indexes BF_GetBit_def rassert_def getBit_Ok)
  have "spawn_join (byte_step last_sha1 last_hashes 1 [[1], [2]] 1 2) [0, 0, 0, 1, 1, 1] (byte_queues 1 2 2)
      ([0, 0], BF_Create 8, [None, None]) = Ok ([0, 64], ?f (64 OR 32), [Some [1], Some [2]])"
    by (simp add: spawn_join_def q [simplified] c s [simplified] finished_def)
  moreover have "spawn_join (byte_step last_sha1 last_hashes 1 [[1], [2]] 1 2) [0, 1, 0, 1, 0, 1] (byte_queues 1 2 2)
      ([0, 0], BF_Create 8, [None, None]) = Ok ([0, 0], ?f 32, [Some [1], Some [2]])"
    by (simp add: spawn_join_def q [simplified] c s [simplified] finished_def)
  moreover have "BF_Query last_sha1 (?f (64 OR 32)) [1] 1 last_hashes 1 = Ok True"
    "BF_Query last_sha1 (?f (64 OR 32)) [2] 1 last_hashes 1 = Ok True" "BF_Query last_sha1 (?f 32) [1] 1 last_hashes 1 = Ok False"
    unfolding g by simp_all
  ultimately show ?thesis by blast
qed

section \<open>Garbled Bloom filters\<close>

definition builder_bunch :: nat where "builder_bunch = 100000"

text \<open>The arguments of the builder threads, and the iterations of their loops.\<close>

record indexArgs =
  ia_hashNum :: nat
  ia_inputNum :: nat
  ia_eHash :: "bytes list"

definition GBFIndexProducer ::
    "(bytes \<Rightarrow> bytes) \<Rightarrow> RangeHash list \<Rightarrow> nat \<Rightarrow> bytes list \<Rightarrow> nat \<Rightarrow> nat \<Rightarrow> int list option list \<Rightarrow> int list option list res" where
  "GBFIndexProducer sha1 hashes hashNum inputs dataLen i out =
     rbind (rd inputs i) (\<lambda>x. rbind (produce_indexes sha1 hashes hashNum x dataLen) (\<lambda>result. wr out i (Some result)))"

definition GBFRndProducer ::
    "(bytes \<Rightarrow> nat \<Rightarrow> u8) \<Rightarrow> nat \<Rightarrow> nat \<Rightarrow> AESRandom \<times> RandomSource \<Rightarrow> (AESRandom \<times> RandomSource) res" where
  "GBFRndProducer ks rowLen i = (\<lambda>(rnd, rs).
     rbind (AESRandom_NextBytes ks rnd (replicate rowLen 0) rowLen) (\<lambda>(rowBytes, rnd).
     rbind (RandomSource_Insert rs rowBytes i) (\<lambda>rs. Ok (rnd, rs))))"

definition collect_step ::
    "indexArgs \<Rightarrow> int list option list \<Rightarrow> nat \<Rightarrow> GarbledBF \<times> RandomSource \<Rightarrow> (GarbledBF \<times> RandomSource) res" where
  "collect_step a indexes i = (\<lambda>(flt, rs).
     rbind (rd indexes i) (\<lambda>p.
     case p of None \<Rightarrow> Err WouldBlock
     | Some idx \<Rightarrow> rbind (rd (ia_eHash a) i) (\<lambda>h. GBF_addMT flt idx (ia_hashNum a) h rs)))"

text \<open>
  The collector waits for the indexes of each element in turn and adds it, then fills the free
  slots; with the producers at rest it is a sequential loop.
\<close>

definition startCollectingIndexes ::
    "indexArgs \<Rightarrow> int list option list \<Rightarrow> GarbledBF \<times> RandomSource \<Rightarrow> (GarbledBF \<times> RandomSource) res" where
  "startCollectingIndexes a indexes s =
     rbind (rfold (collect_step a indexes) [0..<ia_inputNum a] s) (\<lambda>(flt, rs). GBF_doFinalMT flt rs)"

text \<open>The actions of all threads: collector 0, the index producers, the random producers.\<close>

datatype mt_act = Index nat | Rnd nat | Collect nat | Final

type_synonym mt_state = "AESRandom list \<times> int list option list \<times> GarbledBF \<times> RandomSource"

definition mt_thr :: "nat \<Rightarrow> mt_act \<Rightarrow> nat" where
  "mt_thr T a = (case a of Index j \<Rightarrow> 1 + j mod T | Rnd r \<Rightarrow> 1 + T + r mod T | Collect _ \<Rightarrow> 0 | Final \<Rightarrow> 0)"

definition mt_step ::
    "(bytes \<Rightarrow> bytes) \<Rightarrow> (bytes \<Rightarrow> nat \<Rightarrow> u8) \<Rightarrow> RangeHash list \<Rightarrow> indexArgs \<Rightarrow> bytes list \<Rightarrow> nat \<Rightarrow> nat \<Rightarrow> nat \<Rightarrow>
     mt_act \<Rightarrow> mt_state \<Rightarrow> mt_state res" where
  "mt_step sha1 ks hashes a inputs eLen rowLen T act = (\<lambda>(rnds, indexes, flt, rs).
     case act of
       Index j \<Rightarrow> rbind (GBFIndexProducer sha1 hashes (ia_hashNum a) inputs eLen j indexes) (\<lambda>indexes. Ok (rnds, indexes, flt, rs))
     | Rnd r \<Rightarrow> rbind (rd rnds (r mod T)) (\<lambda>rnd. rbind (GBFRndProducer ks rowLen r (rnd, rs)) (\<lambda>(rnd, rs).
         Ok (rnds[r mod T := rnd], indexes, flt, rs)))
     | Collect i \<Rightarrow> rbind (collect_step a indexes i (flt, rs)) (\<lambda>(flt, rs). Ok (rnds, indexes, flt, rs))
     | Final \<Rightarrow> rbind (GBF_doFinalMT flt rs) (\<lambda>(flt, rs). Ok (rnds, indexes, flt, rs)))"

definition mt_queues :: "nat \<Rightarrow> nat \<Rightarrow> nat \<Rightarrow> mt_act list list" where
  "mt_queues n R T = (map Collect [0..<n] @ [Final]) # map (map Index) (threads n T) @ map (map Rnd) (threads R T)"

text \<open>
  Only the collector is joined.  \<open>seeds\<close> are what \<open>RAND_bytes\<close> gives the random producers, one seed
  per thread.
\<close>

definition MTBuilder_GBF ::
    "(bytes \<Rightarrow> bytes) \<Rightarrow> (bytes \<Rightarrow> nat \<Rightarrow> u8) \<Rightarrow> bytes list \<Rightarrow> RangeHash \<Rightarrow> GarbledBF \<Rightarrow> BFParameters \<Rightarrow> bytes list \<Rightarrow> nat \<Rightarrow> nat \<Rightarrow>
     bytes list \<Rightarrow> nat \<Rightarrow> nat \<Rightarrow> bytes list \<Rightarrow> nat \<Rightarrow> nat list \<Rightarrow> GarbledBF res" where
  "MTBuilder_GBF sha1 ks seeds mem flt param hashKeys hashNum keyLen input eLen inputLen eHash rndSeedLen sch =
     rbind (rassert (int hashNum = par_k param)) (\<lambda>_.
     let totalBlocks = nat (par_m param) - inputLen;
         rowLength = (totalBlocks div builder_bunch + 1) * GBFSigmaByteLen;
         a = \<lparr>ia_hashNum = hashNum, ia_inputNum = inputLen, ia_eHash = eHash\<rparr> in
     rbind (create_hashes mem hashKeys hashNum keyLen (par_m param)) (\<lambda>hashes.
     rbind (rmap (\<lambda>seed. AESRandom_Create seed rndSeedLen) seeds) (\<lambda>rnds.
     rbind (par_run (mt_step sha1 ks hashes a input eLen rowLength (length seeds)) sch
              (mt_queues inputLen builder_bunch (length seeds),
               rnds, replicate inputLen None, flt, RandomSource_Create builder_bunch GBFSigmaByteLen))
       (\<lambda>(qs, _, _, flt, _). if hd qs = [] then Ok flt else Err OutOfFuel))))"

section \<open>The builder threads commute\<close>

text \<open>A random source in which row \<open>r\<close> has arrived.\<close>

definition with_row :: "nat \<Rightarrow> bytes \<Rightarrow> RandomSource \<Rightarrow> RandomSource" where
  "with_row r x rs = rs\<lparr>rndBytes := (rndBytes rs)[r := Some x]\<rparr>"

definition row_free :: "nat \<Rightarrow> RandomSource \<Rightarrow> bool" where
  "row_free r rs \<longleftrightarrow> r < length (rndBytes rs) \<and> rndBytes rs ! r = None"

text \<open>
  An operation of the collector does not see rows that arrive while it does not wait: a result
  other than waiting is the same with the row there.
\<close>

definition row_blind :: "(RandomSource \<Rightarrow> ('a \<times> RandomSource) res) \<Rightarrow> bool" where
  "row_blind f \<longleftrightarrow> (\<forall>rs v rs'. f rs = Ok (v, rs') \<longrightarrow> rndBytes rs' = rndBytes rs) \<and>
     (\<forall>r x rs. row_free r rs \<longrightarrow>
       (\<forall>v rs'. f rs = Ok (v, rs') \<longrightarrow> f (with_row r x rs) = Ok (v, with_row r x rs')) \<and>
       (\<forall>e. f rs = Err e \<longrightarrow> e \<noteq> WouldBlock \<longrightarrow> f (with_row r x rs) = Err e))"

lemma row_blindD:
  assumes "row_blind f"
  shows "f rs = Ok (v, rs') \<Longrightarrow> rndBytes rs' = rndBytes rs"
    "row_free r rs \<Longrightarrow> f rs = Ok (v, rs') \<Longrightarrow> f (with_row r x rs) = Ok (v, with_row r x rs')"
    "row_free r rs \<Longrightarrow> f rs = Err e \<Longrightarrow> e \<noteq> WouldBlock \<Longrightarrow> f (with_row r x rs) = Err e"
  using assms unfolding row_blind_def by blast+

lemma row_blindI:
  assumes "\<And>rs v rs'. f rs = Ok (v, rs') \<Longrightarrow> rndBytes rs' = rndBytes rs"
    "\<And>r x rs v rs'. row_free r rs \<Longrightarrow> f rs = Ok (v, rs') \<Longrightarrow> f (with_row r x rs) = Ok (v, with_row r x rs')"
    "\<And>r x rs e. row_free r rs \<Longrightarrow> f rs = Err e \<Longrightarrow> e \<noteq> WouldBlock \<Longrightarrow> f (with_row r x rs) = Err e"
  shows "row_blind f"
  unfolding row_blind_def by (blast intro: assms)

named_theorems blind

lemma row_blind_Ok [blind]: "row_blind (\<lambda>rs. Ok (v, rs))" "row_blind (\<lambda>rs. Err e)"
  by (simp_all add: row_blind_def)

lemma row_blind_bind [blind]:
  assumes "row_blind f" "\<And>v. row_blind (g v)"
  shows "row_blind (\<lambda>rs. rbind (f rs) (\<lambda>(v, rs). g v rs))"
proof (rule row_blindI)
  fix rs v rs' assume "rbind (f rs) (\<lambda>(v, rs). g v rs) = Ok (v, rs')"
  then obtain u rs1 where "f rs = Ok (u, rs1)" "g u rs1 = Ok (v, rs')" by (auto simp: res_simps)
  then show "rndBytes rs' = rndBytes rs" using row_blindD(1) [OF assms(1)] row_blindD(1) [OF assms(2)] by metis
next
  fix r x rs v rs' assume r: "row_free r rs" and "rbind (f rs) (\<lambda>(v, rs). g v rs) = Ok (v, rs')"
  then obtain u rs1 where u: "f rs = Ok (u, rs1)" "g u rs1 = Ok (v, rs')" by (auto simp: res_simps)
  then have "row_free r rs1" using r row_blindD(1) [OF assms(1)] by (simp add: row_free_def)
  then show "rbind (f (with_row r x rs)) (\<lambda>(v, rs). g v rs) = Ok (v, with_row r x rs')"
    using row_blindD(2) [OF assms(1) r u(1)] row_blindD(2) [OF assms(2) _ u(2)] by simp
next
  fix r x rs e assume r: "row_free r rs" and e: "rbind (f rs) (\<lambda>(v, rs). g v rs) = Err e" "e \<noteq> WouldBlock"
  show "rbind (f (with_row r x rs)) (\<lambda>(v, rs). g v rs) = Err e"
  proof (cases "f rs")
    case (Inl e')
    then show ?thesis using row_blindD(3) [OF assms(1) r, of e] e by simp
  next
    case (Inr p)
    then obtain u rs1 where u: "f rs = Ok (u, rs1)" "g u rs1 = Err e" using e(1) by (cases p) auto
    then have "row_free r rs1" using r row_blindD(1) [OF assms(1)] by (simp add: row_free_def)
    then show ?thesis using row_blindD(2) [OF assms(1) r u(1)] row_blindD(3) [OF assms(2) _ u(2) e(2)] by simp
  qed
qed

lemma row_blind_res [blind]: "(\<And>v. row_blind (g v)) \<Longrightarrow> row_blind (\<lambda>rs. rbind r (\<lambda>v. g v rs))"
  by (cases r) (simp_all add: row_blind_def)

lemma row_blind_Take [blind]:
  "row_blind (\<lambda>rs. case RandomSource_Take rs of None \<Rightarrow> Err WouldBlock | Some r \<Rightarrow> r)"
proof -
  let ?T = "\<lambda>rs. case RandomSource_Take rs of None \<Rightarrow> Err WouldBlock | Some r \<Rightarrow> r"
  have T: "?T (with_row r x rs) = rbind (?T rs) (\<lambda>(v, rs'). Ok (v, with_row r x rs')) \<or> ?T rs = Err WouldBlock"
    if "row_free r rs" for r x rs
  proof (cases "rd (rndBytes rs) (rs_index rs)")
    case (Inr p)
    have l: "rs_index rs < length (rndBytes rs)" "rndBytes rs ! rs_index rs = p" using Inr by (auto simp: rd_def split: if_splits)
    show ?thesis
    proof (cases p)
      case (Some row)
      then have "rd (rndBytes (with_row r x rs)) (rs_index rs) = Ok (Some row)"
        using l that by (auto simp: with_row_def row_free_def nth_list_update)
      moreover have "rs_index (with_row r x rs) = rs_index rs" "rs_start (with_row r x rs) = rs_start rs"
        "rs_blockSize (with_row r x rs) = rs_blockSize rs" by (simp_all add: with_row_def)
      ultimately show ?thesis using Inr Some
        by (cases "rd_blk row (rs_start rs) (rs_blockSize rs)") (simp_all add: RandomSource_Take_def Let_def with_row_def)
    qed (use Inr in \<open>simp add: RandomSource_Take_def\<close>)
  qed (auto simp: RandomSource_Take_def with_row_def rd_def split: if_splits)
  have same: "rndBytes rs' = rndBytes rs" if "?T rs = Ok (v, rs')" for v rs rs'
    using that by (auto simp: RandomSource_Take_def Let_def res_simps split: sum.splits option.splits if_splits)
  show ?thesis
  proof (rule row_blindI)
    fix r x rs v rs' assume r: "row_free r rs" and t: "?T rs = Ok (v, rs')"
    show "?T (with_row r x rs) = Ok (v, with_row r x rs')" using T [OF r, of x] unfolding t by simp
  next
    fix r x rs e assume r: "row_free r rs" and t: "?T rs = Err e" "e \<noteq> WouldBlock"
    then show "?T (with_row r x rs) = Err e" using T [OF r, of x] unfolding t(1) by simp
  qed (rule same)
qed

lemma row_blind_rfold [blind]:
  assumes "\<And>i v. row_blind (\<lambda>rs. f i (v, rs))"
  shows "row_blind (\<lambda>rs. rfold f is (v, rs))"
proof (induction "is" arbitrary: v)
  case (Cons i "is")
  have "rfold f (i # is) (v, rs) = rbind (f i (v, rs)) (\<lambda>(v, rs). rfold f is (v, rs))" for rs by (simp add: case_prod_eta)
  moreover have "row_blind (\<lambda>rs. rbind (f i (v, rs)) (\<lambda>(v, rs). rfold f is (v, rs)))"
    by (rule row_blind_bind [OF assms Cons.IH])
  ultimately show ?case by simp
qed (simp add: row_blind_def)

lemma row_blind_if [blind]: "(c \<Longrightarrow> row_blind f) \<Longrightarrow> (\<not> c \<Longrightarrow> row_blind g) \<Longrightarrow> row_blind (\<lambda>rs. if c then f rs else g rs)"
  by (cases c) simp_all

text \<open>A loop on a regrouped state.\<close>

lemma rfold_regroup:
  assumes "\<And>i s. f i (p s) = rbind (g i s) (\<lambda>s. Ok (p s))"
  shows "rfold f js (p s) = rbind (rfold g js s) (\<lambda>s. Ok (p s))"
proof (induction js arbitrary: s)
  case (Cons i js)
  then show ?case by (cases "g i s") (simp_all add: assms)
qed simp

definition addMT_step3 :: "int \<Rightarrow> (GarbledBF \<times> bytes \<times> int) \<times> RandomSource \<Rightarrow> ((GarbledBF \<times> bytes \<times> int) \<times> RandomSource) res" where
  "addMT_step3 index = (\<lambda>((f, share, e), rs). rbind (GBF_addMT_step index (f, share, e, rs)) (\<lambda>(f, share, e, rs). Ok ((f, share, e), rs)))"

lemma row_blind_addMT_step: "row_blind (\<lambda>rs. addMT_step3 index (v, rs))"
proof -
  obtain f share e where v: "v = (f, share, e)" by (cases v)
  show ?thesis
  proof (cases "0 \<le> index")
    case True
    show ?thesis
    proof (cases "rdi (gbf_data f) index")
      case (Inr b)
      show ?thesis
      proof (cases "b = 0 \<and> e \<noteq> -1")
        case b: True
        have "(\<lambda>rs. addMT_step3 index (v, rs)) = (\<lambda>rs. rbind (case RandomSource_Take rs of None \<Rightarrow> Err WouldBlock | Some r \<Rightarrow> r)
          (\<lambda>(block, rs). rbind (rbind (rd_blk block 0 (gbf_sigma f)) (\<lambda>x. rbind (wr_blk (gbf_data f) (slot_off f index) x) (\<lambda>d.
             rbind (xor_slot (f\<lparr>gbf_data := d\<rparr>) index share) (\<lambda>share. Ok (f\<lparr>gbf_data := d\<rparr>, share)))))
             (\<lambda>(f, share). Ok ((f, share, e), rs))))"
          using True b Inr
          by (intro ext) (simp add: addMT_step3_def v GBF_addMT_step_def Let_def case_prod_unfold rbind_assoc)
        then show ?thesis by (auto intro!: blind)
      next
        case b: False
        have "(\<lambda>rs. addMT_step3 index (v, rs)) = (\<lambda>rs. if b = 0 then Ok ((f, share, index), rs)
          else rbind (xor_slot f index share) (\<lambda>share. Ok ((f, share, e), rs)))"
          using True b Inr
          by (intro ext) (auto simp: addMT_step3_def v GBF_addMT_step_def rbind_assoc)
        then show ?thesis by (auto intro!: blind)
      qed
    qed (use True in \<open>simp add: addMT_step3_def v GBF_addMT_step_def blind\<close>)
  qed (simp add: addMT_step3_def v GBF_addMT_step_def blind)
qed

lemma row_blind_addMT: "row_blind (\<lambda>rs. GBF_addMT f idx k h rs)"
proof -
  have "rfold (\<lambda>i s. rbind (rd idx i) (\<lambda>index. GBF_addMT_step index s)) [0..<k] (f, x, -1, rs)
    = rbind (rfold (\<lambda>i s. rbind (rd idx i) (\<lambda>index. addMT_step3 index s)) [0..<k] ((f, x, -1), rs)) (\<lambda>((f, x, e), rs). Ok (f, x, e, rs))" for x rs
    using rfold_regroup [where p = "\<lambda>((f, x, e), rs). (f, x, e, rs)" and s = "((f, x, -1), rs)" and js = "[0..<k]"
        and f = "\<lambda>i s. rbind (rd idx i) (\<lambda>index. GBF_addMT_step index s)" and g = "\<lambda>i s. rbind (rd idx i) (\<lambda>index. addMT_step3 index s)"]
    by (simp add: addMT_step3_def case_prod_unfold rbind_assoc)
  then have "(\<lambda>rs. GBF_addMT f idx k h rs) = (\<lambda>rs. rbind (rassert (k = gbf_k f)) (\<lambda>_. rbind (rd_blk h 0 (gbf_sigma f)) (\<lambda>x.
    rbind (rfold (\<lambda>i s. rbind (rd idx i) (\<lambda>index. addMT_step3 index s)) [0..<k] ((f, x, -1), rs)) (\<lambda>(v, rs).
    rbind (wr_blk (gbf_data (fst v)) (slot_off (fst v) (snd (snd v))) (fst (snd v))) (\<lambda>d. Ok ((fst v)\<lparr>gbf_data := d\<rparr>, rs))))))"
    by (intro ext) (simp add: GBF_addMT_def case_prod_unfold rbind_assoc)
  then show ?thesis by (auto intro!: blind row_blind_addMT_step)
qed

lemma row_blind_doFinalMT: "row_blind (\<lambda>rs. GBF_doFinalMT f rs)"
  unfolding GBF_doFinalMT_def by (rule row_blind_rfold) (simp only: prod.case, intro blind)

text \<open>
  The system behind a guard that no row is produced twice; the invariant says that an index list
  that is there is the one of its element.
\<close>

definition mt_guarded ::
    "(bytes \<Rightarrow> bytes) \<Rightarrow> (bytes \<Rightarrow> nat \<Rightarrow> u8) \<Rightarrow> RangeHash list \<Rightarrow> indexArgs \<Rightarrow> bytes list \<Rightarrow> nat \<Rightarrow> nat \<Rightarrow> nat \<Rightarrow>
     mt_act \<Rightarrow> mt_state \<Rightarrow> mt_state res" where
  "mt_guarded sha1 ks hs a inputs eLen rowLen T act s = (case act of
     Rnd r \<Rightarrow> if row_free r (snd (snd (snd s))) then mt_step sha1 ks hs a inputs eLen rowLen T act s else Err AssertFail
   | _ \<Rightarrow> mt_step sha1 ks hs a inputs eLen rowLen T act s)"

definition mt_valid :: "(bytes \<Rightarrow> bytes) \<Rightarrow> RangeHash list \<Rightarrow> indexArgs \<Rightarrow> int \<Rightarrow> bytes list \<Rightarrow> nat \<Rightarrow> nat \<Rightarrow> nat \<Rightarrow> mt_act \<Rightarrow> bool" where
  "mt_valid sha1 hs a m inputs eLen R T act \<longleftrightarrow> hashes_ok sha1 hs (ia_hashNum a) m \<and> (\<forall>x\<in>set inputs. length x = eLen) \<and> 0 < T \<and>
     (case act of Index j \<Rightarrow> j < length inputs | Rnd r \<Rightarrow> r < R | Collect i \<Rightarrow> i < length inputs | Final \<Rightarrow> True)"

definition mt_inv :: "(bytes \<Rightarrow> bytes) \<Rightarrow> RangeHash list \<Rightarrow> bytes list \<Rightarrow> nat \<Rightarrow> nat \<Rightarrow> mt_state \<Rightarrow> bool" where
  "mt_inv sha1 hs inputs R T = (\<lambda>(rnds, idxs, flt, rs). length rnds = T \<and> length idxs = length inputs \<and>
     (\<forall>j<length inputs. idxs ! j = None \<or> idxs ! j = Some (marked (indexes_of sha1 hs (inputs ! j)))) \<and> length (rndBytes rs) = R)"

text \<open>The collector's part of an action.\<close>

definition collects :: "indexArgs \<Rightarrow> mt_act \<Rightarrow> int list option list \<Rightarrow> GarbledBF \<Rightarrow> RandomSource \<Rightarrow> (GarbledBF \<times> RandomSource) res" where
  "collects a act idxs flt rs = (case act of Collect i \<Rightarrow> collect_step a idxs i (flt, rs) | _ \<Rightarrow> GBF_doFinalMT flt rs)"

lemma mt_guarded_simps:
  "mt_guarded sha1 ks hs a inputs eLen rowLen T (Collect i) (rnds, idxs, flt, rs) =
     rbind (collects a (Collect i) idxs flt rs) (\<lambda>(flt, rs). Ok (rnds, idxs, flt, rs))"
  "mt_guarded sha1 ks hs a inputs eLen rowLen T Final (rnds, idxs, flt, rs) =
     rbind (collects a Final idxs flt rs) (\<lambda>(flt, rs). Ok (rnds, idxs, flt, rs))"
  by (simp_all add: mt_guarded_def mt_step_def collects_def)

lemma mt_Index:
  assumes "mt_inv sha1 hs inputs R T (rnds, idxs, flt, rs)" "mt_valid sha1 hs a m inputs eLen R T (Index j)"
  shows "mt_guarded sha1 ks hs a inputs eLen rowLen T (Index j) (rnds, idxs, flt, rs)
    = Ok (rnds, idxs[j := Some (marked (indexes_of sha1 hs (inputs ! j)))], flt, rs)"
  using assms produce_indexes_ok [of sha1 hs "ia_hashNum a" m "inputs ! j" eLen]
  by (simp add: mt_guarded_def mt_step_def GBFIndexProducer_def mt_inv_def mt_valid_def)

text \<open>The row and the generator after it.\<close>

definition rnd_row :: "(bytes \<Rightarrow> nat \<Rightarrow> u8) \<Rightarrow> nat \<Rightarrow> AESRandom \<Rightarrow> bytes" where
  "rnd_row ks rowLen rnd = bxor (replicate rowLen 0) (keystream ks rnd rowLen)"

lemma length_rnd_row [simp, len_simps]: "length (rnd_row ks rowLen rnd) = rowLen"
  by (simp add: rnd_row_def keystream_def)

lemma mt_Rnd:
  assumes "length rnds = T" "0 < T"
  shows "mt_guarded sha1 ks hs a inputs eLen rowLen T (Rnd r) (rnds, idxs, flt, rs) = (if row_free r rs
    then Ok (rnds[r mod T := (rnds ! (r mod T))\<lparr>ar_pos := ar_pos (rnds ! (r mod T)) + rowLen\<rparr>], idxs, flt,
      with_row r (rnd_row ks rowLen (rnds ! (r mod T))) rs) else Err AssertFail)"
proof -
  have "AESRandom_NextBytes ks g (replicate rowLen 0) rowLen = Ok (rnd_row ks rowLen g, g\<lparr>ar_pos := ar_pos g + rowLen\<rparr>)" for g
    by (simp add: AESRandom_NextBytes_def rnd_row_def keystream_def blit_def)
  then show ?thesis using assms
    by (simp add: mt_guarded_def mt_step_def GBFRndProducer_def RandomSource_Insert_def row_free_def with_row_def)
qed

lemma collects_blind: "row_blind (collects a act idxs flt)"
proof -
  have "row_blind (\<lambda>rs. collect_step a idxs i (flt, rs))" for i
  proof -
    have "row_blind (\<lambda>rs. case p of None \<Rightarrow> Err WouldBlock | Some idx \<Rightarrow> rbind (rd (ia_eHash a) i) (\<lambda>h. GBF_addMT flt idx (ia_hashNum a) h rs))" for p
      by (cases p) (auto intro: blind row_blind_addMT)
    then show ?thesis unfolding collect_step_def prod.case by (rule row_blind_res)
  qed
  then show ?thesis unfolding collects_def by (cases act) (simp_all add: row_blind_doFinalMT)
qed

text \<open>A list of indexes that arrives is only seen by a collector that waits for it.\<close>

lemma collects_Index:
  assumes "idxs ! j = None \<or> idxs ! j = Some v"
  shows "collects a act (idxs[j := Some v]) flt rs = collects a act idxs flt rs \<or> collects a act idxs flt rs = Err WouldBlock"
proof (cases act)
  case (Collect i)
  show ?thesis
  proof (cases "i = j \<and> i < length idxs \<and> idxs ! j = None")
    case False
    then have "rd (idxs[j := Some v]) i = rd idxs i" using assms by (cases "i = j") (auto simp: rd_def)
    then show ?thesis using Collect by (simp add: collects_def collect_step_def)
  qed (use Collect in \<open>simp add: collects_def collect_step_def\<close>)
qed (simp_all add: collects_def)

lemma mt_keeps:
  assumes "mt_inv sha1 hs inputs R T s" "mt_valid sha1 hs a m inputs eLen R T act"
    "mt_guarded sha1 ks hs a inputs eLen rowLen T act s = Ok s'"
  shows "mt_inv sha1 hs inputs R T s'"
proof -
  obtain rnds idxs flt rs where s: "s = (rnds, idxs, flt, rs)" by (cases s)
  have coll: "mt_inv sha1 hs inputs R T s'"
    if step: "rbind (collects a act idxs flt rs) (\<lambda>(flt, rs). Ok (rnds, idxs, flt, rs)) = Ok s'"
  proof -
    obtain f rs1 where c: "collects a act idxs flt rs = Ok (f, rs1)" "s' = (rnds, idxs, f, rs1)"
      using step by (auto simp: rbind_Ok_iff case_prod_unfold)
    have "rndBytes rs1 = rndBytes rs" using row_blindD(1) [OF collects_blind c(1)] .
    then show ?thesis using assms(1) s c(2) by (simp add: mt_inv_def)
  qed
  show ?thesis
  proof (cases act)
    case (Index j)
    then show ?thesis using assms mt_Index [of sha1 hs inputs R T rnds idxs flt rs a m eLen j ks rowLen]
      by (auto simp: s mt_inv_def mt_valid_def nth_list_update) blast
  next
    case (Rnd r)
    then show ?thesis using assms mt_Rnd [of rnds T sha1 ks hs a inputs eLen rowLen r idxs flt rs]
      by (auto simp: s mt_inv_def mt_valid_def with_row_def split: if_splits)
  qed (use assms(3) coll in \<open>simp_all add: s mt_guarded_simps\<close>)
qed

text \<open>Two actions of different threads, neither of them of the collector, or one of the collector.\<close>

lemma mt_commute_free:
  assumes "mt_inv sha1 hs inputs R T s" "mt_valid sha1 hs a m inputs eLen R T x" "mt_valid sha1 hs a m inputs eLen R T y"
    and "mt_thr T x \<noteq> mt_thr T y" "mt_thr T x \<noteq> 0" "mt_thr T y \<noteq> 0"
    and "mt_guarded sha1 ks hs a inputs eLen rowLen T x s = Ok s1" "mt_guarded sha1 ks hs a inputs eLen rowLen T y s = Ok s2"
  shows "\<exists>s3. mt_guarded sha1 ks hs a inputs eLen rowLen T y s1 = Ok s3 \<and> mt_guarded sha1 ks hs a inputs eLen rowLen T x s2 = Ok s3"
proof -
  obtain rnds idxs flt rs where s: "s = (rnds, idxs, flt, rs)" by (cases s)
  have T: "length rnds = T" "0 < T" using assms(1,2) by (simp_all add: s mt_inv_def mt_valid_def)
  let ?step = "mt_guarded sha1 ks hs a inputs eLen rowLen T" and ?v = "\<lambda>j. Some (marked (indexes_of sha1 hs (inputs ! j)))"
  let ?g = "\<lambda>r. (rnds ! (r mod T))\<lparr>ar_pos := ar_pos (rnds ! (r mod T)) + rowLen\<rparr>" and ?row = "\<lambda>r. rnd_row ks rowLen (rnds ! (r mod T))"
  have inv: "mt_inv sha1 hs inputs R T s1" "mt_inv sha1 hs inputs R T s2"
    using mt_keeps assms(1-3,7,8) by blast+
  have I: "?step (Index j) (rnds', idxs', flt', rs') = Ok (rnds', idxs'[j := ?v j], flt', rs')"
    if "mt_valid sha1 hs a m inputs eLen R T (Index j)" "mt_inv sha1 hs inputs R T (rnds', idxs', flt', rs')" for j rnds' idxs' flt' rs'
    using mt_Index that by blast
  have RI: ?thesis if x: "x = Index j" and y: "y = Rnd r" for j r
    using assms inv T I [of j] mt_Rnd by (auto simp: s x y split: if_splits)
  have IR: ?thesis if x: "x = Rnd r" and y: "y = Index j" for j r
    using assms inv T I [of j] mt_Rnd by (auto simp: s x y split: if_splits)
  have II: ?thesis if x: "x = Index i" and y: "y = Index j" for i j
  proof -
    have "i \<noteq> j" using assms(4) x y by auto
    then show ?thesis using assms inv I [of i] I [of j] by (auto simp: s x y list_update_swap)
  qed
  have RR: ?thesis if x: "x = Rnd i" and y: "y = Rnd j" for i j
  proof -
    have ij: "i \<noteq> j" "i mod T \<noteq> j mod T" using assms(4) x y by (auto simp: mt_thr_def)
    have f: "row_free i rs" "row_free j rs" using assms(7,8) T mt_Rnd by (auto simp: s x y split: if_splits)
    then have f': "row_free j (with_row i u rs)" "row_free i (with_row j u rs)" for u using ij by (simp_all add: row_free_def with_row_def)
    have "with_row j u (with_row i v rs) = with_row i v (with_row j u rs)" for u v
      using ij by (simp add: with_row_def list_update_swap)
    then show ?thesis using assms(7,8) T ij f f' by (auto simp: s x y mt_Rnd list_update_swap)
  qed
  show ?thesis using assms(5,6) RI IR II RR by (cases x; cases y) (simp_all add: mt_thr_def)
qed

lemma mt_collector:
  assumes "mt_thr T x = 0"
  shows "mt_guarded sha1 ks hs a inputs eLen rowLen T x (rnds, idxs, flt, rs)
    = rbind (collects a x idxs flt rs) (\<lambda>(flt, rs). Ok (rnds, idxs, flt, rs))"
  using assms by (cases x) (simp_all add: mt_thr_def mt_guarded_simps)

text \<open>What another thread does to the result of the collector.\<close>

lemma mt_collector_other:
  assumes "mt_inv sha1 hs inputs R T s" "mt_valid sha1 hs a m inputs eLen R T y" "mt_thr T x = 0" "mt_thr T y \<noteq> 0"
    and "mt_guarded sha1 ks hs a inputs eLen rowLen T y s = Ok s2"
  shows "mt_guarded sha1 ks hs a inputs eLen rowLen T x s = Ok s1 \<Longrightarrow>
      \<exists>s3. mt_guarded sha1 ks hs a inputs eLen rowLen T y s1 = Ok s3 \<and> mt_guarded sha1 ks hs a inputs eLen rowLen T x s2 = Ok s3"
    "mt_guarded sha1 ks hs a inputs eLen rowLen T x s = Err e \<Longrightarrow> e \<noteq> WouldBlock \<Longrightarrow>
      mt_guarded sha1 ks hs a inputs eLen rowLen T x s2 = Err e"
proof -
  obtain rnds idxs flt rs where s: "s = (rnds, idxs, flt, rs)" by (cases s)
  have T: "length rnds = T" "0 < T" using assms(1,2) by (simp_all add: s mt_inv_def mt_valid_def)
  let ?step = "mt_guarded sha1 ks hs a inputs eLen rowLen T" and ?v = "\<lambda>j. Some (marked (indexes_of sha1 hs (inputs ! j)))"
  have case_y: "(\<exists>j. y = Index j \<and> s2 = (rnds, idxs[j := ?v j], flt, rs) \<and> (idxs ! j = None \<or> idxs ! j = ?v j) \<and>
        (\<forall>flt rs. length (rndBytes rs) = R \<longrightarrow> ?step y (rnds, idxs, flt, rs) = Ok (rnds, idxs[j := ?v j], flt, rs))) \<or>
      (\<exists>r g row. y = Rnd r \<and> row_free r rs \<and> s2 = (g, idxs, flt, with_row r row rs) \<and>
        (\<forall>flt rs. row_free r rs \<longrightarrow> ?step y (rnds, idxs, flt, rs) = Ok (g, idxs, flt, with_row r row rs)))"
  proof (cases y)
    case (Index j)
    have i: "mt_inv sha1 hs inputs R T (rnds, idxs, flt', rs')" if "length (rndBytes rs') = R" for flt' rs'
      using assms(1) that by (simp add: s mt_inv_def)
    have "idxs ! j = None \<or> idxs ! j = ?v j" using assms(1,2) Index by (simp add: s mt_inv_def mt_valid_def)
    then show ?thesis using mt_Index [OF i, of _ a m eLen j] mt_Index [of sha1 hs inputs R T rnds idxs flt rs a m eLen j ks rowLen] assms(1,2,5)
      by (auto simp: s Index)
  next
    case (Rnd r)
    then show ?thesis using assms(5) T by (auto simp: s mt_Rnd split: if_splits)
  qed (use assms(4) in \<open>simp_all add: mt_thr_def\<close>)
  have inv: "length (rndBytes rs) = R" using assms(1) by (simp add: s mt_inv_def)
  {
    assume "?step x s = Ok s1"
    then obtain f rs1 where c: "collects a x idxs flt rs = Ok (f, rs1)" "s1 = (rnds, idxs, f, rs1)"
      by (auto simp: s mt_collector [OF assms(3)] rbind_Ok_iff case_prod_unfold)
    have r: "rndBytes rs1 = rndBytes rs" using row_blindD(1) [OF collects_blind c(1)] .
    from case_y show "\<exists>s3. ?step y s1 = Ok s3 \<and> ?step x s2 = Ok s3"
    proof (elim disjE exE conjE)
      fix j assume "idxs ! j = None" "s2 = (rnds, idxs[j := ?v j], flt, rs)"
        "\<forall>flt rs. length (rndBytes rs) = R \<longrightarrow> ?step y (rnds, idxs, flt, rs) = Ok (rnds, idxs[j := ?v j], flt, rs)"
      then show ?thesis using collects_Index [of idxs j _ a x flt rs] c r inv by (auto simp: mt_collector [OF assms(3)])
    next
      fix j assume "idxs ! j = ?v j" "s2 = (rnds, idxs[j := ?v j], flt, rs)"
        "\<forall>flt rs. length (rndBytes rs) = R \<longrightarrow> ?step y (rnds, idxs, flt, rs) = Ok (rnds, idxs[j := ?v j], flt, rs)"
      then show ?thesis using collects_Index [of idxs j _ a x flt rs] c r inv by (auto simp: mt_collector [OF assms(3)])
    next
      fix p g row assume "row_free p rs" "s2 = (g, idxs, flt, with_row p row rs)"
        "\<forall>flt rs. row_free p rs \<longrightarrow> ?step y (rnds, idxs, flt, rs) = Ok (g, idxs, flt, with_row p row rs)"
      then show ?thesis using c r row_blindD(2) [OF collects_blind _ c(1)] by (auto simp: mt_collector [OF assms(3)] row_free_def)
    qed
  next
    assume e: "?step x s = Err e" "e \<noteq> WouldBlock"
    then have c: "collects a x idxs flt rs = Err e"
      by (auto simp: s mt_collector [OF assms(3)] rbind_Err_iff case_prod_unfold)
    from case_y show "?step x s2 = Err e"
    proof (elim disjE exE conjE)
      fix j assume "idxs ! j = None" "s2 = (rnds, idxs[j := ?v j], flt, rs)"
      then show ?thesis using collects_Index [of idxs j _ a x flt rs] c e(2) by (auto simp: mt_collector [OF assms(3)])
    next
      fix j assume "idxs ! j = ?v j" "s2 = (rnds, idxs[j := ?v j], flt, rs)"
      then show ?thesis using collects_Index [of idxs j _ a x flt rs] c e(2) by (auto simp: mt_collector [OF assms(3)])
    next
      fix p g row assume "row_free p rs" "s2 = (g, idxs, flt, with_row p row rs)"
      then show ?thesis using row_blindD(3) [OF collects_blind _ c e(2)] by (auto simp: mt_collector [OF assms(3)])
    qed
  }
qed

interpretation builder: commuting "mt_guarded sha1 ks hs a inputs eLen rowLen T" "mt_thr T"
  "mt_valid sha1 hs a m inputs eLen R T" "mt_inv sha1 hs inputs R T" for sha1 ks hs a inputs eLen rowLen T m R
proof (unfold_locales, goal_cases)
  case (1 s x s')
  then show ?case by (blast intro: mt_keeps)
next
  case (2 s x y s1 s2)
  consider "mt_thr T x = 0" "mt_thr T y \<noteq> 0" | "mt_thr T y = 0" "mt_thr T x \<noteq> 0" | "mt_thr T x \<noteq> 0" "mt_thr T y \<noteq> 0"
    using 2(4) by auto
  then show ?case
  proof cases
    case 1
    then show ?thesis using mt_collector_other(1) [OF 2(1,3)] 2(5,6) by blast
  next
    case y: 2
    then show ?thesis using mt_collector_other(1) [OF 2(1,2)] 2(5,6) by blast
  next
    case 3
    then show ?thesis using mt_commute_free [OF 2(1-4)] 2(5,6) by blast
  qed
next
  case (3 s x y e s1)
  obtain rnds idxs flt rs where s: "s = (rnds, idxs, flt, rs)" by (cases s)
  have T: "length rnds = T" "0 < T" using 3(1,2) by (simp_all add: s mt_inv_def mt_valid_def)
  show ?case
  proof (cases x)
    case (Index j)
    then show ?thesis using 3 mt_Index [of sha1 hs inputs R T rnds idxs flt rs a m eLen j ks rowLen] by (simp add: s)
  next
    case (Rnd r)
    then have r: "\<not> row_free r rs" "e = AssertFail" using 3(5) T by (auto simp: s mt_Rnd split: if_splits)
    obtain rnds' idxs' flt' rs' where s1: "s1 = (rnds', idxs', flt', rs')" by (cases s1)
    have "mt_inv sha1 hs inputs R T s1" using mt_keeps [OF 3(1,3,7)] .
    then have T': "length rnds' = T" by (simp add: s1 mt_inv_def)
    have "\<not> row_free r rs'"
    proof (cases "mt_thr T y = 0")
      case True
      then have "collects a y idxs flt rs = Ok (flt', rs')"
        using 3(7) by (auto simp: s s1 mt_collector rbind_Ok_iff case_prod_unfold)
      then show ?thesis using row_blindD(1) [OF collects_blind] r(1) by (fastforce simp: row_free_def)
    next
      case False
      then consider j where "y = Index j" | q where "y = Rnd q" by (cases y) (auto simp: mt_thr_def)
      then show ?thesis
      proof cases
        case 1
        then show ?thesis using 3(1,3,7) mt_Index [of sha1 hs inputs R T rnds idxs flt rs a m eLen j ks rowLen] r(1) by (simp add: s s1)
      next
        case 2
        then show ?thesis using 3(7) T r(1) by (auto simp: s s1 mt_Rnd row_free_def with_row_def nth_list_update split: if_splits)
      qed
    qed
    then show ?thesis using T' T(2) r(2) by (simp add: s1 Rnd mt_Rnd)
  qed (use 3 mt_collector_other(2) [OF 3(1,3)] in \<open>auto simp: mt_thr_def\<close>)
qed

section \<open>The filter the threads build\<close>

text \<open>Row \<open>r\<close> is row \<open>r div T\<close> of thread \<open>r mod T\<close>.\<close>

definition rnd_rows :: "(bytes \<Rightarrow> nat \<Rightarrow> u8) \<Rightarrow> nat \<Rightarrow> AESRandom list \<Rightarrow> nat \<Rightarrow> bytes list" where
  "rnd_rows ks rowLen rnds R = map (\<lambda>r. let g = rnds ! (r mod length rnds) in
     rnd_row ks rowLen (g\<lparr>ar_pos := ar_pos g + (r div length rnds) * rowLen\<rparr>)) [0..<R]"

definition full_source :: "(bytes \<Rightarrow> nat \<Rightarrow> u8) \<Rightarrow> nat \<Rightarrow> AESRandom list \<Rightarrow> RandomSource" where
  "full_source ks rowLen rnds = (RandomSource_Create builder_bunch GBFSigmaByteLen)
     \<lparr>rndBytes := map Some (rnd_rows ks rowLen rnds builder_bunch)\<rparr>"

lemma rnd_phase:
  assumes "length rnds = T" "0 < T" "length (rndBytes rs) = R" "\<forall>r<R. rndBytes rs ! r = None" "j \<le> R"
  shows "rfold (mt_guarded sha1 ks hs a inputs eLen rowLen T) (map Rnd [0..<j]) (rnds, idxs, flt, rs) = Ok
    (map (\<lambda>t. (rnds ! t)\<lparr>ar_pos := ar_pos (rnds ! t) + (if t < j mod T then j div T + 1 else j div T) * rowLen\<rparr>) [0..<T], idxs, flt,
     rs\<lparr>rndBytes := map Some (rnd_rows ks rowLen rnds j) @ drop j (rndBytes rs)\<rparr>)"
  using assms(5)
proof (induction j)
  case 0
  have "map (\<lambda>t. (rnds ! t)\<lparr>ar_pos := ar_pos (rnds ! t)\<rparr>) [0..<T] = rnds"
    using assms(1) by (intro nth_equalityI) simp_all
  then show ?case by (simp add: rnd_rows_def)
next
  case (Suc j)
  let ?gs = "\<lambda>j. map (\<lambda>t. (rnds ! t)\<lparr>ar_pos := ar_pos (rnds ! t) + (if t < j mod T then j div T + 1 else j div T) * rowLen\<rparr>) [0..<T]"
  let ?rs = "\<lambda>j. rs\<lparr>rndBytes := map Some (rnd_rows ks rowLen rnds j) @ drop j (rndBytes rs)\<rparr>"
  have t: "j mod T < T" using assms(2) by simp
  have len: "length (rnd_rows ks rowLen rnds j) = j" by (simp add: rnd_rows_def)
  have free: "row_free j (?rs j)" using Suc.prems assms(3,4) len by (simp add: row_free_def nth_append)
  have row: "rnd_rows ks rowLen rnds (Suc j) = rnd_rows ks rowLen rnds j @ [rnd_row ks rowLen (?gs j ! (j mod T))]"
    using t assms(1) by (simp add: rnd_rows_def Let_def)
  have gs: "(?gs j)[j mod T := (?gs j ! (j mod T))\<lparr>ar_pos := ar_pos (?gs j ! (j mod T)) + rowLen\<rparr>] = ?gs (Suc j)"
    using t by (intro nth_equalityI) (auto simp: nth_list_update mod_Suc div_Suc algebra_simps)
  have rs: "with_row j (rnd_row ks rowLen (?gs j ! (j mod T))) (?rs j) = ?rs (Suc j)"
    unfolding row using Suc.prems assms(3) len
    by (simp add: with_row_def list_update_append Cons_nth_drop_Suc [symmetric])
  have "mt_guarded sha1 ks hs a inputs eLen rowLen T (Rnd j) (?gs j, idxs, flt, ?rs j) = Ok (?gs (Suc j), idxs, flt, ?rs (Suc j))"
    using free mt_Rnd [of "?gs j" T] assms(2) gs rs by simp
  then show ?case using Suc by (simp add: rfold_append)
qed

lemma mt_sequential:
  assumes "hashes_ok sha1 hs (ia_hashNum a) m" "\<forall>x\<in>set inputs. length x = eLen" "length rnds = T" "0 < T"
    and "startCollectingIndexes a (map (\<lambda>x. Some (marked (indexes_of sha1 hs x))) inputs) (flt, full_source ks rowLen rnds) = Ok (f, rs')"
    and "ia_inputNum a = length inputs"
  shows "\<exists>gs. rfold (mt_guarded sha1 ks hs a inputs eLen rowLen T)
      (map Index [0..<length inputs] @ map Rnd [0..<builder_bunch] @ map Collect [0..<length inputs] @ [Final])
      (rnds, replicate (length inputs) None, flt, RandomSource_Create builder_bunch GBFSigmaByteLen)
    = Ok (gs, map (\<lambda>x. Some (marked (indexes_of sha1 hs x))) inputs, f, rs')"
proof -
  let ?n = "length inputs" and ?v = "\<lambda>x. Some (marked (indexes_of sha1 hs x))" and ?rs = "RandomSource_Create builder_bunch GBFSigmaByteLen"
  let ?step = "mt_guarded sha1 ks hs a inputs eLen rowLen T"
  have I: "rfold ?step (map Index [0..<j]) (rnds, replicate ?n None, flt, ?rs) = Ok (rnds, map ?v (take j inputs) @ replicate (?n - j) None, flt, ?rs)"
    if "j \<le> ?n" for j
    using that
  proof (induction j)
    case (Suc j)
    let ?idxs = "map ?v (take j inputs) @ replicate (?n - j) None"
    have "mt_inv sha1 hs inputs builder_bunch T (rnds, ?idxs, flt, ?rs)"
      using Suc.prems assms(3) by (auto simp: mt_inv_def RandomSource_Create_def nth_append)
    moreover have "mt_valid sha1 hs a m inputs eLen builder_bunch T (Index j)" using assms Suc.prems by (simp add: mt_valid_def)
    moreover have "?idxs[j := ?v (inputs ! j)] = map ?v (take (Suc j) inputs) @ replicate (?n - Suc j) None"
    proof -
      have "replicate (?n - j) None = None # replicate (?n - Suc j) (None :: int list option)"
        using Suc.prems by (metis Suc_diff_le diff_Suc_Suc replicate_Suc)
      then show ?thesis using Suc.prems by (simp add: list_update_append take_Suc_conv_app_nth)
    qed
    ultimately show ?case using Suc mt_Index by (simp add: rfold_append)
  qed simp
  have R: "\<exists>gs. rfold ?step (map Rnd [0..<builder_bunch]) (rnds, map ?v inputs, flt, ?rs) = Ok (gs, map ?v inputs, flt, full_source ks rowLen rnds)"
    using rnd_phase [OF assms(3,4), of ?rs builder_bunch builder_bunch]
    by (simp add: RandomSource_Create_def full_source_def)
  then obtain gs where gs: "rfold ?step (map Rnd [0..<builder_bunch]) (rnds, map ?v inputs, flt, ?rs) = Ok (gs, map ?v inputs, flt, full_source ks rowLen rnds)"
    by blast
  obtain f1 rs1 where c: "rfold (collect_step a (map ?v inputs)) [0..<?n] (flt, full_source ks rowLen rnds) = Ok (f1, rs1)"
    "GBF_doFinalMT f1 rs1 = Ok (f, rs')"
    using assms(5,6) by (auto simp: startCollectingIndexes_def rbind_Ok_iff)
  have "rfold ?step (map Collect js) (gs, map ?v inputs, s) = rbind (rfold (collect_step a (map ?v inputs)) js s) (\<lambda>s. Ok (gs, map ?v inputs, s))" for js s
  proof (induction js arbitrary: s)
    case (Cons j js)
    then show ?case
      by (cases s; cases "collect_step a (map ?v inputs) j s") (auto simp: mt_guarded_simps collects_def)
  qed simp
  then have "rfold ?step (map Collect [0..<?n]) (gs, map ?v inputs, flt, full_source ks rowLen rnds) = Ok (gs, map ?v inputs, f1, rs1)"
    using c(1) by simp
  then show ?thesis using I [of ?n] gs c(2) by (auto simp: rfold_append mt_guarded_simps collects_def)
qed

lemma mt_queues_shares:
  assumes T: "0 < T"
  shows "mt_queues n R T = shares (mt_thr T) (1 + 2 * T) (map Index [0..<n] @ map Rnd [0..<R] @ map Collect [0..<n] @ [Final])"
    (is "_ = shares _ _ ?order")
proof -
  have "share (mt_thr T) 0 ?order = map Collect [0..<n] @ [Final]"
    by (simp add: share_def mt_thr_def comp_def filter_empty_conv)
  moreover have "share (mt_thr T) (Suc t) ?order = map Index (strided t n T)" if "t < T" for t
    using that by (auto simp: strided_share share_def mt_thr_def comp_def filter_map filter_empty_conv)
  moreover have "share (mt_thr T) (Suc (T + t)) ?order = map Rnd (strided t R T)" if "t < T" for t
  proof -
    have "j mod T \<noteq> T + t" for j using T by (metis mod_less_divisor not_add_less1)
    then show ?thesis using that by (auto simp: strided_share share_def mt_thr_def comp_def filter_map filter_empty_conv)
  qed
  moreover have "[0..<1 + 2 * T] = 0 # map Suc [0..<T] @ map (\<lambda>t. Suc (T + t)) [0..<T]"
  proof -
    have "[0..<1 + 2 * T] = 0 # map Suc [0..<T + T]" by (simp add: map_Suc_upt upt_conv_Cons mult_2 del: upt_Suc)
    also have "[0..<T + T] = [0..<T] @ map (\<lambda>t. T + t) [0..<T]" by (simp add: upt_add_eq_append [of 0] map_add_upt add.commute)
    finally show ?thesis by (simp add: comp_def)
  qed
  ultimately show ?thesis by (simp add: mt_queues_def shares_def threads_def comp_def del: upt_Suc)
qed

text \<open>Once the collector is done the filter does not change.\<close>

lemma collector_done:
  assumes "par_run (mt_step sha1 ks hs a inputs eLen rowLen T) sch (qs, s) = Ok (qs', s')" "0 < length qs"
    and "qs ! 0 = []" "\<forall>t<length qs. \<forall>x\<in>set (qs ! t). mt_thr T x = t"
  shows "fst (snd (snd s')) = fst (snd (snd s))"
  using assms
proof (induction sch arbitrary: qs s)
  case (Cons t sch)
  show ?case
  proof (cases "t < length qs \<and> qs ! t \<noteq> []")
    case True
    then obtain x xs where x: "t < length qs" "qs ! t = x # xs" by (cases "qs ! t") auto
    have thr: "mt_thr T x = t" "t \<noteq> 0" using Cons.prems(3,4) x by (auto intro!: gr0I)
    show ?thesis
    proof (cases "mt_step sha1 ks hs a inputs eLen rowLen T x s")
      case (Inl e)
      then show ?thesis using Cons x by (auto split: if_splits)
    next
      case (Inr s1)
      have "fst (snd (snd s1)) = fst (snd (snd s))"
        using Inr thr by (cases s; cases x) (auto simp: mt_step_def mt_thr_def rbind_Ok_iff case_prod_unfold)
      moreover have "fst (snd (snd s')) = fst (snd (snd s1))"
        by (rule Cons.IH [of "qs[t := xs]"]) (use Cons.prems x Inr thr in \<open>auto simp: nth_list_update\<close>)
      ultimately show ?thesis by simp
    qed
  next
    case False
    then show ?thesis using Cons by (auto split: list.splits)
  qed
qed simp

lemma par_run_queues:
  assumes "par_run act sch (qs, s) = Ok (qs', s')"
  shows "length qs' = length qs \<and> (\<forall>t<length qs. set (qs' ! t) \<subseteq> set (qs ! t))"
  using assms
proof (induction sch arbitrary: qs s)
  case (Cons t sch)
  show ?case
  proof (cases "t < length qs \<and> qs ! t \<noteq> []")
    case True
    then obtain x xs where x: "t < length qs" "qs ! t = x # xs" by (cases "qs ! t") auto
    show ?thesis
    proof (cases "act x s")
      case (Inr s1)
      then have "length qs' = length (qs[t := xs]) \<and> (\<forall>u<length (qs[t := xs]). set (qs' ! u) \<subseteq> set (qs[t := xs] ! u))"
        using Cons.IH [of "qs[t := xs]" s1] Cons.prems x by simp
      then show ?thesis using x by (fastforce simp: nth_list_update split: if_splits)
    qed (use Cons x in \<open>auto split: if_splits\<close>)
  next
    case False
    then show ?thesis using Cons by (auto split: list.splits)
  qed
qed simp

lemma in_shares: "t < length (shares thr T order) \<Longrightarrow> x \<in> set (shares thr T order ! t) \<Longrightarrow> thr x = t"
  by (simp add: shares_def share_def del: upt_Suc)

lemma fair_extend: "0 < n \<Longrightarrow> fair T n (sch @ concat (replicate n [0..<T]))"
  unfolding fair_def by (cases n) (auto intro!: exI [of _ "(sch @ [0..<T]) # replicate (n - 1) [0..<T]"])


text \<open>
  One element of one hash function in four slots of ten bytes: the collector takes a block for
  each of the at most four bytes it finds zero.
\<close>

lemma full_source_at:
  "full_source ks GBFSigmaByteLen rnds = rs_at (rnd_rows ks GBFSigmaByteLen rnds builder_bunch) GBFSigmaByteLen 1 0"
  by (simp add: full_source_def RandomSource_Create_def rs_at_def)

lemma doFinalMT_ok:
  assumes "gbf_wf f" "gbf_sigma f = bs" "0 < bs" "\<forall>r\<in>set rows. length r = bs" "nat (gbf_m f) \<le> length rows" 
  shows "\<exists>f' rs'. GBF_doFinalMT f (rs_at rows bs 1 0) = Ok (f', rs')"
proof -
  let ?P = "\<lambda>i s. \<exists>g p. s = (g, rs_at rows bs 1 p) \<and> p \<le> i \<and> gbf_wf g \<and> gbf_sigma g = bs \<and> gbf_m g = gbf_m f"
  have "\<exists>s. GBF_doFinalMT f (rs_at rows bs 1 0) = Ok s \<and> ?P (nat (gbf_m f)) s"
    unfolding GBF_doFinalMT_def
  proof (rule rfold_upt_inv [where P = ?P], goal_cases)
    case (3 i s)
    then obtain g p where s: "s = (g, rs_at rows bs 1 p)" "p \<le> i" "gbf_wf g" "gbf_sigma g = bs" "gbf_m g = gbf_m f" by blast
    have fits: "nat (int i) * gbf_sigma g + gbf_sigma g \<le> length (gbf_data g)" "slot_off g (int i) = i * bs"
      using slot_fits [OF s(3), of "int i"] slot_off_in [OF s(3), of "int i"] 3(2) s(4,5) by simp_all
    have le: "i \<le> i * bs" using assms(3) by simp
    have "i * bs + bs \<le> length (gbf_data g)" using fits(1) s(4) by simp
    then have i: "i < length (gbf_data g)" using le assms(3) by linarith
    have t: "RandomSource_Take (rs_at rows bs 1 p) = Some (Ok (take bs (drop (p * bs) (concat rows)), rs_at rows bs 1 (Suc p)))"
      by (rule Take_at) (use assms 3(2) s(2) in simp_all)
    have len: "length (take bs (drop (p * bs) (concat rows))) = bs"
    proof -
      have "length (concat rows) = length rows * bs" using assms(4) by (induction rows) auto
      moreover have "Suc p * bs \<le> length rows * bs" using assms(5) 3(2) s(2) by (intro mult_le_mono1) simp
      ultimately show ?thesis by simp
    qed
    show ?case
    proof (cases "gbf_data g ! i = 0")
      case True
      then show ?thesis using i t len fits s
        by (auto simp: gbf_wf_def intro!: exI [of _ "Suc p"])
    next
      case False
      then show ?thesis using i s by (auto intro: exI [of _ p])
    qed
  qed (use assms in auto)
  then show ?thesis by auto
qed


end
