(* ===== verification/Hashing.thy ===== *)
theory Hashing
  imports Prelude
begin

text \<open>
  The hash functions of the multiparty PSI protocol: the pseudo-random generator
  and the message digests of \<open>src/PSI/src/util/crypto/crypto.cpp\<close> and the
  permutation-based hashing of \<open>src/PSI/src/hashing/hashing_util.h\<close>
  (\<open>init_hashing_state\<close>, \<open>hashElement\<close>, \<open>domain_hashing\<close>), with the integer
  logarithms of \<open>util/typedefs.h\<close>. Parameters of the model: AES
  (\<open>EVP_EncryptUpdate\<close> under the state's key) and the three SHA digests of
  OpenSSL. The scalar fields of the hashing state are \<open>nat\<close>s, the words an element
  is hashed through keep their width.

  The lemmas give \<open>hashElement\<close> a closed form (\<open>addr_of\<close>, \<open>val_of\<close>) on every
  state in which it stays within its buffers; the tables of the two hashing
  schemes are built on that form only.
\<close>

section \<open>Integer logarithms and divisions\<close>

definition ceil_divide :: "nat \<Rightarrow> nat \<Rightarrow> nat" where
  "ceil_divide x y = (if x > 0 then (x - 1) div y + 1 else 0)"

definition pad_to_multiple :: "nat \<Rightarrow> nat \<Rightarrow> nat" where
  "pad_to_multiple x y = ceil_divide x y * y"

text \<open>\<open>while (bits >>= 1) ++targetlevel;\<close> counts the halvings that leave a positive number.\<close>

function targetlevel :: "nat \<Rightarrow> nat" where
  "targetlevel bits = (if bits div 2 = 0 then 0 else Suc (targetlevel (bits div 2)))"
  by auto
termination by (relation "measure id") auto

declare targetlevel.simps [simp del]

definition ceil_log2 :: "nat \<Rightarrow> nat" where
  "ceil_log2 bits = (if bits = 1 then 1 else
     (let level = targetlevel bits in level + (if 2 ^ level < bits then 1 else 0)))"

definition floor_log2 :: "nat \<Rightarrow> nat" where
  "floor_log2 bits = (if bits = 1 then 1 else targetlevel bits)"

lemma div_2_bounds: "m \<le> (b::nat) div 2 \<and> b div 2 < 2 * m \<Longrightarrow> 2 * m \<le> b \<and> b < 4 * m"
  by linarith

lemma targetlevel_bounds: "0 < b \<Longrightarrow> 2 ^ targetlevel b \<le> b \<and> b < 2 ^ Suc (targetlevel b)"
proof (induction b rule: targetlevel.induct)
  case (1 b)
  show ?case
  proof (cases "b div 2 = 0")
    case True
    then show ?thesis using 1 by (simp add: targetlevel.simps [of b])
  next
    case False
    then have "2 ^ targetlevel (b div 2) \<le> b div 2 \<and> b div 2 < 2 ^ Suc (targetlevel (b div 2))"
      using 1 by simp
    then show ?thesis using False div_2_bounds [of "2 ^ targetlevel (b div 2)" b] by (simp add: targetlevel.simps [of b])
  qed
qed

text \<open>\<open>ceil_log2(bits)\<close> is the least number of bits, at least one, that
  can index \<open>bits\<close> bins, and \<open>floor_log2\<close> is one less unless \<open>bits\<close> is a power of two
  (where, above one, they agree).\<close>

lemma ceil_log2_bits:
  assumes "1 < bits"
  shows "bits \<le> 2 ^ ceil_log2 bits \<and> 2 ^ (ceil_log2 bits - 1) < bits \<and>
    floor_log2 bits = (if 2 ^ ceil_log2 bits = bits then ceil_log2 bits else ceil_log2 bits - 1)"
proof (cases "2 ^ targetlevel bits = bits")
  case True
  then have "targetlevel bits \<noteq> 0" using assms by (metis less_irrefl power_0)
  then have "(2::nat) ^ (targetlevel bits - 1) < 2 ^ targetlevel bits" by simp
  then show ?thesis using assms True by (simp add: ceil_log2_def floor_log2_def)
next
  case False
  then have "2 ^ targetlevel bits < bits" using assms targetlevel_bounds [of bits] by simp
  then show ?thesis using assms targetlevel_bounds [of bits]
    by (simp add: ceil_log2_def floor_log2_def)
qed

section \<open>The counter-mode generator\<close>

text \<open>\<open>prf_aes\<close> encrypts one block of \<open>AES_BYTES\<close> under the state's key; the block is the counter array.\<close>

record prf_state_ctx =
  prf_aes :: "bytes \<Rightarrow> bytes"
  prf_ctr :: "u64 list"

definition AES_BYTES :: nat where "AES_BYTES = 16"

definition gen_rnd_bytes :: "prf_state_ctx \<Rightarrow> nat \<Rightarrow> (bytes \<times> prf_state_ctx) res" where
  "gen_rnd_bytes prf nbytes =
     rbind (rfold (\<lambda>i (tmpbuf, ctr).
              rbind (rd_blk (concat (map (le_bytes 8) ctr)) 0 AES_BYTES) (\<lambda>blk.
              rbind (wr_blk tmpbuf (i * AES_BYTES) (prf_aes prf blk)) (\<lambda>tmpbuf.
              rbind (rd ctr 0) (\<lambda>c. Ok (tmpbuf, ctr[0 := c + 1])))))
            [0..<ceil_divide nbytes AES_BYTES]
            (replicate (ceil_divide nbytes AES_BYTES * AES_BYTES) 0, prf_ctr prf)) (\<lambda>(tmpbuf, ctr).
     rbind (rd_blk tmpbuf 0 nbytes) (\<lambda>resbuf. Ok (resbuf, prf\<lparr>prf_ctr := ctr\<rparr>)))"

section \<open>Message digests and domain hashing\<close>

text \<open>The digests of OpenSSL, and the state of a \<open>crypto\<close> object that selects one of them.\<close>

datatype sha_routine = sha1_hash | sha256_hash | sha512_hash

record crypto =
  SHA :: "sha_routine \<Rightarrow> bytes \<Rightarrow> bytes"
  hash_routine :: sha_routine
  num_hash_bytes :: nat

definition SHA_OUT_BYTES :: "sha_routine \<Rightarrow> nat" where
  "SHA_OUT_BYTES r = (case r of sha1_hash \<Rightarrow> 20 | sha256_hash \<Rightarrow> 32 | sha512_hash \<Rightarrow> 64)"

definition crypto_init :: "(sha_routine \<Rightarrow> bytes \<Rightarrow> bytes) \<Rightarrow> nat \<Rightarrow> crypto" where
  "crypto_init lib symbits =
     (let r = if symbits = 80 then sha1_hash else if symbits = 112 then sha256_hash
              else if symbits = 128 then sha256_hash else if symbits = 192 then sha512_hash
              else if symbits = 256 then sha512_hash else sha256_hash
      in \<lparr>SHA = lib, hash_routine = r, num_hash_bytes = SHA_OUT_BYTES r\<rparr>)"

text \<open>\<open>sha1_hash\<close>, \<open>sha256_hash\<close>, \<open>sha512_hash\<close>: the digest, then a \<open>memcpy\<close> of its first bytes.\<close>

definition sha_hash :: "crypto \<Rightarrow> sha_routine \<Rightarrow> bytes \<Rightarrow> nat \<Rightarrow> nat \<Rightarrow> bytes \<Rightarrow> nat \<Rightarrow> bytes res" where
  "sha_hash c r resbuf off noutbytes inbuf ninbytes =
     rbind (rd_blk inbuf 0 ninbytes) (\<lambda>msg.
     rbind (rd_blk (SHA c r msg) 0 noutbytes) (\<lambda>out. wr_blk resbuf off out))"

definition crypto_hash :: "crypto \<Rightarrow> bytes \<Rightarrow> nat \<Rightarrow> nat \<Rightarrow> bytes \<Rightarrow> nat \<Rightarrow> bytes res" where
  "crypto_hash c resbuf off noutbytes inbuf ninbytes =
     (if noutbytes \<le> num_hash_bytes c then sha_hash c (hash_routine c) resbuf off noutbytes inbuf ninbytes
      else if noutbytes \<le> 20 then sha_hash c sha1_hash resbuf off noutbytes inbuf ninbytes
      else if noutbytes \<le> 32 then sha_hash c sha256_hash resbuf off noutbytes inbuf ninbytes
      else if noutbytes \<le> 64 then sha_hash c sha512_hash resbuf off noutbytes inbuf ninbytes
      else Ok resbuf)"

definition domain_hashing :: "nat \<Rightarrow> bytes \<Rightarrow> nat \<Rightarrow> bytes \<Rightarrow> nat \<Rightarrow> crypto \<Rightarrow> bytes res" where
  "domain_hashing nelements elements elebytelen result resultbytelen crypt =
     rbind (rfold (\<lambda>i (hash_buf, result).
              rbind (rd_blk elements (i * elebytelen) elebytelen) (\<lambda>e.
              rbind (wr_blk hash_buf 0 e) (\<lambda>hash_buf.
              rbind (crypto_hash crypt result (i * resultbytelen) resultbytelen hash_buf elebytelen) (\<lambda>result.
              Ok (hash_buf, result)))))
            [0..<nelements] (replicate (num_hash_bytes crypt) 0, result))
       (\<lambda>(hash_buf, result). Ok result)"

section \<open>The hashing state\<close>

definition NUM_HASH_FUNCTIONS :: nat where "NUM_HASH_FUNCTIONS = 3"
definition MAX_TABLE_SIZE_BYTES :: nat where "MAX_TABLE_SIZE_BYTES = 2"
definition DUMMY_ENTRY_SERVER :: u8 where "DUMMY_ENTRY_SERVER = 0x00"
definition DUMMY_ENTRY_CLIENT :: u8 where "DUMMY_ENTRY_CLIENT = 0xFF"

record hs_t =
  hf_values :: "u32 list list list"
  nhfvals :: nat
  hs_nelements :: nat
  hs_nbins :: nat
  inbitlen :: nat
  addrbitlen :: nat
  floor_addrbitlen :: nat
  outbitlen :: nat
  inbytelen :: nat
  addrbytelen :: nat
  outbytelen :: nat
  address_used :: "u32 list"
  hs_mask :: u32

text \<open>\<open>SELECT_BITS\<close> and \<open>SELECT_BITS_INV\<close> list the masks of the 0 to 32 low bits and their complements.\<close>

definition SELECT_BITS :: "u32 list" where "SELECT_BITS = map mask [0..<33]"
definition SELECT_BITS_INV :: "u32 list" where "SELECT_BITS_INV = map (\<lambda>n. NOT (mask n)) [0..<33]"

definition BYTE_SELECT_BITS_INV :: "u8 list" where
  "BYTE_SELECT_BITS_INV = [0xFF, 0x7F, 0x3F, 0x1F, 0x0F, 0x07, 0x03, 0x01]"

text \<open>A byte buffer read through a \<open>uint32_t*\<close>.\<close>

definition words_of :: "bytes \<Rightarrow> u32 list" where
  "words_of buf = map (\<lambda>i. le_word (take 4 (drop (4 * i) buf))) [0..<length buf div 4]"

text \<open>
  The mask shift has the type \<open>size_t\<close>: where \<open>inbitlen + addrbitlen\<close> exceeds 32 it
  wraps, and the x86 shift uses its low five bits.
\<close>

definition init_hashing_state :: "nat \<Rightarrow> nat \<Rightarrow> nat \<Rightarrow> prf_state_ctx \<Rightarrow> (hs_t \<times> prf_state_ctx) res" where
  "init_hashing_state nelements inlen nbins prf =
     (let alen = min (ceil_log2 nbins) inlen;
          flen = min (floor_log2 nbins) inlen;
          outlen = inlen - alen + 1;
          inbytes = ceil_divide inlen 8;
          outbytes = ceil_divide outlen 8;
          nvals = ceil_divide outbytes MAX_TABLE_SIZE_BYTES;
          nrndbytes = 2 ^ (8 * MAX_TABLE_SIZE_BYTES) * 4;
          m = if inbytes < 4 then drop_bit (nat ((32 - int inlen - int alen) mod 32)) 0xFFFFFFFF
              else (0xFFFFFFFF :: u32)
      in rbind (rfold (\<lambda>i (tabs, prf).
              rbind (rfold (\<lambda>j (row, prf).
                  rbind (gen_rnd_bytes prf nrndbytes) (\<lambda>(buf, prf). Ok (row @ [words_of buf], prf)))
                [0..<nvals] ([], prf)) (\<lambda>(row, prf). Ok (tabs @ [row], prf)))
            [0..<NUM_HASH_FUNCTIONS] ([], prf)) (\<lambda>(tabs, prf).
         Ok (\<lparr>hf_values = tabs, nhfvals = nvals, hs_nelements = nelements, hs_nbins = nbins,
              inbitlen = inlen, addrbitlen = alen, floor_addrbitlen = flen, outbitlen = outlen,
              inbytelen = inbytes, addrbytelen = ceil_divide alen 8, outbytelen = outbytes,
              address_used = replicate nbins 0, hs_mask = m\<rparr>, prf)))"

section \<open>Hashing one element\<close>

text \<open>
  \<open>hashElement(element, address, val, hs)\<close> with \<open>element\<close> the pointer \<open>off\<close> bytes
  into \<open>elements\<close>; it writes the arrays \<open>address\<close> and \<open>val\<close>. The product that is
  stored in \<open>hfmaskaddr\<close> is cut to 16 bits.
\<close>

definition hashElement :: "hs_t \<Rightarrow> bytes \<Rightarrow> nat \<Rightarrow> nat list \<Rightarrow> bytes \<Rightarrow> (nat list \<times> bytes) res" where
  "hashElement hs elements off address val =
     rbind (rd_blk elements off 4) (\<lambda>w.
     rbind (rd SELECT_BITS (addrbitlen hs)) (\<lambda>sel.
     rbind (rd SELECT_BITS_INV (addrbitlen hs)) (\<lambda>inv.
     let L = le_word w AND sel;
         R = drop_bit (addrbitlen hs) (le_word w AND inv) AND hs_mask hs;
         hfmaskaddr = ucast (R * 4) :: 16 word
     in
     rbind (rassert (hs_nbins hs \<noteq> 0)) (\<lambda>_.
     rbind (rfold (\<lambda>i. rfold (\<lambda>j address.
              rbind (rd (hf_values hs) i) (\<lambda>row.
              rbind (rd row j) (\<lambda>tab.
              rbind (rd tab (unat hfmaskaddr)) (\<lambda>v.
              wr address i (unat (L XOR v) mod hs_nbins hs))))) [0..<nhfvals hs])
            [0..<NUM_HASH_FUNCTIONS] address) (\<lambda>address.
     rbind (wr_blk val 0 (le_bytes 4 R)) (\<lambda>val.
     if inbitlen hs > 32 then
       (let skip = 4 - floor_addrbitlen hs div 8 in
        rbind (if skip \<le> outbytelen hs then Ok () else Err OutOfBounds) (\<lambda>_.
        rbind (rd_blk elements (off + 4) (outbytelen hs - skip)) (\<lambda>rest.
        rbind (wr_blk val skip rest) (\<lambda>val.
        rbind (rd BYTE_SELECT_BITS_INV (outbitlen hs mod 4)) (\<lambda>sel.
        rbind (rd val (outbytelen hs - 1)) (\<lambda>b.
        rbind (wr val (outbytelen hs - 1) (b AND sel)) (\<lambda>val. Ok (address, val))))))))
     else Ok (address, val)))))))"

section \<open>Closed forms\<close>

text \<open>A buffer of equal chunks.\<close>

definition chunk :: "nat \<Rightarrow> bytes \<Rightarrow> nat \<Rightarrow> bytes" where
  "chunk n buf i = take n (drop (i * n) buf)"

lemma chunk_fits: "length buf = k * n \<Longrightarrow> i < k \<Longrightarrow> i * n + n \<le> length buf"
  by (metis mult_Suc Suc_leI add.commute mult_le_mono1)

lemma length_chunk [simp]: "length buf = k * n \<Longrightarrow> i < k \<Longrightarrow> length (chunk n buf i) = n"
  using chunk_fits [of buf k n i] by (simp add: chunk_def)

lemma chunk_blit:
  assumes "length buf = k * n" and "i < k" and "j < k" and "length v = n"
  shows "chunk n (blit buf (i * n) v) j = (if j = i then v else chunk n buf j)"
proof (cases "j = i")
  case True
  then show ?thesis using assms chunk_fits [of buf k n i] by (simp add: chunk_def blk_blit_same)
next
  case False
  have "j * n + n \<le> i * n \<or> i * n + n \<le> j * n"
    using False by (metis mult_Suc Suc_leI add.commute mult_le_mono1 nat_neq_iff)
  then show ?thesis
    using False assms chunk_fits [of buf k n i] by (simp add: chunk_def blk_blit_disjoint)
qed

lemma chunks_ext:
  assumes "length xs = k * n" and "length ys = k * n" and "\<And>i. i < k \<Longrightarrow> chunk n xs i = chunk n ys i"
  shows "xs = ys"
  using assms
proof (induction k arbitrary: xs ys)
  case (Suc k)
  have "take n xs = take n ys" using Suc.prems(3) [of 0] by (simp add: chunk_def)
  moreover have "drop n xs = drop n ys"
  proof (rule Suc.IH)
    fix i assume "i < k"
    then show "chunk n (drop n xs) i = chunk n (drop n ys) i"
      using Suc.prems(3) [of "Suc i"] by (simp add: chunk_def add.commute)
  qed (use Suc.prems in auto)
  ultimately show ?case by (metis append_take_drop_id)
qed simp

definition digest_lengths :: "crypto \<Rightarrow> bool" where
  "digest_lengths c \<longleftrightarrow> (\<forall>r m. length (SHA c r m) = SHA_OUT_BYTES r) \<and>
     num_hash_bytes c = SHA_OUT_BYTES (hash_routine c)"

text \<open>The routine that \<open>crypto::hash\<close> selects for an output of \<open>n\<close> bytes.\<close>

definition routine_for :: "crypto \<Rightarrow> nat \<Rightarrow> sha_routine" where
  "routine_for c n = (if n \<le> num_hash_bytes c then hash_routine c
     else if n \<le> 20 then sha1_hash else if n \<le> 32 then sha256_hash else sha512_hash)"

lemma crypto_hash_ok:
  assumes "digest_lengths c" and "n \<le> 64" and "ninbytes \<le> length inbuf" and "off + n \<le> length res"
  shows "crypto_hash c res off n inbuf ninbytes =
    Ok (blit res off (take n (SHA c (routine_for c n) (take ninbytes inbuf))))"
proof -
  have len: "length (SHA c r m) = SHA_OUT_BYTES r" for r m using assms by (simp add: digest_lengths_def)
  have nb: "num_hash_bytes c = SHA_OUT_BYTES (hash_routine c)" using assms by (simp add: digest_lengths_def)
  have fits: "n \<le> SHA_OUT_BYTES (routine_for c n)"
    using assms nb by (auto simp: routine_for_def SHA_OUT_BYTES_def split: sha_routine.splits)
  have "crypto_hash c res off n inbuf ninbytes = sha_hash c (routine_for c n) res off n inbuf ninbytes"
    using assms by (auto simp: crypto_hash_def routine_for_def)
  then show ?thesis using assms fits len by (simp add: sha_hash_def)
qed

lemma length_concat_same:
  "(\<And>j. j < k \<Longrightarrow> length (F j) = n) \<Longrightarrow> length (concat (map F [0..<k])) = k * n"
  by (induction k) auto

lemma chunk_concat:
  "(\<And>j. j < k \<Longrightarrow> length (F j) = n) \<Longrightarrow> i < k \<Longrightarrow> chunk n (concat (map F [0..<k])) i = F i"
proof (induction k)
  case (Suc k)
  have len: "length (concat (map F [0..<k])) = k * n"
    by (rule length_concat_same) (simp add: Suc.prems(1))
  show ?case
  proof (cases "i = k")
    case True
    then show ?thesis using len Suc.prems by (simp add: chunk_def)
  next
    case False
    then have "i < k" using Suc.prems by simp
    then have "i * n + n \<le> k * n" using chunk_fits [OF len] len by metis
    then show ?thesis using Suc \<open>i < k\<close> len by (simp add: chunk_def)
  qed
qed simp

lemma concat_chunks:
  assumes "length buf = k * n" and "\<And>j. j < k \<Longrightarrow> chunk n buf j = F j"
  shows "buf = concat (map F [0..<k])"
proof (rule chunks_ext [OF assms(1)])
  have len: "length (F j) = n" if "j < k" for j using assms that by (metis length_chunk)
  then show "length (concat (map F [0..<k])) = k * n" by (rule length_concat_same)
  show "chunk n buf i = chunk n (concat (map F [0..<k])) i" if "i < k" for i
    using chunk_concat [of k F n i] len that assms(2) by simp
qed

definition domain_hash :: "crypto \<Rightarrow> bytes \<Rightarrow> nat \<Rightarrow> nat \<Rightarrow> nat \<Rightarrow> bytes" where
  "domain_hash c elements elen rlen i = take rlen (SHA c (routine_for c rlen) (chunk elen elements i))"

lemma domain_hash_length:
  assumes "digest_lengths c" and "rlen \<le> 64"
  shows "length (domain_hash c elements elen rlen i) = rlen"
proof -
  have "rlen \<le> SHA_OUT_BYTES (routine_for c rlen)"
    using assms by (auto simp: digest_lengths_def routine_for_def SHA_OUT_BYTES_def split: sha_routine.splits)
  then show ?thesis using assms by (simp add: domain_hash_def digest_lengths_def)
qed

lemma domain_hashing_ok:
  assumes "digest_lengths c" and "rlen \<le> 64" and "0 < n"
    and "length elements = n * elen" and "length result = n * rlen"
  shows "domain_hashing n elements elen result rlen c =
    (if elen \<le> num_hash_bytes c then Ok (concat (map (domain_hash c elements elen rlen) [0..<n]))
     else Err OutOfBounds)"
proof (cases "elen \<le> num_hash_bytes c")
  case True
  let ?P = "\<lambda>i (hb::bytes, res). length hb = num_hash_bytes c \<and> length res = n * rlen \<and>
    (\<forall>j<i. chunk rlen res j = domain_hash c elements elen rlen j)"
  let ?f = "\<lambda>i (hash_buf, result).
              rbind (rd_blk elements (i * elen) elen) (\<lambda>e.
              rbind (wr_blk hash_buf 0 e) (\<lambda>hash_buf.
              rbind (crypto_hash c result (i * rlen) rlen hash_buf elen) (\<lambda>result.
              Ok (hash_buf, result))))"
  have "\<exists>s'. rfold ?f [0..<n] (replicate (num_hash_bytes c) 0, result) = Ok s' \<and> ?P n s'"
  proof (rule rfold_upt_inv [where P = ?P])
    fix i s assume "0 \<le> i" and i: "i < n" and P: "?P i s"
    obtain hb res where s: "s = (hb, res)" by (cases s)
    let ?e = "chunk elen elements i"
    have e: "length ?e = elen" "i * elen + elen \<le> length elements" "i * rlen + rlen \<le> length res"
      using assms i P s chunk_fits [of elements n elen i] chunk_fits [of res n rlen i]
        length_chunk [OF assms(4) i] by auto
    let ?d = "domain_hash c elements elen rlen i"
    have d: "length ?d = rlen" by (rule domain_hash_length [OF assms(1,2)])
    have "?f i s = Ok (blit hb 0 ?e, blit res (i * rlen) ?d)"
      using s e P True assms(1,2) by (simp add: crypto_hash_ok blit_def domain_hash_def chunk_def)
    moreover have "?P (Suc i) (blit hb 0 ?e, blit res (i * rlen) ?d)"
      using P s i e d True by (auto simp: chunk_blit [where k = n] less_Suc_eq)
    ultimately show "\<exists>s'. ?f i s = Ok s' \<and> ?P (Suc i) s'" by blast
  qed (use assms in auto)
  then obtain hb res where run: "rfold ?f [0..<n] (replicate (num_hash_bytes c) 0, result) = Ok (hb, res)"
    and P: "?P n (hb, res)" by auto
  have "res = concat (map (domain_hash c elements elen rlen) [0..<n])"
    by (rule concat_chunks [where n = rlen]) (use P in auto)
  then show ?thesis using True run by (simp add: domain_hashing_def)
next
  case False
  have "elen \<le> length elements" using assms by (cases n) auto
  then show ?thesis using False assms(3)
    by (simp add: domain_hashing_def upt_conv_Cons wr_blk_def)
qed

text \<open>C40: \<open>domain_hashing\<close> replaces every element by the first bytes of its digest,
  in order, as long as an element is no longer than the digest of the crypto object;
  with longer elements the copy into \<open>hash_buf\<close> leaves its buffer.\<close>

theorem domain_hashing_correct:
  assumes "digest_lengths c" and "rlen \<le> 64" and "0 < n"
    and "length elements = n * elen" and "length result = n * rlen"
  shows "domain_hashing n elements elen result rlen c =
    (if elen \<le> num_hash_bytes c then Ok (concat (map (domain_hash c elements elen rlen) [0..<n]))
     else Err OutOfBounds)"
  by (rule domain_hashing_ok [OF assms])

section \<open>The closed form of hashElement\<close>

text \<open>\<open>hs_wf\<close>: the shape \<open>init_hashing_state\<close> gives the state. \<open>hs_fits\<close>: the copies
  of \<open>hashElement\<close> stay inside one element and inside a value of \<open>outbytelen\<close> bytes.\<close>

definition hs_wf :: "hs_t \<Rightarrow> bool" where
  "hs_wf hs \<longleftrightarrow> length (hf_values hs) = NUM_HASH_FUNCTIONS \<and> 0 < nhfvals hs \<and>
     (\<forall>row\<in>set (hf_values hs). length row = nhfvals hs \<and> (\<forall>tab\<in>set row. length tab = 2 ^ 16)) \<and>
     0 < hs_nbins hs \<and> addrbitlen hs \<le> 32 \<and> floor_addrbitlen hs \<le> 31"

definition hs_fits :: "hs_t \<Rightarrow> bool" where
  "hs_fits hs \<longleftrightarrow> 4 \<le> inbytelen hs \<and> 4 \<le> outbytelen hs \<and>
     (if 32 < inbitlen hs then outbytelen hs + floor_addrbitlen hs div 8 \<le> inbytelen hs
      else outbytelen hs = 4)"

definition low_word :: "bytes \<Rightarrow> u32" where "low_word e = le_word (take 4 e)"

definition Lpart :: "hs_t \<Rightarrow> bytes \<Rightarrow> u32" where
  "Lpart hs e = low_word e AND mask (addrbitlen hs)"

definition Rpart :: "hs_t \<Rightarrow> bytes \<Rightarrow> u32" where
  "Rpart hs e = drop_bit (addrbitlen hs) (low_word e) AND hs_mask hs"

definition hf_entry :: "hs_t \<Rightarrow> nat \<Rightarrow> u32 \<Rightarrow> u32" where
  "hf_entry hs i R = hf_values hs ! i ! (nhfvals hs - 1) ! unat (ucast (R * 4) :: 16 word)"

definition addr_of :: "hs_t \<Rightarrow> bytes \<Rightarrow> nat \<Rightarrow> nat" where
  "addr_of hs e i = unat (Lpart hs e XOR hf_entry hs i (Rpart hs e)) mod hs_nbins hs"

definition val_of :: "hs_t \<Rightarrow> bytes \<Rightarrow> bytes" where
  "val_of hs e =
     (if 32 < inbitlen hs then
        (let n = outbytelen hs; skip = 4 - floor_addrbitlen hs div 8;
             v = take skip (le_bytes 4 (Rpart hs e)) @ take (n - skip) (drop 4 e)
         in v[n - 1 := v ! (n - 1) AND BYTE_SELECT_BITS_INV ! (outbitlen hs mod 4)])
      else le_bytes 4 (Rpart hs e))"

lemma drop_bit_and_not_mask: "drop_bit n (w AND NOT (mask n)) = drop_bit n (w::'a::len word)"
  by (rule bit_word_eqI) (auto simp: bit_simps dest: bit_imp_le_length)

lemma rfold_overwrite:
  "js \<noteq> [] \<Longrightarrow> i < length a \<Longrightarrow> rfold (\<lambda>j a. wr a i (g j)) js a = Ok (a[i := g (last js)])"
proof (induction js arbitrary: a)
  case (Cons j js)
  then show ?case by (cases "js = []") simp_all
qed simp

lemma take_take_drop: "take n (drop m (take k xs)) = take (min n (k - m)) (drop m xs)"
  by (simp add: drop_take)

lemma hash_addresses:
  assumes hs: "hs_wf hs" and a: "length address = NUM_HASH_FUNCTIONS"
  shows "rfold (\<lambda>i. rfold (\<lambda>j address.
              rbind (rd (hf_values hs) i) (\<lambda>row.
              rbind (rd row j) (\<lambda>tab.
              rbind (rd tab (unat (ucast (R * 4) :: 16 word))) (\<lambda>v.
              wr address i (unat (L XOR v) mod hs_nbins hs))))) [0..<nhfvals hs])
            [0..<NUM_HASH_FUNCTIONS] address =
    Ok (map (\<lambda>i. unat (L XOR hf_entry hs i R) mod hs_nbins hs) [0..<NUM_HASH_FUNCTIONS])"
    (is "rfold ?body _ _ = _")
proof (rule rfold_pointwise [where W = "\<lambda>x. x"])
  fix i and ys :: "nat list" assume i: "i < NUM_HASH_FUNCTIONS" and ys: "length ys = NUM_HASH_FUNCTIONS"
  define row where "row = hf_values hs ! i"
  define k where "k = unat (ucast (R * 4) :: 16 word)"
  have k: "k < 2 ^ 16" unfolding k_def by (rule less_le_trans [OF unsigned_less]) simp
  have "row \<in> set (hf_values hs)" using hs i by (simp add: row_def hs_wf_def)
  then have row: "length row = nhfvals hs" "\<And>tab. tab \<in> set row \<Longrightarrow> length tab = 2 ^ 16"
    using hs by (auto simp: hs_wf_def)
  obtain n where n: "nhfvals hs = Suc n" using hs by (cases "nhfvals hs") (auto simp: hs_wf_def)
  have "?body i ys = rfold (\<lambda>j a. wr a i (unat (L XOR row ! j ! k) mod hs_nbins hs)) [0..<nhfvals hs] ys"
  proof (rule rfold_cong)
    fix j s assume "j \<in> set [0..<nhfvals hs]"
    then have "length (row ! j) = 2 ^ 16" "j < length row" using row by simp_all
    then show "rbind (rd (hf_values hs) i) (\<lambda>row. rbind (rd row j) (\<lambda>tab.
        rbind (rd tab (unat (ucast (R * 4) :: 16 word))) (\<lambda>v.
          wr s i (unat (L XOR v) mod hs_nbins hs)))) = wr s i (unat (L XOR row ! j ! k) mod hs_nbins hs)"
      using i hs k by (simp add: row_def k_def hs_wf_def)
  qed simp_all
  also have "\<dots> = Ok (ys[i := unat (L XOR row ! n ! k) mod hs_nbins hs])"
    by (subst rfold_overwrite) (simp_all add: i ys n)
  finally show "?body i ys = Ok (ys[i := unat (L XOR hf_entry hs i R) mod hs_nbins hs])"
    by (simp add: hf_entry_def row_def k_def n)
qed (rule a)

lemma hashElement_ok:
  assumes hs: "hs_wf hs" "hs_fits hs"
    and e: "e = take (inbytelen hs) (drop off elements)" "off + inbytelen hs \<le> length elements"
    and a: "length address = NUM_HASH_FUNCTIONS" and v: "length val = outbytelen hs"
  shows "hashElement hs elements off address val =
    Ok (map (addr_of hs e) [0..<NUM_HASH_FUNCTIONS], val_of hs e)"
proof -
  have bounds: "4 \<le> inbytelen hs" "4 \<le> outbytelen hs" "addrbitlen hs \<le> 32" "0 < hs_nbins hs"
    using hs by (auto simp: hs_wf_def hs_fits_def)
  have w: "rd_blk elements off 4 = Ok (take 4 e)"
    using e bounds by (simp add: min_def)
  have sel: "rd SELECT_BITS (addrbitlen hs) = Ok (mask (addrbitlen hs))"
    "rd SELECT_BITS_INV (addrbitlen hs) = Ok (NOT (mask (addrbitlen hs)))"
    using bounds by (simp_all add: SELECT_BITS_def SELECT_BITS_INV_def del: upt_Suc)
  have R: "drop_bit (addrbitlen hs) (le_word (take 4 e) AND NOT (mask (addrbitlen hs))) AND hs_mask hs = Rpart hs e"
    by (simp only: drop_bit_and_not_mask Rpart_def low_word_def)
  note step = hashElement_def w sel R hash_addresses [OF hs(1) a] addr_of_def Lpart_def low_word_def
  show ?thesis
  proof (cases "32 < inbitlen hs")
    case False
    then have "outbytelen hs = 4" using hs by (simp add: hs_fits_def)
    then show ?thesis using False bounds v
      by (simp add: step Let_def rassert_def val_of_def blit_def del: drop_bit_and)
  next
    case True
    define n where "n = outbytelen hs"
    define skip where "skip = 4 - floor_addrbitlen hs div 8"
    have fl: "n + floor_addrbitlen hs div 8 \<le> inbytelen hs" "floor_addrbitlen hs \<le> 31"
      using True hs by (simp_all add: hs_fits_def hs_wf_def n_def)
    then have sk: "skip \<le> 4" "0 < skip" "4 + (n - skip) \<le> inbytelen hs" "4 \<le> n"
      using bounds unfolding skip_def n_def by linarith+
    have rest: "rd_blk elements (off + 4) (n - skip) = Ok (take (n - skip) (drop 4 e))"
      using e sk by (simp add: take_take_drop min_def add.commute)
    have len: "length (take (n - skip) (drop 4 e)) = n - skip" using e sk by simp
    define v1 where "v1 = blit val 0 (le_bytes 4 (Rpart hs e))"
    have v1: "length v1 = n" using v sk by (simp add: v1_def n_def)
    have v2: "blit v1 skip (take (n - skip) (drop 4 e)) =
        take skip (le_bytes 4 (Rpart hs e)) @ take (n - skip) (drop 4 e)"
      using v1 sk len by (simp add: blit_def v1_def)
    let ?v2 = "take skip (le_bytes 4 (Rpart hs e)) @ take (n - skip) (drop 4 e)"
    have l2: "length ?v2 = n" using len sk by simp
    have m4: "outbitlen hs mod 4 < length BYTE_SELECT_BITS_INV"
      by (simp add: BYTE_SELECT_BITS_INV_def less_le_trans [of _ 4])
    have "wr_blk val 0 (le_bytes 4 (Rpart hs e)) = Ok v1" using v sk by (simp add: v1_def n_def)
    moreover have "wr_blk v1 skip (take (n - skip) (drop 4 e)) = Ok ?v2"
      using v1 sk len v2 by simp
    moreover have "val_of hs e = ?v2[n - 1 := ?v2 ! (n - 1) AND BYTE_SELECT_BITS_INV ! (outbitlen hs mod 4)]"
      using True by (simp add: val_of_def Let_def n_def skip_def)
    moreover have "map (\<lambda>i. unat (le_word (take 4 e) AND mask (addrbitlen hs) XOR hf_entry hs i (Rpart hs e)) mod hs_nbins hs)
        [0..<NUM_HASH_FUNCTIONS] = map (addr_of hs e) [0..<NUM_HASH_FUNCTIONS]"
      by (simp add: addr_of_def Lpart_def low_word_def)
    moreover have "skip \<le> n" "n - 1 < length ?v2" "rassert (hs_nbins hs \<noteq> 0) = Ok ()"
      using sk l2 bounds by (simp_all add: rassert_def)
    moreover have "32 < inbitlen hs \<longleftrightarrow> True" using True by simp
    ultimately show ?thesis
      unfolding hashElement_def w Let_def
      by (simp only: rbind.simps sel R hash_addresses [OF hs(1) a] n_def [symmetric] skip_def [symmetric]
          if_True rest rd_ok [OF m4] rd_ok wr_ok)
  qed
qed

lemma val_of_length:
  assumes "hs_fits hs" and "hs_wf hs" and "length e = inbytelen hs"
  shows "length (val_of hs e) = outbytelen hs"
  using assms by (auto simp: val_of_def hs_fits_def hs_wf_def Let_def min_def)

lemma addr_of_less: "hs_wf hs \<Longrightarrow> addr_of hs e i < hs_nbins hs"
  by (simp add: addr_of_def hs_wf_def)

section \<open>What init_hashing_state establishes\<close>

definition prf_ok :: "prf_state_ctx \<Rightarrow> bool" where
  "prf_ok prf \<longleftrightarrow> (\<forall>b. length b = 16 \<longrightarrow> length (prf_aes prf b) = 16) \<and> length (prf_ctr prf) = 2"

lemma gen_rnd_bytes_ok:
  assumes "prf_ok prf"
  shows "\<exists>buf prf'. gen_rnd_bytes prf n = Ok (buf, prf') \<and> length buf = n \<and> prf_ok prf' \<and> prf_aes prf' = prf_aes prf"
proof -
  let ?k = "ceil_divide n AES_BYTES"
  let ?f = "\<lambda>i (tmpbuf, ctr).
              rbind (rd_blk (concat (map (le_bytes 8) ctr)) 0 AES_BYTES) (\<lambda>blk.
              rbind (wr_blk tmpbuf (i * AES_BYTES) (prf_aes prf blk)) (\<lambda>tmpbuf.
              rbind (rd ctr 0) (\<lambda>c. Ok (tmpbuf, ctr[0 := c + 1]))))"
  let ?P = "\<lambda>i (tmp::bytes, ctr::u64 list). length tmp = ?k * AES_BYTES \<and> length ctr = 2"
  have "\<exists>s'. rfold ?f [0..<?k] (replicate (?k * AES_BYTES) 0, prf_ctr prf) = Ok s' \<and> ?P ?k s'"
  proof (rule rfold_upt_inv [where P = ?P])
    fix i s assume i: "i < ?k" and P: "?P i s"
    obtain tmp ctr where s: "s = (tmp, ctr)" by (cases s)
    obtain c d where ctr: "ctr = [c, d]" using P s by (auto simp: length_Suc_conv numeral_2_eq_2)
    have blk: "length (le_bytes 8 c @ le_bytes 8 d) = 16" by simp
    have "length (prf_aes prf (le_bytes 8 c @ le_bytes 8 d)) = AES_BYTES"
      using assms blk unfolding prf_ok_def AES_BYTES_def by blast
    moreover have "i * AES_BYTES + AES_BYTES \<le> length tmp"
      using P s i chunk_fits [of tmp ?k AES_BYTES i] by simp
    ultimately show "\<exists>s'. ?f i s = Ok s' \<and> ?P (Suc i) s'"
      using P by (simp add: s ctr AES_BYTES_def)
  qed (use assms in \<open>auto simp: prf_ok_def\<close>)
  then obtain tmp ctr where run: "rfold ?f [0..<?k] (replicate (?k * AES_BYTES) 0, prf_ctr prf) = Ok (tmp, ctr)"
    and P: "?P ?k (tmp, ctr)" by auto
  have "n \<le> ?k * AES_BYTES"
    unfolding ceil_divide_def AES_BYTES_def by (cases n) auto
  then show ?thesis using run P assms by (simp add: gen_rnd_bytes_def prf_ok_def)
qed

lemma length_words_of [simp]: "length (words_of buf) = length buf div 4"
  by (simp add: words_of_def)

lemma ceil_divide_pos: "0 < x \<Longrightarrow> 0 < ceil_divide x y"
  by (simp add: ceil_divide_def)

lemma ceil_log2_32: "nbins < 2 ^ 32 \<Longrightarrow> ceil_log2 nbins \<le> 32 \<and> floor_log2 nbins \<le> 31"
proof -
  assume small: "nbins < 2 ^ 32"
  consider "nbins = 0" | "nbins = 1" | "1 < nbins" by linarith
  then show ?thesis
  proof cases
    case 3
    have "(2::nat) ^ targetlevel nbins < 2 ^ 32"
      using targetlevel_bounds [of nbins] 3 small by simp
    then have "targetlevel nbins < 32" by (rule power_less_imp_less_exp [rotated]) simp
    then show ?thesis using 3 by (simp add: ceil_log2_def floor_log2_def Let_def)
  qed (simp_all add: ceil_log2_def floor_log2_def targetlevel.simps)
qed

text \<open>The scalar part of the state, without the random tables.\<close>

definition hs_shape :: "nat \<Rightarrow> nat \<Rightarrow> nat \<Rightarrow> hs_t \<Rightarrow> bool" where
  "hs_shape nelements inlen nbins hs \<longleftrightarrow>
     hs_nelements hs = nelements \<and> inbitlen hs = inlen \<and> hs_nbins hs = nbins \<and>
     addrbitlen hs = min (ceil_log2 nbins) inlen \<and> floor_addrbitlen hs = min (floor_log2 nbins) inlen \<and>
     outbitlen hs = inlen - addrbitlen hs + 1 \<and> inbytelen hs = ceil_divide inlen 8 \<and>
     outbytelen hs = ceil_divide (outbitlen hs) 8 \<and>
     (24 < inlen \<longrightarrow> hs_mask hs = - 1)"

lemma init_hashing_ok:
  assumes "prf_ok prf" and "0 < nbins" and "nbins < 2 ^ 32"
  shows "\<exists>hs prf'. init_hashing_state nelements inlen nbins prf = Ok (hs, prf') \<and>
    hs_wf hs \<and> hs_shape nelements inlen nbins hs \<and> prf_ok prf' \<and> prf_aes prf' = prf_aes prf"
proof -
  let ?ok = "\<lambda>p. prf_ok p \<and> prf_aes p = prf_aes prf"
  define nvals where "nvals = ceil_divide (ceil_divide (inlen - min (ceil_log2 nbins) inlen + 1) 8) MAX_TABLE_SIZE_BYTES"
  let ?nr = "2 ^ (8 * MAX_TABLE_SIZE_BYTES) * 4"
  let ?g = "\<lambda>j (row, prf). rbind (gen_rnd_bytes prf ?nr) (\<lambda>(buf, prf). Ok (row @ [words_of buf], prf))"
  let ?f = "\<lambda>i (tabs, prf). rbind (rfold ?g [0..<nvals] ([], prf)) (\<lambda>(row, prf). Ok (tabs @ [row], prf))"
  let ?row = "\<lambda>n row. length row = n \<and> (\<forall>tab\<in>set row. length (tab::u32 list) = 2 ^ 16)"
  have row: "\<exists>s'. rfold ?g [0..<nvals] ([], p) = Ok s' \<and> (case s' of (row, p) \<Rightarrow> ?row nvals row \<and> ?ok p)"
    if p: "?ok p" for p
  proof (rule rfold_upt_inv [where P = "\<lambda>j (row, p). ?row j row \<and> ?ok p"])
    fix j s assume P: "case s of (row, p) \<Rightarrow> ?row j row \<and> ?ok p"
    obtain row q where s: "s = (row, q)" by (cases s)
    obtain buf q' where "gen_rnd_bytes q ?nr = Ok (buf, q')" "length buf = ?nr" "?ok q'"
      using gen_rnd_bytes_ok [of q ?nr] P s by auto
    then show "\<exists>s'. ?g j s = Ok s' \<and> (case s' of (row, p) \<Rightarrow> ?row (Suc j) row \<and> ?ok p)"
      using P s by (simp add: MAX_TABLE_SIZE_BYTES_def)
  qed (use p in auto)
  let ?P = "\<lambda>i (tabs, p). length tabs = i \<and> (\<forall>row\<in>set tabs. ?row nvals row) \<and> ?ok p"
  have "\<exists>s'. rfold ?f [0..<NUM_HASH_FUNCTIONS] ([], prf) = Ok s' \<and> ?P NUM_HASH_FUNCTIONS s'"
  proof (rule rfold_upt_inv [where P = ?P])
    fix i s assume P: "?P i s"
    obtain tabs q where s: "s = (tabs, q)" by (cases s)
    obtain row q' where "rfold ?g [0..<nvals] ([], q) = Ok (row, q')" "?row nvals row" "?ok q'"
      using row [of q] P s by auto
    then show "\<exists>s'. ?f i s = Ok s' \<and> ?P (Suc i) s'" using P s by auto
  qed (use assms in auto)
  then obtain tabs q where run: "rfold ?f [0..<NUM_HASH_FUNCTIONS] ([], prf) = Ok (tabs, q)"
    and P: "?P NUM_HASH_FUNCTIONS (tabs, q)" by auto
  have nv: "0 < nvals" unfolding nvals_def by (intro ceil_divide_pos) simp
  have big: "24 < inlen \<Longrightarrow> \<not> ceil_divide inlen 8 < 4" by (simp add: ceil_divide_def)
  show ?thesis
    unfolding init_hashing_state_def Let_def nvals_def [symmetric] run rbind.simps prod.case
    using P nv big ceil_log2_32 [OF assms(3)] assms(2)
    by (auto simp: hs_wf_def hs_shape_def)
qed

text \<open>C39: \<open>init_hashing_state\<close> succeeds and leaves a state on which the lookups of
  \<open>hashElement\<close> are in range: three rows of \<open>nhfvals\<close> tables with an entry for every
  16-bit index, and the lengths computed from the arguments.\<close>

theorem init_hashing_state_wf:
  assumes "prf_ok prf" and "0 < nbins" and "nbins < 2 ^ 32"
  shows "\<exists>hs prf'. init_hashing_state nelements inlen nbins prf = Ok (hs, prf') \<and>
    hs_wf hs \<and> hs_shape nelements inlen nbins hs \<and> prf_ok prf' \<and> prf_aes prf' = prf_aes prf"
  by (rule init_hashing_ok [OF assms])

section \<open>When the bin and the value determine the element\<close>

lemma log2_power: "0 < k \<Longrightarrow> ceil_log2 (2 ^ k) = k \<and> floor_log2 (2 ^ k) = k"
proof -
  assume k: "0 < k"
  have "2 ^ targetlevel (2 ^ k) \<le> (2::nat) ^ k" "(2::nat) ^ k < 2 ^ Suc (targetlevel (2 ^ k))"
    using targetlevel_bounds [of "2 ^ k"] by auto
  then have "targetlevel (2 ^ k) \<le> k" "k < Suc (targetlevel (2 ^ k))"
    by (metis one_less_numeral_iff power_increasing_iff semiring_norm(76))
      (metis \<open>2 ^ k < 2 ^ Suc (targetlevel (2 ^ k))\<close> one_less_numeral_iff power_strict_increasing_iff semiring_norm(76))
  then show ?thesis using k by (simp add: ceil_log2_def floor_log2_def Let_def)
qed

lemma mod_power_xor:
  "unat (x XOR v) mod 2 ^ k = unat (y XOR v) mod 2 ^ k \<longleftrightarrow> take_bit k x = take_bit k (y :: u32)"
proof -
  have "unat (z XOR v) mod 2 ^ k = unat (take_bit k (z XOR v))" for z
    by (metis unsigned_take_bit_eq take_bit_eq_mod)
  moreover have "take_bit k (x XOR v) = take_bit k (y XOR v) \<longleftrightarrow> take_bit k x = take_bit k y"
    by (auto simp: bit_eq_iff bit_simps)
  ultimately show ?thesis by (metis unsigned_word_eqI)
qed

lemma low_word_split:
  assumes "drop_bit k (low_word e) = drop_bit k (low_word e')" and "take_bit k (low_word e) = take_bit k (low_word e')"
    and "length e = length e'" and "4 \<le> length e" and "drop 4 e = drop 4 e'"
  shows "e = e'"
proof -
  have "low_word e = low_word e'" using assms(1,2) by (metis bits_ident)
  then have "take 4 e = take 4 e'"
    using le_word_inj [of "take 4 e" "take 4 e'", where 'a = 32] assms by (simp add: low_word_def)
  then show ?thesis using assms(5) by (metis append_take_drop_id)
qed

text \<open>The first bytes of a value hold all of \<open>R\<close>: it has \<open>32 - k\<close> bits.\<close>

lemma R_from_bytes:
  assumes "take (4 - k div 8) (le_bytes 4 (drop_bit k x)) = take (4 - k div 8) (le_bytes 4 (drop_bit k (y :: u32)))"
    and "k < 32"
  shows "drop_bit k x = drop_bit k y"
proof (rule bit_word_eqI)
  fix j assume "j < LENGTH(32)"
  then have j: "j < 32" by simp
  show "bit (drop_bit k x) j = bit (drop_bit k y) j"
  proof (cases "j div 8 < 4 - k div 8")
    case True
    then have "le_bytes 4 (drop_bit k x) ! (j div 8) = le_bytes 4 (drop_bit k y) ! (j div 8)"
      using assms(1) by (metis nth_take)
    then have "bit (le_bytes 4 (drop_bit k x) ! (j div 8)) (j mod 8) = bit (le_bytes 4 (drop_bit k y) ! (j div 8)) (j mod 8)"
      by simp
    moreover have "j div 8 < 4" "8 * (j div 8) + j mod 8 = j" using j by auto
    ultimately show ?thesis by (simp add: bit_le_bytes)
  next
    case False
    then have "32 \<le> k + j" using assms(2) by linarith
    then show ?thesis by (auto simp: bit_simps dest: bit_imp_le_length)
  qed
qed

text \<open>C34: with a power of two of bins, elements of more than 32 bits whose value is
  copied whole (no bit of its last byte is cleared, no byte of a neighbour is read), the
  hashing is the permutation it is meant to be: two elements that one hash function sends to
  the same bin with the same value are the same element.\<close>

theorem hashElement_injective:
  assumes "hs_wf hs" and "hs_shape neles inlen (2 ^ k) hs" and "0 < k" and "k < 32" and "32 < inlen"
    and "outbitlen hs mod 4 = 0" and "outbytelen hs + k div 8 = inbytelen hs" and "4 \<le> outbytelen hs"
    and "length e = inbytelen hs" and "length e' = inbytelen hs"
    and "addr_of hs e i = addr_of hs e' i" and "val_of hs e = val_of hs e'"
  shows "e = e'"
proof -
  let ?skip = "4 - k div 8"
  have sh: "addrbitlen hs = k" "floor_addrbitlen hs = k" "hs_nbins hs = 2 ^ k" "inbitlen hs = inlen" "hs_mask hs = - 1"
    using assms(2-5) log2_power [of k] by (simp_all add: hs_shape_def)
  have R: "Rpart hs x = drop_bit k (low_word x)" for x using sh by (simp add: Rpart_def)
  have "(0xFF :: u8) = - 1" by simp
  then have sel: "b AND BYTE_SELECT_BITS_INV ! 0 = b" for b
    by (simp only: BYTE_SELECT_BITS_INV_def nth_Cons_0 and.right_neutral)
  have "val_of hs x = take ?skip (le_bytes 4 (Rpart hs x)) @ drop 4 x" if "length x = inbytelen hs" for x
    using assms(4-8) that sh sel by (simp add: val_of_def Let_def)
  then have eq: "take ?skip (le_bytes 4 (Rpart hs e)) @ drop 4 e = take ?skip (le_bytes 4 (Rpart hs e')) @ drop 4 e'"
    using assms(9,10,12) by simp
  have parts: "take ?skip (le_bytes 4 (Rpart hs e)) = take ?skip (le_bytes 4 (Rpart hs e')) \<and> drop 4 e = drop 4 e'"
    by (rule append_eq_append_conv [THEN iffD1, OF disjI1, OF _ eq]) simp
  have dr: "drop_bit k (low_word e) = drop_bit k (low_word e')"
    by (rule R_from_bytes) (use parts assms(4) R in auto)
  then have "take_bit k (Lpart hs e) = take_bit k (Lpart hs e')"
    using assms(11) sh by (simp add: addr_of_def R mod_power_xor)
  then have tk: "take_bit k (low_word e) = take_bit k (low_word e')"
    using sh by (simp add: Lpart_def flip: take_bit_eq_mask)
  have len: "length e = length e'" "4 \<le> length e" using assms(7-10) by linarith+
  show ?thesis by (rule low_word_split [OF dr tk len conjunct2 [OF parts]])
qed

text \<open>C35: with any other number of bins two different elements share the bin and the value,
  under each hash function and whatever its table holds: the addresses are \<open>ceil_log2(nbins)\<close> bits
  reduced modulo \<open>nbins\<close>, and the extra bit of \<open>outbitlen\<close> that should tell them apart is not set.\<close>

theorem hashElement_collides:
  assumes "hs_wf hs" and "hs_nbins hs < 2 ^ addrbitlen hs" and "4 \<le> inbytelen hs"
  shows "\<exists>e e'. e \<noteq> e' \<and> length e = inbytelen hs \<and> length e' = inbytelen hs \<and>
    addr_of hs e i = addr_of hs e' i \<and> val_of hs e = val_of hs e'"
proof -
  let ?a = "addrbitlen hs" and ?n = "of_nat (hs_nbins hs) :: u32"
  define v where "v = hf_entry hs i 0"
  define elem where "elem w = le_bytes 4 w @ replicate (inbytelen hs - 4) 0" for w :: u32
  define w2 where "w2 = take_bit ?a v XOR ?n"
  have a32: "?a \<le> 32" "0 < hs_nbins hs" using assms(1) by (auto simp: hs_wf_def)
  have n32: "hs_nbins hs < 2 ^ 32" using assms(2) a32 by (meson less_le_trans one_le_numeral power_increasing)
  have un: "unat ?n = hs_nbins hs" using n32 by (simp add: unat_of_nat take_bit_nat_eq_self)
  have tn: "take_bit ?a ?n = ?n"
    using un assms(2) a32 by (simp add: word_unat_eq_iff unsigned_take_bit_eq take_bit_nat_eq_self)
  have low: "low_word (elem w) = w" for w by (simp add: low_word_def elem_def le_word_bytes)
  have Rp: "Rpart hs (elem w) = 0" if "take_bit ?a w = w" for w
  proof -
    have "drop_bit ?a w = 0" using that by (metis bits_ident add_cancel_left_left drop_bit_of_0 drop_bit_take_bit take_bit_0 diff_self_eq_0)
    then show ?thesis by (simp add: Rpart_def low)
  qed
  have Lp: "Lpart hs (elem w) = w" if "take_bit ?a w = w" for w
    using that by (simp add: Lpart_def low flip: take_bit_eq_mask)
  have w: "take_bit ?a (take_bit ?a v) = take_bit ?a v" "take_bit ?a w2 = w2"
    using tn by (simp_all add: w2_def)
  define h where "h = take_bit ?a v XOR v"
  have "h AND ?n = 0" using tn by (auto simp: h_def bit_eq_iff bit_simps)
  then have "unat h AND unat ?n = 0" by (metis unsigned_and_eq unsigned_0)
  then have "unat (h XOR ?n) = unat h + hs_nbins hs"
    by (simp add: unsigned_xor_eq un flip: disjunctive_add_eq_xor)
  moreover have "w2 XOR v = h XOR ?n" by (simp add: w2_def h_def ac_simps)
  ultimately have "addr_of hs (elem w2) i = addr_of hs (elem (take_bit ?a v)) i"
    using w by (simp add: addr_of_def Lp Rp v_def [symmetric] h_def)
  moreover have "val_of hs (elem w2) = val_of hs (elem (take_bit ?a v))"
    using w by (simp add: val_of_def Rp) (simp add: elem_def)
  moreover have "elem w2 \<noteq> elem (take_bit ?a v)"
  proof
    assume "elem w2 = elem (take_bit ?a v)"
    then have "w2 = take_bit ?a v" by (metis low)
    then have "w2 XOR take_bit ?a v = 0" by simp
    then have "?n = 0" by (simp add: w2_def ac_simps)
    then show False using un a32 by simp
  qed
  ultimately show ?thesis using assms(3) by (intro exI [of _ "elem w2"] exI [of _ "elem (take_bit ?a v)"]) (simp add: elem_def)
qed

section \<open>Elements and the shares of the tasks\<close>

definition addrs :: "hs_t \<Rightarrow> bytes \<Rightarrow> nat list" where
  "addrs hs e = map (addr_of hs e) [0..<NUM_HASH_FUNCTIONS]"

definition element_at :: "hs_t \<Rightarrow> bytes \<Rightarrow> nat \<Rightarrow> bytes" where
  "element_at hs elements i = chunk (inbytelen hs) elements i"

lemma upt_split:
  assumes "j < n"
  shows "[0..<n] = [0..<j] @ j # [Suc j..<n]"
  using assms by (metis le_add_same_cancel1 less_imp_le_nat upt_add_eq_append upt_conv_Cons zero_le le_add_diff_inverse)

lemma concat_split:
  "j < n \<Longrightarrow> concat (map f [0..<n]) = concat (map f [0..<j]) @ f j @ concat (map f [Suc j..<n])"
  by (subst upt_split) simp_all

lemma share_ranges:
  "concat (map (\<lambda>t. [t * per..<min (t * per + per) n]) [0..<T]) = [0..<min (T * per) n]"
proof (induction T)
  case (Suc T)
  show ?case
  proof (cases "T * per \<le> n")
    case True
    then have "[0..<min (T * per) n] @ [T * per..<min (T * per + per) n] = [0..<min (T * per + per) n]"
      by (metis min.bounded_iff le_add1 min_absorb1 upt_add_eq_append le_add_diff_inverse zero_le)
    then show ?thesis using Suc by (simp add: add.commute)
  next
    case False
    then show ?thesis using Suc by simp
  qed
qed simp

lemma ceil_divide_covers: "0 < T \<Longrightarrow> n \<le> T * ceil_divide n T"
proof -
  assume T: "0 < T"
  show ?thesis
  proof (cases n)
    case (Suc m)
    have "m < T * (m div T) + T" using T by (metis add.commute mult_div_mod_eq mod_less_divisor nat_add_left_cancel_less)
    then show ?thesis using Suc by (simp add: ceil_divide_def algebra_simps)
  qed simp
qed

section \<open>Both parties hash alike\<close>

text \<open>Where the copies stay inside one element, \<open>hashElement\<close> succeeds and its
  result depends on the bytes of the element only, not on where it is stored nor on what the
  output buffers held; so a leader and a follower with the same tables compute the same
  bins and the same value. The bins are in range and the value fills its buffer.\<close>

theorem hashElement_local:
  assumes "hs_wf hs" and "hs_fits hs"
    and "off + inbytelen hs \<le> length buf" and "off' + inbytelen hs \<le> length buf'"
    and "take (inbytelen hs) (drop off buf) = take (inbytelen hs) (drop off' buf')"
    and "length a = NUM_HASH_FUNCTIONS" and "length a' = NUM_HASH_FUNCTIONS"
    and "length v = outbytelen hs" and "length v' = outbytelen hs"
  shows "hashElement hs buf off a v = hashElement hs buf' off' a' v' \<and>
    (\<exists>address val. hashElement hs buf off a v = Ok (address, val) \<and> length address = NUM_HASH_FUNCTIONS \<and>
       list_all (\<lambda>b. b < hs_nbins hs) address \<and> length val = outbytelen hs)"
  using assms hashElement_ok [OF assms(1,2) refl assms(3,6,8)] hashElement_ok [OF assms(1,2) refl assms(4,7,9)]
    val_of_length [OF assms(2,1)] addr_of_less [OF assms(1)]
  by (simp add: list_all_iff)

section \<open>Witnesses\<close>

text \<open>A state with constant tables: \<open>bits\<close>-bit elements, \<open>nbins\<close> bins of \<open>a\<close> address bits.\<close>

definition flat_hs :: "nat \<Rightarrow> nat \<Rightarrow> nat \<Rightarrow> nat \<Rightarrow> hs_t" where
  "flat_hs bits nbins a f =
     \<lparr>hf_values = replicate 3 (replicate (ceil_divide (ceil_divide (bits - a + 1) 8) 2) (replicate (2 ^ 16) 0)),
      nhfvals = ceil_divide (ceil_divide (bits - a + 1) 8) 2, hs_nelements = 4, hs_nbins = nbins,
      inbitlen = bits, addrbitlen = a, floor_addrbitlen = f, outbitlen = bits - a + 1,
      inbytelen = ceil_divide bits 8, addrbytelen = ceil_divide a 8,
      outbytelen = ceil_divide (bits - a + 1) 8, address_used = replicate nbins 0, hs_mask = - 1\<rparr>"

lemma flat_hs_wf:
  "0 < nbins \<Longrightarrow> a \<le> 32 \<Longrightarrow> f \<le> 31 \<Longrightarrow> hs_wf (flat_hs bits nbins a f)"
  by (auto simp: hs_wf_def flat_hs_def NUM_HASH_FUNCTIONS_def intro!: ceil_divide_pos)

lemma flat_hs_512:
  "hs_wf (flat_hs 64 512 9 9)" "hs_fits (flat_hs 64 512 9 9)" "hs_shape 4 64 (2 ^ 9) (flat_hs 64 512 9 9)"
  "inbytelen (flat_hs 64 512 9 9) = 8" "outbytelen (flat_hs 64 512 9 9) = 7" "outbitlen (flat_hs 64 512 9 9) = 56"
  using flat_hs_wf [of 512 9 9 64] log2_power [of 9]
  by (simp_all add: hs_fits_def hs_shape_def) (simp_all add: flat_hs_def ceil_divide_def)

lemma ceil_log2_bits_witness: "(3::nat) \<le> 2 ^ ceil_log2 3 \<and> 2 ^ (ceil_log2 3 - 1) < (3::nat)"
  using ceil_log2_bits [of 3] by simp

definition flat_crypto :: crypto where
  "flat_crypto = crypto_init (\<lambda>r m. replicate (SHA_OUT_BYTES r) (hd m)) 80"

theorem domain_hashing_correct_witness:
  "domain_hashing 2 [1,2,3,4,5,6] 3 (replicate 4 0) 2 flat_crypto = Ok [1,1,4,4]"
proof -
  have c: "digest_lengths flat_crypto" "num_hash_bytes flat_crypto = 20" "routine_for flat_crypto 2 = sha1_hash"
    by (simp_all add: flat_crypto_def digest_lengths_def crypto_init_def SHA_OUT_BYTES_def routine_for_def)
  then have "domain_hashing 2 [1,2,3,4,5,6] 3 (replicate 4 0) 2 flat_crypto =
      Ok (concat (map (domain_hash flat_crypto [1,2,3,4,5,6] 3 2) [0..<2]))"
    using domain_hashing_correct [of flat_crypto 2 2 "[1,2,3,4,5,6]" 3 "replicate 4 0"] by simp
  then show ?thesis using c
    by (simp add: domain_hash_def chunk_def flat_crypto_def crypto_init_def SHA_OUT_BYTES_def upt_conv_Cons
        numeral_eq_Suc)
qed

definition flat_prf :: prf_state_ctx where
  "flat_prf = \<lparr>prf_aes = (\<lambda>b. b), prf_ctr = [0, 0]\<rparr>"

theorem init_hashing_state_wf_witness:
  "\<exists>hs prf'. init_hashing_state 4 64 512 flat_prf = Ok (hs, prf') \<and> hs_wf hs"
  using init_hashing_state_wf [of flat_prf 512 4 64] by (auto simp: prf_ok_def flat_prf_def)

theorem hashElement_injective_witness:
  "addr_of (flat_hs 64 512 9 9) (replicate 8 1) 0 = addr_of (flat_hs 64 512 9 9) (replicate 8 1) 0 \<and>
   replicate 8 (1::u8) = replicate 8 1"
  using hashElement_injective [of "flat_hs 64 512 9 9" 4 64 9 "replicate 8 1" "replicate 8 1" 0] flat_hs_512
  by simp

theorem hashElement_collides_witness:
  "\<exists>e e'. e \<noteq> e' \<and> length e = 8 \<and> addr_of (flat_hs 64 1000 10 9) e 1 = addr_of (flat_hs 64 1000 10 9) e' 1 \<and>
     val_of (flat_hs 64 1000 10 9) e = val_of (flat_hs 64 1000 10 9) e'"
  using hashElement_collides [of "flat_hs 64 1000 10 9" 1] flat_hs_wf [of 1000 10 9 64]
  by (auto simp: flat_hs_def ceil_divide_def)

theorem hashElement_local_witness:
  "hashElement (flat_hs 64 512 9 9) (replicate 8 1) 0 [0,0,0] (replicate 7 0) =
   hashElement (flat_hs 64 512 9 9) (5 # replicate 8 1) 1 [7,8,9] (replicate 7 3)"
  using hashElement_local [of "flat_hs 64 512 9 9" 0 "replicate 8 1" 1 "5 # replicate 8 1" "[0,0,0]" "[7,8,9]"
      "replicate 7 0" "replicate 7 3"] flat_hs_512
  by (simp add: NUM_HASH_FUNCTIONS_def)

end
