(* ===== verification/Leader.thy ===== *)
theory Leader
  imports Hashing Concurrency
begin

text \<open>
  The leader of the multiparty protocol: \<open>Source Files/Leaders/Leader.cpp\<close> with \<open>Leader.h\<close>,
  the strategies \<open>NaiveLeader\<close> and \<open>SimpleHashingNaiveLeader\<close>, and the byte
  helpers of \<open>defs.cpp\<close>. A leader object is a record that the strategies
  extend, the parties are the keys of \<open>m_parties\<close>, and the received data are maps from a
  party to its buffer. What \<open>isElementInAllSets\<close> changes is the mask of the element's bin,
  which it gets by pointer: it takes that mask and returns it.

  The virtual method is the interface \<open>leader_strategy\<close>; under it the threads of
  \<open>Leader::run\<close> count the matching elements whatever their schedule. The search of the
  naive strategies is shown to find a cancelling choice of masks iff there is one.
\<close>

section \<open>Byte helpers\<close>

text \<open>\<open>XOR(xoree1, xoree2, size)\<close>, on the pointers \<open>x + i\<close> and \<open>y + j\<close>.\<close>

definition XOR_bytes :: "bytes \<Rightarrow> nat \<Rightarrow> bytes \<Rightarrow> nat \<Rightarrow> nat \<Rightarrow> bytes res" where
  "XOR_bytes x i y j n =
     rfold (\<lambda>k x. rbind (rd x (i + k)) (\<lambda>a. rbind (rd y (j + k)) (\<lambda>b. wr x (i + k) (a XOR b)))) [0..<n] x"

definition isZero :: "bytes \<Rightarrow> nat \<Rightarrow> bool res" where
  "isZero arr n = rall (\<lambda>i. rbind (rd arr i) (\<lambda>b. Ok (b = 0))) [0..<n]"

lemma XOR_bytes_ok:
  assumes "i + n \<le> length x" and "j + n \<le> length y"
  shows "XOR_bytes x i y j n = Ok (blit x i (bxor (take n (drop i x)) (take n (drop j y))))"
proof -
  have "XOR_bytes x i y j m = Ok (blit x i (bxor (take m (drop i x)) (take m (drop j y))))" if "m \<le> n" for m
    using that
  proof (induction m)
    case 0
    then show ?case by (simp add: XOR_bytes_def blit_def)
  next
    case (Suc m)
    let ?v = "bxor (take m (drop i x)) (take m (drop j y))"
    have lv: "length ?v = m" "m < length x - i" "m < length y - j" using Suc.prems assms by auto
    then have v: "bxor (take (Suc m) (drop i x)) (take (Suc m) (drop j y)) = ?v @ [x ! (i + m) XOR y ! (j + m)]"
      by (simp add: take_Suc_conv_app_nth bxor_append)
    have at: "blit x i ?v ! (i + m) = x ! (i + m)" "length (blit x i ?v) = length x"
      using lv by (simp_all add: nth_blit)
    have app: "(blit x i ?v)[i + m := z] = blit x i (?v @ [z])" for z
      using lv by (simp add: blit_def list_update_append Cons_nth_drop_Suc [symmetric])
    have "XOR_bytes x i y j (Suc m) = rbind (XOR_bytes x i y j m) (\<lambda>x.
        rbind (rd x (i + m)) (\<lambda>a. rbind (rd y (j + m)) (\<lambda>b. wr x (i + m) (a XOR b))))"
      by (simp add: XOR_bytes_def rfold_append)
    also have "\<dots> = Ok ((blit x i ?v)[i + m := x ! (i + m) XOR y ! (j + m)])"
    proof -
      have ih: "XOR_bytes x i y j m = Ok (blit x i ?v)" using Suc.IH Suc.prems by simp
      have "i + m < length (blit x i ?v)" "j + m < length y" using at(2) lv by linarith+
      then show ?thesis by (simp only: ih rbind.simps rd_ok wr_ok at(1))
    qed
    finally show ?case unfolding v app .
  qed
  then show ?thesis by simp
qed

lemma XOR_bytes_whole:
  "length x = n \<Longrightarrow> length y = k * n \<Longrightarrow> t < k \<Longrightarrow> XOR_bytes x 0 y (t * n) n = Ok (bxor x (chunk n y t))"
  using XOR_bytes_ok [of 0 n x "t * n" y] chunk_fits [of y k n t] by (simp add: blit_def chunk_def)

lemma isZero_ok:
  assumes "length s = n"
  shows "isZero s n = Ok (s = replicate n 0)"
proof -
  have "isZero s n = Ok (\<forall>i\<in>set [0..<n]. s ! i = 0)"
    unfolding isZero_def by (rule rall_Ok) (simp add: assms)
  moreover have "(\<forall>i\<in>set [0..<n]. s ! i = 0) \<longleftrightarrow> s = replicate n 0"
    using assms by (metis atLeast_upt in_set_conv_nth lessThan_iff length_replicate nth_equalityI nth_replicate)
  ultimately show ?thesis by simp
qed

section \<open>The leader object\<close>

record CuckooHashInfo =
  binIndex :: int
  tableIndex :: int
  hashedBy :: nat

record Leader =
  leaderResults :: "nat \<rightharpoonup> bytes"
  hashInfo :: "CuckooHashInfo list"
  numOfBins :: nat
  maskSizeInBytes :: nat
  setSize :: nat
  parties :: "nat list"
  elements :: bytes
  elementSize :: nat
  numCores :: nat

record NaiveLeader = Leader +
  partiesResults :: "nat \<rightharpoonup> bytes"

record SimpleHashingNaiveLeader = NaiveLeader +
  maxBinSize :: nat

section \<open>The search of the naive strategies\<close>

text \<open>
  The loop of \<open>isZeroXOR\<close>: XOR mask \<open>i\<close> into the share, try the remaining parties, and take
  the mask out again if they fail.
\<close>

fun try_masks ::
  "(bytes \<Rightarrow> (bytes \<times> bool) res) \<Rightarrow> (nat \<Rightarrow> bytes \<Rightarrow> bytes res) \<Rightarrow> nat list \<Rightarrow> bytes \<Rightarrow> (bytes \<times> bool) res" where
  "try_masks rest xor_mask [] sh = Ok (sh, False)"
| "try_masks rest xor_mask (i # js) sh =
     rbind (xor_mask i sh) (\<lambda>sh.
     rbind (rest sh) (\<lambda>(sh, found).
     if found then Ok (sh, True)
     else rbind (xor_mask i sh) (\<lambda>sh. try_masks rest xor_mask js sh)))"

text \<open>\<open>rng\<close> gives the mask indexes a strategy tries for a hash function and a bin.\<close>

function isZeroXOR ::
  "'a NaiveLeader_scheme \<Rightarrow> (nat \<Rightarrow> nat \<Rightarrow> nat list) \<Rightarrow> nat \<Rightarrow> nat \<Rightarrow> nat \<Rightarrow> bytes \<Rightarrow> (bytes \<times> bool) res" where
  "isZeroXOR L rng partyNum hashIndex bin formerShare =
     (if partyNum \<le> length (parties L) + 1 then
        rbind (deref (partiesResults L partyNum)) (\<lambda>partyResult.
        try_masks (\<lambda>sh. isZeroXOR L rng (partyNum + 1) hashIndex bin sh)
          (\<lambda>i sh. XOR_bytes sh 0 partyResult (i * maskSizeInBytes L) (maskSizeInBytes L))
          (rng hashIndex bin) formerShare)
      else rbind (isZero formerShare (maskSizeInBytes L)) (\<lambda>z. Ok (formerShare, z)))"
  by pat_completeness auto
termination by (relation "measure (\<lambda>(L, rng, partyNum, rest). length (parties L) + 2 - partyNum)") auto

declare isZeroXOR.simps [simp del]

definition NaiveLeader_range :: "'a NaiveLeader_scheme \<Rightarrow> nat \<Rightarrow> nat \<Rightarrow> nat list" where
  "NaiveLeader_range L hashIndex bin = [hashIndex * setSize L..<(hashIndex + 1) * setSize L]"

definition SimpleHashingNaiveLeader_range :: "'a SimpleHashingNaiveLeader_scheme \<Rightarrow> nat \<Rightarrow> nat \<Rightarrow> nat list" where
  "SimpleHashingNaiveLeader_range L hashIndex bin =
     [hashIndex * numOfBins L * maxBinSize L + bin * maxBinSize L..<
      hashIndex * numOfBins L * maxBinSize L + (bin + 1) * maxBinSize L]"

definition leader_masks :: "'a Leader_scheme \<Rightarrow> nat \<Rightarrow> bytes \<Rightarrow> bytes res" where
  "leader_masks L table secret =
     rfold (\<lambda>party s. rbind (deref (leaderResults L party)) (\<lambda>results.
         XOR_bytes s 0 results (table * maskSizeInBytes L) (maskSizeInBytes L))) (parties L) secret"

definition isElementInAllSets ::
  "('a NaiveLeader_scheme \<Rightarrow> nat \<Rightarrow> nat \<Rightarrow> nat list) \<Rightarrow> 'a NaiveLeader_scheme \<Rightarrow>
   nat \<Rightarrow> nat \<Rightarrow> nat \<Rightarrow> nat \<Rightarrow> bytes \<Rightarrow> (bytes \<times> bool) res" where
  "isElementInAllSets rng L index bin table hashFuncIndex secret =
     rbind (leader_masks L table secret) (\<lambda>secret. isZeroXOR L (rng L) 2 hashFuncIndex bin secret)"

section \<open>Leader::run\<close>

text \<open>
  One iteration of \<open>checkElementsInThread\<close> in thread \<open>t\<close>, on the number of elements each
  thread has found and the leader's secret share. \<open>check\<close> is the virtual method.
\<close>

definition checkElement ::
  "('a Leader_scheme \<Rightarrow> nat \<Rightarrow> nat \<Rightarrow> nat \<Rightarrow> nat \<Rightarrow> bytes \<Rightarrow> (bytes \<times> bool) res) \<Rightarrow> 'a Leader_scheme \<Rightarrow>
   nat \<times> nat \<Rightarrow> nat list \<times> bytes \<Rightarrow> (nat list \<times> bytes) res" where
  "checkElement check L = (\<lambda>(t, i) (numFound, sh).
     rbind (rd (hashInfo L) i) (\<lambda>h.
     if binIndex h = - 1 then Ok (numFound, sh)
     else if tableIndex h = - 1 then Ok (numFound, sh)
     else
       (let n = maskSizeInBytes L; bin = nat (binIndex h) in
        rbind (rd_blk sh (bin * n) n) (\<lambda>secret.
        rbind (check L i bin (nat (tableIndex h)) (hashedBy h) secret) (\<lambda>(secret, found).
        rbind (wr_blk sh (bin * n) secret) (\<lambda>sh.
        if found then rbind (rd numFound t) (\<lambda>k. rbind (wr numFound t (k + 1)) (\<lambda>numFound. Ok (numFound, sh)))
        else Ok (numFound, sh)))))))"

definition threadCount :: "'a Leader_scheme \<Rightarrow> nat" where "threadCount L = min (numCores L) (setSize L)"

text \<open>The borders of the threads' shares, in \<open>uint32_t\<close> arithmetic.\<close>

definition startPos :: "'a Leader_scheme \<Rightarrow> nat \<Rightarrow> nat" where
  "startPos L t = (t * setSize L mod 2 ^ 32) div threadCount L"

definition endPos :: "'a Leader_scheme \<Rightarrow> nat \<Rightarrow> nat" where
  "endPos L t = (if t + 1 = threadCount L then setSize L
     else ((t + 1) * setSize L mod 2 ^ 32) div threadCount L)"

definition check_queues :: "'a Leader_scheme \<Rightarrow> (nat \<times> nat) list list" where
  "check_queues L = map (\<lambda>t. map (Pair t) [startPos L t..<endPos L t]) [0..<threadCount L]"

definition Leader_run ::
  "('a Leader_scheme \<Rightarrow> nat \<Rightarrow> nat \<Rightarrow> nat \<Rightarrow> nat \<Rightarrow> bytes \<Rightarrow> (bytes \<times> bool) res) \<Rightarrow> 'a Leader_scheme \<Rightarrow>
   bytes \<Rightarrow> nat list \<Rightarrow> (nat \<times> bytes) res" where
  "Leader_run check L secretShare sched =
     rbind (spawn_join (checkElement check L) sched (check_queues L)
              (replicate (threadCount L) 0, secretShare)) (\<lambda>(numFound, sh).
     Ok (sum_list numFound, sh))"

section \<open>The search finds a cancelling choice iff there is one\<close>

text \<open>Some choice of one mask from each list cancels \<open>s\<close>.\<close>

fun cancels :: "bytes list list \<Rightarrow> bytes \<Rightarrow> bool" where
  "cancels [] s \<longleftrightarrow> s = replicate (length s) 0"
| "cancels (ms # mss) s \<longleftrightarrow> (\<exists>m\<in>set ms. cancels mss (bxor s m))"

lemma cancels_choice:
  "(\<And>ms m. ms \<in> set mss \<Longrightarrow> m \<in> set ms \<Longrightarrow> length m = length s) \<Longrightarrow>
   cancels mss s \<longleftrightarrow>
   (\<exists>choice. list_all2 (\<lambda>m ms. m \<in> set ms) choice mss \<and> bxors s choice = replicate (length s) 0)"
proof (induction mss arbitrary: s)
  case (Cons ms mss)
  have len: "length (bxor s m) = length s" if "m \<in> set ms" for m using Cons.prems [of ms m] that by simp
  have "cancels mss (bxor s m) \<longleftrightarrow>
      (\<exists>choice. list_all2 (\<lambda>m ms. m \<in> set ms) choice mss \<and> bxors s (m # choice) = replicate (length s) 0)"
    if "m \<in> set ms" for m
  proof -
    have "cancels mss (bxor s m) \<longleftrightarrow> (\<exists>choice. list_all2 (\<lambda>m ms. m \<in> set ms) choice mss \<and>
        bxors (bxor s m) choice = replicate (length (bxor s m)) 0)"
      by (rule Cons.IH) (metis Cons.prems len [OF that] list.set_intros(2))
    then show ?thesis by (simp only: len [OF that] bxors_Cons)
  qed
  then have "cancels (ms # mss) s \<longleftrightarrow>
      (\<exists>m\<in>set ms. \<exists>choice. list_all2 (\<lambda>m ms. m \<in> set ms) choice mss \<and> bxors s (m # choice) = replicate (length s) 0)"
    by simp
  also have "\<dots> \<longleftrightarrow> (\<exists>choice. list_all2 (\<lambda>m ms. m \<in> set ms) choice (ms # mss) \<and> bxors s choice = replicate (length s) 0)"
    unfolding list_all2_Cons2 by blast
  finally show ?case .
qed simp

lemma try_masks_ok:
  assumes rest: "\<And>s. length s = n \<Longrightarrow> \<exists>s'. rest s = Ok (s', C s) \<and> length s' = n \<and> (\<not> C s \<longrightarrow> s' = s)"
    and xor_mask: "\<And>i s. i \<in> set js \<Longrightarrow> length s = n \<Longrightarrow> xor_mask i s = Ok (bxor s (M i)) \<and> length (M i) = n"
    and s: "length s = n"
  shows "\<exists>s'. try_masks rest xor_mask js s = Ok (s', \<exists>i\<in>set js. C (bxor s (M i))) \<and> length s' = n \<and>
    ((\<forall>i\<in>set js. \<not> C (bxor s (M i))) \<longrightarrow> s' = s)"
  using xor_mask
proof (induction js)
  case Nil
  then show ?case using s by simp
next
  case (Cons i js)
  have i: "xor_mask i s = Ok (bxor s (M i))" "length (M i) = n" using Cons.prems [of i s] s by auto
  have l: "length (bxor s (M i)) = n" using i s by simp
  obtain s' where r: "rest (bxor s (M i)) = Ok (s', C (bxor s (M i)))" "length s' = n"
    "\<not> C (bxor s (M i)) \<Longrightarrow> s' = bxor s (M i)" using rest [OF l] by blast
  show ?case
  proof (cases "C (bxor s (M i))")
    case True
    then show ?thesis using i r by simp
  next
    case False
    have "xor_mask i (bxor s (M i)) = Ok s" using Cons.prems [of i "bxor s (M i)"] l i s by (simp add: bxor_cancel)
    moreover obtain s2 where "try_masks rest xor_mask js s = Ok (s2, \<exists>i\<in>set js. C (bxor s (M i)))" "length s2 = n"
      "(\<forall>i\<in>set js. \<not> C (bxor s (M i))) \<longrightarrow> s2 = s" using Cons.IH Cons.prems by auto
    ultimately show ?thesis using i r False by auto
  qed
qed

text \<open>The received masks reach every index the search uses.\<close>

definition masks_of :: "'a NaiveLeader_scheme \<Rightarrow> nat list \<Rightarrow> nat \<Rightarrow> bytes list" where
  "masks_of L js party = map (chunk (maskSizeInBytes L) (the (partiesResults L party))) js"

definition results_reach :: "'a NaiveLeader_scheme \<Rightarrow> nat list \<Rightarrow> bool" where
  "results_reach L js \<longleftrightarrow> (\<forall>party\<in>{2..length (parties L) + 1}. \<exists>res k. partiesResults L party = Some res \<and>
     length res = k * maskSizeInBytes L \<and> (\<forall>i\<in>set js. i < k))"

lemma isZeroXOR_ok:
  assumes "results_reach L (rng h b)" and "2 \<le> party" and "length s = maskSizeInBytes L"
  shows "\<exists>s'. isZeroXOR L rng party h b s =
      Ok (s', cancels (map (masks_of L (rng h b)) [party..<length (parties L) + 2]) s) \<and>
    length s' = maskSizeInBytes L \<and>
    (\<not> cancels (map (masks_of L (rng h b)) [party..<length (parties L) + 2]) s \<longrightarrow> s' = s)"
  using assms
proof (induction "length (parties L) + 2 - party" arbitrary: party s)
  case 0
  then show ?case using isZero_ok [of s] by (simp add: isZeroXOR.simps [of L rng party])
next
  case (Suc d)
  let ?n = "maskSizeInBytes L" and ?C = "cancels (map (masks_of L (rng h b)) [party + 1..<length (parties L) + 2])"
  have p: "party \<le> length (parties L) + 1" using Suc.hyps(2) by simp
  then obtain res k where res: "partiesResults L party = Some res" "length res = k * ?n" "\<And>i. i \<in> set (rng h b) \<Longrightarrow> i < k"
    using Suc.prems(1,2) by (force simp: results_reach_def)
  have rest: "\<exists>s'. isZeroXOR L rng (party + 1) h b t = Ok (s', ?C t) \<and> length s' = ?n \<and> (\<not> ?C t \<longrightarrow> s' = t)"
    if "length t = ?n" for t
    by (rule Suc.hyps(1)) (use Suc.hyps(2) Suc.prems that in auto)
  have xor: "XOR_bytes t 0 res (i * ?n) ?n = Ok (bxor t (chunk ?n res i)) \<and> length (chunk ?n res i) = ?n"
    if "i \<in> set (rng h b)" "length t = ?n" for i t
    using XOR_bytes_whole [OF that(2) res(2) res(3)] length_chunk [OF res(2) res(3)] that by blast
  have split: "map (masks_of L (rng h b)) [party..<length (parties L) + 2] =
      masks_of L (rng h b) party # map (masks_of L (rng h b)) [party + 1..<length (parties L) + 2]"
    using p by (subst upt_conv_Cons) auto
  have "isZeroXOR L rng party h b s =
      try_masks (\<lambda>s. isZeroXOR L rng (party + 1) h b s) (\<lambda>i s. XOR_bytes s 0 res (i * ?n) ?n) (rng h b) s"
    using p res(1) by (simp add: isZeroXOR.simps [of L rng party] deref_def)
  then show ?case
    using try_masks_ok [where rest = "\<lambda>s. isZeroXOR L rng (party + 1) h b s" and C = ?C and M = "chunk ?n res" and
        js = "rng h b" and xor_mask = "\<lambda>i s. XOR_bytes s 0 res (i * ?n) ?n" and n = ?n, OF rest xor Suc.prems(3)]
    unfolding split by (simp add: masks_of_def res(1))
qed

text \<open>The masks the OPRG runs gave the leader for one of its elements.\<close>

definition leader_mask :: "'a Leader_scheme \<Rightarrow> nat \<Rightarrow> nat \<Rightarrow> bytes" where
  "leader_mask L table party = chunk (maskSizeInBytes L) (the (leaderResults L party)) table"

definition leader_reach :: "'a Leader_scheme \<Rightarrow> nat \<Rightarrow> bool" where
  "leader_reach L table \<longleftrightarrow> (\<forall>party\<in>set (parties L). \<exists>res k. leaderResults L party = Some res \<and>
     length res = k * maskSizeInBytes L \<and> table < k)"

lemma leader_masks_ok:
  assumes "leader_reach L table" and "length s = maskSizeInBytes L"
  shows "leader_masks L table s = Ok (bxors s (map (leader_mask L table) (parties L))) \<and>
    length (bxors s (map (leader_mask L table) (parties L))) = maskSizeInBytes L"
proof -
  let ?n = "maskSizeInBytes L"
  have "rfold (\<lambda>party s. rbind (deref (leaderResults L party)) (\<lambda>res. XOR_bytes s 0 res (table * ?n) ?n)) ps s =
      Ok (bxors s (map (leader_mask L table) ps)) \<and> length (bxors s (map (leader_mask L table) ps)) = ?n"
    if "set ps \<subseteq> set (parties L)" for ps
    using that assms(2)
  proof (induction ps arbitrary: s)
    case (Cons p ps)
    have "p \<in> set (parties L)" using Cons.prems(1) by simp
    then obtain res k where res: "leaderResults L p = Some res" "length res = k * ?n" "table < k"
      using assms(1) unfolding leader_reach_def by blast
    have "XOR_bytes s 0 res (table * ?n) ?n = Ok (bxor s (leader_mask L table p))" "length (leader_mask L table p) = ?n"
      using XOR_bytes_whole [OF Cons.prems(2) res(2,3)] length_chunk [OF res(2,3)] by (simp_all add: leader_mask_def res(1))
    then show ?case using Cons res(1) by (simp add: deref_def)
  qed simp
  then show ?thesis by (simp add: leader_masks_def)
qed

section \<open>The interface of the strategies\<close>

definition placed_element :: "'a Leader_scheme \<Rightarrow> nat \<Rightarrow> bool" where
  "placed_element L i \<longleftrightarrow> binIndex (hashInfo L ! i) \<noteq> - 1 \<and> tableIndex (hashInfo L ! i) \<noteq> - 1"

definition bin_of :: "'a Leader_scheme \<Rightarrow> nat \<Rightarrow> nat" where "bin_of L i = nat (binIndex (hashInfo L ! i))"

text \<open>The hash information of the elements fits: bins in range, no two elements in one bin.\<close>

definition hash_info_ok :: "'a Leader_scheme \<Rightarrow> (nat \<Rightarrow> nat \<Rightarrow> nat \<Rightarrow> nat \<Rightarrow> bool) \<Rightarrow> bool" where
  "hash_info_ok L good \<longleftrightarrow> setSize L \<le> length (hashInfo L) \<and> threadCount L * setSize L < 2 ^ 32 \<and>
     (\<forall>i < setSize L. placed_element L i \<longrightarrow> bin_of L i < numOfBins L \<and>
        good i (bin_of L i) (nat (tableIndex (hashInfo L ! i))) (hashedBy (hashInfo L ! i))) \<and>
     (\<forall>i < setSize L. \<forall>j < setSize L. placed_element L i \<longrightarrow> placed_element L j \<longrightarrow> bin_of L i = bin_of L j \<longrightarrow> i = j)"

text \<open>
  What \<open>Leader::run\<close> needs of a strategy: for an element in the domain \<open>good\<close>, the virtual
  method returns whether the element matches, a function of the element and the mask of its bin
  alone, and leaves a mask of the same size. \<open>L\<close> is the leader object.
\<close>

locale leader_strategy =
  fixes L :: "'a Leader_scheme"
    and check :: "'a Leader_scheme \<Rightarrow> nat \<Rightarrow> nat \<Rightarrow> nat \<Rightarrow> nat \<Rightarrow> bytes \<Rightarrow> (bytes \<times> bool) res"
    and good :: "nat \<Rightarrow> nat \<Rightarrow> nat \<Rightarrow> nat \<Rightarrow> bool"
    and matches :: "nat \<Rightarrow> nat \<Rightarrow> nat \<Rightarrow> nat \<Rightarrow> bytes \<Rightarrow> bool"
  assumes check_ok: "good i b t h \<Longrightarrow> length s = maskSizeInBytes L \<Longrightarrow>
      \<exists>s'. check L i b t h s = Ok (s', matches i b t h s) \<and> length s' = maskSizeInBytes L"
begin

definition usable :: bool where "usable \<longleftrightarrow> hash_info_ok L good"

definition in_block :: "nat \<times> nat \<Rightarrow> bool" where
  "in_block a \<longleftrightarrow> usable \<and> fst a < threadCount L \<and> startPos L (fst a) \<le> snd a \<and> snd a < endPos L (fst a)"

definition sized :: "nat list \<times> bytes \<Rightarrow> bool" where
  "sized s \<longleftrightarrow> length (fst s) = threadCount L \<and> length (snd s) = numOfBins L * maskSizeInBytes L"

definition hit :: "bytes \<Rightarrow> nat \<Rightarrow> bool" where
  "hit sh i \<longleftrightarrow> placed_element L i \<and> matches i (bin_of L i) (nat (tableIndex (hashInfo L ! i))) (hashedBy (hashInfo L ! i))
     (chunk (maskSizeInBytes L) sh (bin_of L i))"

text \<open>The mask the method leaves, and the effect of one iteration.\<close>

definition left_mask :: "nat \<Rightarrow> bytes \<Rightarrow> bytes" where
  "left_mask i s = (case check L i (bin_of L i) (nat (tableIndex (hashInfo L ! i))) (hashedBy (hashInfo L ! i)) s of
     Inr (s', f) \<Rightarrow> s' | Inl e \<Rightarrow> [])"

definition effect :: "nat \<times> nat \<Rightarrow> nat list \<times> bytes \<Rightarrow> nat list \<times> bytes" where
  "effect a s = (case s of (found, sh) \<Rightarrow>
     (if hit sh (snd a) then found[fst a := found ! fst a + 1] else found,
      if placed_element L (snd a)
      then blit sh (bin_of L (snd a) * maskSizeInBytes L) (left_mask (snd a) (chunk (maskSizeInBytes L) sh (bin_of L (snd a))))
      else sh))"

lemma no_wrap: "usable \<Longrightarrow> t \<le> threadCount L \<Longrightarrow> t * setSize L < 2 ^ 32"
  unfolding usable_def hash_info_ok_def by (meson le_less_trans mult_le_mono1)

lemma startPos_eq: "usable \<Longrightarrow> t < threadCount L \<Longrightarrow> startPos L t = t * setSize L div threadCount L"
  using no_wrap [of t] by (simp add: startPos_def)

lemma endPos_eq:
  assumes "usable" and "t < threadCount L"
  shows "endPos L t = (t + 1) * setSize L div threadCount L"
proof (cases "t + 1 = threadCount L")
  case True
  then show ?thesis using assms(2) nonzero_mult_div_cancel_left [of "threadCount L" "setSize L"]
    by (simp only: endPos_def if_True) simp
next
  case False
  then show ?thesis using no_wrap [of "t + 1"] assms by (simp only: endPos_def if_False) simp
qed

lemma block_less: "in_block a \<Longrightarrow> snd a < setSize L"
proof -
  assume a: "in_block a"
  then have c: "fst a < threadCount L" "usable" "snd a < endPos L (fst a)" by (auto simp: in_block_def)
  have "(fst a + 1) * setSize L \<le> threadCount L * setSize L" using c(1) by (intro mult_le_mono1) simp
  then have "endPos L (fst a) \<le> threadCount L * setSize L div threadCount L"
    unfolding endPos_eq [OF c(2,1)] by (rule div_le_mono)
  also have "\<dots> = setSize L" using c(1) by (intro nonzero_mult_div_cancel_left) simp
  finally show ?thesis using c(3) by simp
qed

lemma blocks_disjoint: "in_block a \<Longrightarrow> in_block b \<Longrightarrow> fst a \<noteq> fst b \<Longrightarrow> snd a \<noteq> snd b"
proof -
  have order: "snd a < snd b" if "in_block a" "in_block b" "fst a < fst b" for a b
  proof -
    have c: "usable" "fst a < threadCount L" "fst b < threadCount L" "snd a < endPos L (fst a)" "startPos L (fst b) \<le> snd b"
      using that by (auto simp: in_block_def)
    have "endPos L (fst a) \<le> startPos L (fst b)"
      using that(3) c startPos_eq [of "fst b"] endPos_eq [of "fst a"]
        mult_le_mono1 [of "fst a + 1" "fst b" "setSize L"] by (simp add: div_le_mono)
    then show ?thesis using c by simp
  qed
  assume "in_block a" "in_block b" "fst a \<noteq> fst b"
  then show ?thesis using order [of a b] order [of b a] by (metis less_irrefl nat_neq_iff)
qed

lemma left_mask_ok:
  assumes "usable" and "i < setSize L" and "placed_element L i" and "length s = maskSizeInBytes L"
  shows "check L i (bin_of L i) (nat (tableIndex (hashInfo L ! i))) (hashedBy (hashInfo L ! i)) s =
      Ok (left_mask i s, matches i (bin_of L i) (nat (tableIndex (hashInfo L ! i))) (hashedBy (hashInfo L ! i)) s) \<and>
    length (left_mask i s) = maskSizeInBytes L"
  using check_ok [of i "bin_of L i" "nat (tableIndex (hashInfo L ! i))" "hashedBy (hashInfo L ! i)" s] assms
  by (auto simp: usable_def hash_info_ok_def left_mask_def)

lemma step:
  assumes a: "in_block a" and s: "sized s"
  shows "checkElement check L a s = Ok (effect a s) \<and> sized (effect a s)"
proof -
  obtain t i where ti: "a = (t, i)" by (cases a)
  obtain found sh where fs: "s = (found, sh)" by (cases s)
  have u: "usable" "t < threadCount L" "i < setSize L"
    using a block_less [OF a] ti by (auto simp: in_block_def)
  have len: "length found = threadCount L" "length sh = numOfBins L * maskSizeInBytes L" using s fs by (auto simp: sized_def)
  have h: "rd (hashInfo L) i = Ok (hashInfo L ! i)" using u by (simp add: usable_def hash_info_ok_def)
  show ?thesis
  proof (cases "placed_element L i")
    case False
    then show ?thesis using h len ti fs
      by (auto simp: checkElement_def placed_element_def effect_def hit_def sized_def)
  next
    case True
    let ?b = "bin_of L i" and ?n = "maskSizeInBytes L"
    have b: "?b < numOfBins L" using u True by (simp add: usable_def hash_info_ok_def)
    let ?s = "chunk ?n sh ?b"
    have ls: "length ?s = ?n" by (rule length_chunk [OF len(2) b])
    note fits = chunk_fits [OF len(2) b]
    have "rd_blk sh (?b * ?n) ?n = Ok ?s" using fits by (simp add: chunk_def)
    then show ?thesis using h u(2) True left_mask_ok [OF u(1,3) True ls] fits len ti fs
      by (auto simp: checkElement_def placed_element_def effect_def hit_def sized_def Let_def simp flip: bin_of_def)
  qed
qed

text \<open>An iteration touches the bin of its element only.\<close>

lemma effect_other_bin:
  assumes "in_block a" and "sized s" and "b < numOfBins L" and "placed_element L (snd a) \<Longrightarrow> b \<noteq> bin_of L (snd a)"
  shows "chunk (maskSizeInBytes L) (snd (effect a s)) b = chunk (maskSizeInBytes L) (snd s) b"
proof (cases "placed_element L (snd a)")
  case True
  have "usable" "snd a < setSize L" using assms(1) block_less by (auto simp: in_block_def)
  moreover from this True have k: "bin_of L (snd a) < numOfBins L" by (simp add: usable_def hash_info_ok_def)
  moreover have len: "length (snd s) = numOfBins L * maskSizeInBytes L" using assms(2) by (simp add: sized_def)
  ultimately show ?thesis
    using True assms(3,4) chunk_blit [OF len k assms(3)] left_mask_ok [OF _ _ True] length_chunk [OF len k]
    by (auto simp: effect_def split: prod.split)
qed (simp add: effect_def split: prod.split)

lemma hit_cong:
  "(placed_element L i \<Longrightarrow> chunk (maskSizeInBytes L) sh (bin_of L i) = chunk (maskSizeInBytes L) sh' (bin_of L i)) \<Longrightarrow> hit sh i = hit sh' i"
  by (auto simp: hit_def)

text \<open>Iterations of different threads commute: they work on different bins.\<close>

lemma effect_own_bin:
  assumes "in_block a" and "sized s" and "placed_element L (snd a)"
  shows "chunk (maskSizeInBytes L) (snd (effect a s)) (bin_of L (snd a)) =
    left_mask (snd a) (chunk (maskSizeInBytes L) (snd s) (bin_of L (snd a)))"
proof -
  have u: "usable" "snd a < setSize L" using assms(1) block_less by (auto simp: in_block_def)
  then have k: "bin_of L (snd a) < numOfBins L" using assms(3) by (simp add: usable_def hash_info_ok_def)
  have len: "length (snd s) = numOfBins L * maskSizeInBytes L" using assms(2) by (simp add: sized_def)
  show ?thesis using assms(3) chunk_blit [OF len k k] left_mask_ok [OF u assms(3)] length_chunk [OF len k]
    by (auto simp: effect_def split: prod.split)
qed

lemma bins_differ:
  assumes "in_block a" and "in_block b" and "snd a \<noteq> snd b" and "placed_element L (snd a)" and "placed_element L (snd b)"
  shows "bin_of L (snd a) \<noteq> bin_of L (snd b)"
proof -
  have "usable" "snd a < setSize L" "snd b < setSize L"
    using assms(1,2) block_less by (auto simp: in_block_def)
  then show ?thesis using assms(3-5) unfolding usable_def hash_info_ok_def by blast
qed

lemma effect_fst: "fst (effect a s) = (if hit (snd s) (snd a) then (fst s)[fst a := fst s ! fst a + 1] else fst s)"
  by (simp add: effect_def split: prod.split)

lemma effect_hit:
  assumes "in_block a" and "in_block b" and "snd a \<noteq> snd b" and "sized s"
  shows "hit (snd (effect a s)) (snd b) = hit (snd s) (snd b)"
proof (rule hit_cong)
  assume b: "placed_element L (snd b)"
  have "usable" "snd b < setSize L" using assms(2) block_less by (auto simp: in_block_def)
  then have "bin_of L (snd b) < numOfBins L" using b by (simp add: usable_def hash_info_ok_def)
  then show "chunk (maskSizeInBytes L) (snd (effect a s)) (bin_of L (snd b)) = chunk (maskSizeInBytes L) (snd s) (bin_of L (snd b))"
    using effect_other_bin [OF assms(1,4)] bins_differ [OF assms(1-3) _ b] by metis
qed

lemma sized_effect: "in_block a \<Longrightarrow> sized s \<Longrightarrow> sized (effect a s)"
  using step by blast

text \<open>A bin after two iterations.\<close>

lemma effect_chunk:
  assumes "in_block a" and "sized s" and "k < numOfBins L"
  shows "chunk (maskSizeInBytes L) (snd (effect a s)) k =
    (if placed_element L (snd a) \<and> k = bin_of L (snd a) then left_mask (snd a) (chunk (maskSizeInBytes L) (snd s) k)
     else chunk (maskSizeInBytes L) (snd s) k)"
  using effect_own_bin [OF assms(1,2)] effect_other_bin [OF assms] by auto

lemma effects_commute:
  assumes a: "in_block a" and b: "in_block b" and ne: "fst a \<noteq> fst b" and s: "sized s"
  shows "effect b (effect a s) = effect a (effect b s)"
proof (rule prod_eqI)
  note ea = sized_effect [OF a s] and eb = sized_effect [OF b s]
  have i: "snd a \<noteq> snd b" by (rule blocks_disjoint [OF a b ne])
  show "fst (effect b (effect a s)) = fst (effect a (effect b s))"
    using effect_hit [OF a b i s] effect_hit [OF b a i [symmetric] s] ne
    by (simp add: effect_fst list_update_swap)
  have "length (snd (effect b (effect a s))) = numOfBins L * maskSizeInBytes L"
    "length (snd (effect a (effect b s))) = numOfBins L * maskSizeInBytes L"
    using sized_effect [OF b ea] sized_effect [OF a eb] by (simp_all add: sized_def)
  then show "snd (effect b (effect a s)) = snd (effect a (effect b s))"
  proof (rule chunks_ext)
    fix k assume k: "k < numOfBins L"
    show "chunk (maskSizeInBytes L) (snd (effect b (effect a s))) k = chunk (maskSizeInBytes L) (snd (effect a (effect b s))) k"
      using effect_chunk [OF b ea k] effect_chunk [OF a s k] effect_chunk [OF a eb k] effect_chunk [OF b s k]
        bins_differ [OF a b i] by auto
  qed
qed

end

sublocale leader_strategy \<subseteq> commuting "checkElement check L" fst in_block sized
proof unfold_locales
  fix s a s' assume "sized s" "in_block a" "checkElement check L a s = Ok s'"
  then show "sized s'" using step [of a s] by auto
next
  fix s a b s1 s2
  assume s: "sized s" and a: "in_block a" and b: "in_block b" and ne: "fst a \<noteq> fst b"
    and 1: "checkElement check L a s = Ok s1" and 2: "checkElement check L b s = Ok s2"
  have "s1 = effect a s" "s2 = effect b s" using 1 2 step [OF a s] step [OF b s] by auto
  then have "checkElement check L b s1 = Ok (effect b (effect a s))" "checkElement check L a s2 = Ok (effect a (effect b s))"
    using step [OF b sized_effect [OF a s]] step [OF a sized_effect [OF b s]] by simp_all
  then show "\<exists>s3. checkElement check L b s1 = Ok s3 \<and> checkElement check L a s2 = Ok s3"
    using effects_commute [OF a b ne s] by metis
next
  fix s a b e s1
  assume "sized s" "in_block a" "checkElement check L a s = Err e"
  then show "checkElement check L a s1 = Err e" using step [of a s] by auto
qed

text \<open>The queues of the threads are their shares of the whole loop.\<close>

lemma shares_blocks:
  "shares fst T (concat (map (\<lambda>t. map (Pair t) (f t)) [0..<T])) = map (\<lambda>t. map (Pair t) (f t)) [0..<T]"
proof -
  have "share fst t (concat (map (\<lambda>u. map (Pair u) (f u)) [0..<n])) = (if t < n then map (Pair t) (f t) else [])" for t n
    by (induction n) (auto simp: share_def filter_map comp_def less_Suc_eq)
  then show ?thesis by (simp add: shares_def)
qed

lemma concat_blocks: "(\<And>t. g t \<le> g (Suc t)) \<Longrightarrow> concat (map (\<lambda>t. [g t..<g (Suc t)]) [0..<T]) = [g 0..<g T]"
proof (induction T)
  case (Suc T)
  have "g 0 \<le> g T" using Suc.prems by (rule lift_Suc_mono_le) simp
  then have "[g 0..<g T] @ [g T..<g (Suc T)] = [g 0..<g (Suc T)]"
    using Suc.prems [of T] by (metis le_add_diff_inverse upt_add_eq_append)
  then show ?case using Suc by simp
qed simp

context leader_strategy begin

lemma iterations:
  assumes "usable" and "0 < numCores L"
  shows "map snd (concat (check_queues L)) = [0..<setSize L]"
proof -
  let ?T = "threadCount L"
  let ?g = "\<lambda>t. t * setSize L div ?T"
  have "map snd (concat (check_queues L)) = concat (map (\<lambda>t. [startPos L t..<endPos L t]) [0..<?T])"
    by (simp add: check_queues_def map_concat comp_def)
  also have "\<dots> = concat (map (\<lambda>t. [?g t..<?g (Suc t)]) [0..<?T])"
    using startPos_eq [OF assms(1)] endPos_eq [OF assms(1)] by (intro arg_cong [where f = concat] map_cong) auto
  also have "\<dots> = [?g 0..<?g ?T]" by (rule concat_blocks) (simp add: div_le_mono)
  also have "\<dots> = [0..<setSize L]" using assms(2) by (cases "setSize L = 0") (auto simp: threadCount_def)
  finally show ?thesis .
qed

lemma iterations_in_block: "usable \<Longrightarrow> \<forall>a\<in>set (concat (check_queues L)). fst a < threadCount L \<and> in_block a"
  by (auto simp: check_queues_def in_block_def)

lemma sequential_hits:
  assumes "\<forall>a\<in>set order. in_block a" and "distinct (map snd order)" and "sized s"
  shows "\<exists>s'. rfold (checkElement check L) order s = Ok s' \<and> sized s' \<and>
    sum_list (fst s') = sum_list (fst s) + length (filter (hit (snd s)) (map snd order))"
  using assms
proof (induction order arbitrary: s)
  case (Cons a order)
  have a: "in_block a" and b: "\<forall>b\<in>set order. in_block b" and d: "distinct (map snd order)" using Cons.prems by simp_all
  have ea: "sized (effect a s)" by (rule sized_effect [OF a Cons.prems(3)])
  obtain s' where s': "rfold (checkElement check L) order (effect a s) = Ok s'" "sized s'"
    "sum_list (fst s') = sum_list (fst (effect a s)) + length (filter (hit (snd (effect a s))) (map snd order))"
    using Cons.IH [OF b d ea] by blast
  have "hit (snd (effect a s)) i = hit (snd s) i" if i: "i \<in> set (map snd order)" for i
  proof -
    obtain c where c: "c \<in> set order" "i = snd c" using i by auto
    then have "snd a \<noteq> snd c" using Cons.prems(2) by force
    then show ?thesis using effect_hit [OF a _ _ Cons.prems(3)] b c by blast
  qed
  then have "filter (hit (snd (effect a s))) (map snd order) = filter (hit (snd s)) (map snd order)"
    by (rule filter_cong [OF refl])
  moreover have "sum_list (fst (effect a s)) = sum_list (fst s) + (if hit (snd s) (snd a) then 1 else 0)"
  proof -
    have "fst a < length (fst s)" using a Cons.prems(3) by (simp add: in_block_def sized_def)
    then show ?thesis by (simp add: effect_fst sum_list_update elem_le_sum_list)
  qed
  ultimately show ?case using s' step [OF a Cons.prems(3)] by simp
qed simp

text \<open>The number of elements \<open>Leader::run\<close> finds, whatever the schedule of its threads.\<close>

lemma run_counts:
  assumes "usable" and "0 < numCores L" and "length sh = numOfBins L * maskSizeInBytes L"
  shows "\<exists>sh'. settles (Leader_run check L sh) (threadCount L) (setSize L) (length (filter (hit sh) [0..<setSize L]), sh')"
proof -
  let ?order = "concat (check_queues L)" and ?s = "(replicate (threadCount L) 0, sh)"
  note blocks = iterations_in_block [OF assms(1)] and its = iterations [OF assms(1,2)]
  have s: "sized ?s" using assms(3) by (simp add: sized_def)
  obtain s' where s': "rfold (checkElement check L) ?order ?s = Ok s'"
    "sum_list (fst s') = length (filter (hit sh) [0..<setSize L])"
    using sequential_hits [of ?order ?s] blocks its s by (auto simp: sum_list_replicate)
  have "length ?order = setSize L" using arg_cong [OF its, of length] by simp
  moreover have "shares fst (threadCount L) ?order = check_queues L"
    unfolding check_queues_def by (rule shares_blocks)
  ultimately have "agrees (checkElement check L) (check_queues L) ?s (setSize L) s'"
    using shares_agree [OF s'(1) blocks s] by simp
  then have "settles (\<lambda>sch. spawn_join (checkElement check L) sch (check_queues L) ?s) (threadCount L) (setSize L) s'"
    by (rule agrees_settles) (simp add: check_queues_def)
  then have "settles (Leader_run check L sh) (threadCount L) (setSize L) (sum_list (fst s'), snd s')"
    unfolding Leader_run_def by (rule settles_bind) (simp add: split_beta)
  then show ?thesis using s'(2) by auto
qed

end

section \<open>The naive strategies\<close>

definition naive_good ::
  "('a NaiveLeader_scheme \<Rightarrow> nat \<Rightarrow> nat \<Rightarrow> nat list) \<Rightarrow> 'a NaiveLeader_scheme \<Rightarrow> nat \<Rightarrow> nat \<Rightarrow> nat \<Rightarrow> nat \<Rightarrow> bool" where
  "naive_good rng L i bin table h \<longleftrightarrow> results_reach L (rng L h bin) \<and> leader_reach L table"

text \<open>The masks of every party that the search tries, in the order of the parties.\<close>

definition party_masks ::
  "('a NaiveLeader_scheme \<Rightarrow> nat \<Rightarrow> nat \<Rightarrow> nat list) \<Rightarrow> 'a NaiveLeader_scheme \<Rightarrow> nat \<Rightarrow> nat \<Rightarrow> bytes list list" where
  "party_masks rng L h bin = map (masks_of L (rng L h bin)) [2..<length (parties L) + 2]"

definition naive_matches ::
  "('a NaiveLeader_scheme \<Rightarrow> nat \<Rightarrow> nat \<Rightarrow> nat list) \<Rightarrow> 'a NaiveLeader_scheme \<Rightarrow>
   nat \<Rightarrow> nat \<Rightarrow> nat \<Rightarrow> nat \<Rightarrow> bytes \<Rightarrow> bool" where
  "naive_matches rng L i bin table h s \<longleftrightarrow>
     cancels (party_masks rng L h bin) (bxors s (map (leader_mask L table) (parties L)))"

text \<open>Element \<open>i\<close> counts: one mask of each party, the leader's masks and its share of the bin XOR to zero.\<close>

definition in_all_sets ::
  "('a NaiveLeader_scheme \<Rightarrow> nat \<Rightarrow> nat \<Rightarrow> nat list) \<Rightarrow> 'a NaiveLeader_scheme \<Rightarrow> bytes \<Rightarrow> nat \<Rightarrow> bool" where
  "in_all_sets rng L sh i \<longleftrightarrow> placed_element L i \<and>
     (\<exists>choice. list_all2 (\<lambda>m ms. m \<in> set ms) choice (party_masks rng L (hashedBy (hashInfo L ! i)) (bin_of L i)) \<and>
        bxors (chunk (maskSizeInBytes L) sh (bin_of L i))
          (map (leader_mask L (nat (tableIndex (hashInfo L ! i)))) (parties L) @ choice) =
        replicate (maskSizeInBytes L) 0)"

interpretation naive: leader_strategy L "isElementInAllSets rng" "naive_good rng L" "naive_matches rng L"
  for L :: "'a NaiveLeader_scheme" and rng
proof
  fix i b t h and s :: bytes
  assume "naive_good rng L i b t h" and s: "length s = maskSizeInBytes L"
  then have r: "results_reach L (rng L h b)" and l: "leader_reach L t" by (simp_all add: naive_good_def)
  note m = leader_masks_ok [OF l s]
  obtain s' where "isZeroXOR L (rng L) 2 h b (bxors s (map (leader_mask L t) (parties L))) =
      Ok (s', naive_matches rng L i b t h s)" "length s' = maskSizeInBytes L"
    using isZeroXOR_ok [of L "rng L" h b 2] r m unfolding naive_matches_def party_masks_def by blast
  then show "\<exists>s'. isElementInAllSets rng L i b t h s = Ok (s', naive_matches rng L i b t h s) \<and> length s' = maskSizeInBytes L"
    using m by (simp add: isElementInAllSets_def)
qed

lemma party_masks_length:
  assumes r: "results_reach L (rng L h b)" and ms: "ms \<in> set (party_masks rng L h b)" and m: "m \<in> set ms"
  shows "length m = maskSizeInBytes L"
proof -
  obtain p where p: "p \<in> {2..<length (parties L) + 2}" "ms = masks_of L (rng L h b) p"
    using ms unfolding party_masks_def set_map set_upt by blast
  have "p \<in> {2..length (parties L) + 1}" using p(1) by simp
  moreover obtain i where i: "i \<in> set (rng L h b)" "m = chunk (maskSizeInBytes L) (the (partiesResults L p)) i"
    using m unfolding p(2) masks_of_def by auto
  ultimately obtain res k where "partiesResults L p = Some res" "length res = k * maskSizeInBytes L" "i < k"
    using r unfolding results_reach_def by blast
  then show ?thesis using i(2) length_chunk by simp
qed

lemma naive_hit:
  assumes "hash_info_ok L (naive_good rng L)" and "i < setSize L" and "length sh = numOfBins L * maskSizeInBytes L"
  shows "leader_strategy.hit L (naive_matches rng L) sh i = in_all_sets rng L sh i"
proof (cases "placed_element L i")
  case True
  let ?h = "hashedBy (hashInfo L ! i)" and ?s = "chunk (maskSizeInBytes L) sh (bin_of L i)"
  have b: "bin_of L i < numOfBins L" "results_reach L (rng L ?h (bin_of L i))" "leader_reach L (nat (tableIndex (hashInfo L ! i)))"
    using assms(1,2) True by (auto simp: hash_info_ok_def naive_good_def)
  note m = leader_masks_ok [OF b(3) length_chunk [OF assms(3) b(1)]]
  show ?thesis
    using cancels_choice [where mss = "party_masks rng L ?h (bin_of L i)"] party_masks_length [where rng = rng, OF b(2)] m True
    by (simp add: naive.hit_def naive_matches_def in_all_sets_def)
qed (simp add: naive.hit_def in_all_sets_def)

lemma naive_run_counts:
  assumes "hash_info_ok L (naive_good rng L)" and "0 < numCores L" and "length sh = numOfBins L * maskSizeInBytes L"
  shows "\<exists>sh'. settles (Leader_run (isElementInAllSets rng) L sh) (threadCount L) (setSize L)
    (card {i. i < setSize L \<and> in_all_sets rng L sh i}, sh')"
proof -
  have "filter (leader_strategy.hit L (naive_matches rng L) sh) [0..<setSize L] = filter (in_all_sets rng L sh) [0..<setSize L]"
    using naive_hit [OF assms(1) _ assms(3)] by (intro filter_cong) auto
  then have "length (filter (leader_strategy.hit L (naive_matches rng L) sh) [0..<setSize L]) = card {i. i < setSize L \<and> in_all_sets rng L sh i}"
    by (simp add: length_filter_conv_card cong: conj_cong)
  then show ?thesis using naive.run_counts [of L rng sh] assms by (simp add: naive.usable_def)
qed

text \<open>C8: \<open>Leader::run\<close> with a naive strategy (the trivial one or the one with bins, by \<open>rng\<close>) returns the
  number of the leader's elements that are placed in a bin and for which some choice of one received mask of each
  party XORs with the leader's masks and its secret share of the bin to zero. It does so for every number of threads and
  under every schedule that lets them finish, although the search changes the share in place.\<close>

theorem naive_leader_counts:
  assumes "hash_info_ok L (naive_good rng L)" and "0 < numCores L" and "length sh = numOfBins L * maskSizeInBytes L"
  shows "\<exists>sh'. settles (Leader_run (isElementInAllSets rng) L sh) (threadCount L) (setSize L)
    (card {i. i < setSize L \<and> in_all_sets rng L sh i}, sh')"
  by (rule naive_run_counts [OF assms])

text \<open>Two elements and one follower with one-byte masks: only the first one is matched.\<close>

definition tiny_leader :: NaiveLeader where
  "tiny_leader = \<lparr>leaderResults = [2 \<mapsto> [5, 4]],
     hashInfo = [\<lparr>binIndex = 1, tableIndex = 0, hashedBy = 0\<rparr>, \<lparr>binIndex = 0, tableIndex = 1, hashedBy = 0\<rparr>],
     numOfBins = 2, maskSizeInBytes = 1, setSize = 2, parties = [2], elements = [10, 11], elementSize = 1, numCores = 2,
     partiesResults = [2 \<mapsto> [9, 6]]\<rparr>"

lemma tiny_hit: "in_all_sets NaiveLeader_range tiny_leader [1, 3] i \<longleftrightarrow> i = 0" if "i < 2"
  using that by (auto simp: less_2_cases_iff in_all_sets_def tiny_leader_def placed_element_def bin_of_def
      party_masks_def masks_of_def NaiveLeader_range_def chunk_def leader_mask_def list_all2_Cons2 upt_rec bxor_def)

theorem naive_leader_counts_witness:
  "\<exists>sh'. settles (Leader_run (isElementInAllSets NaiveLeader_range) tiny_leader [1, 3]) 2 2 (1, sh')"
proof -
  have ok: "hash_info_ok tiny_leader (naive_good NaiveLeader_range tiny_leader)"
    by (auto simp: hash_info_ok_def tiny_leader_def threadCount_def less_2_cases_iff bin_of_def naive_good_def
        results_reach_def leader_reach_def NaiveLeader_range_def)
  have "{i. i < 2 \<and> in_all_sets NaiveLeader_range tiny_leader [1, 3] i} = {0}"
    using tiny_hit by auto
  then show ?thesis
    using naive_leader_counts [OF ok, of "[1, 3]"] by (simp add: tiny_leader_def threadCount_def)
qed

end
