(* ===== verification/Follower.thy ===== *)
theory Follower
  imports Leader
begin

text \<open>
  The followers of the multiparty protocol: \<open>Follower.h\<close> with the strategies
  \<open>NaiveFollower\<close>, \<open>SimpleHashingNaiveFollower\<close> and \<open>TwoPartyFollower\<close>, and
  \<open>xor_masks\<close> of \<open>ot-psi.cpp\<close>. A run returns what it sends to the leader.
\<close>

section \<open>The follower's set\<close>

record FollowerSet =
  fs_numOfElements :: nat
  fs_elements_to_hash_table :: "nat list"
  fs_numOfElementsInBin :: "nat list"
  fs_numOfBins :: nat
  fs_numOfHashFunctions :: nat
  fs_masks :: bytes
  fs_maskSizeInBytes :: nat
  fs_binToElementsToHashTable :: "nat list"
  fs_maxBinSize :: nat

text \<open>\<open>xor_masks\<close>: the masks of all entries of bin \<open>i\<close> get the share of bin \<open>i\<close>.\<close>

definition xor_masks :: "bytes \<Rightarrow> nat \<Rightarrow> bytes \<Rightarrow> nat \<Rightarrow> nat list \<Rightarrow> bytes res" where
  "xor_masks masks maskbytelen secretShare nbins nelesinbin =
     rbind (rfold (\<lambda>i (masks, k).
              rbind (rd nelesinbin i) (\<lambda>c.
              rfold (\<lambda>j (masks, k).
                rbind (XOR_bytes masks (k * maskbytelen) secretShare (i * maskbytelen) maskbytelen) (\<lambda>masks.
                Ok (masks, k + 1))) [0..<c] (masks, k)))
            [0..<nbins] (masks, 0)) (\<lambda>(masks, k). Ok masks)"

section \<open>The strategies\<close>

text \<open>\<open>send_masks(masks, nmasks, maskbytelen, sock)\<close>: the bytes handed to the socket.\<close>

definition send_masks :: "bytes \<Rightarrow> nat \<Rightarrow> nat \<Rightarrow> bytes res" where
  "send_masks masks nmasks maskbytelen = rd_blk masks 0 (nmasks * maskbytelen)"

text \<open>\<open>NaiveFollower::run\<close>; \<open>ordered\<close> is written from \<open>ptr\<close> on.\<close>

definition NaiveFollower_run :: "FollowerSet \<Rightarrow> bytes \<Rightarrow> bytes res" where
  "NaiveFollower_run F secretShare =
     (let n = fs_maskSizeInBytes F; h = fs_numOfHashFunctions F; m = fs_numOfElements F in
      rbind (xor_masks (fs_masks F) n secretShare (fs_numOfBins F) (fs_numOfElementsInBin F)) (\<lambda>masks.
      rbind (rfold (\<lambda>i. rfold (\<lambda>j (ordered, ptr).
               rbind (rd (fs_elements_to_hash_table F) (j * h + i)) (\<lambda>index.
               rbind (rd_blk masks (index * n) n) (\<lambda>v.
               rbind (wr_blk ordered ptr v) (\<lambda>ordered. Ok (ordered, ptr + n))))) [0..<m])
             [0..<h] (replicate (m * h * n) 0, 0)) (\<lambda>(ordered, ptr).
      send_masks ordered (m * h) n)))"

text \<open>
  \<open>SimpleHashingNaiveFollower::run\<close>. \<open>prg i len\<close> is the output of the \<open>i\<close>th call of
  \<open>getPRGBytes\<close>. A bin with more entries than \<open>maxBinSize\<close> for a hash function is only reported on
  \<open>cout\<close>; the copies go on into the next bins.
\<close>

definition fill_entry :: "FollowerSet \<Rightarrow> bytes \<Rightarrow> nat \<Rightarrow> nat \<Rightarrow> nat \<Rightarrow> bytes list \<times> nat list \<Rightarrow> (bytes list \<times> nat list) res" where
  "fill_entry F masks k progress i = (\<lambda>(random, counter).
     rbind (rd (fs_binToElementsToHashTable F) (progress + i)) (\<lambda>code.
     rbind (rassert (fs_numOfHashFunctions F \<noteq> 0)) (\<lambda>_.
     let hashIndex = code mod fs_numOfHashFunctions F in
     rbind (rd_blk masks ((progress + i) * fs_maskSizeInBytes F) (fs_maskSizeInBytes F)) (\<lambda>v.
     rbind (rd counter hashIndex) (\<lambda>c.
     rbind (rd random hashIndex) (\<lambda>buf.
     rbind (wr_blk buf ((k * fs_maxBinSize F + c) * fs_maskSizeInBytes F) v) (\<lambda>buf.
     rbind (wr random hashIndex buf) (\<lambda>random.
     rbind (wr counter hashIndex (c + 1)) (\<lambda>counter. Ok (random, counter))))))))))"

definition fill_bin :: "FollowerSet \<Rightarrow> bytes \<Rightarrow> nat \<Rightarrow> bytes list \<times> nat \<Rightarrow> (bytes list \<times> nat) res" where
  "fill_bin F masks k = (\<lambda>(random, progress).
     rbind (rd (fs_numOfElementsInBin F) k) (\<lambda>numOfElementsInBin.
     rbind (rfold (fill_entry F masks k progress) [0..<numOfElementsInBin]
              (random, replicate (fs_numOfHashFunctions F) 0)) (\<lambda>(random, counter).
     Ok (random, progress + numOfElementsInBin))))"

definition SimpleHashingNaiveFollower_run :: "FollowerSet \<Rightarrow> bytes \<Rightarrow> (nat \<Rightarrow> nat \<Rightarrow> bytes) \<Rightarrow> bytes res" where
  "SimpleHashingNaiveFollower_run F secretShare prg =
     (let n = fs_maskSizeInBytes F; h = fs_numOfHashFunctions F; rows = fs_numOfBins F * fs_maxBinSize F in
      rbind (xor_masks (fs_masks F) n secretShare (fs_numOfBins F) (fs_numOfElementsInBin F)) (\<lambda>masks.
      rbind (rfold (fill_bin F masks) [0..<fs_numOfBins F]
               (map (\<lambda>i. prg i (rows * n)) [0..<h], 0)) (\<lambda>(random, progress).
      rbind (rmap (\<lambda>i. rbind (rd random i) (\<lambda>buf. send_masks buf rows n)) [0..<h]) (\<lambda>sent. Ok (concat sent)))))"

definition TwoPartyFollower_run :: "FollowerSet \<Rightarrow> bytes res" where
  "TwoPartyFollower_run F =
     send_masks (fs_masks F) (fs_numOfElements F * fs_numOfHashFunctions F) (fs_maskSizeInBytes F)"

section \<open>Masking the entries\<close>

text \<open>The bin of every entry, in the order of the entries.\<close>

definition owners :: "nat list \<Rightarrow> nat \<Rightarrow> nat list" where
  "owners nelesinbin nbins = concat (map (\<lambda>b. replicate (nelesinbin ! b) b) [0..<nbins])"

lemma owners_Suc: "owners nele (Suc b) = owners nele b @ replicate (nele ! b) b"
  by (simp add: owners_def)

lemma owners_less: "p < length (owners nele nbins) \<Longrightarrow> owners nele nbins ! p < nbins"
proof -
  assume "p < length (owners nele nbins)"
  then have "owners nele nbins ! p \<in> set (owners nele nbins)" by (rule nth_mem)
  then show ?thesis by (auto simp: owners_def split: if_splits)
qed

lemma owners_mono: "a \<le> b \<Longrightarrow> length (owners nele a) \<le> length (owners nele b)"
  by (induction b) (auto simp: owners_Suc le_Suc_eq)

text \<open>The entries up to the length of \<open>os\<close> are masked with the shares of the bins in \<open>os\<close>.\<close>

definition masked :: "nat \<Rightarrow> nat \<Rightarrow> bytes \<Rightarrow> bytes \<Rightarrow> nat list \<Rightarrow> bytes \<times> nat \<Rightarrow> bool" where
  "masked n tot masks sh os = (\<lambda>(m, k). k = length os \<and> length m = tot * n \<and>
     (\<forall>p<tot. chunk n m p = (if p < length os then bxor (chunk n masks p) (chunk n sh (os ! p)) else chunk n masks p)))"

lemma masked_step:
  assumes m: "masked n tot masks sh os (m, k)" and k: "length os < tot"
    and sh: "length sh = nbins * n" "b < nbins"
  shows "\<exists>m'. XOR_bytes m (k * n) sh (b * n) n = Ok m' \<and> masked n tot masks sh (os @ [b]) (m', k + 1)"
proof -
  have len: "length m = tot * n" "k = length os" using m by (auto simp: masked_def)
  note fits = chunk_fits [OF len(1) k] chunk_fits [OF sh]
  let ?v = "bxor (chunk n m k) (chunk n sh b)"
  have v: "length ?v = n" using length_chunk [OF len(1) k] length_chunk [OF sh] len(2) by simp
  have "XOR_bytes m (k * n) sh (b * n) n = Ok (blit m (k * n) ?v)"
    using XOR_bytes_ok [of "k * n" n m "b * n" sh] fits len(2) by (simp add: chunk_def)
  moreover have "masked n tot masks sh (os @ [b]) (blit m (k * n) ?v, k + 1)"
    using m k v fits len chunk_blit [OF len(1) k _ v] by (auto simp: masked_def nth_append less_Suc_eq)
  ultimately show ?thesis by blast
qed

lemma xor_masks_ok:
  assumes masks: "length masks = length (owners nele nbins) * n"
    and nele: "nbins \<le> length nele" and sh: "length sh = nbins * n"
  shows "\<exists>m. xor_masks masks n sh nbins nele = Ok m \<and> length m = length masks \<and>
    (\<forall>p<length (owners nele nbins). chunk n m p = bxor (chunk n masks p) (chunk n sh (owners nele nbins ! p)))"
proof -
  let ?N = "length (owners nele nbins)" and ?P = "masked n (length (owners nele nbins)) masks sh"
  let ?g = "\<lambda>i j (masks, k). rbind (XOR_bytes masks (k * n) sh (i * n) n) (\<lambda>masks. Ok (masks, k + 1))"
  have "\<exists>s. rfold (\<lambda>i (masks, k). rbind (rd nele i) (\<lambda>c. rfold (?g i) [0..<c] (masks, k))) [0..<nbins] (masks, 0) = Ok s \<and>
      ?P (owners nele nbins) s"
  proof (rule rfold_upt_inv [where P = "\<lambda>i. ?P (owners nele i)"])
    show "?P (owners nele 0) (masks, 0)" using masks by (simp add: masked_def owners_def)
    fix i s assume i: "i < nbins" and s: "?P (owners nele i) s"
    have le: "length (owners nele (Suc i)) \<le> ?N" using i by (intro owners_mono) simp
    have "\<exists>s'. rfold (?g i) [0..<nele ! i] s = Ok s' \<and> ?P (owners nele i @ replicate (nele ! i) i) s'"
    proof (rule rfold_upt_inv [where P = "\<lambda>j. ?P (owners nele i @ replicate j i)"])
      fix j s assume j: "j < nele ! i" and s: "?P (owners nele i @ replicate j i) s"
      obtain m k where mk: "s = (m, k)" by (cases s)
      obtain m' where "XOR_bytes m (k * n) sh (i * n) n = Ok m'" "?P ((owners nele i @ replicate j i) @ [i]) (m', k + 1)"
        using masked_step [OF s [unfolded mk] _ sh i] j le by (auto simp: owners_Suc)
      then show "\<exists>s'. ?g i j s = Ok s' \<and> ?P (owners nele i @ replicate (Suc j) i) s'"
        by (simp add: mk replicate_append_same [symmetric])
    qed (use s in simp_all)
    then show "\<exists>s'. (case s of (masks, k) \<Rightarrow> rbind (rd nele i) (\<lambda>c. rfold (?g i) [0..<c] (masks, k))) = Ok s' \<and>
        ?P (owners nele (Suc i)) s'"
      using i nele by (simp add: owners_Suc split: prod.split)
  qed simp
  then show ?thesis using masks by (auto simp: xor_masks_def masked_def)
qed

section \<open>What the naive follower sends\<close>

definition masked_set :: "FollowerSet \<Rightarrow> bytes \<Rightarrow> nat \<Rightarrow> bytes" where
  "masked_set F sh p = bxor (chunk (fs_maskSizeInBytes F) (fs_masks F) p)
     (chunk (fs_maskSizeInBytes F) sh (owners (fs_numOfElementsInBin F) (fs_numOfBins F) ! p))"

text \<open>The arrays of the set fit each other.\<close>

definition follower_fits :: "FollowerSet \<Rightarrow> bytes \<Rightarrow> bool" where
  "follower_fits F sh \<longleftrightarrow> fs_numOfBins F \<le> length (fs_numOfElementsInBin F) \<and>
     length (owners (fs_numOfElementsInBin F) (fs_numOfBins F)) = fs_numOfElements F * fs_numOfHashFunctions F \<and>
     length (fs_masks F) = fs_numOfElements F * fs_numOfHashFunctions F * fs_maskSizeInBytes F \<and>
     length sh = fs_numOfBins F * fs_maskSizeInBytes F \<and>
     (\<forall>c<fs_numOfElements F * fs_numOfHashFunctions F. c < length (fs_elements_to_hash_table F) \<and>
        fs_elements_to_hash_table F ! c < fs_numOfElements F * fs_numOfHashFunctions F)"

lemma follower_masked:
  assumes "follower_fits F sh"
  shows "\<exists>m. xor_masks (fs_masks F) (fs_maskSizeInBytes F) sh (fs_numOfBins F) (fs_numOfElementsInBin F) = Ok m \<and>
    length m = fs_numOfElements F * fs_numOfHashFunctions F * fs_maskSizeInBytes F \<and>
    (\<forall>p<fs_numOfElements F * fs_numOfHashFunctions F. chunk (fs_maskSizeInBytes F) m p = masked_set F sh p)"
  using xor_masks_ok [of "fs_masks F" "fs_numOfElementsInBin F" "fs_numOfBins F" "fs_maskSizeInBytes F" sh] assms
  by (auto simp: follower_fits_def masked_set_def)

lemma code_less: "(j::nat) < m \<Longrightarrow> i < h \<Longrightarrow> j * h + i < m * h"
  by (metis add_less_cancel_left less_le_trans mult_Suc mult_le_mono1 Suc_leI add.commute)

lemma NaiveFollower_ok:
  assumes F: "follower_fits F sh"
  shows "\<exists>sent. NaiveFollower_run F sh = Ok sent \<and>
    length sent = fs_numOfElements F * fs_numOfHashFunctions F * fs_maskSizeInBytes F \<and>
    (\<forall>i<fs_numOfHashFunctions F. \<forall>j<fs_numOfElements F. chunk (fs_maskSizeInBytes F) sent (i * fs_numOfElements F + j) =
       masked_set F sh (fs_elements_to_hash_table F ! (j * fs_numOfHashFunctions F + i)))"
proof -
  define n h m where "n = fs_maskSizeInBytes F" and "h = fs_numOfHashFunctions F" and "m = fs_numOfElements F"
  note abbr = n_def [symmetric] h_def [symmetric] m_def [symmetric]
  obtain masks where masks: "xor_masks (fs_masks F) n sh (fs_numOfBins F) (fs_numOfElementsInBin F) = Ok masks"
    "length masks = m * h * n" "\<And>p. p < m * h \<Longrightarrow> chunk n masks p = masked_set F sh p"
    using follower_masked [OF F] unfolding abbr by blast
  let ?e = "\<lambda>i j. fs_elements_to_hash_table F ! (j * h + i)"
  have e: "j * h + i < length (fs_elements_to_hash_table F)" "?e i j < m * h" if "i < h" "j < m" for i j
    using F code_less [OF that(2,1)] by (auto simp: follower_fits_def abbr)
  define P where "P = (\<lambda>c (ordered, ptr). ptr = c * n \<and> length ordered = m * h * n \<and>
    (\<forall>q<c. chunk n ordered q = masked_set F sh (?e (q div m) (q mod m))))"
  let ?g = "\<lambda>i j (ordered, ptr). rbind (rd (fs_elements_to_hash_table F) (j * h + i)) (\<lambda>index.
      rbind (rd_blk masks (index * n) n) (\<lambda>v. rbind (wr_blk ordered ptr v) (\<lambda>ordered. Ok (ordered, ptr + n))))"
  have step: "\<exists>s'. ?g i j s = Ok s' \<and> P (i * m + Suc j) s'" if i: "i < h" and j: "j < m" and s: "P (i * m + j) s" for i j s
  proof -
    obtain ordered ptr where op: "s = (ordered, ptr)" by (cases s)
    have c: "i * m + j < m * h" using code_less [OF i j] by (simp add: mult.commute)
    have len: "length ordered = m * h * n" "ptr = (i * m + j) * n" using s by (auto simp: P_def op)
    note fo = chunk_fits [OF len(1) c] and fm = chunk_fits [OF masks(2) e(2) [OF i j]]
    have rd: "rd_blk masks (?e i j * n) n = Ok (masked_set F sh (?e i j))" and lv: "length (masked_set F sh (?e i j)) = n"
      using fm masks(3) [OF e(2) [OF i j]] length_chunk [OF masks(2) e(2) [OF i j]] by (simp_all add: chunk_def)
    have "chunk n (blit ordered ptr (masked_set F sh (?e i j))) q = masked_set F sh (?e (q div m) (q mod m))"
      if "q < i * m + Suc j" for q
      using that s j lv c chunk_blit [OF len(1) c, of q "masked_set F sh (?e i j)"] by (auto simp: P_def op less_Suc_eq)
    then show ?thesis using rd lv fo len e(1) [OF i j] by (auto simp: P_def op)
  qed
  have "\<exists>s'. rfold (\<lambda>i. rfold (?g i) [0..<m]) [0..<h] (replicate (m * h * n) 0, 0) = Ok s' \<and> P (h * m) s'"
  proof (rule rfold_upt_inv [where P = "\<lambda>i. P (i * m)"])
    fix i s assume i: "i < h" and s: "P (i * m) s"
    have "\<exists>s'. rfold (?g i) [0..<m] s = Ok s' \<and> P (i * m + m) s'"
      by (rule rfold_upt_inv [where P = "\<lambda>j. P (i * m + j)"]) (use s step i in auto)
    then show "\<exists>s'. rfold (?g i) [0..<m] s = Ok s' \<and> P (Suc i * m) s'" by (simp add: add.commute)
  qed (simp_all add: P_def)
  then obtain sent where run: "rfold (\<lambda>i. rfold (?g i) [0..<m]) [0..<h] (replicate (m * h * n) 0, 0) = Ok (sent, h * m * n)"
    and sent: "length sent = m * h * n" "\<And>q. q < h * m \<Longrightarrow> chunk n sent q = masked_set F sh (?e (q div m) (q mod m))"
    by (auto simp: P_def)
  have "chunk n sent (i * m + j) = masked_set F sh (?e i j)" if "i < h" "j < m" for i j
    using sent(2) [OF code_less [OF that]] that by simp
  moreover have "NaiveFollower_run F sh = Ok sent"
    using run masks(1) sent(1) by (simp add: NaiveFollower_run_def Let_def abbr send_masks_def)
  ultimately show ?thesis using sent(1) unfolding abbr by blast
qed

section \<open>What the simple-hashing follower sends\<close>

text \<open>The hash function of entry \<open>p\<close>, and how many entries of its bin it shares it with before \<open>p\<close>.\<close>

definition entry_function :: "FollowerSet \<Rightarrow> nat \<Rightarrow> nat" where
  "entry_function F p = fs_binToElementsToHashTable F ! p mod fs_numOfHashFunctions F"

definition entry_bin :: "FollowerSet \<Rightarrow> nat \<Rightarrow> nat" where
  "entry_bin F p = owners (fs_numOfElementsInBin F) (fs_numOfBins F) ! p"

definition entries_before :: "FollowerSet \<Rightarrow> nat \<Rightarrow> nat \<Rightarrow> nat \<Rightarrow> nat" where
  "entries_before F b i p = length (filter (\<lambda>q. entry_bin F q = b \<and> entry_function F q = i) [0..<p])"

definition entry_rank :: "FollowerSet \<Rightarrow> nat \<Rightarrow> nat" where
  "entry_rank F p = entries_before F (entry_bin F p) (entry_function F p) p"

text \<open>No bin has more than \<open>maxBinSize\<close> entries for one hash function.\<close>

definition bins_suffice :: "FollowerSet \<Rightarrow> bool" where
  "bins_suffice F \<longleftrightarrow> (\<forall>p<fs_numOfElements F * fs_numOfHashFunctions F.
     p < length (fs_binToElementsToHashTable F) \<and> entry_rank F p < fs_maxBinSize F)"

lemma entries_before_Suc:
  "entries_before F b i (Suc p) = entries_before F b i p + (if entry_bin F p = b \<and> entry_function F p = i then 1 else 0)"
  by (simp add: entries_before_def)

lemma entries_before_less:
  assumes "q < p" and "entry_bin F q = b" and "entry_function F q = i"
  shows "entry_rank F q < entries_before F b i p"
proof -
  have "entries_before F b i (Suc q) \<le> entries_before F b i p"
  proof -
    have "[0..<p] = [0..<Suc q] @ [Suc q..<p]" using assms(1) by (metis Suc_leI le_add_diff_inverse upt_add_eq_append zero_le)
    then show ?thesis unfolding entries_before_def by simp
  qed
  then show ?thesis using assms(2,3) by (simp add: entries_before_Suc entry_rank_def)
qed

definition filled :: "FollowerSet \<Rightarrow> bytes \<Rightarrow> nat \<Rightarrow> bytes list \<Rightarrow> bool" where
  "filled F sh p random \<longleftrightarrow> length random = fs_numOfHashFunctions F \<and>
     (\<forall>i<fs_numOfHashFunctions F. length (random ! i) = fs_numOfBins F * fs_maxBinSize F * fs_maskSizeInBytes F) \<and>
     (\<forall>q<p. chunk (fs_maskSizeInBytes F) (random ! entry_function F q) (entry_bin F q * fs_maxBinSize F + entry_rank F q) =
        masked_set F sh q)"

lemma filled_step:
  assumes r: "filled F sh p random" and b: "bins_suffice F" and p: "p < fs_numOfElements F * fs_numOfHashFunctions F"
    and bin: "entry_bin F p < fs_numOfBins F" and h: "0 < fs_numOfHashFunctions F"
    and v: "length (masked_set F sh p) = fs_maskSizeInBytes F"
  defines "n \<equiv> fs_maskSizeInBytes F" and "row \<equiv> entry_bin F p * fs_maxBinSize F + entry_rank F p"
    and "buf \<equiv> random ! entry_function F p"
  shows "row * n + n \<le> length buf \<and> filled F sh (Suc p) (random[entry_function F p := blit buf (row * n) (masked_set F sh p)])"
proof -
  have i: "entry_function F p < fs_numOfHashFunctions F" using h by (simp add: entry_function_def)
  have rank: "entry_rank F p < fs_maxBinSize F" using b p by (simp add: bins_suffice_def)
  have row: "row < fs_numOfBins F * fs_maxBinSize F" unfolding row_def by (rule code_less [OF bin rank])
  have len: "length buf = fs_numOfBins F * fs_maxBinSize F * n" using r i by (simp add: filled_def buf_def n_def)
  note fits = chunk_fits [OF len row]
  have lv: "length (masked_set F sh p) = n" using v by (simp add: n_def)
  have "chunk n ((random[entry_function F p := blit buf (row * n) (masked_set F sh p)]) ! entry_function F q)
      (entry_bin F q * fs_maxBinSize F + entry_rank F q) = masked_set F sh q" if q: "q < Suc p" for q
  proof (cases "q = p")
    case True
    then show ?thesis using r i chunk_blit [OF len row row lv] by (simp add: filled_def row_def)
  next
    case False
    then have qp: "q < p" using q by simp
    then have old: "chunk n (random ! entry_function F q) (entry_bin F q * fs_maxBinSize F + entry_rank F q) = masked_set F sh q"
      using r by (simp add: filled_def n_def)
    show ?thesis
    proof (cases "entry_function F q = entry_function F p")
      case same: True
      have rq: "entry_rank F q < fs_maxBinSize F" using b p qp by (simp add: bins_suffice_def)
      have ne: "entry_bin F q * fs_maxBinSize F + entry_rank F q \<noteq> row"
      proof (cases "entry_bin F q = entry_bin F p")
        case True
        then show ?thesis using entries_before_less [OF qp True same] by (simp add: row_def entry_rank_def)
      next
        case False
        have "(entry_bin F q * fs_maxBinSize F + entry_rank F q) div fs_maxBinSize F = entry_bin F q"
          "row div fs_maxBinSize F = entry_bin F p" using rq rank by (simp_all add: row_def)
        then show ?thesis using False by auto
      qed
      have "chunk n (blit buf (row * n) (masked_set F sh p)) (entry_bin F q * fs_maxBinSize F + entry_rank F q) =
          chunk n buf (entry_bin F q * fs_maxBinSize F + entry_rank F q)"
      proof (cases "entry_bin F q < fs_numOfBins F")
        case True
        then show ?thesis using chunk_blit [OF len row code_less [OF True rq] lv] ne by simp
      next
        case False
        then have le: "fs_numOfBins F * fs_maxBinSize F \<le> entry_bin F q * fs_maxBinSize F" by simp
        have "length buf \<le> (entry_bin F q * fs_maxBinSize F + entry_rank F q) * n"
          unfolding len by (rule mult_le_mono1 [OF trans_le_add1 [OF le]])
        then show ?thesis using fits lv by (simp add: chunk_def)
      qed
      then show ?thesis using old same r i by (simp add: filled_def buf_def)
    qed (use old in simp)
  qed
  then show ?thesis using r i fits lv by (auto simp: filled_def n_def nth_list_update buf_def)
qed

lemma owners_prefix: "a \<le> b \<Longrightarrow> q < length (owners nele a) \<Longrightarrow> owners nele b ! q = owners nele a ! q"
proof (induction b)
  case (Suc b)
  then show ?case using owners_mono [of a b nele] by (cases "a = Suc b") (simp_all add: owners_Suc nth_append le_Suc_eq)
qed simp

text \<open>The state of the loop over the entries of bin \<open>k\<close> before entry \<open>p\<close>.\<close>

definition counted :: "FollowerSet \<Rightarrow> bytes \<Rightarrow> nat \<Rightarrow> nat \<Rightarrow> bytes list \<times> nat list \<Rightarrow> bool" where
  "counted F sh k p = (\<lambda>(random, counter). filled F sh p random \<and> length counter = fs_numOfHashFunctions F \<and>
     (\<forall>i<fs_numOfHashFunctions F. counter ! i = entries_before F k i p))"

lemma fill_entry_ok:
  assumes b: "bins_suffice F" and h: "0 < fs_numOfHashFunctions F"
    and p: "progress + i < fs_numOfElements F * fs_numOfHashFunctions F" "entry_bin F (progress + i) = k" "k < fs_numOfBins F"
    and masks: "length masks = fs_numOfElements F * fs_numOfHashFunctions F * fs_maskSizeInBytes F"
      "chunk (fs_maskSizeInBytes F) masks (progress + i) = masked_set F sh (progress + i)"
    and s: "counted F sh k (progress + i) s"
  shows "\<exists>s'. fill_entry F masks k progress i s = Ok s' \<and> counted F sh k (Suc (progress + i)) s'"
proof -
  define q where "q = progress + i"
  let ?n = "fs_maskSizeInBytes F" and ?f = "entry_function F q" and ?r = "entry_rank F q"
  obtain random counter where rc: "s = (random, counter)" by (cases s)
  have f: "?f < fs_numOfHashFunctions F" using h by (simp add: entry_function_def)
  have c: "counter ! ?f = ?r" "length counter = fs_numOfHashFunctions F" "filled F sh q random"
    using s f p(2) by (simp_all add: counted_def rc entry_rank_def q_def)
  note p' = p(1,2) [folded q_def] and m = masks(2) [folded q_def]
  have v: "rd_blk masks (q * ?n) ?n = Ok (masked_set F sh q)" "length (masked_set F sh q) = ?n"
    using chunk_fits [OF masks(1) p'(1)] m length_chunk [OF masks(1) p'(1)] by (simp_all add: chunk_def)
  let ?R = "random[?f := blit (random ! ?f) ((k * fs_maxBinSize F + ?r) * ?n) (masked_set F sh q)]"
  have st: "(k * fs_maxBinSize F + ?r) * ?n + ?n \<le> length (random ! ?f) \<and> filled F sh (Suc q) ?R"
    using filled_step [OF c(3) b p'(1) _ h v(2)] p(3) unfolding p'(2) by blast
  have "length random = fs_numOfHashFunctions F" using c(3) by (simp add: filled_def)
  moreover have "q < length (fs_binToElementsToHashTable F)" using b p'(1) by (simp add: bins_suffice_def)
  ultimately have "fill_entry F masks k progress i s = Ok (?R, counter[?f := ?r + 1])"
    using h v st c f by (simp add: rc fill_entry_def q_def [symmetric] Let_def rassert_def entry_function_def)
  moreover have "counted F sh k (Suc q) (?R, counter[?f := ?r + 1])"
    using st s c f p'(2) by (auto simp: counted_def rc q_def [symmetric] entries_before_Suc nth_list_update)
  ultimately show ?thesis unfolding q_def by blast
qed

lemma fill_bin_ok:
  assumes F: "follower_fits F sh" and b: "bins_suffice F" and h: "0 < fs_numOfHashFunctions F" and k: "k < fs_numOfBins F"
    and masks: "length masks = fs_numOfElements F * fs_numOfHashFunctions F * fs_maskSizeInBytes F"
      "\<And>p. p < fs_numOfElements F * fs_numOfHashFunctions F \<Longrightarrow> chunk (fs_maskSizeInBytes F) masks p = masked_set F sh p"
    and r: "filled F sh (length (owners (fs_numOfElementsInBin F) k)) random"
  shows "\<exists>random'. fill_bin F masks k (random, length (owners (fs_numOfElementsInBin F) k)) =
      Ok (random', length (owners (fs_numOfElementsInBin F) (Suc k))) \<and>
    filled F sh (length (owners (fs_numOfElementsInBin F) (Suc k))) random'"
proof -
  let ?own = "owners (fs_numOfElementsInBin F)" and ?N = "fs_numOfElements F * fs_numOfHashFunctions F"
  let ?l = "length (?own k)" and ?c = "fs_numOfElementsInBin F ! k"
  have N: "length (?own (fs_numOfBins F)) = ?N" using F by (simp add: follower_fits_def)
  have le: "?l + ?c \<le> ?N" using owners_mono [of "Suc k" "fs_numOfBins F" "fs_numOfElementsInBin F"] k N by (simp add: owners_Suc)
  have at: "entry_bin F q = ?own (Suc k) ! q" if "q < ?l + ?c" for q
    using owners_prefix [of "Suc k" "fs_numOfBins F" q "fs_numOfElementsInBin F"] k that by (simp add: entry_bin_def owners_Suc)
  have "\<exists>s. rfold (fill_entry F masks k ?l) [0..<?c] (random, replicate (fs_numOfHashFunctions F) 0) = Ok s \<and>
      counted F sh k (?l + ?c) s"
  proof (rule rfold_upt_inv [where P = "\<lambda>j. counted F sh k (?l + j)"])
    have "entry_bin F q \<noteq> k" if "q < ?l" for q
    proof -
      have "entry_bin F q = ?own k ! q" using at [of q] that by (simp add: owners_Suc nth_append)
      then show ?thesis using owners_less [OF that] by simp
    qed
    then have "entries_before F k i ?l = 0" for i by (simp add: entries_before_def filter_empty_conv)
    then show "counted F sh k (?l + 0) (random, replicate (fs_numOfHashFunctions F) 0)" using r by (simp add: counted_def)
  next
    fix j s assume j: "j < ?c" and s: "counted F sh k (?l + j) s"
    have p: "?l + j < ?N" using le j by simp
    have "entry_bin F (?l + j) = k" using at [of "?l + j"] j by (simp add: owners_Suc nth_append)
    then show "\<exists>s'. fill_entry F masks k ?l j s = Ok s' \<and> counted F sh k (?l + Suc j) s'"
      using fill_entry_ok [OF b h p _ k masks(1) masks(2) [OF p] s] by simp
  qed simp
  then obtain random' counter where "rfold (fill_entry F masks k ?l) [0..<?c] (random, replicate (fs_numOfHashFunctions F) 0) =
      Ok (random', counter)" "filled F sh (?l + ?c) random'" by (auto simp: counted_def)
  moreover have "k < length (fs_numOfElementsInBin F)" using F k by (simp add: follower_fits_def)
  ultimately show ?thesis by (simp add: fill_bin_def owners_Suc)
qed

lemma chunk_rows:
  assumes "\<And>i. i < h \<Longrightarrow> length (R i) = rows * n" and "i < h" and "row < rows"
  shows "chunk n (concat (map R [0..<h])) (i * rows + row) = chunk n (R i) row"
proof -
  have "row * n + n \<le> rows * n" using chunk_fits [of "R i" rows n row] assms by simp
  then have "chunk n buf (i * rows + row) = chunk n (chunk (rows * n) buf i) row" for buf
    by (simp add: chunk_def take_drop min_absorb1 algebra_simps)
  then show ?thesis using chunk_concat [of h R "rows * n" i] assms(1,2) by simp
qed

lemma SimpleHashingNaiveFollower_ok:
  assumes F: "follower_fits F sh" and b: "bins_suffice F" and h: "0 < fs_numOfHashFunctions F"
    and prg: "\<And>i len. length (prg i len) = len"
  shows "\<exists>sent. SimpleHashingNaiveFollower_run F sh prg = Ok sent \<and>
    length sent = fs_numOfHashFunctions F * (fs_numOfBins F * fs_maxBinSize F) * fs_maskSizeInBytes F \<and>
    (\<forall>p<fs_numOfElements F * fs_numOfHashFunctions F. chunk (fs_maskSizeInBytes F) sent
       (entry_function F p * (fs_numOfBins F * fs_maxBinSize F) + (entry_bin F p * fs_maxBinSize F + entry_rank F p)) =
     masked_set F sh p)"
proof -
  let ?n = "fs_maskSizeInBytes F" and ?h = "fs_numOfHashFunctions F" and ?rows = "fs_numOfBins F * fs_maxBinSize F"
  let ?N = "fs_numOfElements F * ?h" and ?own = "owners (fs_numOfElementsInBin F)"
  obtain masks where masks: "xor_masks (fs_masks F) ?n sh (fs_numOfBins F) (fs_numOfElementsInBin F) = Ok masks"
    "length masks = ?N * ?n" "\<And>p. p < ?N \<Longrightarrow> chunk ?n masks p = masked_set F sh p"
    using follower_masked [OF F] by blast
  have N: "length (?own (fs_numOfBins F)) = ?N" using F by (simp add: follower_fits_def)
  let ?P = "\<lambda>k (random, progress). progress = length (?own k) \<and> filled F sh (length (?own k)) random"
  have "\<exists>s. rfold (fill_bin F masks) [0..<fs_numOfBins F] (map (\<lambda>i. prg i (?rows * ?n)) [0..<?h], 0) = Ok s \<and>
      ?P (fs_numOfBins F) s"
    by (rule rfold_upt_inv [where P = ?P])
      (use fill_bin_ok [OF F b h _ masks(2,3)] in \<open>auto simp: filled_def prg owners_def split: prod.split\<close>)
  then obtain random where run: "rfold (fill_bin F masks) [0..<fs_numOfBins F] (map (\<lambda>i. prg i (?rows * ?n)) [0..<?h], 0) = Ok (random, ?N)"
    and r: "filled F sh ?N random" by (auto simp: N)
  have lr: "length random = ?h" "\<And>i. i < ?h \<Longrightarrow> length (random ! i) = ?rows * ?n" using r by (simp_all add: filled_def)
  have "rmap (\<lambda>i. rbind (rd random i) (\<lambda>buf. send_masks buf ?rows ?n)) [0..<?h] = Ok (map (\<lambda>i. random ! i) [0..<?h])"
    using lr by (intro rmap_Ok) (simp add: send_masks_def)
  then have "SimpleHashingNaiveFollower_run F sh prg = Ok (concat (map (\<lambda>i. random ! i) [0..<?h]))"
    using masks(1) run by (simp add: SimpleHashingNaiveFollower_run_def Let_def)
  moreover have "length (concat (map (\<lambda>i. random ! i) [0..<?h])) = ?h * ?rows * ?n"
    using length_concat_same [of ?h "\<lambda>i. random ! i" "?rows * ?n"] lr(2) by (simp add: mult.assoc)
  moreover have "chunk ?n (concat (map (\<lambda>i. random ! i) [0..<?h]))
      (entry_function F p * ?rows + (entry_bin F p * fs_maxBinSize F + entry_rank F p)) = masked_set F sh p" if p: "p < ?N" for p
  proof -
    have "entry_bin F p < fs_numOfBins F" using owners_less [of p] p N by (simp add: entry_bin_def)
    then have "entry_bin F p * fs_maxBinSize F + entry_rank F p < ?rows"
      using b p by (intro code_less) (simp_all add: bins_suffice_def)
    then show ?thesis
      using chunk_rows [of ?h "\<lambda>i. random ! i" ?rows ?n] lr(2) r p h by (simp add: filled_def entry_function_def)
  qed
  ultimately show ?thesis by blast
qed

end
