(* ===== verification/SimpleHashing.thy ===== *)
theory SimpleHashing
  imports Hashing "HOL-Library.Multiset"
begin

text \<open>
  Simple hashing, the follower's side (\<open>src/PSI/src/hashing/simple_hashing.cpp\<close> and \<open>.h\<close>):
  every element is put into one bin for each of the three hash functions. The
  elements are split over \<open>ntasks\<close> threads; each fills a hash table of its own, so the
  threads share nothing but the hashing state they read, and the tables are merged bin by bin.
  \<open>malloc\<close>ed cells are zero here; the lemmas never rest on them.

  The lemmas refine the byte arrays of a bin to the list of its entries, and the merged
  arrays to the entries of all bins in order; \<open>elements_to_hash_table\<close> and
  \<open>bin_to_elements_to_hash_table\<close> are shown inverse to each other.
\<close>

section \<open>The tables\<close>

record bin_hash_ctx =
  bh_index :: nat
  bh_hashFunctionNum :: nat

record bin_ctx =
  bin_values :: bytes
  bin_indexes :: "bin_hash_ctx list"
  bin_nvals :: nat

record sht_ctx =
  sht_bins :: "bin_ctx list"
  sht_nbins :: nat
  sht_maxbinsize :: nat

record simple_hash_output =
  sho_hashed_elements :: bytes
  sho_res_bins :: bytes
  sho_nelesinbin :: "nat list"
  sho_elements_to_hash_table :: "nat list"
  sho_bin_to_elements_to_hash_table :: "nat list"

definition no_index :: bin_hash_ctx where "no_index = \<lparr>bh_index = 0, bh_hashFunctionNum = 0\<rparr>"

definition init_hash_table :: "nat \<Rightarrow> hs_t \<Rightarrow> sht_ctx" where
  "init_hash_table nelements hs =
     (let maxbinsize = (if ceil_divide nelements (hs_nbins hs) < 3 then 3 * max (ceil_log2 nelements) 3
                        else 6 * max (ceil_divide nelements (hs_nbins hs)) 3)
      in \<lparr>sht_bins = replicate (hs_nbins hs)
            \<lparr>bin_values = replicate (maxbinsize * outbytelen hs) 0,
             bin_indexes = replicate maxbinsize no_index, bin_nvals = 0\<rparr>,
          sht_nbins = hs_nbins hs, sht_maxbinsize = maxbinsize\<rparr>)"

definition increase_max_bin_size :: "sht_ctx \<Rightarrow> nat \<Rightarrow> sht_ctx res" where
  "increase_max_bin_size table valbytelen =
     (let new_maxsize = sht_maxbinsize table * 2 in
      rbind (rmap (\<lambda>i.
          rbind (rd (sht_bins table) i) (\<lambda>b.
          rbind (rd_blk (bin_values b) 0 (bin_nvals b * valbytelen)) (\<lambda>tmpvals.
          rbind (rd_blk (bin_indexes b) 0 (bin_nvals b)) (\<lambda>tmpindexes.
          rbind (wr_blk (replicate (new_maxsize * valbytelen) 0) 0 tmpvals) (\<lambda>values.
          rbind (wr_blk (replicate new_maxsize no_index) 0 tmpindexes) (\<lambda>indexes.
          Ok (b\<lparr>bin_values := values, bin_indexes := indexes\<rparr>)))))))
        [0..<sht_nbins table]) (\<lambda>bins.
      Ok (table\<lparr>sht_bins := bins, sht_maxbinsize := new_maxsize\<rparr>)))"

section \<open>Inserting an element\<close>

text \<open>The body of the loop over the hash functions.\<close>

definition insert_step :: "nat \<Rightarrow> nat list \<Rightarrow> bytes \<Rightarrow> nat \<Rightarrow> nat \<Rightarrow> sht_ctx \<Rightarrow> sht_ctx res" where
  "insert_step index address tmpbuf obytes i table =
     rbind (rd address i) (\<lambda>a.
     rbind (rd (sht_bins table) a) (\<lambda>b.
     rbind (rd_blk tmpbuf 0 obytes) (\<lambda>v.
     rbind (wr_blk (bin_values b) (bin_nvals b * obytes) v) (\<lambda>values.
     rbind (wr (bin_indexes b) (bin_nvals b) \<lparr>bh_index = index, bh_hashFunctionNum = i\<rparr>) (\<lambda>indexes.
     rbind (rfold (\<lambda>j values.
              rbind (rd address j) (\<lambda>aj.
              if a = aj then wr_blk values (bin_nvals b * obytes) (replicate obytes DUMMY_ENTRY_SERVER)
              else Ok values)) [0..<i] values) (\<lambda>values.
     let table = table\<lparr>sht_bins := (sht_bins table)[a :=
           \<lparr>bin_values = values, bin_indexes = indexes, bin_nvals = bin_nvals b + 1\<rparr>]\<rparr>
     in if bin_nvals b + 1 = sht_maxbinsize table then increase_max_bin_size table obytes
        else Ok table))))))"

definition insert_element ::
  "nat \<Rightarrow> sht_ctx \<Rightarrow> bytes \<Rightarrow> nat \<Rightarrow> nat list \<Rightarrow> bytes \<Rightarrow> hs_t \<Rightarrow> (sht_ctx \<times> nat list \<times> bytes) res" where
  "insert_element index table elements off address tmpbuf hs =
     rbind (hashElement hs elements off address tmpbuf) (\<lambda>(address, tmpbuf).
     rbind (rfold (insert_step index address tmpbuf (outbytelen hs)) [0..<NUM_HASH_FUNCTIONS] table) (\<lambda>table.
     Ok (table, address, tmpbuf)))"

text \<open>\<open>uint32_t\<close> difference and product: what \<open>malloc\<close> and \<open>memcpy\<close> are called with.\<close>

definition span_bytes :: "nat \<Rightarrow> nat \<Rightarrow> nat \<Rightarrow> nat" where
  "span_bytes startpos endpos n = unat ((of_nat endpos - of_nat startpos) * of_nat n :: u32)"

definition gen_entries :: "hs_t \<Rightarrow> bytes \<Rightarrow> nat \<Rightarrow> nat \<Rightarrow> sht_ctx \<Rightarrow> (sht_ctx \<times> bytes) res" where
  "gen_entries hs elements startpos endpos table =
     rbind (rfold (\<lambda>i (table, address, tmpbuf, hashed).
              rbind (insert_element i table elements (i * inbytelen hs) address tmpbuf hs) (\<lambda>(table, address, tmpbuf).
              rbind (rd_blk tmpbuf 0 (outbytelen hs)) (\<lambda>v.
              rbind (wr_blk hashed ((i - startpos) * outbytelen hs) v) (\<lambda>hashed.
              Ok (table, address, tmpbuf, hashed)))))
            [startpos..<endpos]
            (table, replicate NUM_HASH_FUNCTIONS 0, replicate (ceil_divide (outbitlen hs) 8) 0,
             replicate (span_bytes startpos endpos (outbytelen hs)) 0))
       (\<lambda>(table, address, tmpbuf, hashed). Ok (table, hashed))"

section \<open>Merging the tables\<close>

definition hash_code :: "bin_hash_ctx \<Rightarrow> nat" where
  "hash_code c = NUM_HASH_FUNCTIONS * bh_index c + bh_hashFunctionNum c"

text \<open>One bin of one task's table is appended to the result arrays.\<close>

definition merge_bin ::
  "nat \<Rightarrow> nat \<Rightarrow> bin_ctx \<Rightarrow> bytes \<times> nat list \<times> nat list \<times> nat list \<times> nat \<Rightarrow>
   (bytes \<times> nat list \<times> nat list \<times> nat list \<times> nat) res" where
  "merge_bin obytes i b = (\<lambda>(res_bins, nelesinbin, e2h, b2e, progress).
     rbind (rd nelesinbin i) (\<lambda>n.
     rbind (wr nelesinbin i (n + bin_nvals b)) (\<lambda>nelesinbin.
     rbind (rd_blk (bin_values b) 0 (bin_nvals b * obytes)) (\<lambda>v.
     rbind (wr_blk res_bins (progress * obytes) v) (\<lambda>res_bins.
     rbind (rfold (\<lambda>l (e2h, b2e).
              rbind (rd (bin_indexes b) l) (\<lambda>c.
              rbind (wr e2h (hash_code c) (progress + l)) (\<lambda>e2h.
              rbind (wr b2e (progress + l) (hash_code c)) (\<lambda>b2e. Ok (e2h, b2e)))))
            [0..<bin_nvals b] (e2h, b2e)) (\<lambda>(e2h, b2e).
     Ok (res_bins, nelesinbin, e2h, b2e, progress + bin_nvals b)))))))"

definition merge_tables ::
  "hs_t \<Rightarrow> nat \<Rightarrow> sht_ctx list \<Rightarrow> bytes \<times> nat list \<times> nat list \<times> nat list \<times> nat \<Rightarrow>
   (bytes \<times> nat list \<times> nat list \<times> nat list \<times> nat) res" where
  "merge_tables hs ntasks tables =
     rfold (\<lambda>i (res_bins, nelesinbin, e2h, b2e, progress).
       rbind (wr nelesinbin i 0) (\<lambda>nelesinbin.
       rfold (\<lambda>j acc.
           rbind (rd tables j) (\<lambda>table.
           rbind (rd (sht_bins table) i) (\<lambda>b. merge_bin (outbytelen hs) i b acc)))
         [0..<ntasks] (res_bins, nelesinbin, e2h, b2e, progress)))
     [0..<hs_nbins hs]"

definition simple_hashing :: "bytes \<Rightarrow> nat \<Rightarrow> nat \<Rightarrow> nat \<Rightarrow> hs_t \<Rightarrow> simple_hash_output res" where
  "simple_hashing elements neles nbins ntasks hs =
     (let per = ceil_divide neles ntasks;
          startpos = (\<lambda>t. t * per);
          endpos = (\<lambda>t. min (t * per + per) neles)
      in
      rbind (rmap (\<lambda>t. gen_entries hs elements (startpos t) (endpos t) (init_hash_table per hs)) [0..<ntasks]) (\<lambda>ctx.
      rbind (rfold (\<lambda>t (hashed_elements, k).
               let arr_size = span_bytes (startpos t) (endpos t) (outbytelen hs) in
               rbind (rd ctx t) (\<lambda>(table, hashed).
               rbind (rd_blk hashed 0 arr_size) (\<lambda>v.
               rbind (wr_blk hashed_elements k v) (\<lambda>hashed_elements. Ok (hashed_elements, k + arr_size)))))
             [0..<ntasks] (replicate (neles * outbytelen hs) 0, 0)) (\<lambda>(hashed_elements, k).
      rbind (merge_tables hs ntasks (map fst ctx)
               (replicate (neles * NUM_HASH_FUNCTIONS * outbytelen hs) 0, replicate (4 * nbins) 0,
                replicate (neles * NUM_HASH_FUNCTIONS) 0, replicate (neles * NUM_HASH_FUNCTIONS) 0, 0))
        (\<lambda>(res_bins, nelesinbin, e2h, b2e, progress).
      Ok \<lparr>sho_hashed_elements = hashed_elements, sho_res_bins = res_bins, sho_nelesinbin = nelesinbin,
          sho_elements_to_hash_table = e2h, sho_bin_to_elements_to_hash_table = b2e\<rparr>))))"

section \<open>Bins as lists of entries\<close>

definition entries :: "nat \<Rightarrow> bin_ctx \<Rightarrow> (bytes \<times> bin_hash_ctx) list" where
  "entries n b = map (\<lambda>l. (chunk n (bin_values b) l, bin_indexes b ! l)) [0..<bin_nvals b]"

definition bin_room :: "nat \<Rightarrow> nat \<Rightarrow> bin_ctx \<Rightarrow> bool" where
  "bin_room n cap b \<longleftrightarrow> length (bin_values b) = cap * n \<and> length (bin_indexes b) = cap \<and> bin_nvals b \<le> cap"

text \<open>A table whose bin \<open>b\<close> holds the entries \<open>A b\<close>, with room for one more in every bin.\<close>

definition table_holds :: "nat \<Rightarrow> nat \<Rightarrow> sht_ctx \<Rightarrow> (nat \<Rightarrow> (bytes \<times> bin_hash_ctx) list) \<Rightarrow> bool" where
  "table_holds n nbins t A \<longleftrightarrow> length (sht_bins t) = nbins \<and> sht_nbins t = nbins \<and>
     (\<forall>b<nbins. bin_room n (sht_maxbinsize t) (sht_bins t ! b) \<and>
        bin_nvals (sht_bins t ! b) < sht_maxbinsize t \<and> entries n (sht_bins t ! b) = A b)"

lemma length_entries [simp]: "length (entries n b) = bin_nvals b"
  by (simp add: entries_def)

lemma init_holds: "table_holds (outbytelen hs) (hs_nbins hs) (init_hash_table per hs) (\<lambda>_. [])"
  by (simp add: table_holds_def init_hash_table_def bin_room_def entries_def Let_def less_max_iff_disj)

text \<open>Adding an entry to a bin with room.\<close>

lemma entries_add:
  assumes "bin_room n cap b" and "bin_nvals b < cap" and "length v = n"
  shows "entries n \<lparr>bin_values = blit (bin_values b) (bin_nvals b * n) v,
      bin_indexes = (bin_indexes b)[bin_nvals b := c], bin_nvals = bin_nvals b + 1\<rparr> = entries n b @ [(v, c)]"
  using assms by (auto simp: entries_def bin_room_def chunk_blit [where k = cap])

lemma blk_of_prefix:
  "j + n \<le> k \<Longrightarrow> k \<le> length buf \<Longrightarrow> take n (drop j (take k buf @ rest)) = take n (drop j buf)"
  by (auto simp: drop_take min_def)

lemma grow_ok:
  assumes "length (sht_bins t) = nbins" "sht_nbins t = nbins" "0 < sht_maxbinsize t"
    and "\<And>b. b < nbins \<Longrightarrow> bin_room n (sht_maxbinsize t) (sht_bins t ! b) \<and> entries n (sht_bins t ! b) = A b"
  shows "\<exists>t'. increase_max_bin_size t n = Ok t' \<and> table_holds n nbins t' A"
proof -
  let ?m = "sht_maxbinsize t"
  define g where "g b = b\<lparr>bin_values := blit (replicate (?m * 2 * n) 0) 0 (take (bin_nvals b * n) (bin_values b)),
      bin_indexes := blit (replicate (?m * 2) no_index) 0 (take (bin_nvals b) (bin_indexes b))\<rparr>" for b :: bin_ctx
  have sz: "bin_nvals b * n \<le> ?m * n" if "bin_room n ?m b" for b :: bin_ctx using that by (simp add: bin_room_def)
  have m2: "?m * n \<le> ?m * 2 * n" by simp
  have "increase_max_bin_size t n = Ok (t\<lparr>sht_bins := map (\<lambda>i. g (sht_bins t ! i)) [0..<nbins], sht_maxbinsize := ?m * 2\<rparr>)"
    unfolding increase_max_bin_size_def Let_def assms(2)
  proof (subst rmap_Ok [where g = "\<lambda>i. g (sht_bins t ! i)"])
    fix i assume "i \<in> set [0..<nbins]"
    then have i: "i < nbins" "bin_room n ?m (sht_bins t ! i)" using assms(4) by auto
    then show "rbind (rd (sht_bins t) i) (\<lambda>b.
          rbind (rd_blk (bin_values b) 0 (bin_nvals b * n)) (\<lambda>tmpvals.
          rbind (rd_blk (bin_indexes b) 0 (bin_nvals b)) (\<lambda>tmpindexes.
          rbind (wr_blk (replicate (?m * 2 * n) 0) 0 tmpvals) (\<lambda>values.
          rbind (wr_blk (replicate (?m * 2) no_index) 0 tmpindexes) (\<lambda>indexes.
          Ok (b\<lparr>bin_values := values, bin_indexes := indexes\<rparr>)))))) = Ok (g (sht_bins t ! i))"
      using sz [OF i(2)] assms(1) m2
      by (simp add: bin_room_def g_def)
  qed simp
  moreover have "bin_room n (?m * 2) (g b) \<and> bin_nvals (g b) < ?m * 2 \<and> entries n (g b) = entries n b"
    if b: "bin_room n ?m b" for b
  proof -
    have l: "bin_nvals b * n \<le> ?m * n" "length (bin_values b) = ?m * n" "bin_nvals b \<le> ?m" "length (bin_indexes b) = ?m"
      using b sz [OF b] by (auto simp: bin_room_def)
    have "chunk n (bin_values (g b)) i = chunk n (bin_values b) i" if "i < bin_nvals b" for i
    proof -
      have "i * n + n \<le> bin_nvals b * n" using that by (metis mult_Suc Suc_leI add.commute mult_le_mono1)
      then show ?thesis using l by (simp add: g_def chunk_def blit_def blk_of_prefix del: take_append drop_append)
    qed
    then show ?thesis using l assms(3) m2
      by (auto simp: entries_def bin_room_def g_def blit_def nth_append)
  qed
  ultimately show ?thesis using assms by (simp add: table_holds_def)
qed

text \<open>The first of two hash functions that agree keeps the value, the later ones store zeros.\<close>

definition stored :: "nat \<Rightarrow> nat list \<Rightarrow> bytes \<Rightarrow> nat \<Rightarrow> bytes" where
  "stored n address v i =
     (if \<exists>j<i. address ! j = address ! i then replicate n DUMMY_ENTRY_SERVER else v)"

lemma zero_repeats:
  assumes "length vals = cap * n" and "k < cap" and "length v = n" and "length address = m" and "i < m"
    and "js = [0..<l]" and "l \<le> i"
  shows "rfold (\<lambda>j values. rbind (rd address j) (\<lambda>aj.
              if a = aj then wr_blk values (k * n) (replicate n d) else Ok values)) js (blit vals (k * n) v) =
    Ok (blit vals (k * n) (if \<exists>j<l. address ! j = a then replicate n d else v))"
  unfolding assms(6)
  using assms(7)
proof (induction l)
  case (Suc l)
  have fits: "k * n + n \<le> length vals" using chunk_fits [OF assms(1,2)] .
  have again: "blit (blit vals (k * n) x) (k * n) y = blit vals (k * n) y" if "length x = n" "length y = n" for x y
    using that fits by (auto simp: blit_def)
  have "l < length address" using Suc.prems assms by simp
  moreover have "rfold (\<lambda>j values. rbind (rd address j) (\<lambda>aj.
              if a = aj then wr_blk values (k * n) (replicate n d) else Ok values)) [0..<l] (blit vals (k * n) v) =
    Ok (blit vals (k * n) (if \<exists>j<l. address ! j = a then replicate n d else v))"
    using Suc by simp
  ultimately show ?case
    using fits assms(3) again by (auto simp: rfold_append less_Suc_eq)
qed simp

lemma insert_step_ok:
  assumes t: "table_holds n nbins t A" and v: "length tmpbuf = n"
    and a: "length address = NUM_HASH_FUNCTIONS" "i < NUM_HASH_FUNCTIONS" "address ! i < nbins"
  shows "\<exists>t'. insert_step index address tmpbuf n i t = Ok t' \<and>
    table_holds n nbins t' (A(address ! i := A (address ! i) @
      [(stored n address tmpbuf i, \<lparr>bh_index = index, bh_hashFunctionNum = i\<rparr>)]))"
proof -
  let ?a = "address ! i" and ?m = "sht_maxbinsize t"
  let ?c = "\<lparr>bh_index = index, bh_hashFunctionNum = i\<rparr>"
  define b where "b = sht_bins t ! ?a"
  have b: "bin_room n ?m b" "bin_nvals b < ?m" "entries n b = A ?a" and len: "length (sht_bins t) = nbins" "sht_nbins t = nbins"
    using t a(3) by (auto simp: table_holds_def b_def)
  have vals: "length (bin_values b) = ?m * n" "length (bin_indexes b) = ?m" using b by (auto simp: bin_room_def)
  have fits: "bin_nvals b * n + n \<le> length (bin_values b)" using chunk_fits [OF vals(1) b(2)] .
  let ?v = "stored n address tmpbuf i"
  let ?b = "\<lparr>bin_values = blit (bin_values b) (bin_nvals b * n) ?v,
      bin_indexes = (bin_indexes b)[bin_nvals b := ?c], bin_nvals = bin_nvals b + 1\<rparr>"
  let ?t = "t\<lparr>sht_bins := (sht_bins t)[?a := ?b]\<rparr>"
  let ?A = "A(?a := A ?a @ [(?v, ?c)])"
  have lv: "length ?v = n" using v by (simp add: stored_def)
  have run: "insert_step index address tmpbuf n i t =
      (if bin_nvals b + 1 = ?m then increase_max_bin_size ?t n else Ok ?t)"
    using a v vals b(2) fits len
    by (simp add: insert_step_def zero_repeats [OF vals(1) b(2) v a(1) a(2) refl order_refl] stored_def Let_def
        flip: b_def)
  have e: "entries n ?b = A ?a @ [(?v, ?c)]" using entries_add [OF b(1,2) lv] b(3) by simp
  have room: "bin_room n ?m ?b" using b(2) vals lv fits by (simp add: bin_room_def)
  have upd: "bin_room n ?m (sht_bins ?t ! k) \<and> entries n (sht_bins ?t ! k) = ?A k \<and>
      bin_nvals (sht_bins ?t ! k) < (if k = ?a then Suc ?m else ?m)" if "k < nbins" for k
    using that t len e room b(2) by (simp add: table_holds_def nth_list_update)
  show ?thesis
  proof (cases "bin_nvals b + 1 = ?m")
    case True
    have "\<exists>t'. increase_max_bin_size ?t n = Ok t' \<and> table_holds n nbins t' ?A"
      using len upd b(2) by (intro grow_ok) auto
    then show ?thesis using run True by simp
  next
    case False
    then have "bin_nvals (sht_bins ?t ! k) < ?m" if "k < nbins" for k
      using upd [OF that] b(2) len that a(3) by (cases "k = ?a") auto
    then have "table_holds n nbins ?t ?A" using len upd by (simp add: table_holds_def)
    then show ?thesis using run False by simp
  qed
qed

section \<open>Filling one task's table\<close>

text \<open>What element \<open>idx\<close> leaves for hash function \<open>i\<close>, and what the pairs \<open>ps\<close>
  of elements and functions leave in bin \<open>b\<close>.\<close>

definition entry :: "hs_t \<Rightarrow> (nat \<Rightarrow> bytes) \<Rightarrow> nat \<times> nat \<Rightarrow> bytes \<times> bin_hash_ctx" where
  "entry hs elt = (\<lambda>(idx, i). (stored (outbytelen hs) (addrs hs (elt idx)) (val_of hs (elt idx)) i,
     \<lparr>bh_index = idx, bh_hashFunctionNum = i\<rparr>))"

definition placed :: "hs_t \<Rightarrow> (nat \<Rightarrow> bytes) \<Rightarrow> (nat \<times> nat) list \<Rightarrow> nat \<Rightarrow> (bytes \<times> bin_hash_ctx) list" where
  "placed hs elt ps b = map (entry hs elt) (filter (\<lambda>(idx, i). addr_of hs (elt idx) i = b) ps)"

lemma placed_Nil [simp]: "placed hs elt [] = (\<lambda>_. [])"
  by (simp add: placed_def fun_eq_iff)

lemma placed_append: "placed hs elt (ps @ qs) b = placed hs elt ps b @ placed hs elt qs b"
  by (simp add: placed_def)

lemma placed_concat: "placed hs elt (concat pss) b = concat (map (\<lambda>ps. placed hs elt ps b) pss)"
  by (induction pss) (simp_all add: placed_append)

lemma placed_snoc:
  "placed hs elt (ps @ [(idx, i)]) =
   (placed hs elt ps)(addr_of hs (elt idx) i := placed hs elt ps (addr_of hs (elt idx) i) @ [entry hs elt (idx, i)])"
  by (auto simp: placed_def)

lemma insert_element_ok:
  assumes hs: "hs_wf hs" "hs_fits hs"
    and t: "table_holds (outbytelen hs) (hs_nbins hs) t (placed hs elt ps)"
    and e: "elt idx = take (inbytelen hs) (drop off elements)" "off + inbytelen hs \<le> length elements"
    and a: "length address = NUM_HASH_FUNCTIONS" "length tmpbuf = outbytelen hs"
  shows "\<exists>t'. insert_element idx t elements off address tmpbuf hs = Ok (t', addrs hs (elt idx), val_of hs (elt idx)) \<and>
    table_holds (outbytelen hs) (hs_nbins hs) t' (placed hs elt (ps @ map (Pair idx) [0..<NUM_HASH_FUNCTIONS]))"
proof -
  let ?e = "elt idx"
  let ?P = "\<lambda>i t. table_holds (outbytelen hs) (hs_nbins hs) t (placed hs elt (ps @ map (Pair idx) [0..<i]))"
  have len: "length (val_of hs ?e) = outbytelen hs"
    by (rule val_of_length [OF hs(2,1)]) (use e in simp)
  have "\<exists>t'. rfold (insert_step idx (addrs hs ?e) (val_of hs ?e) (outbytelen hs)) [0..<NUM_HASH_FUNCTIONS] t = Ok t' \<and>
      ?P NUM_HASH_FUNCTIONS t'"
  proof (rule rfold_upt_inv [where P = ?P])
    fix i t assume i: "i < NUM_HASH_FUNCTIONS" and P: "?P i t"
    have "addrs hs ?e ! i = addr_of hs ?e i" "length (addrs hs ?e) = NUM_HASH_FUNCTIONS"
      using i by (simp_all add: addrs_def)
    then show "\<exists>t'. insert_step idx (addrs hs ?e) (val_of hs ?e) (outbytelen hs) i t = Ok t' \<and> ?P (Suc i) t'"
      using insert_step_ok [OF P len, of "addrs hs ?e" i idx] i addr_of_less [OF hs(1)]
        placed_snoc [of hs elt "ps @ map (Pair idx) [0..<i]" idx i]
      by (simp add: entry_def)
  qed (use t in simp_all)
  then obtain t' where t': "rfold (insert_step idx (addrs hs ?e) (val_of hs ?e) (outbytelen hs)) [0..<NUM_HASH_FUNCTIONS] t = Ok t'"
    "?P NUM_HASH_FUNCTIONS t'" by blast
  have "hashElement hs elements off address tmpbuf = Ok (addrs hs ?e, val_of hs ?e)"
    using hashElement_ok [OF hs e a] by (simp add: addrs_def)
  then show ?thesis using t' by (simp add: insert_element_def)
qed

lemma span_bytes_eq:
  assumes "startpos \<le> endpos" and "endpos * n < 2 ^ 32" and "0 < n"
  shows "span_bytes startpos endpos n = (endpos - startpos) * n"
proof -
  have "(of_nat endpos - of_nat startpos) * of_nat n = (of_nat ((endpos - startpos) * n) :: u32)"
    using assms(1) by (simp add: of_nat_diff)
  moreover have "(endpos - startpos) * n < 2 ^ 32"
    using assms(2) by (rule le_less_trans [rotated]) (simp add: diff_mult_distrib)
  ultimately show ?thesis by (simp add: span_bytes_def unat_of_nat take_bit_nat_eq_self del: of_nat_mult)
qed

definition hash_pairs :: "nat list \<Rightarrow> (nat \<times> nat) list" where
  "hash_pairs js = List.product js [0..<NUM_HASH_FUNCTIONS]"

lemma hash_pairs_snoc: "hash_pairs (js @ [j]) = hash_pairs js @ map (Pair j) [0..<NUM_HASH_FUNCTIONS]"
  by (simp add: hash_pairs_def product_concat_map)

lemma gen_entries_ok:
  assumes hs: "hs_wf hs" "hs_fits hs" "outbytelen hs = ceil_divide (outbitlen hs) 8"
    and l: "length elements = neles * inbytelen hs" "startpos \<le> endpos" "endpos \<le> neles"
    and big: "neles * outbytelen hs < 2 ^ 32"
  shows "\<exists>t. gen_entries hs elements startpos endpos (init_hash_table per hs) =
      Ok (t, concat (map (\<lambda>i. val_of hs (element_at hs elements i)) [startpos..<endpos])) \<and>
    table_holds (outbytelen hs) (hs_nbins hs) t (placed hs (element_at hs elements) (hash_pairs [startpos..<endpos]))"
proof -
  let ?elt = "element_at hs elements" and ?n = "outbytelen hs"
  define V where "V j = val_of hs (?elt (startpos + j))" for j
  let ?f = "\<lambda>i (table, address, tmpbuf, hashed).
              rbind (insert_element i table elements (i * inbytelen hs) address tmpbuf hs) (\<lambda>(table, address, tmpbuf).
              rbind (rd_blk tmpbuf 0 (outbytelen hs)) (\<lambda>v.
              rbind (wr_blk hashed ((i - startpos) * outbytelen hs) v) (\<lambda>hashed.
              Ok (table, address, tmpbuf, hashed))))"
  let ?P = "\<lambda>i (t, address::nat list, tmpbuf::bytes, hashed).
      table_holds ?n (hs_nbins hs) t (placed hs ?elt (hash_pairs [startpos..<i])) \<and>
      length address = NUM_HASH_FUNCTIONS \<and> length tmpbuf = ?n \<and> length hashed = (endpos - startpos) * ?n \<and>
      (\<forall>j<i - startpos. chunk ?n hashed j = V j)"
  have n: "0 < ?n" using hs(2) by (simp add: hs_fits_def)
  have "endpos * ?n < 2 ^ 32" using big l(3) by (meson le_less_trans mult_le_mono1)
  then have span: "span_bytes startpos endpos ?n = (endpos - startpos) * ?n" using span_bytes_eq l(2) n by blast
  let ?s0 = "(init_hash_table per hs, replicate NUM_HASH_FUNCTIONS 0, replicate (ceil_divide (outbitlen hs) 8) 0,
             replicate (span_bytes startpos endpos ?n) 0)"
  have "\<exists>s'. rfold ?f [startpos..<endpos] ?s0 = Ok s' \<and> ?P endpos s'"
  proof (rule rfold_upt_inv [where P = ?P])
    show "?P startpos ?s0"
      using init_holds [of hs per] hs(3) span by (simp add: hash_pairs_def)
  next
    fix i s assume i: "startpos \<le> i" "i < endpos" and P: "?P i s"
    obtain t address tmpbuf hashed where s: "s = (t, address, tmpbuf, hashed)" by (cases s) auto
    have inb: "i * inbytelen hs + inbytelen hs \<le> length elements"
      using chunk_fits [OF l(1)] i l(3) by simp
    have e: "?elt i = take (inbytelen hs) (drop (i * inbytelen hs) elements)"
      by (simp add: element_at_def chunk_def)
    have le: "length (?elt i) = inbytelen hs" using inb e by simp
    have th: "table_holds ?n (hs_nbins hs) t (placed hs ?elt (hash_pairs [startpos..<i]))"
      and la: "length address = NUM_HASH_FUNCTIONS" and lt: "length tmpbuf = ?n" using P s by auto
    obtain t' where t': "insert_element i t elements (i * inbytelen hs) address tmpbuf hs = Ok (t', addrs hs (?elt i), val_of hs (?elt i))"
      "table_holds ?n (hs_nbins hs) t' (placed hs ?elt (hash_pairs [startpos..<i] @ map (Pair i) [0..<NUM_HASH_FUNCTIONS]))"
      using insert_element_ok [where elt = ?elt and idx = i, OF hs(1,2) th e inb la lt] by blast
    have lv: "length (val_of hs (?elt i)) = ?n" by (rule val_of_length [OF hs(2,1) le])
    have lh: "length hashed = (endpos - startpos) * ?n" and k: "i - startpos < endpos - startpos" using P s i by auto
    let ?h = "blit hashed ((i - startpos) * ?n) (val_of hs (?elt i))"
    have "?f i s = Ok (t', addrs hs (?elt i), val_of hs (?elt i), ?h)"
      using s t'(1) lv chunk_fits [OF lh k] by simp
    moreover have "chunk ?n ?h j = V j" if "j < Suc i - startpos" for j
      using that P s i lv k chunk_blit [OF lh k, of j "val_of hs (?elt i)"]
      by (auto simp: V_def Suc_diff_le less_Suc_eq)
    moreover have "hash_pairs [startpos..<Suc i] = hash_pairs [startpos..<i] @ map (Pair i) [0..<NUM_HASH_FUNCTIONS]"
      using i by (simp add: hash_pairs_snoc)
    moreover have "length ?h = (endpos - startpos) * ?n" using lh lv chunk_fits [OF lh k] by simp
    ultimately show "\<exists>s'. ?f i s = Ok s' \<and> ?P (Suc i) s'"
      using t'(2) lv by (intro exI [of _ "(t', addrs hs (?elt i), val_of hs (?elt i), ?h)"]) (simp add: addrs_def)
  qed (rule l(2))
  then obtain t address tmpbuf hashed where run: "rfold ?f [startpos..<endpos] ?s0 = Ok (t, address, tmpbuf, hashed)"
    and P: "?P endpos (t, address, tmpbuf, hashed)" by auto
  have "hashed = concat (map V [0..<endpos - startpos])"
    by (rule concat_chunks [where n = ?n]) (use P in auto)
  also have "map V [0..<endpos - startpos] = map (\<lambda>i. val_of hs (?elt i)) [startpos..<endpos]"
    by (rule nth_equalityI) (simp_all add: V_def)
  finally show ?thesis using run P by (simp add: gen_entries_def)
qed

section \<open>Merging the bins\<close>

text \<open>The result arrays hold the first \<open>m\<close> entries of \<open>F\<close>.\<close>

definition merged ::
  "nat \<Rightarrow> (bytes \<times> bin_hash_ctx) list \<Rightarrow> nat \<Rightarrow> bytes \<times> nat list \<times> nat list \<times> nat list \<times> nat \<Rightarrow> bool" where
  "merged n F m = (\<lambda>(res_bins, nelesinbin, e2h, b2e, progress).
     length res_bins = length F * n \<and> length e2h = length F \<and> length b2e = length F \<and> progress = m \<and>
     (\<forall>p<m. chunk n res_bins p = fst (F ! p) \<and> b2e ! p = hash_code (snd (F ! p)) \<and>
        e2h ! hash_code (snd (F ! p)) = p))"

definition coded :: "(bytes \<times> bin_hash_ctx) list \<Rightarrow> bool" where
  "coded F \<longleftrightarrow> distinct (map (hash_code \<circ> snd) F) \<and> (\<forall>x\<in>set F. hash_code (snd x) < length F)"

lemma coded_less: "coded F \<Longrightarrow> p < length F \<Longrightarrow> hash_code (snd (F ! p)) < length F"
  by (simp add: coded_def)

lemma coded_inj:
  "coded F \<Longrightarrow> p < length F \<Longrightarrow> q < length F \<Longrightarrow>
   hash_code (snd (F ! p)) = hash_code (snd (F ! q)) \<longleftrightarrow> p = q"
  using nth_eq_iff_index_eq [of "map (hash_code \<circ> snd) F" p q] by (simp add: coded_def)

lemma chunk_blit_run:
  assumes "length v = k * n" and "(m + k) * n \<le> length buf" and "p < m + k"
  shows "chunk n (blit buf (m * n) v) p = (if p < m then chunk n buf p else chunk n v (p - m))"
proof (cases "p < m")
  case True
  then have "p * n + n \<le> m * n" by (metis mult_Suc Suc_leI add.commute mult_le_mono1)
  moreover have "m * n + length v \<le> length buf" using assms(1,2) by (simp add: add_mult_distrib)
  ultimately show ?thesis using True by (simp add: chunk_def blk_blit_disjoint)
next
  case False
  then obtain q where q: "p = m + q" using le_Suc_ex not_less by blast
  then have "q * n + n \<le> length v"
    using assms(1,3) by (metis mult_Suc Suc_leI add.commute mult_le_mono1 nat_add_left_cancel_less)
  moreover have "m * n \<le> length buf" using assms(2) by (simp add: add_mult_distrib)
  ultimately show ?thesis using False q
    by (simp add: chunk_def blit_def min_def add_mult_distrib)
qed

lemma merge_bin_ok:
  assumes F: "coded F" and M: "merged n F m (res_bins, nelesinbin, e2h, b2e, progress)"
    and b: "bin_room n cap b" "F = pre @ entries n b @ post" "length pre = m"
    and i: "i < length nelesinbin"
  shows "\<exists>res_bins' e2h' b2e'. merge_bin n i b (res_bins, nelesinbin, e2h, b2e, progress) =
      Ok (res_bins', nelesinbin[i := nelesinbin ! i + bin_nvals b], e2h', b2e', progress + bin_nvals b) \<and>
    merged n F (m + bin_nvals b) (res_bins', nelesinbin[i := nelesinbin ! i + bin_nvals b], e2h', b2e', progress + bin_nvals b)"
proof -
  let ?k = "bin_nvals b"
  have lens: "length res_bins = length F * n" "length e2h = length F" "length b2e = length F" "progress = m"
    and old: "\<And>p. p < m \<Longrightarrow> chunk n res_bins p = fst (F ! p) \<and> b2e ! p = hash_code (snd (F ! p)) \<and>
        e2h ! hash_code (snd (F ! p)) = p"
    using M by (auto simp: merged_def)
  have mk: "m + ?k \<le> length F" using b by simp
  have X: "F ! (m + l) = (chunk n (bin_values b) l, bin_indexes b ! l)" if "l < ?k" for l
    using that b by (simp add: nth_append entries_def)
  have room: "length (bin_values b) = cap * n" "length (bin_indexes b) = cap" "?k \<le> cap"
    using b(1) by (auto simp: bin_room_def)
  then have kn: "?k * n \<le> length (bin_values b)" by simp
  have mkn: "(m + ?k) * n \<le> length res_bins" using mk lens(1) by simp
  then have mkn': "m * n + ?k * n \<le> length res_bins" by (simp add: add_mult_distrib)
  let ?v = "take (?k * n) (bin_values b)"
  let ?res = "blit res_bins (m * n) ?v"
  let ?f = "\<lambda>l (e2h, b2e). rbind (rd (bin_indexes b) l) (\<lambda>c.
              rbind (wr e2h (hash_code c) (progress + l)) (\<lambda>e2h.
              rbind (wr b2e (progress + l) (hash_code c)) (\<lambda>b2e. Ok (e2h, b2e))))"
  let ?P = "\<lambda>l (e2h, b2e). length e2h = length F \<and> length b2e = length F \<and>
      (\<forall>p<m + l. b2e ! p = hash_code (snd (F ! p)) \<and> e2h ! hash_code (snd (F ! p)) = p)"
  have "\<exists>s'. rfold ?f [0..<?k] (e2h, b2e) = Ok s' \<and> ?P ?k s'"
  proof (rule rfold_upt_inv [where P = ?P])
    fix l s assume l: "l < ?k" and P: "?P l s"
    obtain e2h b2e where s: "s = (e2h, b2e)" by (cases s)
    let ?c = "hash_code (bin_indexes b ! l)"
    have c: "?c = hash_code (snd (F ! (m + l)))" "?c < length F" "l < length (bin_indexes b)" "m + l < length F"
      using X [OF l] coded_less [OF F, of "m + l"] l mk room by simp_all
    have "?f l s = Ok (e2h[?c := m + l], b2e[m + l := ?c])"
      using s P c lens(4) by simp
    moreover have "?P (Suc l) (e2h[?c := m + l], b2e[m + l := ?c])"
      using P s c coded_inj [OF F] coded_less [OF F] mk l
      by (auto simp: less_Suc_eq nth_list_update)
    ultimately show "\<exists>s'. ?f l s = Ok s' \<and> ?P (Suc l) s'" by blast
  qed (use lens old in auto)
  then obtain e2h' b2e' where run: "rfold ?f [0..<?k] (e2h, b2e) = Ok (e2h', b2e')" and P: "?P ?k (e2h', b2e')" by auto
  have ch: "chunk n ?res p = fst (F ! p)" if p: "p < m + ?k" for p
  proof (cases "p < m")
    case True
    then show ?thesis using chunk_blit_run [OF _ mkn p, of ?v] kn old by simp
  next
    case False
    then obtain q where q: "p = m + q" "q < ?k" using p by (metis le_Suc_ex nat_add_left_cancel_less not_less)
    have "chunk n ?v q = chunk n (bin_values b) q"
      using blk_of_prefix [of "q * n" n "?k * n" "bin_values b" "[]"] kn q(2)
        mult_le_mono1 [of "Suc q" ?k n] by (simp add: chunk_def add.commute)
    then show ?thesis using chunk_blit_run [OF _ mkn p, of ?v] kn q X by simp
  qed
  have "merge_bin n i b (res_bins, nelesinbin, e2h, b2e, progress) =
      Ok (?res, nelesinbin[i := nelesinbin ! i + ?k], e2h', b2e', progress + ?k)"
    using run i kn mkn' lens(4) by (simp add: merge_bin_def)
  then show ?thesis using P ch lens kn mkn' by (auto simp: merged_def)
qed

lemma merge_tables_ok:
  assumes tabs: "length tables = ntasks" "\<And>t. t < ntasks \<Longrightarrow> table_holds (outbytelen hs) (hs_nbins hs) (tables ! t) (A t)"
    and G: "\<And>b. G b = concat (map (\<lambda>t. A t b) [0..<ntasks])" and F: "F = concat (map G [0..<hs_nbins hs])" "coded F"
    and init: "merged (outbytelen hs) F 0 (res0, nele0, e2h0, b2e0, 0)" "hs_nbins hs \<le> length nele0"
  shows "\<exists>res nele e2h b2e progress. merge_tables hs ntasks tables (res0, nele0, e2h0, b2e0, 0) =
      Ok (res, nele, e2h, b2e, progress) \<and> merged (outbytelen hs) F (length F) (res, nele, e2h, b2e, progress) \<and>
    length nele = length nele0 \<and> (\<forall>b<hs_nbins hs. nele ! b = length (G b))"
proof -
  let ?n = "outbytelen hs" and ?nb = "hs_nbins hs"
  let ?pre = "\<lambda>b. length (concat (map G [0..<b]))"
  let ?part = "\<lambda>b j. length (concat (map (\<lambda>t. A t b) [0..<j]))"
  let ?inner = "\<lambda>i j acc. rbind (rd tables j) (\<lambda>table. rbind (rd (sht_bins table) i) (\<lambda>b. merge_bin ?n i b acc))"
  let ?outer = "\<lambda>i (res_bins, nelesinbin, e2h, b2e, progress). rbind (wr nelesinbin i 0) (\<lambda>nelesinbin.
       rfold (?inner i) [0..<ntasks] (res_bins, nelesinbin, e2h, b2e, progress))"
  let ?P = "\<lambda>b (res, nele, e2h, b2e, pr). merged ?n F (?pre b) (res, nele, e2h, b2e, pr) \<and>
      length nele = length nele0 \<and> (\<forall>c<b. nele ! c = length (G c))"
  have "\<exists>s'. rfold ?outer [0..<?nb] (res0, nele0, e2h0, b2e0, 0) = Ok s' \<and> ?P ?nb s'"
  proof (rule rfold_upt_inv [where P = ?P])
    fix i s assume i: "i < ?nb" and P: "?P i s"
    obtain res nele e2h b2e pr where s: "s = (res, nele, e2h, b2e, pr)" by (cases s) auto
    let ?Q = "\<lambda>j (res, nele', e2h, b2e, pr). merged ?n F (?pre i + ?part i j) (res, nele', e2h, b2e, pr) \<and>
        nele' = nele[i := ?part i j]"
    have lne: "length nele = length nele0" using P s by simp
    have "\<exists>s'. rfold (?inner i) [0..<ntasks] (res, nele[i := 0], e2h, b2e, pr) = Ok s' \<and> ?Q ntasks s'"
    proof (rule rfold_upt_inv [where P = ?Q])
      fix j u assume j: "j < ntasks" and Q: "?Q j u"
      obtain res' ne' e' b' pr' where u: "u = (res', ne', e', b', pr')" by (cases u) auto
      let ?b = "sht_bins (tables ! j) ! i"
      have tb: "bin_room ?n (sht_maxbinsize (tables ! j)) ?b" "entries ?n ?b = A j i" "i < length (sht_bins (tables ! j))"
        using tabs(2) [OF j] i by (auto simp: table_holds_def)
      have Fs: "F = (concat (map G [0..<i]) @ concat (map (\<lambda>t. A t i) [0..<j])) @ entries ?n ?b @
          (concat (map (\<lambda>t. A t i) [Suc j..<ntasks]) @ concat (map G [Suc i..<?nb]))"
        unfolding F(1) concat_split [OF i] G [of i] concat_split [OF j] by (simp add: tb(2))
      have Qm: "merged ?n F (?pre i + ?part i j) (res', ne', e', b', pr')" and ne: "ne' = nele[i := ?part i j]"
        using Q unfolding u prod.case by blast+
      have il: "i < length ne'" using ne i init(2) lne by simp
      obtain res2 e2 b2 where "merge_bin ?n i ?b (res', ne', e', b', pr') =
            Ok (res2, ne'[i := ne' ! i + bin_nvals ?b], e2, b2, pr' + bin_nvals ?b)"
        and "merged ?n F (?pre i + ?part i j + bin_nvals ?b) (res2, ne'[i := ne' ! i + bin_nvals ?b], e2, b2, pr' + bin_nvals ?b)"
        using merge_bin_ok [OF F(2) Qm tb(1) Fs _ il] by auto
      moreover have "bin_nvals ?b = length (A j i)" using tb(2) by (metis length_entries)
      ultimately show "\<exists>s'. ?inner i j u = Ok s' \<and> ?Q (Suc j) s'"
        using u tb(3) tabs(1) j ne i init(2) lne by (simp add: add.assoc)
    qed (use P s in \<open>simp_all add: merged_def\<close>)
    then obtain s' where s': "rfold (?inner i) [0..<ntasks] (res, nele[i := 0], e2h, b2e, pr) = Ok s'" "?Q ntasks s'" by blast
    have "?P (Suc i) s'"
      using s'(2) P s i init(2) lne by (auto simp: G less_Suc_eq nth_list_update split: prod.splits)
    then show "\<exists>s'. ?outer i s = Ok s' \<and> ?P (Suc i) s'"
      using s'(1) s i init(2) lne by simp
  qed (use init in simp_all)
  then show ?thesis by (auto simp: merge_tables_def F(1))
qed

section \<open>All bins together\<close>

definition all_entries :: "hs_t \<Rightarrow> (nat \<Rightarrow> bytes) \<Rightarrow> nat \<Rightarrow> (bytes \<times> bin_hash_ctx) list" where
  "all_entries hs elt neles = concat (map (placed hs elt (hash_pairs [0..<neles])) [0..<hs_nbins hs])"

lemma mset_buckets:
  "mset (concat (map (\<lambda>b. filter (\<lambda>x. f x = b) xs) [0..<n])) = mset (filter (\<lambda>x. f x < n) xs)"
proof (induction n)
  case (Suc n)
  have "mset (filter (\<lambda>x. f x < n) xs) + mset (filter (\<lambda>x. f x = n) xs) = mset (filter (\<lambda>x. f x < Suc n) xs)"
    by (induction xs) auto
  then show ?case using Suc by simp
qed simp

lemma hash_pairs_codes: "map (\<lambda>(idx, i). NUM_HASH_FUNCTIONS * idx + i) (hash_pairs [0..<n]) = [0..<NUM_HASH_FUNCTIONS * n]"
proof (induction n)
  case (Suc n)
  have "map (\<lambda>i. NUM_HASH_FUNCTIONS * n + i) [0..<NUM_HASH_FUNCTIONS] =
      [NUM_HASH_FUNCTIONS * n..<NUM_HASH_FUNCTIONS * n + NUM_HASH_FUNCTIONS]"
    by (simp add: map_add_upt add.commute)
  moreover have "[0..<NUM_HASH_FUNCTIONS * Suc n] = [0..<NUM_HASH_FUNCTIONS * n] @
      [NUM_HASH_FUNCTIONS * n..<NUM_HASH_FUNCTIONS * n + NUM_HASH_FUNCTIONS]"
    using upt_add_eq_append [of 0 "NUM_HASH_FUNCTIONS * n" NUM_HASH_FUNCTIONS] by (simp add: add.commute)
  moreover have "hash_pairs [0..<Suc n] = hash_pairs [0..<n] @ map (Pair n) [0..<NUM_HASH_FUNCTIONS]"
    by (simp add: hash_pairs_snoc)
  ultimately show ?case using Suc by (simp add: comp_def)
qed (simp add: hash_pairs_def)

lemma all_entries_mset:
  assumes "hs_wf hs"
  shows "mset (all_entries hs elt n) = mset (map (entry hs elt) (hash_pairs [0..<n]))"
proof -
  let ?f = "\<lambda>(idx, i). addr_of hs (elt idx) i"
  have "all_entries hs elt n =
      map (entry hs elt) (concat (map (\<lambda>b. filter (\<lambda>x. ?f x = b) (hash_pairs [0..<n])) [0..<hs_nbins hs]))"
    by (simp add: all_entries_def placed_def [abs_def] map_concat comp_def case_prod_unfold)
  moreover have "filter (\<lambda>x. ?f x < hs_nbins hs) (hash_pairs [0..<n]) = hash_pairs [0..<n]"
    using addr_of_less [OF assms] by (simp add: filter_id_conv case_prod_unfold)
  ultimately show ?thesis using mset_buckets [of ?f "hash_pairs [0..<n]" "hs_nbins hs"] by simp
qed

lemma all_entries_codes:
  assumes "hs_wf hs"
  shows "mset (map (hash_code \<circ> snd) (all_entries hs elt n)) = mset [0..<NUM_HASH_FUNCTIONS * n]"
proof -
  have "mset (map (hash_code \<circ> snd) (all_entries hs elt n)) =
      mset (map (hash_code \<circ> snd) (map (entry hs elt) (hash_pairs [0..<n])))"
    unfolding mset_map [of "hash_code \<circ> snd"] by (simp only: all_entries_mset [OF assms])
  also have "map (hash_code \<circ> snd) (map (entry hs elt) (hash_pairs [0..<n])) = [0..<NUM_HASH_FUNCTIONS * n]"
    unfolding hash_pairs_codes [symmetric] by (simp add: entry_def hash_code_def case_prod_unfold)
  finally show ?thesis .
qed

lemma all_entries_coded:
  assumes "hs_wf hs"
  shows "coded (all_entries hs elt n) \<and> length (all_entries hs elt n) = NUM_HASH_FUNCTIONS * n"
proof -
  note m = all_entries_codes [OF assms, of elt n]
  have "distinct (map (hash_code \<circ> snd) (all_entries hs elt n))"
    using mset_eq_imp_distinct_iff [OF m] by simp
  moreover have l: "length (all_entries hs elt n) = NUM_HASH_FUNCTIONS * n" using mset_eq_length [OF m] by simp
  moreover have "hash_code (snd x) < NUM_HASH_FUNCTIONS * n" if "x \<in> set (all_entries hs elt n)" for x
    using mset_eq_setD [OF m] that by auto
  ultimately show ?thesis by (simp add: coded_def)
qed

text \<open>The entry with the code of \<open>(idx, i)\<close> is the one of \<open>(idx, i)\<close>.\<close>

lemma code_entry:
  assumes "hs_wf hs" and "p < NUM_HASH_FUNCTIONS * n"
    and "hash_code (snd (all_entries hs elt n ! p)) = NUM_HASH_FUNCTIONS * idx + i" and "i < NUM_HASH_FUNCTIONS"
  shows "all_entries hs elt n ! p = entry hs elt (idx, i)"
proof -
  have "p < length (all_entries hs elt n)" using all_entries_coded [OF assms(1), of elt n] assms(2) by simp
  then have "all_entries hs elt n ! p \<in> set (map (entry hs elt) (hash_pairs [0..<n]))"
    using mset_eq_setD [OF all_entries_mset [OF assms(1), of elt n]] nth_mem by blast
  then obtain jdx j where e: "all_entries hs elt n ! p = entry hs elt (jdx, j)" "j < NUM_HASH_FUNCTIONS"
    by (auto simp: hash_pairs_def)
  then have "NUM_HASH_FUNCTIONS * jdx + j = NUM_HASH_FUNCTIONS * idx + i"
    using assms(3) by (simp add: entry_def hash_code_def)
  then have "jdx = idx" "j = i" using e(2) assms(4) unfolding NUM_HASH_FUNCTIONS_def by presburger+
  then show ?thesis using e by simp
qed

section \<open>The tasks' shares\<close>

lemma hash_pairs_concat: "hash_pairs (concat jss) = concat (map hash_pairs jss)"
  by (induction jss) (simp_all add: hash_pairs_def product_concat_map)

lemma shares_entries:
  assumes "0 < T"
  shows "concat (map (\<lambda>b. concat (map (\<lambda>t. placed hs elt (hash_pairs [t * ceil_divide n T..<min (t * ceil_divide n T + ceil_divide n T) n]) b)
      [0..<T])) [0..<hs_nbins hs]) = all_entries hs elt n"
proof -
  let ?r = "\<lambda>t. [t * ceil_divide n T..<min (t * ceil_divide n T + ceil_divide n T) n]"
  have "concat (map (\<lambda>t. placed hs elt (hash_pairs (?r t)) b) [0..<T]) = placed hs elt (hash_pairs [0..<n]) b" for b
  proof -
    have "hash_pairs [0..<n] = hash_pairs (concat (map ?r [0..<T]))"
      using share_ranges [of "ceil_divide n T" n T] ceil_divide_covers [OF assms, of n] by (simp add: min_def)
    then show ?thesis by (simp add: hash_pairs_concat placed_concat comp_def)
  qed
  then show ?thesis by (simp add: all_entries_def)
qed

text \<open>The loop that puts the tasks' hashed elements together, up to task \<open>T\<close>.\<close>

lemma copy_hashed:
  assumes V: "\<And>i. i < neles \<Longrightarrow> length (V i) = n"
    and small: "neles * n < 2 ^ 32" and n: "0 < n"
    and ctx: "T \<le> length ctx"
      "\<And>t. t < T \<Longrightarrow> t * per \<le> neles \<and> snd (ctx ! t) = concat (map V [t * per..<min (t * per + per) neles])"
  shows "\<exists>he. rfold (\<lambda>t (hashed_elements, k).
               let arr_size = span_bytes (t * per) (min (t * per + per) neles) n in
               rbind (rd ctx t) (\<lambda>(table, hashed).
               rbind (rd_blk hashed 0 arr_size) (\<lambda>v.
               rbind (wr_blk hashed_elements k v) (\<lambda>hashed_elements. Ok (hashed_elements, k + arr_size)))))
             [0..<T] (replicate (neles * n) 0, 0) = Ok (he, min (T * per) neles * n) \<and>
    length he = neles * n \<and> (\<forall>i<min (T * per) neles. chunk n he i = V i)"
proof -
  let ?f = "\<lambda>t (hashed_elements, k).
               let arr_size = span_bytes (t * per) (min (t * per + per) neles) n in
               rbind (rd ctx t) (\<lambda>(table, hashed).
               rbind (rd_blk hashed 0 arr_size) (\<lambda>v.
               rbind (wr_blk hashed_elements k v) (\<lambda>hashed_elements. Ok (hashed_elements, k + arr_size))))"
  let ?P = "\<lambda>t (he, k). k = min (t * per) neles * n \<and> length he = neles * n \<and> (\<forall>i<min (t * per) neles. chunk n he i = V i)"
  have "\<exists>s'. rfold ?f [0..<T] (replicate (neles * n) 0, 0) = Ok s' \<and> ?P T s'"
  proof (rule rfold_upt_inv [where P = ?P])
    fix t s assume t: "t < T" and P: "?P t s"
    define a where "a = t * per"
    define e where "e = min (a + per) neles"
    have ae: "a \<le> e" "e \<le> neles" "a \<le> neles" using ctx(2) [OF t] by (auto simp: a_def e_def)
    obtain he where s: "s = (he, a * n)" and he: "length he = neles * n" "\<And>i. i < a \<Longrightarrow> chunk n he i = V i"
      using P ae by (cases s) (auto simp: a_def min_def)
    obtain tab where c: "ctx ! t = (tab, concat (map V [a..<e]))"
      using ctx(2) [OF t] by (cases "ctx ! t") (simp add: a_def e_def)
    have shift: "map V [a..<e] = map (\<lambda>j. V (a + j)) [0..<e - a]" by (rule nth_equalityI) simp_all
    have Vs: "length (V (a + j)) = n" if "j < e - a" for j using V that ae by simp
    have len: "length (concat (map V [a..<e])) = (e - a) * n"
      unfolding shift by (rule length_concat_same) (rule Vs)
    have "e * n < 2 ^ 32" using small ae by (meson le_less_trans mult_le_mono1)
    then have span: "span_bytes a e n = (e - a) * n" using span_bytes_eq ae(1) n by blast
    let ?v = "concat (map V [a..<e])"
    have fits: "(a + (e - a)) * n \<le> length he" using he ae by simp
    then have fits': "a * n + (e - a) * n \<le> length he" by (simp add: add_mult_distrib)
    have run: "?f t s = Ok (blit he (a * n) ?v, a * n + (e - a) * n)"
      using s c span len fits' t ctx(1) by (simp add: Let_def flip: a_def e_def)
    have "chunk n (blit he (a * n) ?v) i = V i" if "i < e" for i
    proof (cases "i < a")
      case True
      then show ?thesis using chunk_blit_run [OF len fits, of i] that he(2) by simp
    next
      case False
      then have "i - a < e - a" using that by simp
      then have "chunk n ?v (i - a) = V (a + (i - a))" unfolding shift by (intro chunk_concat Vs)
      then show ?thesis using chunk_blit_run [OF len fits, of i] False that by simp
    qed
    moreover have "min (Suc t * per) neles = e" by (simp add: e_def a_def add.commute)
    moreover have "a * n + (e - a) * n = e * n" using ae by (metis add_mult_distrib le_add_diff_inverse)
    ultimately show "\<exists>s'. ?f t s = Ok s' \<and> ?P (Suc t) s'" using run he(1) len fits' by simp
  qed simp_all
  then show ?thesis by auto
qed

lemma simple_hashing_run:
  fixes hs :: hs_t and elements :: bytes and neles :: nat
  defines "elt \<equiv> element_at hs elements"
  defines "F \<equiv> all_entries hs elt neles"
  assumes hs: "hs_wf hs" "hs_fits hs" "outbytelen hs = ceil_divide (outbitlen hs) 8"
    and l: "length elements = neles * inbytelen hs" and big: "neles * outbytelen hs < 2 ^ 32"
    and T: "0 < ntasks" "(ntasks - 1) * ceil_divide neles ntasks \<le> neles"
  shows "\<exists>out. simple_hashing elements neles (hs_nbins hs) ntasks hs = Ok out \<and>
    sho_hashed_elements out = concat (map (\<lambda>i. val_of hs (elt i)) [0..<neles]) \<and>
    sho_res_bins out = concat (map fst F) \<and> length F = NUM_HASH_FUNCTIONS * neles \<and>
    (\<forall>b<hs_nbins hs. sho_nelesinbin out ! b = length (placed hs elt (hash_pairs [0..<neles]) b)) \<and>
    (\<forall>p<NUM_HASH_FUNCTIONS * neles. sho_elements_to_hash_table out ! (sho_bin_to_elements_to_hash_table out ! p) = p) \<and>
    (\<forall>idx<neles. \<forall>i<NUM_HASH_FUNCTIONS. let p = sho_elements_to_hash_table out ! (NUM_HASH_FUNCTIONS * idx + i) in
       p < NUM_HASH_FUNCTIONS * neles \<and> sho_bin_to_elements_to_hash_table out ! p = NUM_HASH_FUNCTIONS * idx + i \<and>
       F ! p = entry hs elt (idx, i)) \<and>
    length (sho_nelesinbin out) = 4 * hs_nbins hs \<and> length (sho_elements_to_hash_table out) = length F \<and>
    length (sho_bin_to_elements_to_hash_table out) = length F \<and> length (sho_res_bins out) = length F * outbytelen hs \<and>
    (\<forall>p<length F. chunk (outbytelen hs) (sho_res_bins out) p = fst (F ! p) \<and>
       sho_bin_to_elements_to_hash_table out ! p = hash_code (snd (F ! p)))"
proof -
  let ?n = "outbytelen hs" and ?per = "ceil_divide neles ntasks"
  let ?e = "\<lambda>t. min (t * ?per + ?per) neles"
  let ?V = "\<lambda>i. val_of hs (elt i)"
  let ?A = "\<lambda>t. placed hs elt (hash_pairs [t * ?per..<?e t])"
  have n: "0 < ?n" using hs(2) by (simp add: hs_fits_def)
  have start: "t * ?per \<le> neles" if "t < ntasks" for t
    by (rule le_trans [OF mult_le_mono1 T(2)]) (use that in linarith)
  have "\<exists>x. gen_entries hs elements (t * ?per) (?e t) (init_hash_table ?per hs) = Ok x \<and>
      snd x = concat (map ?V [t * ?per..<?e t]) \<and> table_holds ?n (hs_nbins hs) (fst x) (?A t)" if "t < ntasks" for t
    using gen_entries_ok [OF hs l, of "t * ?per" "?e t" ?per] big start [OF that] by (auto simp: elt_def)
  then obtain X where X: "\<And>t. t < ntasks \<Longrightarrow> gen_entries hs elements (t * ?per) (?e t) (init_hash_table ?per hs) = Ok (X t) \<and>
      snd (X t) = concat (map ?V [t * ?per..<?e t]) \<and> table_holds ?n (hs_nbins hs) (fst (X t)) (?A t)"
    by metis
  let ?ctx = "map X [0..<ntasks]"
  have ctx: "rmap (\<lambda>t. gen_entries hs elements (t * ?per) (?e t) (init_hash_table ?per hs)) [0..<ntasks] = Ok ?ctx"
    by (rule rmap_Ok) (simp add: X)
  have len: "length (elt i) = inbytelen hs" if "i < neles" for i
    unfolding elt_def element_at_def using that l by (rule length_chunk [rotated])
  have V: "length (?V i) = ?n" if "i < neles" for i by (rule val_of_length [OF hs(2,1) len [OF that]])
  obtain he where he: "rfold (\<lambda>t (hashed_elements, k).
               let arr_size = span_bytes (t * ?per) (?e t) ?n in
               rbind (rd ?ctx t) (\<lambda>(table, hashed).
               rbind (rd_blk hashed 0 arr_size) (\<lambda>v.
               rbind (wr_blk hashed_elements k v) (\<lambda>hashed_elements. Ok (hashed_elements, k + arr_size)))))
             [0..<ntasks] (replicate (neles * ?n) 0, 0) = Ok (he, min (ntasks * ?per) neles * ?n)"
    "length he = neles * ?n" "\<forall>i<min (ntasks * ?per) neles. chunk ?n he i = ?V i"
    using copy_hashed [of neles ?V ?n ntasks ?ctx ?per] V big n X start by auto
  have he_eq: "he = concat (map ?V [0..<neles])"
    by (rule concat_chunks [OF he(2)]) (use he(3) ceil_divide_covers [OF T(1), of neles] in auto)
  have F: "F = concat (map (\<lambda>b. concat (map (\<lambda>t. ?A t b) [0..<ntasks])) [0..<hs_nbins hs])"
    unfolding F_def by (rule shares_entries [OF T(1), symmetric])
  have coded: "coded F" and lF: "length F = NUM_HASH_FUNCTIONS * neles"
    unfolding F_def using all_entries_coded [OF hs(1)] by auto
  have G: "concat (map (\<lambda>t. ?A t b) [0..<ntasks]) = placed hs elt (hash_pairs [0..<neles]) b" for b
  proof -
    have "hash_pairs [0..<neles] = hash_pairs (concat (map (\<lambda>t. [t * ?per..<?e t]) [0..<ntasks]))"
      using share_ranges [of ?per neles ntasks] ceil_divide_covers [OF T(1), of neles] by (simp add: min_def)
    then show ?thesis by (simp add: hash_pairs_concat placed_concat comp_def)
  qed
  obtain res nele e2h b2e progress where run: "merge_tables hs ntasks (map fst ?ctx)
        (replicate (neles * NUM_HASH_FUNCTIONS * ?n) 0, replicate (4 * hs_nbins hs) 0,
         replicate (neles * NUM_HASH_FUNCTIONS) 0, replicate (neles * NUM_HASH_FUNCTIONS) 0, 0) = Ok (res, nele, e2h, b2e, progress)"
    and M: "merged ?n F (length F) (res, nele, e2h, b2e, progress)"
    and nl: "length nele = 4 * hs_nbins hs" and nele: "\<forall>b<hs_nbins hs. nele ! b = length (concat (map (\<lambda>t. ?A t b) [0..<ntasks]))"
    using merge_tables_ok [of "map fst ?ctx" ntasks hs ?A "\<lambda>b. concat (map (\<lambda>t. ?A t b) [0..<ntasks])" F
        "replicate (neles * NUM_HASH_FUNCTIONS * ?n) 0" "replicate (4 * hs_nbins hs) 0"
        "replicate (neles * NUM_HASH_FUNCTIONS) 0" "replicate (neles * NUM_HASH_FUNCTIONS) 0"] X coded F lF
    by (auto simp: merged_def ac_simps)
  have pos: "\<And>p. p < length F \<Longrightarrow> chunk ?n res p = fst (F ! p) \<and> b2e ! p = hash_code (snd (F ! p)) \<and> e2h ! (b2e ! p) = p"
    and lres: "length res = length F * ?n" and lidx: "length e2h = length F" "length b2e = length F"
    using M by (auto simp: merged_def)
  have "res = concat (map (\<lambda>p. fst (F ! p)) [0..<length F])"
    by (rule concat_chunks [OF lres]) (use pos in simp)
  also have "map (\<lambda>p. fst (F ! p)) [0..<length F] = map fst F" by (rule nth_equalityI) simp_all
  finally have res: "res = concat (map fst F)" .
  have inv: "e2h ! c < length F \<and> b2e ! (e2h ! c) = c \<and> F ! (e2h ! c) = entry hs elt (idx, i)"
    if c: "c = NUM_HASH_FUNCTIONS * idx + i" "idx < neles" "i < NUM_HASH_FUNCTIONS" for c idx i
  proof -
    have "c < NUM_HASH_FUNCTIONS * neles"
      using c mult_le_mono2 [of "Suc idx" neles NUM_HASH_FUNCTIONS] by simp
    then have "c \<in> set (map (hash_code \<circ> snd) F)"
      using mset_eq_setD [OF all_entries_codes [OF hs(1), of elt neles]] by (auto simp: F_def)
    then obtain p where p: "p < length F" "c = hash_code (snd (F ! p))" by (auto simp: in_set_conv_nth)
    then have "e2h ! c = p" "b2e ! p = c" using pos [OF p(1)] by metis+
    moreover have "F ! p = entry hs elt (idx, i)"
      using code_entry [OF hs(1), of p neles elt idx i] p c lF unfolding F_def by simp
    ultimately show ?thesis using p(1) by simp
  qed
  define out where "out = \<lparr>sho_hashed_elements = he, sho_res_bins = res, sho_nelesinbin = nele,
          sho_elements_to_hash_table = e2h, sho_bin_to_elements_to_hash_table = b2e\<rparr>"
  have "simple_hashing elements neles (hs_nbins hs) ntasks hs = Ok out"
    unfolding simple_hashing_def Let_def ctx rbind.simps he(1) [unfolded Let_def] prod.case run out_def ..
  moreover have "sho_hashed_elements out = concat (map ?V [0..<neles])" "sho_res_bins out = concat (map fst F)"
    "\<forall>b<hs_nbins hs. sho_nelesinbin out ! b = length (placed hs elt (hash_pairs [0..<neles]) b)"
    using he_eq res nele by (simp_all add: out_def G)
  moreover have "\<forall>p<NUM_HASH_FUNCTIONS * neles.
      sho_elements_to_hash_table out ! (sho_bin_to_elements_to_hash_table out ! p) = p"
    unfolding out_def simple_hash_output.simps using pos lF by metis
  moreover have "\<forall>idx<neles. \<forall>i<NUM_HASH_FUNCTIONS. let p = sho_elements_to_hash_table out ! (NUM_HASH_FUNCTIONS * idx + i) in
       p < NUM_HASH_FUNCTIONS * neles \<and> sho_bin_to_elements_to_hash_table out ! p = NUM_HASH_FUNCTIONS * idx + i \<and>
       F ! p = entry hs elt (idx, i)"
    unfolding out_def simple_hash_output.simps Let_def using inv lF by metis
  moreover have "length (sho_nelesinbin out) = 4 * hs_nbins hs" "length (sho_elements_to_hash_table out) = length F"
    "length (sho_bin_to_elements_to_hash_table out) = length F" "length (sho_res_bins out) = length F * ?n"
    "\<forall>p<length F. chunk ?n (sho_res_bins out) p = fst (F ! p) \<and> sho_bin_to_elements_to_hash_table out ! p = hash_code (snd (F ! p))"
    using nl lres lidx pos by (simp_all add: out_def)
  ultimately show ?thesis using lF by blast
qed


lemma span_bytes_wraps:
  assumes "s * n < 2 ^ 32" and "e < s" and "0 < n"
  shows "0 < span_bytes s e n"
proof (rule ccontr)
  assume "\<not> 0 < span_bytes s e n"
  then have "(of_nat e - of_nat s) * of_nat n = (0 :: u32)" by (simp add: span_bytes_def unsigned_eq_0_iff)
  then have "of_nat (e * n) = (of_nat (s * n) :: u32)" by (simp add: left_diff_distrib)
  then have "unat (of_nat (e * n) :: u32) = unat (of_nat (s * n) :: u32)" by (simp only:)
  moreover have less: "e * n < s * n" using assms(2,3) by simp
  moreover have "e * n < 2 ^ 32" using less assms(1) by (rule less_trans)
  ultimately show False using assms(1) by (simp add: unat_of_nat take_bit_nat_eq_self del: of_nat_mult)
qed

text \<open>C37: with a task that would start beyond the last element, simple hashing writes out of bounds:
  \<open>endpos - startpos\<close> is a negative \<open>uint32_t\<close>, and so is the length of the \<open>memcpy\<close> that collects the
  hashed elements. (Five elements on four tasks.)\<close>

theorem simple_hashing_overrun:
  assumes "hs_wf hs" and "hs_fits hs" and "outbytelen hs = ceil_divide (outbitlen hs) 8"
    and "length elements = neles * inbytelen hs" and "ntasks * ceil_divide neles ntasks * outbytelen hs < 2 ^ 32"
    and "0 < neles" and "0 < ntasks" and "neles < (ntasks - 1) * ceil_divide neles ntasks"
  shows "simple_hashing elements neles (hs_nbins hs) ntasks hs = Err OutOfBounds"
proof -
  let ?n = "outbytelen hs" and ?per = "ceil_divide neles ntasks"
  let ?e = "\<lambda>t. min (t * ?per + ?per) neles"
  let ?V = "\<lambda>i. val_of hs (element_at hs elements i)"
  have n: "0 < ?n" using assms(2) by (simp add: hs_fits_def)
  have cover: "neles \<le> ntasks * ?per" by (rule ceil_divide_covers [OF assms(7)])
  have small: "neles * ?n < 2 ^ 32" using assms(5) cover by (meson le_less_trans mult_le_mono1)
  let ?bad = "\<lambda>t. neles < t * ?per"
  define T where "T = (LEAST t. ?bad t)"
  have "?bad (ntasks - 1)" using assms(8) .
  then have T: "?bad T" "T \<le> ntasks - 1" unfolding T_def by (auto intro: LeastI Least_le)
  have Tn: "T < ntasks" using T(2) assms(7) by simp
  have good: "t * ?per \<le> neles" if "t < T" for t using not_less_Least [of t ?bad] that by (simp add: T_def)
  have gen: "\<exists>x. gen_entries hs elements (t * ?per) (?e t) (init_hash_table ?per hs) = Ok x \<and>
      (t < T \<longrightarrow> snd x = concat (map ?V [t * ?per..<?e t])) \<and>
      (neles < t * ?per \<longrightarrow> length (snd x) = span_bytes (t * ?per) neles ?n)" for t
  proof (cases "neles < t * ?per")
    case True
    then show ?thesis using not_less_Least [of t ?bad] by (auto simp: gen_entries_def T_def min_def)
  next
    case False
    then show ?thesis
      using gen_entries_ok [OF assms(1-4), of "t * ?per" "?e t" ?per] small by auto
  qed
  then obtain X where X: "\<And>t. gen_entries hs elements (t * ?per) (?e t) (init_hash_table ?per hs) = Ok (X t)"
    "\<And>t. t < T \<Longrightarrow> snd (X t) = concat (map ?V [t * ?per..<?e t])"
    "\<And>t. neles < t * ?per \<Longrightarrow> length (snd (X t)) = span_bytes (t * ?per) neles ?n" by metis
  let ?ctx = "map X [0..<ntasks]"
  have ctx: "rmap (\<lambda>t. gen_entries hs elements (t * ?per) (?e t) (init_hash_table ?per hs)) [0..<ntasks] = Ok ?ctx"
    by (rule rmap_Ok) (simp add: X)
  let ?f = "\<lambda>t (hashed_elements, k).
               let arr_size = span_bytes (t * ?per) (?e t) ?n in
               rbind (rd ?ctx t) (\<lambda>(table, hashed).
               rbind (rd_blk hashed 0 arr_size) (\<lambda>v.
               rbind (wr_blk hashed_elements k v) (\<lambda>hashed_elements. Ok (hashed_elements, k + arr_size))))"
  have len: "length (element_at hs elements i) = inbytelen hs" if "i < neles" for i
    unfolding element_at_def using that assms(4) by (rule length_chunk [rotated])
  obtain he where he: "rfold ?f [0..<T] (replicate (neles * ?n) 0, 0) = Ok (he, min (T * ?per) neles * ?n)" "length he = neles * ?n"
    using copy_hashed [of neles ?V ?n T ?ctx ?per] val_of_length [OF assms(2,1) len] small n X good T(2) Tn by auto
  let ?arr = "span_bytes (T * ?per) neles ?n"
  have "T * ?per * ?n < 2 ^ 32"
    using T(2) assms(5) by (meson diff_le_self le_less_trans le_trans mult_le_mono1)
  then have "0 < ?arr" using span_bytes_wraps T(1) n by blast
  then have err: "?f T (he, min (T * ?per) neles * ?n) = Err OutOfBounds"
    using he(2) T(1) Tn X(3) [OF T(1)] by (cases "X T") (auto simp: Let_def min_def wr_blk_def)
  have "rfold ?f ([0..<T] @ T # [Suc T..<ntasks]) (replicate (neles * ?n) 0, 0) = Err OutOfBounds"
    using he(1) err by (simp only: rfold_append rfold.simps rbind.simps)
  then have "rfold ?f [0..<ntasks] (replicate (neles * ?n) 0, 0) = Err OutOfBounds"
    by (simp only: upt_split [OF Tn, symmetric])
  then show ?thesis unfolding simple_hashing_def Let_def ctx by simp
qed

lemma flat_out: "outbytelen (flat_hs bits nbins a f) = ceil_divide (outbitlen (flat_hs bits nbins a f)) 8"
  "hs_nbins (flat_hs bits nbins a f) = nbins"
  by (simp_all add: flat_hs_def)


theorem simple_hashing_overrun_witness:
  "simple_hashing (replicate 40 1) 5 512 4 (flat_hs 64 512 9 9) = Err OutOfBounds"
  using simple_hashing_overrun [of "flat_hs 64 512 9 9" "replicate 40 1" 5 4] flat_hs_512 flat_out [of 64 512 9 9]
  by (simp add: ceil_divide_def)

end
