(* ===== verification/Cuckoo.thy ===== *)
theory Cuckoo
  imports Hashing
begin

text \<open>
  Cuckoo hashing, the leader's side (\<open>src/PSI/src/hashing/cuckoo.cpp\<close> and \<open>.h\<close>): every
  element is put into one of its three bins, evicting an element that is in the way.
  A pointer into the array \<open>cuckoo_entries\<close> is the index of the entry, the
  table maps a bin to the entry it holds. The iteration bound of \<open>insert_element\<close> is the
  number of elements, so the loop is a recursion on what is left of it.

  The lemmas show that the table is at every moment an injective partial map that sends an
  element to one of its own bins, what a successful and an exhausted insertion do to
  the set of stored elements, and what the result arrays then hold.
\<close>

section \<open>Entries\<close>

record cuckoo_entry_ctx =
  ce_eleid :: nat
  ce_address :: "nat list"
  ce_val :: bytes
  ce_pos :: nat

definition blank_entry :: cuckoo_entry_ctx where
  "blank_entry = \<lparr>ce_eleid = 0, ce_address = replicate NUM_HASH_FUNCTIONS 0, ce_val = [], ce_pos = 0\<rparr>"

definition gen_cuckoo_entry :: "bytes \<Rightarrow> nat \<Rightarrow> cuckoo_entry_ctx \<Rightarrow> hs_t \<Rightarrow> nat \<Rightarrow> cuckoo_entry_ctx res" where
  "gen_cuckoo_entry elements off out hs ele_id =
     rbind (hashElement hs elements off (ce_address out) (replicate (outbytelen hs) 0)) (\<lambda>(address, val).
     Ok \<lparr>ce_eleid = ele_id, ce_address = address, ce_val = val, ce_pos = 0\<rparr>)"

definition gen_cuckoo_entries ::
  "bytes \<Rightarrow> hs_t \<Rightarrow> nat \<Rightarrow> nat \<Rightarrow> cuckoo_entry_ctx list \<Rightarrow> cuckoo_entry_ctx list res" where
  "gen_cuckoo_entries elements hs startpos endpos cuckoo_entries =
     rfold (\<lambda>i es.
       rbind (rd es i) (\<lambda>e.
       rbind (gen_cuckoo_entry elements (i * ceil_divide (inbitlen hs) 8) e hs i) (\<lambda>e.
       wr es i e))) [startpos..<endpos] cuckoo_entries"

section \<open>Inserting an element\<close>

type_synonym ctable = "nat option list"

text \<open>The loop over the hash functions: the first one whose bin is empty.\<close>

fun free_function :: "ctable \<Rightarrow> nat list \<Rightarrow> nat list \<Rightarrow> nat option res" where
  "free_function ct address [] = Ok None"
| "free_function ct address (i # fs) =
     rbind (rd address i) (\<lambda>a.
     rbind (rd ct a) (\<lambda>c. if c = None then Ok (Some i) else free_function ct address fs))"

text \<open>\<open>n\<close> iterations are left, \<open>iter_cnt\<close> are done; the result says whether an empty bin was found.\<close>

fun insert_loop ::
  "nat \<Rightarrow> nat \<Rightarrow> nat \<Rightarrow> ctable \<times> cuckoo_entry_ctx list \<Rightarrow> ((ctable \<times> cuckoo_entry_ctx list) \<times> bool) res" where
  "insert_loop 0 iter_cnt evicted s = Ok (s, False)"
| "insert_loop (Suc n) iter_cnt evicted (ct, es) =
     rbind (rd es evicted) (\<lambda>e.
     rbind (free_function ct (ce_address e) [0..<NUM_HASH_FUNCTIONS]) (\<lambda>free.
     case free of
       Some i \<Rightarrow>
         rbind (rd (ce_address e) i) (\<lambda>a.
         rbind (wr ct a (Some evicted)) (\<lambda>ct.
         rbind (wr es evicted (e\<lparr>ce_pos := i\<rparr>)) (\<lambda>es. Ok ((ct, es), True))))
     | None \<Rightarrow>
         rbind (rd (ce_address e) ((ce_pos e XOR iter_cnt) mod NUM_HASH_FUNCTIONS)) (\<lambda>ev_pos.
         rbind (rd ct ev_pos) (\<lambda>p.
         rbind (wr ct ev_pos (Some evicted)) (\<lambda>ct.
         rbind (deref p) (\<lambda>evicted.
         rbind (rd es evicted) (\<lambda>e.
         rbind (wr es evicted (e\<lparr>ce_pos := (ce_pos e + 1) mod NUM_HASH_FUNCTIONS\<rparr>)) (\<lambda>es.
         insert_loop n (iter_cnt + 1) evicted (ct, es)))))))))"

definition cuckoo_insert_element ::
  "ctable \<Rightarrow> cuckoo_entry_ctx list \<Rightarrow> nat \<Rightarrow> nat \<Rightarrow> ((ctable \<times> cuckoo_entry_ctx list) \<times> bool) res" where
  "cuckoo_insert_element ct es element max_iterations = insert_loop max_iterations 0 element (ct, es)"

section \<open>Hashing all elements\<close>

text \<open>The first hash function of an entry that leads to bin \<open>i\<close>; the loop may find none.\<close>

fun function_of_bin :: "nat list \<Rightarrow> nat \<Rightarrow> nat list \<Rightarrow> nat option res" where
  "function_of_bin address i [] = Ok None"
| "function_of_bin address i (j # fs) =
     rbind (rd address j) (\<lambda>a. if a = i then Ok (Some j) else function_of_bin address i fs)"

text \<open>The arrays \<open>cuckoo_hashing\<close> returns and writes, and the elements reported on \<open>cerr\<close>.\<close>

record cuckoo_out =
  co_hash_table :: bytes
  co_nelesinbin :: "nat list"
  co_perm :: "nat list"
  co_bin_ids :: "nat list"
  co_hashed_by :: "nat list"
  co_failed :: "nat list"

text \<open>The loop that copies bin \<open>i\<close> of the table; \<open>k\<close> is the position of \<open>perm_ptr\<close>.\<close>

definition copy_bin ::
  "hs_t \<Rightarrow> ctable \<Rightarrow> cuckoo_entry_ctx list \<Rightarrow> nat \<Rightarrow> nat \<times> cuckoo_out \<Rightarrow> (nat \<times> cuckoo_out) res" where
  "copy_bin hs ct es i = (\<lambda>(k, out).
     rbind (rd ct i) (\<lambda>p.
     case p of
       Some x \<Rightarrow>
         rbind (rd es x) (\<lambda>e.
         rbind (function_of_bin (ce_address e) i [0..<NUM_HASH_FUNCTIONS]) (\<lambda>j.
         rbind (case j of None \<Rightarrow> Ok (co_hashed_by out) | Some j \<Rightarrow> wr (co_hashed_by out) i j) (\<lambda>hashed_by.
         rbind (rd_blk (ce_val e) 0 (outbytelen hs)) (\<lambda>v.
         rbind (wr_blk (co_hash_table out) (i * outbytelen hs) v) (\<lambda>hash_table.
         rbind (wr (co_perm out) k (ce_eleid e)) (\<lambda>perm.
         rbind (wr (co_nelesinbin out) i 1) (\<lambda>nelesinbin.
         rbind (wr (co_bin_ids out) i (ce_eleid e + 1)) (\<lambda>bin_ids.
         Ok (k + 1, out\<lparr>co_hash_table := hash_table, co_nelesinbin := nelesinbin, co_perm := perm,
               co_bin_ids := bin_ids, co_hashed_by := hashed_by\<rparr>)))))))))
     | None \<Rightarrow>
         rbind (wr_blk (co_hash_table out) (i * outbytelen hs) (replicate (outbytelen hs) DUMMY_ENTRY_CLIENT)) (\<lambda>hash_table.
         rbind (wr (co_nelesinbin out) i 0) (\<lambda>nelesinbin.
         Ok (k, out\<lparr>co_hash_table := hash_table, co_nelesinbin := nelesinbin\<rparr>)))))"

text \<open>The threads write disjoint parts of \<open>cuckoo_entries\<close>; they run one after another here.\<close>

definition cuckoo_hashing ::
  "bytes \<Rightarrow> nat \<Rightarrow> nat \<Rightarrow> hs_t \<Rightarrow> nat list \<Rightarrow> nat list \<Rightarrow> nat \<Rightarrow> nat list \<Rightarrow> nat list \<Rightarrow> cuckoo_out res" where
  "cuckoo_hashing elements neles nbins hs nelesinbin perm ntasks bin_ids hashed_by =
     rbind (rfold (\<lambda>t es.
              let startpos = t * ceil_divide neles ntasks;
                  endpos = min (startpos + ceil_divide neles ntasks) neles
              in gen_cuckoo_entries elements hs startpos endpos es)
            [0..<ntasks] (replicate neles blank_entry)) (\<lambda>cuckoo_entries.
     rbind (rfold (\<lambda>i (ct, es, failed).
              rbind (cuckoo_insert_element ct es i neles) (\<lambda>((ct, es), ok).
              Ok (ct, es, if ok then failed else failed @ [i])))
            [0..<neles] (replicate nbins None, cuckoo_entries, [])) (\<lambda>(ct, es, failed).
     rbind (rfold (copy_bin hs ct es) [0..<nbins]
              (0, \<lparr>co_hash_table = replicate (nbins * outbytelen hs) 0, co_nelesinbin = nelesinbin, co_perm = perm,
                   co_bin_ids = bin_ids, co_hashed_by = hashed_by, co_failed = failed\<rparr>))
       (\<lambda>(k, out). Ok out)))"

section \<open>The table\<close>

definition stored_in :: "ctable \<Rightarrow> nat set" where
  "stored_in ct = {k. Some k \<in> set ct}"

text \<open>Every entry of the table is in one of its own bins, and in one bin only.\<close>

definition table_inv :: "nat \<Rightarrow> nat \<Rightarrow> (nat \<Rightarrow> nat list) \<Rightarrow> ctable \<Rightarrow> bool" where
  "table_inv nbins n addr ct \<longleftrightarrow> length ct = nbins \<and>
     (\<forall>b<nbins. \<forall>k. ct ! b = Some k \<longrightarrow> k < n \<and> b \<in> set (addr k)) \<and>
     (\<forall>b<nbins. \<forall>c<nbins. \<forall>k. ct ! b = Some k \<longrightarrow> ct ! c = Some k \<longrightarrow> b = c)"

text \<open>The addresses, values and ids of the entries stay what they were.\<close>

definition entries_are :: "nat \<Rightarrow> nat \<Rightarrow> (nat \<Rightarrow> nat list) \<Rightarrow> (nat \<Rightarrow> bytes) \<Rightarrow> cuckoo_entry_ctx list \<Rightarrow> bool" where
  "entries_are nbins n addr val es \<longleftrightarrow> length es = n \<and>
     (\<forall>k<n. ce_address (es ! k) = addr k \<and> ce_val (es ! k) = val k \<and> ce_eleid (es ! k) = k \<and>
        length (addr k) = NUM_HASH_FUNCTIONS \<and> (\<forall>a\<in>set (addr k). a < nbins))"

lemma entries_are_pos:
  "entries_are nbins n addr val es \<Longrightarrow> k < n \<Longrightarrow> entries_are nbins n addr val (es[k := (es ! k)\<lparr>ce_pos := p\<rparr>])"
  by (auto simp: entries_are_def nth_list_update)

lemma free_function_ok:
  assumes "\<forall>a\<in>set address. a < length ct" and "set fs \<subseteq> {..<length address}"
  shows "free_function ct address fs = Ok (find (\<lambda>i. ct ! (address ! i) = None) fs)"
  using assms(2) assms(1) by (induction fs) auto

lemma function_of_bin_ok:
  "set fs \<subseteq> {..<length address} \<Longrightarrow> function_of_bin address i fs = Ok (find (\<lambda>j. address ! j = i) fs)"
  by (induction fs) auto

lemma table_put:
  assumes inv: "table_inv nbins n addr ct" and k: "k < n" "k \<notin> stored_in ct" and b: "b < nbins" "b \<in> set (addr k)"
  shows "table_inv nbins n addr (ct[b := Some k]) \<and>
    stored_in (ct[b := Some k]) = insert k (stored_in ct - set_option (ct ! b))"
proof -
  have len: "length ct = nbins" and fresh: "\<And>c. c < nbins \<Longrightarrow> ct ! c \<noteq> Some k"
    and inj: "\<And>c d j. c < nbins \<Longrightarrow> d < nbins \<Longrightarrow> ct ! c = Some j \<Longrightarrow> ct ! d = Some j \<Longrightarrow> c = d"
    using inv k(2) by (auto simp: table_inv_def stored_in_def in_set_conv_nth)
  have "table_inv nbins n addr (ct[b := Some k])"
    using inv k(1) b fresh by (auto simp: table_inv_def nth_list_update)
  moreover have "stored_in (ct[b := Some k]) = insert k (stored_in ct - set_option (ct ! b))"
    unfolding stored_in_def using b len fresh inj
    by (auto simp: in_set_conv_nth nth_list_update split: if_splits) metis+
  ultimately show ?thesis by simp
qed

lemma insert_loop_ok:
  assumes "table_inv nbins n addr ct" and "entries_are nbins n addr val es"
    and "evicted < n" and "evicted \<notin> stored_in ct"
  shows "\<exists>ct' es' ok. insert_loop m iter_cnt evicted (ct, es) = Ok ((ct', es'), ok) \<and>
    table_inv nbins n addr ct' \<and> entries_are nbins n addr val es' \<and>
    (if ok then stored_in ct' = insert evicted (stored_in ct)
     else \<exists>lost\<in>insert evicted (stored_in ct). stored_in ct' = insert evicted (stored_in ct) - {lost})"
  using assms
proof (induction m arbitrary: iter_cnt evicted ct es)
  case 0
  then show ?case by auto
next
  case (Suc m)
  let ?e = "es ! evicted"
  have e: "ce_address ?e = addr evicted" "length (addr evicted) = NUM_HASH_FUNCTIONS" "\<forall>a\<in>set (addr evicted). a < nbins"
    "length es = n" using Suc.prems(2,3) by (auto simp: entries_are_def)
  have len: "length ct = nbins" using Suc.prems(1) by (simp add: table_inv_def)
  have "set [0..<NUM_HASH_FUNCTIONS] \<subseteq> {..<length (addr evicted)}" using e by auto
  then have free: "free_function ct (ce_address ?e) [0..<NUM_HASH_FUNCTIONS] =
      Ok (find (\<lambda>i. ct ! (addr evicted ! i) = None) [0..<NUM_HASH_FUNCTIONS])"
    using free_function_ok [of "addr evicted" ct "[0..<NUM_HASH_FUNCTIONS]"] e len by simp
  show ?case
  proof (cases "find (\<lambda>i. ct ! (addr evicted ! i) = None) [0..<NUM_HASH_FUNCTIONS]")
    case (Some i)
    then have i: "i < NUM_HASH_FUNCTIONS" "ct ! (addr evicted ! i) = None"
      by (auto simp: find_Some_iff)
    let ?b = "addr evicted ! i"
    have b: "?b \<in> set (addr evicted)" "?b < nbins" using i e by simp_all
    have "insert_loop (Suc m) iter_cnt evicted (ct, es) = Ok ((ct[?b := Some evicted], es[evicted := ?e\<lparr>ce_pos := i\<rparr>]), True)"
      using Some i e b len free Suc.prems(3) by simp
    then show ?thesis
      using table_put [OF Suc.prems(1,3,4) b(2,1)] i(2) entries_are_pos [OF Suc.prems(2,3)] by auto
  next
    case None
    let ?i = "(ce_pos ?e XOR iter_cnt) mod NUM_HASH_FUNCTIONS"
    let ?b = "addr evicted ! ?i"
    have i: "?i < NUM_HASH_FUNCTIONS" by (simp add: NUM_HASH_FUNCTIONS_def)
    then have b: "?b \<in> set (addr evicted)" "?b < nbins" using e by simp_all
    obtain v where v: "ct ! ?b = Some v" using None i by (auto simp: find_None_iff)
    have vn: "v < n" "v \<in> stored_in ct"
      using Suc.prems(1) b(2) v len by (auto simp: table_inv_def stored_in_def in_set_conv_nth)
    let ?ct = "ct[?b := Some evicted]"
    let ?es = "es[v := (es ! v)\<lparr>ce_pos := (ce_pos (es ! v) + 1) mod NUM_HASH_FUNCTIONS\<rparr>]"
    have put: "table_inv nbins n addr ?ct" "stored_in ?ct = insert evicted (stored_in ct - {v})"
      using table_put [OF Suc.prems(1,3,4) b(2,1)] v by auto
    have es: "entries_are nbins n addr val ?es" by (rule entries_are_pos [OF Suc.prems(2) vn(1)])
    have notin: "v \<notin> stored_in ?ct" using put vn Suc.prems(4) by auto
    have ins: "insert v (stored_in ?ct) = insert evicted (stored_in ct)" using put vn by auto
    have run: "insert_loop (Suc m) iter_cnt evicted (ct, es) = insert_loop m (iter_cnt + 1) v (?ct, ?es)"
      using None i e b len free v vn Suc.prems(3) by (simp add: deref_def)
    show ?thesis unfolding run using Suc.IH [OF put(1) es vn(1) notin, of "iter_cnt + 1"] unfolding ins .
  qed
qed

section \<open>The generated entries\<close>

lemma gen_cuckoo_entries_ok:
  assumes hs: "hs_wf hs" "hs_fits hs" "inbytelen hs = ceil_divide (inbitlen hs) 8"
    and l: "length elements = neles * inbytelen hs" "endpos \<le> neles" "length es = neles"
    and addr: "\<And>k. k < neles \<Longrightarrow> length (ce_address (es ! k)) = NUM_HASH_FUNCTIONS"
    and E: "E = (\<lambda>k. \<lparr>ce_eleid = k, ce_address = addrs hs (element_at hs elements k),
      ce_val = val_of hs (element_at hs elements k), ce_pos = 0\<rparr>)"
  shows "\<exists>es'. gen_cuckoo_entries elements hs startpos endpos es = Ok es' \<and> length es' = neles \<and>
    (\<forall>k<neles. es' ! k = (if startpos \<le> k \<and> k < endpos then E k else es ! k))"
proof (cases "startpos \<le> endpos")
  case False
  then show ?thesis using l by (auto simp: gen_cuckoo_entries_def)
next
  case True
  let ?P = "\<lambda>i es'. length es' = neles \<and> (\<forall>k<neles. es' ! k = (if startpos \<le> k \<and> k < i then E k else es ! k))"
  show ?thesis
    unfolding gen_cuckoo_entries_def
  proof (rule rfold_upt_inv [where P = ?P, OF True])
    fix i es' assume i: "startpos \<le> i" "i < endpos" and P: "?P i es'"
    let ?e = "element_at hs elements i"
    have inb: "i * inbytelen hs + inbytelen hs \<le> length elements" using chunk_fits [OF l(1)] i l(2) by simp
    have e: "?e = take (inbytelen hs) (drop (i * inbytelen hs) elements)" by (simp add: element_at_def chunk_def)
    have "length (ce_address (es' ! i)) = NUM_HASH_FUNCTIONS" using P i l(2) addr by simp
    then have "hashElement hs elements (i * inbytelen hs) (ce_address (es' ! i)) (replicate (outbytelen hs) 0) =
        Ok (addrs hs ?e, val_of hs ?e)"
      using hashElement_ok [OF hs(1,2) e inb] by (simp add: addrs_def)
    then show "\<exists>s'. rbind (rd es' i) (\<lambda>e. rbind (gen_cuckoo_entry elements (i * ceil_divide (inbitlen hs) 8) e hs i) (\<lambda>e. wr es' i e)) = Ok s' \<and> ?P (Suc i) s'"
      using P i l(2) by (simp add: gen_cuckoo_entry_def E hs(3) [symmetric] nth_list_update less_Suc_eq)
  qed (use l in auto)
qed

lemma gen_all_entries_ok:
  assumes hs: "hs_wf hs" "hs_fits hs" "inbytelen hs = ceil_divide (inbitlen hs) 8"
    and l: "length elements = neles * inbytelen hs" and T: "0 < ntasks"
    and E: "E = (\<lambda>k. \<lparr>ce_eleid = k, ce_address = addrs hs (element_at hs elements k),
      ce_val = val_of hs (element_at hs elements k), ce_pos = 0\<rparr>)"
  shows "rfold (\<lambda>t es.
              let startpos = t * ceil_divide neles ntasks;
                  endpos = min (startpos + ceil_divide neles ntasks) neles
              in gen_cuckoo_entries elements hs startpos endpos es)
            [0..<ntasks] (replicate neles blank_entry) = Ok (map E [0..<neles])"
proof -
  let ?per = "ceil_divide neles ntasks"
  let ?f = "\<lambda>t es. let startpos = t * ?per; endpos = min (startpos + ?per) neles
              in gen_cuckoo_entries elements hs startpos endpos es"
  let ?P = "\<lambda>t es. length es = neles \<and> (\<forall>k<neles. es ! k = (if k < t * ?per then E k else blank_entry))"
  have "\<exists>es. rfold ?f [0..<ntasks] (replicate neles blank_entry) = Ok es \<and> ?P ntasks es"
  proof (rule rfold_upt_inv [where P = ?P])
    fix t es assume P: "?P t es"
    have "length (ce_address (es ! k)) = NUM_HASH_FUNCTIONS" if "k < neles" for k
      using P that by (simp add: E blank_entry_def addrs_def)
    then obtain es' where "gen_cuckoo_entries elements hs (t * ?per) (min (t * ?per + ?per) neles) es = Ok es'"
      "length es' = neles" "\<And>k. k < neles \<Longrightarrow> es' ! k = (if t * ?per \<le> k \<and> k < min (t * ?per + ?per) neles then E k else es ! k)"
      using gen_cuckoo_entries_ok [OF hs l, of "min (t * ?per + ?per) neles" es E "t * ?per"] P E by auto
    then show "\<exists>es'. ?f t es = Ok es' \<and> ?P (Suc t) es'"
      using P by (simp add: Let_def add.commute)
  qed simp_all
  then obtain es where run: "rfold ?f [0..<ntasks] (replicate neles blank_entry) = Ok es" and P: "?P ntasks es" by blast
  have "es = map E [0..<neles]"
    using P ceil_divide_covers [OF T, of neles] by (intro nth_equalityI) auto
  then show ?thesis using run by simp
qed

section \<open>All insertions\<close>

lemma finite_stored: "finite (stored_in ct)"
proof -
  have "Some ` stored_in ct \<subseteq> set ct" by (auto simp: stored_in_def)
  then show ?thesis by (meson finite_imageD finite_set finite_subset inj_Some)
qed

lemma insert_all_ok:
  assumes es: "entries_are nbins n addr val es"
  shows "\<exists>ct es' failed. rfold (\<lambda>i (ct, es, failed).
              rbind (cuckoo_insert_element ct es i n) (\<lambda>((ct, es), ok).
              Ok (ct, es, if ok then failed else failed @ [i])))
            [0..<n] (replicate nbins None, es, []) = Ok (ct, es', failed) \<and>
    table_inv nbins n addr ct \<and> entries_are nbins n addr val es' \<and>
    stored_in ct \<subseteq> {..<n} \<and> card (stored_in ct) + length failed = n"
proof -
  let ?f = "\<lambda>i (ct, es, failed). rbind (cuckoo_insert_element ct es i n) (\<lambda>((ct, es), ok).
              Ok (ct, es, if ok then failed else failed @ [i]))"
  let ?P = "\<lambda>i (ct, es, failed :: nat list). table_inv nbins n addr ct \<and> entries_are nbins n addr val es \<and>
      stored_in ct \<subseteq> {..<i} \<and> card (stored_in ct) + length failed = i"
  have "\<exists>s. rfold ?f [0..<n] (replicate nbins None, es, []) = Ok s \<and> ?P n s"
  proof (rule rfold_upt_inv [where P = ?P])
    show "?P 0 (replicate nbins None, es, [])" using es by (auto simp: table_inv_def stored_in_def)
  next
    fix i s assume i: "i < n" and P: "?P i s"
    obtain ct es failed where s: "s = (ct, es, failed)" by (cases s)
    have inv: "table_inv nbins n addr ct" "entries_are nbins n addr val es" and new: "i \<notin> stored_in ct"
      and sub: "stored_in ct \<subseteq> {..<i}" and card: "card (stored_in ct) + length failed = i"
      using P s by auto
    obtain ct' es' ok where r: "insert_loop n 0 i (ct, es) = Ok ((ct', es'), ok)" "table_inv nbins n addr ct'"
      "entries_are nbins n addr val es'"
      and st: "if ok then stored_in ct' = insert i (stored_in ct)
         else \<exists>lost\<in>insert i (stored_in ct). stored_in ct' = insert i (stored_in ct) - {lost}"
      using insert_loop_ok [OF inv i new, of n 0] by blast
    have ci: "card (insert i (stored_in ct)) = Suc (card (stored_in ct))" using new finite_stored by simp
    have "card (stored_in ct') + length (if ok then failed else failed @ [i]) = Suc i"
    proof (cases ok)
      case True
      then show ?thesis using st ci card by simp
    next
      case False
      then obtain lost where "lost \<in> insert i (stored_in ct)" "stored_in ct' = insert i (stored_in ct) - {lost}"
        using st by auto
      then have "card (stored_in ct') = card (stored_in ct)" using ci by (simp only: card_Diff_singleton diff_Suc_1)
      then show ?thesis using False card by simp
    qed
    moreover have "stored_in ct' \<subseteq> {..<Suc i}" using st sub by (cases ok) auto
    moreover have "?f i s = Ok (ct', es', if ok then failed else failed @ [i])"
      using r(1) s by (simp add: cuckoo_insert_element_def)
    ultimately show "\<exists>s'. ?f i s = Ok s' \<and> ?P (Suc i) s'"
      using r(2,3) by (intro exI [of _ "(ct', es', if ok then failed else failed @ [i])"]) simp
  qed simp
  then show ?thesis by auto
qed

section \<open>Copying the table\<close>

text \<open>The elements of the bins, in bin order.\<close>

definition ids :: "ctable \<Rightarrow> nat list" where
  "ids ct = map the (filter (\<lambda>p. p \<noteq> None) ct)"

lemma ids_snoc: "ids (ct @ [p]) = ids ct @ (case p of None \<Rightarrow> [] | Some k \<Rightarrow> [k])"
  by (simp add: ids_def split: option.split)

lemma set_ids: "set (ids ct) = stored_in ct"
  by (force simp: ids_def stored_in_def)

lemma distinct_ids:
  assumes "table_inv nbins n addr ct" and "i \<le> nbins"
  shows "distinct (ids (take i ct))"
  using assms(2)
proof (induction i)
  case 0
  then show ?case by (simp add: ids_def)
next
  case (Suc i)
  have len: "length ct = nbins" using assms(1) by (simp add: table_inv_def)
  have "k \<notin> set (ids (take i ct))" if "ct ! i = Some k" for k
    using assms(1) that Suc.prems len
    by (auto simp: set_ids stored_in_def in_set_conv_nth table_inv_def) (metis less_irrefl less_trans not_less_eq less_le_trans)
  then show ?case using Suc len by (auto simp: take_Suc_conv_app_nth ids_snoc split: option.split)
qed

lemma stored_less: "table_inv nbins n addr ct \<Longrightarrow> k \<in> stored_in ct \<Longrightarrow> k < n"
  by (auto simp: stored_in_def in_set_conv_nth table_inv_def)

text \<open>What the arrays hold for bin \<open>b\<close>.\<close>

definition bin_copied :: "hs_t \<Rightarrow> (nat \<Rightarrow> bytes) \<Rightarrow> ctable \<Rightarrow> nat list \<Rightarrow> cuckoo_out \<Rightarrow> nat \<Rightarrow> bool" where
  "bin_copied hs elt ct bin_ids out b =
     (case ct ! b of
        None \<Rightarrow> chunk (outbytelen hs) (co_hash_table out) b = replicate (outbytelen hs) DUMMY_ENTRY_CLIENT \<and>
          co_nelesinbin out ! b = 0 \<and> co_bin_ids out ! b = bin_ids ! b
      | Some k \<Rightarrow> chunk (outbytelen hs) (co_hash_table out) b = val_of hs (elt k) \<and>
          co_nelesinbin out ! b = 1 \<and> co_bin_ids out ! b = k + 1 \<and>
          co_hashed_by out ! b < NUM_HASH_FUNCTIONS \<and> addr_of hs (elt k) (co_hashed_by out ! b) = b \<and>
          (\<forall>j<co_hashed_by out ! b. addr_of hs (elt k) j \<noteq> b))"

lemma bin_copied_frame:
  "bin_copied hs elt ct bin_ids out b \<Longrightarrow>
   chunk (outbytelen hs) (co_hash_table out') b = chunk (outbytelen hs) (co_hash_table out) b \<Longrightarrow>
   co_nelesinbin out' ! b = co_nelesinbin out ! b \<Longrightarrow> co_bin_ids out' ! b = co_bin_ids out ! b \<Longrightarrow>
   co_hashed_by out' ! b = co_hashed_by out ! b \<Longrightarrow> bin_copied hs elt ct bin_ids out' b"
  by (cases "ct ! b") (simp_all add: bin_copied_def)

lemma copy_all_ok:
  assumes inv: "table_inv nbins n (\<lambda>k. addrs hs (elt k)) ct"
    and es: "entries_are nbins n (\<lambda>k. addrs hs (elt k)) (\<lambda>k. val_of hs (elt k)) es"
    and v: "\<And>k. k < n \<Longrightarrow> length (val_of hs (elt k)) = outbytelen hs"
    and l: "length (co_hash_table out0) = nbins * outbytelen hs" "length (co_perm out0) = n"
      "length (co_nelesinbin out0) = nbins" "length (co_bin_ids out0) = nbins" "length (co_hashed_by out0) = nbins"
  shows "\<exists>out. rfold (copy_bin hs ct es) [0..<nbins] (0, out0) = Ok (length (ids ct), out) \<and>
    (\<forall>b<nbins. bin_copied hs elt ct (co_bin_ids out0) out b) \<and> co_perm out = ids ct @ drop (length (ids ct)) (co_perm out0) \<and>
    length (co_nelesinbin out) = nbins \<and> length (co_bin_ids out) = nbins \<and> length (co_hashed_by out) = nbins \<and>
    length (co_hash_table out) = nbins * outbytelen hs \<and> co_failed out = co_failed out0"
proof -
  let ?n = "outbytelen hs"
  have len: "length ct = nbins" using inv by (simp add: table_inv_def)
  let ?P = "\<lambda>i (k, out). k = length (ids (take i ct)) \<and>
      length (co_hash_table out) = nbins * ?n \<and> length (co_nelesinbin out) = nbins \<and> length (co_bin_ids out) = nbins \<and>
      length (co_hashed_by out) = nbins \<and> co_perm out = ids (take i ct) @ drop k (co_perm out0) \<and>
      (\<forall>b<i. bin_copied hs elt ct (co_bin_ids out0) out b) \<and>
      (\<forall>b<nbins. i \<le> b \<longrightarrow> co_bin_ids out ! b = co_bin_ids out0 ! b) \<and> co_failed out = co_failed out0"
  have "\<exists>s. rfold (copy_bin hs ct es) [0..<nbins] (0, out0) = Ok s \<and> ?P nbins s"
  proof (rule rfold_upt_inv [where P = ?P])
    fix i s assume i: "i < nbins" and P: "?P i s"
    obtain k out where s: "s = (k, out)" by (cases s)
    have tk: "take (Suc i) ct = take i ct @ [ct ! i]" using i len by (simp add: take_Suc_conv_app_nth)
    have ht: "length (co_hash_table out) = nbins * ?n" using P s by simp
    note fits = chunk_fits [OF ht i]
    show "\<exists>s'. copy_bin hs ct es i s = Ok s' \<and> ?P (Suc i) s'"
    proof (cases "ct ! i")
      case None
      let ?out = "out\<lparr>co_hash_table := blit (co_hash_table out) (i * ?n) (replicate ?n DUMMY_ENTRY_CLIENT),
          co_nelesinbin := (co_nelesinbin out)[i := 0]\<rparr>"
      have "copy_bin hs ct es i s = Ok (k, ?out)"
        using None s i len fits P by (simp add: copy_bin_def)
      moreover have "bin_copied hs elt ct (co_bin_ids out0) ?out b" if b: "b < Suc i" for b
      proof (cases "b = i")
        case True
        then show ?thesis using P s i None chunk_blit [OF ht i] by (simp add: bin_copied_def)
      next
        case False
        then have "bin_copied hs elt ct (co_bin_ids out0) out b" using b P s by simp
        then show ?thesis by (rule bin_copied_frame) (use False b i chunk_blit [OF ht i] in simp_all)
      qed
      ultimately show ?thesis using P s i None tk fits ht by (simp add: ids_snoc)
    next
      case (Some x)
      have x: "x < n" "i \<in> set (addrs hs (elt x))" using inv i Some by (auto simp: table_inv_def)
      have e: "x < length es" "ce_address (es ! x) = addrs hs (elt x)" "ce_val (es ! x) = val_of hs (elt x)" "ce_eleid (es ! x) = x"
        using es x(1) by (auto simp: entries_are_def)
      have la: "length (addrs hs (elt x)) = NUM_HASH_FUNCTIONS" by (simp add: addrs_def)
      obtain j where j: "find (\<lambda>j. addrs hs (elt x) ! j = i) [0..<NUM_HASH_FUNCTIONS] = Some j"
        using x(2) la by (cases "find (\<lambda>j. addrs hs (elt x) ! j = i) [0..<NUM_HASH_FUNCTIONS]")
          (auto simp: find_None_iff in_set_conv_nth)
      then have jn: "j < NUM_HASH_FUNCTIONS" "addr_of hs (elt x) j = i" "\<forall>j'<j. addr_of hs (elt x) j' \<noteq> i"
        by (auto simp: find_Some_iff addrs_def)
      have fn: "function_of_bin (addrs hs (elt x)) i [0..<NUM_HASH_FUNCTIONS] = Ok (Some j)"
        using function_of_bin_ok [of "[0..<NUM_HASH_FUNCTIONS]" "addrs hs (elt x)" i] j la by (simp add: lessThan_atLeast0)
      have "distinct (ids (take (Suc i) ct))" using distinct_ids [OF inv, of "Suc i"] i by simp
      moreover have "set (ids (take (Suc i) ct)) \<subseteq> {..<n}"
        using stored_less [OF inv] set_take_subset [of "Suc i" ct] by (auto simp: set_ids stored_in_def)
      ultimately have "length (ids (take (Suc i) ct)) \<le> n"
        by (metis card_lessThan card_mono distinct_card finite_lessThan)
      then have k: "k < length (co_perm out)" "k < n" using P s tk Some l(2) by (auto simp: ids_snoc)
      have perm: "(co_perm out)[k := x] = ids (take (Suc i) ct) @ drop (Suc k) (co_perm out0)"
        using P s tk Some k l(2) by (simp add: ids_snoc list_update_append flip: Cons_nth_drop_Suc)
      let ?out = "out\<lparr>co_hash_table := blit (co_hash_table out) (i * ?n) (val_of hs (elt x)),
          co_nelesinbin := (co_nelesinbin out)[i := 1], co_perm := (co_perm out)[k := x],
          co_bin_ids := (co_bin_ids out)[i := x + 1], co_hashed_by := (co_hashed_by out)[i := j]\<rparr>"
      have "copy_bin hs ct es i s = Ok (k + 1, ?out)"
        using Some s i len fits P e v [OF x(1)] fn k by (simp add: copy_bin_def)
      moreover have "bin_copied hs elt ct (co_bin_ids out0) ?out b" if b: "b < Suc i" for b
      proof (cases "b = i")
        case True
        then show ?thesis using P s i Some chunk_blit [OF ht i] v [OF x(1)] jn by (simp add: bin_copied_def)
      next
        case False
        then have "bin_copied hs elt ct (co_bin_ids out0) out b" using b P s by simp
        then show ?thesis by (rule bin_copied_frame) (use False b i chunk_blit [OF ht i] v [OF x(1)] in simp_all)
      qed
      ultimately show ?thesis using P s i Some tk fits ht perm v [OF x(1)] by (simp add: ids_snoc)
    qed
  qed (use l in \<open>simp_all add: ids_def\<close>)
  then show ?thesis using len by auto
qed

section \<open>Cuckoo hashing as a whole\<close>

lemma cuckoo_run:
  assumes hs: "hs_wf hs" "hs_fits hs" "inbytelen hs = ceil_divide (inbitlen hs) 8"
    and l: "length elements = neles * inbytelen hs" and T: "0 < ntasks"
    and a: "length nelesinbin = hs_nbins hs" "length perm = neles" "length bin_ids = hs_nbins hs"
      "length hashed_by = hs_nbins hs"
  shows "\<exists>ct out. cuckoo_hashing elements neles (hs_nbins hs) hs nelesinbin perm ntasks bin_ids hashed_by = Ok out \<and>
    table_inv (hs_nbins hs) neles (\<lambda>k. addrs hs (element_at hs elements k)) ct \<and>
    card (stored_in ct) + length (co_failed out) = neles \<and>
    (\<forall>b<hs_nbins hs. bin_copied hs (element_at hs elements) ct bin_ids out b) \<and>
    co_perm out = ids ct @ drop (length (ids ct)) perm \<and> length (co_nelesinbin out) = hs_nbins hs \<and>
    length (co_bin_ids out) = hs_nbins hs \<and> length (co_hashed_by out) = hs_nbins hs \<and>
    length (co_hash_table out) = hs_nbins hs * outbytelen hs"
proof -
  let ?elt = "element_at hs elements" and ?nb = "hs_nbins hs"
  let ?addr = "\<lambda>k. addrs hs (?elt k)" and ?val = "\<lambda>k. val_of hs (?elt k)"
  define E where "E = (\<lambda>k. \<lparr>ce_eleid = k, ce_address = ?addr k, ce_val = ?val k, ce_pos = 0\<rparr>)"
  note gen = gen_all_entries_ok [OF hs l T E_def]
  have es: "entries_are ?nb neles ?addr ?val (map E [0..<neles])"
    using addr_of_less [OF hs(1)] by (auto simp: entries_are_def E_def addrs_def)
  obtain ct es' failed where ins: "rfold (\<lambda>i (ct, es, failed).
              rbind (cuckoo_insert_element ct es i neles) (\<lambda>((ct, es), ok).
              Ok (ct, es, if ok then failed else failed @ [i])))
            [0..<neles] (replicate ?nb None, map E [0..<neles], []) = Ok (ct, es', failed)"
    and ct: "table_inv ?nb neles ?addr ct" "entries_are ?nb neles ?addr ?val es'" "card (stored_in ct) + length failed = neles"
    using insert_all_ok [OF es] by blast
  let ?out0 = "\<lparr>co_hash_table = replicate (?nb * outbytelen hs) 0, co_nelesinbin = nelesinbin, co_perm = perm,
                   co_bin_ids = bin_ids, co_hashed_by = hashed_by, co_failed = failed\<rparr>"
  have len: "length (?elt k) = inbytelen hs" if "k < neles" for k
    unfolding element_at_def using that l by (rule length_chunk [rotated])
  have v: "length (?val k) = outbytelen hs" if "k < neles" for k by (rule val_of_length [OF hs(2,1) len [OF that]])
  obtain out where copy: "rfold (copy_bin hs ct es') [0..<?nb] (0, ?out0) = Ok (length (ids ct), out)"
    and out: "\<forall>b<?nb. bin_copied hs ?elt ct bin_ids out b" "co_perm out = ids ct @ drop (length (ids ct)) perm"
      "length (co_nelesinbin out) = ?nb" "length (co_bin_ids out) = ?nb" "length (co_hashed_by out) = ?nb"
      "length (co_hash_table out) = ?nb * outbytelen hs" "co_failed out = failed"
    using copy_all_ok [OF ct(1,2) v, of ?out0] a by auto
  have "cuckoo_hashing elements neles ?nb hs nelesinbin perm ntasks bin_ids hashed_by = Ok out"
    unfolding cuckoo_hashing_def gen rbind.simps ins prod.case copy ..
  then show ?thesis using ct out by (intro exI [of _ ct] exI [of _ out]) simp
qed

text \<open>A final table with nothing missing has every element.\<close>

lemma all_stored:
  assumes "table_inv nbins n addr ct" and "card (stored_in ct) = n"
  shows "stored_in ct = {..<n}"
  using assms stored_less [OF assms(1)] by (intro card_subset_eq) auto

text \<open>C33: cuckoo hashing never leaves its arrays, and the arrays describe a partial assignment
  of elements to bins, \<open>tab\<close>: an element is in at most one bin, a bin it has under the hash function noted in
  \<open>hashed_by\<close>, the first one that leads there; the bin holds the value of the element and \<open>bin_ids\<close> its number plus one; an empty
  bin holds the dummy value. \<open>perm\<close> begins with the elements in bin order, each once. The elements that are in no
  bin are as many as the insertions reported on \<open>cerr\<close>; with no report all elements are placed.\<close>

theorem cuckoo_hashing_correct:
  assumes "hs_wf hs" and "hs_fits hs" and "inbytelen hs = ceil_divide (inbitlen hs) 8"
    and "length elements = neles * inbytelen hs" and "0 < ntasks"
    and "length nelesinbin = hs_nbins hs" and "length perm = neles" and "length bin_ids = hs_nbins hs"
    and "length hashed_by = hs_nbins hs"
  shows "\<exists>out tab. cuckoo_hashing elements neles (hs_nbins hs) hs nelesinbin perm ntasks bin_ids hashed_by = Ok out \<and>
    length tab = hs_nbins hs \<and> list_all (\<lambda>b. bin_copied hs (element_at hs elements) tab bin_ids out b) [0..<hs_nbins hs] \<and>
    distinct (ids tab) \<and> set (ids tab) \<subseteq> {..<neles} \<and> take (length (ids tab)) (co_perm out) = ids tab \<and>
    length (ids tab) + length (co_failed out) = neles \<and>
    (co_failed out = [] \<longrightarrow> set (ids tab) = {..<neles})"
proof -
  obtain tab out where run: "cuckoo_hashing elements neles (hs_nbins hs) hs nelesinbin perm ntasks bin_ids hashed_by = Ok out"
    and inv: "table_inv (hs_nbins hs) neles (\<lambda>k. addrs hs (element_at hs elements k)) tab"
    and card: "card (stored_in tab) + length (co_failed out) = neles"
    and copied: "\<forall>b<hs_nbins hs. bin_copied hs (element_at hs elements) tab bin_ids out b"
    and perm: "co_perm out = ids tab @ drop (length (ids tab)) perm"
    using cuckoo_run [OF assms] by blast
  have len: "length tab = hs_nbins hs" using inv by (simp add: table_inv_def)
  have d: "distinct (ids tab)" using distinct_ids [OF inv order_refl] len by simp
  then have "length (ids tab) = card (stored_in tab)" by (metis distinct_card set_ids)
  then show ?thesis
    using run len copied d perm card stored_less [OF inv] all_stored [OF inv]
    by (intro exI [of _ out] exI [of _ tab]) (auto simp: list_all_iff set_ids)
qed

text \<open>C36: one insertion. It keeps the table an assignment of elements to their own bins and
  returns within \<open>max_iterations\<close> evictions; on success the table has gained the element and lost none, on failure exactly one
  element, not necessarily the new one, has dropped out.\<close>

theorem cuckoo_insert_element_correct:
  assumes "table_inv nbins n addr ct" and "entries_are nbins n addr val es"
    and "element < n" and "element \<notin> stored_in ct"
  shows "\<exists>ct' es' ok. cuckoo_insert_element ct es element max_iterations = Ok ((ct', es'), ok) \<and>
    table_inv nbins n addr ct' \<and> entries_are nbins n addr val es' \<and>
    (if ok then stored_in ct' = insert element (stored_in ct)
     else \<exists>lost\<in>insert element (stored_in ct). stored_in ct' = insert element (stored_in ct) - {lost})"
  unfolding cuckoo_insert_element_def by (rule insert_loop_ok [OF assms])

theorem cuckoo_hashing_correct_witness:
  "\<exists>out. cuckoo_hashing (replicate 32 1) 4 512 (flat_hs 64 512 9 9) (replicate 512 0) (replicate 4 0) 2
     (replicate 512 0) (replicate 512 0) = Ok out \<and> length (co_failed out) \<le> 4"
proof -
  have "hs_nbins (flat_hs 64 512 9 9) = 512" "inbytelen (flat_hs 64 512 9 9) = ceil_divide (inbitlen (flat_hs 64 512 9 9)) 8"
    by (simp_all add: flat_hs_def)
  then show ?thesis
    using cuckoo_hashing_correct [of "flat_hs 64 512 9 9" "replicate 32 1" 4 2 "replicate 512 0" "replicate 4 0"
        "replicate 512 0" "replicate 512 0"] flat_hs_512 by auto
qed

text \<open>Two elements whose only bin is bin 1.\<close>

definition crowded :: "cuckoo_entry_ctx list" where
  "crowded = map (\<lambda>k. \<lparr>ce_eleid = k, ce_address = [1, 1, 1], ce_val = [], ce_pos = 0\<rparr>) [0..<2]"

theorem cuckoo_insert_element_correct_witness:
  "\<exists>ct es ok. cuckoo_insert_element [None, Some 0] crowded 1 2 = Ok ((ct, es), ok) \<and> table_inv 2 2 (\<lambda>k. [1, 1, 1]) ct"
proof -
  have "table_inv 2 2 (\<lambda>k. [1, 1, 1]) [None, Some 0]" by (auto simp: table_inv_def less_2_cases_iff)
  moreover have "entries_are 2 2 (\<lambda>k. [1, 1, 1]) (\<lambda>k. []) crowded"
    by (auto simp: entries_are_def crowded_def NUM_HASH_FUNCTIONS_def)
  moreover have "1 \<notin> stored_in [None, Some 0]" by (simp add: stored_in_def)
  ultimately show ?thesis
    using cuckoo_insert_element_correct [of 2 2 "\<lambda>k. [1, 1, 1]" "[None, Some 0]" "\<lambda>k. []" crowded 1 2] by auto
qed

end
