(* ===== verification/MultiParty.thy ===== *)
theory MultiParty
  imports Follower SimpleHashing Cuckoo
begin

text \<open>
  The protocol among all parties: \<open>Source Files/PsiParty.cpp\<close> with \<open>PsiParty.h\<close>, the choice of the
  strategy in \<open>LeaderFactory.cpp\<close> and \<open>FollowerFactory.cpp\<close>, and the receiving side of the
  naive leaders. The oblivious evaluations \<open>oprg_client\<close> and \<open>oprg_server\<close>, the generator \<open>prg\<close> of libscapi and
  the random draws are arguments.
\<close>

section \<open>The party\<close>

datatype Strategy =
    NAIVE_METHOD_SMALL_N | NAIVE_METHOD_LARGE_N | SIMPLE_HASH | POLYNOMIALS | BLOOM_FILTER
  | POLYNOMIALS_SIMPLE_HASH | GAUSS_SIMPLE_HASH | TWO_PARTY

record PsiParty =
  partyId :: nat
  numOfParties :: nat
  pp_setSize :: nat
  pp_elements :: bytes
  elementSizeInBits :: nat
  statSecParameter :: nat
  pp_numCores :: nat
  crypt :: crypto
  prfState :: prf_state_ctx
  strategy :: Strategy
  pp_numOfBins :: nat
  pp_maxBinSize :: nat
  maskbitlen :: nat
  eleptr :: bytes
  internal_bitlen :: nat

text \<open>
  \<open>ceil(EPSILON * m_setSize)\<close> with \<open>EPSILON = 1.2\<close>: the double nearest to 1.2 is so close that the product of
  a 32-bit number rounds to the integer when 1.2 times the number is one, and is off by less than the distance to
  the next integer when it is not.
\<close>

definition setBinsParameters :: "PsiParty \<Rightarrow> PsiParty" where
  "setBinsParameters P =
     (let n = pp_setSize P; bins = ceil_divide (6 * n) 5; load = ceil_divide n bins in
      P\<lparr>pp_numOfBins := bins,
        pp_maxBinSize := (if load < 3 then max (ceil_log2 n) 3 else 6 * max load 3)\<rparr>)"

definition initializeMaskSize :: "PsiParty \<Rightarrow> PsiParty" where
  "initializeMaskSize P =
     (let padded = (\<lambda>k. pad_to_multiple ((statSecParameter P + (numOfParties P - 1) * k) mod 2 ^ 32) 8);
          bitlen =
            (case strategy P of
               NAIVE_METHOD_SMALL_N \<Rightarrow> padded (ceil_log2 (pp_setSize P))
             | NAIVE_METHOD_LARGE_N \<Rightarrow> padded (pp_setSize P)
             | SIMPLE_HASH \<Rightarrow> padded (ceil_log2 (pp_maxBinSize P))
             | GAUSS_SIMPLE_HASH \<Rightarrow> padded (pp_maxBinSize P)
             | _ \<Rightarrow> pad_to_multiple (statSecParameter P) 8)
      in P\<lparr>maskbitlen := min bitlen (64 * 8)\<rparr>)"

definition getMaskSizeInBytes :: "PsiParty \<Rightarrow> nat" where
  "getMaskSizeInBytes P = ceil_divide (maskbitlen P) 8"

definition initPsi :: "PsiParty \<Rightarrow> PsiParty res" where
  "initPsi P =
     (let P = initializeMaskSize (setBinsParameters P);
          elebytelen = ceil_divide (elementSizeInBits P) 8; n = getMaskSizeInBytes P in
      if elementSizeInBits P > maskbitlen P then
        rbind (domain_hashing (pp_setSize P) (pp_elements P) elebytelen (replicate (n * pp_setSize P) 0) n (crypt P)) (\<lambda>e.
        Ok (P\<lparr>eleptr := e, internal_bitlen := maskbitlen P\<rparr>))
      else Ok (P\<lparr>eleptr := pp_elements P, internal_bitlen := elementSizeInBits P\<rparr>))"

section \<open>The secret shares\<close>

text \<open>The keys party \<open>P\<close> draws and sends, one for every party with a larger number.\<close>

definition share_keys :: "PsiParty \<Rightarrow> (nat \<Rightarrow> bytes) \<Rightarrow> (nat \<times> bytes) list" where
  "share_keys P rnd = map (\<lambda>i. (i, rnd i)) [partyId P + 1..<numOfParties P + 1]"

text \<open>\<open>inbox i\<close> is the key that arrives from party \<open>i\<close>; \<open>prg\<close> expands a key.\<close>

definition additiveSecretShare ::
  "(bytes \<Rightarrow> nat \<Rightarrow> bytes) \<Rightarrow> PsiParty \<Rightarrow> (nat \<Rightarrow> bytes) \<Rightarrow> (nat \<rightharpoonup> bytes) \<Rightarrow> bytes res" where
  "additiveSecretShare prg P rnd inbox =
     (let shareSize = getMaskSizeInBytes P * pp_numOfBins P in
      rbind (rmap (\<lambda>i. deref (inbox i)) [1..<partyId P]) (\<lambda>received.
      rfold (\<lambda>key sh. XOR_bytes sh 0 (prg key shareSize) 0 shareSize)
        (map snd (share_keys P rnd) @ received) (replicate shareSize 0)))"

section \<open>The leader\<close>

text \<open>
  The loops that fill \<open>hashInfo\<close>. The field \<open>hashedBy\<close> of an element in no bin is
  never read.
\<close>

definition build_hashInfo :: "nat \<Rightarrow> nat \<Rightarrow> nat list \<Rightarrow> nat list \<Rightarrow> nat list \<Rightarrow> CuckooHashInfo list res" where
  "build_hashInfo n nbins bin_ids hashed_by perm =
     rbind (rfold (\<lambda>i info.
              rbind (rd bin_ids i) (\<lambda>e.
              if e \<noteq> 0 then
                rbind (rd hashed_by i) (\<lambda>h.
                rbind (rd info (e - 1)) (\<lambda>c. wr info (e - 1) (c\<lparr>binIndex := int i, hashedBy := h\<rparr>)))
              else Ok info)) [0..<nbins]
            (replicate n \<lparr>binIndex = - 1, tableIndex = - 1, hashedBy = 0\<rparr>)) (\<lambda>info.
     rfold (\<lambda>i info. rbind (rd perm i) (\<lambda>e. rbind (rd info e) (\<lambda>c. wr info e (c\<lparr>tableIndex := int i\<rparr>)))) [0..<n] info)"

text \<open>\<open>receiveServerData\<close> of the naive leaders: \<open>nmasks\<close> masks from the stream of every party.\<close>

definition receiveServerData :: "nat \<Rightarrow> 'a NaiveLeader_scheme \<Rightarrow> (nat \<rightharpoonup> bytes) \<Rightarrow> 'a NaiveLeader_scheme res" where
  "receiveServerData nmasks L inbox =
     rfold (\<lambda>p L.
       rbind (deref (inbox p)) (\<lambda>stream.
       if length stream < nmasks * maskSizeInBytes L then Err WouldBlock
       else Ok (L\<lparr>partiesResults := (partiesResults L)(p \<mapsto> take (nmasks * maskSizeInBytes L) stream)\<rparr>)))
     (parties L) L"

definition NaiveLeader_run :: "NaiveLeader \<Rightarrow> (nat \<rightharpoonup> bytes) \<Rightarrow> bytes \<Rightarrow> nat list \<Rightarrow> (nat \<times> bytes) res" where
  "NaiveLeader_run L inbox sh sched =
     rbind (receiveServerData (NUM_HASH_FUNCTIONS * setSize L) L inbox) (\<lambda>L.
     Leader_run (isElementInAllSets NaiveLeader_range) L sh sched)"

definition SimpleHashingNaiveLeader_run ::
  "SimpleHashingNaiveLeader \<Rightarrow> (nat \<rightharpoonup> bytes) \<Rightarrow> bytes \<Rightarrow> nat list \<Rightarrow> (nat \<times> bytes) res" where
  "SimpleHashingNaiveLeader_run L inbox sh sched =
     rbind (receiveServerData (NUM_HASH_FUNCTIONS * numOfBins L * maxBinSize L) L inbox) (\<lambda>L.
     Leader_run (isElementInAllSets SimpleHashingNaiveLeader_range) L sh sched)"

text \<open>\<open>LeaderFactory::getLeader\<close> and the run of the leader it makes; \<open>other\<close> stands for the classes of
  the remaining strategies.\<close>

definition getLeader ::
  "(Strategy \<Rightarrow> Leader \<Rightarrow> (nat \<rightharpoonup> bytes) \<Rightarrow> bytes \<Rightarrow> nat list \<Rightarrow> (nat \<times> bytes) res) \<Rightarrow> Strategy \<Rightarrow> nat \<Rightarrow> Leader \<Rightarrow>
   (nat \<rightharpoonup> bytes) \<Rightarrow> bytes \<Rightarrow> nat list \<Rightarrow> (nat \<times> bytes) res" where
  "getLeader other strat maxbin L =
     (case strat of
        NAIVE_METHOD_SMALL_N \<Rightarrow> NaiveLeader_run (Leader.Leader.extend L \<lparr>partiesResults = Map.empty\<rparr>)
      | SIMPLE_HASH \<Rightarrow> SimpleHashingNaiveLeader_run (Leader.Leader.extend L \<lparr>partiesResults = Map.empty, maxBinSize = maxbin\<rparr>)
      | _ \<Rightarrow> other strat L)"

text \<open>The keys of \<open>m_parties\<close>.\<close>

definition other_parties :: "PsiParty \<Rightarrow> nat list" where
  "other_parties P = filter (\<lambda>i. i \<noteq> partyId P) [1..<numOfParties P + 1]"

text \<open>
  \<open>runAsLeader\<close>. The new array \<open>nelesinbin\<close> holds \<open>heap\<close>; \<open>memset\<close> clears its first
  \<open>m_numOfBins\<close> bytes, a quarter of it. The threads that run the OPRG with the parties write
  separate results.
\<close>

definition runAsLeader ::
  "(Strategy \<Rightarrow> Leader \<Rightarrow> (nat \<rightharpoonup> bytes) \<Rightarrow> bytes \<Rightarrow> nat list \<Rightarrow> (nat \<times> bytes) res) \<Rightarrow>
   (nat \<Rightarrow> bytes \<Rightarrow> nat \<Rightarrow> nat \<Rightarrow> nat list \<Rightarrow> nat \<Rightarrow> nat \<Rightarrow> bytes res) \<Rightarrow> PsiParty \<Rightarrow> nat list \<Rightarrow> bytes \<Rightarrow>
   (nat \<rightharpoonup> bytes) \<Rightarrow> nat list \<Rightarrow> (nat \<times> bytes) res" where
  "runAsLeader other oprg_client P heap sh inbox sched =
     (let n = pp_setSize P; nbins = pp_numOfBins P;
          nelesinbin = replicate (nbins div 4) 0 @ drop (nbins div 4) heap in
      rbind (init_hashing_state n (internal_bitlen P) nbins (prfState P)) (\<lambda>(hs, prf).
      rbind (cuckoo_hashing (eleptr P) n nbins hs nelesinbin (replicate n 0) (pp_numCores P)
               (replicate nbins 0) (replicate nbins 0)) (\<lambda>out.
      rbind (rmap (\<lambda>p. oprg_client p (co_hash_table out) nbins n (co_nelesinbin out) (outbitlen hs) (maskbitlen P))
               (other_parties P)) (\<lambda>results.
      rbind (build_hashInfo n nbins (co_bin_ids out) (co_hashed_by out) (co_perm out)) (\<lambda>info.
      getLeader other (strategy P) (pp_maxBinSize P)
        \<lparr>leaderResults = map_of (zip (other_parties P) results), hashInfo = info, numOfBins = nbins,
         maskSizeInBytes = getMaskSizeInBytes P, setSize = n, parties = other_parties P, elements = eleptr P,
         elementSize = ceil_divide (internal_bitlen P) 8, numCores = pp_numCores P\<rparr> inbox sh sched)))))"

section \<open>The followers\<close>

text \<open>\<open>FollowerFactory::getFollower\<close> and the run of the follower it makes; the \<open>NaiveInverse\<close> followers
  inherit the run of the naive ones.\<close>

definition getFollower ::
  "(Strategy \<Rightarrow> FollowerSet \<Rightarrow> bytes \<Rightarrow> bytes res) \<Rightarrow> (nat \<Rightarrow> nat \<Rightarrow> bytes) \<Rightarrow> Strategy \<Rightarrow> FollowerSet \<Rightarrow> bytes \<Rightarrow> bytes res" where
  "getFollower other prg strat F sh =
     (case strat of
        NAIVE_METHOD_SMALL_N \<Rightarrow> NaiveFollower_run F sh
      | NAIVE_METHOD_LARGE_N \<Rightarrow> NaiveFollower_run F sh
      | SIMPLE_HASH \<Rightarrow> SimpleHashingNaiveFollower_run F sh prg
      | GAUSS_SIMPLE_HASH \<Rightarrow> SimpleHashingNaiveFollower_run F sh prg
      | TWO_PARTY \<Rightarrow> TwoPartyFollower_run F
      | _ \<Rightarrow> other strat F sh)"

definition follower_set :: "PsiParty \<Rightarrow> simple_hash_output \<Rightarrow> bytes \<Rightarrow> FollowerSet" where
  "follower_set P out masks =
     \<lparr>fs_numOfElements = pp_setSize P, fs_elements_to_hash_table = sho_elements_to_hash_table out,
      fs_numOfElementsInBin = sho_nelesinbin out, fs_numOfBins = pp_numOfBins P, fs_numOfHashFunctions = NUM_HASH_FUNCTIONS,
      fs_masks = masks, fs_maskSizeInBytes = getMaskSizeInBytes P,
      fs_binToElementsToHashTable = sho_bin_to_elements_to_hash_table out, fs_maxBinSize = pp_maxBinSize P\<rparr>"

definition runAsFollower ::
  "(Strategy \<Rightarrow> FollowerSet \<Rightarrow> bytes \<Rightarrow> bytes res) \<Rightarrow>
   (bytes \<Rightarrow> nat \<Rightarrow> nat \<Rightarrow> nat list \<Rightarrow> nat \<Rightarrow> nat \<Rightarrow> bytes res) \<Rightarrow> (nat \<Rightarrow> nat \<Rightarrow> bytes) \<Rightarrow> PsiParty \<Rightarrow> bytes \<Rightarrow> bytes res" where
  "runAsFollower other oprg_server prg P sh =
     (let n = pp_setSize P; nbins = pp_numOfBins P in
      rbind (init_hashing_state n (internal_bitlen P) nbins (prfState P)) (\<lambda>(hs, prf).
      rbind (simple_hashing (eleptr P) n nbins (pp_numCores P) hs) (\<lambda>out.
      rbind (oprg_server (sho_res_bins out) nbins (n * NUM_HASH_FUNCTIONS) (sho_nelesinbin out) (outbitlen hs)
               (maskbitlen P)) (\<lambda>masks.
      getFollower other prg (strategy P) (follower_set P out masks) sh))))"

section \<open>All parties\<close>

text \<open>
  The session of parties 1 to \<open>N\<close>, party 1 the leader: every party is initialised and computes its
  share from its own keys and those the others sent it, the followers send their masks, the leader
  counts. \<open>rnd q\<close> are the random keys of party \<open>q\<close>, \<open>fprg q\<close> is the generator seeded by follower \<open>q\<close>.
\<close>

definition session_shares ::
  "(bytes \<Rightarrow> nat \<Rightarrow> bytes) \<Rightarrow> (nat \<Rightarrow> nat \<Rightarrow> bytes) \<Rightarrow> (nat \<Rightarrow> PsiParty) \<Rightarrow> nat \<Rightarrow> (PsiParty \<times> bytes) list res" where
  "session_shares prg rnd Ps N =
     rmap (\<lambda>q. rbind (initPsi (Ps q)) (\<lambda>P.
             rbind (additiveSecretShare prg P (rnd q) (\<lambda>i. map_of (share_keys (Ps i) (rnd i)) q)) (\<lambda>sh.
             Ok (P, sh)))) [1..<N + 1]"

definition psi_session where
  "psi_session other otherF oprg_client oprg_server prg fprg rnd heap Ps N sched =
     rbind (session_shares prg rnd Ps N) (\<lambda>ps.
     rbind (rmap (\<lambda>q. rbind (rd ps (q - 1)) (\<lambda>(P, sh). runAsFollower otherF (oprg_server q) (fprg q) P sh))
              [2..<N + 1]) (\<lambda>sent.
     rbind (rd ps 0) (\<lambda>(P, sh).
     runAsLeader other oprg_client P heap sh (map_of (zip [2..<N + 1] sent)) sched)))"

section \<open>The shares cancel\<close>

definition shareSize :: "PsiParty \<Rightarrow> nat" where
  "shareSize P = getMaskSizeInBytes P * pp_numOfBins P"

text \<open>The share of party \<open>q\<close> of \<open>N\<close> when \<open>K i j\<close> is the expanded key party \<open>i\<close> drew for party \<open>j\<close>.\<close>

definition share_of :: "nat \<Rightarrow> (nat \<Rightarrow> nat \<Rightarrow> bytes) \<Rightarrow> nat \<Rightarrow> nat \<Rightarrow> bytes" where
  "share_of len K N q = bxors (replicate len 0) (map (K q) [q + 1..<N + 1] @ map (\<lambda>i. K i q) [1..<q])"

lemma XOR_all:
  assumes "length z = n" and "\<And>k. k \<in> set ks \<Longrightarrow> length (f k) = n"
  shows "rfold (\<lambda>k s. XOR_bytes s 0 (f k) 0 n) ks z = Ok (bxors z (map f ks)) \<and> length (bxors z (map f ks)) = n"
  using assms
proof (induction ks arbitrary: z)
  case (Cons k ks)
  have "XOR_bytes z 0 (f k) 0 n = Ok (bxor z (f k))"
    using XOR_bytes_whole [of z n "f k" 1 0] Cons.prems by (simp add: chunk_def)
  then show ?case using Cons.IH [of "bxor z (f k)"] Cons.prems by simp
qed simp

lemma additiveSecretShare_ok:
  assumes P: "partyId P = q" "numOfParties P = N" and prg: "\<And>k n. length (prg k n) = n"
    and inbox: "\<And>i. 1 \<le> i \<Longrightarrow> i < q \<Longrightarrow> inbox i = Some (rnd' i)"
    and K: "\<And>j. K q j = prg (rnd j) (shareSize P)" "\<And>i. i < q \<Longrightarrow> K i q = prg (rnd' i) (shareSize P)"
  shows "additiveSecretShare prg P rnd inbox = Ok (share_of (shareSize P) K N q)"
proof -
  let ?f = "\<lambda>k. prg k (shareSize P)"
  have "rmap (\<lambda>i. deref (inbox i)) [1..<q] = Ok (map rnd' [1..<q])"
    using inbox by (intro rmap_Ok) (simp add: deref_def)
  moreover have "map snd (share_keys P rnd) = map rnd [q + 1..<N + 1]"
    using P by (simp add: share_keys_def comp_def del: upt_Suc)
  moreover have "map ?f (map rnd [q + 1..<N + 1] @ map rnd' [1..<q]) = map (K q) [q + 1..<N + 1] @ map (\<lambda>i. K i q) [1..<q]"
    using K by (simp add: comp_def del: upt_Suc)
  moreover have "rfold (\<lambda>k s. XOR_bytes s 0 (?f k) 0 (shareSize P)) (map rnd [q + 1..<N + 1] @ map rnd' [1..<q]) (replicate (shareSize P) 0) =
      Ok (bxors (replicate (shareSize P) 0) (map ?f (map rnd [q + 1..<N + 1] @ map rnd' [1..<q])))"
    by (rule conjunct1 [OF XOR_all]) (simp_all add: prg)
  ultimately show ?thesis
    by (simp only: additiveSecretShare_def Let_def share_of_def P(1) rbind.simps flip: shareSize_def)
qed

lemma bxors_pointwise:
  "(\<And>x. x \<in> set xs \<Longrightarrow> length (f x) = length z \<and> length (g x) = length z) \<Longrightarrow> length z = n \<Longrightarrow>
   bxors z (map (\<lambda>x. bxor (f x) (g x)) xs) = bxor (bxors z (map f xs)) (bxors (replicate n 0) (map g xs))"
proof (induction xs rule: rev_induct)
  case Nil
  then show ?case by (simp add: bxor_zero)
next
  case (snoc x xs)
  then show ?case by (simp add: bxor_assoc bxor_left_commute)
qed

lemma share_of_length: "(\<And>i j. length (K i j) = n) \<Longrightarrow> length (share_of n K N q) = n"
  by (auto simp: share_of_def bxors_length)

lemma shares_cancel:
  assumes K: "\<And>i j. length (K i j) = n"
  shows "bxors (replicate n 0) (map (share_of n K N) [1..<N + 1]) = replicate n 0"
proof (induction N)
  case (Suc N)
  have grow: "share_of n K (Suc N) q = bxor (share_of n K N q) (K q (Suc N))" if "q < Suc N" for q
  proof -
    have "[q + 1..<Suc N + 1] = [q + 1..<N + 1] @ [Suc N]" using that by simp
    then have "share_of n K (Suc N) q =
        bxors (bxor (bxors (replicate n 0) (map (K q) [q + 1..<N + 1])) (K q (Suc N))) (map (\<lambda>i. K i q) [1..<q])"
      by (simp only: share_of_def map_append list.map bxors_append bxors_Cons bxors_Nil)
    also have "\<dots> = bxor (share_of n K N q) (K q (Suc N))"
      unfolding share_of_def bxors_append bxors_bxor by (rule bxor_commute)
    finally show ?thesis .
  qed
  have last: "share_of n K (Suc N) (Suc N) = bxors (replicate n 0) (map (\<lambda>i. K i (Suc N)) [1..<N + 1])"
    by (simp add: share_of_def)
  have "map (share_of n K (Suc N)) [1..<N + 1] = map (\<lambda>q. bxor (share_of n K N q) (K q (Suc N))) [1..<N + 1]"
    by (rule map_cong [OF refl]) (rule grow, simp del: upt_Suc)
  moreover have "[1..<Suc N + 1] = [1..<N + 1] @ [Suc N]" by simp
  ultimately have "map (share_of n K (Suc N)) [1..<Suc N + 1] =
      map (\<lambda>q. bxor (share_of n K N q) (K q (Suc N))) [1..<N + 1] @ [share_of n K (Suc N) (Suc N)]"
    by (simp only: map_append list.map)
  then have "bxors (replicate n 0) (map (share_of n K (Suc N)) [1..<Suc N + 1]) =
      bxor (bxors (replicate n 0) (map (\<lambda>q. bxor (share_of n K N q) (K q (Suc N))) [1..<N + 1]))
        (bxors (replicate n 0) (map (\<lambda>i. K i (Suc N)) [1..<N + 1]))"
    by (simp only: last bxors_append bxors_Cons bxors_Nil)
  also have "\<dots> = bxor (bxor (replicate n 0) (bxors (replicate n 0) (map (\<lambda>i. K i (Suc N)) [1..<N + 1])))
        (bxors (replicate n 0) (map (\<lambda>i. K i (Suc N)) [1..<N + 1]))"
    using bxors_pointwise [of "[1..<N + 1]" "share_of n K N" "replicate n 0" "\<lambda>i. K i (Suc N)" n]
      share_of_length [of K n] K Suc by simp
  also have "\<dots> = replicate n 0" using K by (intro bxor_cancel) (simp add: bxors_length)
  finally show ?case .
qed simp

section \<open>The hash information\<close>

text \<open>What the loops leave for element \<open>e\<close>: the last bin with its number, the last row of \<open>perm\<close> with it.\<close>

definition bin_entry :: "nat list \<Rightarrow> nat list \<Rightarrow> nat \<Rightarrow> nat \<Rightarrow> CuckooHashInfo" where
  "bin_entry bin_ids hashed_by m e =
     fold (\<lambda>b c. if bin_ids ! b = e + 1 then c\<lparr>binIndex := int b, hashedBy := hashed_by ! b\<rparr> else c) [0..<m]
       \<lparr>binIndex = - 1, tableIndex = - 1, hashedBy = 0\<rparr>"

definition table_row :: "nat list \<Rightarrow> nat \<Rightarrow> nat \<Rightarrow> int" where
  "table_row perm m e = fold (\<lambda>i r. if perm ! i = e then int i else r) [0..<m] (- 1)"

lemma bin_entry_Suc:
  "bin_entry bin_ids hashed_by (Suc m) e =
     (if bin_ids ! m = e + 1 then (bin_entry bin_ids hashed_by m e)\<lparr>binIndex := int m, hashedBy := hashed_by ! m\<rparr>
      else bin_entry bin_ids hashed_by m e)"
  by (simp add: bin_entry_def)

lemma table_row_Suc: "table_row perm (Suc m) e = (if perm ! m = e then int m else table_row perm m e)"
  by (simp add: table_row_def)

lemma map_upt_update: "k < n \<Longrightarrow> (\<And>e. e < n \<Longrightarrow> g e = (if e = k then v else f e)) \<Longrightarrow> (map f [0..<n])[k := v] = map g [0..<n]"
  by (rule nth_equalityI) (simp_all add: nth_list_update)

lemma build_hashInfo_ok:
  assumes l: "length bin_ids = nbins" "length hashed_by = nbins" "length perm = n"
    and b: "\<And>b. b < nbins \<Longrightarrow> bin_ids ! b \<le> n" and p: "\<And>i. i < n \<Longrightarrow> perm ! i < n"
  shows "build_hashInfo n nbins bin_ids hashed_by perm =
    Ok (map (\<lambda>e. (bin_entry bin_ids hashed_by nbins e)\<lparr>tableIndex := table_row perm n e\<rparr>) [0..<n])"
proof -
  let ?f = "\<lambda>i info. rbind (rd bin_ids i) (\<lambda>e. if e \<noteq> 0 then rbind (rd hashed_by i) (\<lambda>h.
      rbind (rd info (e - 1)) (\<lambda>c. wr info (e - 1) (c\<lparr>binIndex := int i, hashedBy := h\<rparr>))) else Ok info)"
  let ?g = "\<lambda>i info. rbind (rd perm i) (\<lambda>e. rbind (rd info e) (\<lambda>c. wr info e (c\<lparr>tableIndex := int i\<rparr>)))"
  let ?B = "\<lambda>m. map (bin_entry bin_ids hashed_by m) [0..<n]"
  let ?T = "\<lambda>m. map (\<lambda>e. (bin_entry bin_ids hashed_by nbins e)\<lparr>tableIndex := table_row perm m e\<rparr>) [0..<n]"
  have "\<exists>s. rfold ?f [0..<nbins] (replicate n \<lparr>binIndex = - 1, tableIndex = - 1, hashedBy = 0\<rparr>) = Ok s \<and> s = ?B nbins"
  proof (rule rfold_upt_inv [where P = "\<lambda>m s. s = ?B m"])
    fix i s assume i: "i < nbins" and s: "s = ?B i"
    show "\<exists>s'. ?f i s = Ok s' \<and> s' = ?B (Suc i)"
    proof (cases "bin_ids ! i")
      case (Suc e)
      then have "e < n" using b [OF i] by simp
      then show ?thesis using i l s Suc by (simp add: map_upt_update [where g = "bin_entry bin_ids hashed_by (Suc i)"] bin_entry_Suc)
    qed (use i l s in \<open>simp add: bin_entry_Suc\<close>)
  next
    show "replicate n \<lparr>binIndex = - 1, tableIndex = - 1, hashedBy = 0\<rparr> = ?B 0"
      by (rule nth_equalityI) (simp_all add: bin_entry_def)
  qed simp
  then have first: "rfold ?f [0..<nbins] (replicate n \<lparr>binIndex = - 1, tableIndex = - 1, hashedBy = 0\<rparr>) = Ok (?B nbins)" by blast
  have t: "tableIndex (bin_entry bin_ids hashed_by m e) = - 1" for m e
    by (induction m) (simp_all add: bin_entry_Suc, simp add: bin_entry_def)
  have "bin_entry bin_ids hashed_by nbins e = (bin_entry bin_ids hashed_by nbins e)\<lparr>tableIndex := table_row perm 0 e\<rparr>" for e
    by (rule CuckooHashInfo.equality) (simp_all add: t table_row_def)
  then have zero: "?B nbins = ?T 0" by (rule map_cong [OF refl])
  have "\<exists>s. rfold ?g [0..<n] (?T 0) = Ok s \<and> s = ?T n"
  proof (rule rfold_upt_inv [where P = "\<lambda>m s. s = ?T m"])
    fix i s assume i: "i < n" and s: "s = ?T i"
    have "?g i s = Ok ((?T i)[perm ! i := (bin_entry bin_ids hashed_by nbins (perm ! i))\<lparr>tableIndex := int i\<rparr>])"
      using i l s p [OF i] by simp
    moreover have "(?T i)[perm ! i := (bin_entry bin_ids hashed_by nbins (perm ! i))\<lparr>tableIndex := int i\<rparr>] = ?T (Suc i)"
      by (rule map_upt_update [OF p [OF i]]) (simp add: table_row_Suc)
    ultimately show "\<exists>s'. ?g i s = Ok s' \<and> s' = ?T (Suc i)" by simp
  qed simp_all
  then show ?thesis unfolding build_hashInfo_def first rbind.simps zero by blast
qed

lemma table_row_distinct: "distinct perm \<Longrightarrow> m \<le> length perm \<Longrightarrow> i < m \<Longrightarrow> table_row perm m (perm ! i) = int i"
  by (induction m) (auto simp: table_row_Suc nth_eq_iff_index_eq less_Suc_eq)

lemma bin_entry_unique:
  assumes "b < m" and "bin_ids ! b = e + 1" and "\<And>c. c < m \<Longrightarrow> bin_ids ! c = e + 1 \<Longrightarrow> c = b"
  shows "binIndex (bin_entry bin_ids hashed_by m e) = int b \<and> hashedBy (bin_entry bin_ids hashed_by m e) = hashed_by ! b"
  using assms
proof (induction m)
  case (Suc m)
  show ?case
  proof (cases "b = m")
    case False
    have ne: "bin_ids ! m \<noteq> e + 1" using Suc.prems(3) [OF lessI] False by blast
    have "b < m" using Suc.prems(1) False by simp
    then have "binIndex (bin_entry bin_ids hashed_by m e) = int b \<and> hashedBy (bin_entry bin_ids hashed_by m e) = hashed_by ! b"
      by (rule Suc.IH [OF _ Suc.prems(2)]) (rule Suc.prems(3) [OF less_SucI])
    then show ?thesis unfolding bin_entry_Suc if_not_P [OF ne] .
  next
    case True
    then have "bin_ids ! m = e + 1" using Suc.prems(2) by simp
    then show ?thesis unfolding bin_entry_Suc by (simp add: True)
  qed
qed simp

section \<open>What a follower answers\<close>

text \<open>The number of entries in a bin, and when the buffers of the OPRG's masking function suffice for all bins.\<close>

definition bin_load :: "hs_t \<Rightarrow> (nat \<Rightarrow> bytes) \<Rightarrow> nat \<Rightarrow> nat \<Rightarrow> nat" where
  "bin_load hs elt n b = length (placed hs elt (hash_pairs [0..<n]) b)"

definition expansion_fits :: "(nat \<Rightarrow> nat) \<Rightarrow> nat \<Rightarrow> bool" where
  "expansion_fits load nbins \<longleftrightarrow> ((\<exists>b<nbins. load b = 256) \<longrightarrow> (\<exists>b<nbins. 256 < load b))"

text \<open>The entries a follower hashed, with their bin, and the arrays that describe them.\<close>

definition bin_of_entry :: "hs_t \<Rightarrow> (nat \<Rightarrow> bytes) \<Rightarrow> bytes \<times> bin_hash_ctx \<Rightarrow> nat" where
  "bin_of_entry hs elt x = addr_of hs (elt (bh_index (snd x))) (bh_hashFunctionNum (snd x))"

definition hashed_out :: "hs_t \<Rightarrow> (nat \<Rightarrow> bytes) \<Rightarrow> nat \<Rightarrow> simple_hash_output \<Rightarrow> bool" where
  "hashed_out hs elt n out \<longleftrightarrow> (let F = all_entries hs elt n in
     owners (sho_nelesinbin out) (hs_nbins hs) = map (bin_of_entry hs elt) F \<and> hs_nbins hs \<le> length (sho_nelesinbin out) \<and>
     (\<forall>b<hs_nbins hs. sho_nelesinbin out ! b = bin_load hs elt n b) \<and>
     length (sho_elements_to_hash_table out) = NUM_HASH_FUNCTIONS * n \<and>
     length (sho_bin_to_elements_to_hash_table out) = NUM_HASH_FUNCTIONS * n \<and>
     length (sho_res_bins out) = NUM_HASH_FUNCTIONS * n * outbytelen hs \<and>
     (\<forall>p<NUM_HASH_FUNCTIONS * n. chunk (outbytelen hs) (sho_res_bins out) p = fst (F ! p) \<and>
        sho_bin_to_elements_to_hash_table out ! p = hash_code (snd (F ! p))) \<and>
     (\<forall>idx<n. \<forall>i<NUM_HASH_FUNCTIONS. sho_elements_to_hash_table out ! (NUM_HASH_FUNCTIONS * idx + i) < NUM_HASH_FUNCTIONS * n \<and>
        F ! (sho_elements_to_hash_table out ! (NUM_HASH_FUNCTIONS * idx + i)) = entry hs elt (idx, i)))"

lemma owners_entries:
  assumes "\<And>b. b < hs_nbins hs \<Longrightarrow> nele ! b = length (placed hs elt (hash_pairs [0..<n]) b)"
  shows "owners nele (hs_nbins hs) = map (bin_of_entry hs elt) (all_entries hs elt n)"
proof -
  have "map (bin_of_entry hs elt) (placed hs elt ps b) = replicate (length (placed hs elt ps b)) b" for ps b
    by (rule nth_equalityI) (auto simp: placed_def bin_of_entry_def entry_def split: prod.split dest!: nth_mem)
  then have "map (\<lambda>b. replicate (nele ! b) b) [0..<hs_nbins hs] =
      map (\<lambda>b. map (bin_of_entry hs elt) (placed hs elt (hash_pairs [0..<n]) b)) [0..<hs_nbins hs]"
    by (intro map_cong) (simp_all add: assms)
  then show ?thesis by (simp only: owners_def all_entries_def map_concat map_map comp_def)
qed

lemma hashed_out_run:
  assumes "hs_wf hs" and "hs_fits hs" and "outbytelen hs = ceil_divide (outbitlen hs) 8"
    and "length el = n * inbytelen hs" and "n * outbytelen hs < 2 ^ 32"
    and "0 < ntasks" and "(ntasks - 1) * ceil_divide n ntasks \<le> n"
  shows "\<exists>out. simple_hashing el n (hs_nbins hs) ntasks hs = Ok out \<and> hashed_out hs (element_at hs el) n out"
proof -
  obtain out where out: "simple_hashing el n (hs_nbins hs) ntasks hs = Ok out"
    "length (all_entries hs (element_at hs el) n) = NUM_HASH_FUNCTIONS * n"
    "\<forall>b<hs_nbins hs. sho_nelesinbin out ! b = length (placed hs (element_at hs el) (hash_pairs [0..<n]) b)"
    "\<forall>idx<n. \<forall>i<NUM_HASH_FUNCTIONS. let p = sho_elements_to_hash_table out ! (NUM_HASH_FUNCTIONS * idx + i) in
       p < NUM_HASH_FUNCTIONS * n \<and> sho_bin_to_elements_to_hash_table out ! p = NUM_HASH_FUNCTIONS * idx + i \<and>
       all_entries hs (element_at hs el) n ! p = entry hs (element_at hs el) (idx, i)"
    "length (sho_nelesinbin out) = 4 * hs_nbins hs"
    "length (sho_elements_to_hash_table out) = length (all_entries hs (element_at hs el) n)"
    "length (sho_bin_to_elements_to_hash_table out) = length (all_entries hs (element_at hs el) n)"
    "length (sho_res_bins out) = length (all_entries hs (element_at hs el) n) * outbytelen hs"
    "\<forall>p<length (all_entries hs (element_at hs el) n).
       chunk (outbytelen hs) (sho_res_bins out) p = fst (all_entries hs (element_at hs el) n ! p) \<and>
       sho_bin_to_elements_to_hash_table out ! p = hash_code (snd (all_entries hs (element_at hs el) n ! p))"
    using simple_hashing_run [OF assms] by blast
  show ?thesis
    using out owners_entries [of hs "sho_nelesinbin out" "element_at hs el" n] by (auto simp: hashed_out_def bin_load_def Let_def)
qed

text \<open>
  What the two sides of the oblivious evaluation promise: with a function \<open>ev\<close> only the
  server could compute for all values, the client gets \<open>ev\<close> of the value in every bin that holds an element,
  in the order of the bins, and the server, whatever its table, \<open>ev\<close> of every entry under the number of its bin.
\<close>

definition bin_rank :: "nat list \<Rightarrow> nat \<Rightarrow> nat" where
  "bin_rank nele b = length (filter (\<lambda>c. 0 < nele ! c) [0..<b])"

definition client_ok where
  "client_ok ev client nbins n outbits maskbits table nele \<longleftrightarrow>
     (\<exists>res. client table nbins n nele outbits maskbits = Ok res \<and> length res = n * ceil_divide maskbits 8 \<and>
        (\<forall>b<nbins. 0 < nele ! b \<longrightarrow> chunk (ceil_divide maskbits 8) res (bin_rank nele b) =
           ev b (chunk (ceil_divide outbits 8) table b)))"

definition server_ok where
  "server_ok ev server nbins outbits maskbits \<longleftrightarrow> (\<forall>table nele.
     nbins \<le> length nele \<longrightarrow> length table = length (owners nele nbins) * ceil_divide outbits 8 \<longrightarrow>
     expansion_fits ((!) nele) nbins \<longrightarrow>
     (\<exists>masks. server table nbins (length (owners nele nbins)) nele outbits maskbits = Ok masks \<and>
        length masks = length (owners nele nbins) * ceil_divide maskbits 8 \<and>
        (\<forall>p<length (owners nele nbins). chunk (ceil_divide maskbits 8) masks p =
           ev (owners nele nbins ! p) (chunk (ceil_divide outbits 8) table p))))"

text \<open>The mask element \<open>j\<close> of a follower leaves for hash function \<open>i\<close>.\<close>

definition answer :: "hs_t \<Rightarrow> (nat \<Rightarrow> bytes \<Rightarrow> bytes) \<Rightarrow> nat \<Rightarrow> bytes \<Rightarrow> bytes \<Rightarrow> nat \<Rightarrow> bytes" where
  "answer hs ev n sh e i = bxor (ev (addr_of hs e i) (stored (outbytelen hs) (addrs hs e) (val_of hs e) i))
     (chunk n sh (addr_of hs e i))"

lemma follower_set_ok:
  assumes out: "hashed_out hs elt (pp_setSize P) out" and nb: "hs_nbins hs = pp_numOfBins P" and wf: "hs_wf hs"
    and masks: "length masks = pp_setSize P * NUM_HASH_FUNCTIONS * getMaskSizeInBytes P"
      "\<And>p. p < pp_setSize P * NUM_HASH_FUNCTIONS \<Longrightarrow> chunk (getMaskSizeInBytes P) masks p =
         ev (owners (sho_nelesinbin out) (pp_numOfBins P) ! p) (chunk (outbytelen hs) (sho_res_bins out) p)"
    and sh: "length sh = pp_numOfBins P * getMaskSizeInBytes P"
  shows "follower_fits (follower_set P out masks) sh \<and> (\<forall>j<pp_setSize P. \<forall>i<NUM_HASH_FUNCTIONS.
    let p = sho_elements_to_hash_table out ! (j * NUM_HASH_FUNCTIONS + i) in
    p < pp_setSize P * NUM_HASH_FUNCTIONS \<and> entry_bin (follower_set P out masks) p = addr_of hs (elt j) i \<and>
    entry_function (follower_set P out masks) p = i \<and>
    masked_set (follower_set P out masks) sh p = answer hs ev (getMaskSizeInBytes P) sh (elt j) i)"
proof -
  let ?n = "pp_setSize P" and ?F = "all_entries hs elt (pp_setSize P)" and ?S = "follower_set P out masks"
  have own: "owners (sho_nelesinbin out) (pp_numOfBins P) = map (bin_of_entry hs elt) ?F"
    using out nb by (simp add: hashed_out_def Let_def)
  have lF: "length ?F = ?n * NUM_HASH_FUNCTIONS" using all_entries_coded [OF wf] by simp
  have pos: "sho_elements_to_hash_table out ! (j * NUM_HASH_FUNCTIONS + i) < ?n * NUM_HASH_FUNCTIONS"
    "?F ! (sho_elements_to_hash_table out ! (j * NUM_HASH_FUNCTIONS + i)) = entry hs elt (j, i)"
    if "j < ?n" "i < NUM_HASH_FUNCTIONS" for j i
    using out that by (auto simp: hashed_out_def Let_def mult.commute)
  have "follower_fits ?S sh"
  proof -
    have "sho_elements_to_hash_table out ! c < ?n * NUM_HASH_FUNCTIONS" if "c < ?n * NUM_HASH_FUNCTIONS" for c
    proof -
      have "c div NUM_HASH_FUNCTIONS < ?n" "c mod NUM_HASH_FUNCTIONS < NUM_HASH_FUNCTIONS"
        using that by (simp_all add: less_mult_imp_div_less NUM_HASH_FUNCTIONS_def)
      then show ?thesis using pos(1) [of "c div NUM_HASH_FUNCTIONS" "c mod NUM_HASH_FUNCTIONS"] by simp
    qed
    then show ?thesis using out own lF masks(1) sh nb
      by (simp add: follower_fits_def follower_set_def hashed_out_def Let_def mult.commute)
  qed
  moreover have "p < ?n * NUM_HASH_FUNCTIONS \<and> entry_bin ?S p = addr_of hs (elt j) i \<and> entry_function ?S p = i \<and>
      masked_set ?S sh p = answer hs ev (getMaskSizeInBytes P) sh (elt j) i"
    if ji: "j < ?n" "i < NUM_HASH_FUNCTIONS" and p: "p = sho_elements_to_hash_table out ! (j * NUM_HASH_FUNCTIONS + i)" for j i p
  proof -
    have F: "p < ?n * NUM_HASH_FUNCTIONS" "?F ! p = entry hs elt (j, i)" using pos [OF ji] p by simp_all
    then have b: "owners (sho_nelesinbin out) (pp_numOfBins P) ! p = addr_of hs (elt j) i"
      using own lF by (simp add: bin_of_entry_def entry_def)
    have v: "chunk (outbytelen hs) (sho_res_bins out) p = stored (outbytelen hs) (addrs hs (elt j)) (val_of hs (elt j)) i"
      and c: "sho_bin_to_elements_to_hash_table out ! p = NUM_HASH_FUNCTIONS * j + i"
      using out F by (simp_all add: hashed_out_def Let_def mult.commute entry_def hash_code_def)
    show ?thesis using F(1) b v c ji masks(2) [OF F(1)]
      by (simp add: entry_bin_def entry_function_def masked_set_def follower_set_def answer_def)
  qed
  ultimately show ?thesis unfolding Let_def by blast
qed

text \<open>Enough room in the bins of the simple-hashing strategy.\<close>

definition room :: "hs_t \<Rightarrow> (nat \<Rightarrow> bytes) \<Rightarrow> nat \<Rightarrow> nat \<Rightarrow> bool" where
  "room hs elt n maxbin \<longleftrightarrow> (\<forall>b<hs_nbins hs. \<forall>i<NUM_HASH_FUNCTIONS. card {j. j < n \<and> addr_of hs (elt j) i = b} \<le> maxbin)"

lemma entry_of_position:
  assumes "hs_wf hs" and "p < NUM_HASH_FUNCTIONS * n"
  shows "\<exists>idx<n. \<exists>i<NUM_HASH_FUNCTIONS. all_entries hs elt n ! p = entry hs elt (idx, i)"
proof -
  have "all_entries hs elt n ! p \<in> set (all_entries hs elt n)" using assms all_entries_coded [OF assms(1)] by simp
  also have "\<dots> = set (map (entry hs elt) (hash_pairs [0..<n]))" by (rule mset_eq_setD [OF all_entries_mset [OF assms(1)]])
  finally obtain idx i where "idx < n" "i < NUM_HASH_FUNCTIONS" "all_entries hs elt n ! p = entry hs elt (idx, i)"
    by (auto simp: hash_pairs_def)
  then show ?thesis by blast
qed

lemma room_suffices:
  assumes out: "hashed_out hs elt (pp_setSize P) out" and nb: "hs_nbins hs = pp_numOfBins P" and wf: "hs_wf hs"
    and r: "room hs elt (pp_setSize P) (pp_maxBinSize P)"
  shows "bins_suffice (follower_set P out masks)"
proof -
  let ?n = "pp_setSize P" and ?F = "all_entries hs elt (pp_setSize P)" and ?S = "follower_set P out masks"
  let ?N = "NUM_HASH_FUNCTIONS * pp_setSize P"
  have lF: "length ?F = ?N" and coded: "coded ?F" using all_entries_coded [OF wf] by simp_all
  have own: "owners (sho_nelesinbin out) (pp_numOfBins P) = map (bin_of_entry hs elt) ?F"
    using out nb by (simp add: hashed_out_def Let_def)
  have at: "\<exists>idx<?n. addr_of hs (elt idx) (entry_function ?S q) = entry_bin ?S q \<and>
      hash_code (snd (?F ! q)) = NUM_HASH_FUNCTIONS * idx + entry_function ?S q" if q: "q < ?N" for q
  proof -
    obtain idx i where e: "idx < ?n" "i < NUM_HASH_FUNCTIONS" "?F ! q = entry hs elt (idx, i)"
      using entry_of_position [OF wf q] by blast
    moreover have "sho_bin_to_elements_to_hash_table out ! q = hash_code (snd (?F ! q))"
      using out q by (simp add: hashed_out_def Let_def)
    ultimately show ?thesis using own q lF
      by (intro exI [of _ idx]) (simp add: entry_bin_def entry_function_def follower_set_def bin_of_entry_def entry_def hash_code_def)
  qed
  have "entry_rank ?S p < pp_maxBinSize P" if p: "p < ?N" for p
  proof -
    let ?b = "entry_bin ?S p" and ?i = "entry_function ?S p"
    let ?Q = "{q. q < ?N \<and> entry_bin ?S q = ?b \<and> entry_function ?S q = ?i}"
    let ?idx = "\<lambda>q. hash_code (snd (?F ! q)) div NUM_HASH_FUNCTIONS"
    have i: "?i < NUM_HASH_FUNCTIONS" by (simp add: entry_function_def follower_set_def NUM_HASH_FUNCTIONS_def)
    have idx: "?idx q < ?n \<and> addr_of hs (elt (?idx q)) ?i = ?b \<and> hash_code (snd (?F ! q)) = NUM_HASH_FUNCTIONS * ?idx q + ?i"
      if "q \<in> ?Q" for q
      using at [of q] that i by auto
    have "inj_on ?idx ?Q"
    proof (rule inj_onI)
      fix q q' assume q: "q \<in> ?Q" "q' \<in> ?Q" "?idx q = ?idx q'"
      then have "hash_code (snd (?F ! q)) = hash_code (snd (?F ! q'))" using idx [OF q(1)] idx [OF q(2)] by presburger
      then show "q = q'" using coded_inj [OF coded, of q q'] q(1,2) lF by auto
    qed
    then have "card ?Q \<le> card {j. j < ?n \<and> addr_of hs (elt j) ?i = ?b}"
      using idx by (intro card_inj_on_le [of ?idx]) auto
    also have "\<dots> \<le> pp_maxBinSize P"
    proof -
      obtain j where "addr_of hs (elt j) ?i = ?b" using at [OF p] by blast
      then show ?thesis using r i addr_of_less [OF wf] unfolding room_def by metis
    qed
    finally have le: "card ?Q \<le> pp_maxBinSize P" .
    have "entry_rank ?S p < entries_before ?S ?b ?i ?N"
      by (rule entries_before_less [OF p refl refl])
    also have "\<dots> = card ?Q"
      by (simp add: entries_before_def length_filter_conv_card cong: conj_cong)
    finally show ?thesis using le by simp
  qed
  then show ?thesis using out by (auto simp: bins_suffice_def follower_set_def hashed_out_def Let_def mult.commute)
qed

text \<open>The masks a naive leader tries for hash function \<open>i\<close> and bin \<open>b\<close>, and how many it receives.\<close>

definition mask_rows :: "PsiParty \<Rightarrow> nat \<Rightarrow> nat \<Rightarrow> nat list" where
  "mask_rows P i b =
     (if strategy P = SIMPLE_HASH
      then [i * pp_numOfBins P * pp_maxBinSize P + b * pp_maxBinSize P..<
            i * pp_numOfBins P * pp_maxBinSize P + (b + 1) * pp_maxBinSize P]
      else [i * pp_setSize P..<(i + 1) * pp_setSize P])"

definition mask_count :: "PsiParty \<Rightarrow> nat" where
  "mask_count P = NUM_HASH_FUNCTIONS * (if strategy P = SIMPLE_HASH then pp_numOfBins P * pp_maxBinSize P else pp_setSize P)"

lemma mask_rows_less:
  assumes "i < NUM_HASH_FUNCTIONS" and "b < pp_numOfBins P" and "r \<in> set (mask_rows P i b)"
  shows "r < mask_count P"
proof (cases "strategy P = SIMPLE_HASH")
  case True
  have "r < i * (pp_numOfBins P * pp_maxBinSize P) + (b + 1) * pp_maxBinSize P"
    using assms(3) True by (simp add: mask_rows_def mult.assoc)
  also have "\<dots> \<le> i * (pp_numOfBins P * pp_maxBinSize P) + pp_numOfBins P * pp_maxBinSize P"
    using mult_le_mono1 [of "b + 1" "pp_numOfBins P" "pp_maxBinSize P"] assms(2) by simp
  also have "\<dots> = (i + 1) * (pp_numOfBins P * pp_maxBinSize P)" by simp
  also have "\<dots> \<le> mask_count P" unfolding mask_count_def using assms(1) True by (simp del: mult_Suc)
  finally show ?thesis .
next
  case False
  have "r < (i + 1) * pp_setSize P" using assms(3) False by (simp add: mask_rows_def)
  also have "\<dots> \<le> mask_count P" unfolding mask_count_def using assms(1) False by (simp del: mult_Suc)
  finally show ?thesis .
qed

text \<open>The masks a follower starts from, before its strategy arranges them.\<close>

lemma follower_prepared:
  assumes init: "init_hashing_state (pp_setSize P) (internal_bitlen P) (pp_numOfBins P) (prfState P) = Ok (hs, prf)"
    and hs: "hs_wf hs" "hs_fits hs" "outbytelen hs = ceil_divide (outbitlen hs) 8" "hs_nbins hs = pp_numOfBins P"
    and l: "length (eleptr P) = pp_setSize P * inbytelen hs" "pp_setSize P * outbytelen hs < 2 ^ 32"
    and T: "0 < pp_numCores P" "(pp_numCores P - 1) * ceil_divide (pp_setSize P) (pp_numCores P) \<le> pp_setSize P"
    and server: "server_ok ev server (pp_numOfBins P) (outbitlen hs) (maskbitlen P)"
    and load: "expansion_fits (bin_load hs (element_at hs (eleptr P)) (pp_setSize P)) (pp_numOfBins P)"
    and sh: "length sh = pp_numOfBins P * getMaskSizeInBytes P"
  shows "\<exists>out masks. runAsFollower other server prg P sh = getFollower other prg (strategy P) (follower_set P out masks) sh \<and>
    hashed_out hs (element_at hs (eleptr P)) (pp_setSize P) out \<and> follower_fits (follower_set P out masks) sh \<and>
    (\<forall>j<pp_setSize P. \<forall>i<NUM_HASH_FUNCTIONS.
       let p = sho_elements_to_hash_table out ! (j * NUM_HASH_FUNCTIONS + i); e = element_at hs (eleptr P) j in
       p < pp_setSize P * NUM_HASH_FUNCTIONS \<and> entry_bin (follower_set P out masks) p = addr_of hs e i \<and>
       entry_function (follower_set P out masks) p = i \<and>
       masked_set (follower_set P out masks) sh p = answer hs ev (getMaskSizeInBytes P) sh e i)"
proof -
  let ?elt = "element_at hs (eleptr P)" and ?n = "pp_setSize P" and ?mb = "getMaskSizeInBytes P"
  obtain out where out: "simple_hashing (eleptr P) ?n (pp_numOfBins P) (pp_numCores P) hs = Ok out" "hashed_out hs ?elt ?n out"
    using hashed_out_run [OF hs(1,2,3) l T] unfolding hs(4) by blast
  have lF: "length (all_entries hs ?elt ?n) = NUM_HASH_FUNCTIONS * ?n" using all_entries_coded [OF hs(1)] by blast
  have own: "length (owners (sho_nelesinbin out) (pp_numOfBins P)) = ?n * NUM_HASH_FUNCTIONS"
    using out(2) hs(4) lF by (simp add: hashed_out_def Let_def mult.commute)
  have table: "pp_numOfBins P \<le> length (sho_nelesinbin out)"
    "length (sho_res_bins out) = length (owners (sho_nelesinbin out) (pp_numOfBins P)) * ceil_divide (outbitlen hs) 8"
    using out(2) lF unfolding own hs(3) [symmetric] hs(4) [symmetric] by (simp_all add: hashed_out_def Let_def mult.commute)
  have ex: "expansion_fits ((!) (sho_nelesinbin out)) (pp_numOfBins P)"
    using load out(2) hs(4) by (auto simp: expansion_fits_def hashed_out_def Let_def)
  obtain masks where masks: "server (sho_res_bins out) (pp_numOfBins P) (?n * NUM_HASH_FUNCTIONS) (sho_nelesinbin out) (outbitlen hs)
      (maskbitlen P) = Ok masks" "length masks = ?n * NUM_HASH_FUNCTIONS * ?mb"
    "\<And>p. p < ?n * NUM_HASH_FUNCTIONS \<Longrightarrow> chunk ?mb masks p =
       ev (owners (sho_nelesinbin out) (pp_numOfBins P) ! p) (chunk (outbytelen hs) (sho_res_bins out) p)"
    using server [unfolded server_ok_def, rule_format, OF table ex, unfolded own] unfolding hs(3) getMaskSizeInBytes_def by blast
  have run: "runAsFollower other server prg P sh = getFollower other prg (strategy P) (follower_set P out masks) sh"
    by (simp add: runAsFollower_def Let_def init out(1) masks(1))
  show ?thesis
    using run out(2) follower_set_ok [where ev = ev, OF out(2) hs(4,1) masks(2,3) sh] unfolding Let_def by blast
qed

lemma follower_answers:
  assumes strat: "strategy P = NAIVE_METHOD_SMALL_N \<or> strategy P = SIMPLE_HASH"
    and init: "init_hashing_state (pp_setSize P) (internal_bitlen P) (pp_numOfBins P) (prfState P) = Ok (hs, prf)"
    and hs: "hs_wf hs" "hs_fits hs" "outbytelen hs = ceil_divide (outbitlen hs) 8" "hs_nbins hs = pp_numOfBins P"
    and l: "length (eleptr P) = pp_setSize P * inbytelen hs" "pp_setSize P * outbytelen hs < 2 ^ 32"
    and T: "0 < pp_numCores P" "(pp_numCores P - 1) * ceil_divide (pp_setSize P) (pp_numCores P) \<le> pp_setSize P"
    and server: "server_ok ev server (pp_numOfBins P) (outbitlen hs) (maskbitlen P)"
    and load: "expansion_fits (bin_load hs (element_at hs (eleptr P)) (pp_setSize P)) (pp_numOfBins P)"
    and sh: "length sh = pp_numOfBins P * getMaskSizeInBytes P" and prg: "\<And>i len. length (prg i len) = len"
    and r: "strategy P = SIMPLE_HASH \<Longrightarrow> room hs (element_at hs (eleptr P)) (pp_setSize P) (pp_maxBinSize P)"
  shows "\<exists>sent. runAsFollower other server prg P sh = Ok sent \<and> length sent = mask_count P * getMaskSizeInBytes P \<and>
    (\<forall>j<pp_setSize P. \<forall>i<NUM_HASH_FUNCTIONS. let e = element_at hs (eleptr P) j in
       \<exists>q\<in>set (mask_rows P i (addr_of hs e i)). chunk (getMaskSizeInBytes P) sent q = answer hs ev (getMaskSizeInBytes P) sh e i)"
proof -
  let ?elt = "element_at hs (eleptr P)" and ?n = "pp_setSize P" and ?mb = "getMaskSizeInBytes P"
  obtain out masks where run: "runAsFollower other server prg P sh = getFollower other prg (strategy P) (follower_set P out masks) sh"
    and out: "hashed_out hs ?elt ?n out" and fits: "follower_fits (follower_set P out masks) sh"
    and pos: "\<And>i j. j < ?n \<Longrightarrow> i < NUM_HASH_FUNCTIONS \<Longrightarrow>
      sho_elements_to_hash_table out ! (j * NUM_HASH_FUNCTIONS + i) < ?n * NUM_HASH_FUNCTIONS \<and>
      entry_bin (follower_set P out masks) (sho_elements_to_hash_table out ! (j * NUM_HASH_FUNCTIONS + i)) = addr_of hs (?elt j) i \<and>
      entry_function (follower_set P out masks) (sho_elements_to_hash_table out ! (j * NUM_HASH_FUNCTIONS + i)) = i \<and>
      masked_set (follower_set P out masks) sh (sho_elements_to_hash_table out ! (j * NUM_HASH_FUNCTIONS + i)) =
        answer hs ev ?mb sh (?elt j) i"
    using follower_prepared [OF init hs l T server load sh] unfolding Let_def by blast
  let ?S = "follower_set P out masks" and ?e2h = "sho_elements_to_hash_table out"
  have f: "fs_numOfElements ?S = ?n" "fs_elements_to_hash_table ?S = ?e2h" "fs_numOfBins ?S = pp_numOfBins P"
    "fs_numOfHashFunctions ?S = NUM_HASH_FUNCTIONS" "fs_maskSizeInBytes ?S = ?mb" "fs_maxBinSize ?S = pp_maxBinSize P"
    by (simp_all add: follower_set_def)
  show ?thesis
  proof (cases "strategy P = SIMPLE_HASH")
    case False
    obtain sent where sent: "NaiveFollower_run ?S sh = Ok sent" "length sent = ?n * NUM_HASH_FUNCTIONS * ?mb"
      "\<And>i j. i < NUM_HASH_FUNCTIONS \<Longrightarrow> j < ?n \<Longrightarrow> chunk ?mb sent (i * ?n + j) = masked_set ?S sh (?e2h ! (j * NUM_HASH_FUNCTIONS + i))"
      using NaiveFollower_ok [OF fits, unfolded f] by blast
    have "i * ?n + j \<in> set (mask_rows P i b)" if "j < ?n" for i j b using that False by (simp add: mask_rows_def)
    then have "\<exists>q\<in>set (mask_rows P i (addr_of hs (?elt j) i)). chunk ?mb sent q = answer hs ev ?mb sh (?elt j) i"
      if "j < ?n" "i < NUM_HASH_FUNCTIONS" for i j using sent(3) pos that by metis
    then show ?thesis using sent(1,2) False strat by (simp add: run getFollower_def mask_count_def Let_def mult.commute)
  next
    case True
    have b: "bins_suffice ?S" by (rule room_suffices [OF out hs(4,1) r [OF True]])
    have h: "0 < fs_numOfHashFunctions ?S" by (simp add: f NUM_HASH_FUNCTIONS_def)
    obtain sent where sent: "SimpleHashingNaiveFollower_run ?S sh prg = Ok sent"
      "length sent = NUM_HASH_FUNCTIONS * (pp_numOfBins P * pp_maxBinSize P) * ?mb"
      "\<And>p. p < ?n * NUM_HASH_FUNCTIONS \<Longrightarrow> chunk ?mb sent (entry_function ?S p * (pp_numOfBins P * pp_maxBinSize P) +
         (entry_bin ?S p * pp_maxBinSize P + entry_rank ?S p)) = masked_set ?S sh p"
      using SimpleHashingNaiveFollower_ok [where prg = prg, OF fits b h prg, unfolded f] by blast
    have "\<exists>q\<in>set (mask_rows P i (addr_of hs (?elt j) i)). chunk ?mb sent q = answer hs ev ?mb sh (?elt j) i"
      if ji: "j < ?n" "i < NUM_HASH_FUNCTIONS" for i j
    proof -
      let ?p = "?e2h ! (j * NUM_HASH_FUNCTIONS + i)"
      have "entry_rank ?S ?p < pp_maxBinSize P" using b pos [OF ji] by (simp add: bins_suffice_def f)
      then have "i * (pp_numOfBins P * pp_maxBinSize P) + (addr_of hs (?elt j) i * pp_maxBinSize P + entry_rank ?S ?p)
          \<in> set (mask_rows P i (addr_of hs (?elt j) i))" using True by (simp add: mask_rows_def mult.assoc)
      then show ?thesis using sent(3) [of ?p] pos [OF ji] by metis
    qed
    then show ?thesis using sent(1,2) True by (simp add: run getFollower_def mask_count_def Let_def)
  qed
qed

end
