(* ===== verification/Session.thy ===== *)
theory Session
  imports MultiParty
begin

text \<open>
  A whole run of the multiparty protocol with the naive strategies: what the leader's arrays hold
  after cuckoo hashing, what reaches it from the followers, and that the session counts the common elements.
\<close>

section \<open>What the leader holds\<close>

text \<open>The leader object that \<open>runAsLeader\<close> makes from the arrays of cuckoo hashing.\<close>

definition leader_of :: "PsiParty \<Rightarrow> (nat \<rightharpoonup> bytes) \<Rightarrow> CuckooHashInfo list \<Rightarrow> Leader" where
  "leader_of P results info =
     \<lparr>leaderResults = results, hashInfo = info, numOfBins = pp_numOfBins P, maskSizeInBytes = getMaskSizeInBytes P,
      setSize = pp_setSize P, parties = other_parties P, elements = eleptr P,
      elementSize = ceil_divide (internal_bitlen P) 8, numCores = pp_numCores P\<rparr>"

definition cleared :: "nat \<Rightarrow> nat list \<Rightarrow> nat list" where
  "cleared nbins heap = replicate (nbins div 4) 0 @ drop (nbins div 4) heap"

lemma ids_append: "ids (xs @ ys) = ids xs @ ids ys"
  by (simp add: ids_def)

lemma bin_rank_ids:
  assumes "\<And>c. c < nbins \<Longrightarrow> nele ! c = (if ct ! c = None then 0 else 1)" and "length ct = nbins" and "b \<le> nbins"
  shows "bin_rank nele b = length (ids (take b ct))"
  using assms(3)
proof (induction b)
  case (Suc b)
  then have "take (Suc b) ct = take b ct @ [ct ! b]" using assms(2) by (simp add: take_Suc_conv_app_nth)
  then show ?case using Suc assms(1) [of b] by (auto simp: bin_rank_def ids_snoc split: option.split)
qed (simp add: bin_rank_def ids_def)

lemma ids_nth: "b < length ct \<Longrightarrow> ct ! b = Some k \<Longrightarrow> length (ids (take b ct)) < length (ids ct) \<and> ids ct ! length (ids (take b ct)) = k"
proof -
  assume "b < length ct" "ct ! b = Some k"
  then have "ids ct = ids (take b ct) @ k # ids (drop (Suc b) ct)"
    by (metis id_take_nth_drop ids_append ids_snoc option.simps(5) append.assoc append_Cons append_Nil)
  then show ?thesis by simp
qed

text \<open>The place of every element, when all insertions succeeded.\<close>

definition places where
  "places hs elt n nbins info rank \<longleftrightarrow> length info = n \<and> (\<forall>k<n. \<exists>b<nbins. \<exists>h<NUM_HASH_FUNCTIONS.
     info ! k = \<lparr>binIndex = int b, tableIndex = int (rank b), hashedBy = h\<rparr> \<and>
     addr_of hs (elt k) h = b \<and> (\<forall>j<h. addr_of hs (elt k) j \<noteq> b) \<and> rank b < n) \<and>
   (\<forall>k<n. \<forall>k'<n. binIndex (info ! k) = binIndex (info ! k') \<longrightarrow> k = k')"

text \<open>The table behind the arrays, when no insertion failed.\<close>

definition full_table :: "hs_t \<Rightarrow> (nat \<Rightarrow> bytes) \<Rightarrow> nat \<Rightarrow> ctable \<Rightarrow> cuckoo_out \<Rightarrow> bool" where
  "full_table hs elt n ct out \<longleftrightarrow> table_inv (hs_nbins hs) n (\<lambda>k. addrs hs (elt k)) ct \<and> stored_in ct = {..<n} \<and>
     co_perm out = ids ct \<and> length (ids ct) = n \<and> distinct (ids ct) \<and>
     (\<forall>b<hs_nbins hs. bin_copied hs elt ct (replicate (hs_nbins hs) 0) out b) \<and>
     length (co_nelesinbin out) = hs_nbins hs \<and> length (co_bin_ids out) = hs_nbins hs \<and>
     length (co_hashed_by out) = hs_nbins hs \<and> length (co_hash_table out) = hs_nbins hs * outbytelen hs"

lemma cuckoo_full:
  assumes hs: "hs_wf hs" "hs_fits hs" "inbytelen hs = ceil_divide (inbitlen hs) 8"
    and l: "length el = n * inbytelen hs" and T: "0 < ntasks" and a: "length nelesinbin = hs_nbins hs"
    and run: "cuckoo_hashing el n (hs_nbins hs) hs nelesinbin (replicate n 0) ntasks (replicate (hs_nbins hs) 0)
      (replicate (hs_nbins hs) 0) = Ok out" and full: "co_failed out = []"
  shows "\<exists>ct. full_table hs (element_at hs el) n ct out"
proof -
  let ?nb = "hs_nbins hs" and ?elt = "element_at hs el"
  obtain ct out' where c: "cuckoo_hashing el n ?nb hs nelesinbin (replicate n 0) ntasks (replicate ?nb 0) (replicate ?nb 0) = Ok out'"
    "table_inv ?nb n (\<lambda>k. addrs hs (?elt k)) ct" "card (stored_in ct) + length (co_failed out') = n"
    "\<forall>b<?nb. bin_copied hs ?elt ct (replicate ?nb 0) out' b" "co_perm out' = ids ct @ drop (length (ids ct)) (replicate n 0)"
    "length (co_nelesinbin out') = ?nb" "length (co_bin_ids out') = ?nb" "length (co_hashed_by out') = ?nb"
    "length (co_hash_table out') = ?nb * outbytelen hs"
    using cuckoo_run [where nelesinbin = nelesinbin and perm = "replicate n 0" and bin_ids = "replicate (hs_nbins hs) 0" and
      hashed_by = "replicate (hs_nbins hs) 0", OF hs l T a] by auto
  have o: "out' = out" using c(1) run by simp
  have card: "card (stored_in ct) = n" using c(3) full o by simp
  have "length ct = ?nb" using c(2) by (simp add: table_inv_def)
  then have d: "distinct (ids ct)" using distinct_ids [OF c(2) order_refl] by simp
  then have "length (ids ct) = n" using card by (metis distinct_card set_ids)
  then show ?thesis using c d all_stored [OF c(2) card] unfolding full_table_def o by auto
qed

text \<open>What is in bin \<open>b\<close> of the arrays.\<close>

lemma full_table_bin:
  assumes "full_table hs elt n ct out" and "b < hs_nbins hs"
  shows "co_nelesinbin out ! b = (if ct ! b = None then 0 else 1)"
    and "ct ! b = None \<Longrightarrow> co_bin_ids out ! b = 0"
    and "ct ! b = Some k \<Longrightarrow> co_bin_ids out ! b = k + 1 \<and> k < n \<and>
      chunk (outbytelen hs) (co_hash_table out) b = val_of hs (elt k) \<and> co_hashed_by out ! b < NUM_HASH_FUNCTIONS \<and>
      addr_of hs (elt k) (co_hashed_by out ! b) = b \<and> (\<forall>j<co_hashed_by out ! b. addr_of hs (elt k) j \<noteq> b)"
proof -
  have c: "bin_copied hs elt ct (replicate (hs_nbins hs) 0) out b" using assms by (simp add: full_table_def)
  then show "co_nelesinbin out ! b = (if ct ! b = None then 0 else 1)" "ct ! b = None \<Longrightarrow> co_bin_ids out ! b = 0"
    using assms(2) by (simp_all add: bin_copied_def split: option.splits)
  assume k: "ct ! b = Some k"
  then have "k < n" using assms by (simp add: full_table_def table_inv_def)
  then show "co_bin_ids out ! b = k + 1 \<and> k < n \<and>
      chunk (outbytelen hs) (co_hash_table out) b = val_of hs (elt k) \<and> co_hashed_by out ! b < NUM_HASH_FUNCTIONS \<and>
      addr_of hs (elt k) (co_hashed_by out ! b) = b \<and> (\<forall>j<co_hashed_by out ! b. addr_of hs (elt k) j \<noteq> b)"
    using c k by (simp add: bin_copied_def)
qed

lemma full_table_rank:
  assumes f: "full_table hs elt n ct out" and b: "b \<le> hs_nbins hs"
  shows "bin_rank (co_nelesinbin out) b = length (ids (take b ct))"
  by (rule bin_rank_ids [OF _ _ b]) (use f full_table_bin(1) [OF f] in \<open>simp_all add: full_table_def table_inv_def\<close>)

lemma full_table_place:
  assumes f: "full_table hs elt n ct out" and k: "k < n"
  shows "\<exists>b<hs_nbins hs. ct ! b = Some k \<and> bin_rank (co_nelesinbin out) b < n \<and>
    bin_entry (co_bin_ids out) (co_hashed_by out) (hs_nbins hs) k =
      (bin_entry (co_bin_ids out) (co_hashed_by out) (hs_nbins hs) k)\<lparr>binIndex := int b, hashedBy := co_hashed_by out ! b\<rparr> \<and>
    table_row (co_perm out) n k = int (bin_rank (co_nelesinbin out) b)"
proof -
  let ?nb = "hs_nbins hs"
  have inv: "table_inv ?nb n (\<lambda>k. addrs hs (elt k)) ct" and perm: "co_perm out = ids ct" and l: "length (ids ct) = n" "distinct (ids ct)"
    using f by (simp_all add: full_table_def)
  have lct: "length ct = ?nb" using inv by (simp add: table_inv_def)
  have "k \<in> stored_in ct" using f k by (simp add: full_table_def)
  then obtain b where b: "b < ?nb" "ct ! b = Some k" using lct unfolding stored_in_def in_set_conv_nth by auto
  have u: "c = b" if "c < ?nb" "co_bin_ids out ! c = k + 1" for c
  proof -
    have "ct ! c = Some k" using full_table_bin(2,3) [OF f that(1)] that(2) by (cases "ct ! c") auto
    then show ?thesis using inv that(1) b unfolding table_inv_def by blast
  qed
  have id: "co_bin_ids out ! b = k + 1" using full_table_bin(3) [OF f b] by simp
  have bin: "binIndex (bin_entry (co_bin_ids out) (co_hashed_by out) ?nb k) = int b"
    "hashedBy (bin_entry (co_bin_ids out) (co_hashed_by out) ?nb k) = co_hashed_by out ! b"
    using bin_entry_unique [OF b(1) id u] by blast+
  have r: "bin_rank (co_nelesinbin out) b < n" "ids ct ! bin_rank (co_nelesinbin out) b = k"
    using ids_nth [of b ct k] b lct l(1) full_table_rank [OF f, of b] by simp_all
  have "table_row (co_perm out) n k = int (bin_rank (co_nelesinbin out) b)"
    using table_row_distinct [OF l(2) _ r(1)] r l(1) perm by simp
  then show ?thesis using b r(1) bin by (intro exI [of _ b]) simp
qed

lemma full_table_places:
  assumes f: "full_table hs elt n ct out"
  shows "\<exists>info. build_hashInfo n (hs_nbins hs) (co_bin_ids out) (co_hashed_by out) (co_perm out) = Ok info \<and>
    places hs elt n (hs_nbins hs) info (bin_rank (co_nelesinbin out)) \<and>
    (\<forall>k<n. let b = nat (binIndex (info ! k)) in 0 < co_nelesinbin out ! b \<and>
       chunk (outbytelen hs) (co_hash_table out) b = val_of hs (elt k))"
proof -
  let ?nb = "hs_nbins hs" and ?rank = "bin_rank (co_nelesinbin out)"
  have lens: "length (co_bin_ids out) = ?nb" "length (co_hashed_by out) = ?nb" "length (co_perm out) = n"
    using f by (simp_all add: full_table_def)
  have less: "co_bin_ids out ! b \<le> n" if "b < ?nb" for b
    using full_table_bin(2,3) [OF f that] by (cases "ct ! b") auto
  have "co_perm out ! i < n" if "i < n" for i
  proof -
    have "ids ct ! i \<in> {..<n}" using f that unfolding full_table_def set_ids [symmetric] by (metis nth_mem)
    then show ?thesis using f by (simp add: full_table_def)
  qed
  note build = build_hashInfo_ok [OF lens less this]
  define info where "info = map (\<lambda>e. (bin_entry (co_bin_ids out) (co_hashed_by out) ?nb e)\<lparr>tableIndex := table_row (co_perm out) n e\<rparr>) [0..<n]"
  have place: "\<exists>b<?nb. ct ! b = Some k \<and> ?rank b < n \<and>
      info ! k = \<lparr>binIndex = int b, tableIndex = int (?rank b), hashedBy = co_hashed_by out ! b\<rparr>" if k: "k < n" for k
  proof -
    obtain b where b: "b < ?nb" "ct ! b = Some k" "?rank b < n" "table_row (co_perm out) n k = int (?rank b)"
      "bin_entry (co_bin_ids out) (co_hashed_by out) ?nb k =
       (bin_entry (co_bin_ids out) (co_hashed_by out) ?nb k)\<lparr>binIndex := int b, hashedBy := co_hashed_by out ! b\<rparr>"
      using full_table_place [OF f k] by blast
    have "info ! k = (bin_entry (co_bin_ids out) (co_hashed_by out) ?nb k)\<lparr>tableIndex := int (?rank b)\<rparr>"
      using k b(4) by (simp add: info_def)
    also have "\<dots> = \<lparr>binIndex = int b, tableIndex = int (?rank b), hashedBy = co_hashed_by out ! b\<rparr>"
      by (subst b(5)) (auto intro: CuckooHashInfo.equality)
    finally show ?thesis using b(1-3) by blast
  qed
  have "places hs elt n ?nb info ?rank"
    unfolding places_def
  proof (intro conjI allI impI)
    show "length info = n" by (simp add: info_def)
  next
    fix k assume k: "k < n"
    obtain b where b: "b < ?nb" "ct ! b = Some k" "?rank b < n"
      "info ! k = \<lparr>binIndex = int b, tableIndex = int (?rank b), hashedBy = co_hashed_by out ! b\<rparr>" using place [OF k] by blast
    show "\<exists>b<?nb. \<exists>h<NUM_HASH_FUNCTIONS. info ! k = \<lparr>binIndex = int b, tableIndex = int (?rank b), hashedBy = h\<rparr> \<and>
        addr_of hs (elt k) h = b \<and> (\<forall>j<h. addr_of hs (elt k) j \<noteq> b) \<and> ?rank b < n"
      by (rule exI [of _ b], intro conjI exI [of _ "co_hashed_by out ! b"] b) (use full_table_bin(3) [OF f b(1,2)] in auto)
  next
    fix k k' assume "k < n" "k' < n" "binIndex (info ! k) = binIndex (info ! k')"
    then show "k = k'" using place [of k] place [of k'] by auto
  qed
  moreover have "0 < co_nelesinbin out ! nat (binIndex (info ! k)) \<and>
      chunk (outbytelen hs) (co_hash_table out) (nat (binIndex (info ! k))) = val_of hs (elt k)" if k: "k < n" for k
  proof -
    obtain b where b: "b < ?nb" "ct ! b = Some k" "nat (binIndex (info ! k)) = b" using place [OF k] by auto
    show ?thesis unfolding b(3) using full_table_bin(1,3) [OF f b(1)] b(2) by simp
  qed
  ultimately show ?thesis using build unfolding info_def Let_def by blast
qed

section \<open>The prepared parties\<close>

text \<open>The parameters all parties of a session share, and what the input of a party has to look like.\<close>

definition same_config :: "PsiParty \<Rightarrow> PsiParty \<Rightarrow> bool" where
  "same_config P Q \<longleftrightarrow> numOfParties P = numOfParties Q \<and> pp_setSize P = pp_setSize Q \<and>
     elementSizeInBits P = elementSizeInBits Q \<and> statSecParameter P = statSecParameter Q \<and> strategy P = strategy Q \<and>
     prfState P = prfState Q \<and> crypt P = crypt Q"

definition input_element :: "PsiParty \<Rightarrow> nat \<Rightarrow> bytes" where
  "input_element P j = chunk (ceil_divide (elementSizeInBits P) 8) (pp_elements P) j"

definition party_ok :: "PsiParty \<Rightarrow> bool" where
  "party_ok P \<longleftrightarrow> 0 < pp_setSize P \<and> length (pp_elements P) = pp_setSize P * ceil_divide (elementSizeInBits P) 8 \<and>
     digest_lengths (crypt P) \<and> ceil_divide (elementSizeInBits P) 8 \<le> num_hash_bytes (crypt P) \<and> 0 < pp_numCores P \<and>
     (pp_numCores P - 1) * ceil_divide (pp_setSize P) (pp_numCores P) \<le> pp_setSize P"

text \<open>The party after \<open>initPsi\<close>.\<close>

definition sized :: "PsiParty \<Rightarrow> PsiParty" where "sized P = initializeMaskSize (setBinsParameters P)"

definition prepared :: "PsiParty \<Rightarrow> PsiParty" where
  "prepared P =
     (let n = getMaskSizeInBytes (sized P) in
      if elementSizeInBits P > maskbitlen (sized P)
      then (sized P)\<lparr>eleptr := concat (map (domain_hash (crypt P) (pp_elements P) (ceil_divide (elementSizeInBits P) 8) n)
             [0..<pp_setSize P]), internal_bitlen := maskbitlen (sized P)\<rparr>
      else (sized P)\<lparr>eleptr := pp_elements P, internal_bitlen := elementSizeInBits P\<rparr>)"

lemma sized_fields [simp]:
  "partyId (sized P) = partyId P" "numOfParties (sized P) = numOfParties P" "pp_setSize (sized P) = pp_setSize P"
  "pp_elements (sized P) = pp_elements P" "elementSizeInBits (sized P) = elementSizeInBits P"
  "pp_numCores (sized P) = pp_numCores P" "crypt (sized P) = crypt P" "prfState (sized P) = prfState P"
  "strategy (sized P) = strategy P"
  by (simp_all add: sized_def initializeMaskSize_def setBinsParameters_def Let_def)

lemma prepared_fields [simp]:
  "partyId (prepared P) = partyId P" "numOfParties (prepared P) = numOfParties P" "pp_setSize (prepared P) = pp_setSize P"
  "pp_numCores (prepared P) = pp_numCores P" "prfState (prepared P) = prfState P" "strategy (prepared P) = strategy P"
  "pp_numOfBins (prepared P) = pp_numOfBins (sized P)" "pp_maxBinSize (prepared P) = pp_maxBinSize (sized P)"
  "maskbitlen (prepared P) = maskbitlen (sized P)" "getMaskSizeInBytes (prepared P) = getMaskSizeInBytes (sized P)"
  by (simp_all add: prepared_def Let_def getMaskSizeInBytes_def)

lemma sized_same:
  assumes "same_config P Q"
  shows "pp_numOfBins (sized P) = pp_numOfBins (sized Q)" "pp_maxBinSize (sized P) = pp_maxBinSize (sized Q)"
    "maskbitlen (sized P) = maskbitlen (sized Q)"
  using assms by (cases "strategy Q"; simp add: same_config_def sized_def initializeMaskSize_def setBinsParameters_def Let_def)+

lemma prepared_same:
  assumes "same_config P Q"
  shows "internal_bitlen (prepared P) = internal_bitlen (prepared Q)"
    "getMaskSizeInBytes (sized P) = getMaskSizeInBytes (sized Q)" "shareSize (prepared P) = shareSize (prepared Q)"
    "mask_rows (prepared P) = mask_rows (prepared Q)" "mask_count (prepared P) = mask_count (prepared Q)"
  using assms sized_same [OF assms]
  by (simp_all add: same_config_def prepared_def Let_def getMaskSizeInBytes_def shareSize_def mask_rows_def mask_count_def fun_eq_iff)

lemma mask_size: "getMaskSizeInBytes (sized P) \<le> 64"
proof -
  have "ceil_divide k 8 \<le> 64" if "k \<le> 512" for k using that by (cases "k = 0") (auto simp: ceil_divide_def)
  then show ?thesis by (simp add: sized_def initializeMaskSize_def getMaskSizeInBytes_def Let_def)
qed

lemma initPsi_ok:
  assumes "party_ok P"
  shows "initPsi P = Ok (prepared P)"
proof (cases "elementSizeInBits P > maskbitlen (sized P)")
  case True
  let ?n = "getMaskSizeInBytes (sized P)" and ?e = "ceil_divide (elementSizeInBits P) 8"
  have "domain_hashing (pp_setSize P) (pp_elements P) ?e (replicate (?n * pp_setSize P) 0) ?n (crypt P) =
      Ok (concat (map (domain_hash (crypt P) (pp_elements P) ?e ?n) [0..<pp_setSize P]))"
    using domain_hashing_ok [of "crypt P" ?n "pp_setSize P" "pp_elements P" ?e "replicate (?n * pp_setSize P) 0"] mask_size [of P]
      assms by (simp add: party_ok_def mult.commute)
  then show ?thesis using True by (simp add: initPsi_def prepared_def Let_def flip: sized_def)
qed (simp add: initPsi_def prepared_def Let_def flip: sized_def)

text \<open>The elements the hashing works on are a function of the input elements.\<close>

lemma prepared_elements:
  assumes P: "party_ok P"
  shows "length (eleptr (prepared P)) = pp_setSize P * ceil_divide (internal_bitlen (prepared P)) 8"
    and "j < pp_setSize P \<Longrightarrow> chunk (ceil_divide (internal_bitlen (prepared P)) 8) (eleptr (prepared P)) j =
      (if elementSizeInBits P > maskbitlen (sized P)
       then take (getMaskSizeInBytes (sized P)) (SHA (crypt P) (routine_for (crypt P) (getMaskSizeInBytes (sized P))) (input_element P j))
       else input_element P j)"
proof -
  let ?n = "getMaskSizeInBytes (sized P)" and ?h = "domain_hash (crypt P) (pp_elements P) (ceil_divide (elementSizeInBits P) 8) (getMaskSizeInBytes (sized P))"
  have l: "length (?h i) = ?n" for i using domain_hash_length [OF _ mask_size] P by (simp add: party_ok_def)
  show "length (eleptr (prepared P)) = pp_setSize P * ceil_divide (internal_bitlen (prepared P)) 8"
    using length_concat_same [of "pp_setSize P" ?h ?n] l P by (simp add: prepared_def Let_def party_ok_def getMaskSizeInBytes_def)
  show "chunk (ceil_divide (internal_bitlen (prepared P)) 8) (eleptr (prepared P)) j =
      (if elementSizeInBits P > maskbitlen (sized P)
       then take ?n (SHA (crypt P) (routine_for (crypt P) ?n) (input_element P j)) else input_element P j)" if "j < pp_setSize P"
    using chunk_concat [of "pp_setSize P" ?h ?n j] l that
    by (simp add: prepared_def Let_def input_element_def domain_hash_def) (simp add: getMaskSizeInBytes_def)
qed

section \<open>The shares of the session\<close>

definition expanded :: "(bytes \<Rightarrow> nat \<Rightarrow> bytes) \<Rightarrow> (nat \<Rightarrow> nat \<Rightarrow> bytes) \<Rightarrow> nat \<Rightarrow> nat \<Rightarrow> nat \<Rightarrow> bytes" where
  "expanded prg rnd len i j = prg (rnd i j) len"

lemma share_keys_find: "partyId P < q \<Longrightarrow> q \<le> numOfParties P \<Longrightarrow> map_of (share_keys P rnd) q = Some (rnd q)"
  by (auto simp: share_keys_def map_of_map_restrict restrict_map_def simp del: upt_Suc)

lemma party_share:
  assumes ids: "\<And>i. 1 \<le> i \<Longrightarrow> i \<le> N \<Longrightarrow> partyId (Ps i) = i \<and> numOfParties (Ps i) = N"
    and P: "partyId P = q" "numOfParties P = N" and q: "1 \<le> q" "q \<le> N" and prg: "\<And>k n. length (prg k n) = n"
  shows "additiveSecretShare prg P (rnd q) (\<lambda>i. map_of (share_keys (Ps i) (rnd i)) q) =
    Ok (share_of (shareSize P) (expanded prg rnd (shareSize P)) N q)"
  by (rule additiveSecretShare_ok [where rnd' = "\<lambda>i. rnd i q", OF P prg])
    (use ids q share_keys_find in \<open>auto simp: expanded_def\<close>)

lemma session_shares_ok:
  assumes ids: "\<And>i. 1 \<le> i \<Longrightarrow> i \<le> N \<Longrightarrow> partyId (Ps i) = i \<and> numOfParties (Ps i) = N"
    and ok: "\<And>i. 1 \<le> i \<Longrightarrow> i \<le> N \<Longrightarrow> party_ok (Ps i) \<and> same_config (Ps 1) (Ps i)"
    and prg: "\<And>k n. length (prg k n) = n"
  defines "len \<equiv> shareSize (prepared (Ps 1))"
  shows "session_shares prg rnd Ps N = Ok (map (\<lambda>q. (prepared (Ps q), share_of len (expanded prg rnd len) N q)) [1..<N + 1])"
  unfolding session_shares_def
proof (rule rmap_Ok)
  fix q assume "q \<in> set [1..<N + 1]"
  then have q: "1 \<le> q" "q \<le> N" by (auto simp del: upt_Suc)
  have len: "shareSize (prepared (Ps q)) = len" unfolding len_def using prepared_same(3) ok [OF q] by metis
  have "additiveSecretShare prg (prepared (Ps q)) (rnd q) (\<lambda>i. map_of (share_keys (Ps i) (rnd i)) q) =
      Ok (share_of len (expanded prg rnd len) N q)"
    unfolding len [symmetric] by (rule party_share) (use ids q prg in auto)
  then show "rbind (initPsi (Ps q)) (\<lambda>P. rbind (additiveSecretShare prg P (rnd q) (\<lambda>i. map_of (share_keys (Ps i) (rnd i)) q))
      (\<lambda>sh. Ok (P, sh))) = Ok (prepared (Ps q), share_of len (expanded prg rnd len) N q)"
    using initPsi_ok ok [OF q] by simp
qed

section \<open>What reaches the leader\<close>

lemma receiveServerData_ok:
  assumes "\<And>p. p \<in> set (parties L) \<Longrightarrow> \<exists>stream. inbox p = Some stream \<and> nmasks * maskSizeInBytes L \<le> length stream"
  shows "receiveServerData nmasks L inbox =
    Ok (L\<lparr>partiesResults := \<lambda>p. if p \<in> set (parties L) then map_option (take (nmasks * maskSizeInBytes L)) (inbox p)
       else partiesResults L p\<rparr>)"
proof -
  let ?m = "nmasks * maskSizeInBytes L"
  let ?f = "\<lambda>p L. rbind (deref (inbox p)) (\<lambda>stream. if length stream < nmasks * maskSizeInBytes L then Err WouldBlock
       else Ok (L\<lparr>partiesResults := (partiesResults L)(p \<mapsto> take (nmasks * maskSizeInBytes L) stream)\<rparr>))"
  have "rfold ?f ps L = Ok (L\<lparr>partiesResults := \<lambda>p. if p \<in> set ps then map_option (take ?m) (inbox p) else partiesResults L p\<rparr>)"
    if "set ps \<subseteq> set (parties L)" for ps
    using that
  proof (induction ps rule: rev_induct)
    case (snoc p ps)
    obtain stream where "inbox p = Some stream" "?m \<le> length stream" using assms [of p] snoc.prems by auto
    then show ?case using snoc by (simp add: rfold_append deref_def fun_eq_iff)
  qed simp
  then show ?thesis by (simp add: receiveServerData_def)
qed

lemma chunk_bxors: "chunk n (bxors z xs) b = bxors (chunk n z b) (map (\<lambda>x. chunk n x b) xs)"
  by (induction xs arbitrary: z) (simp_all add: chunk_def take_bxor drop_bxor)

text \<open>The masks of a common element cancel.\<close>

lemma common_cancels:
  assumes l: "length c = n" "\<And>p. p \<in> set ps \<Longrightarrow> length (E p) = n \<and> length (S p) = n"
    and z: "bxor c (bxors (replicate n 0) (map S ps)) = replicate n 0"
  shows "bxors c (map E ps @ map (\<lambda>p. bxor (E p) (S p)) ps) = replicate n 0"
proof -
  let ?c = "bxors c (map E ps)"
  have len: "length ?c = n" using l by (subst bxors_length) auto
  have "bxors c (map E ps @ map (\<lambda>p. bxor (E p) (S p)) ps) = bxors ?c (map (\<lambda>p. bxor (E p) (S p)) ps)" by simp
  also have "\<dots> = bxor (bxors ?c (map E ps)) (bxors (replicate n 0) (map S ps))"
    by (rule bxors_pointwise) (use l len in auto)
  also have "bxors ?c (map E ps) = c" by (rule bxors_bxors [OF l(1)]) (use l(2) in auto)
  finally show ?thesis using z by simp
qed

text \<open>
  What a leader object needs so that the elements in \<open>C\<close> are counted: \<open>res p\<close> are the masks of the
  OPRG with party \<open>p\<close>, \<open>M\<close> the number of masks a party sends.
\<close>

definition leader_holds where
  "leader_holds hs elt n L ev C \<longleftrightarrow> (let nb = numOfBins L; mb = maskSizeInBytes L in
     setSize L = n \<and> (\<exists>rank. places hs elt n nb (hashInfo L) rank) \<and>
     0 < numCores L \<and> threadCount L * n < 2 ^ 32 \<and>
     (\<forall>p\<in>set (parties L). \<exists>res. leaderResults L p = Some res \<and> length res = n * mb \<and>
        (\<forall>k<n. chunk mb res (nat (tableIndex (hashInfo L ! k))) = ev p (bin_of L k) (val_of hs (elt k)))) \<and>
     C \<subseteq> {..<n})"

definition followers_sent where
  "followers_sent hs elt L ev rng M sh N C \<longleftrightarrow> (let nb = numOfBins L; mb = maskSizeInBytes L in
     parties L = [2..<N + 1] \<and> (\<forall>i<NUM_HASH_FUNCTIONS. \<forall>b<nb. \<forall>r\<in>set (rng L i b). r < M) \<and>
     (\<forall>p\<in>{2..N}. \<exists>res. partiesResults L p = Some res \<and> length res = M * mb \<and>
        (\<forall>k\<in>C. \<forall>i<NUM_HASH_FUNCTIONS. \<exists>q\<in>set (rng L i (addr_of hs (elt k) i)).
           chunk mb res q = answer hs (ev p) mb (sh p) (elt k) i)) \<and>
     (\<forall>p\<in>{1..N}. length (sh p) = nb * mb) \<and> bxors (replicate (nb * mb) 0) (map sh [1..<N + 1]) = replicate (nb * mb) 0)"

lemma leader_place:
  assumes "leader_holds hs elt n L ev C" and "k < n"
  shows "\<exists>rank b h. b < numOfBins L \<and> h < NUM_HASH_FUNCTIONS \<and> hashInfo L ! k = \<lparr>binIndex = int b, tableIndex = int rank, hashedBy = h\<rparr> \<and>
    addr_of hs (elt k) h = b \<and> (\<forall>j<h. addr_of hs (elt k) j \<noteq> b) \<and> rank < n"
  using assms unfolding leader_holds_def places_def Let_def by blast

lemma leader_info_ok:
  fixes L :: "'a NaiveLeader_scheme"
  assumes h: "leader_holds hs elt n L ev C" and s: "followers_sent hs elt L ev rng M sh N C" and N: "1 \<le> N"
  shows "hash_info_ok L (naive_good rng L)"
proof -
  have n: "setSize L = n" "length (hashInfo L) = n" "threadCount L * n < 2 ^ 32"
    and inj: "\<forall>k<n. \<forall>k'<n. binIndex (hashInfo L ! k) = binIndex (hashInfo L ! k') \<longrightarrow> k = k'"
    using h unfolding leader_holds_def places_def Let_def by blast+
  have at: "bin_of L k < numOfBins L \<and> int (bin_of L k) = binIndex (hashInfo L ! k) \<and> hashedBy (hashInfo L ! k) < NUM_HASH_FUNCTIONS \<and>
      nat (tableIndex (hashInfo L ! k)) < n" if "k < n" for k
    using leader_place [OF h that] by (auto simp: bin_of_def)
  have "leader_reach L (nat (tableIndex (hashInfo L ! k)))" if "k < n" for k
    using h at [OF that] unfolding leader_holds_def leader_reach_def Let_def by blast
  moreover have "results_reach L (rng L (hashedBy (hashInfo L ! k)) (bin_of L k))" if k: "k < n" for k
  proof -
    have "length (parties L) + 1 = N" using s N by (simp add: followers_sent_def Let_def del: upt_Suc)
    then show ?thesis using s at [OF k] unfolding results_reach_def followers_sent_def Let_def by blast
  qed
  moreover have "i = j" if "i < n" "j < n" "bin_of L i = bin_of L j" for i j
    using inj at [OF that(1)] at [OF that(2)] that by metis
  ultimately show ?thesis using n at unfolding hash_info_ok_def naive_good_def by auto
qed

lemma common_in_all:
  fixes L :: "'a NaiveLeader_scheme"
  assumes h: "leader_holds hs elt n L ev C" and s: "followers_sent hs elt L ev rng M sh N C" and N: "1 \<le> N" and k: "k \<in> C"
  shows "in_all_sets rng L (sh 1) k"
proof -
  let ?mb = "maskSizeInBytes L" and ?nb = "numOfBins L" and ?ps = "[2..<N + 1]"
  have kn: "k < n" using h k by (auto simp: leader_holds_def Let_def)
  obtain rank b hf where i: "b < ?nb" "hf < NUM_HASH_FUNCTIONS" "hashInfo L ! k = \<lparr>binIndex = int b, tableIndex = int rank, hashedBy = hf\<rparr>"
    "addr_of hs (elt k) hf = b" "\<forall>j<hf. addr_of hs (elt k) j \<noteq> b" "rank < n"
    using leader_place [OF h kn] by blast
  have b: "bin_of L k = b" "placed_element L k" using i(3) by (simp_all add: bin_of_def placed_element_def)
  have ps: "parties L = ?ps" and lsh: "\<And>p. 1 \<le> p \<Longrightarrow> p \<le> N \<Longrightarrow> length (sh p) = ?nb * ?mb"
    and zero: "bxors (replicate (?nb * ?mb) 0) (map sh [1..<N + 1]) = replicate (?nb * ?mb) 0"
    using s by (auto simp: followers_sent_def Let_def)
  define E where "E p = ev p b (val_of hs (elt k))" for p
  define S where "S p = chunk ?mb (sh p) b" for p
  have lS: "length (S p) = ?mb" if "1 \<le> p" "p \<le> N" for p unfolding S_def by (rule length_chunk [OF lsh [OF that] i(1)])
  have got: "\<forall>p\<in>set ?ps. \<exists>res. leaderResults L p = Some res \<and> length res = n * ?mb \<and>
      (\<forall>k<n. chunk ?mb res (nat (tableIndex (hashInfo L ! k))) = ev p (bin_of L k) (val_of hs (elt k)))"
    using h unfolding leader_holds_def Let_def ps by (elim conjE)
  have E: "leader_mask L rank p = E p \<and> length (E p) = ?mb" if p: "p \<in> set ?ps" for p
  proof -
    obtain res where r: "leaderResults L p = Some res" "length res = n * ?mb"
      "\<forall>k<n. chunk ?mb res (nat (tableIndex (hashInfo L ! k))) = ev p (bin_of L k) (val_of hs (elt k))"
      using got [THEN bspec, OF p] by blast
    have "chunk ?mb res rank = E p" using r(3) [rule_format, OF kn] by (simp only: i(3) b(1) E_def CuckooHashInfo.select_convs nat_int)
    moreover have "length (chunk ?mb res rank) = ?mb" by (rule length_chunk [OF r(2) i(6)])
    ultimately show ?thesis by (simp only: leader_mask_def r(1) option.sel)
  qed
  have val: "stored (outbytelen hs) (addrs hs (elt k)) (val_of hs (elt k)) hf = val_of hs (elt k)"
    using i(2,4,5) by (auto simp: stored_def addrs_def)
  let ?choice = "map (\<lambda>p. bxor (E p) (S p)) ?ps"
  have mem: "bxor (E p) (S p) \<in> set (masks_of L (rng L hf b) p)" if "p \<in> set ?ps" for p
  proof -
    have "p \<in> {2..N}" using that by (auto simp del: upt_Suc)
    then obtain res q where "partiesResults L p = Some res" "q \<in> set (rng L hf b)"
      "chunk ?mb res q = answer hs (ev p) ?mb (sh p) (elt k) hf"
      using s k i(2,4) unfolding followers_sent_def Let_def by metis
    then show ?thesis by (force simp: masks_of_def answer_def val i(4) E_def S_def)
  qed
  have lp: "length (parties L) + 2 = N + 1" unfolding ps using N by (simp del: upt_Suc)
  have c1: "list_all2 (\<lambda>m ms. m \<in> set ms) ?choice (party_masks rng L hf b)"
    using mem unfolding party_masks_def lp by (simp add: list_all2_map1 list_all2_map2 list_all2_same del: upt_Suc)
  have "bxor (S 1) (bxors (replicate ?mb 0) (map S ?ps)) = replicate ?mb 0"
  proof -
    have "[1..<N + 1] = 1 # ?ps" using N by (simp add: upt_conv_Cons numeral_2_eq_2 del: upt_Suc)
    moreover have "chunk ?mb (replicate (?nb * ?mb) 0) b = replicate ?mb 0"
      using chunk_fits [of "replicate (?nb * ?mb) 0" ?nb ?mb b] i(1) by (simp add: chunk_def)
    moreover have "map (\<lambda>x. chunk ?mb x b) (map sh xs) = map S xs" for xs by (simp add: S_def)
    ultimately have "bxors (replicate ?mb 0) (S 1 # map S ?ps) = replicate ?mb 0"
      using arg_cong [OF zero, of "\<lambda>x. chunk ?mb x b"] by (simp only: chunk_bxors list.map S_def)
    then show ?thesis by (simp only: bxors_Cons bxors_bxor)
  qed
  then have "bxors (S 1) (map E ?ps @ ?choice) = replicate ?mb 0"
    by (intro common_cancels) (use lS N E in \<open>auto simp del: upt_Suc\<close>)
  moreover have "map (leader_mask L rank) ?ps = map E ?ps" by (rule map_cong [OF refl]) (use E in blast)
  ultimately have sum: "bxors (S 1) (map (leader_mask L rank) ?ps @ ?choice) = replicate ?mb 0" by argo
  show ?thesis unfolding in_all_sets_def ps b(1) i(3) CuckooHashInfo.select_convs nat_int
    using b(2) c1 sum [unfolded S_def [of 1]] by blast
qed

lemma leader_counts:
  fixes L :: "'a NaiveLeader_scheme"
  assumes h: "leader_holds hs elt n L ev C" and s: "followers_sent hs elt L ev rng M sh N C" and N: "1 \<le> N"
  shows "\<exists>count sh'. settles (Leader_run (isElementInAllSets rng) L (sh 1)) (threadCount L) n (count, sh') \<and>
    card C \<le> count \<and> count \<le> n"
proof -
  let ?I = "{i. i < setSize L \<and> in_all_sets rng L (sh 1) i}"
  have n: "setSize L = n" "0 < numCores L" "C \<subseteq> {..<n}" using h by (auto simp: leader_holds_def Let_def)
  have l: "length (sh 1) = numOfBins L * maskSizeInBytes L" using s N by (simp add: followers_sent_def Let_def)
  have "C \<subseteq> ?I" using common_in_all [OF h s N] n by blast
  then have "card C \<le> card ?I" by (rule card_mono [rotated]) simp
  moreover have "card ?I \<le> n" using card_mono [of "{..<n}" ?I] n(1) by auto
  ultimately show ?thesis using naive_run_counts [OF leader_info_ok [OF h s N] n(2) l] n(1) by auto
qed

section \<open>The run of the leader\<close>

text \<open>The leader's cuckoo table, and what the OPRG may rely on.\<close>

definition leader_table :: "PsiParty \<Rightarrow> hs_t \<Rightarrow> nat list \<Rightarrow> cuckoo_out res" where
  "leader_table P hs heap = (let n = pp_setSize P; nb = pp_numOfBins P in
     cuckoo_hashing (eleptr P) n nb hs (cleared nb heap) (replicate n 0) (pp_numCores P) (replicate nb 0) (replicate nb 0))"

lemma leader_table_ok:
  assumes hs: "hs_wf hs" "hs_fits hs" "inbytelen hs = ceil_divide (inbitlen hs) 8" "outbytelen hs = ceil_divide (outbitlen hs) 8"
      "hs_nbins hs = pp_numOfBins P"
    and l: "length (eleptr P) = pp_setSize P * inbytelen hs" and T: "0 < pp_numCores P" and heap: "length heap = pp_numOfBins P"
    and run: "leader_table P hs heap = Ok out" "co_failed out = []"
  shows "\<exists>ct. full_table hs (element_at hs (eleptr P)) (pp_setSize P) ct out"
    and "length (co_hash_table out) = pp_numOfBins P * ceil_divide (outbitlen hs) 8" and "length (co_nelesinbin out) = pp_numOfBins P"
    and "\<forall>b<pp_numOfBins P. co_nelesinbin out ! b \<le> 1" and "bin_rank (co_nelesinbin out) (pp_numOfBins P) \<le> pp_setSize P"
proof -
  have lc: "length (cleared (pp_numOfBins P) heap) = hs_nbins hs" using heap hs(5) by (simp add: cleared_def)
  obtain ct where ct: "full_table hs (element_at hs (eleptr P)) (pp_setSize P) ct out"
    using cuckoo_full [OF hs(1,2,3) l T lc [folded hs(5)] run(1) [unfolded leader_table_def Let_def, folded hs(5)] run(2)] by blast
  then show "\<exists>ct. full_table hs (element_at hs (eleptr P)) (pp_setSize P) ct out" ..
  show "length (co_hash_table out) = pp_numOfBins P * ceil_divide (outbitlen hs) 8" "length (co_nelesinbin out) = pp_numOfBins P"
    using ct hs(4,5) by (simp_all add: full_table_def)
  show "\<forall>b<pp_numOfBins P. co_nelesinbin out ! b \<le> 1" using full_table_bin(1) [OF ct] hs(5) by simp
  show "bin_rank (co_nelesinbin out) (pp_numOfBins P) \<le> pp_setSize P"
    using full_table_rank [OF ct, of "pp_numOfBins P"] ct hs(5) by (simp add: full_table_def table_inv_def)
qed

lemma runAsLeader_prepared:
  assumes init: "init_hashing_state (pp_setSize P) (internal_bitlen P) (pp_numOfBins P) (prfState P) = Ok (hs, prf)"
    and hs: "hs_wf hs" "hs_fits hs" "inbytelen hs = ceil_divide (inbitlen hs) 8" "outbytelen hs = ceil_divide (outbitlen hs) 8"
      "hs_nbins hs = pp_numOfBins P"
    and l: "length (eleptr P) = pp_setSize P * inbytelen hs" and T: "0 < pp_numCores P" and heap: "length heap = pp_numOfBins P"
    and run: "leader_table P hs heap = Ok out" "co_failed out = []"
    and client: "\<forall>p\<in>set (other_parties P).
      client_ok (ev p) (client p) (pp_numOfBins P) (pp_setSize P) (outbitlen hs) (maskbitlen P) (co_hash_table out) (co_nelesinbin out)"
  shows "\<exists>results info rank. (\<forall>sh inbox sched. runAsLeader other client P heap sh inbox sched =
      getLeader other (strategy P) (pp_maxBinSize P) (leader_of P results info) inbox sh sched) \<and>
    places hs (element_at hs (eleptr P)) (pp_setSize P) (pp_numOfBins P) info rank \<and>
    (\<forall>p\<in>set (other_parties P). \<exists>res. results p = Some res \<and> length res = pp_setSize P * getMaskSizeInBytes P \<and>
       (\<forall>k<pp_setSize P. chunk (getMaskSizeInBytes P) res (nat (tableIndex (info ! k))) =
          ev p (nat (binIndex (info ! k))) (val_of hs (element_at hs (eleptr P) k))))"
proof -
  let ?n = "pp_setSize P" and ?nb = "pp_numOfBins P" and ?elt = "element_at hs (eleptr P)" and ?mb = "getMaskSizeInBytes P"
  let ?rank = "bin_rank (co_nelesinbin out)"
  obtain ct where ct: "full_table hs ?elt ?n ct out" using leader_table_ok(1) [OF hs l T heap run] by blast
  obtain info where info: "build_hashInfo ?n ?nb (co_bin_ids out) (co_hashed_by out) (co_perm out) = Ok info"
    "places hs ?elt ?n ?nb info ?rank"
    "\<forall>k<?n. let b = nat (binIndex (info ! k)) in 0 < co_nelesinbin out ! b \<and> chunk (outbytelen hs) (co_hash_table out) b = val_of hs (?elt k)"
    using full_table_places [OF ct] unfolding hs(5) by blast
  have "\<forall>p\<in>set (other_parties P). \<exists>res. client p (co_hash_table out) ?nb ?n (co_nelesinbin out) (outbitlen hs) (maskbitlen P) = Ok res \<and>
      length res = ?n * ?mb \<and> (\<forall>b<?nb. 0 < co_nelesinbin out ! b \<longrightarrow>
        chunk ?mb res (?rank b) = ev p b (chunk (outbytelen hs) (co_hash_table out) b))"
    using client unfolding client_ok_def getMaskSizeInBytes_def hs(4) by blast
  then obtain R where R: "\<And>p. p \<in> set (other_parties P) \<Longrightarrow>
      client p (co_hash_table out) ?nb ?n (co_nelesinbin out) (outbitlen hs) (maskbitlen P) = Ok (R p) \<and> length (R p) = ?n * ?mb \<and>
      (\<forall>b<?nb. 0 < co_nelesinbin out ! b \<longrightarrow> chunk ?mb (R p) (?rank b) = ev p b (chunk (outbytelen hs) (co_hash_table out) b))"
    by metis
  let ?results = "map_of (zip (other_parties P) (map R (other_parties P)))"
  have "rmap (\<lambda>p. client p (co_hash_table out) ?nb ?n (co_nelesinbin out) (outbitlen hs) (maskbitlen P)) (other_parties P) =
      Ok (map R (other_parties P))" by (rule rmap_Ok) (use R in blast)
  then have "runAsLeader other client P heap sh inbox sched =
      getLeader other (strategy P) (pp_maxBinSize P) (leader_of P ?results info) inbox sh sched" for sh inbox sched
    using init run(1) info(1) by (simp add: runAsLeader_def Let_def leader_of_def leader_table_def cleared_def)
  moreover have "?results p = Some (R p) \<and> length (R p) = ?n * ?mb \<and>
      (\<forall>k<?n. chunk ?mb (R p) (nat (tableIndex (info ! k))) = ev p (nat (binIndex (info ! k))) (val_of hs (?elt k)))"
    if p: "p \<in> set (other_parties P)" for p
  proof (intro conjI allI impI)
    show "?results p = Some (R p)" using p by (simp add: map_of_zip_map)
    show "length (R p) = ?n * ?mb" using R [OF p] by blast
    fix k assume k: "k < ?n"
    obtain b h where b: "b < ?nb" "info ! k = \<lparr>binIndex = int b, tableIndex = int (?rank b), hashedBy = h\<rparr>"
      using info(2) k unfolding places_def by blast
    have "0 < co_nelesinbin out ! b" "chunk (outbytelen hs) (co_hash_table out) b = val_of hs (?elt k)"
      using info(3) k b(2) by (auto simp: Let_def dest!: spec [of _ k])
    then show "chunk ?mb (R p) (nat (tableIndex (info ! k))) = ev p (nat (binIndex (info ! k))) (val_of hs (?elt k))"
      using R [OF p] b by simp
  qed
  ultimately show ?thesis using info(2) by blast
qed

text \<open>The leader object once the masks of the parties have arrived.\<close>

definition leader_received :: "Leader \<Rightarrow> (nat \<rightharpoonup> bytes) \<Rightarrow> NaiveLeader" where
  "leader_received L inbox = Leader.Leader.extend L \<lparr>partiesResults = (\<lambda>p. if p \<in> set (parties L) then inbox p else None)\<rparr>"

definition bins_received :: "Leader \<Rightarrow> nat \<Rightarrow> (nat \<rightharpoonup> bytes) \<Rightarrow> SimpleHashingNaiveLeader" where
  "bins_received L maxbin inbox = Leader.Leader.extend L
     \<lparr>partiesResults = (\<lambda>p. if p \<in> set (parties L) then inbox p else None), maxBinSize = maxbin\<rparr>"

lemma naive_leader_received:
  assumes "\<And>p. p \<in> set (parties L) \<Longrightarrow> \<exists>s. inbox p = Some s \<and> length s = NUM_HASH_FUNCTIONS * setSize L * maskSizeInBytes L"
  shows "getLeader other NAIVE_METHOD_SMALL_N maxbin L inbox sh sched =
    Leader_run (isElementInAllSets NaiveLeader_range) (leader_received L inbox) sh sched"
proof -
  let ?L = "Leader.Leader.extend L \<lparr>partiesResults = Map.empty\<rparr> :: NaiveLeader"
  have "(\<lambda>p. if p \<in> set (parties L) then map_option (take (NUM_HASH_FUNCTIONS * setSize L * maskSizeInBytes L)) (inbox p) else None) =
      (\<lambda>p. if p \<in> set (parties L) then inbox p else None)" using assms by (fastforce simp: fun_eq_iff)
  then have "receiveServerData (NUM_HASH_FUNCTIONS * setSize ?L) ?L inbox = Ok (leader_received L inbox)"
    using receiveServerData_ok [of ?L inbox "NUM_HASH_FUNCTIONS * setSize ?L"] assms
    by (fastforce simp: Leader.Leader.extend_def leader_received_def)
  then show ?thesis by (simp add: getLeader_def NaiveLeader_run_def)
qed

lemma bins_leader_received:
  assumes "\<And>p. p \<in> set (parties L) \<Longrightarrow> \<exists>s. inbox p = Some s \<and> length s = NUM_HASH_FUNCTIONS * numOfBins L * maxbin * maskSizeInBytes L"
  shows "getLeader other SIMPLE_HASH maxbin L inbox sh sched =
    Leader_run (isElementInAllSets SimpleHashingNaiveLeader_range) (bins_received L maxbin inbox) sh sched"
proof -
  let ?L = "Leader.Leader.extend L \<lparr>partiesResults = Map.empty, maxBinSize = maxbin\<rparr> :: SimpleHashingNaiveLeader"
  let ?m = "NUM_HASH_FUNCTIONS * numOfBins L * maxbin"
  have "(\<lambda>p. if p \<in> set (parties L) then map_option (take (?m * maskSizeInBytes L)) (inbox p) else None) =
      (\<lambda>p. if p \<in> set (parties L) then inbox p else None)" using assms by (fastforce simp: fun_eq_iff)
  then have "receiveServerData (NUM_HASH_FUNCTIONS * numOfBins ?L * maxBinSize ?L) ?L inbox = Ok (bins_received L maxbin inbox)"
    using receiveServerData_ok [of ?L inbox ?m] assms
    by (fastforce simp: Leader.Leader.extend_def bins_received_def)
  then show ?thesis by (simp add: getLeader_def SimpleHashingNaiveLeader_run_def)
qed

lemma session_leader_counts:
  fixes P :: PsiParty and sh :: "nat \<Rightarrow> bytes"
  defines "mb \<equiv> getMaskSizeInBytes P" and "nb \<equiv> pp_numOfBins P" and "n \<equiv> pp_setSize P"
  assumes strat: "strategy P = NAIVE_METHOD_SMALL_N \<or> strategy P = SIMPLE_HASH" and N: "1 \<le> N" and ps: "other_parties P = [2..<N + 1]"
    and T: "0 < pp_numCores P" "min (pp_numCores P) n * n < 2 ^ 32"
    and info: "places hs elt n nb info rank"
    and results: "\<forall>p\<in>set (other_parties P). \<exists>res. results p = Some res \<and> length res = n * mb \<and>
       (\<forall>k<n. chunk mb res (nat (tableIndex (info ! k))) = ev p (nat (binIndex (info ! k))) (val_of hs (elt k)))"
    and sent: "\<forall>p\<in>{2..N}. \<exists>s. inbox p = Some s \<and> length s = mask_count P * mb \<and>
       (\<forall>k\<in>C. \<forall>i<NUM_HASH_FUNCTIONS. \<exists>q\<in>set (mask_rows P i (addr_of hs (elt k) i)). chunk mb s q = answer hs (ev p) mb (sh p) (elt k) i)"
    and sh: "\<forall>p\<in>{1..N}. length (sh p) = nb * mb" "bxors (replicate (nb * mb) 0) (map sh [1..<N + 1]) = replicate (nb * mb) 0"
    and C: "C \<subseteq> {..<n}"
  shows "\<exists>count sh'. settles (getLeader other (strategy P) (pp_maxBinSize P) (leader_of P results info) inbox (sh 1))
      (min (pp_numCores P) n) n (count, sh') \<and> card C \<le> count \<and> count \<le> n"
proof -
  let ?L = "leader_of P results info"
  have mem: "p \<in> set (other_parties P) \<longleftrightarrow> p \<in> {2..N}" for p unfolding ps by (auto simp del: upt_Suc)
  have L: "maskSizeInBytes ?L = mb" "numOfBins ?L = nb" "setSize ?L = n" "parties ?L = other_parties P" "hashInfo ?L = info"
    "leaderResults ?L = results" "numCores ?L = pp_numCores P" by (simp_all add: leader_of_def mb_def nb_def n_def)
  have rows: "\<forall>i<NUM_HASH_FUNCTIONS. \<forall>b<nb. \<forall>r\<in>set (mask_rows P i b). r < mask_count P"
    using mask_rows_less [of _ _ P] by (simp add: nb_def)
  show ?thesis
  proof (cases "strategy P = SIMPLE_HASH")
    case True
    let ?B = "bins_received ?L (pp_maxBinSize P) inbox"
    have B: "maskSizeInBytes ?B = mb" "numOfBins ?B = nb" "setSize ?B = n" "parties ?B = other_parties P" "hashInfo ?B = info"
      "leaderResults ?B = results" "numCores ?B = pp_numCores P" "threadCount ?B = min (pp_numCores P) n"
      "partiesResults ?B = (\<lambda>p. if p \<in> set (other_parties P) then inbox p else None)" "maxBinSize ?B = pp_maxBinSize P"
      by (simp_all add: bins_received_def Leader.Leader.extend_def leader_of_def mb_def nb_def n_def threadCount_def)
    have rng: "SimpleHashingNaiveLeader_range ?B = mask_rows P"
      using True by (simp add: fun_eq_iff SimpleHashingNaiveLeader_range_def mask_rows_def B nb_def)
    have "\<exists>s. inbox p = Some s \<and> length s = NUM_HASH_FUNCTIONS * numOfBins ?L * pp_maxBinSize P * maskSizeInBytes ?L"
      if "p \<in> set (parties ?L)" for p
      using sent [THEN bspec, of p] that True mem unfolding L mask_count_def nb_def by (auto simp: mult.assoc)
    then have run: "getLeader other (strategy P) (pp_maxBinSize P) ?L inbox (sh 1) =
        Leader_run (isElementInAllSets SimpleHashingNaiveLeader_range) ?B (sh 1)"
      unfolding True by (intro ext bins_leader_received)
    have h: "leader_holds hs elt n ?B ev C"
      using info T C results unfolding leader_holds_def Let_def B bin_of_def by blast
    have "followers_sent hs elt ?B ev SimpleHashingNaiveLeader_range (mask_count P) sh N C"
      using rows sent sh unfolding followers_sent_def Let_def B rng by (simp add: ps del: upt_Suc)
    then show ?thesis using leader_counts [OF h _ N] unfolding run B by blast
  next
    case False
    then have st: "strategy P = NAIVE_METHOD_SMALL_N" using strat by blast
    let ?B = "leader_received ?L inbox"
    have B: "maskSizeInBytes ?B = mb" "numOfBins ?B = nb" "setSize ?B = n" "parties ?B = other_parties P" "hashInfo ?B = info"
      "leaderResults ?B = results" "numCores ?B = pp_numCores P" "threadCount ?B = min (pp_numCores P) n"
      "partiesResults ?B = (\<lambda>p. if p \<in> set (other_parties P) then inbox p else None)"
      by (simp_all add: leader_received_def Leader.Leader.extend_def leader_of_def mb_def nb_def n_def threadCount_def)
    have rng: "NaiveLeader_range ?B = mask_rows P"
      using False by (simp add: fun_eq_iff NaiveLeader_range_def mask_rows_def B n_def)
    have "\<exists>s. inbox p = Some s \<and> length s = NUM_HASH_FUNCTIONS * setSize ?L * maskSizeInBytes ?L"
      if "p \<in> set (parties ?L)" for p
      using sent [THEN bspec, of p] that False mem unfolding L mask_count_def n_def by auto
    then have run: "getLeader other (strategy P) (pp_maxBinSize P) ?L inbox (sh 1) =
        Leader_run (isElementInAllSets NaiveLeader_range) ?B (sh 1)"
      unfolding st by (intro ext naive_leader_received)
    have h: "leader_holds hs elt n ?B ev C"
      using info T C results unfolding leader_holds_def Let_def B bin_of_def by blast
    have "followers_sent hs elt ?B ev NaiveLeader_range (mask_count P) sh N C"
      using rows sent sh unfolding followers_sent_def Let_def B rng by (simp add: ps del: upt_Suc)
    then show ?thesis using leader_counts [OF h _ N] unfolding run B by blast
  qed
qed

section \<open>The session counts the common elements\<close>

definition session_config :: "(nat \<Rightarrow> PsiParty) \<Rightarrow> nat \<Rightarrow> bool" where
  "session_config Ps N \<longleftrightarrow> 1 \<le> N \<and>
     (\<forall>q\<in>{1..N}. partyId (Ps q) = q \<and> numOfParties (Ps q) = N \<and> same_config (Ps 1) (Ps q) \<and> party_ok (Ps q)) \<and>
     (strategy (Ps 1) = NAIVE_METHOD_SMALL_N \<or> strategy (Ps 1) = SIMPLE_HASH) \<and> prf_ok (prfState (Ps 1)) \<and>
     pp_numOfBins (prepared (Ps 1)) < 2 ^ 32 \<and> min (pp_numCores (Ps 1)) (pp_setSize (Ps 1)) * pp_setSize (Ps 1) < 2 ^ 32"

text \<open>The hashing state every party initialises from the common seed.\<close>

definition session_hashing :: "(nat \<Rightarrow> PsiParty) \<Rightarrow> hs_t \<Rightarrow> bool" where
  "session_hashing Ps hs \<longleftrightarrow> (let P = prepared (Ps 1) in
     \<exists>prf. init_hashing_state (pp_setSize P) (internal_bitlen P) (pp_numOfBins P) (prfState P) = Ok (hs, prf))"

text \<open>The leader's insertions succeed, the buffers of the OPRG take the entries of a follower's bin, and a bin of the strategy
  with bins takes what a follower hashes into it.\<close>

definition hashing_fits :: "(nat \<Rightarrow> PsiParty) \<Rightarrow> nat \<Rightarrow> hs_t \<Rightarrow> nat list \<Rightarrow> bool" where
  "hashing_fits Ps N hs heap \<longleftrightarrow> (let P = prepared (Ps 1); n = pp_setSize P; nb = pp_numOfBins P in
     hs_fits hs \<and> n * outbytelen hs < 2 ^ 32 \<and> length heap = nb \<and>
     (\<exists>out. leader_table P hs heap = Ok out \<and> co_failed out = []) \<and>
     (\<forall>q\<in>{2..N}. expansion_fits (bin_load hs (element_at hs (eleptr (prepared (Ps q)))) n) nb) \<and>
     (strategy P = SIMPLE_HASH \<longrightarrow>
        (\<forall>q\<in>{2..N}. room hs (element_at hs (eleptr (prepared (Ps q)))) n (pp_maxBinSize P))))"

definition oprg_ok where
  "oprg_ok ev client server P N hs out \<longleftrightarrow> (\<forall>p\<in>{2..N}.
     client_ok (ev p) (client p) (pp_numOfBins P) (pp_setSize P) (outbitlen hs) (maskbitlen P) (co_hash_table out) (co_nelesinbin out) \<and>
     server_ok (ev p) (server p) (pp_numOfBins P) (outbitlen hs) (maskbitlen P))"

text \<open>The elements of the leader that every follower has.\<close>

definition common_elements :: "(nat \<Rightarrow> PsiParty) \<Rightarrow> nat \<Rightarrow> nat set" where
  "common_elements Ps N = {k. k < pp_setSize (Ps 1) \<and>
     (\<forall>q\<in>{2..N}. \<exists>j<pp_setSize (Ps q). input_element (Ps q) j = input_element (Ps 1) k)}"

lemma session_hashing_ok:
  assumes c: "session_config Ps N" and h: "session_hashing Ps hs" and q: "q \<in> {1..N}"
  shows "\<exists>prf. init_hashing_state (pp_setSize (prepared (Ps q))) (internal_bitlen (prepared (Ps q))) (pp_numOfBins (prepared (Ps q)))
      (prfState (prepared (Ps q))) = Ok (hs, prf)"
    and "hs_wf hs" and "inbitlen hs = internal_bitlen (prepared (Ps q))" and "inbytelen hs = ceil_divide (inbitlen hs) 8"
    and "outbytelen hs = ceil_divide (outbitlen hs) 8" and "hs_nbins hs = pp_numOfBins (prepared (Ps q))"
    and "length (eleptr (prepared (Ps q))) = pp_setSize (prepared (Ps q)) * inbytelen hs" and "0 < outbitlen hs"
proof -
  let ?P = "prepared (Ps 1)" and ?Q = "prepared (Ps q)"
  have same: "same_config (Ps 1) (Ps q)" and ok: "party_ok (Ps q)" "party_ok (Ps 1)" using c q by (auto simp: session_config_def)
  note eq = prepared_same(1) [OF same] sized_same(1) [OF same]
  have f: "pp_setSize ?Q = pp_setSize ?P" "prfState ?Q = prfState ?P" "pp_numOfBins ?Q = pp_numOfBins ?P"
    using same eq(2) by (simp_all add: same_config_def)
  obtain p where init: "init_hashing_state (pp_setSize ?P) (internal_bitlen ?P) (pp_numOfBins ?P) (prfState ?P) = Ok (hs, p)"
    using h unfolding session_hashing_def Let_def by blast
  then show "\<exists>prf. init_hashing_state (pp_setSize ?Q) (internal_bitlen ?Q) (pp_numOfBins ?Q) (prfState ?Q) = Ok (hs, prf)"
    unfolding f eq(1) [symmetric] by blast
  have "0 < pp_numOfBins ?P" using ok(2)
    by (simp add: sized_def initializeMaskSize_def setBinsParameters_def Let_def party_ok_def ceil_divide_pos)
  then have "hs_wf hs \<and> hs_shape (pp_setSize ?P) (internal_bitlen ?P) (pp_numOfBins ?P) hs"
    using init_hashing_ok [of "prfState ?P" "pp_numOfBins ?P" "pp_setSize ?P" "internal_bitlen ?P"] init c
    by (auto simp: session_config_def)
  then show "hs_wf hs" "inbitlen hs = internal_bitlen ?Q" "inbytelen hs = ceil_divide (inbitlen hs) 8"
    "outbytelen hs = ceil_divide (outbitlen hs) 8" "hs_nbins hs = pp_numOfBins ?Q" "0 < outbitlen hs"
    using eq f by (simp_all add: hs_shape_def)
  then show "length (eleptr ?Q) = pp_setSize ?Q * inbytelen hs" using prepared_elements(1) [OF ok(1)] by simp
qed

lemma common_hashed:
  assumes c: "session_config Ps N" and h: "session_hashing Ps hs" and k: "k \<in> common_elements Ps N" and q: "q \<in> {2..N}"
  shows "\<exists>j<pp_setSize (Ps q). element_at hs (eleptr (prepared (Ps q))) j = element_at hs (eleptr (prepared (Ps 1))) k"
proof -
  have q1: "q \<in> {1..N}" "1 \<in> {1..N}" using q by auto
  have same: "same_config (Ps 1) (Ps q)" and ok: "party_ok (Ps q)" "party_ok (Ps 1)" using c q1 by (auto simp: session_config_def)
  obtain j where j: "j < pp_setSize (Ps q)" "input_element (Ps q) j = input_element (Ps 1) k" and kn: "k < pp_setSize (Ps 1)"
    using k q unfolding common_elements_def by blast
  have eq: "element_at hs (eleptr (prepared P)) i = chunk (ceil_divide (internal_bitlen (prepared P)) 8) (eleptr (prepared P)) i"
    if "inbytelen hs = ceil_divide (internal_bitlen (prepared P)) 8" for P i using that by (simp add: element_at_def)
  have ib: "inbytelen hs = ceil_divide (internal_bitlen (prepared (Ps q))) 8" "inbytelen hs = ceil_divide (internal_bitlen (prepared (Ps 1))) 8"
    using session_hashing_ok(3,4) [OF c h q1(1)] session_hashing_ok(3,4) [OF c h q1(2)] by simp_all
  have "element_at hs (eleptr (prepared (Ps q))) j = element_at hs (eleptr (prepared (Ps 1))) k"
    unfolding eq [OF ib(1)] eq [OF ib(2)] prepared_elements(2) [OF ok(1) j(1)] prepared_elements(2) [OF ok(2) kn]
    using same sized_same(3) [OF same] prepared_same(2) [OF same] j(2) by (simp add: same_config_def)
  then show ?thesis using j(1) by blast
qed

text \<open>What follower \<open>q\<close> sends.\<close>

lemma session_follower:
  fixes sh :: bytes
  assumes c: "session_config Ps N" and h: "session_hashing Ps hs" and f: "hashing_fits Ps N hs heap"
    and o: "oprg_ok ev client server (prepared (Ps 1)) N hs out" and q: "q \<in> {2..N}" and prg: "\<And>i n. length (fprg i n) = n"
    and sh: "length sh = pp_numOfBins (prepared (Ps 1)) * getMaskSizeInBytes (prepared (Ps 1))"
  defines "P \<equiv> prepared (Ps 1)"
  shows "\<exists>sent. runAsFollower other (server q) fprg (prepared (Ps q)) sh = Ok sent \<and>
    length sent = mask_count P * getMaskSizeInBytes P \<and>
    (\<forall>k\<in>common_elements Ps N. \<forall>i<NUM_HASH_FUNCTIONS. let e = element_at hs (eleptr P) k in
       \<exists>r\<in>set (mask_rows P i (addr_of hs e i)). chunk (getMaskSizeInBytes P) sent r = answer hs (ev q) (getMaskSizeInBytes P) sh e i)"
proof -
  let ?Q = "prepared (Ps q)"
  have q1: "q \<in> {1..N}" using q by simp
  have same: "same_config (Ps 1) (Ps q)" and ok: "party_ok (Ps q)" using c q1 by (auto simp: session_config_def)
  note s = session_hashing_ok [OF c h q1]
  note eq = sized_same [OF same] prepared_same [OF same]
  have n: "pp_setSize (Ps q) = pp_setSize (Ps 1)" "strategy (Ps q) = strategy (Ps 1)" using same by (simp_all add: same_config_def)
  obtain p where init: "init_hashing_state (pp_setSize ?Q) (internal_bitlen ?Q) (pp_numOfBins ?Q) (prfState ?Q) = Ok (hs, p)"
    using s(1) by blast
  have st: "strategy ?Q = NAIVE_METHOD_SMALL_N \<or> strategy ?Q = SIMPLE_HASH" using c n by (simp add: session_config_def)
  have fits: "hs_fits hs" "pp_setSize ?Q * outbytelen hs < 2 ^ 32" using f n by (simp_all add: hashing_fits_def Let_def)
  have T: "0 < pp_numCores ?Q" "(pp_numCores ?Q - 1) * ceil_divide (pp_setSize ?Q) (pp_numCores ?Q) \<le> pp_setSize ?Q"
    using ok by (simp_all add: party_ok_def)
  have srv: "server_ok (ev q) (server q) (pp_numOfBins ?Q) (outbitlen hs) (maskbitlen ?Q)"
    using o q eq(1,3) by (simp add: oprg_ok_def)
  have load: "expansion_fits (bin_load hs (element_at hs (eleptr ?Q)) (pp_setSize ?Q)) (pp_numOfBins ?Q)"
    using f q n eq(1) by (simp add: hashing_fits_def Let_def)
  have l: "length sh = pp_numOfBins ?Q * getMaskSizeInBytes ?Q" using sh eq(1,5) by simp
  have r: "room hs (element_at hs (eleptr ?Q)) (pp_setSize ?Q) (pp_maxBinSize ?Q)" if "strategy ?Q = SIMPLE_HASH"
    using f q that n eq(2) by (simp add: hashing_fits_def Let_def)
  obtain sent where sent: "runAsFollower other (server q) fprg ?Q sh = Ok sent" "length sent = mask_count ?Q * getMaskSizeInBytes ?Q"
    "\<forall>j<pp_setSize ?Q. \<forall>i<NUM_HASH_FUNCTIONS. let e = element_at hs (eleptr ?Q) j in
       \<exists>r\<in>set (mask_rows ?Q i (addr_of hs e i)). chunk (getMaskSizeInBytes ?Q) sent r = answer hs (ev q) (getMaskSizeInBytes ?Q) sh e i"
    using follower_answers [where prg = fprg and other = other, OF st init s(2) fits(1) s(5,6,7) fits(2) T srv load l prg] r by blast
  have "\<exists>r\<in>set (mask_rows P i (addr_of hs (element_at hs (eleptr P) k) i)).
      chunk (getMaskSizeInBytes P) sent r = answer hs (ev q) (getMaskSizeInBytes P) sh (element_at hs (eleptr P) k) i"
    if k: "k \<in> common_elements Ps N" and i: "i < NUM_HASH_FUNCTIONS" for k i
  proof -
    obtain j where "j < pp_setSize ?Q" "element_at hs (eleptr ?Q) j = element_at hs (eleptr P) k"
      using common_hashed [OF c h k q] unfolding P_def by auto
    then show ?thesis using sent(3) i eq(5,7) unfolding P_def prepared_fields Let_def by metis
  qed
  then show ?thesis using sent(1,2) eq(5,8) unfolding P_def prepared_fields Let_def by metis
qed

text \<open>What the leader receives when every follower has sent its masks.\<close>

lemma session_inbox:
  assumes "\<And>q. q \<in> {2..N} \<Longrightarrow> \<exists>s. f q = Ok s \<and> R q s"
  shows "\<exists>sent. rmap f [2..<N + 1] = Ok sent \<and>
    (\<forall>q\<in>{2..N}. \<exists>s. map_of (zip [2..<N + 1] sent) q = Some s \<and> R q s)"
proof -
  have mem: "q \<in> set [2..<N + 1] \<longleftrightarrow> q \<in> {2..N}" for q by (auto simp del: upt_Suc)
  obtain S where S: "\<And>q. q \<in> {2..N} \<Longrightarrow> f q = Ok (S q) \<and> R q (S q)" using assms by metis
  have "rmap f [2..<N + 1] = Ok (map S [2..<N + 1])" by (rule rmap_Ok) (use S mem in blast)
  moreover have "map_of (zip [2..<N + 1] (map S [2..<N + 1])) q = Some (S q)" if "q \<in> {2..N}" for q
    by (simp only: map_of_zip_map mem that if_True)
  ultimately show ?thesis using S by blast
qed

lemma session_result:
  assumes c: "session_config Ps N" and h: "session_hashing Ps hs" and f: "hashing_fits Ps N hs heap"
    and out: "leader_table (prepared (Ps 1)) hs heap = Ok out"
    and o: "oprg_ok ev client server (prepared (Ps 1)) N hs out"
    and prg: "\<And>k n. length (prg k n) = n" and fprg: "\<And>q i n. length (fprg q i n) = n"
  shows "\<exists>count sh. settles (psi_session other otherF client server prg fprg rnd heap Ps N)
      (min (pp_numCores (Ps 1)) (pp_setSize (Ps 1))) (pp_setSize (Ps 1)) (count, sh) \<and>
    card (common_elements Ps N) \<le> count \<and> count \<le> pp_setSize (Ps 1)"
proof -
  let ?P = "prepared (Ps 1)" and ?C = "common_elements Ps N"
  define len where "len = shareSize ?P"
  define sh where "sh = share_of len (expanded prg rnd len) N"
  have one: "1 \<in> {1..N}" and N: "1 \<le> N" using c by (simp_all add: session_config_def)
  have lens: "length (sh q) = len" for q unfolding sh_def by (rule share_of_length) (simp add: expanded_def prg)
  have cancel: "bxors (replicate len 0) (map sh [1..<N + 1]) = replicate len 0"
    unfolding sh_def by (rule shares_cancel) (simp add: expanded_def prg)
  have len: "len = pp_numOfBins ?P * getMaskSizeInBytes ?P" by (simp add: len_def shareSize_def mult.commute)
  have shares: "session_shares prg rnd Ps N = Ok (map (\<lambda>q. (prepared (Ps q), sh q)) [1..<N + 1])"
    unfolding sh_def len_def by (rule session_shares_ok) (use c prg in \<open>auto simp: session_config_def\<close>)
  have at: "rd (map (\<lambda>q. (prepared (Ps q), sh q)) [1..<N + 1]) (q - 1) = Ok (prepared (Ps q), sh q)" if "1 \<le> q" "q \<le> N" for q
    using that nth_upt [of 1 "q - 1" "N + 1"] by (simp del: upt_Suc)
  obtain sent where sent: "rmap (\<lambda>q. rbind (rd (map (\<lambda>q. (prepared (Ps q), sh q)) [1..<N + 1]) (q - 1)) (\<lambda>(P, sh).
        runAsFollower otherF (server q) (fprg q) P sh)) [2..<N + 1] = Ok sent"
    and inbox: "\<forall>q\<in>{2..N}. \<exists>s. map_of (zip [2..<N + 1] sent) q = Some s \<and> length s = mask_count ?P * getMaskSizeInBytes ?P \<and>
      (\<forall>k\<in>?C. \<forall>i<NUM_HASH_FUNCTIONS. let e = element_at hs (eleptr ?P) k in \<exists>r\<in>set (mask_rows ?P i (addr_of hs e i)).
         chunk (getMaskSizeInBytes ?P) s r = answer hs (ev q) (getMaskSizeInBytes ?P) (sh q) e i)"
    using session_inbox [where f = "\<lambda>q. rbind (rd (map (\<lambda>q. (prepared (Ps q), sh q)) [1..<N + 1]) (q - 1)) (\<lambda>(P, sh).
        runAsFollower otherF (server q) (fprg q) P sh)" and N = N and
      R = "\<lambda>q s. length s = mask_count ?P * getMaskSizeInBytes ?P \<and>
      (\<forall>k\<in>?C. \<forall>i<NUM_HASH_FUNCTIONS. let e = element_at hs (eleptr ?P) k in \<exists>r\<in>set (mask_rows ?P i (addr_of hs e i)).
         chunk (getMaskSizeInBytes ?P) s r = answer hs (ev q) (getMaskSizeInBytes ?P) (sh q) e i)"]
      session_follower [where other = otherF, OF c h f o _ fprg lens [unfolded len]] at by force
  note s = session_hashing_ok [OF c h one]
  obtain p where init: "init_hashing_state (pp_setSize ?P) (internal_bitlen ?P) (pp_numOfBins ?P) (prfState ?P) = Ok (hs, p)"
    using s(1) by blast
  have heap: "length heap = pp_numOfBins ?P" and fits: "hs_fits hs" and none: "co_failed out = []"
    using f out unfolding hashing_fits_def Let_def by auto
  have ps: "other_parties ?P = [2..<N + 1]"
  proof -
    have "[1..<N + 1] = 1 # [2..<N + 1]" using N by (simp add: upt_conv_Cons numeral_2_eq_2 del: upt_Suc)
    moreover have "partyId ?P = 1" "numOfParties ?P = N" using c one by (auto simp: session_config_def)
    ultimately show ?thesis by (simp add: other_parties_def filter_True del: upt_Suc)
  qed
  have T: "0 < pp_numCores ?P" using c one by (auto simp: session_config_def party_ok_def)
  have cl: "\<forall>q\<in>set (other_parties ?P).
      client_ok (ev q) (client q) (pp_numOfBins ?P) (pp_setSize ?P) (outbitlen hs) (maskbitlen ?P) (co_hash_table out) (co_nelesinbin out)"
    using o unfolding ps oprg_ok_def by (auto simp del: upt_Suc)
  obtain results info rank where lead: "\<forall>sh inbox sched. runAsLeader other client ?P heap sh inbox sched =
      getLeader other (strategy ?P) (pp_maxBinSize ?P) (leader_of ?P results info) inbox sh sched"
    and info: "places hs (element_at hs (eleptr ?P)) (pp_setSize ?P) (pp_numOfBins ?P) info rank"
    and results: "\<forall>p\<in>set (other_parties ?P). \<exists>res. results p = Some res \<and> length res = pp_setSize ?P * getMaskSizeInBytes ?P \<and>
       (\<forall>k<pp_setSize ?P. chunk (getMaskSizeInBytes ?P) res (nat (tableIndex (info ! k))) =
          ev p (nat (binIndex (info ! k))) (val_of hs (element_at hs (eleptr ?P) k)))"
    using runAsLeader_prepared [where other = other and client = client and ev = ev, OF init s(2) fits s(4-7) T heap out none cl]
    by (elim exE conjE) (rule that)
  have "psi_session other otherF client server prg fprg rnd heap Ps N =
      getLeader other (strategy ?P) (pp_maxBinSize ?P) (leader_of ?P results info) (map_of (zip [2..<N + 1] sent)) (sh 1)"
    unfolding psi_session_def shares rbind.simps sent using at [of 1] N lead by (intro ext) (simp del: upt_Suc)
  moreover have "\<exists>count sh'. settles (getLeader other (strategy ?P) (pp_maxBinSize ?P) (leader_of ?P results info)
      (map_of (zip [2..<N + 1] sent)) (sh 1)) (min (pp_numCores ?P) (pp_setSize ?P)) (pp_setSize ?P) (count, sh') \<and>
      card ?C \<le> count \<and> count \<le> pp_setSize ?P"
  proof (rule session_leader_counts [OF _ N ps T _ info results])
    show "strategy ?P = NAIVE_METHOD_SMALL_N \<or> strategy ?P = SIMPLE_HASH"
      "min (pp_numCores ?P) (pp_setSize ?P) * pp_setSize ?P < 2 ^ 32" using c by (simp_all add: session_config_def)
    show "?C \<subseteq> {..<pp_setSize ?P}" by (auto simp: common_elements_def)
    show "\<forall>q\<in>{1..N}. length (sh q) = pp_numOfBins ?P * getMaskSizeInBytes ?P" unfolding len [symmetric] using lens by blast
    show "bxors (replicate (pp_numOfBins ?P * getMaskSizeInBytes ?P) 0) (map sh [1..<N + 1]) =
        replicate (pp_numOfBins ?P * getMaskSizeInBytes ?P) 0" unfolding len [symmetric] by (rule cancel)
  qed (use inbox in \<open>simp only: Let_def\<close>)
  ultimately show ?thesis by simp
qed

section \<open>When no insertion fails\<close>

lemma copy_bins_failed: "rfold (copy_bin hs ct es) bs (k, out) = Ok (k', out') \<Longrightarrow> co_failed out' = co_failed out"
proof (induction bs arbitrary: k out)
  case (Cons b bs)
  then obtain k1 out1 where s: "copy_bin hs ct es b (k, out) = Ok (k1, out1)" "rfold (copy_bin hs ct es) bs (k1, out1) = Ok (k', out')"
    by (cases "copy_bin hs ct es b (k, out)") auto
  have "co_failed out1 = co_failed out"
    using s(1) by (auto simp: copy_bin_def rbind_Ok_iff split: option.splits)
  then show ?case using Cons.IH [OF s(2)] by simp
qed simp

text \<open>An element whose first bin is free is inserted there.\<close>

lemma insert_first_free:
  assumes "element < length es" and "ce_address (es ! element) ! 0 < length ct" and "ct ! (ce_address (es ! element) ! 0) = None"
    and "length (ce_address (es ! element)) = NUM_HASH_FUNCTIONS" and "0 < m"
  shows "cuckoo_insert_element ct es element m = Ok ((ct[ce_address (es ! element) ! 0 := Some element],
    es[element := (es ! element)\<lparr>ce_pos := 0\<rparr>]), True)"
proof -
  obtain m' where "m = Suc m'" using assms(5) gr0_conv_Suc by blast
  moreover have "[0..<NUM_HASH_FUNCTIONS] = 0 # [1..<NUM_HASH_FUNCTIONS]" by (simp add: NUM_HASH_FUNCTIONS_def upt_conv_Cons)
  moreover have "0 < length (ce_address (es ! element))" using assms(4) by (simp add: NUM_HASH_FUNCTIONS_def)
  ultimately show ?thesis using assms by (simp add: cuckoo_insert_element_def)
qed

lemma single_element_placed:
  assumes hs: "hs_wf hs" "hs_fits hs" "inbytelen hs = ceil_divide (inbitlen hs) 8"
    and l: "length el = inbytelen hs" and T: "0 < ntasks"
    and a: "length nelesinbin = hs_nbins hs" "length bin_ids = hs_nbins hs" "length hashed_by = hs_nbins hs"
  shows "\<exists>out. cuckoo_hashing el 1 (hs_nbins hs) hs nelesinbin [0] ntasks bin_ids hashed_by = Ok out \<and> co_failed out = []"
proof -
  let ?nb = "hs_nbins hs"
  have l1: "length el = 1 * inbytelen hs" using l by simp
  obtain out where out: "cuckoo_hashing el 1 ?nb hs nelesinbin [0] ntasks bin_ids hashed_by = Ok out"
    using cuckoo_run [where perm = "[0]", OF hs l1 T a(1) _ a(2,3)] by auto
  define E where "E = (\<lambda>k. \<lparr>ce_eleid = k, ce_address = addrs hs (element_at hs el k), ce_val = val_of hs (element_at hs el k), ce_pos = 0\<rparr>)"
  note gen = gen_all_entries_ok [OF hs l1 T E_def]
  have "cuckoo_insert_element (replicate ?nb None) (map E [0..<1]) 0 1 =
      Ok (((replicate ?nb None)[addrs hs (element_at hs el 0) ! 0 := Some 0], [(E 0)\<lparr>ce_pos := 0\<rparr>]), True)"
    using insert_first_free [of 0 "map E [0..<1]" "replicate ?nb None" 1] addr_of_less [OF hs(1)]
    by (simp add: E_def addrs_def NUM_HASH_FUNCTIONS_def)
  then have "rfold (\<lambda>i (ct, es, failed). rbind (cuckoo_insert_element ct es i 1) (\<lambda>((ct, es), ok). Ok (ct, es, if ok then failed else failed @ [i])))
      [0..<1] (replicate ?nb None, map E [0..<1], []) = Ok ((replicate ?nb None)[addrs hs (element_at hs el 0) ! 0 := Some 0], [(E 0)\<lparr>ce_pos := 0\<rparr>], [])"
    by simp
  then have "co_failed out = []"
    using out copy_bins_failed unfolding cuckoo_hashing_def gen rbind.simps by (fastforce simp: rbind_Ok_iff)
  then show ?thesis using out by blast
qed

section \<open>Properties\<close>

text \<open>C11: the secret shares the parties derive from their keys and those they receive cancel:
  XORed together, in every bin, they are zero.\<close>

theorem secret_shares_cancel:
  assumes "1 \<le> N" and "\<forall>q\<in>{1..N}. partyId (Ps q) = q \<and> numOfParties (Ps q) = N \<and> shareSize (Ps q) = len"
    and "\<And>k n. length (prg k n) = n"
  shows "\<exists>shs. rmap (\<lambda>q. additiveSecretShare prg (Ps q) (rnd q) (\<lambda>i. map_of (share_keys (Ps i) (rnd i)) q)) [1..<N + 1] = Ok shs \<and>
    length shs = N \<and> bxors (replicate len 0) shs = replicate len 0"
proof -
  have "rmap (\<lambda>q. additiveSecretShare prg (Ps q) (rnd q) (\<lambda>i. map_of (share_keys (Ps i) (rnd i)) q)) [1..<N + 1] =
      Ok (map (share_of len (expanded prg rnd len) N) [1..<N + 1])"
  proof (rule rmap_Ok)
    fix q assume "q \<in> set [1..<N + 1]"
    then have q: "1 \<le> q" "q \<le> N" by (auto simp del: upt_Suc)
    then have len: "shareSize (Ps q) = len" using assms(2) by simp
    show "additiveSecretShare prg (Ps q) (rnd q) (\<lambda>i. map_of (share_keys (Ps i) (rnd i)) q) =
        Ok (share_of len (expanded prg rnd len) N q)"
      unfolding len [symmetric] by (rule party_share) (use assms q in auto)
  qed
  moreover have "bxors (replicate len 0) (map (share_of len (expanded prg rnd len) N) [1..<N + 1]) = replicate len 0"
    by (rule shares_cancel) (simp add: expanded_def assms(3))
  ultimately show ?thesis by (simp del: upt_Suc)
qed

text \<open>C38: when an insertion failed, \<open>perm\<close> ends in zeros, and the loop of \<open>runAsLeader\<close> over all of
  \<open>perm\<close> gives element 0 the last row, which belongs to no bin: the leader then compares element 0 with a mask the OPRG
  never computed for it.\<close>

theorem failed_insertion_spoils_first:
  assumes "hs_wf hs" and "hs_fits hs" and "inbytelen hs = ceil_divide (inbitlen hs) 8"
    and "length el = n * inbytelen hs" and "0 < ntasks" and "length nelesinbin = hs_nbins hs"
    and "cuckoo_hashing el n (hs_nbins hs) hs nelesinbin (replicate n 0) ntasks (replicate (hs_nbins hs) 0)
      (replicate (hs_nbins hs) 0) = Ok out" and "co_failed out \<noteq> []"
  shows "\<exists>info. build_hashInfo n (hs_nbins hs) (co_bin_ids out) (co_hashed_by out) (co_perm out) = Ok info \<and>
    tableIndex (info ! 0) = int (n - 1) \<and> bin_rank (co_nelesinbin out) (hs_nbins hs) < n"
proof -
  let ?nb = "hs_nbins hs" and ?elt = "element_at hs el"
  obtain ct out' where c: "cuckoo_hashing el n ?nb hs nelesinbin (replicate n 0) ntasks (replicate ?nb 0) (replicate ?nb 0) = Ok out'"
    "table_inv ?nb n (\<lambda>k. addrs hs (?elt k)) ct" "card (stored_in ct) + length (co_failed out') = n"
    "\<forall>b<?nb. bin_copied hs ?elt ct (replicate ?nb 0) out' b" "co_perm out' = ids ct @ drop (length (ids ct)) (replicate n 0)"
    "length (co_nelesinbin out') = ?nb" "length (co_bin_ids out') = ?nb" "length (co_hashed_by out') = ?nb"
    using cuckoo_run [where nelesinbin = nelesinbin and perm = "replicate n 0" and bin_ids = "replicate (hs_nbins hs) 0" and
      hashed_by = "replicate (hs_nbins hs) 0", OF assms(1-6)] by auto
  have o: "out' = out" using c(1) assms(7) by simp
  have lct: "length ct = ?nb" using c(2) by (simp add: table_inv_def)
  have "distinct (ids ct)" using distinct_ids [OF c(2) order_refl] lct by simp
  then have lids: "length (ids ct) < n" using c(3) assms(8) o by (metis distinct_card set_ids length_greater_0_conv less_add_same_cancel1)
  then have n: "n = Suc (n - 1)" and "\<not> n - 1 < length (ids ct)" "n - 1 - length (ids ct) < n - length (ids ct)" by linarith+
  then have last: "co_perm out ! (n - 1) = 0" and lp: "length (co_perm out) = n"
    using c(5) o lids by (simp_all only: nth_append if_False nth_replicate drop_replicate length_append length_replicate le_add_diff_inverse less_imp_le)
  have bin: "co_nelesinbin out ! b = (if ct ! b = None then 0 else 1)" "co_bin_ids out ! b \<le> n" if "b < ?nb" for b
    using c(2,4) o that by (auto simp: bin_copied_def table_inv_def Suc_leI split: option.splits)
  have "set (ids ct) \<subseteq> {..<n}" using stored_less [OF c(2)] by (auto simp: set_ids)
  then have "co_perm out ! i < n" if "i < n" for i
    using that c(5) o lids by (auto simp: nth_append subset_iff)
  note build = build_hashInfo_ok [OF c(7,8) [unfolded o] lp bin(2) this]
  have "table_row (co_perm out) n 0 = int (n - 1)" using table_row_Suc [of "co_perm out" "n - 1" 0] last n by metis
  moreover have "bin_rank (co_nelesinbin out) ?nb = length (ids ct)" using bin_rank_ids [OF bin(1) lct order_refl] lct by simp
  ultimately show ?thesis using build lids by simp
qed

section \<open>Concrete sessions\<close>

definition tiny_party :: "nat \<Rightarrow> PsiParty" where
  "tiny_party q = \<lparr>partyId = q, numOfParties = 3, pp_setSize = 1, pp_elements = replicate 8 7, elementSizeInBits = 64,
     statSecParameter = 40, pp_numCores = 2, crypt = flat_crypto, prfState = flat_prf, strategy = SIMPLE_HASH, pp_numOfBins = 0,
     pp_maxBinSize = 0, maskbitlen = 0, eleptr = [], internal_bitlen = 0\<rparr>"

text \<open>A generator with results of the right size.\<close>

definition flat_prg :: "bytes \<Rightarrow> nat \<Rightarrow> bytes" where "flat_prg k n = take n (k @ replicate n 1)"

lemma tiny_logs: "targetlevel 2 = 1" "targetlevel 3 = 1" "ceil_log2 3 = 2" "ceil_log2 2 = 1" "floor_log2 2 = 1" "ceil_log2 1 = 1"
  by (simp_all add: ceil_log2_def floor_log2_def targetlevel.simps)

lemma tiny_sized: "pp_numOfBins (sized (tiny_party q)) = 2" "pp_maxBinSize (sized (tiny_party q)) = 3"
  "maskbitlen (sized (tiny_party q)) = 48" "getMaskSizeInBytes (sized (tiny_party q)) = 6"
  by (simp_all add: sized_def initializeMaskSize_def setBinsParameters_def tiny_party_def Let_def tiny_logs [unfolded One_nat_def]
      ceil_divide_def pad_to_multiple_def getMaskSizeInBytes_def)

lemma tiny_fields: "pp_setSize (tiny_party q) = 1" "elementSizeInBits (tiny_party q) = 64" "pp_numCores (tiny_party q) = 2"
  "strategy (tiny_party q) = SIMPLE_HASH" "prfState (tiny_party q) = flat_prf" "internal_bitlen (prepared (tiny_party q)) = 48"
  "input_element (tiny_party q) 0 = replicate 8 7"
proof -
  show f: "pp_setSize (tiny_party q) = 1" "elementSizeInBits (tiny_party q) = 64" "pp_numCores (tiny_party q) = 2"
    "strategy (tiny_party q) = SIMPLE_HASH" "prfState (tiny_party q) = flat_prf"
    by (simp_all add: tiny_party_def)
  show "internal_bitlen (prepared (tiny_party q)) = 48" by (simp add: prepared_def Let_def tiny_sized f)
  show "input_element (tiny_party q) 0 = replicate 8 7" by (simp add: input_element_def tiny_party_def chunk_def ceil_divide_def)
qed

lemma tiny_config: "session_config tiny_party 3"
  by (simp add: session_config_def tiny_sized tiny_fields)
    (auto simp: tiny_party_def same_config_def party_ok_def ceil_divide_def digest_lengths_def flat_crypto_def crypto_init_def
      SHA_OUT_BYTES_def prf_ok_def flat_prf_def)

theorem secret_shares_cancel_witness:
  "\<exists>shs. rmap (\<lambda>q. additiveSecretShare flat_prg (prepared (tiny_party q)) (\<lambda>i. [of_nat q, of_nat i])
      (\<lambda>i. map_of (share_keys (prepared (tiny_party i)) (\<lambda>j. [of_nat i, of_nat j])) q)) [1..<3 + 1] = Ok shs \<and>
    length shs = 3 \<and> bxors (replicate 12 0) shs = replicate 12 0"
  by (rule secret_shares_cancel [of 3 "\<lambda>q. prepared (tiny_party q)" 12 flat_prg "\<lambda>q i. [of_nat q, of_nat i]"])
    (simp_all add: shareSize_def tiny_sized flat_prg_def, simp add: tiny_party_def)

text \<open>Two elements and a single bin.\<close>

theorem failed_insertion_spoils_first_witness:
  "\<exists>out info. cuckoo_hashing (replicate 16 5) 2 1 (flat_hs 64 1 1 0) [0] [0, 0] 1 [0] [0] = Ok out \<and>
    build_hashInfo 2 1 (co_bin_ids out) (co_hashed_by out) (co_perm out) = Ok info \<and> tableIndex (info ! 0) = 1"
proof -
  let ?hs = "flat_hs 64 1 1 0"
  have hs: "hs_wf ?hs" "hs_fits ?hs" "inbytelen ?hs = ceil_divide (inbitlen ?hs) 8" "hs_nbins ?hs = 1" "inbytelen ?hs = 8"
    using flat_hs_wf [of 1 1 0 64] by (simp_all add: flat_hs_def hs_fits_def ceil_divide_def)
  have l: "length (replicate 16 (5::u8)) = 2 * inbytelen ?hs" "length [0::nat] = hs_nbins ?hs" using hs by simp_all
  obtain ct out where c: "cuckoo_hashing (replicate 16 5) 2 1 ?hs [0] [0, 0] 1 [0] [0] = Ok out"
    "table_inv 1 2 (\<lambda>k. addrs ?hs (element_at ?hs (replicate 16 5) k)) ct" "card (stored_in ct) + length (co_failed out) = 2"
    using cuckoo_run [where perm = "[0, 0]" and bin_ids = "[0]" and hashed_by = "[0]" and ntasks = 1, OF hs(1-3) l(1) _ l(2) _ l(2) l(2)]
    unfolding hs(4) by auto
  have "length ct = 1" using c(2) by (simp add: table_inv_def)
  then have "stored_in ct \<subseteq> set (map the ct)" "card (set (map the ct)) \<le> 1"
    using card_length [of "map the ct"] by (force simp: stored_in_def)+
  then have "card (stored_in ct) \<le> 1" by (meson List.finite_set card_mono le_trans)
  then have "co_failed out \<noteq> []" using c(3) by auto
  moreover have "replicate 2 (0::nat) = [0, 0]" "replicate (hs_nbins ?hs) (0::nat) = [0]" using hs(4) by (simp_all add: numeral_2_eq_2)
  ultimately show ?thesis
    using failed_insertion_spoils_first [of ?hs "replicate 16 5" 2 1 "[0]" out, OF hs(1-3) l(1) _ l(2)] c(1) unfolding hs(4) by auto
qed

end
