(* ===== verification/BitVector.thy ===== *)
theory BitVector
  imports Follower
begin

text \<open>
  The bit vectors of the OT extension: \<open>src/PSI/src/util/cbitvector.cpp\<close> and \<open>cbitvector.h\<close>. A
  \<open>CBitVector\<close> is the list of its bytes (\<open>m_pBits\<close>, with \<open>m_nByteSize\<close> its length). The methods that
  go through a buffer by machine words and then by bytes are \<open>by_words\<close>; their closed forms, the aligned cases of the bit
  accesses and the bit order follow.
\<close>

section \<open>Operations by machine words\<close>

text \<open>The template loops \<open>XORBytes\<close>, \<open>ANDBytes\<close>, \<open>SetBytes\<close> and \<open>GetBytes\<close>: \<open>len div 8\<close>
  words of eight bytes, then the remaining bytes. \<open>f\<close> is what happens to a byte of the destination at \<open>pos\<close>
  and one of the source at \<open>off\<close>.\<close>

definition by_words :: "(u8 \<Rightarrow> u8 \<Rightarrow> u8) \<Rightarrow> bytes \<Rightarrow> nat \<Rightarrow> bytes \<Rightarrow> nat \<Rightarrow> nat \<Rightarrow> bytes res" where
  "by_words f v pos p off len =
     (let step = (\<lambda>size i v. rbind (rd_blk v (pos + i) size) (\<lambda>a. rbind (rd_blk p (off + i) size) (\<lambda>b.
            wr_blk v (pos + i) (map2 f a b))))
      in rbind (rfold (\<lambda>w v. step 8 (8 * w) v) [0..<len div 8] v) (\<lambda>v.
         rfold (\<lambda>i v. step 1 i v) [len div 8 * 8..<len] v))"

definition XORBytes :: "bytes \<Rightarrow> nat \<Rightarrow> bytes \<Rightarrow> nat \<Rightarrow> nat \<Rightarrow> bytes res" where
  "XORBytes v pos p off len = (if pos + len > length v then Err AssertFail else by_words (XOR) v pos p off len)"

definition ANDBytes :: "bytes \<Rightarrow> nat \<Rightarrow> bytes \<Rightarrow> nat \<Rightarrow> nat \<Rightarrow> bytes res" where
  "ANDBytes v pos p off len = by_words (AND) v pos p off len"

definition SetBytes :: "bytes \<Rightarrow> nat \<Rightarrow> bytes \<Rightarrow> nat \<Rightarrow> nat \<Rightarrow> bytes res" where
  "SetBytes v pos p off len = by_words (\<lambda>a b. b) v pos p off len"

definition GetBytes :: "bytes \<Rightarrow> bytes \<Rightarrow> nat \<Rightarrow> nat \<Rightarrow> bytes res" where
  "GetBytes v p pos len = by_words (\<lambda>a b. b) p 0 v pos len"

text \<open>\<open>Copy(p, pos, len)\<close> grows the vector when it is too short.\<close>

definition Copy :: "bytes \<Rightarrow> nat \<Rightarrow> bytes \<Rightarrow> nat \<Rightarrow> nat \<Rightarrow> bytes res" where
  "Copy v pos p off len =
     (let v = (if pos + len > length v then v @ replicate (pos + len - length v) 0 else v)
      in rbind (rd_blk p off len) (\<lambda>b. wr_blk v pos b))"

definition Reset :: "bytes \<Rightarrow> bytes" where "Reset v = replicate (length v) 0"

section \<open>Bits\<close>

definition MASK_BIT :: "u8 list" where "MASK_BIT = [0x80, 0x40, 0x20, 0x10, 0x8, 0x4, 0x2, 0x1]"

definition GetBit :: "bytes \<Rightarrow> nat \<Rightarrow> bool res" where
  "GetBit v idx = rbind (rd v (idx div 8)) (\<lambda>b. rbind (rd MASK_BIT (idx mod 8)) (\<lambda>m. Ok (b AND m \<noteq> 0)))"

definition BIT :: "u8 list" where "BIT = [0x1, 0x2, 0x4, 0x8, 0x10, 0x20, 0x40, 0x80]"

definition GetBitNoMask :: "bytes \<Rightarrow> nat \<Rightarrow> u8 res" where
  "GetBitNoMask v idx = rbind (rd v (idx div 8)) (\<lambda>b. rbind (rd BIT (idx mod 8)) (\<lambda>m.
     Ok (if b AND m \<noteq> 0 then 1 else 0)))"

definition XORBitNoMask :: "bytes \<Rightarrow> nat \<Rightarrow> u8 \<Rightarrow> bytes res" where
  "XORBitNoMask v idx b = rbind (rd v (idx div 8)) (\<lambda>x. rbind (rd BIT (idx mod 8)) (\<lambda>m.
     wr v (idx div 8) (x XOR (if b AND 1 \<noteq> 0 then m else 0))))"

definition RESET_BIT_POSITIONS :: "u8 list" where
  "RESET_BIT_POSITIONS = [0x00, 0x01, 0x03, 0x07, 0x0F, 0x1F, 0x3F, 0x7F, 0xFF]"

definition GET_BIT_POSITIONS :: "u8 list" where
  "GET_BIT_POSITIONS = [0xFF, 0xFE, 0xFC, 0xF8, 0xF0, 0xE0, 0xC0, 0x80, 0x00]"

definition GET_BIT_POSITIONS_INV :: "u8 list" where
  "GET_BIT_POSITIONS_INV = [0xFF, 0x7F, 0x3F, 0x1F, 0x0F, 0x07, 0x03, 0x01, 0x00]"

text \<open>\<open>GetBits(p, pos, len)\<close> fills \<open>p\<close>; a range outside the vector leaves it as it is.\<close>

definition GetBits :: "bytes \<Rightarrow> bytes \<Rightarrow> nat \<Rightarrow> nat \<Rightarrow> bytes res" where
  "GetBits v p pos len =
     (if len < 1 \<or> pos + len > 8 * length v then Ok p
      else if len = 1 then rbind (GetBitNoMask v pos) (\<lambda>b. wr p 0 b)
      else if pos mod 8 = 0 \<and> len mod 8 = 0 then GetBytes v p (pos div 8) (len div 8)
      else
        (let lower = pos mod 8; upper = 8 - lower; rem = len mod 8; q = len div 8 in
         rbind (rfold (\<lambda>i p.
           rbind (rd v (pos div 8 + i)) (\<lambda>a. rbind (rd v (pos div 8 + i + 1)) (\<lambda>b.
           rbind (rd GET_BIT_POSITIONS lower) (\<lambda>g. rbind (rd GET_BIT_POSITIONS_INV upper) (\<lambda>h.
           wr p i (drop_bit lower (a AND g) OR push_bit upper (b AND h))))))) [0..<q] p) (\<lambda>p.
         if rem = 0 then Ok p
         else if rem \<le> upper then rbind (rd v (pos div 8 + q)) (\<lambda>a. wr p q (drop_bit lower (a AND push_bit lower (mask rem))))
         else
           rbind (rd v (pos div 8 + q)) (\<lambda>a. rbind (rd v (pos div 8 + q + 1)) (\<lambda>b. rbind (rd GET_BIT_POSITIONS lower) (\<lambda>g.
           wr p q (drop_bit lower (a AND g) OR push_bit upper (b AND mask (rem - upper)))))))))"

text \<open>\<open>Get<uint32_t>(pos, len)\<close>.\<close>

definition Get32 :: "bytes \<Rightarrow> nat \<Rightarrow> nat \<Rightarrow> nat res" where
  "Get32 v pos len = rbind (GetBits v (replicate 4 0) pos len) (\<lambda>p. Ok (unat (le_word p :: u32)))"

definition XORBits :: "bytes \<Rightarrow> bytes \<Rightarrow> nat \<Rightarrow> nat \<Rightarrow> nat \<Rightarrow> bytes res" where
  "XORBits v p off pos len =
     (if len < 1 \<or> pos + len > 8 * length v then Ok v
      else if len = 1 then rbind (rd p off) (\<lambda>b. XORBitNoMask v pos b)
      else if pos mod 8 = 0 \<and> len mod 8 = 0 then XORBytes v (pos div 8) p off (len div 8)
      else
        (let lower = pos mod 8; upper = 8 - lower; rem = len mod 8; q = len div 8;
             xor = (\<lambda>k b v. rbind (rd v k) (\<lambda>a. wr v k (a XOR b))) in
         rbind (rfold (\<lambda>i v.
           rbind (rd p (off + i)) (\<lambda>t. rbind (xor (pos div 8 + i) (push_bit lower t) v) (\<lambda>v.
           xor (pos div 8 + i + 1) (drop_bit upper t) v))) [0..<q] v) (\<lambda>v.
         if rem = 0 then Ok v
         else
           rbind (rd p (off + q)) (\<lambda>t. rbind (rd RESET_BIT_POSITIONS rem) (\<lambda>r. let t = t AND r in
           rbind (xor (pos div 8 + q) (push_bit lower t) v) (\<lambda>v.
           if rem \<le> upper then Ok v else xor (pos div 8 + q + 1) (drop_bit upper t) v))))))"

section \<open>Closed forms\<close>

lemma map2_append_blocks:
  "map2 f (take (m + s) (drop i v)) (take (m + s) (drop j p)) =
     map2 f (take m (drop i v)) (take m (drop j p)) @ map2 f (take s (drop (i + m) v)) (take s (drop (j + m) p))"
  if "i + m + s \<le> length v" "j + m + s \<le> length p"
  using that by (simp add: take_add zip_append add.commute)

lemma blit_append:
  "i + length x + length y \<le> length v \<Longrightarrow> blit (blit v i x) (i + length x) y = blit v i (x @ y)"
  by (rule nth_equalityI) (auto simp: nth_blit nth_append)

lemma by_words_step:
  assumes "pos + m + s \<le> length v" and "off + m + s \<le> length p"
    and v': "v' = blit v pos (map2 f (take m (drop pos v)) (take m (drop off p)))"
  shows "rbind (rd_blk v' (pos + m) s) (\<lambda>a. rbind (rd_blk p (off + m) s) (\<lambda>b. wr_blk v' (pos + m) (map2 f a b))) =
    Ok (blit v pos (map2 f (take (m + s) (drop pos v)) (take (m + s) (drop off p))))"
proof -
  let ?x = "map2 f (take m (drop pos v)) (take m (drop off p))"
  have lx: "length ?x = m" and lv: "length v' = length v" using assms by simp_all
  have a: "take s (drop (pos + m) v') = take s (drop (pos + m) v)"
    using assms lx by (simp add: blit_def)
  have "blit v' (pos + m) y = blit v pos (?x @ y)" if "length y = s" for y
    using blit_append [of pos ?x y v] assms that unfolding lx v' by simp
  then show ?thesis using assms lv a by (simp add: map2_append_blocks)
qed

lemma by_words_ok:
  assumes "pos + len \<le> length v" and "off + len \<le> length p"
  shows "by_words f v pos p off len = Ok (blit v pos (map2 f (take len (drop pos v)) (take len (drop off p))))"
proof -
  let ?B = "\<lambda>m. blit v pos (map2 f (take m (drop pos v)) (take m (drop off p)))"
  let ?step = "\<lambda>size i v'. rbind (rd_blk v' (pos + i) size) (\<lambda>a. rbind (rd_blk p (off + i) size) (\<lambda>b. wr_blk v' (pos + i) (map2 f a b)))"
  have "\<exists>s. rfold (\<lambda>w v'. ?step 8 (8 * w) v') [0..<len div 8] v = Ok s \<and> s = ?B (8 * (len div 8))"
  proof (rule rfold_upt_inv [where P = "\<lambda>w v'. v' = ?B (8 * w)"])
    fix w s assume w: "w < len div 8" and s: "s = ?B (8 * w)"
    then have "8 * w + 8 \<le> len" by linarith
    then show "\<exists>s'. ?step 8 (8 * w) s = Ok s' \<and> s' = ?B (8 * Suc w)"
      using by_words_step [of pos "8 * w" 8 v off p s f] assms s by (simp add: add.commute)
  qed (simp_all add: blit_def)
  then have 1: "rfold (\<lambda>w v'. ?step 8 (8 * w) v') [0..<len div 8] v = Ok (?B (len div 8 * 8))" by (simp add: mult.commute)
  have "\<exists>s. rfold (\<lambda>i v'. ?step 1 i v') [len div 8 * 8..<len] (?B (len div 8 * 8)) = Ok s \<and> s = ?B len"
  proof (rule rfold_upt_inv [where P = "\<lambda>i v'. v' = ?B i"])
    fix i s assume "i < len" and s: "s = ?B i"
    then show "\<exists>s'. ?step 1 i s = Ok s' \<and> s' = ?B (Suc i)"
      using by_words_step [of pos i 1 v off p s f] assms by simp
  qed simp_all
  then show ?thesis unfolding by_words_def Let_def 1 rbind.simps by blast
qed

lemma XORBytes_ok:
  "pos + len \<le> length v \<Longrightarrow> off + len \<le> length p \<Longrightarrow>
   XORBytes v pos p off len = Ok (blit v pos (bxor (take len (drop pos v)) (take len (drop off p))))"
  by (simp add: XORBytes_def by_words_ok bxor_def)

text \<open>The bytewise conjunction.\<close>

definition band :: "bytes \<Rightarrow> bytes \<Rightarrow> bytes" where "band x y = map2 (AND) x y"

lemma length_band [simp]: "length (band x y) = min (length x) (length y)"
  by (simp add: band_def)

lemma nth_band [simp]: "i < length x \<Longrightarrow> i < length y \<Longrightarrow> band x y ! i = x ! i AND y ! i"
  by (simp add: band_def)

lemma ANDBytes_ok:
  "pos + len \<le> length v \<Longrightarrow> off + len \<le> length p \<Longrightarrow>
   ANDBytes v pos p off len = Ok (blit v pos (band (take len (drop pos v)) (take len (drop off p))))"
  by (simp add: ANDBytes_def by_words_ok band_def)

lemma map2_snd: "length x = length y \<Longrightarrow> map2 (\<lambda>a b. b) x y = y"
  by (induction x y rule: list_induct2) auto

lemma SetBytes_ok:
  "pos + len \<le> length v \<Longrightarrow> off + len \<le> length p \<Longrightarrow> SetBytes v pos p off len = Ok (blit v pos (take len (drop off p)))"
  by (simp add: SetBytes_def by_words_ok map2_snd)

lemma Copy_ok:
  "pos + len \<le> length v \<Longrightarrow> off + len \<le> length p \<Longrightarrow> Copy v pos p off len = Ok (blit v pos (take len (drop off p)))"
  by (simp add: Copy_def)

text \<open>Accesses on byte borders.\<close>

lemma Get32_byte:
  assumes "i < length v"
  shows "Get32 v (8 * i) 8 = Ok (unat (v ! i))"
proof -
  have "GetBytes v (replicate 4 0) i 1 = Ok (v ! i # replicate 3 0)"
    using by_words_ok [of 0 1 "replicate 4 0" i v "\<lambda>a b. b"] assms
    by (simp add: GetBytes_def blit_def take_Suc_conv_app_nth numeral_eq_Suc take_Suc drop_Suc)
  moreover have "le_word (v ! i # replicate 3 0) = (ucast (v ! i) :: u32)" by (simp add: numeral_3_eq_3)
  moreover have "unat (ucast (v ! i) :: u32) = unat (v ! i)"
    using unsigned_less [of "v ! i", where ?'a = nat] by (simp add: unsigned_ucast_eq take_bit_nat_eq_self)
  ultimately show ?thesis using assms by (simp add: Get32_def GetBits_def)
qed

lemma XORBits_bytes:
  assumes "pos + n \<le> length v" and "off + n \<le> length p" and "0 < n"
  shows "XORBits v p off (8 * pos) (8 * n) = Ok (blit v pos (bxor (take n (drop pos v)) (take n (drop off p))))"
  using assms by (simp add: XORBits_def XORBytes_ok)

end
