(* ===== verification/Transpose.thy ===== *)
theory Transpose
  imports BitVector
begin

text \<open>
  \<open>CBitVector::EklundhBitTranspose\<close> (\<open>src/PSI/src/util/cbitvector.cpp\<close>): the rounds that exchange
  bits of two words, the rounds that exchange words, and the copy that puts the rows of the square blocks one after another.
  \<open>mix i r c\<close> is the cell that the first \<open>i\<close> rounds bring to row \<open>r\<close> and column \<open>c\<close>; the
  result is the transposed matrix whenever the number of columns is a multiple of the number of rows.
\<close>

section \<open>The transposition\<close>

text \<open>The buffer seen as machine words.\<close>

definition words64 :: "bytes \<Rightarrow> u64 list" where
  "words64 buf = map (\<lambda>i. le_word (chunk 8 buf i)) [0..<length buf div 8]"

definition bytes64 :: "u64 list \<Rightarrow> bytes" where "bytes64 ws = concat (map (le_bytes 8) ws)"

definition TRANSPOSITION_MASKS :: "u64 list" where
  "TRANSPOSITION_MASKS = [0x5555555555555555, 0x3333333333333333, 0x0F0F0F0F0F0F0F0F, 0x00FF00FF00FF00FF,
     0x0000FFFF0000FFFF, 0x00000000FFFFFFFF]"

definition LOG2_REGISTER_SIZE :: nat where "LOG2_REGISTER_SIZE = 6"

text \<open>Two words exchange half of their bits; the shifts of the first three rounds go the other way, because the bits of
  a byte count from the highest.\<close>

definition swap_bits :: "nat \<Rightarrow> u64 \<Rightarrow> u64 \<Rightarrow> u64 \<times> u64" where
  "swap_bits i a b =
     (let srcidx = 2 ^ i; mask = TRANSPOSITION_MASKS ! i; invmask = NOT mask in
      if i > 2 then ((a AND mask) XOR push_bit srcidx (b AND mask), (b AND invmask) XOR drop_bit srcidx (a AND invmask))
      else ((a AND invmask) XOR drop_bit srcidx (b AND invmask), (b AND mask) XOR push_bit srcidx (a AND mask)))"

definition bit_round :: "nat \<Rightarrow> nat \<Rightarrow> nat \<Rightarrow> u64 list \<Rightarrow> u64 list res" where
  "bit_round rows offset i m =
     (let srcidx = 2 ^ i; destidx = offset * srcidx in
      rfold (\<lambda>j m. rfold (\<lambda>t m.
          let rowa = j * (2 * destidx) + t; rowb = rowa + destidx in
          rbind (rd m rowa) (\<lambda>a. rbind (rd m rowb) (\<lambda>b.
          rbind (wr m rowa (fst (swap_bits i a b))) (\<lambda>m. wr m rowb (snd (swap_bits i a b))))))
        [0..<destidx] m) [0..<rows div (srcidx * 2)] m)"

definition word_round :: "nat \<Rightarrow> nat \<Rightarrow> nat \<Rightarrow> u64 list \<Rightarrow> u64 list res" where
  "word_round rows offset i m =
     (let srcidx = 2 ^ i; destidx = offset * srcidx; swapoffset = 2 ^ (i - LOG2_REGISTER_SIZE); dswapoffset = 2 * swapoffset in
      rfold (\<lambda>j m. rfold (\<lambda>t m.
          if t mod dswapoffset \<ge> swapoffset then
            let rowa = j * (2 * destidx) + t; rowb = rowa + destidx - swapoffset in
            rbind (rd m rowa) (\<lambda>a. rbind (rd m rowb) (\<lambda>b. rbind (wr m rowa b) (\<lambda>m. wr m rowb a)))
          else Ok m)
        [0..<destidx] m) [0..<rows div (srcidx * 2)] m)"

text \<open>The rows of each square block one after another.\<close>

definition block_rows :: "nat \<Rightarrow> nat \<Rightarrow> u64 list \<Rightarrow> u64 list res" where
  "block_rows rows columns m =
     rbind (rd_blk m 0 (rows div 8 * columns div 8)) (\<lambda>tempvec.
     let offset = columns div 8 div 8; rowregsize = rows div 64 in
     rfold (\<lambda>i m. rfold (\<lambda>j m.
         rbind (rd_blk tempvec (i * rowregsize + j * offset) (rows div 8 div 8)) (\<lambda>row.
         wr_blk m ((i * rows + j) * rowregsize) row))
       [0..<rows] m) [0..<columns div rows] m)"

definition EklundhBitTranspose :: "nat \<Rightarrow> nat \<Rightarrow> bytes \<Rightarrow> bytes res" where
  "EklundhBitTranspose rows columns v =
     (let offset = columns div 8 div 8; numiters = ceil_log2 rows in
      rbind (rfold (bit_round rows offset) [0..<LOG2_REGISTER_SIZE] (words64 v)) (\<lambda>m.
      rbind (rfold (word_round rows offset) [LOG2_REGISTER_SIZE..<numiters] m) (\<lambda>m.
      rbind (if columns > rows then block_rows rows columns m else Ok m) (\<lambda>m. Ok (bytes64 m)))))"

section \<open>What a round does to the matrix\<close>

text \<open>Row \<open>r\<close> and column \<open>c\<close> of the matrix with \<open>offset\<close> words in a row.\<close>

definition cell :: "u64 list \<Rightarrow> nat \<Rightarrow> nat \<Rightarrow> nat \<Rightarrow> bool" where
  "cell m offset r c = bit (m ! (r * offset + c div 64)) (take_bit 6 c XOR 7)"

text \<open>A loop that exchanges the words of disjoint pairs.\<close>

lemma rfold_nested:
  "0 < d \<Longrightarrow> rfold (\<lambda>j m. rfold (\<lambda>t m. F j t m) [0..<d] m) [0..<R] m = rfold (\<lambda>k m. F (k div d) (k mod d) m) [0..<R * d] m"
proof (induction R)
  case (Suc R)
  have inner: "rfold (\<lambda>t m. F R t m) [0..<e] m = rfold (\<lambda>k m. F (k div d) (k mod d) m) [R * d..<R * d + e] m" if "e \<le> d" for e m
    using that
  proof (induction e)
    case (Suc e)
    then show ?case by (simp add: rfold_append)
  qed simp
  have "[0..<Suc R * d] = [0..<R * d] @ [R * d..<R * d + d]" by (metis add.commute mult_Suc upt_add_eq_append zero_le)
  then show ?case using Suc inner [of d] by (simp add: rfold_append)
qed simp

lemma pair_loop:
  fixes A B :: "nat \<Rightarrow> nat"
  assumes fits: "\<And>k. k < K \<Longrightarrow> P k \<Longrightarrow> A k < length m \<and> B k < length m"
    and inj: "\<And>k l. k < K \<Longrightarrow> l < K \<Longrightarrow> P k \<Longrightarrow> P l \<Longrightarrow> (A k = A l \<longrightarrow> k = l) \<and> (B k = B l \<longrightarrow> k = l) \<and> A k \<noteq> B l"
  shows "\<exists>m'. rfold (\<lambda>k m. if P k then rbind (rd m (A k)) (\<lambda>a. rbind (rd m (B k)) (\<lambda>b.
      rbind (wr m (A k) (f a b)) (\<lambda>m. wr m (B k) (g a b)))) else Ok m) [0..<K] m = Ok m' \<and> length m' = length m \<and>
    (\<forall>k<K. P k \<longrightarrow> m' ! A k = f (m ! A k) (m ! B k) \<and> m' ! B k = g (m ! A k) (m ! B k)) \<and>
    (\<forall>x. (\<forall>k<K. P k \<longrightarrow> x \<noteq> A k \<and> x \<noteq> B k) \<longrightarrow> m' ! x = m ! x)"
proof -
  let ?Q = "\<lambda>K m'. length m' = length m \<and>
    (\<forall>k<K. P k \<longrightarrow> m' ! A k = f (m ! A k) (m ! B k) \<and> m' ! B k = g (m ! A k) (m ! B k)) \<and>
    (\<forall>x. (\<forall>k<K. P k \<longrightarrow> x \<noteq> A k \<and> x \<noteq> B k) \<longrightarrow> m' ! x = m ! x)"
  show ?thesis
  proof (rule rfold_upt_inv [where P = ?Q])
    fix k m' assume k: "k < K" and Q: "?Q k m'"
    show "\<exists>s'. (if P k then rbind (rd m' (A k)) (\<lambda>a. rbind (rd m' (B k)) (\<lambda>b.
        rbind (wr m' (A k) (f a b)) (\<lambda>m. wr m (B k) (g a b)))) else Ok m') = Ok s' \<and> ?Q (Suc k) s'"
    proof (cases "P k")
      case True
      have old: "m' ! A k = m ! A k" "m' ! B k = m ! B k"
        using Q inj [OF k _ True] inj [OF _ k _ True] k by (metis less_trans nat_less_le)+
      let ?m = "m'[A k := f (m ! A k) (m ! B k), B k := g (m ! A k) (m ! B k)]"
      have "?Q (Suc k) ?m"
      proof (intro conjI allI impI)
        fix l assume l: "l < Suc k" "P l"
        have ne: "A k \<noteq> B k" using inj [OF k k True True] by blast
        show "?m ! A l = f (m ! A l) (m ! B l)" "?m ! B l = g (m ! A l) (m ! B l)"
          using Q l k fits [OF k True] ne inj [OF k _ True l(2)] inj [OF _ k l(2) True]
          by (cases "l = k"; force simp: nth_list_update)+
      next
        fix x assume x: "\<forall>l<Suc k. P l \<longrightarrow> x \<noteq> A l \<and> x \<noteq> B l"
        then have "x \<noteq> A k" "x \<noteq> B k" "\<forall>l<k. P l \<longrightarrow> x \<noteq> A l \<and> x \<noteq> B l" using True by simp_all
        then show "?m ! x = m ! x" using Q by (metis nth_list_update_neq)
      qed (use Q in simp)
      then show ?thesis using True Q fits [OF k True] old by simp
    qed (use Q in \<open>auto simp: less_Suc_eq\<close>)
  qed simp_all
qed

text \<open>A word index as a block of \<open>2s\<close> rows, a row in its half and a word of the row.\<close>

lemma div_code: "t < d \<Longrightarrow> (q * d + t) div d = q \<and> (q * d + t) mod d = (t::nat)"
  by (metis add.commute div_mult_self3 div_less mod_mult_self3 mod_less gr_implies_not0 add_0_left mult.commute)

lemma index_split:
  fixes offset s :: nat
  assumes "0 < offset" and "k < R * (offset * s)"
  obtains q u w where "q < R" "u < s" "w < offset" "k div (offset * s) = q" "k mod (offset * s) = u * offset + w"
proof (rule that)
  let ?d = "offset * s"
  have s: "0 < s" using assms(2) by (cases s) simp_all
  show "k div ?d < R" using assms s by (simp add: less_mult_imp_div_less)
  have "k mod ?d < s * offset" using assms s by (simp add: mult.commute)
  then show "k mod ?d div offset < s" by (rule less_mult_imp_div_less)
  show "k mod ?d mod offset < offset" using assms by simp
  show "k mod ?d = k mod ?d div offset * offset + k mod ?d mod offset" by simp
qed simp

lemma index_join:
  fixes q u w :: nat
  assumes "q < R" and "u < s" and "w < offset"
  shows "q * (offset * s) + (u * offset + w) < R * (offset * s)"
    and "(q * (offset * s) + (u * offset + w)) div (offset * s) = q"
    and "(q * (offset * s) + (u * offset + w)) mod (offset * s) = u * offset + w"
proof -
  have "u * offset + w < s * offset" by (rule code_less [OF assms(2,3)])
  then have l: "u * offset + w < offset * s" by (simp add: mult.commute)
  show "q * (offset * s) + (u * offset + w) < R * (offset * s)" by (rule code_less [OF assms(1) l])
  show "(q * (offset * s) + (u * offset + w)) div (offset * s) = q"
    "(q * (offset * s) + (u * offset + w)) mod (offset * s) = u * offset + w" using div_code [OF l] by simp_all
qed

lemma bit_round_ok:
  assumes o: "0 < offset" and r: "rows = R * (2 ^ i * 2)" and m: "length m = rows * offset"
  shows "\<exists>m'. bit_round rows offset i m = Ok m' \<and> length m' = length m \<and>
    (\<forall>q<R. \<forall>u<2 ^ i. \<forall>w<offset. let a = (q * (2 ^ i * 2) + u) * offset + w; b = (q * (2 ^ i * 2) + u + 2 ^ i) * offset + w in
       m' ! a = fst (swap_bits i (m ! a) (m ! b)) \<and> m' ! b = snd (swap_bits i (m ! a) (m ! b)))"
proof -
  let ?s = "2 ^ i :: nat" and ?d = "offset * 2 ^ i"
  let ?A = "\<lambda>k. k div ?d * (2 * ?d) + k mod ?d" and ?B = "\<lambda>k. k div ?d * (2 * ?d) + k mod ?d + ?d"
  have d: "0 < ?d" using o by simp
  have R: "rows div (?s * 2) = R" using r by simp
  have len: "length m = R * (2 * ?d)" using m r by (simp add: ac_simps)
  have lt: "k div ?d < R" "k mod ?d < ?d" if "k < R * ?d" for k using that d by (simp_all add: less_mult_imp_div_less)
  have fits: "?A k < length m \<and> ?B k < length m" if k: "k < R * ?d" and "True" for k
    using code_less [of "k div ?d" R "k mod ?d + ?d" "2 * ?d"] lt [OF k] len by simp
  have decode: "?A k div (2 * ?d) = k div ?d \<and> ?A k mod (2 * ?d) = k mod ?d \<and>
      ?B k div (2 * ?d) = k div ?d \<and> ?B k mod (2 * ?d) = k mod ?d + ?d" for k
  proof -
    have "k mod ?d < ?d" using d by simp
    then have "k mod ?d < 2 * ?d" "k mod ?d + ?d < 2 * ?d" by linarith+
    then show ?thesis unfolding add.assoc by (simp only: div_code)
  qed
  have inj: "(?A k = ?A l \<longrightarrow> k = l) \<and> (?B k = ?B l \<longrightarrow> k = l) \<and> ?A k \<noteq> ?B l"
    if "k < R * ?d" "l < R * ?d" "True" "True" for k l
  proof -
    have "k = l" if "k div ?d = l div ?d" "k mod ?d = l mod ?d" using that by (metis div_mult_mod_eq)
    moreover have "k mod ?d < ?d" using d by simp
    ultimately show ?thesis using decode [of k] decode [of l] by (metis add_right_cancel not_add_less2)
  qed
  obtain m' where m': "rfold (\<lambda>k m. if True then rbind (rd m (?A k)) (\<lambda>a. rbind (rd m (?B k)) (\<lambda>b.
      rbind (wr m (?A k) (fst (swap_bits i a b))) (\<lambda>m. wr m (?B k) (snd (swap_bits i a b))))) else Ok m) [0..<R * ?d] m = Ok m'"
    "length m' = length m" "\<forall>k<R * ?d. True \<longrightarrow> m' ! ?A k = fst (swap_bits i (m ! ?A k) (m ! ?B k)) \<and>
      m' ! ?B k = snd (swap_bits i (m ! ?A k) (m ! ?B k))"
    using pair_loop [where A = ?A and B = ?B and P = "\<lambda>k. True" and f = "\<lambda>a b. fst (swap_bits i a b)" and
      g = "\<lambda>a b. snd (swap_bits i a b)" and K = "R * ?d" and m = m, OF fits inj] by blast
  have "bit_round rows offset i m = Ok m'"
    using m'(1) rfold_nested [OF d, where F = "\<lambda>j t m. rbind (rd m (j * (2 * ?d) + t)) (\<lambda>a. rbind (rd m (j * (2 * ?d) + t + ?d)) (\<lambda>b.
      rbind (wr m (j * (2 * ?d) + t) (fst (swap_bits i a b))) (\<lambda>m. wr m (j * (2 * ?d) + t + ?d) (snd (swap_bits i a b)))))"]
    by (simp add: bit_round_def Let_def R)
  moreover have "m' ! a = fst (swap_bits i (m ! a) (m ! b)) \<and> m' ! b = snd (swap_bits i (m ! a) (m ! b))"
    if q: "q < R" "u < ?s" "w < offset" and ab: "a = (q * (?s * 2) + u) * offset + w" "b = (q * (?s * 2) + u + ?s) * offset + w" for q u w a b
  proof -
    note ij = index_join [OF q]
    have "?A (q * ?d + (u * offset + w)) = a" "?B (q * ?d + (u * offset + w)) = b"
      unfolding ij ab by (simp_all add: algebra_simps)
    then show ?thesis using m'(3) ij(1) by blast
  qed
  ultimately show ?thesis using m'(2) unfolding Let_def by blast
qed

lemma word_round_ok:
  assumes o: "0 < offset" "offset = e * (2 * 2 ^ (i - 6))" and r: "rows = R * (2 ^ i * 2)" and m: "length m = rows * offset"
  defines "so \<equiv> 2 ^ (i - 6) :: nat"
  shows "\<exists>m'. word_round rows offset i m = Ok m' \<and> length m' = length m \<and>
    (\<forall>q<R. \<forall>u<2 ^ i. \<forall>w<offset. let a = (q * (2 ^ i * 2) + u) * offset + w; b = (q * (2 ^ i * 2) + u + 2 ^ i) * offset + w in
       if w mod (2 * so) \<ge> so then m' ! a = m ! (b - so) \<and> m' ! (b - so) = m ! a \<and> m' ! b = m ! b else m' ! a = m ! a)"
proof -
  let ?s = "2 ^ i :: nat" and ?d = "offset * 2 ^ i"
  let ?A = "\<lambda>k. k div ?d * (2 * ?d) + k mod ?d" and ?B = "\<lambda>k. k div ?d * (2 * ?d) + k mod ?d + ?d - so"
  let ?P = "\<lambda>k. k mod ?d mod (2 * so) \<ge> so"
  have d: "0 < ?d" using o by simp
  have d2: "?d = (e * 2 ^ i) * (2 * so)" using o by (simp add: so_def)
  have sp: "0 < so" by (simp add: so_def)
  have R: "rows div (?s * 2) = R" using r by simp
  have len: "length m = R * (2 * ?d)" using m r by (simp add: ac_simps)
  have ge: "so \<le> k mod ?d" if "?P k" for k using that mod_le_divisor [of "2 * so" "k mod ?d"] by (meson le_trans mod_less_eq_dividend)
  have decode: "?A k div (2 * ?d) = k div ?d \<and> ?A k mod (2 * ?d) = k mod ?d \<and>
      ?B k div (2 * ?d) = k div ?d \<and> ?B k mod (2 * ?d) = k mod ?d + ?d - so" if "?P k" for k
  proof -
    have l: "k mod ?d < ?d" using d by simp
    then have "k mod ?d < 2 * ?d" "k mod ?d + ?d - so < 2 * ?d" by linarith+
    moreover have "?B k = k div ?d * (2 * ?d) + (k mod ?d + ?d - so)" using ge [OF that] by simp
    ultimately show ?thesis by (simp only: div_code)
  qed
  have low: "(k mod ?d + ?d - so) mod (2 * so) < so" if "?P k" for k
  proof -
    have "(y + ?d) mod (2 * so) = y mod (2 * so)" for y unfolding d2 by simp
    moreover have "k mod ?d + ?d - so = (k mod ?d - so) + ?d" using ge [OF that] by simp
    ultimately have "(k mod ?d + ?d - so) mod (2 * so) = (k mod ?d - so) mod (2 * so)" by metis
    also have "\<dots> < so"
    proof -
      have t: "k mod ?d = k mod ?d div (2 * so) * (2 * so) + k mod ?d mod (2 * so)" by (rule div_mult_mod_eq [symmetric])
      have "k mod ?d mod (2 * so) < 2 * so" using sp by simp
      then have "k mod ?d mod (2 * so) - so < so" using that by linarith
      moreover have "k mod ?d - so = k mod ?d div (2 * so) * (2 * so) + (k mod ?d mod (2 * so) - so)" using t that by linarith
      ultimately show ?thesis using div_code [of "k mod ?d mod (2 * so) - so" "2 * so" "k mod ?d div (2 * so)"] by simp
    qed
    finally show ?thesis .
  qed
  have lt: "k div ?d < R" "k mod ?d < ?d" if "k < R * ?d" for k using that d by (simp_all add: less_mult_imp_div_less)
  have fits: "?A k < length m \<and> ?B k < length m" if k: "k < R * ?d" and P: "?P k" for k
  proof -
    have "k mod ?d + ?d - so < 2 * ?d" "k mod ?d < 2 * ?d" using lt(2) [OF k] sp ge [OF P] by linarith+
    note code_less [OF lt(1) [OF k] this(2)] code_less [OF lt(1) [OF k] this(1)]
    then show ?thesis using len ge [OF P] by linarith
  qed
  have inj: "(?A k = ?A l \<longrightarrow> k = l) \<and> (?B k = ?B l \<longrightarrow> k = l) \<and> ?A k \<noteq> ?B l"
    if k: "k < R * ?d" and l: "l < R * ?d" and P: "?P k" "?P l" for k l
  proof (intro conjI impI)
    have eq: "k = l" if "k div ?d = l div ?d" "k mod ?d = l mod ?d" using that by (metis div_mult_mod_eq)
    show "k = l" if "?A k = ?A l" using decode [OF P(1)] decode [OF P(2)] eq that by metis
    show "k = l" if "?B k = ?B l"
    proof (rule eq)
      show "k div ?d = l div ?d" using decode [OF P(1)] decode [OF P(2)] that by metis
      have "k mod ?d + ?d - so = l mod ?d + ?d - so" using decode [OF P(1)] decode [OF P(2)] that by metis
      then show "k mod ?d = l mod ?d" using ge [OF P(1)] ge [OF P(2)] by linarith
    qed
    show "?A k \<noteq> ?B l"
    proof
      assume "?A k = ?B l"
      then have "k mod ?d = l mod ?d + ?d - so" using decode [OF P(1)] decode [OF P(2)] by metis
      then show False using low [OF P(2)] P(1) by simp
    qed
  qed
  obtain m' where m': "rfold (\<lambda>k m. if ?P k then rbind (rd m (?A k)) (\<lambda>a. rbind (rd m (?B k)) (\<lambda>b.
      rbind (wr m (?A k) b) (\<lambda>m. wr m (?B k) a))) else Ok m) [0..<R * ?d] m = Ok m'"
    "length m' = length m" "\<forall>k<R * ?d. ?P k \<longrightarrow> m' ! ?A k = m ! ?B k \<and> m' ! ?B k = m ! ?A k"
    "\<forall>x. (\<forall>k<R * ?d. ?P k \<longrightarrow> x \<noteq> ?A k \<and> x \<noteq> ?B k) \<longrightarrow> m' ! x = m ! x"
    using pair_loop [where A = ?A and B = ?B and P = ?P and f = "\<lambda>a b. b" and g = "\<lambda>a b. a" and K = "R * ?d" and m = m,
        OF fits inj] by blast
  have "word_round rows offset i m = Ok m'"
    unfolding word_round_def Let_def R LOG2_REGISTER_SIZE_def so_def [symmetric] rfold_nested [OF d] by (rule m'(1))
  moreover have "if w mod (2 * so) \<ge> so then m' ! a = m ! (b - so) \<and> m' ! (b - so) = m ! a \<and> m' ! b = m ! b else m' ! a = m ! a"
    if q: "q < R" "u < ?s" "w < offset" and ab: "a = (q * (?s * 2) + u) * offset + w" "b = (q * (?s * 2) + u + ?s) * offset + w" for q u w a b
  proof -
    note ij = index_join [OF q]
    have t: "u * offset + w < ?d" using code_less [OF q(2,3)] by (simp add: mult.commute)
    have "u * offset = u * e * (2 * so)" by (simp only: o(2) so_def mult.assoc)
    then have wm: "(u * offset + w) mod (2 * so) = w mod (2 * so)" by (simp only: mod_mult_self3)
    have a: "a = q * (2 * ?d) + (u * offset + w)" and b: "b = q * (2 * ?d) + (u * offset + w + ?d)"
      unfolding ab by (simp_all add: algebra_simps)
    have am: "a mod (2 * ?d) = u * offset + w" "b mod (2 * ?d) = u * offset + w + ?d"
      unfolding a b using t by (simp_all only: div_code)
    have untouched: "m' ! x = m ! x" if x: "\<not> (x mod (2 * ?d) < ?d \<and> x mod (2 * ?d) mod (2 * so) \<ge> so)"
      "\<not> (x mod (2 * ?d) \<ge> ?d \<and> x mod (2 * ?d) mod (2 * so) < so)" for x
    proof -
      have "x \<noteq> ?A k \<and> x \<noteq> ?B k" if k: "k < R * ?d" "?P k" for k
      proof (intro conjI notI)
        assume "x = ?A k"
        then have "x mod (2 * ?d) = k mod ?d" using decode [OF k(2)] by (simp only:)
        then show False using x(1) lt(2) [OF k(1)] k(2) by argo
      next
        assume "x = ?B k"
        then have "x mod (2 * ?d) = k mod ?d + ?d - so" using decode [OF k(2)] by (simp only:)
        moreover have "?d \<le> k mod ?d + ?d - so" using ge [OF k(2)] by linarith
        ultimately show False using x(2) low [OF k(2)] by argo
      qed
      then show ?thesis using m'(4) by blast
    qed
    show ?thesis
    proof (cases "w mod (2 * so) \<ge> so")
      case True
      let ?k = "q * ?d + (u * offset + w)"
      have P: "?P ?k" unfolding ij wm by (rule True)
      have ge': "so \<le> u * offset + w" using ge [OF P] unfolding ij .
      have "?A ?k = a" "?B ?k = b - so" unfolding ij a b by simp_all
      then have "m' ! a = m ! (b - so) \<and> m' ! (b - so) = m ! a" using m'(3) ij(1) P by metis
      moreover have "m' ! b = m ! b"
      proof (rule untouched)
        have "(u * offset + w + ?d) mod (2 * so) = w mod (2 * so)" unfolding d2 mod_mult_self1 by (rule wm)
        then show "\<not> (b mod (2 * ?d) < ?d \<and> b mod (2 * ?d) mod (2 * so) \<ge> so)"
          "\<not> (b mod (2 * ?d) \<ge> ?d \<and> b mod (2 * ?d) mod (2 * so) < so)" unfolding am using True by simp_all
      qed
      ultimately show ?thesis using True by simp
    next
      case False
      have "m' ! a = m ! a" by (rule untouched) (use False t in \<open>simp_all add: am wm\<close>)
      then show ?thesis using False by simp
    qed
  qed
  ultimately show ?thesis using m'(2) unfolding Let_def by blast
qed

section \<open>The rounds on cells\<close>

lemma mask_bit:
  assumes "i < 6" and "p < 64"
  shows "bit (TRANSPOSITION_MASKS ! i) p \<longleftrightarrow> \<not> bit p i"
proof -
  have "\<forall>i\<in>set [0..<6]. \<forall>p\<in>set [0..<64]. bit (TRANSPOSITION_MASKS ! i) p \<longleftrightarrow> \<not> bit p i" by code_simp
  then show ?thesis using assms by simp
qed

lemma bit_ge: "bit (p :: nat) i \<Longrightarrow> 2 ^ i \<le> p"
  by (metis bit_nat_def div_less even_zero not_less)

lemma flip_up: "\<not> bit (p :: nat) i \<Longrightarrow> flip_bit i p = p + 2 ^ i"
  by (simp add: flip_bit_eq_if set_bit_eq)

lemma flip_flip: "flip_bit i (flip_bit i p) = (p :: nat)"
  by (rule bit_eqI) (auto simp: bit_flip_bit_iff)

lemma flip_down: "bit (p :: nat) i \<Longrightarrow> flip_bit i p = p - 2 ^ i"
  using flip_up [of "flip_bit i p" i] by (simp add: bit_flip_bit_iff flip_flip)

lemma bit_minus_power: "2 ^ i \<le> (p :: nat) \<Longrightarrow> bit (p - 2 ^ i) i \<longleftrightarrow> \<not> bit p i"
proof -
  assume "2 ^ i \<le> p"
  then obtain x where x: "p = x + 2 ^ i" by (metis le_add_diff_inverse2)
  have "(x + 2 ^ i) div 2 ^ i = Suc (x div 2 ^ i)" by (simp add: div_add_self2)
  then show ?thesis by (simp add: x bit_nat_def)
qed

lemma flip_less:
  assumes "i < k" and "p < n * 2 ^ k"
  shows "flip_bit i p < n * (2 ^ k :: nat)"
proof -
  have "bit (flip_bit i p) j = bit p j" if "k \<le> j" for j using that assms(1) by (auto simp: bit_flip_bit_iff)
  then have "drop_bit k (flip_bit i p) = drop_bit k p" by (intro bit_eqI) (simp add: bit_drop_bit_eq)
  then show ?thesis using assms(2) div_less_iff_less_mult [of "2 ^ k" "flip_bit i p" n] div_less_iff_less_mult [of "2 ^ k" p n]
    by (simp add: drop_bit_eq_div)
qed

text \<open>Where bit \<open>q\<close> of the two words comes from; the words agree with the columns' order when bit \<open>i\<close> of
  \<open>q\<close> is read with the sign \<open>i > 2\<close>.\<close>

lemma swap_bits_bit:
  assumes i: "i < 6" and q: "q < 64"
  shows "bit (fst (swap_bits i a b)) q = (if bit q i = (2 < i) then bit b (flip_bit i q) else bit a q)"
    and "bit (snd (swap_bits i a b)) q = (if bit q i = (2 < i) then bit b q else bit a (flip_bit i q))"
proof -
  have f: "flip_bit i q < 64" using flip_less [of i 6 q 1] assms by simp
  have up: "bit (drop_bit (2 ^ i) w) q = bit w (q + 2 ^ i)" for w :: u64 by (simp add: bit_drop_bit_eq add.commute)
  have down: "bit (push_bit (2 ^ i) w) q = (2 ^ i \<le> q \<and> bit w (q - 2 ^ i))" for w :: u64
    using q by (simp add: bit_push_bit_iff)
  have m: "bit (TRANSPOSITION_MASKS ! i) q = (\<not> bit q i)" by (rule mask_bit [OF assms])
  have m1: "q + 2 ^ i < 64 \<and> bit (TRANSPOSITION_MASKS ! i) (q + 2 ^ i) = False" if "\<not> bit q i"
    using f mask_bit [OF i f] that unfolding flip_up [OF that] by (simp add: flip_up [OF that, symmetric] bit_flip_bit_iff)
  have m2: "bit (TRANSPOSITION_MASKS ! i) (q - 2 ^ i)" if "bit q i"
    using f mask_bit [OF i f] that by (simp add: flip_down [OF that, symmetric] bit_flip_bit_iff)
  have m3: "\<not> bit (TRANSPOSITION_MASKS ! i) (q - 2 ^ i)" if "\<not> bit q i" "2 ^ i \<le> q"
    using mask_bit [OF i, of "q - 2 ^ i"] bit_minus_power [OF that(2)] that(1) q by simp
  have m4: "\<not> bit (NOT (TRANSPOSITION_MASKS ! i)) (q + 2 ^ i)" if b: "bit q i"
  proof (cases "q + 2 ^ i < 64")
    case True
    have "\<not> bit (q + 2 ^ i) i" using bit_minus_power [of i "q + 2 ^ i"] b by simp
    then show ?thesis using mask_bit [OF i True] True by (simp add: bit_not_iff)
  qed (auto dest: bit_imp_le_length)
  note bits = bit_xor_iff bit_and_iff bit_not_iff up down m
  show "bit (fst (swap_bits i a b)) q = (if bit q i = (2 < i) then bit b (flip_bit i q) else bit a q)"
  proof (cases "bit q i")
    case True
    then show ?thesis using q m2 m4 bit_ge [OF True]
      by (auto simp: swap_bits_def Let_def bits flip_down)
  next
    case False
    then show ?thesis using q m1 m3
      by (auto simp: swap_bits_def Let_def bits flip_up)
  qed
  show "bit (snd (swap_bits i a b)) q = (if bit q i = (2 < i) then bit b q else bit a (flip_bit i q))"
  proof (cases "bit q i")
    case True
    then show ?thesis using q m2 m4 bit_ge [OF True]
      by (auto simp: swap_bits_def Let_def bits flip_down)
  next
    case False
    then show ?thesis using q m1 m3
      by (auto simp: swap_bits_def Let_def bits flip_up)
  qed
qed

text \<open>What both kinds of rounds achieve: where bit \<open>i\<close> of the row and of the column differ, the cell comes from
  the place with both bits flipped.\<close>

definition exchanged :: "nat \<Rightarrow> nat \<Rightarrow> nat \<Rightarrow> u64 list \<Rightarrow> u64 list \<Rightarrow> bool" where
  "exchanged i rows offset m m' \<longleftrightarrow> length m' = length m \<and> (\<forall>r<rows. \<forall>c<64 * offset.
     cell m' offset r c = (if bit r i = bit c i then cell m offset r c else cell m offset (flip_bit i r) (flip_bit i c)))"

lemma row_split:
  fixes r :: nat
  assumes "r < R * (2 ^ i * 2)"
  obtains q u where "q < R" and "u < 2 ^ i" and
    "if bit r i then r = q * (2 ^ i * 2) + u + 2 ^ i \<and> flip_bit i r = q * (2 ^ i * 2) + u
     else r = q * (2 ^ i * 2) + u \<and> flip_bit i r = q * (2 ^ i * 2) + u + 2 ^ i"
proof -
  define y where "y = (if bit r i then flip_bit i r else r)"
  have y: "if bit r i then r = y + 2 ^ i \<and> flip_bit i r = y else r = y \<and> flip_bit i r = y + 2 ^ i"
    using bit_ge [of r i] by (auto simp: y_def flip_up flip_down)
  then have "y < R * (2 ^ i * 2)" using assms by (auto split: if_splits)
  then have q: "y div (2 ^ i * 2) < R" by (rule less_mult_imp_div_less)
  have "\<not> bit y i" by (simp add: y_def bit_flip_bit_iff)
  then have "even (y div 2 ^ i)" by (simp only: bit_nat_def not_not)
  then have "y div 2 ^ i mod 2 = 0" by (rule even_iff_mod_2_eq_zero [THEN iffD1])
  then have "y mod (2 ^ i * 2) = y mod 2 ^ i" by (simp only: mod_mult2_eq)
  then have u: "y mod (2 ^ i * 2) < 2 ^ i" by simp
  show ?thesis by (rule that [OF q u], unfold div_mult_mod_eq, rule y)
qed

lemma flip_column:
  assumes "i < 6"
  shows "take_bit 6 (flip_bit i c) = flip_bit i (take_bit 6 (c :: nat))" and "flip_bit i c div 64 = c div 64"
    and "flip_bit i (x XOR 7) = flip_bit i x XOR (7 :: nat)" and "bit (take_bit 6 c XOR 7) i = (bit c i \<noteq> (i < 3))"
proof -
  have seven: "bit (7 :: nat) i = (i < 3)" using bit_mask_iff [of 3 i, where ?'a = nat] by (simp add: mask_eq_exp_minus_1)
  show "take_bit 6 (flip_bit i c) = flip_bit i (take_bit 6 c)"
    using assms by (intro bit_eqI) (auto simp: bit_take_bit_iff bit_flip_bit_iff)
  have "drop_bit 6 (flip_bit i c) = drop_bit 6 c" using assms by (intro bit_eqI) (auto simp: bit_drop_bit_eq bit_flip_bit_iff)
  then show "flip_bit i c div 64 = c div 64" by (simp add: drop_bit_eq_div)
  show "flip_bit i (x XOR 7) = flip_bit i x XOR (7 :: nat)" by (intro bit_eqI) (auto simp: bit_xor_iff bit_flip_bit_iff)
  show "bit (take_bit 6 c XOR 7) i = (bit c i \<noteq> (i < 3))" using assms seven by (auto simp: bit_xor_iff bit_take_bit_iff)
qed

lemma column_bit_less: "take_bit 6 c XOR 7 < (64 :: nat)"
proof -
  have "take_bit 6 (take_bit 6 c XOR 7) = take_bit 6 c XOR (7 :: nat)" by (simp add: take_bit_xor)
  then show ?thesis using take_bit_nat_less_exp [of 6 "take_bit 6 c XOR 7"] by simp
qed

lemma bit_round_cells:
  assumes o: "0 < offset" and r: "rows = R * (2 ^ i * 2)" and m: "length m = rows * offset" and i: "i < 6"
  shows "\<exists>m'. bit_round rows offset i m = Ok m' \<and> exchanged i rows offset m m'"
proof -
  obtain m' where m': "bit_round rows offset i m = Ok m'" "length m' = length m"
    and sw: "\<forall>q<R. \<forall>u<2 ^ i. \<forall>w<offset. let a = (q * (2 ^ i * 2) + u) * offset + w; b = (q * (2 ^ i * 2) + u + 2 ^ i) * offset + w in
       m' ! a = fst (swap_bits i (m ! a) (m ! b)) \<and> m' ! b = snd (swap_bits i (m ! a) (m ! b))"
    using bit_round_ok [OF o r m] by blast
  have "cell m' offset x c = (if bit x i = bit c i then cell m offset x c else cell m offset (flip_bit i x) (flip_bit i c))"
    if x: "x < rows" and c: "c < 64 * offset" for x c
  proof -
    have w: "c div 64 < offset" using c by (simp add: less_mult_imp_div_less mult.commute)
    let ?p = "take_bit 6 c XOR 7"
    have p: "(bit ?p i = (2 < i)) = bit c i" using flip_column(4) [OF i, of c] by auto
    have fp: "flip_bit i ?p = take_bit 6 (flip_bit i c) XOR 7" by (simp only: flip_column [OF i])
    obtain q u where q: "q < R" "u < 2 ^ i" and xs: "if bit x i then x = q * (2 ^ i * 2) + u + 2 ^ i \<and> flip_bit i x = q * (2 ^ i * 2) + u
      else x = q * (2 ^ i * 2) + u \<and> flip_bit i x = q * (2 ^ i * 2) + u + 2 ^ i"
      using row_split x unfolding r by blast
    obtain y z where xs: "if bit x i then flip_bit i x = y \<and> x = z else flip_bit i x = z \<and> x = y"
      and swap: "m' ! (y * offset + c div 64) = fst (swap_bits i (m ! (y * offset + c div 64)) (m ! (z * offset + c div 64)))"
        "m' ! (z * offset + c div 64) = snd (swap_bits i (m ! (y * offset + c div 64)) (m ! (z * offset + c div 64)))"
      using xs sw [rule_format, OF q w, unfolded Let_def] by metis
    have cells: "cell m' offset y c = (if bit c i then cell m offset z (flip_bit i c) else cell m offset y c)"
      "cell m' offset z c = (if bit c i then cell m offset z c else cell m offset y (flip_bit i c))"
      unfolding cell_def flip_column(2) [OF i] swap fp [symmetric] swap_bits_bit [OF i column_bit_less] p by simp_all
    show ?thesis
    proof (cases "bit x i")
      case True
      then have "flip_bit i x = y" "x = z" using xs by metis+
      then show ?thesis using cells True by metis
    next
      case False
      then have "flip_bit i x = z" "x = y" using xs by metis+
      then show ?thesis using cells False by metis
    qed
  qed
  then show ?thesis using m' unfolding exchanged_def by blast
qed

lemma word_round_cells:
  assumes o: "0 < offset" "offset = e * (2 * 2 ^ (i - 6))" and r: "rows = R * (2 ^ i * 2)" and m: "length m = rows * offset"
    and i: "6 \<le> i"
  shows "\<exists>m'. word_round rows offset i m = Ok m' \<and> exchanged i rows offset m m'"
proof -
  let ?so = "2 ^ (i - 6) :: nat"
  obtain m' where m': "word_round rows offset i m = Ok m'" "length m' = length m"
    and sw: "\<forall>q<R. \<forall>u<2 ^ i. \<forall>w<offset. let a = (q * (2 ^ i * 2) + u) * offset + w; b = (q * (2 ^ i * 2) + u + 2 ^ i) * offset + w in
       if w mod (2 * ?so) \<ge> ?so then m' ! a = m ! (b - ?so) \<and> m' ! (b - ?so) = m ! a \<and> m' ! b = m ! b else m' ! a = m ! a"
    using word_round_ok [OF o r m] by blast
  have "cell m' offset x c = (if bit x i = bit c i then cell m offset x c else cell m offset (flip_bit i x) (flip_bit i c))"
    if x: "x < rows" and c: "c < 64 * offset" for x c
  proof -
    let ?w = "c div 64"
    have w: "?w < offset" using c by (simp add: less_mult_imp_div_less mult.commute)
    have wb: "bit ?w (i - 6) = bit c i" using i bit_drop_bit_eq [of 6 c] by (simp add: drop_bit_eq_div fun_eq_iff)
    have fw: "flip_bit i c div 64 = flip_bit (i - 6) ?w"
    proof -
      have "drop_bit 6 (flip_bit i c) = flip_bit (i - 6) (drop_bit 6 c)"
        using i by (intro bit_eqI) (auto simp: bit_drop_bit_eq bit_flip_bit_iff)
      then show ?thesis by (simp add: drop_bit_eq_div)
    qed
    have fc: "take_bit 6 (flip_bit i c) = take_bit 6 c"
      using i by (intro bit_eqI) (auto simp: bit_take_bit_iff bit_flip_bit_iff)
    have half: "y mod (2 * ?so) \<ge> ?so \<longleftrightarrow> bit y (i - 6)" for y :: nat
    proof -
      have "y mod (?so * 2) = ?so * (y div ?so mod 2) + y mod ?so" by (rule mod_mult2_eq)
      moreover have "\<not> ?so \<le> y mod ?so" by (simp add: not_le)
      moreover have "y div ?so mod 2 = of_bool (bit y (i - 6))" by (simp add: bit_nat_def mod2_eq_if)
      ultimately show ?thesis by (auto simp: mult.commute)
    qed
    have fit: "flip_bit (i - 6) ?w < offset"
    proof -
      have e: "offset = e * 2 ^ Suc (i - 6)" using o(2) by simp
      show ?thesis using flip_less [of "i - 6" "Suc (i - 6)" ?w e] w unfolding e by simp
    qed
    obtain q u where q: "q < R" "u < 2 ^ i" and xs: "if bit x i then x = q * (2 ^ i * 2) + u + 2 ^ i \<and> flip_bit i x = q * (2 ^ i * 2) + u
      else x = q * (2 ^ i * 2) + u \<and> flip_bit i x = q * (2 ^ i * 2) + u + 2 ^ i"
      using row_split x unfolding r by blast
    obtain y z where xs: "if bit x i then flip_bit i x = y \<and> x = z else flip_bit i x = z \<and> x = y"
      and swap: "\<forall>w<offset. if bit w (i - 6) then m' ! (y * offset + w) = m ! (z * offset + w - ?so) \<and>
          m' ! (z * offset + w - ?so) = m ! (y * offset + w) \<and> m' ! (z * offset + w) = m ! (z * offset + w)
        else m' ! (y * offset + w) = m ! (y * offset + w)"
      using xs sw [rule_format, OF q, unfolded Let_def half] by metis
    have cells: "cell m' offset y c = (if bit c i then cell m offset z (flip_bit i c) else cell m offset y c) \<and>
      cell m' offset z c = (if bit c i then cell m offset z c else cell m offset y (flip_bit i c))"
    proof (cases "bit c i")
      case True
      then have "flip_bit (i - 6) ?w = ?w - ?so" "?so \<le> ?w" using wb by (simp_all add: flip_down bit_ge)
      then have "z * offset + ?w - ?so = z * offset + flip_bit (i - 6) ?w" by simp
      then show ?thesis using swap [rule_format, OF w] True wb by (simp add: cell_def fw fc)
    next
      case False
      then have "flip_bit (i - 6) ?w = ?w + ?so" using wb by (simp add: flip_up)
      then have "z * offset + flip_bit (i - 6) ?w - ?so = z * offset + ?w" by simp
      then have "m' ! (z * offset + ?w) = m ! (y * offset + flip_bit (i - 6) ?w)" "m' ! (y * offset + ?w) = m ! (y * offset + ?w)"
        using swap [rule_format, OF w] swap [rule_format, OF fit] False wb by (simp_all add: bit_flip_bit_iff)
      then show ?thesis using False by (simp add: cell_def fw fc)
    qed
    show ?thesis
    proof (cases "bit x i")
      case True
      then have "flip_bit i x = y" "x = z" using xs by metis+
      then show ?thesis using cells True by metis
    next
      case False
      then have "flip_bit i x = z" "x = y" using xs by metis+
      then show ?thesis using cells False by metis
    qed
  qed
  then show ?thesis using m' unfolding exchanged_def by blast
qed

section \<open>All rounds\<close>

definition mix :: "nat \<Rightarrow> nat \<Rightarrow> nat \<Rightarrow> nat" where
  "mix i r c = push_bit i (drop_bit i r) OR take_bit i c"

lemma bit_mix: "bit (mix i r c) j \<longleftrightarrow> (if j < i then bit c j else bit r j)"
  by (auto simp: mix_def bit_or_iff bit_push_bit_iff bit_drop_bit_eq bit_take_bit_iff)

lemma mix_0 [simp]: "mix 0 r c = r"
  by (rule bit_eqI) (simp add: bit_mix)

lemma mix_Suc:
  shows "bit r i = bit c i \<Longrightarrow> mix i r c = mix (Suc i) r c"
    and "bit r i \<noteq> bit c i \<Longrightarrow> mix i (flip_bit i r) (flip_bit i c) = mix (Suc i) r c"
proof -
  show "mix i r c = mix (Suc i) r c" if "bit r i = bit c i"
  proof (rule bit_eqI)
    fix j show "bit (mix i r c) j = bit (mix (Suc i) r c) j"
      using that by (cases "j = i") (simp_all add: bit_mix less_Suc_eq)
  qed
  show "mix i (flip_bit i r) (flip_bit i c) = mix (Suc i) r c" if "bit r i \<noteq> bit c i"
  proof (rule bit_eqI)
    fix j show "bit (mix i (flip_bit i r) (flip_bit i c)) j = bit (mix (Suc i) r c) j"
      using that by (cases "j = i") (simp_all add: bit_mix bit_flip_bit_iff less_Suc_eq)
  qed
qed

lemma mix_all:
  assumes "r < 2 ^ k"
  shows "mix k r c = c mod 2 ^ k" and "mix k c r = c div 2 ^ k * 2 ^ k + r"
proof -
  have "drop_bit k r = 0" "take_bit k r = r" using assms by (simp_all add: drop_bit_eq_div take_bit_eq_mod)
  moreover have "push_bit k (drop_bit k c) OR r = push_bit k (drop_bit k c) + r"
    using assms calculation by (intro disjunctive_add [symmetric])
      (metis bit_push_bit_iff bit_take_bit_iff not_less)
  ultimately show "mix k r c = c mod 2 ^ k" "mix k c r = c div 2 ^ k * 2 ^ k + r"
    by (simp_all add: mix_def take_bit_eq_mod drop_bit_eq_div push_bit_eq_mult)
qed

definition rounds_done :: "nat \<Rightarrow> nat \<Rightarrow> nat \<Rightarrow> u64 list \<Rightarrow> u64 list \<Rightarrow> bool" where
  "rounds_done i rows offset m m' \<longleftrightarrow> length m' = length m \<and>
     (\<forall>r<rows. \<forall>c<64 * offset. cell m' offset r c = cell m offset (mix i r c) (mix i c r))"

lemma rounds_step:
  assumes d: "rounds_done i (2 ^ k) offset m m'" and e: "exchanged i (2 ^ k) offset m' m''"
    and i: "i < k" and o: "64 * offset = n * 2 ^ k"
  shows "rounds_done (Suc i) (2 ^ k) offset m m''"
  unfolding rounds_done_def
proof (intro conjI allI impI)
  show "length m'' = length m" using d e by (simp add: rounds_done_def exchanged_def)
  fix r c :: nat assume r: "r < 2 ^ k" and c: "c < 64 * offset"
  have f: "flip_bit i r < 2 ^ k" "flip_bit i c < 64 * offset"
    using flip_less [OF i, of r 1] flip_less [OF i, of c n] r c o by simp_all
  have old: "cell m' offset x y = cell m offset (mix i x y) (mix i y x)" if "x < 2 ^ k" "y < 64 * offset" for x y
    using d that by (simp add: rounds_done_def)
  have new: "cell m'' offset r c = (if bit r i = bit c i then cell m' offset r c else cell m' offset (flip_bit i r) (flip_bit i c))"
    using e r c unfolding exchanged_def by blast
  show "cell m'' offset r c = cell m offset (mix (Suc i) r c) (mix (Suc i) c r)"
  proof (cases "bit r i = bit c i")
    case True
    then show ?thesis using new old [OF r c] mix_Suc(1) [of r i c] mix_Suc(1) [of c i r] by simp
  next
    case False
    then show ?thesis using new old [OF f] mix_Suc(2) [of r i c] mix_Suc(2) [of c i r] by simp
  qed
qed

lemma all_rounds_ok:
  assumes k: "6 \<le> k" and n: "0 < n" and offset: "offset = n * 2 ^ (k - 6)" and m: "length m = 2 ^ k * offset"
  shows "\<exists>m'. rbind (rfold (bit_round (2 ^ k) offset) [0..<6] m) (rfold (word_round (2 ^ k) offset) [6..<k]) = Ok m' \<and>
    rounds_done k (2 ^ k) offset m m'"
proof -
  have o: "64 * offset = n * 2 ^ k"
  proof -
    have "(2::nat) ^ k = 2 ^ 6 * 2 ^ (k - 6)" by (metis k le_add_diff_inverse power_add)
    then show ?thesis by (simp add: offset)
  qed
  have o0: "0 < offset" using n by (simp add: offset)
  have rows: "(2::nat) ^ k = 2 ^ (k - Suc i) * (2 ^ i * 2)" if "i < k" for i
  proof -
    have "2 ^ (k - Suc i) * (2 ^ i * 2) = (2::nat) ^ (k - Suc i + Suc i)" by (simp only: power_add power_Suc2)
    then show ?thesis using that by simp
  qed
  have "\<exists>m1. rfold (bit_round (2 ^ k) offset) [0..<6] m = Ok m1 \<and> rounds_done 6 (2 ^ k) offset m m1"
  proof (rule rfold_upt_inv [where P = "\<lambda>i. rounds_done i (2 ^ k) offset m"])
    fix i s assume i: "i < 6" and s: "rounds_done i (2 ^ k) offset m s"
    have "length s = 2 ^ k * offset" using s m by (simp add: rounds_done_def)
    then show "\<exists>s'. bit_round (2 ^ k) offset i s = Ok s' \<and> rounds_done (Suc i) (2 ^ k) offset m s'"
      using bit_round_cells [OF o0 rows _ i] rounds_step [OF s _ _ o] i k by (metis less_le_trans)
  qed (simp_all add: rounds_done_def)
  then obtain m1 where m1: "rfold (bit_round (2 ^ k) offset) [0..<6] m = Ok m1" "rounds_done 6 (2 ^ k) offset m m1" by blast
  have "\<exists>m2. rfold (word_round (2 ^ k) offset) [6..<k] m1 = Ok m2 \<and> rounds_done k (2 ^ k) offset m m2"
  proof (rule rfold_upt_inv [where P = "\<lambda>i. rounds_done i (2 ^ k) offset m"])
    fix i s assume i: "6 \<le> i" "i < k" and s: "rounds_done i (2 ^ k) offset m s"
    have "(2::nat) ^ (k - 6) = 2 ^ (k - Suc i) * (2 * 2 ^ (i - 6))"
    proof -
      have "k - 6 = (k - Suc i) + Suc (i - 6)" using i by simp
      then show ?thesis by (simp only: power_add power_Suc)
    qed
    then have e: "offset = n * 2 ^ (k - Suc i) * (2 * 2 ^ (i - 6))" by (simp only: offset mult.assoc)
    have "length s = 2 ^ k * offset" using s m by (simp add: rounds_done_def)
    then show "\<exists>s'. word_round (2 ^ k) offset i s = Ok s' \<and> rounds_done (Suc i) (2 ^ k) offset m s'"
      using word_round_cells [OF o0 e rows [OF i(2)] _ i(1)] rounds_step [OF s _ i(2) o] by metis
  qed (use k m1 in simp_all)
  then show ?thesis using m1 by simp
qed

section \<open>The rows of the square blocks\<close>

lemma block_rows_ok:
  assumes k: "6 \<le> k" and offset: "offset = n * 2 ^ (k - 6)" and m: "length m = 2 ^ k * offset"
  shows "\<exists>m'. block_rows (2 ^ k) (n * 2 ^ k) m = Ok m' \<and> length m' = length m \<and>
    (\<forall>i<n. \<forall>j<2 ^ k. \<forall>x<2 ^ (k - 6). m' ! ((i * 2 ^ k + j) * 2 ^ (k - 6) + x) = m ! (i * 2 ^ (k - 6) + j * offset + x))"
proof -
  let ?z = "2 ^ (k - 6) :: nat" and ?R = "2 ^ k :: nat"
  have z: "?R = 64 * ?z"
  proof -
    have "?R = 2 ^ 6 * ?z" by (metis k le_add_diff_inverse power_add)
    then show ?thesis by simp
  qed
  have len: "length m = (n * ?R) * ?z" using m offset by simp
  have parts: "?R div 8 * (n * ?R) div 8 = length m" "n * ?R div 8 div 8 = offset" "?R div 64 = ?z" "?R div 8 div 8 = ?z"
    "n * ?R div ?R = n"
  proof -
    have d: "x * (64 * ?z) div 8 div 8 = x * ?z" for x
    proof -
      have "x * (64 * ?z) = (x * ?z * 8) * 8" by simp
      then show ?thesis by simp
    qed
    have "?R div 8 * (n * ?R) = length m * 8" unfolding len z by simp
    then show "?R div 8 * (n * ?R) div 8 = length m" by simp
    show "n * ?R div 8 div 8 = offset" unfolding z offset d by (rule refl)
    show "?R div 64 = ?z" "?R div 8 div 8 = ?z" using d [of 1] by (simp_all add: z)
  qed simp
  let ?F = "\<lambda>i j m'. rbind (rd_blk m (i * ?z + j * offset) ?z) (\<lambda>row. wr_blk m' ((i * ?R + j) * ?z) row)"
  let ?P = "\<lambda>q m'. length m' = length m \<and> (\<forall>p<q. \<forall>x<?z. m' ! (p * ?z + x) = m ! (p div ?R * ?z + p mod ?R * offset + x))"
  have "\<exists>m'. rfold (\<lambda>q. ?F (q div ?R) (q mod ?R)) [0..<n * ?R] m = Ok m' \<and> ?P (n * ?R) m'"
  proof (rule rfold_upt_inv [where P = ?P])
    fix q m' assume q: "q < n * ?R" and P: "?P q m'"
    let ?i = "q div ?R" and ?j = "q mod ?R"
    have i: "?i < n" using q by (simp add: less_mult_imp_div_less)
    have "?i * ?z + ?z \<le> offset" using code_less [OF i, of "?z - 1" ?z] offset by simp
    moreover have "?j * offset + offset \<le> ?R * offset" using mult_le_mono1 [of "Suc ?j" ?R offset] by (simp add: Suc_leI)
    ultimately have r: "?i * ?z + ?j * offset + ?z \<le> length m" using m by linarith
    have qz: "q * ?z + ?z \<le> length m" using mult_le_mono1 [of "Suc q" "n * ?R" ?z] q len by simp
    let ?m = "blit m' (q * ?z) (take ?z (drop (?i * ?z + ?j * offset) m))"
    have "?F ?i ?j m' = Ok ?m" unfolding div_mult_mod_eq using r qz P by simp
    moreover have "?P (Suc q) ?m"
    proof (intro conjI allI impI)
      show "length ?m = length m" using r qz P by simp
      fix p x assume p: "p < Suc q" and x: "x < ?z"
      have "?m ! (p * ?z + x) = (if p = q then m ! (?i * ?z + ?j * offset + x) else m' ! (p * ?z + x))"
      proof (cases "p = q")
        case True
        then show ?thesis using r qz P x by (simp add: nth_blit)
      next
        case False
        then have "p * ?z + x < q * ?z" using p x by (intro code_less) simp_all
        then show ?thesis using r qz P False by (simp add: nth_blit)
      qed
      then show "?m ! (p * ?z + x) = m ! (p div ?R * ?z + p mod ?R * offset + x)"
        using P p x by (cases "p = q") (simp_all add: less_Suc_eq)
    qed
    ultimately show "\<exists>s'. ?F ?i ?j m' = Ok s' \<and> ?P (Suc q) s'" by blast
  qed simp_all
  then obtain m' where m': "rfold (\<lambda>q. ?F (q div ?R) (q mod ?R)) [0..<n * ?R] m = Ok m'" and P: "?P (n * ?R) m'" by blast
  have "block_rows ?R (n * ?R) m = Ok m'"
    using m' rfold_nested [of ?R ?F n m] by (simp add: block_rows_def parts)
  moreover have "m' ! ((i * ?R + j) * ?z + x) = m ! (i * ?z + j * offset + x)" if "i < n" "j < ?R" "x < ?z" for i j x
    using P code_less [OF that(1,2)] div_code [OF that(2), of i] that(3) by metis
  ultimately show ?thesis using P by blast
qed

section \<open>The transposed matrix\<close>

text \<open>Bit \<open>idx\<close> of a bit vector, in the order of \<open>GetBit\<close>.\<close>

definition bit_at :: "bytes \<Rightarrow> nat \<Rightarrow> bool" where
  "bit_at v idx = bit (v ! (idx div 8)) (7 - idx mod 8)"

lemma GetBit_bit_at: "idx < 8 * length v \<Longrightarrow> GetBit v idx = Ok (bit_at v idx)"
proof -
  assume i: "idx < 8 * length v"
  have "\<forall>k\<in>set [0..<8]. MASK_BIT ! k = push_bit (7 - k) 1" by code_simp
  then have m: "MASK_BIT ! (idx mod 8) = push_bit (7 - idx mod 8) 1" by simp
  have "b AND push_bit k 1 \<noteq> 0 \<longleftrightarrow> bit b k" for b :: u8 and k :: nat
    by (metis and_exp_eq_0_iff_not_bit push_bit_of_1)
  moreover have "rd MASK_BIT (idx mod 8) = Ok (push_bit (7 - idx mod 8) 1)"
    unfolding m [symmetric] by (simp add: MASK_BIT_def)
  ultimately show ?thesis using i by (simp only: GetBit_def bit_at_def rd_ok rbind.simps less_mult_imp_div_less mult.commute)
qed

lemma column_bit:
  "(take_bit 6 c XOR 7) div 8 = c mod 64 div (8 :: nat)" "(take_bit 6 c XOR 7) mod 8 = 7 - c mod (8 :: nat)"
proof -
  have t: "take_bit 6 c = c mod 64" by (simp add: take_bit_eq_mod)
  have "\<forall>x\<in>set [0..<64]. (x XOR 7) div 8 = x div 8 \<and> (x XOR 7) mod 8 = 7 - x mod (8 :: nat)" by code_simp
  then have "(c mod 64 XOR 7) div 8 = c mod 64 div 8 \<and> (c mod 64 XOR 7) mod 8 = 7 - c mod 64 mod 8" by simp
  moreover have "c mod 64 mod 8 = c mod 8" by (simp add: mod_mod_cancel)
  ultimately show "(take_bit 6 c XOR 7) div 8 = c mod 64 div (8 :: nat)" "(take_bit 6 c XOR 7) mod 8 = 7 - c mod (8 :: nat)"
    unfolding t by simp_all
qed

lemma div_64_8: "x div 64 * 8 + x mod 64 div 8 = x div (8 :: nat)"
proof -
  have "(x mod 64 + 8 * (x div 64 * 8)) div 8 = x div 64 * 8 + x mod 64 div 8" by (rule div_mult_self2) simp
  moreover have "x mod 64 + 8 * (x div 64 * 8) = x" using mod_mult_div_eq [of x 64] by linarith
  ultimately show ?thesis by argo
qed

lemma bytes64_index: "bytes64 ms = concat (map (\<lambda>i. le_bytes 8 (ms ! i)) [0..<length ms])"
proof -
  have "map (le_bytes 8) ms = map (\<lambda>i. le_bytes 8 (ms ! i)) [0..<length ms]" by (rule nth_equalityI) simp_all
  then show ?thesis unfolding bytes64_def by (rule arg_cong)
qed

lemma length_bytes64 [simp]: "length (bytes64 ms) = 8 * length ms"
  unfolding bytes64_index by (subst length_concat_same [where n = 8]) simp_all

lemma words64_bit:
  assumes "length v = 8 * N" and "idx < 64 * N"
  shows "bit (words64 v ! (idx div 64)) (take_bit 6 idx XOR 7) = bit_at v idx"
proof -
  have w: "idx div 64 < N" using assms by (simp add: less_mult_imp_div_less mult.commute)
  have l: "length (chunk 8 v (idx div 64)) = 8" using assms w by (simp add: mult.commute)
  have b: "idx mod 64 div 8 < 8" by (simp add: less_mult_imp_div_less)
  have "idx div 64 * 8 + idx mod 64 div 8 = idx div 8" by (rule div_64_8)
  then have "chunk 8 v (idx div 64) ! (idx mod 64 div 8) = v ! (idx div 8)"
    using b assms(1) w by (simp add: chunk_def)
  then show ?thesis using assms w l b column_bit_less [of idx]
    by (simp add: words64_def bit_le_word column_bit bit_at_def)
qed

lemma words64_bytes64: "words64 (bytes64 ms) = ms"
proof (rule nth_equalityI)
  have l: "length (bytes64 ms) = length ms * 8" by simp
  then show "length (words64 (bytes64 ms)) = length ms" by (simp add: words64_def)
  fix i assume "i < length (words64 (bytes64 ms))"
  then have i: "i < length ms" using l by (simp add: words64_def)
  then have "chunk 8 (bytes64 ms) i = le_bytes 8 (ms ! i)"
    unfolding bytes64_index by (rule chunk_concat [rotated]) simp
  then show "words64 (bytes64 ms) ! i = ms ! i" using i l by (simp add: words64_def le_word_bytes)
qed

lemma cell_bit_at:
  assumes "length v = 8 * (R * offset)" and "r < R" and "c < 64 * offset"
  shows "cell (words64 v) offset r c = bit_at v (r * (64 * offset) + c)"
proof -
  let ?idx = "r * (64 * offset) + c"
  have "?idx < R * (64 * offset)" by (rule code_less [OF assms(2,3)])
  then have lt: "?idx < 64 * (R * offset)" by simp
  have e: "?idx = c + 64 * (r * offset)" by simp
  have "?idx div 64 = r * offset + c div 64" "take_bit 6 ?idx = take_bit 6 c"
    unfolding e take_bit_eq_mod by simp_all
  then show ?thesis using words64_bit [OF assms(1) lt] by (simp add: cell_def)
qed

lemma ceil_log2_power: "0 < k \<Longrightarrow> ceil_log2 (2 ^ k) = k"
proof -
  assume k: "0 < k"
  have "targetlevel (2 ^ k) \<le> k" "k < Suc (targetlevel (2 ^ k))"
    using targetlevel_bounds [of "2 ^ k"] by (auto intro: power_le_imp_le_exp [of 2] power_less_imp_less_exp [of 2])
  then have "targetlevel (2 ^ k) = k" by simp
  then show ?thesis using k by (simp add: ceil_log2_def)
qed

lemma EklundhBitTranspose_ok:
  assumes k: "6 \<le> k" and n: "0 < n" and v: "8 * length v = 2 ^ k * (n * 2 ^ k)"
  shows "\<exists>v'. EklundhBitTranspose (2 ^ k) (n * 2 ^ k) v = Ok v' \<and> length v' = length v \<and>
    (\<forall>r<2 ^ k. \<forall>c<n * 2 ^ k. bit_at v' (c * 2 ^ k + r) = bit_at v (r * (n * 2 ^ k) + c))"
proof -
  let ?z = "2 ^ (k - 6) :: nat" and ?R = "2 ^ k :: nat"
  define offset where "offset = n * ?z"
  have z: "?R = 64 * ?z"
  proof -
    have "?R = 2 ^ 6 * ?z" by (metis k le_add_diff_inverse power_add)
    then show ?thesis by simp
  qed
  have cols: "n * ?R = 64 * offset" by (simp add: offset_def z)
  then have off: "n * ?R div 8 div 8 = offset" by simp
  have lv: "length v = 8 * (?R * offset)" using v cols by simp
  then have lm: "length (words64 v) = ?R * offset" by (simp add: words64_def)
  have log: "ceil_log2 ?R = k" using k by (simp add: ceil_log2_power)
  obtain m1 where m1: "rbind (rfold (bit_round ?R offset) [0..<6] (words64 v)) (rfold (word_round ?R offset) [6..<k]) = Ok m1"
    "rounds_done k ?R offset (words64 v) m1"
    using all_rounds_ok [OF k n offset_def lm] by blast
  have lm1: "length m1 = ?R * offset" using m1(2) lm by (simp add: rounds_done_def)
  have swapped: "cell m1 offset r (i * ?R + c) = bit_at v (c * (n * ?R) + (i * ?R + r))" if r: "r < ?R" "c < ?R" "i < n" for r c i
  proof -
    have lt: "i * ?R + c < 64 * offset" "i * ?R + r < 64 * offset" using code_less r cols by metis+
    have "cell m1 offset r (i * ?R + c) = cell (words64 v) offset c (i * ?R + r)"
      using m1(2) r(1) lt mix_all [OF r(1), of "i * ?R + c"] div_code [OF r(2), of i] by (simp add: rounds_done_def)
    then show ?thesis using cell_bit_at [OF lv r(2) lt(2)] cols by simp
  qed
  have "\<exists>m2. (if n * ?R > ?R then block_rows ?R (n * ?R) m1 else Ok m1) = Ok m2 \<and> length m2 = length m1 \<and>
    (\<forall>i<n. \<forall>j<?R. \<forall>c<?R. cell m2 ?z (i * ?R + j) c = cell m1 offset j (i * ?R + c))"
  proof (cases "n = 1")
    case True
    then show ?thesis by (simp add: offset_def)
  next
    case False
    obtain m2 where m2: "block_rows ?R (n * ?R) m1 = Ok m2" "length m2 = length m1"
      "\<forall>i<n. \<forall>j<?R. \<forall>x<?z. m2 ! ((i * ?R + j) * ?z + x) = m1 ! (i * ?z + j * offset + x)"
      using block_rows_ok [OF k offset_def lm1] by blast
    have "cell m2 ?z (i * ?R + j) c = cell m1 offset j (i * ?R + c)" if "i < n" "j < ?R" "c < ?R" for i j c
    proof -
      have "c div 64 < ?z" using that(3) z by (simp add: less_mult_imp_div_less)
      moreover have "(i * ?R + c) div 64 = i * ?z + c div 64" "take_bit 6 (i * ?R + c) = take_bit 6 c"
        unfolding z by (simp_all add: take_bit_eq_mod mult.left_commute [of i])
      ultimately show ?thesis using m2(3) that by (simp add: cell_def ac_simps)
    qed
    then show ?thesis using m2 n False by auto
  qed
  then obtain m2 where m2: "(if n * ?R > ?R then block_rows ?R (n * ?R) m1 else Ok m1) = Ok m2" "length m2 = length m1"
    "\<forall>i<n. \<forall>j<?R. \<forall>c<?R. cell m2 ?z (i * ?R + j) c = cell m1 offset j (i * ?R + c)" by blast
  let ?v = "bytes64 m2"
  have "EklundhBitTranspose ?R (n * ?R) v = Ok ?v"
    using m1(1) m2(1) unfolding EklundhBitTranspose_def Let_def off log LOG2_REGISTER_SIZE_def
    by (cases "rfold (bit_round ?R offset) [0..<6] (words64 v)") simp_all
  moreover have lv': "length ?v = 8 * ((n * ?R) * ?z)" using m2(2) lm1 by (simp add: offset_def)
  moreover have "bit_at ?v (c * ?R + r) = bit_at v (r * (n * ?R) + c)" if r: "r < ?R" "c < n * ?R" for r c
  proof -
    have c: "c div ?R < n" "c mod ?R < ?R" "c div ?R * ?R + c mod ?R = c"
      using r(2) less_mult_imp_div_less [of c n ?R] by (auto simp only: div_mult_mod_eq mod_less_divisor zero_less_power zero_less_numeral)
    have "bit_at ?v (c * (64 * ?z) + r) = cell (words64 ?v) ?z c r"
      using cell_bit_at [OF lv' r(2)] r(1) z by simp
    also have "\<dots> = cell m1 offset (c mod ?R) (c div ?R * ?R + r)"
      using m2(3) c r(1) by (metis words64_bytes64)
    also have "\<dots> = bit_at v (r * (n * ?R) + c)" using swapped [OF c(2) r(1) c(1)] c(3) by simp
    finally show ?thesis by (simp only: z)
  qed
  ultimately show ?thesis using lv by (auto simp: offset_def)
qed

section \<open>Longer buffers\<close>

text \<open>The transposition leaves the rest of a longer buffer as it is.\<close>

definition framed :: "('a list \<Rightarrow> 'a list res) \<Rightarrow> bool" where
  "framed f \<longleftrightarrow> (\<forall>m m' post. f m = Ok m' \<longrightarrow> f (m @ post) = Ok (m' @ post))"

lemma framed_rfold: "(\<And>i. framed (f i)) \<Longrightarrow> framed (rfold f is)"
proof (induction "is")
  case (Cons i "is")
  show ?case unfolding framed_def
  proof (intro allI impI)
    fix m m' post assume r: "rfold f (i # is) m = Ok m'"
    then obtain m1 where m1: "f i m = Ok m1" by (cases "f i m") simp_all
    then have "f i (m @ post) = Ok (m1 @ post)" "rfold f is (m1 @ post) = Ok (m' @ post)"
      using Cons.prems [of i] Cons.IH [OF Cons.prems] r by (simp_all add: framed_def)
    then show "rfold f (i # is) (m @ post) = Ok (m' @ post)" by simp
  qed
qed (simp add: framed_def)

lemma framed_pair:
  "framed (\<lambda>m. rbind (rd m a) (\<lambda>x. rbind (rd m b) (\<lambda>y. rbind (wr m a (f x y)) (\<lambda>m. wr m b (g x y)))))"
  by (auto simp: framed_def rd_def wr_def nth_append list_update_append split: if_splits)

lemma framed_wr_blk: "framed (\<lambda>m. wr_blk m i row)"
  by (auto simp: framed_def wr_blk_def blit_def split: if_splits)

lemma framed_if: "framed f \<Longrightarrow> framed (\<lambda>m. if P then f m else Ok m)"
  by (simp add: framed_def)

lemma framed_rounds: "framed (bit_round rows offset i)" "framed (word_round rows offset i)"
  unfolding bit_round_def word_round_def Let_def by (intro framed_rfold framed_pair framed_if)+

lemma framed_block_rows: "framed (block_rows rows columns)"
proof -
  have f: "framed (\<lambda>m. rbind r (\<lambda>row. wr_blk m i row))" for r :: "'a list res" and i
    by (cases r) (simp_all add: framed_wr_blk, simp add: framed_def)
  show ?thesis unfolding framed_def
  proof (intro allI impI)
    fix m m' post :: "u64 list" assume r: "block_rows rows columns m = Ok m'"
    let ?N = "rows div 8 * columns div 8"
    have "?N \<le> length m" using r by (auto simp: block_rows_def rd_blk_def split: if_splits)
    then show "block_rows rows columns (m @ post) = Ok (m' @ post)"
      using r unfolding block_rows_def Let_def
      by (auto intro: framed_rfold [OF framed_rfold [OF f], unfolded framed_def, rule_format])
  qed
qed

lemma words64_append: "length v = 8 * N \<Longrightarrow> words64 (v @ w) = words64 v @ words64 w"
proof -
  assume v: "length v = 8 * N"
  have "chunk 8 (v @ w) i = (if i < N then chunk 8 v i else chunk 8 w (i - N))" for i
    using v by (auto simp: chunk_def diff_mult_distrib mult.commute)
  then show ?thesis using v by (intro nth_equalityI) (auto simp: words64_def nth_append)
qed

lemma bytes64_words64: "length v = 8 * N \<Longrightarrow> bytes64 (words64 v) = v"
proof -
  assume v: "length v = 8 * N"
  have "le_bytes 8 (le_word (chunk 8 v i) :: u64) = chunk 8 v i" if "i < N" for i
    using le_bytes_word [of "chunk 8 v i", where ?'a = 64] v that by simp
  then have "bytes64 (words64 v) = concat (map (chunk 8 v) [0..<N])"
    unfolding bytes64_index using v by (intro arg_cong [where f = concat]) (simp add: words64_def)
  then show ?thesis using concat_chunks [of v N 8 "chunk 8 v"] v by simp
qed

lemma EklundhBitTranspose_prefix:
  assumes k: "6 \<le> k" and n: "0 < n" and v: "8 * length v = 2 ^ k * (n * 2 ^ k)" and w: "length w = 8 * N"
  shows "\<exists>v'. EklundhBitTranspose (2 ^ k) (n * 2 ^ k) (v @ w) = Ok (v' @ w) \<and> length v' = length v \<and>
    (\<forall>r<2 ^ k. \<forall>c<n * 2 ^ k. bit_at v' (c * 2 ^ k + r) = bit_at v (r * (n * 2 ^ k) + c))"
proof -
  let ?R = "2 ^ k :: nat"
  obtain v' where v': "EklundhBitTranspose ?R (n * ?R) v = Ok v'" "length v' = length v"
    "\<forall>r<?R. \<forall>c<n * ?R. bit_at v' (c * ?R + r) = bit_at v (r * (n * ?R) + c)"
    using EklundhBitTranspose_ok [OF k n v] by blast
  have "2 ^ 6 * 2 ^ (k - 6) = ?R" by (metis k le_add_diff_inverse power_add)
  then have "8 * length v = 8 * (8 * (2 ^ (k - 6) * (n * ?R)))" using v by (simp add: ac_simps)
  then have l: "length v = 8 * (2 ^ (k - 6) * (n * ?R))" by simp
  obtain m1 m2 m3 where m: "rfold (bit_round ?R (n * ?R div 8 div 8)) [0..<LOG2_REGISTER_SIZE] (words64 v) = Ok m1"
    "rfold (word_round ?R (n * ?R div 8 div 8)) [LOG2_REGISTER_SIZE..<ceil_log2 ?R] m1 = Ok m2"
    "(if n * ?R > ?R then block_rows ?R (n * ?R) m2 else Ok m2) = Ok m3" "bytes64 m3 = v'"
    using v'(1) unfolding EklundhBitTranspose_def Let_def rbind_Ok_iff Inr_inject by (elim exE conjE) (rule that, simp_all)
  note frames = framed_rfold [of "bit_round ?R (n * ?R div 8 div 8)", OF framed_rounds(1)]
    framed_rfold [of "word_round ?R (n * ?R div 8 div 8)", OF framed_rounds(2)] framed_if [OF framed_block_rows]
  have "EklundhBitTranspose ?R (n * ?R) (v @ w) = Ok (bytes64 (m3 @ words64 w))"
    unfolding EklundhBitTranspose_def Let_def words64_append [OF l]
      frames(1) [unfolded framed_def, rule_format, OF m(1)] rbind.simps
      frames(2) [unfolded framed_def, rule_format, OF m(2)]
      frames(3) [unfolded framed_def, rule_format, OF m(3)] by (rule refl)
  moreover have "bytes64 (m3 @ words64 w) = v' @ w" using m(4) bytes64_words64 [OF w] by (simp add: bytes64_def)
  ultimately show ?thesis using v' by metis
qed

section \<open>Properties\<close>

text \<open>C9: \<open>EklundhBitTranspose\<close> transposes: for a matrix whose number of rows is a power of two of at
  least 64 and whose number of columns is a multiple of it, bit \<open>r\<close> of row \<open>c\<close> of the result is bit
  \<open>c\<close> of row \<open>r\<close> of the matrix, as \<open>GetBit\<close> reads them.\<close>

theorem EklundhBitTranspose_transposes:
  assumes "6 \<le> k" and "0 < n" and "8 * length v = 2 ^ k * (n * 2 ^ k)"
  shows "\<exists>v'. EklundhBitTranspose (2 ^ k) (n * 2 ^ k) v = Ok v' \<and> length v' = length v \<and>
    (\<forall>r<2 ^ k. \<forall>c<n * 2 ^ k. GetBit v' (c * 2 ^ k + r) = GetBit v (r * (n * 2 ^ k) + c))"
proof -
  let ?R = "2 ^ k :: nat"
  obtain v' where v': "EklundhBitTranspose ?R (n * ?R) v = Ok v'" "length v' = length v"
    "\<forall>r<?R. \<forall>c<n * ?R. bit_at v' (c * ?R + r) = bit_at v (r * (n * ?R) + c)"
    using EklundhBitTranspose_ok [OF assms] by blast
  have "GetBit v' (c * ?R + r) = GetBit v (r * (n * ?R) + c)" if "r < ?R" "c < n * ?R" for r c
  proof -
    have "c * ?R + r < 8 * length v'" "r * (n * ?R) + c < 8 * length v"
      using code_less [OF that(2,1)] code_less [OF that] assms(3) v'(2) by (simp_all add: ac_simps)
    then show ?thesis using v'(3) that by (simp add: GetBit_bit_at)
  qed
  then show ?thesis using v' by blast
qed

theorem EklundhBitTranspose_transposes_witness:
  "\<exists>v'. EklundhBitTranspose 64 128 (replicate 512 3 @ replicate 512 5) = Ok v' \<and>
    GetBit v' (127 * 64 + 63) = GetBit (replicate 512 3 @ replicate 512 5) (63 * 128 + 127) \<and>
    GetBit v' (64 * 3 + 1) = GetBit (replicate 512 3 @ replicate 512 5) (1 * 128 + 3)"
proof -
  have e: "(2::nat) ^ 6 = 64" by simp
  have "\<exists>v'. EklundhBitTranspose (2 ^ 6) (2 * 2 ^ 6) (replicate 512 3 @ replicate 512 5) = Ok v' \<and>
    length v' = length (replicate 512 (3::u8) @ replicate 512 5) \<and> (\<forall>r<2 ^ 6. \<forall>c<2 * 2 ^ 6.
      GetBit v' (c * 2 ^ 6 + r) = GetBit (replicate 512 3 @ replicate 512 5) (r * (2 * 2 ^ 6) + c))"
    by (rule EklundhBitTranspose_transposes) simp_all
  then obtain v' where v': "EklundhBitTranspose 64 128 (replicate 512 3 @ replicate 512 5) = Ok v'"
    "\<forall>r<64. \<forall>c<128. GetBit v' (c * 64 + r) = GetBit (replicate 512 3 @ replicate 512 5) (r * 128 + c)"
    unfolding e by (simp only: mult.commute [of 2 64]) auto
  have "GetBit v' (127 * 64 + 63) = GetBit (replicate 512 3 @ replicate 512 5) (63 * 128 + 127)"
    "GetBit v' (3 * 64 + 1) = GetBit (replicate 512 3 @ replicate 512 5) (1 * 128 + 3)"
    by (rule v'(2) [rule_format]; simp)+
  then show ?thesis using v'(1) by (metis mult.commute)
qed

end
