(* ===== verification/CodeWords.thy ===== *)
theory CodeWords
  imports Transpose
begin

text \<open>
  The code of the 1-out-of-256 OT extension: the table \<open>CODE_MATRIX\<close> and \<open>readCodeWords\<close> of
  \<open>src/PSI/src/util/codewords.h\<close>, and the constants of \<open>src/PSI/src/util/crypto/crypto.h\<close>. The table is
  the Walsh-Hadamard matrix; two code words differ in half of their 256 bits.
\<close>

section \<open>The table\<close>

definition m_nCodeWordBits :: nat where "m_nCodeWordBits = 256"

definition m_nCodeWordBytes :: nat where "m_nCodeWordBytes = m_nCodeWordBits div 8"

definition CODE_MATRIX :: "u32 list list" where
  "CODE_MATRIX =
    [[0x00000000, 0x00000000, 0x00000000, 0x00000000, 0x00000000, 0x00000000, 0x00000000, 0x00000000],
     [0xaaaaaaaa, 0xaaaaaaaa, 0xaaaaaaaa, 0xaaaaaaaa, 0xaaaaaaaa, 0xaaaaaaaa, 0xaaaaaaaa, 0xaaaaaaaa],
     [0xcccccccc, 0xcccccccc, 0xcccccccc, 0xcccccccc, 0xcccccccc, 0xcccccccc, 0xcccccccc, 0xcccccccc],
     [0x66666666, 0x66666666, 0x66666666, 0x66666666, 0x66666666, 0x66666666, 0x66666666, 0x66666666],
     [0xf0f0f0f0, 0xf0f0f0f0, 0xf0f0f0f0, 0xf0f0f0f0, 0xf0f0f0f0, 0xf0f0f0f0, 0xf0f0f0f0, 0xf0f0f0f0],
     [0x5a5a5a5a, 0x5a5a5a5a, 0x5a5a5a5a, 0x5a5a5a5a, 0x5a5a5a5a, 0x5a5a5a5a, 0x5a5a5a5a, 0x5a5a5a5a],
     [0x3c3c3c3c, 0x3c3c3c3c, 0x3c3c3c3c, 0x3c3c3c3c, 0x3c3c3c3c, 0x3c3c3c3c, 0x3c3c3c3c, 0x3c3c3c3c],
     [0x96969696, 0x96969696, 0x96969696, 0x96969696, 0x96969696, 0x96969696, 0x96969696, 0x96969696],
     [0xff00ff00, 0xff00ff00, 0xff00ff00, 0xff00ff00, 0xff00ff00, 0xff00ff00, 0xff00ff00, 0xff00ff00],
     [0x55aa55aa, 0x55aa55aa, 0x55aa55aa, 0x55aa55aa, 0x55aa55aa, 0x55aa55aa, 0x55aa55aa, 0x55aa55aa],
     [0x33cc33cc, 0x33cc33cc, 0x33cc33cc, 0x33cc33cc, 0x33cc33cc, 0x33cc33cc, 0x33cc33cc, 0x33cc33cc],
     [0x99669966, 0x99669966, 0x99669966, 0x99669966, 0x99669966, 0x99669966, 0x99669966, 0x99669966],
     [0x0ff00ff0, 0x0ff00ff0, 0x0ff00ff0, 0x0ff00ff0, 0x0ff00ff0, 0x0ff00ff0, 0x0ff00ff0, 0x0ff00ff0],
     [0xa55aa55a, 0xa55aa55a, 0xa55aa55a, 0xa55aa55a, 0xa55aa55a, 0xa55aa55a, 0xa55aa55a, 0xa55aa55a],
     [0xc33cc33c, 0xc33cc33c, 0xc33cc33c, 0xc33cc33c, 0xc33cc33c, 0xc33cc33c, 0xc33cc33c, 0xc33cc33c],
     [0x69966996, 0x69966996, 0x69966996, 0x69966996, 0x69966996, 0x69966996, 0x69966996, 0x69966996],
     [0xffff0000, 0xffff0000, 0xffff0000, 0xffff0000, 0xffff0000, 0xffff0000, 0xffff0000, 0xffff0000],
     [0x5555aaaa, 0x5555aaaa, 0x5555aaaa, 0x5555aaaa, 0x5555aaaa, 0x5555aaaa, 0x5555aaaa, 0x5555aaaa],
     [0x3333cccc, 0x3333cccc, 0x3333cccc, 0x3333cccc, 0x3333cccc, 0x3333cccc, 0x3333cccc, 0x3333cccc],
     [0x99996666, 0x99996666, 0x99996666, 0x99996666, 0x99996666, 0x99996666, 0x99996666, 0x99996666],
     [0x0f0ff0f0, 0x0f0ff0f0, 0x0f0ff0f0, 0x0f0ff0f0, 0x0f0ff0f0, 0x0f0ff0f0, 0x0f0ff0f0, 0x0f0ff0f0],
     [0xa5a55a5a, 0xa5a55a5a, 0xa5a55a5a, 0xa5a55a5a, 0xa5a55a5a, 0xa5a55a5a, 0xa5a55a5a, 0xa5a55a5a],
     [0xc3c33c3c, 0xc3c33c3c, 0xc3c33c3c, 0xc3c33c3c, 0xc3c33c3c, 0xc3c33c3c, 0xc3c33c3c, 0xc3c33c3c],
     [0x69699696, 0x69699696, 0x69699696, 0x69699696, 0x69699696, 0x69699696, 0x69699696, 0x69699696],
     [0x00ffff00, 0x00ffff00, 0x00ffff00, 0x00ffff00, 0x00ffff00, 0x00ffff00, 0x00ffff00, 0x00ffff00],
     [0xaa5555aa, 0xaa5555aa, 0xaa5555aa, 0xaa5555aa, 0xaa5555aa, 0xaa5555aa, 0xaa5555aa, 0xaa5555aa],
     [0xcc3333cc, 0xcc3333cc, 0xcc3333cc, 0xcc3333cc, 0xcc3333cc, 0xcc3333cc, 0xcc3333cc, 0xcc3333cc],
     [0x66999966, 0x66999966, 0x66999966, 0x66999966, 0x66999966, 0x66999966, 0x66999966, 0x66999966],
     [0xf00f0ff0, 0xf00f0ff0, 0xf00f0ff0, 0xf00f0ff0, 0xf00f0ff0, 0xf00f0ff0, 0xf00f0ff0, 0xf00f0ff0],
     [0x5aa5a55a, 0x5aa5a55a, 0x5aa5a55a, 0x5aa5a55a, 0x5aa5a55a, 0x5aa5a55a, 0x5aa5a55a, 0x5aa5a55a],
     [0x3cc3c33c, 0x3cc3c33c, 0x3cc3c33c, 0x3cc3c33c, 0x3cc3c33c, 0x3cc3c33c, 0x3cc3c33c, 0x3cc3c33c],
     [0x96696996, 0x96696996, 0x96696996, 0x96696996, 0x96696996, 0x96696996, 0x96696996, 0x96696996],
     [0xffffffff, 0x00000000, 0xffffffff, 0x00000000, 0xffffffff, 0x00000000, 0xffffffff, 0x00000000],
     [0x55555555, 0xaaaaaaaa, 0x55555555, 0xaaaaaaaa, 0x55555555, 0xaaaaaaaa, 0x55555555, 0xaaaaaaaa],
     [0x33333333, 0xcccccccc, 0x33333333, 0xcccccccc, 0x33333333, 0xcccccccc, 0x33333333, 0xcccccccc],
     [0x99999999, 0x66666666, 0x99999999, 0x66666666, 0x99999999, 0x66666666, 0x99999999, 0x66666666],
     [0x0f0f0f0f, 0xf0f0f0f0, 0x0f0f0f0f, 0xf0f0f0f0, 0x0f0f0f0f, 0xf0f0f0f0, 0x0f0f0f0f, 0xf0f0f0f0],
     [0xa5a5a5a5, 0x5a5a5a5a, 0xa5a5a5a5, 0x5a5a5a5a, 0xa5a5a5a5, 0x5a5a5a5a, 0xa5a5a5a5, 0x5a5a5a5a],
     [0xc3c3c3c3, 0x3c3c3c3c, 0xc3c3c3c3, 0x3c3c3c3c, 0xc3c3c3c3, 0x3c3c3c3c, 0xc3c3c3c3, 0x3c3c3c3c],
     [0x69696969, 0x96969696, 0x69696969, 0x96969696, 0x69696969, 0x96969696, 0x69696969, 0x96969696],
     [0x00ff00ff, 0xff00ff00, 0x00ff00ff, 0xff00ff00, 0x00ff00ff, 0xff00ff00, 0x00ff00ff, 0xff00ff00],
     [0xaa55aa55, 0x55aa55aa, 0xaa55aa55, 0x55aa55aa, 0xaa55aa55, 0x55aa55aa, 0xaa55aa55, 0x55aa55aa],
     [0xcc33cc33, 0x33cc33cc, 0xcc33cc33, 0x33cc33cc, 0xcc33cc33, 0x33cc33cc, 0xcc33cc33, 0x33cc33cc],
     [0x66996699, 0x99669966, 0x66996699, 0x99669966, 0x66996699, 0x99669966, 0x66996699, 0x99669966],
     [0xf00ff00f, 0x0ff00ff0, 0xf00ff00f, 0x0ff00ff0, 0xf00ff00f, 0x0ff00ff0, 0xf00ff00f, 0x0ff00ff0],
     [0x5aa55aa5, 0xa55aa55a, 0x5aa55aa5, 0xa55aa55a, 0x5aa55aa5, 0xa55aa55a, 0x5aa55aa5, 0xa55aa55a],
     [0x3cc33cc3, 0xc33cc33c, 0x3cc33cc3, 0xc33cc33c, 0x3cc33cc3, 0xc33cc33c, 0x3cc33cc3, 0xc33cc33c],
     [0x96699669, 0x69966996, 0x96699669, 0x69966996, 0x96699669, 0x69966996, 0x96699669, 0x69966996],
     [0x0000ffff, 0xffff0000, 0x0000ffff, 0xffff0000, 0x0000ffff, 0xffff0000, 0x0000ffff, 0xffff0000],
     [0xaaaa5555, 0x5555aaaa, 0xaaaa5555, 0x5555aaaa, 0xaaaa5555, 0x5555aaaa, 0xaaaa5555, 0x5555aaaa],
     [0xcccc3333, 0x3333cccc, 0xcccc3333, 0x3333cccc, 0xcccc3333, 0x3333cccc, 0xcccc3333, 0x3333cccc],
     [0x66669999, 0x99996666, 0x66669999, 0x99996666, 0x66669999, 0x99996666, 0x66669999, 0x99996666],
     [0xf0f00f0f, 0x0f0ff0f0, 0xf0f00f0f, 0x0f0ff0f0, 0xf0f00f0f, 0x0f0ff0f0, 0xf0f00f0f, 0x0f0ff0f0],
     [0x5a5aa5a5, 0xa5a55a5a, 0x5a5aa5a5, 0xa5a55a5a, 0x5a5aa5a5, 0xa5a55a5a, 0x5a5aa5a5, 0xa5a55a5a],
     [0x3c3cc3c3, 0xc3c33c3c, 0x3c3cc3c3, 0xc3c33c3c, 0x3c3cc3c3, 0xc3c33c3c, 0x3c3cc3c3, 0xc3c33c3c],
     [0x96966969, 0x69699696, 0x96966969, 0x69699696, 0x96966969, 0x69699696, 0x96966969, 0x69699696],
     [0xff0000ff, 0x00ffff00, 0xff0000ff, 0x00ffff00, 0xff0000ff, 0x00ffff00, 0xff0000ff, 0x00ffff00],
     [0x55aaaa55, 0xaa5555aa, 0x55aaaa55, 0xaa5555aa, 0x55aaaa55, 0xaa5555aa, 0x55aaaa55, 0xaa5555aa],
     [0x33cccc33, 0xcc3333cc, 0x33cccc33, 0xcc3333cc, 0x33cccc33, 0xcc3333cc, 0x33cccc33, 0xcc3333cc],
     [0x99666699, 0x66999966, 0x99666699, 0x66999966, 0x99666699, 0x66999966, 0x99666699, 0x66999966],
     [0x0ff0f00f, 0xf00f0ff0, 0x0ff0f00f, 0xf00f0ff0, 0x0ff0f00f, 0xf00f0ff0, 0x0ff0f00f, 0xf00f0ff0],
     [0xa55a5aa5, 0x5aa5a55a, 0xa55a5aa5, 0x5aa5a55a, 0xa55a5aa5, 0x5aa5a55a, 0xa55a5aa5, 0x5aa5a55a],
     [0xc33c3cc3, 0x3cc3c33c, 0xc33c3cc3, 0x3cc3c33c, 0xc33c3cc3, 0x3cc3c33c, 0xc33c3cc3, 0x3cc3c33c],
     [0x69969669, 0x96696996, 0x69969669, 0x96696996, 0x69969669, 0x96696996, 0x69969669, 0x96696996],
     [0xffffffff, 0xffffffff, 0x00000000, 0x00000000, 0xffffffff, 0xffffffff, 0x00000000, 0x00000000],
     [0x55555555, 0x55555555, 0xaaaaaaaa, 0xaaaaaaaa, 0x55555555, 0x55555555, 0xaaaaaaaa, 0xaaaaaaaa],
     [0x33333333, 0x33333333, 0xcccccccc, 0xcccccccc, 0x33333333, 0x33333333, 0xcccccccc, 0xcccccccc],
     [0x99999999, 0x99999999, 0x66666666, 0x66666666, 0x99999999, 0x99999999, 0x66666666, 0x66666666],
     [0x0f0f0f0f, 0x0f0f0f0f, 0xf0f0f0f0, 0xf0f0f0f0, 0x0f0f0f0f, 0x0f0f0f0f, 0xf0f0f0f0, 0xf0f0f0f0],
     [0xa5a5a5a5, 0xa5a5a5a5, 0x5a5a5a5a, 0x5a5a5a5a, 0xa5a5a5a5, 0xa5a5a5a5, 0x5a5a5a5a, 0x5a5a5a5a],
     [0xc3c3c3c3, 0xc3c3c3c3, 0x3c3c3c3c, 0x3c3c3c3c, 0xc3c3c3c3, 0xc3c3c3c3, 0x3c3c3c3c, 0x3c3c3c3c],
     [0x69696969, 0x69696969, 0x96969696, 0x96969696, 0x69696969, 0x69696969, 0x96969696, 0x96969696],
     [0x00ff00ff, 0x00ff00ff, 0xff00ff00, 0xff00ff00, 0x00ff00ff, 0x00ff00ff, 0xff00ff00, 0xff00ff00],
     [0xaa55aa55, 0xaa55aa55, 0x55aa55aa, 0x55aa55aa, 0xaa55aa55, 0xaa55aa55, 0x55aa55aa, 0x55aa55aa],
     [0xcc33cc33, 0xcc33cc33, 0x33cc33cc, 0x33cc33cc, 0xcc33cc33, 0xcc33cc33, 0x33cc33cc, 0x33cc33cc],
     [0x66996699, 0x66996699, 0x99669966, 0x99669966, 0x66996699, 0x66996699, 0x99669966, 0x99669966],
     [0xf00ff00f, 0xf00ff00f, 0x0ff00ff0, 0x0ff00ff0, 0xf00ff00f, 0xf00ff00f, 0x0ff00ff0, 0x0ff00ff0],
     [0x5aa55aa5, 0x5aa55aa5, 0xa55aa55a, 0xa55aa55a, 0x5aa55aa5, 0x5aa55aa5, 0xa55aa55a, 0xa55aa55a],
     [0x3cc33cc3, 0x3cc33cc3, 0xc33cc33c, 0xc33cc33c, 0x3cc33cc3, 0x3cc33cc3, 0xc33cc33c, 0xc33cc33c],
     [0x96699669, 0x96699669, 0x69966996, 0x69966996, 0x96699669, 0x96699669, 0x69966996, 0x69966996],
     [0x0000ffff, 0x0000ffff, 0xffff0000, 0xffff0000, 0x0000ffff, 0x0000ffff, 0xffff0000, 0xffff0000],
     [0xaaaa5555, 0xaaaa5555, 0x5555aaaa, 0x5555aaaa, 0xaaaa5555, 0xaaaa5555, 0x5555aaaa, 0x5555aaaa],
     [0xcccc3333, 0xcccc3333, 0x3333cccc, 0x3333cccc, 0xcccc3333, 0xcccc3333, 0x3333cccc, 0x3333cccc],
     [0x66669999, 0x66669999, 0x99996666, 0x99996666, 0x66669999, 0x66669999, 0x99996666, 0x99996666],
     [0xf0f00f0f, 0xf0f00f0f, 0x0f0ff0f0, 0x0f0ff0f0, 0xf0f00f0f, 0xf0f00f0f, 0x0f0ff0f0, 0x0f0ff0f0],
     [0x5a5aa5a5, 0x5a5aa5a5, 0xa5a55a5a, 0xa5a55a5a, 0x5a5aa5a5, 0x5a5aa5a5, 0xa5a55a5a, 0xa5a55a5a],
     [0x3c3cc3c3, 0x3c3cc3c3, 0xc3c33c3c, 0xc3c33c3c, 0x3c3cc3c3, 0x3c3cc3c3, 0xc3c33c3c, 0xc3c33c3c],
     [0x96966969, 0x96966969, 0x69699696, 0x69699696, 0x96966969, 0x96966969, 0x69699696, 0x69699696],
     [0xff0000ff, 0xff0000ff, 0x00ffff00, 0x00ffff00, 0xff0000ff, 0xff0000ff, 0x00ffff00, 0x00ffff00],
     [0x55aaaa55, 0x55aaaa55, 0xaa5555aa, 0xaa5555aa, 0x55aaaa55, 0x55aaaa55, 0xaa5555aa, 0xaa5555aa],
     [0x33cccc33, 0x33cccc33, 0xcc3333cc, 0xcc3333cc, 0x33cccc33, 0x33cccc33, 0xcc3333cc, 0xcc3333cc],
     [0x99666699, 0x99666699, 0x66999966, 0x66999966, 0x99666699, 0x99666699, 0x66999966, 0x66999966],
     [0x0ff0f00f, 0x0ff0f00f, 0xf00f0ff0, 0xf00f0ff0, 0x0ff0f00f, 0x0ff0f00f, 0xf00f0ff0, 0xf00f0ff0],
     [0xa55a5aa5, 0xa55a5aa5, 0x5aa5a55a, 0x5aa5a55a, 0xa55a5aa5, 0xa55a5aa5, 0x5aa5a55a, 0x5aa5a55a],
     [0xc33c3cc3, 0xc33c3cc3, 0x3cc3c33c, 0x3cc3c33c, 0xc33c3cc3, 0xc33c3cc3, 0x3cc3c33c, 0x3cc3c33c],
     [0x69969669, 0x69969669, 0x96696996, 0x96696996, 0x69969669, 0x69969669, 0x96696996, 0x96696996],
     [0x00000000, 0xffffffff, 0xffffffff, 0x00000000, 0x00000000, 0xffffffff, 0xffffffff, 0x00000000],
     [0xaaaaaaaa, 0x55555555, 0x55555555, 0xaaaaaaaa, 0xaaaaaaaa, 0x55555555, 0x55555555, 0xaaaaaaaa],
     [0xcccccccc, 0x33333333, 0x33333333, 0xcccccccc, 0xcccccccc, 0x33333333, 0x33333333, 0xcccccccc],
     [0x66666666, 0x99999999, 0x99999999, 0x66666666, 0x66666666, 0x99999999, 0x99999999, 0x66666666],
     [0xf0f0f0f0, 0x0f0f0f0f, 0x0f0f0f0f, 0xf0f0f0f0, 0xf0f0f0f0, 0x0f0f0f0f, 0x0f0f0f0f, 0xf0f0f0f0],
     [0x5a5a5a5a, 0xa5a5a5a5, 0xa5a5a5a5, 0x5a5a5a5a, 0x5a5a5a5a, 0xa5a5a5a5, 0xa5a5a5a5, 0x5a5a5a5a],
     [0x3c3c3c3c, 0xc3c3c3c3, 0xc3c3c3c3, 0x3c3c3c3c, 0x3c3c3c3c, 0xc3c3c3c3, 0xc3c3c3c3, 0x3c3c3c3c],
     [0x96969696, 0x69696969, 0x69696969, 0x96969696, 0x96969696, 0x69696969, 0x69696969, 0x96969696],
     [0xff00ff00, 0x00ff00ff, 0x00ff00ff, 0xff00ff00, 0xff00ff00, 0x00ff00ff, 0x00ff00ff, 0xff00ff00],
     [0x55aa55aa, 0xaa55aa55, 0xaa55aa55, 0x55aa55aa, 0x55aa55aa, 0xaa55aa55, 0xaa55aa55, 0x55aa55aa],
     [0x33cc33cc, 0xcc33cc33, 0xcc33cc33, 0x33cc33cc, 0x33cc33cc, 0xcc33cc33, 0xcc33cc33, 0x33cc33cc],
     [0x99669966, 0x66996699, 0x66996699, 0x99669966, 0x99669966, 0x66996699, 0x66996699, 0x99669966],
     [0x0ff00ff0, 0xf00ff00f, 0xf00ff00f, 0x0ff00ff0, 0x0ff00ff0, 0xf00ff00f, 0xf00ff00f, 0x0ff00ff0],
     [0xa55aa55a, 0x5aa55aa5, 0x5aa55aa5, 0xa55aa55a, 0xa55aa55a, 0x5aa55aa5, 0x5aa55aa5, 0xa55aa55a],
     [0xc33cc33c, 0x3cc33cc3, 0x3cc33cc3, 0xc33cc33c, 0xc33cc33c, 0x3cc33cc3, 0x3cc33cc3, 0xc33cc33c],
     [0x69966996, 0x96699669, 0x96699669, 0x69966996, 0x69966996, 0x96699669, 0x96699669, 0x69966996],
     [0xffff0000, 0x0000ffff, 0x0000ffff, 0xffff0000, 0xffff0000, 0x0000ffff, 0x0000ffff, 0xffff0000],
     [0x5555aaaa, 0xaaaa5555, 0xaaaa5555, 0x5555aaaa, 0x5555aaaa, 0xaaaa5555, 0xaaaa5555, 0x5555aaaa],
     [0x3333cccc, 0xcccc3333, 0xcccc3333, 0x3333cccc, 0x3333cccc, 0xcccc3333, 0xcccc3333, 0x3333cccc],
     [0x99996666, 0x66669999, 0x66669999, 0x99996666, 0x99996666, 0x66669999, 0x66669999, 0x99996666],
     [0x0f0ff0f0, 0xf0f00f0f, 0xf0f00f0f, 0x0f0ff0f0, 0x0f0ff0f0, 0xf0f00f0f, 0xf0f00f0f, 0x0f0ff0f0],
     [0xa5a55a5a, 0x5a5aa5a5, 0x5a5aa5a5, 0xa5a55a5a, 0xa5a55a5a, 0x5a5aa5a5, 0x5a5aa5a5, 0xa5a55a5a],
     [0xc3c33c3c, 0x3c3cc3c3, 0x3c3cc3c3, 0xc3c33c3c, 0xc3c33c3c, 0x3c3cc3c3, 0x3c3cc3c3, 0xc3c33c3c],
     [0x69699696, 0x96966969, 0x96966969, 0x69699696, 0x69699696, 0x96966969, 0x96966969, 0x69699696],
     [0x00ffff00, 0xff0000ff, 0xff0000ff, 0x00ffff00, 0x00ffff00, 0xff0000ff, 0xff0000ff, 0x00ffff00],
     [0xaa5555aa, 0x55aaaa55, 0x55aaaa55, 0xaa5555aa, 0xaa5555aa, 0x55aaaa55, 0x55aaaa55, 0xaa5555aa],
     [0xcc3333cc, 0x33cccc33, 0x33cccc33, 0xcc3333cc, 0xcc3333cc, 0x33cccc33, 0x33cccc33, 0xcc3333cc],
     [0x66999966, 0x99666699, 0x99666699, 0x66999966, 0x66999966, 0x99666699, 0x99666699, 0x66999966],
     [0xf00f0ff0, 0x0ff0f00f, 0x0ff0f00f, 0xf00f0ff0, 0xf00f0ff0, 0x0ff0f00f, 0x0ff0f00f, 0xf00f0ff0],
     [0x5aa5a55a, 0xa55a5aa5, 0xa55a5aa5, 0x5aa5a55a, 0x5aa5a55a, 0xa55a5aa5, 0xa55a5aa5, 0x5aa5a55a],
     [0x3cc3c33c, 0xc33c3cc3, 0xc33c3cc3, 0x3cc3c33c, 0x3cc3c33c, 0xc33c3cc3, 0xc33c3cc3, 0x3cc3c33c],
     [0x96696996, 0x69969669, 0x69969669, 0x96696996, 0x96696996, 0x69969669, 0x69969669, 0x96696996],
     [0xffffffff, 0xffffffff, 0xffffffff, 0xffffffff, 0x00000000, 0x00000000, 0x00000000, 0x00000000],
     [0x55555555, 0x55555555, 0x55555555, 0x55555555, 0xaaaaaaaa, 0xaaaaaaaa, 0xaaaaaaaa, 0xaaaaaaaa],
     [0x33333333, 0x33333333, 0x33333333, 0x33333333, 0xcccccccc, 0xcccccccc, 0xcccccccc, 0xcccccccc],
     [0x99999999, 0x99999999, 0x99999999, 0x99999999, 0x66666666, 0x66666666, 0x66666666, 0x66666666],
     [0x0f0f0f0f, 0x0f0f0f0f, 0x0f0f0f0f, 0x0f0f0f0f, 0xf0f0f0f0, 0xf0f0f0f0, 0xf0f0f0f0, 0xf0f0f0f0],
     [0xa5a5a5a5, 0xa5a5a5a5, 0xa5a5a5a5, 0xa5a5a5a5, 0x5a5a5a5a, 0x5a5a5a5a, 0x5a5a5a5a, 0x5a5a5a5a],
     [0xc3c3c3c3, 0xc3c3c3c3, 0xc3c3c3c3, 0xc3c3c3c3, 0x3c3c3c3c, 0x3c3c3c3c, 0x3c3c3c3c, 0x3c3c3c3c],
     [0x69696969, 0x69696969, 0x69696969, 0x69696969, 0x96969696, 0x96969696, 0x96969696, 0x96969696],
     [0x00ff00ff, 0x00ff00ff, 0x00ff00ff, 0x00ff00ff, 0xff00ff00, 0xff00ff00, 0xff00ff00, 0xff00ff00],
     [0xaa55aa55, 0xaa55aa55, 0xaa55aa55, 0xaa55aa55, 0x55aa55aa, 0x55aa55aa, 0x55aa55aa, 0x55aa55aa],
     [0xcc33cc33, 0xcc33cc33, 0xcc33cc33, 0xcc33cc33, 0x33cc33cc, 0x33cc33cc, 0x33cc33cc, 0x33cc33cc],
     [0x66996699, 0x66996699, 0x66996699, 0x66996699, 0x99669966, 0x99669966, 0x99669966, 0x99669966],
     [0xf00ff00f, 0xf00ff00f, 0xf00ff00f, 0xf00ff00f, 0x0ff00ff0, 0x0ff00ff0, 0x0ff00ff0, 0x0ff00ff0],
     [0x5aa55aa5, 0x5aa55aa5, 0x5aa55aa5, 0x5aa55aa5, 0xa55aa55a, 0xa55aa55a, 0xa55aa55a, 0xa55aa55a],
     [0x3cc33cc3, 0x3cc33cc3, 0x3cc33cc3, 0x3cc33cc3, 0xc33cc33c, 0xc33cc33c, 0xc33cc33c, 0xc33cc33c],
     [0x96699669, 0x96699669, 0x96699669, 0x96699669, 0x69966996, 0x69966996, 0x69966996, 0x69966996],
     [0x0000ffff, 0x0000ffff, 0x0000ffff, 0x0000ffff, 0xffff0000, 0xffff0000, 0xffff0000, 0xffff0000],
     [0xaaaa5555, 0xaaaa5555, 0xaaaa5555, 0xaaaa5555, 0x5555aaaa, 0x5555aaaa, 0x5555aaaa, 0x5555aaaa],
     [0xcccc3333, 0xcccc3333, 0xcccc3333, 0xcccc3333, 0x3333cccc, 0x3333cccc, 0x3333cccc, 0x3333cccc],
     [0x66669999, 0x66669999, 0x66669999, 0x66669999, 0x99996666, 0x99996666, 0x99996666, 0x99996666],
     [0xf0f00f0f, 0xf0f00f0f, 0xf0f00f0f, 0xf0f00f0f, 0x0f0ff0f0, 0x0f0ff0f0, 0x0f0ff0f0, 0x0f0ff0f0],
     [0x5a5aa5a5, 0x5a5aa5a5, 0x5a5aa5a5, 0x5a5aa5a5, 0xa5a55a5a, 0xa5a55a5a, 0xa5a55a5a, 0xa5a55a5a],
     [0x3c3cc3c3, 0x3c3cc3c3, 0x3c3cc3c3, 0x3c3cc3c3, 0xc3c33c3c, 0xc3c33c3c, 0xc3c33c3c, 0xc3c33c3c],
     [0x96966969, 0x96966969, 0x96966969, 0x96966969, 0x69699696, 0x69699696, 0x69699696, 0x69699696],
     [0xff0000ff, 0xff0000ff, 0xff0000ff, 0xff0000ff, 0x00ffff00, 0x00ffff00, 0x00ffff00, 0x00ffff00],
     [0x55aaaa55, 0x55aaaa55, 0x55aaaa55, 0x55aaaa55, 0xaa5555aa, 0xaa5555aa, 0xaa5555aa, 0xaa5555aa],
     [0x33cccc33, 0x33cccc33, 0x33cccc33, 0x33cccc33, 0xcc3333cc, 0xcc3333cc, 0xcc3333cc, 0xcc3333cc],
     [0x99666699, 0x99666699, 0x99666699, 0x99666699, 0x66999966, 0x66999966, 0x66999966, 0x66999966],
     [0x0ff0f00f, 0x0ff0f00f, 0x0ff0f00f, 0x0ff0f00f, 0xf00f0ff0, 0xf00f0ff0, 0xf00f0ff0, 0xf00f0ff0],
     [0xa55a5aa5, 0xa55a5aa5, 0xa55a5aa5, 0xa55a5aa5, 0x5aa5a55a, 0x5aa5a55a, 0x5aa5a55a, 0x5aa5a55a],
     [0xc33c3cc3, 0xc33c3cc3, 0xc33c3cc3, 0xc33c3cc3, 0x3cc3c33c, 0x3cc3c33c, 0x3cc3c33c, 0x3cc3c33c],
     [0x69969669, 0x69969669, 0x69969669, 0x69969669, 0x96696996, 0x96696996, 0x96696996, 0x96696996],
     [0x00000000, 0xffffffff, 0x00000000, 0xffffffff, 0xffffffff, 0x00000000, 0xffffffff, 0x00000000],
     [0xaaaaaaaa, 0x55555555, 0xaaaaaaaa, 0x55555555, 0x55555555, 0xaaaaaaaa, 0x55555555, 0xaaaaaaaa],
     [0xcccccccc, 0x33333333, 0xcccccccc, 0x33333333, 0x33333333, 0xcccccccc, 0x33333333, 0xcccccccc],
     [0x66666666, 0x99999999, 0x66666666, 0x99999999, 0x99999999, 0x66666666, 0x99999999, 0x66666666],
     [0xf0f0f0f0, 0x0f0f0f0f, 0xf0f0f0f0, 0x0f0f0f0f, 0x0f0f0f0f, 0xf0f0f0f0, 0x0f0f0f0f, 0xf0f0f0f0],
     [0x5a5a5a5a, 0xa5a5a5a5, 0x5a5a5a5a, 0xa5a5a5a5, 0xa5a5a5a5, 0x5a5a5a5a, 0xa5a5a5a5, 0x5a5a5a5a],
     [0x3c3c3c3c, 0xc3c3c3c3, 0x3c3c3c3c, 0xc3c3c3c3, 0xc3c3c3c3, 0x3c3c3c3c, 0xc3c3c3c3, 0x3c3c3c3c],
     [0x96969696, 0x69696969, 0x96969696, 0x69696969, 0x69696969, 0x96969696, 0x69696969, 0x96969696],
     [0xff00ff00, 0x00ff00ff, 0xff00ff00, 0x00ff00ff, 0x00ff00ff, 0xff00ff00, 0x00ff00ff, 0xff00ff00],
     [0x55aa55aa, 0xaa55aa55, 0x55aa55aa, 0xaa55aa55, 0xaa55aa55, 0x55aa55aa, 0xaa55aa55, 0x55aa55aa],
     [0x33cc33cc, 0xcc33cc33, 0x33cc33cc, 0xcc33cc33, 0xcc33cc33, 0x33cc33cc, 0xcc33cc33, 0x33cc33cc],
     [0x99669966, 0x66996699, 0x99669966, 0x66996699, 0x66996699, 0x99669966, 0x66996699, 0x99669966],
     [0x0ff00ff0, 0xf00ff00f, 0x0ff00ff0, 0xf00ff00f, 0xf00ff00f, 0x0ff00ff0, 0xf00ff00f, 0x0ff00ff0],
     [0xa55aa55a, 0x5aa55aa5, 0xa55aa55a, 0x5aa55aa5, 0x5aa55aa5, 0xa55aa55a, 0x5aa55aa5, 0xa55aa55a],
     [0xc33cc33c, 0x3cc33cc3, 0xc33cc33c, 0x3cc33cc3, 0x3cc33cc3, 0xc33cc33c, 0x3cc33cc3, 0xc33cc33c],
     [0x69966996, 0x96699669, 0x69966996, 0x96699669, 0x96699669, 0x69966996, 0x96699669, 0x69966996],
     [0xffff0000, 0x0000ffff, 0xffff0000, 0x0000ffff, 0x0000ffff, 0xffff0000, 0x0000ffff, 0xffff0000],
     [0x5555aaaa, 0xaaaa5555, 0x5555aaaa, 0xaaaa5555, 0xaaaa5555, 0x5555aaaa, 0xaaaa5555, 0x5555aaaa],
     [0x3333cccc, 0xcccc3333, 0x3333cccc, 0xcccc3333, 0xcccc3333, 0x3333cccc, 0xcccc3333, 0x3333cccc],
     [0x99996666, 0x66669999, 0x99996666, 0x66669999, 0x66669999, 0x99996666, 0x66669999, 0x99996666],
     [0x0f0ff0f0, 0xf0f00f0f, 0x0f0ff0f0, 0xf0f00f0f, 0xf0f00f0f, 0x0f0ff0f0, 0xf0f00f0f, 0x0f0ff0f0],
     [0xa5a55a5a, 0x5a5aa5a5, 0xa5a55a5a, 0x5a5aa5a5, 0x5a5aa5a5, 0xa5a55a5a, 0x5a5aa5a5, 0xa5a55a5a],
     [0xc3c33c3c, 0x3c3cc3c3, 0xc3c33c3c, 0x3c3cc3c3, 0x3c3cc3c3, 0xc3c33c3c, 0x3c3cc3c3, 0xc3c33c3c],
     [0x69699696, 0x96966969, 0x69699696, 0x96966969, 0x96966969, 0x69699696, 0x96966969, 0x69699696],
     [0x00ffff00, 0xff0000ff, 0x00ffff00, 0xff0000ff, 0xff0000ff, 0x00ffff00, 0xff0000ff, 0x00ffff00],
     [0xaa5555aa, 0x55aaaa55, 0xaa5555aa, 0x55aaaa55, 0x55aaaa55, 0xaa5555aa, 0x55aaaa55, 0xaa5555aa],
     [0xcc3333cc, 0x33cccc33, 0xcc3333cc, 0x33cccc33, 0x33cccc33, 0xcc3333cc, 0x33cccc33, 0xcc3333cc],
     [0x66999966, 0x99666699, 0x66999966, 0x99666699, 0x99666699, 0x66999966, 0x99666699, 0x66999966],
     [0xf00f0ff0, 0x0ff0f00f, 0xf00f0ff0, 0x0ff0f00f, 0x0ff0f00f, 0xf00f0ff0, 0x0ff0f00f, 0xf00f0ff0],
     [0x5aa5a55a, 0xa55a5aa5, 0x5aa5a55a, 0xa55a5aa5, 0xa55a5aa5, 0x5aa5a55a, 0xa55a5aa5, 0x5aa5a55a],
     [0x3cc3c33c, 0xc33c3cc3, 0x3cc3c33c, 0xc33c3cc3, 0xc33c3cc3, 0x3cc3c33c, 0xc33c3cc3, 0x3cc3c33c],
     [0x96696996, 0x69969669, 0x96696996, 0x69969669, 0x69969669, 0x96696996, 0x69969669, 0x96696996],
     [0x00000000, 0x00000000, 0xffffffff, 0xffffffff, 0xffffffff, 0xffffffff, 0x00000000, 0x00000000],
     [0xaaaaaaaa, 0xaaaaaaaa, 0x55555555, 0x55555555, 0x55555555, 0x55555555, 0xaaaaaaaa, 0xaaaaaaaa],
     [0xcccccccc, 0xcccccccc, 0x33333333, 0x33333333, 0x33333333, 0x33333333, 0xcccccccc, 0xcccccccc],
     [0x66666666, 0x66666666, 0x99999999, 0x99999999, 0x99999999, 0x99999999, 0x66666666, 0x66666666],
     [0xf0f0f0f0, 0xf0f0f0f0, 0x0f0f0f0f, 0x0f0f0f0f, 0x0f0f0f0f, 0x0f0f0f0f, 0xf0f0f0f0, 0xf0f0f0f0],
     [0x5a5a5a5a, 0x5a5a5a5a, 0xa5a5a5a5, 0xa5a5a5a5, 0xa5a5a5a5, 0xa5a5a5a5, 0x5a5a5a5a, 0x5a5a5a5a],
     [0x3c3c3c3c, 0x3c3c3c3c, 0xc3c3c3c3, 0xc3c3c3c3, 0xc3c3c3c3, 0xc3c3c3c3, 0x3c3c3c3c, 0x3c3c3c3c],
     [0x96969696, 0x96969696, 0x69696969, 0x69696969, 0x69696969, 0x69696969, 0x96969696, 0x96969696],
     [0xff00ff00, 0xff00ff00, 0x00ff00ff, 0x00ff00ff, 0x00ff00ff, 0x00ff00ff, 0xff00ff00, 0xff00ff00],
     [0x55aa55aa, 0x55aa55aa, 0xaa55aa55, 0xaa55aa55, 0xaa55aa55, 0xaa55aa55, 0x55aa55aa, 0x55aa55aa],
     [0x33cc33cc, 0x33cc33cc, 0xcc33cc33, 0xcc33cc33, 0xcc33cc33, 0xcc33cc33, 0x33cc33cc, 0x33cc33cc],
     [0x99669966, 0x99669966, 0x66996699, 0x66996699, 0x66996699, 0x66996699, 0x99669966, 0x99669966],
     [0x0ff00ff0, 0x0ff00ff0, 0xf00ff00f, 0xf00ff00f, 0xf00ff00f, 0xf00ff00f, 0x0ff00ff0, 0x0ff00ff0],
     [0xa55aa55a, 0xa55aa55a, 0x5aa55aa5, 0x5aa55aa5, 0x5aa55aa5, 0x5aa55aa5, 0xa55aa55a, 0xa55aa55a],
     [0xc33cc33c, 0xc33cc33c, 0x3cc33cc3, 0x3cc33cc3, 0x3cc33cc3, 0x3cc33cc3, 0xc33cc33c, 0xc33cc33c],
     [0x69966996, 0x69966996, 0x96699669, 0x96699669, 0x96699669, 0x96699669, 0x69966996, 0x69966996],
     [0xffff0000, 0xffff0000, 0x0000ffff, 0x0000ffff, 0x0000ffff, 0x0000ffff, 0xffff0000, 0xffff0000],
     [0x5555aaaa, 0x5555aaaa, 0xaaaa5555, 0xaaaa5555, 0xaaaa5555, 0xaaaa5555, 0x5555aaaa, 0x5555aaaa],
     [0x3333cccc, 0x3333cccc, 0xcccc3333, 0xcccc3333, 0xcccc3333, 0xcccc3333, 0x3333cccc, 0x3333cccc],
     [0x99996666, 0x99996666, 0x66669999, 0x66669999, 0x66669999, 0x66669999, 0x99996666, 0x99996666],
     [0x0f0ff0f0, 0x0f0ff0f0, 0xf0f00f0f, 0xf0f00f0f, 0xf0f00f0f, 0xf0f00f0f, 0x0f0ff0f0, 0x0f0ff0f0],
     [0xa5a55a5a, 0xa5a55a5a, 0x5a5aa5a5, 0x5a5aa5a5, 0x5a5aa5a5, 0x5a5aa5a5, 0xa5a55a5a, 0xa5a55a5a],
     [0xc3c33c3c, 0xc3c33c3c, 0x3c3cc3c3, 0x3c3cc3c3, 0x3c3cc3c3, 0x3c3cc3c3, 0xc3c33c3c, 0xc3c33c3c],
     [0x69699696, 0x69699696, 0x96966969, 0x96966969, 0x96966969, 0x96966969, 0x69699696, 0x69699696],
     [0x00ffff00, 0x00ffff00, 0xff0000ff, 0xff0000ff, 0xff0000ff, 0xff0000ff, 0x00ffff00, 0x00ffff00],
     [0xaa5555aa, 0xaa5555aa, 0x55aaaa55, 0x55aaaa55, 0x55aaaa55, 0x55aaaa55, 0xaa5555aa, 0xaa5555aa],
     [0xcc3333cc, 0xcc3333cc, 0x33cccc33, 0x33cccc33, 0x33cccc33, 0x33cccc33, 0xcc3333cc, 0xcc3333cc],
     [0x66999966, 0x66999966, 0x99666699, 0x99666699, 0x99666699, 0x99666699, 0x66999966, 0x66999966],
     [0xf00f0ff0, 0xf00f0ff0, 0x0ff0f00f, 0x0ff0f00f, 0x0ff0f00f, 0x0ff0f00f, 0xf00f0ff0, 0xf00f0ff0],
     [0x5aa5a55a, 0x5aa5a55a, 0xa55a5aa5, 0xa55a5aa5, 0xa55a5aa5, 0xa55a5aa5, 0x5aa5a55a, 0x5aa5a55a],
     [0x3cc3c33c, 0x3cc3c33c, 0xc33c3cc3, 0xc33c3cc3, 0xc33c3cc3, 0xc33c3cc3, 0x3cc3c33c, 0x3cc3c33c],
     [0x96696996, 0x96696996, 0x69969669, 0x69969669, 0x69969669, 0x69969669, 0x96696996, 0x96696996],
     [0xffffffff, 0x00000000, 0x00000000, 0xffffffff, 0x00000000, 0xffffffff, 0xffffffff, 0x00000000],
     [0x55555555, 0xaaaaaaaa, 0xaaaaaaaa, 0x55555555, 0xaaaaaaaa, 0x55555555, 0x55555555, 0xaaaaaaaa],
     [0x33333333, 0xcccccccc, 0xcccccccc, 0x33333333, 0xcccccccc, 0x33333333, 0x33333333, 0xcccccccc],
     [0x99999999, 0x66666666, 0x66666666, 0x99999999, 0x66666666, 0x99999999, 0x99999999, 0x66666666],
     [0x0f0f0f0f, 0xf0f0f0f0, 0xf0f0f0f0, 0x0f0f0f0f, 0xf0f0f0f0, 0x0f0f0f0f, 0x0f0f0f0f, 0xf0f0f0f0],
     [0xa5a5a5a5, 0x5a5a5a5a, 0x5a5a5a5a, 0xa5a5a5a5, 0x5a5a5a5a, 0xa5a5a5a5, 0xa5a5a5a5, 0x5a5a5a5a],
     [0xc3c3c3c3, 0x3c3c3c3c, 0x3c3c3c3c, 0xc3c3c3c3, 0x3c3c3c3c, 0xc3c3c3c3, 0xc3c3c3c3, 0x3c3c3c3c],
     [0x69696969, 0x96969696, 0x96969696, 0x69696969, 0x96969696, 0x69696969, 0x69696969, 0x96969696],
     [0x00ff00ff, 0xff00ff00, 0xff00ff00, 0x00ff00ff, 0xff00ff00, 0x00ff00ff, 0x00ff00ff, 0xff00ff00],
     [0xaa55aa55, 0x55aa55aa, 0x55aa55aa, 0xaa55aa55, 0x55aa55aa, 0xaa55aa55, 0xaa55aa55, 0x55aa55aa],
     [0xcc33cc33, 0x33cc33cc, 0x33cc33cc, 0xcc33cc33, 0x33cc33cc, 0xcc33cc33, 0xcc33cc33, 0x33cc33cc],
     [0x66996699, 0x99669966, 0x99669966, 0x66996699, 0x99669966, 0x66996699, 0x66996699, 0x99669966],
     [0xf00ff00f, 0x0ff00ff0, 0x0ff00ff0, 0xf00ff00f, 0x0ff00ff0, 0xf00ff00f, 0xf00ff00f, 0x0ff00ff0],
     [0x5aa55aa5, 0xa55aa55a, 0xa55aa55a, 0x5aa55aa5, 0xa55aa55a, 0x5aa55aa5, 0x5aa55aa5, 0xa55aa55a],
     [0x3cc33cc3, 0xc33cc33c, 0xc33cc33c, 0x3cc33cc3, 0xc33cc33c, 0x3cc33cc3, 0x3cc33cc3, 0xc33cc33c],
     [0x96699669, 0x69966996, 0x69966996, 0x96699669, 0x69966996, 0x96699669, 0x96699669, 0x69966996],
     [0x0000ffff, 0xffff0000, 0xffff0000, 0x0000ffff, 0xffff0000, 0x0000ffff, 0x0000ffff, 0xffff0000],
     [0xaaaa5555, 0x5555aaaa, 0x5555aaaa, 0xaaaa5555, 0x5555aaaa, 0xaaaa5555, 0xaaaa5555, 0x5555aaaa],
     [0xcccc3333, 0x3333cccc, 0x3333cccc, 0xcccc3333, 0x3333cccc, 0xcccc3333, 0xcccc3333, 0x3333cccc],
     [0x66669999, 0x99996666, 0x99996666, 0x66669999, 0x99996666, 0x66669999, 0x66669999, 0x99996666],
     [0xf0f00f0f, 0x0f0ff0f0, 0x0f0ff0f0, 0xf0f00f0f, 0x0f0ff0f0, 0xf0f00f0f, 0xf0f00f0f, 0x0f0ff0f0],
     [0x5a5aa5a5, 0xa5a55a5a, 0xa5a55a5a, 0x5a5aa5a5, 0xa5a55a5a, 0x5a5aa5a5, 0x5a5aa5a5, 0xa5a55a5a],
     [0x3c3cc3c3, 0xc3c33c3c, 0xc3c33c3c, 0x3c3cc3c3, 0xc3c33c3c, 0x3c3cc3c3, 0x3c3cc3c3, 0xc3c33c3c],
     [0x96966969, 0x69699696, 0x69699696, 0x96966969, 0x69699696, 0x96966969, 0x96966969, 0x69699696],
     [0xff0000ff, 0x00ffff00, 0x00ffff00, 0xff0000ff, 0x00ffff00, 0xff0000ff, 0xff0000ff, 0x00ffff00],
     [0x55aaaa55, 0xaa5555aa, 0xaa5555aa, 0x55aaaa55, 0xaa5555aa, 0x55aaaa55, 0x55aaaa55, 0xaa5555aa],
     [0x33cccc33, 0xcc3333cc, 0xcc3333cc, 0x33cccc33, 0xcc3333cc, 0x33cccc33, 0x33cccc33, 0xcc3333cc],
     [0x99666699, 0x66999966, 0x66999966, 0x99666699, 0x66999966, 0x99666699, 0x99666699, 0x66999966],
     [0x0ff0f00f, 0xf00f0ff0, 0xf00f0ff0, 0x0ff0f00f, 0xf00f0ff0, 0x0ff0f00f, 0x0ff0f00f, 0xf00f0ff0],
     [0xa55a5aa5, 0x5aa5a55a, 0x5aa5a55a, 0xa55a5aa5, 0x5aa5a55a, 0xa55a5aa5, 0xa55a5aa5, 0x5aa5a55a],
     [0xc33c3cc3, 0x3cc3c33c, 0x3cc3c33c, 0xc33c3cc3, 0x3cc3c33c, 0xc33c3cc3, 0xc33c3cc3, 0x3cc3c33c],
     [0x69969669, 0x96696996, 0x96696996, 0x69969669, 0x96696996, 0x69969669, 0x69969669, 0x96696996]]"

definition readCodeWords :: "u64 list list" where
  "readCodeWords = map (\<lambda>row. map (\<lambda>j. foldl (\<lambda>w k. w OR push_bit (k * 32) (ucast (row ! (j * 2 + k)))) 0 [0..<2]) [0..<4]) CODE_MATRIX"

text \<open>\<open>InitAndReadCodeWord\<close>; the users see the words of a code word as bytes.\<close>

definition m_vCodeWords :: "bytes list" where "m_vCodeWords = map bytes64 readCodeWords"

text \<open>The table has 256 rows of eight words, and in every half the half before it with the row of the power of two
  added.\<close>

definition doubles :: "nat \<Rightarrow> u32 list list \<Rightarrow> bool" where
  "doubles n M \<longleftrightarrow> take n (drop n M) = map (\<lambda>r. map2 (XOR) r (M ! n)) (take n M)"

lemma code_rows: "length CODE_MATRIX = 256 \<and> list_all (\<lambda>row. length row = 8) CODE_MATRIX"
  by (simp add: CODE_MATRIX_def)

lemma table_doubles:
  "doubles 1 CODE_MATRIX" "doubles 2 CODE_MATRIX" "doubles 4 CODE_MATRIX" "doubles 8 CODE_MATRIX"
  "doubles 16 CODE_MATRIX" "doubles 32 CODE_MATRIX" "doubles 64 CODE_MATRIX" "doubles 128 CODE_MATRIX"
  by (simp_all add: doubles_def CODE_MATRIX_def)

lemma replicate_8: "replicate 8 x = [x, x, x, x, x, x, x, x]"
  by (simp add: numeral_eq_Suc)

lemma table_zero: "CODE_MATRIX ! 0 = replicate 8 0"
  by (simp add: CODE_MATRIX_def replicate_8)

text \<open>The rows of the powers of two: bit \<open>b\<close> of word \<open>w\<close> is bit \<open>j\<close> of the position, counted from
  the last word.\<close>

lemma table_basis:
  "CODE_MATRIX ! Suc 0 = replicate 8 0xaaaaaaaa"
  "CODE_MATRIX ! 2 = replicate 8 0xcccccccc"
  "CODE_MATRIX ! 4 = replicate 8 0xf0f0f0f0"
  "CODE_MATRIX ! 8 = replicate 8 0xff00ff00"
  "CODE_MATRIX ! 16 = replicate 8 0xffff0000"
  "CODE_MATRIX ! 32 = [0xffffffff, 0, 0xffffffff, 0, 0xffffffff, 0, 0xffffffff, 0]"
  "CODE_MATRIX ! 64 = [0xffffffff, 0xffffffff, 0, 0, 0xffffffff, 0xffffffff, 0, 0]"
  "CODE_MATRIX ! 128 = [0xffffffff, 0xffffffff, 0xffffffff, 0xffffffff, 0, 0, 0, 0]"
  by (simp_all add: CODE_MATRIX_def replicate_8)

lemma basis_low:
  "\<forall>b\<in>set [0..<32]. bit (0xaaaaaaaa :: u32) b = bit b 0 \<and> bit (0xcccccccc :: u32) b = bit b 1 \<and>
     bit (0xf0f0f0f0 :: u32) b = bit b 2 \<and> bit (0xff00ff00 :: u32) b = bit b 3 \<and> bit (0xffff0000 :: u32) b = bit b 4"
  by code_simp

lemma length_code_words [simp]: "length m_vCodeWords = 256"
  using code_rows by (simp add: m_vCodeWords_def readCodeWords_def)

lemma length_code_word [simp]: "i < 256 \<Longrightarrow> length (m_vCodeWords ! i) = 32"
  using code_rows by (simp add: m_vCodeWords_def readCodeWords_def)

section \<open>The Walsh-Hadamard code\<close>

fun parity :: "nat \<Rightarrow> bool" where
  "parity n = (if n = 0 then False else odd n \<noteq> parity (n div 2))"

declare parity.simps [simp del]

lemma parity_0 [simp]: "parity 0 = False"
  by (simp add: parity.simps)

lemma parity_rec: "parity n = (odd n \<noteq> parity (n div 2))"
  by (cases "n = 0") (simp_all add: parity.simps [of n])

lemma parity_xor: "parity (a XOR b) = (parity a \<noteq> parity b)"
proof (induction a arbitrary: b rule: parity.induct)
  case (1 a)
  show ?case
  proof (cases "a = 0")
    case False
    have "(a XOR b) div 2 = a div 2 XOR b div 2" "odd (a XOR b) = (odd a \<noteq> odd b)"
      by (simp_all add: drop_bit_xor [of 1, simplified drop_bit_eq_div power_one_right] even_xor_iff)
    then show ?thesis using 1 [OF False, of "b div 2"] parity_rec [of a] parity_rec [of b] parity_rec [of "a XOR b"] by auto
  qed simp
qed

lemma parity_power: "parity (push_bit j 1)"
proof (induction j)
  case 0
  show ?case by (simp add: parity.simps)
next
  case (Suc j)
  then show ?case using parity_rec [of "push_bit (Suc j) 1"] by (simp add: push_bit_eq_mult)
qed

lemma parity_bit: "parity (push_bit j 1 AND p) = bit p j"
proof -
  have "push_bit j 1 AND p = (if bit p j then push_bit j 1 else 0)"
    by (rule bit_eqI) (auto simp: bit_and_iff bit_exp_iff)
  then show ?thesis using parity_power [of j] by simp
qed

lemma position_bit:
  fixes b w j :: nat
  assumes "b < 32"
  shows "bit ((7 - w) * 32 + b) j = (if j < 5 then bit b j else bit (7 - w) (j - 5))"
proof -
  have t: "take_bit 5 ((7 - w) * 32 + b) = b" "drop_bit 5 ((7 - w) * 32 + b) = 7 - w"
    using assms by (simp_all add: take_bit_eq_mod drop_bit_eq_div)
  have "bit ((7 - w) * 32 + b) j = bit (take_bit 5 ((7 - w) * 32 + b)) j" if "j < 5" using that by (simp add: bit_take_bit_iff)
  moreover have "bit ((7 - w) * 32 + b) j = bit (drop_bit 5 ((7 - w) * 32 + b)) (j - 5)" if "\<not> j < 5"
    using that by (simp add: bit_drop_bit_eq)
  ultimately show ?thesis unfolding t by simp
qed

lemma basis_bit:
  assumes "j < 8" and "w < 8" and "b < 32"
  shows "bit (CODE_MATRIX ! (2 ^ j) ! w) b = bit ((7 - w) * 32 + b) j"
proof -
  have w: "w = 0 \<or> w = 1 \<or> w = 2 \<or> w = 3 \<or> w = 4 \<or> w = 5 \<or> w = 6 \<or> w = 7" using assms(2) by auto
  have ones: "bit (0xffffffff :: u32) b" using assms(3) bit_mask_iff [of 32 b, where ?'a = "32 word"] by (simp add: mask_eq_exp_minus_1)
  show ?thesis
  proof (cases "j < 5")
    case True
    then have j: "j = 0 \<or> j = 1 \<or> j = 2 \<or> j = 3 \<or> j = 4" by auto
    have "bit (0xaaaaaaaa :: u32) b = bit b 0 \<and> bit (0xcccccccc :: u32) b = bit b 1 \<and>
      bit (0xf0f0f0f0 :: u32) b = bit b 2 \<and> bit (0xff00ff00 :: u32) b = bit b 3 \<and> bit (0xffff0000 :: u32) b = bit b 4"
      using basis_low assms(3) by simp
    then show ?thesis unfolding position_bit [OF assms(3)] using True j assms(2,3) by (elim disjE) (simp_all add: table_basis)
  next
    case False
    then have j: "j = 5 \<or> j = 6 \<or> j = 7" using assms(1) by auto
    then show ?thesis unfolding position_bit [OF assms(3)] using w ones
      by (elim disjE) (simp_all add: table_basis bit_0)
  qed
qed

lemma row_sum:
  assumes "j < 8" and "i < 2 ^ j"
  shows "CODE_MATRIX ! (2 ^ j + i) = map2 (XOR) (CODE_MATRIX ! i) (CODE_MATRIX ! (2 ^ j))"
proof -
  have le: "(2::nat) ^ j \<le> 2 ^ 7" using assms(1) by (intro power_increasing) simp_all
  then have l: "2 ^ j + i < length CODE_MATRIX" using assms(2) code_rows by simp
  have "j = 0 \<or> j = 1 \<or> j = 2 \<or> j = 3 \<or> j = 4 \<or> j = 5 \<or> j = 6 \<or> j = 7" using assms(1) by auto
  then have "doubles (2 ^ j) CODE_MATRIX" by (elim disjE) (simp_all add: table_doubles table_doubles(1) [unfolded One_nat_def])
  then have "take (2 ^ j) (drop (2 ^ j) CODE_MATRIX) ! i = map (\<lambda>r. map2 (XOR) r (CODE_MATRIX ! (2 ^ j))) (take (2 ^ j) CODE_MATRIX) ! i"
    by (simp only: doubles_def)
  then show ?thesis using assms(2) l by simp
qed

lemma parity_and_xor: "parity ((a XOR b) AND p) = (parity (a AND p) \<noteq> parity (b AND p))"
proof -
  have "(a XOR b) AND p = (a AND p) XOR (b AND p)" by (rule bit_eqI) (auto simp: bit_and_iff bit_xor_iff)
  then show ?thesis by (simp add: parity_xor)
qed

lemma power_plus_xor: "i < 2 ^ j \<Longrightarrow> 2 ^ j + i = 2 ^ j XOR (i :: nat)"
proof -
  assume i: "i < 2 ^ j"
  have "\<not> bit i k" if "bit (2 ^ j :: nat) k" for k using that i bit_ge [of i j] by (auto simp: bit_exp_iff)
  then have "2 ^ j + i = 2 ^ j OR i" by (metis disjunctive_add)
  also have "\<dots> = 2 ^ j XOR i" using \<open>\<And>k. bit (2 ^ j :: nat) k \<Longrightarrow> \<not> bit i k\<close>
    by (intro bit_eqI) (auto simp: bit_or_iff bit_xor_iff)
  finally show ?thesis .
qed

lemma matrix_parity:
  assumes "w < 8" and "b < 32"
  shows "j \<le> 8 \<Longrightarrow> i < 2 ^ j \<Longrightarrow> bit (CODE_MATRIX ! i ! w) b = parity (i AND ((7 - w) * 32 + b))"
proof (induction j arbitrary: i)
  case 0
  then show ?case using assms by (simp add: table_zero)
next
  case (Suc j)
  show ?case
  proof (cases "i < 2 ^ j")
    case True
    then show ?thesis using Suc by simp
  next
    case False
    then obtain i' where i: "i = 2 ^ j + i'" "i' < 2 ^ j" using Suc.prems(2) by (metis le_Suc_ex not_less nat_add_left_cancel_less mult_2 power_Suc)
    have len: "length (CODE_MATRIX ! x) = 8" if "x < 256" for x using code_rows that by (simp add: list_all_length)
    have "(2::nat) ^ j \<le> 2 ^ 7" using Suc.prems(1) by (intro power_increasing) simp_all
    then have "length (CODE_MATRIX ! i') = 8" "length (CODE_MATRIX ! (2 ^ j)) = 8" using i(2) by (simp_all add: len)
    then have "CODE_MATRIX ! i ! w = CODE_MATRIX ! i' ! w XOR CODE_MATRIX ! (2 ^ j) ! w"
      using row_sum [of j i'] Suc.prems(1) i assms(1) by simp
    moreover have "parity (2 ^ j AND ((7 - w) * 32 + b)) = bit ((7 - w) * 32 + b) j"
      using parity_bit [of j "(7 - w) * 32 + b"] by (simp add: push_bit_of_1)
    ultimately show ?thesis
      using Suc.IH [of i'] Suc.prems(1) i basis_bit [of j w b] assms
      unfolding i(1) power_plus_xor [OF i(2)] parity_and_xor by (auto simp: bit_xor_iff)
  qed
qed

text \<open>As the users of the code see it: bit \<open>k\<close> of code word \<open>i\<close>, in the order of \<open>GetBit\<close>.\<close>

lemma code_word_bit:
  assumes i: "i < 256" and k: "k < 256"
  shows "bit_at (m_vCodeWords ! i) k = parity (i AND (k XOR 231))"
proof -
  let ?row = "CODE_MATRIX ! i" and ?q = "take_bit 6 k XOR 7" and ?j = "k div 64"
  have r: "length ?row = 8" using code_rows i by (simp add: list_all_length)
  let ?ws = "readCodeWords ! i"
  have ws: "?ws = map (\<lambda>j. foldl (\<lambda>w k. w OR push_bit (k * 32) (ucast (?row ! (j * 2 + k)))) 0 [0..<2]) [0..<4]"
    using i code_rows by (simp add: readCodeWords_def)
  have j: "?j < 4" using k by (simp add: less_mult_imp_div_less)
  have q: "?q < 64" by (rule column_bit_less)
  have word: "?ws ! ?j = ucast (?row ! (?j * 2)) OR push_bit 32 (ucast (?row ! (?j * 2 + 1)))"
    using j unfolding ws by (simp add: numeral_2_eq_2)
  have "bit_at (m_vCodeWords ! i) k = bit (?ws ! ?j) ?q"
  proof -
    have "m_vCodeWords ! i = bytes64 ?ws" using i code_rows by (simp add: m_vCodeWords_def readCodeWords_def)
    moreover have "length (bytes64 ?ws) = 8 * 4" by (simp add: ws)
    ultimately show ?thesis using words64_bit [of "bytes64 ?ws" 4 k] k by (simp add: words64_bytes64)
  qed
  also have "\<dots> = bit (?row ! (?j * 2 + ?q div 32)) (?q mod 32)"
  proof (cases "?q < 32")
    case True
    then show ?thesis by (simp add: word bit_or_iff bit_push_bit_iff bit_ucast_iff)
  next
    case False
    then have d: "?q div 32 = 1" "?q mod 32 = ?q - 32" using q by (simp_all add: div_nat_eqI le_mod_geq)
    have "\<not> bit (ucast (?row ! (?j * 2)) :: u64) ?q" using False bit_imp_le_length [of "?row ! (?j * 2)" ?q]
      by (auto simp: bit_ucast_iff)
    moreover have "?q - 32 < 64" using q by linarith
    ultimately show ?thesis using False q unfolding d by (simp add: word bit_or_iff bit_push_bit_iff bit_ucast_iff)
  qed
  also have "\<dots> = parity (i AND ((7 - (?j * 2 + ?q div 32)) * 32 + ?q mod 32))"
  proof (rule matrix_parity [of _ _ 8])
    have "?q div 32 < 2" using q by (simp add: less_mult_imp_div_less)
    then show "?j * 2 + ?q div 32 < 8" using j by linarith
  qed (use i in simp_all)
  also have "(7 - (?j * 2 + ?q div 32)) * 32 + ?q mod 32 = k XOR 231"
  proof -
    have q: "?q mod 32 = take_bit 5 ?q" "?q div 32 = drop_bit 5 ?q" by (simp_all add: take_bit_eq_mod drop_bit_eq_div)
    have "drop_bit 5 ?q = k mod 64 div 32"
    proof -
      have "drop_bit 5 ?q = drop_bit 5 (take_bit 6 k) XOR drop_bit 5 7" by (rule drop_bit_xor)
      moreover have "drop_bit 5 (7 :: nat) = 0" by (simp add: drop_bit_eq_div)
      ultimately have "drop_bit 5 ?q = drop_bit 5 (take_bit 6 k)" by (simp only: xor.right_neutral)
      then show ?thesis by (simp add: drop_bit_eq_div take_bit_eq_mod)
    qed
    moreover have "k div 64 * 2 + k mod 64 div 32 = k div 32"
    proof -
      have "(k mod 64 + 32 * (k div 64 * 2)) div 32 = k div 64 * 2 + k mod 64 div 32" by (rule div_mult_self2) simp
      moreover have "k mod 64 + 32 * (k div 64 * 2) = k" using mod_mult_div_eq [of k 64] by linarith
      ultimately show ?thesis by argo
    qed
    ultimately have w: "?j * 2 + ?q div 32 = k div 32" unfolding q by argo
    have k8: "k div 32 < 8" using k by (simp add: less_mult_imp_div_less)
    have seven: "7 - x = x XOR 7" if "x < 8" for x :: nat
    proof -
      have "x = 0 \<or> x = 1 \<or> x = 2 \<or> x = 3 \<or> x = 4 \<or> x = 5 \<or> x = 6 \<or> x = 7" using that by auto
      then show ?thesis by (elim disjE) simp_all
    qed
    have b7: "bit (7 :: nat) n = (n < 3)" for n using bit_mask_iff [of 3 n, where ?'a = nat] by (simp add: mask_eq_exp_minus_1)
    have b231: "bit (231 :: nat) n = (n < 3 \<or> 5 \<le> n \<and> n < 8)" for n
    proof -
      have "bit (7 OR push_bit 5 7 :: nat) n = (n < 3 \<or> 5 \<le> n \<and> n < 8)" unfolding bit_or_iff bit_push_bit_iff b7 by auto
      then show ?thesis by simp
    qed
    have lt: "?q mod 32 < 32" by simp
    show ?thesis
    proof (rule bit_eqI)
      fix n
      have "bit (7 - k div 32) (n - 5) = (bit k n \<noteq> (n < 8))" if "5 \<le> n"
        using that bit_drop_bit_eq [of 5 k] unfolding seven [OF k8] by (auto simp: bit_xor_iff b7 drop_bit_eq_div fun_eq_iff)
      then show "bit ((7 - (?j * 2 + ?q div 32)) * 32 + ?q mod 32) n = bit (k XOR 231) n"
        unfolding w position_bit [OF lt] unfolding q(1) by (auto simp: bit_take_bit_iff bit_xor_iff b7 b231)
    qed
  qed
  finally show ?thesis .
qed

section \<open>Properties\<close>

text \<open>C10: any two code words of the table differ in exactly half of their 256 bits.\<close>

theorem code_words_distance:
  assumes "i < 256" and "j < 256" and "i \<noteq> j"
  shows "card {k. k < 256 \<and> bit_at (m_vCodeWords ! i) k \<noteq> bit_at (m_vCodeWords ! j) k} = 128"
proof -
  obtain t where t: "bit (i XOR j) t" using assms(3) by (auto simp: bit_eq_iff bit_xor_iff)
  have t8: "t < 8"
  proof (rule ccontr)
    assume "\<not> t < 8"
    then have "(2::nat) ^ 8 \<le> 2 ^ t" by (intro power_increasing) simp_all
    moreover have "2 ^ t \<le> i \<or> 2 ^ t \<le> j" using t bit_ge by (auto simp: bit_xor_iff)
    ultimately show False using assms by auto
  qed
  let ?d = "\<lambda>k. parity ((i XOR j) AND (k XOR 231))"
  let ?D = "{k. k < 256 \<and> ?d k}" and ?E = "{k. k < 256 \<and> \<not> ?d k}"
  have flip: "?d (flip_bit t k) = (\<not> ?d k)" for k :: nat
  proof -
    have "(i XOR j) AND (flip_bit t k XOR 231) = ((i XOR j) AND (k XOR 231)) XOR push_bit t 1"
      using t by (intro bit_eqI) (auto simp: bit_and_iff bit_xor_iff bit_flip_bit_iff bit_exp_iff)
    then show ?thesis using parity_power [of t] by (simp add: parity_xor)
  qed
  have less: "flip_bit t k < 256" if "k < 256" for k :: nat using flip_less [OF t8, of k 1] that by simp
  have "bij_betw (flip_bit t) ?D ?E"
    by (rule bij_betw_byWitness [where f' = "flip_bit t"]) (auto simp: flip_flip flip less)
  then have e: "card ?D = card ?E" by (rule bij_betw_same_card)
  have "card ?D + card ?E = card (?D \<union> ?E)" by (rule card_Un_disjoint [symmetric]) auto
  moreover have "?D \<union> ?E = {..<256}" by auto
  ultimately have "card ?D = 128" using e by simp
  moreover have "{k. k < 256 \<and> bit_at (m_vCodeWords ! i) k \<noteq> bit_at (m_vCodeWords ! j) k} = ?D"
    using assms by (auto simp: code_word_bit parity_and_xor)
  ultimately show ?thesis by simp
qed

theorem code_words_distance_witness:
  "card {k. k < 256 \<and> bit_at (m_vCodeWords ! 37) k \<noteq> bit_at (m_vCodeWords ! 255) k} = 128"
  by (rule code_words_distance) simp_all

end
