(* ===== verification/OTWindows.thy ===== *)
theory OTWindows
  imports CodeWords
begin

text \<open>
  The matrices of the 1-out-of-256 OT extension (\<open>src/PSI/src/util/ot/ot-extension-1oon-ecc.cpp\<close>): the OTs are
  processed in windows of at most \<open>NUMOTBLOCKS\<close> blocks of 256; per window the receiver expands its seed pairs to
  \<open>T\<close> and to the matrix it sends, adds the code words of its choices to the latter, and the sender combines it with
  its own seeds to \<open>Q\<close>. \<open>E\<close> is AES under a key, one block at a time. What the matrices hold is described bit by
  bit (\<open>key_matrix\<close>, \<open>stream_bit\<close>, \<open>q_row\<close>); \<open>OTRoutines\<close> composes them.
\<close>

section \<open>Windows of OTs\<close>

definition NUMOTBLOCKS :: nat where "NUMOTBLOCKS = 1024"

definition OTEXT_BLOCK_SIZE_BYTES :: nat where "OTEXT_BLOCK_SIZE_BYTES = 16"

text \<open>The loop of both routines: \<open>i\<close> is the first OT that is not processed yet, \<open>blocks\<close> the number of blocks of the
  next window and \<open>n\<close> the number of its OTs.\<close>

definition window_blocks :: "nat \<Rightarrow> nat \<Rightarrow> nat" where
  "window_blocks i lim = min NUMOTBLOCKS (ceil_divide (lim - i) m_nCodeWordBits)"

definition window_OTs :: "nat \<Rightarrow> nat \<Rightarrow> nat" where
  "window_OTs i lim = min (lim - i) (window_blocks i lim * m_nCodeWordBits)"

lemma window_positive: "i < lim \<Longrightarrow> 0 < window_OTs i lim"
  by (simp add: window_OTs_def window_blocks_def NUMOTBLOCKS_def ceil_divide_def m_nCodeWordBits_def)

function ot_loop :: "(nat \<Rightarrow> nat \<Rightarrow> nat \<Rightarrow> 's \<Rightarrow> 's res) \<Rightarrow> nat \<Rightarrow> nat \<Rightarrow> 's \<Rightarrow> 's res" where
  "ot_loop step i lim s =
     (if i < lim then rbind (step i (window_blocks i lim) (window_OTs i lim) s) (ot_loop step (i + window_OTs i lim) lim) else Ok s)"
  by auto
termination
proof (relation "measure (\<lambda>(step, i, lim, s). lim - i)")
  fix i lim :: nat assume "i < lim"
  then show "\<And>step s x. ((step, i + window_OTs i lim, lim, x), step, i, lim, s) \<in> measure (\<lambda>(step, i, lim, s). lim - i)"
    using window_positive [of i lim] by auto
qed simp

declare ot_loop.simps [simp del]

section \<open>The receiver's matrices\<close>

text \<open>The 16 bytes of \<open>ctr_buf\<close>, whose first eight are the counter.\<close>

definition ctr_block :: "u64 \<Rightarrow> bytes" where "ctr_block ctr = le_bytes 8 ctr @ replicate 8 0"

definition BuildMatrices ::
    "(bytes \<Rightarrow> bytes \<Rightarrow> bytes) \<Rightarrow> bytes list \<Rightarrow> bytes \<Rightarrow> bytes \<Rightarrow> nat \<Rightarrow> u64 \<Rightarrow> (bytes \<times> bytes \<times> u64) res" where
  "BuildMatrices E keySeedMtx T SndBuf numblocks tempctr =
     rbind (rfold (\<lambda>k (T, SndBuf). rfold (\<lambda>b (T, SndBuf).
         let counter = ctr_block (tempctr + of_nat b); ptr = (k * (2 * numblocks) + b) * OTEXT_BLOCK_SIZE_BYTES in
         rbind (rd keySeedMtx (2 * k)) (\<lambda>key0. rbind (wr_blk T ptr (E key0 counter)) (\<lambda>T.
         rbind (rd keySeedMtx (2 * k + 1)) (\<lambda>key1. rbind (wr_blk SndBuf ptr (E key1 counter)) (\<lambda>SndBuf.
         Ok (T, SndBuf))))))
       [0..<2 * numblocks] (T, SndBuf)) [0..<m_nCodeWordBits] (T, SndBuf)) (\<lambda>(T, SndBuf).
     rbind (XORBytes SndBuf 0 T 0 (m_nCodeWordBytes * numblocks * m_nCodeWordBits)) (\<lambda>SndBuf.
     Ok (T, SndBuf, tempctr + of_nat (2 * numblocks))))"

definition GenerateChoiceCodes :: "bytes \<Rightarrow> bytes \<Rightarrow> nat \<Rightarrow> nat \<Rightarrow> bytes res" where
  "GenerateChoiceCodes choices vSnd startpos len =
     (let ncolumnsbyte = ceil_divide len m_nCodeWordBits * m_nCodeWordBytes in
      rfold (\<lambda>p vSnd. let pos = p * m_nCodeWordBits in
        rbind (rfold (\<lambda>j codes.
            rbind (Get32 choices ((startpos + pos + j) * 8) 8) (\<lambda>tmpchoice.
            rbind (rd m_vCodeWords tmpchoice) (\<lambda>code.
            SetBytes codes (j * m_nCodeWordBytes) code 0 m_nCodeWordBytes)))
          [0..<min (len - pos) m_nCodeWordBits] (replicate (m_nCodeWordBits * m_nCodeWordBytes) 0)) (\<lambda>choicecodes.
        rbind (EklundhBitTranspose m_nCodeWordBits m_nCodeWordBits choicecodes) (\<lambda>choicecodes.
        rfold (\<lambda>j vSnd. XORBytes vSnd (pos div 8 + j * ncolumnsbyte) choicecodes (j * m_nCodeWordBytes) m_nCodeWordBytes)
          [0..<m_nCodeWordBits] vSnd)))
      [0..<ceil_divide len m_nCodeWordBits] vSnd)"

section \<open>The sender's matrix\<close>

definition BuildQMatrix ::
    "(bytes \<Rightarrow> bytes \<Rightarrow> bytes) \<Rightarrow> bytes list \<Rightarrow> bytes \<Rightarrow> bytes \<Rightarrow> bytes \<Rightarrow> nat \<Rightarrow> u64 \<Rightarrow> (bytes \<times> u64) res" where
  "BuildQMatrix E keySeeds U T RcvBuf numblocks tempctr =
     rbind (rfold (\<lambda>k T.
         rbind (rfold (\<lambda>b T. rbind (rd keySeeds k) (\<lambda>key.
             wr_blk T ((k * (2 * numblocks) + b) * OTEXT_BLOCK_SIZE_BYTES) (E key (ctr_block (tempctr + of_nat b)))))
           [0..<2 * numblocks] T) (\<lambda>T.
         rbind (GetBit U k) (\<lambda>u.
         if u then XORBytes T (k * m_nCodeWordBytes * numblocks) RcvBuf (k * (m_nCodeWordBytes * numblocks)) (m_nCodeWordBytes * numblocks)
         else Ok T)))
       [0..<m_nCodeWordBits] T) (\<lambda>T. Ok (T, tempctr + of_nat (2 * numblocks)))"

section \<open>Bits of byte sequences\<close>

lemma bit_at_take: "idx < 8 * n \<Longrightarrow> bit_at (take n v) idx = bit_at v idx"
  by (simp add: bit_at_def less_mult_imp_div_less mult.commute)

lemma bit_at_drop: "8 * n + idx < 8 * length v \<Longrightarrow> bit_at (drop n v) idx = bit_at v (8 * n + idx)"
  by (simp add: bit_at_def)

lemma bit_at_append: "bit_at (x @ y) idx = (if idx < 8 * length x then bit_at x idx else bit_at y (idx - 8 * length x))"
proof (cases "idx < 8 * length x")
  case True
  then show ?thesis by (simp add: bit_at_def nth_append less_mult_imp_div_less mult.commute)
next
  case False
  then obtain r where "idx = 8 * length x + r" by (metis le_Suc_ex not_less)
  then show ?thesis by (simp add: bit_at_def nth_append)
qed

lemma bit_at_bxor:
  "idx < 8 * length x \<Longrightarrow> idx < 8 * length y \<Longrightarrow> bit_at (bxor x y) idx = (bit_at x idx \<noteq> bit_at y idx)"
  by (simp add: bit_at_def less_mult_imp_div_less mult.commute bit_xor_iff)

lemma bit_at_band:
  "idx < 8 * length x \<Longrightarrow> idx < 8 * length y \<Longrightarrow> bit_at (band x y) idx = (bit_at x idx \<and> bit_at y idx)"
  by (simp add: bit_at_def less_mult_imp_div_less mult.commute bit_and_iff)

lemma bit_at_zeros: "idx < 8 * n \<Longrightarrow> \<not> bit_at (replicate n 0) idx"
  by (simp add: bit_at_def less_mult_imp_div_less mult.commute)

lemma bit_at_blit:
  assumes "pos + length w \<le> length v" and "idx < 8 * length v"
  shows "bit_at (blit v pos w) idx = (if 8 * pos \<le> idx \<and> idx < 8 * pos + 8 * length w then bit_at w (idx - 8 * pos) else bit_at v idx)"
proof -
  have l: "idx div 8 < length v" using assms(2) by (simp add: less_mult_imp_div_less mult.commute)
  have range: "(pos \<le> idx div 8 \<and> idx div 8 < pos + length w) = (8 * pos \<le> idx \<and> idx < 8 * pos + 8 * length w)"
    by (simp only: less_eq_div_iff_mult_less_eq div_less_iff_less_mult zero_less_numeral add_mult_distrib2 [symmetric] mult.commute [of _ 8])
  have "bit_at w (idx - 8 * pos) = bit (w ! (idx div 8 - pos)) (7 - idx mod 8)" if le: "8 * pos \<le> idx"
  proof -
    obtain r where r: "idx = 8 * pos + r" using le_Suc_ex [OF le] by blast
    have "(8 * pos + r) div 8 = pos + r div 8" "(8 * pos + r) mod 8 = r mod 8"
      by (rule div_mult_self4, simp, rule mod_mult_self4)
    then show ?thesis unfolding r bit_at_def by (simp only: diff_add_inverse)
  qed
  then show ?thesis by (simp add: bit_at_def nth_blit [OF assms(1) l] range)
qed

lemma bytes_bit_ext:
  assumes "length x = length y" and "\<And>idx. idx < 8 * length x \<Longrightarrow> bit_at x idx = bit_at y idx"
  shows "x = y"
proof (rule nth_equalityI [OF assms(1)])
  fix i assume i: "i < length x"
  show "x ! i = y ! i"
  proof (rule bit_word_eqI)
    fix n assume "n < LENGTH(8)"
    then have "n = 7 - (7 - n)" "7 - n < 8" by (simp_all add: less_Suc_eq_le [of _ 7, simplified])
    then obtain m where m: "n = 7 - m" "m < 8" by blast
    then have "(8 * i + m) div 8 = i" "(8 * i + m) mod 8 = m" by simp_all
    moreover have "bit_at x (8 * i + m) = bit_at y (8 * i + m)" by (rule assms(2)) (use i m in linarith)
    ultimately show "bit (x ! i) n = bit (y ! i) n" unfolding bit_at_def m(1) by (simp only:)
  qed
qed

lemma bit_at_chunk:
  assumes "length v = N * n" and "i < N" and "r < 8 * n"
  shows "bit_at (chunk n v i) r = bit_at v (i * (8 * n) + r)"
proof -
  have "i * n + n \<le> length v" using assms chunk_fits by metis
  then have "bit_at (take n (drop (i * n) v)) r = bit_at (drop (i * n) v) r" "8 * (i * n) + r < 8 * length v"
    using assms(3) by (simp_all add: bit_at_take)
  then show ?thesis by (simp add: chunk_def bit_at_drop) (simp add: algebra_simps)
qed

text \<open>The bytes with given bits.\<close>

definition of_bits :: "(nat \<Rightarrow> bool) \<Rightarrow> nat \<Rightarrow> bytes" where
  "of_bits f n = map (\<lambda>i. horner_sum of_bool 2 (map (\<lambda>j. f (8 * i + (7 - j))) [0..<8])) [0..<n]"

lemma length_of_bits [simp]: "length (of_bits f n) = n"
  by (simp add: of_bits_def)

lemma bit_at_of_bits: "idx < 8 * n \<Longrightarrow> bit_at (of_bits f n) idx = f idx"
proof -
  assume i: "idx < 8 * n"
  have "7 - (7 - idx mod 8) = idx mod 8" by (rule diff_diff_cancel) (simp add: less_Suc_eq_le [symmetric])
  then have "8 * (idx div 8) + (7 - (7 - idx mod 8)) = idx" by simp
  moreover have "7 - idx mod 8 < 8" by (rule le_less_trans [OF diff_le_self]) simp
  ultimately show ?thesis using i
    by (simp add: bit_at_def of_bits_def less_mult_imp_div_less mult.commute bit_horner_sum_bit_word_iff del: upt_Suc upt_rec_numeral)
qed

lemma of_bits_cong: "(\<And>idx. idx < 8 * n \<Longrightarrow> f idx = g idx) \<Longrightarrow> of_bits f n = of_bits g n"
  by (rule bytes_bit_ext) (simp_all add: bit_at_of_bits)

lemma of_bits_eq: "length v = n \<Longrightarrow> (\<And>idx. idx < 8 * n \<Longrightarrow> bit_at v idx = f idx) \<Longrightarrow> v = of_bits f n"
  by (rule bytes_bit_ext) (simp_all add: bit_at_of_bits)

section \<open>Expanded keys\<close>

lemma rfold_pair:
  "rfold f is a = Ok a' \<Longrightarrow> rfold g is b = Ok b' \<Longrightarrow>
   rfold (\<lambda>i (a, b). rbind (f i a) (\<lambda>a. rbind (g i b) (\<lambda>b. Ok (a, b)))) is (a, b) = Ok (a', b')"
proof (induction "is" arbitrary: a b)
  case (Cons i "is")
  then show ?case by (auto simp: rbind_Ok_iff)
qed simp

text \<open>Blocks of the same size written one after another.\<close>

lemma fill_blocks:
  assumes "\<And>b. b < N \<Longrightarrow> length (F b) = sz" and "off + N * sz \<le> length v"
  shows "rfold (\<lambda>b v. wr_blk v (off + b * sz) (F b)) [0..<N] v = Ok (blit v off (concat (map F [0..<N])))"
proof -
  have len: "length (concat (map F [0..<b])) = b * sz" if "b \<le> N" for b
    using that assms(1) by (intro length_concat_same) simp
  have "\<exists>v'. rfold (\<lambda>b v. wr_blk v (off + b * sz) (F b)) [0..<N] v = Ok v' \<and> v' = blit v off (concat (map F [0..<N]))"
  proof (rule rfold_upt_inv [where P = "\<lambda>b v'. v' = blit v off (concat (map F [0..<b]))"])
    fix b v' assume b: "b < N" and v': "v' = blit v off (concat (map F [0..<b]))"
    have "b * sz + sz \<le> N * sz" using b mult_le_mono1 [of "Suc b" N sz] by simp
    then have fits: "off + b * sz + sz \<le> length v" using assms(2) by linarith
    then have "wr_blk v' (off + b * sz) (F b) = Ok (blit v' (off + b * sz) (F b))"
      using v' len [of b] b assms(1) by simp
    also have "blit v' (off + b * sz) (F b) = blit v off (concat (map F [0..<Suc b]))"
      using blit_append [of off "concat (map F [0..<b])" "F b" v] v' len [of b] b assms(1) fits by simp
    finally show "\<exists>s'. wr_blk v' (off + b * sz) (F b) = Ok s' \<and> s' = blit v off (concat (map F [0..<Suc b]))" by blast
  qed (simp_all add: blit_def)
  then show ?thesis by blast
qed

definition aes_ok :: "(bytes \<Rightarrow> bytes \<Rightarrow> bytes) \<Rightarrow> bool" where
  "aes_ok E \<longleftrightarrow> (\<forall>key block. length (E key block) = 16)"

definition key_row :: "(bytes \<Rightarrow> bytes \<Rightarrow> bytes) \<Rightarrow> bytes \<Rightarrow> u64 \<Rightarrow> nat \<Rightarrow> bytes" where
  "key_row E key ctr numblocks = concat (map (\<lambda>b. E key (ctr_block (ctr + of_nat b))) [0..<2 * numblocks])"

definition key_matrix :: "(bytes \<Rightarrow> bytes \<Rightarrow> bytes) \<Rightarrow> (nat \<Rightarrow> bytes) \<Rightarrow> u64 \<Rightarrow> nat \<Rightarrow> bytes" where
  "key_matrix E K ctr numblocks = concat (map (\<lambda>k. key_row E (K k) ctr numblocks) [0..<256])"

text \<open>Bit \<open>c\<close> of the key stream that starts at the counter \<open>ctr\<close>.\<close>

definition stream_bit :: "(bytes \<Rightarrow> bytes \<Rightarrow> bytes) \<Rightarrow> bytes \<Rightarrow> u64 \<Rightarrow> nat \<Rightarrow> bool" where
  "stream_bit E key ctr c = bit_at (E key (ctr_block (ctr + of_nat (c div 128)))) (c mod 128)"

lemma length_key_row: "aes_ok E \<Longrightarrow> length (key_row E key ctr nb) = 32 * nb"
  unfolding key_row_def by (subst length_concat_same [where n = 16]) (simp_all add: aes_ok_def)

lemma length_key_matrix: "aes_ok E \<Longrightarrow> length (key_matrix E K ctr nb) = 8192 * nb"
  unfolding key_matrix_def by (subst length_concat_same [where n = "32 * nb"]) (simp_all add: length_key_row)

lemma bit_at_concat:
  assumes "\<And>i. i < N \<Longrightarrow> length (F i) = n" and "i < N" and "r < 8 * n"
  shows "bit_at (concat (map F [0..<N])) (i * (8 * n) + r) = bit_at (F i) r"
proof -
  have l: "length (concat (map F [0..<N])) = N * n" by (rule length_concat_same [OF assms(1)])
  show ?thesis using bit_at_chunk [OF l assms(2,3)] chunk_concat [of N F n i] assms by simp
qed

lemma bit_at_key_row:
  assumes "aes_ok E" and "c < 256 * nb"
  shows "bit_at (key_row E key ctr nb) c = stream_bit E key ctr c"
proof -
  have "c div 128 < 2 * nb" using assms(2) by (simp add: less_mult_imp_div_less)
  then have "bit_at (key_row E key ctr nb) (c div 128 * (8 * 16) + c mod 128) = stream_bit E key ctr c"
    unfolding key_row_def stream_bit_def using assms(1) by (intro bit_at_concat) (simp_all add: aes_ok_def)
  then show ?thesis by simp
qed

lemma bit_at_key_matrix:
  assumes "aes_ok E" and "k < 256" and "c < 256 * nb"
  shows "bit_at (key_matrix E K ctr nb) (k * (256 * nb) + c) = stream_bit E (K k) ctr c"
proof -
  have "bit_at (key_matrix E K ctr nb) (k * (8 * (32 * nb)) + c) = bit_at (key_row E (K k) ctr nb) c"
    unfolding key_matrix_def using assms by (intro bit_at_concat) (simp_all add: length_key_row)
  then show ?thesis using bit_at_key_row [OF assms(1,3)] by simp
qed

text \<open>The loops that expand all keys of a matrix.\<close>

lemma row_fits: "(k :: nat) < 256 \<Longrightarrow> k * (32 * nb) + 32 * nb \<le> 8192 * nb"
proof -
  assume "k < 256"
  then have "Suc k * (32 * nb) \<le> 256 * (32 * nb)" by (intro mult_le_mono1) simp
  then show ?thesis by simp
qed

lemma expand_row:
  assumes "aes_ok E" and "k < 256" and "8192 * nb \<le> length T"
  shows "rfold (\<lambda>b T. wr_blk T ((k * (2 * nb) + b) * OTEXT_BLOCK_SIZE_BYTES) (E key (ctr_block (ctr + of_nat b)))) [0..<2 * nb] T =
    Ok (blit T (k * (32 * nb)) (key_row E key ctr nb))"
proof -
  have "k * (32 * nb) + 2 * nb * 16 \<le> length T"
    using row_fits [OF assms(2), of nb] assms(3) by linarith
  then have "rfold (\<lambda>b T. wr_blk T (k * (32 * nb) + b * 16) (E key (ctr_block (ctr + of_nat b)))) [0..<2 * nb] T =
      Ok (blit T (k * (32 * nb)) (key_row E key ctr nb))"
    unfolding key_row_def using assms(1) by (intro fill_blocks) (simp_all add: aes_ok_def)
  moreover have "(k * (2 * nb) + b) * OTEXT_BLOCK_SIZE_BYTES = k * (32 * nb) + b * 16" for b
    by (simp add: OTEXT_BLOCK_SIZE_BYTES_def algebra_simps)
  ultimately show ?thesis by simp
qed

lemma expand_keys:
  assumes "aes_ok E" and "8192 * nb \<le> length T"
  shows "rfold (\<lambda>k T. rfold (\<lambda>b T. wr_blk T ((k * (2 * nb) + b) * OTEXT_BLOCK_SIZE_BYTES) (E (K k) (ctr_block (ctr + of_nat b))))
      [0..<2 * nb] T) [0..<256] T = Ok (key_matrix E K ctr nb @ drop (8192 * nb) T)"
proof -
  have "\<exists>T'. rfold (\<lambda>k T. rfold (\<lambda>b T. wr_blk T ((k * (2 * nb) + b) * OTEXT_BLOCK_SIZE_BYTES) (E (K k) (ctr_block (ctr + of_nat b))))
      [0..<2 * nb] T) [0..<256] T = Ok T' \<and> T' = blit T 0 (concat (map (\<lambda>k. key_row E (K k) ctr nb) [0..<256]))"
  proof (rule rfold_upt_inv [where P = "\<lambda>k T'. T' = blit T 0 (concat (map (\<lambda>k. key_row E (K k) ctr nb) [0..<k]))"])
    fix k T' assume k: "k < 256" and T': "T' = blit T 0 (concat (map (\<lambda>k. key_row E (K k) ctr nb) [0..<k]))"
    let ?X = "concat (map (\<lambda>k. key_row E (K k) ctr nb) [0..<k])"
    have l: "length ?X = k * (32 * nb)" by (rule length_concat_same) (simp add: length_key_row [OF assms(1)])
    have fits: "k * (32 * nb) + 32 * nb \<le> length T" using row_fits [OF k, of nb] assms(2) by linarith
    then have "length T' = length T" using T' l by simp
    then have "rfold (\<lambda>b T. wr_blk T ((k * (2 * nb) + b) * OTEXT_BLOCK_SIZE_BYTES) (E (K k) (ctr_block (ctr + of_nat b)))) [0..<2 * nb] T' =
        Ok (blit T' (k * (32 * nb)) (key_row E (K k) ctr nb))"
      using expand_row [OF assms(1) k] assms(2) by simp
    also have "blit T' (k * (32 * nb)) (key_row E (K k) ctr nb) = blit T 0 (concat (map (\<lambda>k. key_row E (K k) ctr nb) [0..<Suc k]))"
      using blit_append [of 0 ?X "key_row E (K k) ctr nb" T] T' l fits by (simp add: length_key_row [OF assms(1)])
    finally show "\<exists>s'. rfold (\<lambda>b T. wr_blk T ((k * (2 * nb) + b) * OTEXT_BLOCK_SIZE_BYTES) (E (K k) (ctr_block (ctr + of_nat b)))) [0..<2 * nb] T' =
        Ok s' \<and> s' = blit T 0 (concat (map (\<lambda>k. key_row E (K k) ctr nb) [0..<Suc k]))" by blast
  qed (simp_all add: blit_def)
  then show ?thesis using length_key_matrix [OF assms(1)] by (simp add: blit_def key_matrix_def [symmetric])
qed

lemma word_bytes: "m_nCodeWordBytes = 32"
  by (simp add: m_nCodeWordBytes_def m_nCodeWordBits_def)

lemmas code_sizes = m_nCodeWordBits_def word_bytes

lemma BuildMatrices_ok:
  fixes ctr :: u64
  assumes E: "aes_ok E" and keys: "length keys = 512" and T: "8192 * nb \<le> length T" and S: "8192 * nb \<le> length S"
  defines "G0 \<equiv> key_matrix E (\<lambda>k. keys ! (2 * k)) ctr nb" and "G1 \<equiv> key_matrix E (\<lambda>k. keys ! (2 * k + 1)) ctr nb"
  shows "BuildMatrices E keys T S nb ctr =
    Ok (G0 @ drop (8192 * nb) T, bxor G1 G0 @ drop (8192 * nb) S, ctr + of_nat (2 * nb))"
proof -
  let ?w = "\<lambda>K k b T. wr_blk T ((k * (2 * nb) + b) * OTEXT_BLOCK_SIZE_BYTES) (E (K k) (ctr_block (ctr + of_nat b)))"
  let ?K0 = "\<lambda>k. keys ! (2 * k)" and ?K1 = "\<lambda>k. keys ! (2 * k + 1)"
  let ?f = "\<lambda>k. rfold (?w ?K0 k) [0..<2 * nb]" and ?g = "\<lambda>k. rfold (?w ?K1 k) [0..<2 * nb]"
  let ?body = "\<lambda>k (T, SndBuf). rfold (\<lambda>b (T, SndBuf).
         let counter = ctr_block (ctr + of_nat b); ptr = (k * (2 * nb) + b) * OTEXT_BLOCK_SIZE_BYTES in
         rbind (rd keys (2 * k)) (\<lambda>key0. rbind (wr_blk T ptr (E key0 counter)) (\<lambda>T.
         rbind (rd keys (2 * k + 1)) (\<lambda>key1. rbind (wr_blk SndBuf ptr (E key1 counter)) (\<lambda>SndBuf.
         Ok (T, SndBuf))))))
       [0..<2 * nb] (T, SndBuf)"
  have "?body k (T', S') = Ok (x, y)" if k: "k < 256" and xy: "?f k T' = Ok x" "?g k S' = Ok y" for k T' S' x y
  proof -
    have "2 * k < length keys" "2 * k + 1 < length keys" using k keys by simp_all
    then show ?thesis using rfold_pair [OF xy] by (simp add: Let_def)
  qed
  then have step: "rbind (?f k T') (\<lambda>x. rbind (?g k S') (\<lambda>y. Ok (x, y))) = Ok p \<Longrightarrow> ?body k (T', S') = Ok p" if "k < 256" for k T' S' p
    using that by (auto simp: rbind_Ok_iff)
  have pair: "rfold ?body ks (T', S') = Ok (T'', S'')"
    if "set ks \<subseteq> {..<256}" "rfold ?f ks T' = Ok T''" "rfold ?g ks S' = Ok S''" for ks T' S' T'' S''
    using that
  proof (induction ks arbitrary: T' S')
    case (Cons k ks)
    obtain x where x: "?f k T' = Ok x" "rfold ?f ks x = Ok T''" using Cons.prems(2) by (auto simp: rbind_Ok_iff)
    obtain y where y: "?g k S' = Ok y" "rfold ?g ks y = Ok S''" using Cons.prems(3) by (auto simp: rbind_Ok_iff)
    have "?body k (T', S') = Ok (x, y)" by (rule step) (use Cons.prems(1) x(1) y(1) in simp_all)
    then show ?case using Cons.IH [OF _ x(2) y(2)] Cons.prems(1) by (simp only: rfold.simps rbind.simps set_subset_Cons insert_subset list.simps)
  qed simp
  have "rfold ?body [0..<256] (T, S) = Ok (G0 @ drop (8192 * nb) T, G1 @ drop (8192 * nb) S)"
    unfolding G0_def G1_def
    by (rule pair [OF _ expand_keys [OF E T, where K = ?K0] expand_keys [OF E S, where K = ?K1]]) auto
  moreover have "XORBytes (G1 @ drop (8192 * nb) S) 0 (G0 @ drop (8192 * nb) T) 0 (32 * nb * 256) = Ok (bxor G1 G0 @ drop (8192 * nb) S)"
  proof -
    have l: "length G0 = 8192 * nb" "length G1 = 8192 * nb" unfolding G0_def G1_def by (rule length_key_matrix [OF E])+
    then show ?thesis using S T by (subst XORBytes_ok) (simp_all add: blit_def)
  qed
  ultimately show ?thesis unfolding BuildMatrices_def code_sizes by simp
qed

text \<open>The sender keeps a row of the receiver's message where its choice bit is set.\<close>

definition q_row :: "(bytes \<Rightarrow> bytes \<Rightarrow> bytes) \<Rightarrow> bytes list \<Rightarrow> bytes \<Rightarrow> bytes \<Rightarrow> u64 \<Rightarrow> nat \<Rightarrow> nat \<Rightarrow> bytes" where
  "q_row E keys U msg ctr nb k =
     (let row = key_row E (keys ! k) ctr nb in if bit_at U k then bxor row (take (32 * nb) (drop (k * (32 * nb)) msg)) else row)"

lemma BuildQMatrix_ok:
  assumes E: "aes_ok E" and keys: "length keys = 256" and U: "length U = 32"
    and T: "8192 * nb \<le> length T" and R: "8192 * nb \<le> length msg"
  shows "BuildQMatrix E keys U T msg nb ctr = Ok (concat (map (q_row E keys U msg ctr nb) [0..<256]) @ drop (8192 * nb) T, ctr + of_nat (2 * nb))"
proof -
  let ?body = "\<lambda>k T. rbind (rfold (\<lambda>b T. rbind (rd keys k) (\<lambda>key.
             wr_blk T ((k * (2 * nb) + b) * OTEXT_BLOCK_SIZE_BYTES) (E key (ctr_block (ctr + of_nat b)))))
           [0..<2 * nb] T) (\<lambda>T. rbind (GetBit U k) (\<lambda>u.
         if u then XORBytes T (k * 32 * nb) msg (k * (32 * nb)) (32 * nb) else Ok T))"
  let ?X = "\<lambda>k. concat (map (q_row E keys U msg ctr nb) [0..<k])"
  have lr: "length (q_row E keys U msg ctr nb k) = 32 * nb" if "k < 256" for k
  proof -
    have "32 * nb \<le> length msg - k * (32 * nb)" using row_fits [OF that, of nb] R by linarith
    then show ?thesis by (simp add: q_row_def Let_def length_key_row [OF E] min.absorb2)
  qed
  have l: "length (?X k) = k * (32 * nb)" if "k \<le> 256" for k by (rule length_concat_same) (use lr that in simp)
  have "\<exists>T'. rfold ?body [0..<256] T = Ok T' \<and> T' = blit T 0 (?X 256)"
  proof (rule rfold_upt_inv [where P = "\<lambda>k T'. T' = blit T 0 (?X k)"])
    fix k T' assume k: "k < 256" and T': "T' = blit T 0 (?X k)"
    have fits: "k * (32 * nb) + 32 * nb \<le> length T" using row_fits [OF k, of nb] T by linarith
    have lT: "length T' = length T" using T' l [of k] fits k by simp
    let ?r = "key_row E (keys ! k) ctr nb" and ?T = "blit T' (k * (32 * nb)) (key_row E (keys ! k) ctr nb)"
    have row: "rfold (\<lambda>b T. rbind (rd keys k) (\<lambda>key. wr_blk T ((k * (2 * nb) + b) * OTEXT_BLOCK_SIZE_BYTES) (E key (ctr_block (ctr + of_nat b)))))
        [0..<2 * nb] T' = Ok ?T"
      using expand_row [OF E k, of nb T' "keys ! k" ctr] T lT keys k by simp
    have here: "take (32 * nb) (drop (k * (32 * nb)) ?T) = ?r"
      using fits lT by (intro blk_blit_same) (simp_all add: length_key_row [OF E])
    have "?body k T' = Ok (blit T' (k * (32 * nb)) (q_row E keys U msg ctr nb k))"
    proof (cases "bit_at U k")
      case True
      have "XORBytes ?T (k * 32 * nb) msg (k * (32 * nb)) (32 * nb) = Ok (blit ?T (k * (32 * nb)) (q_row E keys U msg ctr nb k))"
        using XORBytes_ok [of "k * (32 * nb)" "32 * nb" ?T "k * (32 * nb)" msg] fits lT row_fits [OF k, of nb] R True here
        by (simp add: q_row_def Let_def length_key_row [OF E] mult.assoc)
      moreover have "blit ?T (k * (32 * nb)) (q_row E keys U msg ctr nb k) = blit T' (k * (32 * nb)) (q_row E keys U msg ctr nb k)"
        using fits lT lr [OF k] by (intro nth_equalityI) (simp_all add: nth_blit length_key_row [OF E])
      ultimately show ?thesis using row True GetBit_bit_at [of k U] U k by simp
    next
      case False
      then show ?thesis using row GetBit_bit_at [of k U] U k by (simp add: q_row_def Let_def)
    qed
    also have "blit T' (k * (32 * nb)) (q_row E keys U msg ctr nb k) = blit T 0 (?X (Suc k))"
      using blit_append [of 0 "?X k" "q_row E keys U msg ctr nb k" T] T' l [of k] k fits lr [OF k] by simp
    finally show "\<exists>s'. ?body k T' = Ok s' \<and> s' = blit T 0 (?X (Suc k))" by blast
  qed (simp_all add: blit_def)
  then have "rfold ?body [0..<256] T = Ok (?X 256 @ drop (8192 * nb) T)" using l [of 256] by (simp add: blit_def)
  then show ?thesis unfolding BuildQMatrix_def code_sizes by simp
qed

section \<open>The codes of the choices\<close>

lemma transpose_256:
  assumes "0 < n" and "length v = 8192 * n" and "length w = 8 * N"
  shows "\<exists>v'. EklundhBitTranspose 256 (n * 256) (v @ w) = Ok (v' @ w) \<and> length v' = length v \<and>
    (\<forall>r<256. \<forall>c<n * 256. bit_at v' (c * 256 + r) = bit_at v (r * (n * 256) + c))"
  using EklundhBitTranspose_prefix [of 8 n v w N] assms by simp

text \<open>Bit \<open>c\<close> of row \<open>k\<close>, in a matrix of \<open>nb\<close> blocks of 256 columns, is in the block that begins at byte
  \<open>32 * (j * nb + p)\<close>.\<close>

lemma block_range:
  fixes k c j p nb :: nat
  assumes "p < nb" and "c < 256 * nb"
  defines "pos \<equiv> p * 32 + j * (nb * 32)" and "idx \<equiv> k * (256 * nb) + c"
  shows "(8 * pos \<le> idx \<and> idx < 8 * pos + 256) = (k = j \<and> c div 256 = p)"
    and "k = j \<and> c div 256 = p \<Longrightarrow> idx - 8 * pos = c mod 256"
proof -
  let ?x = "k * nb + c div 256" and ?y = "j * nb + p"
  have cb: "c div 256 < nb" using assms(2) by (simp add: less_mult_imp_div_less mult.commute)
  have c: "c = c div 256 * 256 + c mod 256" by simp
  have idx: "idx = ?x * 256 + c mod 256"
  proof -
    have "k * (256 * nb) = k * nb * 256" by simp
    then show ?thesis unfolding idx_def using c by (metis add.assoc add_mult_distrib)
  qed
  have pos: "8 * pos = ?y * 256" by (simp add: pos_def)
  have m: "c mod 256 < 256" by simp
  have "(?y * 256 \<le> ?x * 256 + c mod 256 \<and> ?x * 256 + c mod 256 < ?y * 256 + 256) = (?x = ?y)"
    using m by (auto simp: not_less)
  moreover have "?x = ?y \<longleftrightarrow> k = j \<and> c div 256 = p" using div_code [OF cb, of k] div_code [OF assms(1), of j] by metis
  ultimately show "(8 * pos \<le> idx \<and> idx < 8 * pos + 256) = (k = j \<and> c div 256 = p)" unfolding pos idx by simp
  show "idx - 8 * pos = c mod 256" if "k = j \<and> c div 256 = p" unfolding pos idx using that by simp
qed

lemma matrix_index: "(k :: nat) < 256 \<Longrightarrow> c < 256 * nb \<Longrightarrow> k * (256 * nb) + c < 8 * (8192 * nb)"
  using code_less [of k 256 c "256 * nb"] by simp

text \<open>The code words of a block of choices, one below the other.\<close>

lemma choice_codes:
  assumes "J \<le> 256" and "\<And>j. j < J \<Longrightarrow> at + j < length choices"
  shows "\<exists>codes. rfold (\<lambda>j codes. rbind (Get32 choices ((at + j) * 8) 8) (\<lambda>tmpchoice. rbind (rd m_vCodeWords tmpchoice) (\<lambda>code.
      SetBytes codes (j * 32) code 0 32))) [0..<J] (replicate 8192 0) = Ok codes \<and> length codes = 8192 \<and>
    (\<forall>j<256. \<forall>k<256. bit_at codes (j * 256 + k) = (j < J \<and> bit_at (m_vCodeWords ! unat (choices ! (at + j))) k))"
proof -
  let ?code = "\<lambda>j. m_vCodeWords ! unat (choices ! (at + j))"
  let ?P = "\<lambda>J codes. length codes = 8192 \<and> (\<forall>j<256. \<forall>k<256. bit_at codes (j * 256 + k) = (j < J \<and> bit_at (?code j) k))"
  have byte: "unat (x :: u8) < 256" for x using unsigned_less [of x, where ?'a = nat] by simp
  show ?thesis
  proof (rule rfold_upt_inv [where P = ?P])
    fix i codes assume i: "i < J" and P: "?P i codes"
    have g: "Get32 choices ((at + i) * 8) 8 = Ok (unat (choices ! (at + i)))"
      using Get32_byte [OF assms(2) [OF i]] by (simp add: mult.commute)
    have i256: "i < 256" using i assms(1) by simp
    have set: "SetBytes codes (i * 32) (?code i) 0 32 = Ok (blit codes (i * 32) (?code i))"
      using i256 P byte by (subst SetBytes_ok) simp_all
    have "?P (Suc i) (blit codes (i * 32) (?code i))"
    proof (intro conjI allI impI)
      show "length (blit codes (i * 32) (?code i)) = 8192" using i256 P byte by simp
      fix j k :: nat assume j: "j < 256" and k: "k < 256"
      have fits: "i * 32 + length (?code i) \<le> length codes" using i256 P byte by simp
      have idx: "j * 256 + k < 8 * length codes" using code_less [OF j k] P by simp
      have range: "(8 * (i * 32) \<le> j * 256 + k \<and> j * 256 + k < 8 * (i * 32) + 8 * length (?code i)) = (j = i)"
        using k byte by (auto simp: not_less)
      show "bit_at (blit codes (i * 32) (?code i)) (j * 256 + k) = (j < Suc i \<and> bit_at (?code j) k)"
        unfolding bit_at_blit [OF fits idx] range using P j k by (auto simp: less_Suc_eq)
    qed
    then show "\<exists>s'. rbind (Get32 choices ((at + i) * 8) 8) (\<lambda>tmpchoice. rbind (rd m_vCodeWords tmpchoice) (\<lambda>code.
        SetBytes codes (i * 32) code 0 32)) = Ok s' \<and> ?P (Suc i) s'"
      using g set byte by simp
  next
    have "\<not> bit_at (replicate 8192 0) (j * 256 + k)" if "j < 256" "k < 256" for j k
      using code_less [OF that] by (intro bit_at_zeros) simp
    then show "?P 0 (replicate 8192 0)" by simp
  qed simp
qed

text \<open>A block of codes is added to its columns.\<close>

lemma add_codes:
  assumes p: "p < nb" and v: "8192 * nb \<le> length v" and codes: "length codes = 8192"
  shows "\<exists>v'. rfold (\<lambda>j v. XORBytes v (p * 32 + j * (nb * 32)) codes (j * 32) 32) [0..<256] v = Ok v' \<and> length v' = length v \<and>
    drop (8192 * nb) v' = drop (8192 * nb) v \<and> (\<forall>k<256. \<forall>c<256 * nb. bit_at v' (k * (256 * nb) + c) =
      (bit_at v (k * (256 * nb) + c) \<noteq> (c div 256 = p \<and> bit_at codes (k * 256 + c mod 256))))"
proof -
  let ?P = "\<lambda>j v'. length v' = length v \<and> drop (8192 * nb) v' = drop (8192 * nb) v \<and>
    (\<forall>k<256. \<forall>c<256 * nb. bit_at v' (k * (256 * nb) + c) =
      (bit_at v (k * (256 * nb) + c) \<noteq> (k < j \<and> c div 256 = p \<and> bit_at codes (k * 256 + c mod 256))))"
  have "\<exists>v'. rfold (\<lambda>j v. XORBytes v (p * 32 + j * (nb * 32)) codes (j * 32) 32) [0..<256] v = Ok v' \<and> ?P 256 v'"
  proof (rule rfold_upt_inv [where P = ?P])
    fix j v' assume j: "j < 256" and P: "?P j v'"
    let ?pos = "p * 32 + j * (nb * 32)"
    have pos: "?pos + 32 \<le> 8192 * nb"
    proof -
      have "p * 32 + 32 \<le> nb * 32" using p by simp
      moreover have "j * (32 * nb) = j * (nb * 32)" by (simp add: mult.commute)
      ultimately show ?thesis using row_fits [OF j, of nb] by linarith
    qed
    let ?w = "bxor (take 32 (drop ?pos v')) (take 32 (drop (j * 32) codes))"
    have jc: "j * 32 + 32 \<le> length codes" using j codes by simp
    have lw: "length ?w = 32" using pos P v jc by simp
    have x: "XORBytes v' ?pos codes (j * 32) 32 = Ok (blit v' ?pos ?w)"
      using pos P v jc by (subst XORBytes_ok) simp_all
    have fits: "?pos + length ?w \<le> length v'" using pos P v lw by simp
    have "?P (Suc j) (blit v' ?pos ?w)"
    proof (intro conjI allI impI)
      show "length (blit v' ?pos ?w) = length v" using fits P by simp
      show "drop (8192 * nb) (blit v' ?pos ?w) = drop (8192 * nb) v"
        using P pos lw fits by (auto simp: blit_def drop_append)
      fix k c :: nat assume k: "k < 256" and c: "c < 256 * nb"
      let ?idx = "k * (256 * nb) + c"
      have idx: "?idx < 8 * length v'" using matrix_index [OF k c] P v by simp
      note range = block_range [OF p c, where k = k and j = j]
      have "bit_at (blit v' ?pos ?w) ?idx = (if k = j \<and> c div 256 = p then bit_at ?w (?idx - 8 * ?pos) else bit_at v' ?idx)"
        using bit_at_blit [OF fits idx] range(1) lw by simp
      also have "\<dots> = (bit_at v' ?idx \<noteq> (k = j \<and> c div 256 = p \<and> bit_at codes (k * 256 + c mod 256)))"
      proof (cases "k = j \<and> c div 256 = p")
        case True
        have e: "?idx - 8 * ?pos = c mod 256" by (rule range(2) [OF True])
        have i: "8 * ?pos + c mod 256 = ?idx"
        proof -
          have "8 * ?pos \<le> ?idx" using range(1) True by blast
          then show ?thesis using e by linarith
        qed
        have "bit_at ?w (c mod 256) = (bit_at v' (8 * ?pos + c mod 256) \<noteq> bit_at codes (8 * (j * 32) + c mod 256))"
        proof -
          have m: "c mod 256 < 256" by simp
          have "bit_at (take 32 (drop ?pos v')) (c mod 256) = bit_at v' (8 * ?pos + c mod 256)"
            using m i idx by (simp add: bit_at_take bit_at_drop)
          moreover have "bit_at (take 32 (drop (j * 32) codes)) (c mod 256) = bit_at codes (8 * (j * 32) + c mod 256)"
            using m jc by (simp add: bit_at_take bit_at_drop)
          ultimately show ?thesis using lw m fits jc by (simp add: bit_at_bxor)
        qed
        then show ?thesis unfolding i e using True by (simp add: mult.commute)
      next
        case False
        then show ?thesis unfolding if_not_P [OF False] by blast
      qed
      finally show "bit_at (blit v' ?pos ?w) ?idx =
          (bit_at v ?idx \<noteq> (k < Suc j \<and> c div 256 = p \<and> bit_at codes (k * 256 + c mod 256)))"
        using P k c by (auto simp: less_Suc_eq)
    qed
    then show "\<exists>s'. XORBytes v' ?pos codes (j * 32) 32 = Ok s' \<and> ?P (Suc j) s'" using x by blast
  qed simp_all
  then show ?thesis by auto
qed

text \<open>The code words of the choices of a window, as \<open>GenerateChoiceCodes\<close> adds them to the message.\<close>

lemma GenerateChoiceCodes_ok:
  assumes len: "0 < len" and nb: "nb = ceil_divide len 256" and v: "8192 * nb \<le> length v"
    and choices: "at + len \<le> length choices"
  shows "\<exists>v'. GenerateChoiceCodes choices v at len = Ok v' \<and> length v' = length v \<and>
    drop (8192 * nb) v' = drop (8192 * nb) v \<and> (\<forall>k<256. \<forall>c<256 * nb. bit_at v' (k * (256 * nb) + c) =
      (bit_at v (k * (256 * nb) + c) \<noteq> (c < len \<and> bit_at (m_vCodeWords ! unat (choices ! (at + c))) k)))"
proof -
  let ?P = "\<lambda>p v'. length v' = length v \<and> drop (8192 * nb) v' = drop (8192 * nb) v \<and>
    (\<forall>k<256. \<forall>c<256 * nb. bit_at v' (k * (256 * nb) + c) = (bit_at v (k * (256 * nb) + c) \<noteq>
      (c div 256 < p \<and> c < len \<and> bit_at (m_vCodeWords ! unat (choices ! (at + c))) k)))"
  let ?block = "\<lambda>p v. rbind (rfold (\<lambda>j codes. rbind (Get32 choices ((at + p * 256 + j) * 8) 8) (\<lambda>tmpchoice.
            rbind (rd m_vCodeWords tmpchoice) (\<lambda>code. SetBytes codes (j * 32) code 0 32))) [0..<min (len - p * 256) 256] (replicate 8192 0))
      (\<lambda>codes. rbind (EklundhBitTranspose 256 256 codes) (\<lambda>codes.
        rfold (\<lambda>j v. XORBytes v (p * 32 + j * (nb * 32)) codes (j * 32) 32) [0..<256] v))"
  have "\<exists>v'. rfold ?block [0..<nb] v = Ok v' \<and> ?P nb v'"
  proof (rule rfold_upt_inv [where P = ?P])
    fix p v' assume p: "p < nb" and P: "?P p v'"
    let ?J = "min (len - p * 256) 256"
    have "p < (len - 1) div 256 + 1" using p nb len by (simp add: ceil_divide_def)
    then have "p * 256 \<le> len - 1" by (simp add: less_Suc_eq_le less_eq_div_iff_mult_less_eq)
    then have inside: "at + p * 256 + j < length choices" if "j < ?J" for j using that choices len by linarith
    obtain codes where codes: "rfold (\<lambda>j codes. rbind (Get32 choices ((at + p * 256 + j) * 8) 8) (\<lambda>tmpchoice.
        rbind (rd m_vCodeWords tmpchoice) (\<lambda>code. SetBytes codes (j * 32) code 0 32))) [0..<?J] (replicate 8192 0) = Ok codes"
      "length codes = 8192" "\<forall>j<256. \<forall>k<256. bit_at codes (j * 256 + k) =
        (j < ?J \<and> bit_at (m_vCodeWords ! unat (choices ! (at + p * 256 + j))) k)"
      using choice_codes [of ?J "at + p * 256" choices] inside by auto
    obtain codesT where codesT: "EklundhBitTranspose 256 256 codes = Ok codesT" "length codesT = 8192"
      "\<forall>r<256. \<forall>c<256. bit_at codesT (c * 256 + r) = bit_at codes (r * 256 + c)"
      using transpose_256 [of 1 codes "[]" 0] codes(2) by auto
    obtain v'' where v'': "rfold (\<lambda>j v. XORBytes v (p * 32 + j * (nb * 32)) codesT (j * 32) 32) [0..<256] v' = Ok v''"
      "length v'' = length v'" "drop (8192 * nb) v'' = drop (8192 * nb) v'" and bits: "\<forall>k<256. \<forall>c<256 * nb.
        bit_at v'' (k * (256 * nb) + c) = (bit_at v' (k * (256 * nb) + c) \<noteq> (c div 256 = p \<and> bit_at codesT (k * 256 + c mod 256)))"
      using add_codes [OF p _ codesT(2), of v'] P v by auto
    have "?P (Suc p) v''"
    proof (intro conjI allI impI)
      show "length v'' = length v" "drop (8192 * nb) v'' = drop (8192 * nb) v" using v'' P by simp_all
      fix k c :: nat assume k: "k < 256" and c: "c < 256 * nb"
      have m: "c mod 256 < 256" by simp
      have "bit_at codesT (k * 256 + c mod 256) = (c mod 256 < ?J \<and> bit_at (m_vCodeWords ! unat (choices ! (at + p * 256 + c mod 256))) k)"
        using codesT(3) codes(3) k m by simp
      moreover have "c mod 256 < ?J \<longleftrightarrow> c < len" "at + p * 256 + c mod 256 = at + c" if "c div 256 = p"
      proof -
        have e: "p * 256 + c mod 256 = c" using that div_mult_mod_eq [of c 256] by simp
        then show "c mod 256 < ?J \<longleftrightarrow> c < len" using m by auto
        show "at + p * 256 + c mod 256 = at + c" using e by linarith
      qed
      ultimately have "(c div 256 = p \<and> bit_at codesT (k * 256 + c mod 256)) =
          (c div 256 = p \<and> c < len \<and> bit_at (m_vCodeWords ! unat (choices ! (at + c))) k)" by metis
      then show "bit_at v'' (k * (256 * nb) + c) = (bit_at v (k * (256 * nb) + c) \<noteq>
          (c div 256 < Suc p \<and> c < len \<and> bit_at (m_vCodeWords ! unat (choices ! (at + c))) k))"
        using bits P k c by (auto simp: less_Suc_eq)
    qed
    then show "\<exists>s'. ?block p v' = Ok s' \<and> ?P (Suc p) s'" using codes(1) codesT(1) v''(1) by auto
  qed simp_all
  then obtain v' where v': "rfold ?block [0..<nb] v = Ok v'" "?P nb v'" by blast
  have "GenerateChoiceCodes choices v at len = Ok v'"
  proof -
    have e: "p * 256 div 8 = p * 32" "256 * 32 = (8192 :: nat)" for p :: nat by linarith+
    show ?thesis using v'(1) unfolding GenerateChoiceCodes_def Let_def code_sizes nb [symmetric] e by assumption
  qed
  moreover have "c div 256 < nb" if "c < 256 * nb" for c using that by (simp add: less_mult_imp_div_less mult.commute)
  ultimately show ?thesis using v'(2) by auto
qed

end
