(* ===== verification/OTRoutines.thy ===== *)
theory OTRoutines
  imports OTWindows
begin

text \<open>
  The two routines of the 1-out-of-256 OT extension (\<open>src/PSI/src/util/ot/ot-extension-1oon-ecc.cpp\<close>): the
  threads \<open>receive\<close> and \<open>send\<close> start run them on consecutive ranges of OTs, each with a socket of its own. What a
  row of the transposed matrix is used for is left to a masking function, the interface
  \<open>src/PSI/src/util/ot/maskingfunction.h\<close>: the locale \<open>masking_function\<close>. Inside it, both routines are
  reduced to one row per OT: \<open>t_row\<close> on the receiver's side and \<open>t_row\<close> plus the selected code word on the sender's.
  The protocol is \<open>RN_OT\<close>, the one the OPRG uses, for which \<open>HashValues\<close> and \<open>MaskInputs\<close> only call the masking
  function. The threads run one after another.
\<close>

section \<open>Buffers and sockets\<close>

definition DEFAULT_BITSIZE :: nat where "DEFAULT_BITSIZE = 128"

definition Create :: "nat \<Rightarrow> bytes" where
  "Create bits = replicate (ceil_divide (if bits = 0 then DEFAULT_BITSIZE else bits) 8) 0"

lemma Create_matrix: "0 < B \<Longrightarrow> Create (256 * (B * 256)) = replicate (8192 * B) 0"
proof -
  assume "0 < B"
  then have ne: "256 * (B * 256) \<noteq> 0" by simp
  have e: "256 * (B * 256) = 8 * (8192 * B)" by simp
  have c: "ceil_divide (8 * m) 8 = m" for m by (cases m) (simp_all add: ceil_divide_def)
  show ?thesis unfolding Create_def if_not_P [OF ne] unfolding e c ..
qed

text \<open>\<open>CSocket::Receive\<close> of \<open>n\<close> bytes: it returns early when the peer has closed the connection, and the routine does
  not look at its result.\<close>

definition csocket_Receive :: "bytes \<Rightarrow> nat \<Rightarrow> bytes \<Rightarrow> (bytes \<times> bytes) res" where
  "csocket_Receive buf n stream = rbind (wr_blk buf 0 (take n stream)) (\<lambda>buf. Ok (buf, drop n stream))"

section \<open>The receiver\<close>

definition OTReceiverRoutine ::
    "(bytes \<Rightarrow> nat \<Rightarrow> nat \<Rightarrow> 's \<Rightarrow> 's res) \<Rightarrow> (bytes \<Rightarrow> bytes \<Rightarrow> bytes) \<Rightarrow> bytes list \<Rightarrow> bytes \<Rightarrow> nat \<Rightarrow> nat \<Rightarrow> nat \<Rightarrow> nat \<Rightarrow> 's \<Rightarrow> (bytes \<times> 's) res" where
  "OTReceiverRoutine expandMask E m_vKeySeedMtx m_nChoices m_nCounter m_nOTs i myNumOTs s =
     (let myStartPos = i * myNumOTs; lim = min (myNumOTs + myStartPos) m_nOTs;
          buffer = Create (m_nCodeWordBits * (window_blocks myStartPos lim * m_nCodeWordBits));
          counter = of_nat ((myStartPos + m_nCounter) mod 2 ^ 32) in
      rbind (ot_loop (\<lambda>i processedOTBlocks n (T, vSnd, counter, sent, s).
          let OTsPerIteration = processedOTBlocks * m_nCodeWordBits in
          rbind (BuildMatrices E m_vKeySeedMtx T vSnd processedOTBlocks counter) (\<lambda>(T, vSnd, counter).
          rbind (GenerateChoiceCodes m_nChoices vSnd i n) (\<lambda>vSnd.
          rbind (EklundhBitTranspose m_nCodeWordBits OTsPerIteration T) (\<lambda>T.
          rbind (expandMask T i n s) (\<lambda>s.
          rbind (rd_blk vSnd 0 (m_nCodeWordBytes * OTsPerIteration)) (\<lambda>msg.
          Ok (T, Reset vSnd, counter, sent @ msg, s)))))))
        myStartPos lim (buffer, buffer, counter, [], s)) (\<lambda>(T, vSnd, counter, sent, s). Ok (sent, s)))"

text \<open>The threads: with \<open>numThreads\<close> = 0 the division in the code traps. The result holds what went to each socket.\<close>

definition REGISTER_BITS :: nat where "REGISTER_BITS = 128"

definition internal_numOTs :: "nat \<Rightarrow> nat \<Rightarrow> nat" where
  "internal_numOTs m_nOTs numThreads = ceil_divide (pad_to_multiple m_nOTs REGISTER_BITS) numThreads"

definition ot_receive ::
    "(bytes \<Rightarrow> nat \<Rightarrow> nat \<Rightarrow> 's \<Rightarrow> 's res) \<Rightarrow> (bytes \<Rightarrow> bytes \<Rightarrow> bytes) \<Rightarrow> bytes list \<Rightarrow> bytes \<Rightarrow> nat \<Rightarrow> nat \<Rightarrow> nat \<Rightarrow> 's \<Rightarrow> (bytes list \<times> nat \<times> 's) res" where
  "ot_receive expandMask E m_vKeySeedMtx m_nChoices m_nCounter m_nOTs numThreads s =
     (if m_nOTs = 0 then Ok ([], m_nCounter, s)
      else rbind (rassert (0 < numThreads)) (\<lambda>_.
        rbind (rfold (\<lambda>i (sockets, s).
            rbind (OTReceiverRoutine expandMask E m_vKeySeedMtx m_nChoices m_nCounter m_nOTs i (internal_numOTs m_nOTs numThreads) s)
              (\<lambda>(sent, s). Ok (sockets @ [sent], s)))
          [0..<numThreads] ([], s)) (\<lambda>(sockets, s). Ok (sockets, m_nCounter + m_nOTs, s))))"

section \<open>The sender\<close>

definition OTSenderRoutine ::
    "(bytes \<Rightarrow> nat \<Rightarrow> nat \<Rightarrow> 's \<Rightarrow> 's res) \<Rightarrow> (bytes \<Rightarrow> bytes \<Rightarrow> bytes) \<Rightarrow> bytes list \<Rightarrow> bytes \<Rightarrow> nat \<Rightarrow> nat \<Rightarrow> nat \<Rightarrow> nat \<Rightarrow> bytes \<Rightarrow> 's \<Rightarrow> 's res" where
  "OTSenderRoutine expandMask E m_vKeySeeds m_nU m_nCounter m_nOTs i myNumOTs stream s =
     (let myStartPos = i * myNumOTs; lim = min (myNumOTs + myStartPos) m_nOTs;
          processedOTBlocks = min NUMOTBLOCKS (ceil_divide myNumOTs m_nCodeWordBits);
          buffer = Create (m_nCodeWordBits * (processedOTBlocks * m_nCodeWordBits));
          counter = of_nat ((myStartPos + m_nCounter) mod 2 ^ 32) in
      rbind (ot_loop (\<lambda>nProgress processedOTBlocks n (Q, vRcv, counter, stream, s).
          let OTsPerIteration = processedOTBlocks * m_nCodeWordBits in
          rbind (csocket_Receive vRcv (OTsPerIteration * m_nCodeWordBytes) stream) (\<lambda>(vRcv, stream).
          rbind (BuildQMatrix E m_vKeySeeds m_nU Q vRcv processedOTBlocks counter) (\<lambda>(Q, counter).
          rbind (EklundhBitTranspose m_nCodeWordBits OTsPerIteration Q) (\<lambda>Q.
          rbind (expandMask Q nProgress n s) (\<lambda>s.
          Ok (Q, vRcv, counter, stream, s))))))
        myStartPos lim (buffer, buffer, counter, stream, s)) (\<lambda>(Q, vRcv, counter, stream, s). Ok s))"

definition ot_send ::
    "(bytes \<Rightarrow> nat \<Rightarrow> nat \<Rightarrow> 's \<Rightarrow> 's res) \<Rightarrow> (bytes \<Rightarrow> bytes \<Rightarrow> bytes) \<Rightarrow> bytes list \<Rightarrow> bytes \<Rightarrow> nat \<Rightarrow> nat \<Rightarrow> nat \<Rightarrow> bytes list \<Rightarrow> 's \<Rightarrow> (nat \<times> 's) res" where
  "ot_send expandMask E m_vKeySeeds m_nU m_nCounter m_nOTs numThreads sockets s =
     (if m_nOTs = 0 then Ok (m_nCounter, s)
      else rbind (rassert (0 < numThreads)) (\<lambda>_.
        rbind (rfold (\<lambda>i s. rbind (rd sockets i) (\<lambda>stream.
            OTSenderRoutine expandMask E m_vKeySeeds m_nU m_nCounter m_nOTs i (internal_numOTs m_nOTs numThreads) stream s))
          [0..<numThreads] s) (\<lambda>s. Ok (m_nCounter + m_nOTs, s))))"

section \<open>Rows and messages\<close>

text \<open>Row \<open>i\<close> of the receiver's transposed matrix, in a thread that starts at OT \<open>start\<close> with the counter \<open>ctr\<close>.\<close>

definition t_row :: "(bytes \<Rightarrow> bytes \<Rightarrow> bytes) \<Rightarrow> bytes list \<Rightarrow> u64 \<Rightarrow> nat \<Rightarrow> nat \<Rightarrow> bytes" where
  "t_row E keys ctr start i = of_bits (\<lambda>k. stream_bit E (keys ! (2 * k)) ctr (i - start)) 32"

text \<open>The message of a window of \<open>nb\<close> blocks that begins at OT \<open>at\<close> and has \<open>n\<close> OTs.\<close>

definition window_msg :: "(bytes \<Rightarrow> bytes \<Rightarrow> bytes) \<Rightarrow> bytes list \<Rightarrow> bytes \<Rightarrow> u64 \<Rightarrow> nat \<Rightarrow> nat \<Rightarrow> nat \<Rightarrow> nat \<Rightarrow> bytes" where
  "window_msg E keys choices ctr start at nb n = of_bits (\<lambda>idx. let k = idx div (256 * nb); c = idx mod (256 * nb) in
     (stream_bit E (keys ! (2 * k + 1)) ctr (at - start + c) \<noteq> stream_bit E (keys ! (2 * k)) ctr (at - start + c)) \<noteq>
     (c < n \<and> bit_at (m_vCodeWords ! unat (choices ! (at + c))) k)) (8192 * nb)"

function window_msgs :: "(nat \<Rightarrow> nat \<Rightarrow> nat \<Rightarrow> bytes) \<Rightarrow> nat \<Rightarrow> nat \<Rightarrow> bytes" where
  "window_msgs msg i lim =
     (if i < lim then msg i (window_blocks i lim) (window_OTs i lim) @ window_msgs msg (i + window_OTs i lim) lim else [])"
  by auto
termination
proof (relation "measure (\<lambda>(msg, i, lim). lim - i)")
  fix i lim :: nat assume "i < lim"
  then show "\<And>msg. ((msg, i + window_OTs i lim, lim), msg, i, lim) \<in> measure (\<lambda>(msg, i, lim). lim - i)"
    using window_positive [of i lim] by auto
qed simp

declare window_msgs.simps [simp del]

lemma window_msgs_end [simp]: "lim \<le> i \<Longrightarrow> window_msgs msg i lim = []"
  by (subst window_msgs.simps) simp

lemma ot_loop_inv:
  assumes "i \<le> lim" and "P i s"
    and step: "\<And>i s. i < lim \<Longrightarrow> P i s \<Longrightarrow> \<exists>s'. step i (window_blocks i lim) (window_OTs i lim) s = Ok s' \<and> P (i + window_OTs i lim) s'"
  shows "\<exists>s'. ot_loop step i lim s = Ok s' \<and> P lim s'"
  using assms(1,2)
proof (induction "lim - i" arbitrary: i s rule: less_induct)
  case less
  show ?case
  proof (cases "i < lim")
    case True
    then obtain s' where s': "step i (window_blocks i lim) (window_OTs i lim) s = Ok s'" "P (i + window_OTs i lim) s'"
      using step less.prems(2) by blast
    have "i + window_OTs i lim \<le> lim" using True by (simp add: window_OTs_def)
    then have "\<exists>s''. ot_loop step (i + window_OTs i lim) lim s' = Ok s'' \<and> P lim s''"
      using less.hyps [of "i + window_OTs i lim"] s'(2) window_positive [OF True] True by simp
    then show ?thesis using True s'(1) by (subst ot_loop.simps) simp
  next
    case False
    then show ?thesis using less.prems by (subst ot_loop.simps) simp
  qed
qed

lemma window_bounds:
  assumes "i < lim"
  shows "0 < window_blocks i lim" "window_OTs i lim \<le> 256 * window_blocks i lim" "i + window_OTs i lim \<le> lim"
    "window_blocks i lim = ceil_divide (window_OTs i lim) 256"
    "i + window_OTs i lim < lim \<Longrightarrow> window_OTs i lim = 256 * window_blocks i lim"
proof -
  let ?B = "window_blocks i lim" and ?n = "window_OTs i lim"
  show "0 < ?B" using assms by (simp add: window_blocks_def NUMOTBLOCKS_def ceil_divide_def)
  show "?n \<le> 256 * ?B" "i + ?n \<le> lim" using assms by (simp_all add: window_OTs_def code_sizes)
  show "?n = 256 * ?B" if "i + ?n < lim" using that by (auto simp: window_OTs_def code_sizes)
  show "?B = ceil_divide ?n 256"
  proof (cases "lim - i \<le> ?B * 256")
    case True
    then have n: "?n = lim - i" by (simp add: window_OTs_def code_sizes)
    have "(lim - i - 1) div 256 < ?B" using True \<open>0 < ?B\<close> assms by (simp add: div_less_iff_less_mult)
    then have "ceil_divide (lim - i) 256 \<le> ?B" by (simp add: ceil_divide_def)
    moreover have "?B \<le> ceil_divide (lim - i) 256" by (simp add: window_blocks_def code_sizes)
    ultimately show ?thesis using n by simp
  next
    case False
    then have n: "?n = ?B * 256" by (simp add: window_OTs_def code_sizes)
    obtain B where "?B = Suc B" using \<open>0 < ?B\<close> by (cases ?B) auto
    then show ?thesis unfolding n by (simp add: ceil_divide_def)
  qed
qed

lemma window_blocks_mono: "i \<le> j \<Longrightarrow> j < lim \<Longrightarrow> window_blocks j lim \<le> window_blocks i lim"
  unfolding window_blocks_def code_sizes ceil_divide_def by (intro min.mono) (simp_all add: div_le_mono diff_le_mono)

section \<open>One window\<close>

text \<open>The counter at the window that begins at OT \<open>i\<close>.\<close>

definition counter_at :: "u64 \<Rightarrow> nat \<Rightarrow> nat \<Rightarrow> u64 \<Rightarrow> bool" where
  "counter_at ctr start i c \<longleftrightarrow> start \<le> i \<and> (\<exists>d. i - start = 128 * d \<and> c = ctr + of_nat d)"

lemma counter_at_start: "counter_at ctr start start ctr"
  by (auto simp: counter_at_def intro: exI [of _ 0])

lemma counter_at_next:
  assumes "start \<le> i" "i - start = 128 * d" "i < lim" "i + window_OTs i lim < lim"
  shows "counter_at ctr start (i + window_OTs i lim) (ctr + of_nat (d + 2 * window_blocks i lim))"
proof -
  have n: "window_OTs i lim = 256 * window_blocks i lim" by (rule window_bounds(5) [OF assms(3,4)])
  have "i + window_OTs i lim - start = i - start + window_OTs i lim" using assms(1) by simp
  also have "\<dots> = 128 * (d + 2 * window_blocks i lim)" unfolding assms(2) n by simp
  finally show ?thesis unfolding counter_at_def using assms(1) by (intro conjI exI [of _ "d + 2 * window_blocks i lim"]) simp_all
qed

lemma stream_bit_later: "stream_bit E key (ctr + of_nat d) c = stream_bit E key ctr (128 * d + c)"
  by (simp add: stream_bit_def add.assoc)

lemma row_at:
  assumes "length v = 8192 * nb" and "j < nb * 256"
    and "\<And>r. r < 256 \<Longrightarrow> bit_at v (j * 256 + r) = f r"
  shows "take 32 (drop (32 * j) (v @ w)) = of_bits f 32"
proof (rule of_bits_eq)
  have fits: "32 * j + 32 \<le> length v" using assms(1,2) by simp
  then show "length (take 32 (drop (32 * j) (v @ w))) = 32" by simp
  fix r :: nat assume r: "r < 8 * 32"
  then have "bit_at (take 32 (drop (32 * j) (v @ w))) r = bit_at (drop (32 * j) (v @ w)) r" by (rule bit_at_take)
  also have "\<dots> = bit_at (v @ w) (8 * (32 * j) + r)" by (rule bit_at_drop) (use fits r in simp)
  also have "\<dots> = bit_at v (8 * (32 * j) + r)"
  proof -
    have "8 * (32 * j) + r < 8 * length v" using fits r by linarith
    then show ?thesis unfolding bit_at_append by (simp only: if_True)
  qed
  also have "8 * (32 * j) + r = j * 256 + r" by simp
  finally show "bit_at (take 32 (drop (32 * j) (v @ w))) r = f r" using assms(3) r by simp
qed

lemma receiver_matrix:
  fixes ctr :: u64
  assumes E: "aes_ok E" and keys: "length keys = 512" and nb: "0 < nb" "nb \<le> B" and n: "0 < n" "nb = ceil_divide n 256"
    and T: "length T = 8192 * B" and choices: "at + n \<le> length choices" and after: "start \<le> at" "at - start = 128 * d"
  shows "\<exists>T1 S1 S T2. BuildMatrices E keys T (replicate (8192 * B) 0) nb (ctr + of_nat d) = Ok (T1, S1, ctr + of_nat (d + 2 * nb)) \<and>
    GenerateChoiceCodes choices S1 at n = Ok S \<and> EklundhBitTranspose 256 (nb * 256) T1 = Ok T2 \<and>
    length T2 = 8192 * B \<and> length S = 8192 * B \<and> take (8192 * nb) S = window_msg E keys choices ctr start at nb n \<and>
    (\<forall>j<nb * 256. take 32 (drop (32 * j) T2) = t_row E keys ctr start (at + j))"
proof -
  let ?c = "ctr + of_nat d" and ?R = "replicate (8192 * B) (0 :: u8)"
  define G0 where "G0 = key_matrix E (\<lambda>k. keys ! (2 * k)) ?c nb"
  define G1 where "G1 = key_matrix E (\<lambda>k. keys ! (2 * k + 1)) ?c nb"
  let ?T1 = "G0 @ drop (8192 * nb) T" and ?S1 = "bxor G1 G0 @ drop (8192 * nb) ?R"
  have l: "length G0 = 8192 * nb" "length G1 = 8192 * nb" unfolding G0_def G1_def by (rule length_key_matrix [OF E])+
  have le: "8192 * nb \<le> 8192 * B" using nb by simp
  have build: "BuildMatrices E keys T ?R nb ?c = Ok (?T1, ?S1, ctr + of_nat (d + 2 * nb))"
    using BuildMatrices_ok [OF E keys, of nb T ?R ?c] T le unfolding G0_def G1_def by (simp add: add.assoc)
  have lS1: "length ?S1 = 8192 * B" using l le by simp
  obtain S where S: "GenerateChoiceCodes choices ?S1 at n = Ok S" "length S = 8192 * B" "\<forall>k<256. \<forall>c<256 * nb. bit_at S (k * (256 * nb) + c) =
      (bit_at ?S1 (k * (256 * nb) + c) \<noteq> (c < n \<and> bit_at (m_vCodeWords ! unat (choices ! (at + c))) k))"
    using GenerateChoiceCodes_ok [OF n, of ?S1 at choices] lS1 le choices by auto
  have "take (8192 * nb) S = window_msg E keys choices ctr start at nb n"
    unfolding window_msg_def Let_def
  proof (rule of_bits_eq)
    show "length (take (8192 * nb) S) = 8192 * nb" using S(2) le by simp
    fix idx assume idx: "idx < 8 * (8192 * nb)"
    define k c where "k = idx div (256 * nb)" and "c = idx mod (256 * nb)"
    have c: "c < 256 * nb" using nb by (simp add: c_def)
    have k: "k < 256" unfolding k_def by (rule less_mult_imp_div_less) (use idx in simp)
    have i: "idx = k * (256 * nb) + c" unfolding k_def c_def by (rule div_mult_mod_eq [symmetric])
    have "bit_at ?S1 (k * (256 * nb) + c) = bit_at (bxor G1 G0) (k * (256 * nb) + c)"
      using matrix_index [OF k c] l by (simp add: bit_at_append)
    also have "\<dots> = (bit_at G1 (k * (256 * nb) + c) \<noteq> bit_at G0 (k * (256 * nb) + c))"
      using matrix_index [OF k c] l by (simp add: bit_at_bxor)
    also have "\<dots> = (stream_bit E (keys ! (2 * k + 1)) ctr (at - start + c) \<noteq> stream_bit E (keys ! (2 * k)) ctr (at - start + c))"
      unfolding G0_def G1_def bit_at_key_matrix [OF E k c] after(2) stream_bit_later ..
    finally have "bit_at S idx = ((stream_bit E (keys ! (2 * k + 1)) ctr (at - start + c) \<noteq> stream_bit E (keys ! (2 * k)) ctr (at - start + c)) \<noteq>
        (c < n \<and> bit_at (m_vCodeWords ! unat (choices ! (at + c))) k))" using S(3) k c unfolding i by simp
    moreover have "bit_at (take (8192 * nb) S) idx = bit_at S idx" using idx by (rule bit_at_take)
    ultimately show "bit_at (take (8192 * nb) S) idx =
      ((stream_bit E (keys ! (2 * (idx div (256 * nb)) + 1)) ctr (at - start + idx mod (256 * nb)) \<noteq>
        stream_bit E (keys ! (2 * (idx div (256 * nb)))) ctr (at - start + idx mod (256 * nb))) \<noteq>
       (idx mod (256 * nb) < n \<and> bit_at (m_vCodeWords ! unat (choices ! (at + idx mod (256 * nb)))) (idx div (256 * nb))))"
      unfolding k_def c_def by simp
  qed
  moreover obtain G where G: "EklundhBitTranspose 256 (nb * 256) ?T1 = Ok (G @ drop (8192 * nb) T)" "length G = 8192 * nb"
    "\<forall>r<256. \<forall>c<nb * 256. bit_at G (c * 256 + r) = bit_at G0 (r * (nb * 256) + c)"
    using transpose_256 [OF nb(1) l(1), of "drop (8192 * nb) T" "1024 * (B - nb)"] T l(1) by (auto simp: diff_mult_distrib2)
  moreover have "take 32 (drop (32 * j) (G @ drop (8192 * nb) T)) = t_row E keys ctr start (at + j)" if j: "j < nb * 256" for j
    unfolding t_row_def
  proof (rule row_at [OF G(2) j])
    fix r :: nat assume r: "r < 256"
    have "bit_at G (j * 256 + r) = bit_at G0 (r * (256 * nb) + j)" using G(3) r j by (simp add: mult.commute)
    also have "\<dots> = stream_bit E (keys ! (2 * r)) ctr (at - start + j)"
      unfolding G0_def after(2) using bit_at_key_matrix [OF E r, of j nb] j by (simp add: stream_bit_later mult.commute)
    finally show "bit_at G (j * 256 + r) = stream_bit E (keys ! (2 * r)) ctr (at + j - start)" using after(1) by simp
  qed
  moreover have "length (G @ drop (8192 * nb) T) = 8192 * B" using G(2) T le by simp
  ultimately show ?thesis using build S by blast
qed

text \<open>The sender's key for a row is the receiver's key its choice bit selects.\<close>

definition keys_match :: "bytes list \<Rightarrow> bytes list \<Rightarrow> bytes \<Rightarrow> bool" where
  "keys_match keySeeds keys U \<longleftrightarrow> length keys = 512 \<and> length keySeeds = 256 \<and> length U = 32 \<and>
     (\<forall>k<256. keySeeds ! k = keys ! (2 * k + of_bool (bit_at U k)))"

lemma sender_matrix:
  fixes ctr :: u64
  assumes E: "aes_ok E" and m: "keys_match keySeeds keys U" and nb: "0 < nb" "nb \<le> B"
    and Q: "length Q = 8192 * B" and R: "length R = 8192 * B" "take (8192 * nb) R = window_msg E keys choices ctr start at nb n"
    and after: "start \<le> at" "at - start = 128 * d"
  shows "\<exists>Q1 Q2. BuildQMatrix E keySeeds U Q R nb (ctr + of_nat d) = Ok (Q1, ctr + of_nat (d + 2 * nb)) \<and>
    EklundhBitTranspose 256 (nb * 256) Q1 = Ok Q2 \<and> length Q2 = 8192 * B \<and>
    (\<forall>j<min n (nb * 256). take 32 (drop (32 * j) Q2) =
       bxor (t_row E keys ctr start (at + j)) (band U (m_vCodeWords ! unat (choices ! (at + j)))))"
proof -
  let ?c = "ctr + of_nat d"
  have lens: "length keys = 512" "length keySeeds = 256" "length U = 32" using m by (simp_all add: keys_match_def)
  have le: "8192 * nb \<le> 8192 * B" using nb by simp
  define X where "X = concat (map (q_row E keySeeds U R ?c nb) [0..<256])"
  have lr: "length (q_row E keySeeds U R ?c nb k) = 32 * nb" if "k < 256" for k
  proof -
    have "32 * nb \<le> length R - k * (32 * nb)" using row_fits [OF that, of nb] R(1) le by linarith
    then show ?thesis by (simp add: q_row_def Let_def length_key_row [OF E] min.absorb2)
  qed
  have lX: "length X = 8192 * nb" unfolding X_def by (subst length_concat_same [where n = "32 * nb"]) (use lr in auto)
  have build: "BuildQMatrix E keySeeds U Q R nb ?c = Ok (X @ drop (8192 * nb) Q, ctr + of_nat (d + 2 * nb))"
    using BuildQMatrix_ok [OF E lens(2,3), of nb Q R ?c] Q R(1) le unfolding X_def by (simp add: add.assoc)
  have bitX: "bit_at X (k * (256 * nb) + c) = (stream_bit E (keys ! (2 * k)) ctr (at - start + c) \<noteq>
      (bit_at U k \<and> c < n \<and> bit_at (m_vCodeWords ! unat (choices ! (at + c))) k))" if k: "k < 256" and c: "c < 256 * nb" for k c
  proof -
    let ?row = "key_row E (keySeeds ! k) ?c nb"
    have "bit_at X (k * (8 * (32 * nb)) + c) = bit_at (q_row E keySeeds U R ?c nb k) c"
      unfolding X_def using k c lr by (intro bit_at_concat) simp_all
    then have q: "bit_at X (k * (256 * nb) + c) = bit_at (q_row E keySeeds U R ?c nb k) c" by simp
    have row: "bit_at ?row c = stream_bit E (keySeeds ! k) ctr (at - start + c)"
      unfolding after(2) bit_at_key_row [OF E c] stream_bit_later ..
    have key: "keySeeds ! k = keys ! (2 * k + of_bool (bit_at U k))" using m k by (simp add: keys_match_def)
    show ?thesis
    proof (cases "bit_at U k")
      case True
      have fits: "k * (32 * nb) + 32 * nb \<le> length R" using row_fits [OF k, of nb] R(1) le by linarith
      have idx: "k * (256 * nb) + c < 8 * (8192 * nb)" by (rule matrix_index [OF k c])
      have "bit_at (take (32 * nb) (drop (k * (32 * nb)) R)) c = bit_at R (8 * (k * (32 * nb)) + c)"
        using fits c by (simp add: bit_at_take bit_at_drop)
      also have "8 * (k * (32 * nb)) + c = k * (256 * nb) + c" by simp
      also have "bit_at R (k * (256 * nb) + c) = bit_at (window_msg E keys choices ctr start at nb n) (k * (256 * nb) + c)"
        using bit_at_take [OF idx, of R] R(2) by simp
      also have "\<dots> = ((stream_bit E (keys ! (2 * k + 1)) ctr (at - start + c) \<noteq> stream_bit E (keys ! (2 * k)) ctr (at - start + c)) \<noteq>
          (c < n \<and> bit_at (m_vCodeWords ! unat (choices ! (at + c))) k))"
        unfolding window_msg_def Let_def bit_at_of_bits [OF idx] div_code [OF c, THEN conjunct1] div_code [OF c, THEN conjunct2] ..
      finally have "bit_at (bxor ?row (take (32 * nb) (drop (k * (32 * nb)) R))) c =
          (stream_bit E (keySeeds ! k) ctr (at - start + c) \<noteq>
            ((stream_bit E (keys ! (2 * k + 1)) ctr (at - start + c) \<noteq> stream_bit E (keys ! (2 * k)) ctr (at - start + c)) \<noteq>
            (c < n \<and> bit_at (m_vCodeWords ! unat (choices ! (at + c))) k)))"
        using fits c by (simp add: bit_at_bxor length_key_row [OF E] row)
      then show ?thesis unfolding q using True key by (simp add: q_row_def Let_def) argo
    next
      case False
      then show ?thesis unfolding q using key row by (simp add: q_row_def Let_def)
    qed
  qed
  obtain G where G: "EklundhBitTranspose 256 (nb * 256) (X @ drop (8192 * nb) Q) = Ok (G @ drop (8192 * nb) Q)" "length G = 8192 * nb"
    "\<forall>r<256. \<forall>c<nb * 256. bit_at G (c * 256 + r) = bit_at X (r * (nb * 256) + c)"
    using transpose_256 [OF nb(1) lX, of "drop (8192 * nb) Q" "1024 * (B - nb)"] Q lX by (auto simp: diff_mult_distrib2)
  have "take 32 (drop (32 * j) (G @ drop (8192 * nb) Q)) =
      bxor (t_row E keys ctr start (at + j)) (band U (m_vCodeWords ! unat (choices ! (at + j))))" if j: "j < min n (nb * 256)" for j
  proof -
    let ?code = "m_vCodeWords ! unat (choices ! (at + j))"
    have code: "length ?code = 32" using unsigned_less [of "choices ! (at + j)", where ?'a = nat] by simp
    let ?f = "\<lambda>r. stream_bit E (keys ! (2 * r)) ctr (at - start + j) \<noteq> (bit_at U r \<and> bit_at ?code r)"
    have "take 32 (drop (32 * j) (G @ drop (8192 * nb) Q)) = of_bits ?f 32"
    proof (rule row_at [OF G(2)])
      show "j < nb * 256" using j by simp
      fix r :: nat assume r: "r < 256"
      have "bit_at G (j * 256 + r) = bit_at X (r * (256 * nb) + j)" using G(3) r j by (simp add: mult.commute)
      then show "bit_at G (j * 256 + r) = ?f r" using bitX [OF r, of j] j by simp
    qed
    also have "of_bits ?f 32 = bxor (t_row E keys ctr start (at + j)) (band U ?code)"
    proof (rule of_bits_eq [symmetric])
      show "length (bxor (t_row E keys ctr start (at + j)) (band U ?code)) = 32" using lens(3) code by (simp add: t_row_def)
      fix r :: nat assume "r < 8 * 32"
      then show "bit_at (bxor (t_row E keys ctr start (at + j)) (band U ?code)) r = ?f r"
        using lens(3) code after(1) by (simp add: bit_at_bxor bit_at_band t_row_def bit_at_of_bits)
    qed
    finally show ?thesis .
  qed
  then show ?thesis using build G lX Q le by auto
qed

section \<open>The ranges of the threads\<close>

text \<open>The row of OT \<open>i\<close> when every thread has \<open>my\<close> OTs, and what the thread \<open>tid\<close> sends.\<close>

definition ot_row :: "(bytes \<Rightarrow> bytes \<Rightarrow> bytes) \<Rightarrow> bytes list \<Rightarrow> nat \<Rightarrow> nat \<Rightarrow> nat \<Rightarrow> bytes" where
  "ot_row E keys cnt my i = (let start = i div my * my in t_row E keys (of_nat ((start + cnt) mod 2 ^ 32)) start i)"

definition thread_msgs :: "(bytes \<Rightarrow> bytes \<Rightarrow> bytes) \<Rightarrow> bytes list \<Rightarrow> bytes \<Rightarrow> nat \<Rightarrow> nat \<Rightarrow> nat \<Rightarrow> nat \<Rightarrow> bytes" where
  "thread_msgs E keys choices cnt nOTs my tid = (let start = tid * my in
     window_msgs (window_msg E keys choices (of_nat ((start + cnt) mod 2 ^ 32)) start) start (min (my + start) nOTs))"

lemma length_ot_row [simp]: "length (ot_row E keys cnt my i) = 32"
  by (simp add: ot_row_def t_row_def Let_def)

lemma ot_row_thread:
  assumes "tid * my \<le> i" and "i < my + tid * my"
  shows "ot_row E keys cnt my i = t_row E keys (of_nat ((tid * my + cnt) mod 2 ^ 32)) (tid * my) i"
proof -
  have "i div my = tid" using assms by (intro div_nat_eqI) (simp_all add: mult.commute)
  then show ?thesis by (simp add: ot_row_def Let_def)
qed

lemma thread_range:
  "fold f [tid * my..<min (my + tid * my) n] (fold f [0..<min (tid * my) n] s) = fold f [0..<min (Suc tid * my) n] s"
proof (cases "tid * my \<le> n")
  case True
  then have "[0..<min (Suc tid * my) n] = [0..<tid * my] @ [tid * my..<min (my + tid * my) n]"
    by (metis add_diff_inverse_nat le_add2 min.bounded_iff mult_Suc not_less upt_add_eq_append zero_le)
  then show ?thesis using True by simp
qed (simp add: min_absorb2)

lemma threads_cover: "0 < T \<Longrightarrow> n \<le> T * internal_numOTs n T"
proof -
  have c: "x \<le> ceil_divide x d * d" if d: "0 < d" for x d :: nat
  proof (cases x)
    case (Suc y)
    have "y < (y div d + 1) * d" using d by (simp add: dividend_less_div_times)
    then show ?thesis using Suc by (simp add: ceil_divide_def)
  qed simp
  assume "0 < T"
  then show ?thesis unfolding internal_numOTs_def pad_to_multiple_def
    using c [of 128 n] c [of T "ceil_divide n REGISTER_BITS * REGISTER_BITS"] by (simp add: REGISTER_BITS_def mult.commute)
qed

section \<open>Masking functions\<close>

text \<open>What a masking function promises: it handles the rows one after another, and keeps what it needs (\<open>good\<close>).\<close>

locale masking_function =
  fixes expandMask :: "bytes \<Rightarrow> nat \<Rightarrow> nat \<Rightarrow> 's \<Rightarrow> 's res"
    and row :: "nat \<Rightarrow> bytes \<Rightarrow> 's \<Rightarrow> 's"
    and good :: "'s \<Rightarrow> bool"
    and limit :: nat
  assumes expand_rows: "good s \<Longrightarrow> at + n \<le> limit \<Longrightarrow> 32 * n \<le> length M \<Longrightarrow>
      expandMask M at n s = Ok (fold (\<lambda>j. row (at + j) (take 32 (drop (32 * j) M))) [0..<n] s)"
    and good_row: "good s \<Longrightarrow> i < limit \<Longrightarrow> length r = 32 \<Longrightarrow> good (row i r s)"
begin

lemma good_rows:
  "good s \<Longrightarrow> set is \<subseteq> {..<limit} \<Longrightarrow> (\<And>i. length (R i) = 32) \<Longrightarrow> good (fold (\<lambda>i. row i (R i)) is s)"
  by (induction "is" arbitrary: s) (auto intro: good_row)

lemma expand_as:
  assumes "good s" and "at + n \<le> limit" and "32 * n \<le> length M" and "\<And>j. j < n \<Longrightarrow> take 32 (drop (32 * j) M) = R (at + j)"
  shows "expandMask M at n s = Ok (fold (\<lambda>i. row i (R i)) [at..<at + n] s)"
proof -
  have "fold (\<lambda>j. row (at + j) (take 32 (drop (32 * j) M))) [0..<n] s = fold (\<lambda>j. row (at + j) (R (at + j))) [0..<n] s"
    by (rule fold_cong) (use assms(4) in auto)
  also have "\<dots> = fold (\<lambda>i. row i (R i)) (map (\<lambda>j. at + j) [0..<n]) s" by (simp add: fold_map comp_def)
  also have "map (\<lambda>j. at + j) [0..<n] = [at..<at + n]" by (rule nth_equalityI) simp_all
  finally show ?thesis using expand_rows [OF assms(1-3)] by simp
qed

lemma rows_then: "a \<le> b \<Longrightarrow> b \<le> c \<Longrightarrow> fold f [b..<c] (fold f [a..<b] s) = fold f [a..<c] s"
  by (metis fold_append comp_apply upt_add_eq_append le_Suc_ex)

lemma OTReceiverRoutine_rows:
  fixes tid my cnt nOTs :: nat and ctr :: u64
  assumes E: "aes_ok E" and keys: "length keys = 512" and nOTs: "nOTs \<le> length choices" "nOTs \<le> limit" and s: "good s"
  defines "start \<equiv> tid * my" and "lim \<equiv> min (my + tid * my) nOTs" and "ctr \<equiv> of_nat ((tid * my + cnt) mod 2 ^ 32)"
  shows "OTReceiverRoutine expandMask E keys choices cnt nOTs tid my s =
    Ok (window_msgs (window_msg E keys choices ctr start) start lim, fold (\<lambda>i. row i (t_row E keys ctr start i)) [start..<lim] s)"
proof (cases "start < lim")
  case True
  let ?B = "window_blocks start lim" and ?R = "t_row E keys ctr start" and ?msg = "window_msg E keys choices ctr start"
  let ?P = "\<lambda>i (T :: bytes, vSnd :: bytes, c, sent, s'). start \<le> i \<and> length T = 8192 * ?B \<and> vSnd = replicate (8192 * ?B) 0 \<and>
    (i < lim \<longrightarrow> counter_at ctr start i c) \<and> sent @ window_msgs ?msg i lim = window_msgs ?msg start lim \<and>
    s' = fold (\<lambda>i. row i (?R i)) [start..<i] s \<and> good s'"
  let ?buffer = "replicate (8192 * ?B) (0 :: u8)"
  let ?step = "\<lambda>i processedOTBlocks n (T, vSnd, counter, sent, s).
          rbind (BuildMatrices E keys T vSnd processedOTBlocks counter) (\<lambda>(T, vSnd, counter).
          rbind (GenerateChoiceCodes choices vSnd i n) (\<lambda>vSnd.
          rbind (EklundhBitTranspose 256 (processedOTBlocks * 256) T) (\<lambda>T.
          rbind (expandMask T i n s) (\<lambda>s.
          rbind (rd_blk vSnd 0 (32 * (processedOTBlocks * 256))) (\<lambda>msg.
          Ok (T, Reset vSnd, counter, sent @ msg, s))))))"
  have limit: "lim \<le> limit" "lim \<le> length choices" using nOTs by (simp_all add: lim_def)
  have lR: "length (?R i) = 32" for i by (simp add: t_row_def)
  have "\<exists>st. ot_loop ?step start lim (?buffer, ?buffer, ctr, [], s) = Ok st \<and> ?P lim st"
  proof (rule ot_loop_inv [where P = ?P and step = ?step])
    show "?P start (?buffer, ?buffer, ctr, [], s)" using s by (simp add: counter_at_start)
    fix i st assume i: "i < lim" and P: "?P i st"
    obtain T c sent s' d where st: "st = (T, ?buffer, c, sent, s')" and T: "length T = 8192 * ?B"
      and at: "start \<le> i" "i - start = 128 * d" and c: "c = ctr + of_nat d"
      and sent: "sent @ window_msgs ?msg i lim = window_msgs ?msg start lim"
      and s': "s' = fold (\<lambda>i. row i (?R i)) [start..<i] s" "good s'" using P i by (auto simp: counter_at_def)
    let ?nb = "window_blocks i lim" and ?n = "window_OTs i lim"
    note w = window_bounds [OF i]
    have nb: "?nb \<le> ?B" by (rule window_blocks_mono [OF at(1) i])
    have choices: "i + ?n \<le> length choices" "i + ?n \<le> limit" using w(3) limit by simp_all
    obtain T1 S1 S T2 where run: "BuildMatrices E keys T ?buffer ?nb c = Ok (T1, S1, ctr + of_nat (d + 2 * ?nb))"
      "GenerateChoiceCodes choices S1 i ?n = Ok S" "EklundhBitTranspose 256 (?nb * 256) T1 = Ok T2"
      and l: "length T2 = 8192 * ?B" "length S = 8192 * ?B" and S: "take (8192 * ?nb) S = ?msg i ?nb ?n"
      and rows: "\<forall>j<?nb * 256. take 32 (drop (32 * j) T2) = ?R (i + j)"
      using receiver_matrix [OF E keys w(1) nb window_positive [OF i] w(4) T choices(1) at, of ctr] unfolding c by blast
    have m: "expandMask T2 i ?n s' = Ok (fold (\<lambda>i. row i (?R i)) [i..<i + ?n] s')"
      by (rule expand_as [OF s'(2) choices(2)]) (use w(2) nb l(1) rows in simp_all)
    have rd: "rd_blk S 0 (32 * (?nb * 256)) = Ok (?msg i ?nb ?n)"
    proof -
      have e: "32 * (?nb * 256) = 8192 * ?nb" by simp
      show ?thesis unfolding e using l(2) S nb by (simp add: rd_blk_def)
    qed
    have "window_msgs ?msg i lim = ?msg i ?nb ?n @ window_msgs ?msg (i + ?n) lim" using i by (subst window_msgs.simps) simp
    then have "(sent @ ?msg i ?nb ?n) @ window_msgs ?msg (i + ?n) lim = window_msgs ?msg start lim" using sent by simp
    moreover have "fold (\<lambda>i. row i (?R i)) [i..<i + ?n] s' = fold (\<lambda>i. row i (?R i)) [start..<i + ?n] s"
      unfolding s'(1) by (rule rows_then) (use at in simp_all)
    moreover have "good (fold (\<lambda>i. row i (?R i)) [start..<i + ?n] s)"
      by (rule good_rows [OF s]) (use choices(2) lR in auto)
    moreover have "i + ?n < lim \<longrightarrow> counter_at ctr start (i + ?n) (ctr + of_nat (d + 2 * ?nb))"
      using counter_at_next [OF at i] by blast
    ultimately have "?step i ?nb ?n st = Ok (T2, Reset S, ctr + of_nat (d + 2 * ?nb), sent @ ?msg i ?nb ?n, fold (\<lambda>i. row i (?R i)) [start..<i + ?n] s) \<and>
        ?P (i + ?n) (T2, Reset S, ctr + of_nat (d + 2 * ?nb), sent @ ?msg i ?nb ?n, fold (\<lambda>i. row i (?R i)) [start..<i + ?n] s)"
      unfolding st using run m rd l at(1) by (simp add: Reset_def)
    then show "\<exists>s'. ?step i ?nb ?n st = Ok s' \<and> ?P (i + ?n) s'" by blast
  qed (use True in simp)
  then obtain T S c sent s' where run: "ot_loop ?step start lim (?buffer, ?buffer, ctr, [], s) = Ok (T, S, c, sent, s')"
    and P: "?P lim (T, S, c, sent, s')" by auto
  have "Create (256 * (?B * 256)) = ?buffer" by (rule Create_matrix [OF window_bounds(1) [OF True]])
  then have "OTReceiverRoutine expandMask E keys choices cnt nOTs tid my s = Ok (sent, s')"
    using run unfolding OTReceiverRoutine_def Let_def code_sizes ctr_def [symmetric] lim_def [symmetric] unfolding start_def [symmetric] by simp
  then show ?thesis using P by simp
next
  case False
  then show ?thesis
    unfolding OTReceiverRoutine_def Let_def ctr_def [symmetric] lim_def [symmetric] unfolding start_def [symmetric]
    by (subst ot_loop.simps) simp
qed

lemma OTSenderRoutine_rows:
  fixes tid my cnt nOTs :: nat and ctr :: u64
  assumes E: "aes_ok E" and m: "keys_match keySeeds keys U" and nOTs: "nOTs \<le> limit" and s: "good s"
  defines "start \<equiv> tid * my" and "lim \<equiv> min (my + tid * my) nOTs" and "ctr \<equiv> of_nat ((tid * my + cnt) mod 2 ^ 32)"
  assumes stream: "stream = window_msgs (window_msg E keys choices ctr start) start lim"
  shows "OTSenderRoutine expandMask E keySeeds U cnt nOTs tid my stream s =
    Ok (fold (\<lambda>i. row i (bxor (t_row E keys ctr start i) (band U (m_vCodeWords ! unat (choices ! i))))) [start..<lim] s)"
proof (cases "start < lim")
  case True
  let ?B = "min NUMOTBLOCKS (ceil_divide my 256)" and ?msg = "window_msg E keys choices ctr start"
  let ?R = "\<lambda>i. bxor (t_row E keys ctr start i) (band U (m_vCodeWords ! unat (choices ! i)))"
  let ?P = "\<lambda>i (Q :: bytes, R :: bytes, c, stream, s'). length Q = 8192 * ?B \<and> length R = 8192 * ?B \<and>
    (i < lim \<longrightarrow> counter_at ctr start i c) \<and> start \<le> i \<and> stream = window_msgs ?msg i lim \<and>
    s' = fold (\<lambda>i. row i (?R i)) [start..<i] s \<and> good s'"
  let ?buffer = "replicate (8192 * ?B) (0 :: u8)"
  let ?step = "\<lambda>i processedOTBlocks n (Q, vRcv, counter, stream, s).
          rbind (csocket_Receive vRcv (processedOTBlocks * 256 * 32) stream) (\<lambda>(vRcv, stream).
          rbind (BuildQMatrix E keySeeds U Q vRcv processedOTBlocks counter) (\<lambda>(Q, counter).
          rbind (EklundhBitTranspose 256 (processedOTBlocks * 256) Q) (\<lambda>Q.
          rbind (expandMask Q i n s) (\<lambda>s.
          Ok (Q, vRcv, counter, stream, s)))))"
  have limit: "lim \<le> limit" using nOTs by (simp add: lim_def)
  have first: "window_blocks start lim \<le> ?B"
    unfolding window_blocks_def code_sizes ceil_divide_def by (intro min.mono) (auto simp: lim_def start_def intro!: div_le_mono diff_le_mono)
  have lU: "length U = 32" using m by (simp add: keys_match_def)
  have lR: "length (?R i) = 32" for i
    using lU unsigned_less [of "choices ! i", where ?'a = nat] by (simp add: t_row_def)
  have "\<exists>st. ot_loop ?step start lim (?buffer, ?buffer, ctr, stream, s) = Ok st \<and> ?P lim st"
  proof (rule ot_loop_inv [where P = ?P and step = ?step])
    show "?P start (?buffer, ?buffer, ctr, stream, s)" using s stream by (simp add: counter_at_start)
    fix i st assume i: "i < lim" and P: "?P i st"
    obtain Q R c d s' where st: "st = (Q, R, c, window_msgs ?msg i lim, s')" and l: "length Q = 8192 * ?B" "length R = 8192 * ?B"
      and at: "start \<le> i" "i - start = 128 * d" and c: "c = ctr + of_nat d"
      and s': "s' = fold (\<lambda>i. row i (?R i)) [start..<i] s" "good s'" using P i by (auto simp: counter_at_def)
    let ?nb = "window_blocks i lim" and ?n = "window_OTs i lim"
    note w = window_bounds [OF i]
    have nb: "?nb \<le> ?B" using window_blocks_mono [OF at(1) i] first by simp
    have e: "?nb * 256 * 32 = 8192 * ?nb" by simp
    have lm: "length (?msg i ?nb ?n) = 8192 * ?nb" by (simp add: window_msg_def)
    have "window_msgs ?msg i lim = ?msg i ?nb ?n @ window_msgs ?msg (i + ?n) lim" using i by (subst window_msgs.simps) simp
    then have rcv: "csocket_Receive R (?nb * 256 * 32) (window_msgs ?msg i lim) =
        Ok (?msg i ?nb ?n @ drop (8192 * ?nb) R, window_msgs ?msg (i + ?n) lim)"
      unfolding e using l(2) nb lm by (simp add: csocket_Receive_def wr_blk_def blit_def)
    let ?R' = "?msg i ?nb ?n @ drop (8192 * ?nb) R"
    have R': "length ?R' = 8192 * ?B" "take (8192 * ?nb) ?R' = ?msg i ?nb ?n" using l(2) lm nb by simp_all
    obtain Q1 Q2 where run: "BuildQMatrix E keySeeds U Q ?R' ?nb c = Ok (Q1, ctr + of_nat (d + 2 * ?nb))"
      "EklundhBitTranspose 256 (?nb * 256) Q1 = Ok Q2" "length Q2 = 8192 * ?B"
      and rows: "\<forall>j<min ?n (?nb * 256). take 32 (drop (32 * j) Q2) = ?R (i + j)"
      using sender_matrix [OF E m w(1) nb l(1) R' at] unfolding c by blast
    have m: "expandMask Q2 i ?n s' = Ok (fold (\<lambda>i. row i (?R i)) [i..<i + ?n] s')"
      by (rule expand_as [OF s'(2)]) (use w(2,3) order_trans [OF w(2) mult_le_mono2 [OF nb]] run(3) rows limit in simp_all)
    moreover have "fold (\<lambda>i. row i (?R i)) [i..<i + ?n] s' = fold (\<lambda>i. row i (?R i)) [start..<i + ?n] s"
      unfolding s'(1) by (rule rows_then) (use at in simp_all)
    moreover have "good (fold (\<lambda>i. row i (?R i)) [start..<i + ?n] s)"
      by (rule good_rows [OF s]) (use w(3) limit lR in auto)
    moreover have "i + ?n < lim \<longrightarrow> counter_at ctr start (i + ?n) (ctr + of_nat (d + 2 * ?nb))"
      using counter_at_next [OF at i] by blast
    ultimately have "?step i ?nb ?n st =
          Ok (Q2, ?R', ctr + of_nat (d + 2 * ?nb), window_msgs ?msg (i + ?n) lim, fold (\<lambda>i. row i (?R i)) [start..<i + ?n] s) \<and>
        ?P (i + ?n) (Q2, ?R', ctr + of_nat (d + 2 * ?nb), window_msgs ?msg (i + ?n) lim, fold (\<lambda>i. row i (?R i)) [start..<i + ?n] s)"
      unfolding st using run m rcv R'(1) at(1) by simp
    then show "\<exists>s'. ?step i ?nb ?n st = Ok s' \<and> ?P (i + ?n) s'" by blast
  qed (use True in simp)
  then obtain Q R c x s' where run: "ot_loop ?step start lim (?buffer, ?buffer, ctr, stream, s) = Ok (Q, R, c, x, s')"
    and P: "?P lim (Q, R, c, x, s')" by auto
  have "Create (256 * (?B * 256)) = ?buffer" using Create_matrix [of ?B] first window_bounds(1) [OF True] by simp
  then have "OTSenderRoutine expandMask E keySeeds U cnt nOTs tid my stream s = Ok s'"
    using run unfolding OTSenderRoutine_def Let_def code_sizes ctr_def [symmetric] lim_def [symmetric] unfolding start_def [symmetric] by simp
  then show ?thesis using P by simp
next
  case False
  then show ?thesis
    unfolding OTSenderRoutine_def Let_def ctr_def [symmetric] lim_def [symmetric] unfolding start_def [symmetric]
    by (subst ot_loop.simps) simp
qed

text \<open>All threads: thread \<open>tid\<close> of \<open>my\<close> OTs.\<close>

lemma ot_receive_rows:
  assumes E: "aes_ok E" and keys: "length keys = 512" and nOTs: "nOTs \<le> length choices" "nOTs \<le> limit" and s: "good s"
    and pos: "0 < nOTs" "0 < T"
  defines "my \<equiv> internal_numOTs nOTs T"
  shows "ot_receive expandMask E keys choices cnt nOTs T s =
    Ok (map (thread_msgs E keys choices cnt nOTs my) [0..<T], cnt + nOTs, fold (\<lambda>i. row i (ot_row E keys cnt my i)) [0..<nOTs] s)"
proof -
  let ?f = "\<lambda>tid (sockets, s). rbind (OTReceiverRoutine expandMask E keys choices cnt nOTs tid my s) (\<lambda>(sent, s). Ok (sockets @ [sent], s))"
  let ?P = "\<lambda>tid (sockets, s'). sockets = map (thread_msgs E keys choices cnt nOTs my) [0..<tid] \<and>
    s' = fold (\<lambda>i. row i (ot_row E keys cnt my i)) [0..<min (tid * my) nOTs] s \<and> good s'"
  have "\<exists>st. rfold ?f [0..<T] ([], s) = Ok st \<and> ?P T st"
  proof (rule rfold_upt_inv [where P = ?P and f = ?f])
    fix tid st assume P: "?P tid st"
    obtain sockets s' where st: "st = (sockets, s')" by (cases st) auto
    have s': "good s'" using P unfolding st prod.case by blast
    have run: "OTReceiverRoutine expandMask E keys choices cnt nOTs tid my s' = Ok (thread_msgs E keys choices cnt nOTs my tid,
        fold (\<lambda>i. row i (ot_row E keys cnt my i)) [tid * my..<min (my + tid * my) nOTs] s')"
      unfolding OTReceiverRoutine_rows [OF E keys nOTs s'] by (simp add: thread_msgs_def Let_def cong: fold_cong) (rule fold_cong; simp add: ot_row_thread [of tid])
    have all: "fold (\<lambda>i. row i (ot_row E keys cnt my i)) [tid * my..<min (my + tid * my) nOTs] s' =
        fold (\<lambda>i. row i (ot_row E keys cnt my i)) [0..<min (Suc tid * my) nOTs] s"
      using P st thread_range [of "\<lambda>i. row i (ot_row E keys cnt my i)" tid my nOTs s] by simp
    have "good (fold (\<lambda>i. row i (ot_row E keys cnt my i)) [0..<min (Suc tid * my) nOTs] s)"
      by (rule good_rows [OF s]) (use nOTs(2) in auto)
    then show "\<exists>st'. ?f tid st = Ok st' \<and> ?P (Suc tid) st'" using run all P st by simp
  qed (use s in simp_all)
  then obtain sockets s' where "rfold ?f [0..<T] ([], s) = Ok (sockets, s')" "?P T (sockets, s')" by auto
  moreover have "min (T * my) nOTs = nOTs" using threads_cover [OF pos(2), of nOTs] by (simp add: my_def)
  ultimately show ?thesis using pos by (simp add: ot_receive_def rassert_def my_def)
qed

lemma ot_send_rows:
  assumes E: "aes_ok E" and m: "keys_match keySeeds keys U" and nOTs: "nOTs \<le> limit" and s: "good s" and pos: "0 < nOTs" "0 < T"
  defines "my \<equiv> internal_numOTs nOTs T"
  assumes sockets: "sockets = map (thread_msgs E keys choices cnt nOTs my) [0..<T]"
  shows "ot_send expandMask E keySeeds U cnt nOTs T sockets s = Ok (cnt + nOTs,
    fold (\<lambda>i. row i (bxor (ot_row E keys cnt my i) (band U (m_vCodeWords ! unat (choices ! i))))) [0..<nOTs] s)"
proof -
  let ?row = "\<lambda>i. row i (bxor (ot_row E keys cnt my i) (band U (m_vCodeWords ! unat (choices ! i))))"
  let ?f = "\<lambda>tid s. rbind (rd sockets tid) (\<lambda>stream. OTSenderRoutine expandMask E keySeeds U cnt nOTs tid my stream s)"
  let ?P = "\<lambda>tid s'. s' = fold ?row [0..<min (tid * my) nOTs] s \<and> good s'"
  have lR: "length (bxor (ot_row E keys cnt my i) (band U (m_vCodeWords ! unat (choices ! i)))) = 32" for i
    using m unsigned_less [of "choices ! i", where ?'a = nat] by (simp add: keys_match_def)
  have "\<exists>s'. rfold ?f [0..<T] s = Ok s' \<and> ?P T s'"
  proof (rule rfold_upt_inv [where P = ?P and f = ?f])
    fix tid s' assume tid: "tid < T" and P: "?P tid s'"
    have s': "good s'" using P by blast
    have stream: "rd sockets tid = Ok (thread_msgs E keys choices cnt nOTs my tid)" using sockets tid by simp
    have run: "OTSenderRoutine expandMask E keySeeds U cnt nOTs tid my (thread_msgs E keys choices cnt nOTs my tid) s' =
        Ok (fold ?row [tid * my..<min (my + tid * my) nOTs] s')"
      unfolding OTSenderRoutine_rows [OF E m nOTs s' thread_msgs_def [unfolded Let_def]]
      by (simp cong: fold_cong) (rule fold_cong; simp add: ot_row_thread [of tid])
    have all: "fold ?row [tid * my..<min (my + tid * my) nOTs] s' = fold ?row [0..<min (Suc tid * my) nOTs] s"
      using P thread_range [of ?row tid my nOTs s] by simp
    have "good (fold ?row [0..<min (Suc tid * my) nOTs] s)" by (rule good_rows [OF s]) (use nOTs lR in auto)
    then show "\<exists>s''. ?f tid s' = Ok s'' \<and> ?P (Suc tid) s''" using run all stream by simp
  qed (use s in simp_all)
  moreover have "min (T * my) nOTs = nOTs" using threads_cover [OF pos(2), of nOTs] by (simp add: my_def)
  ultimately show ?thesis using pos by (auto simp: ot_send_def rassert_def my_def)
qed

end

end
