(* ===== verification/OpeMasking.thy ===== *)
theory OpeMasking
  imports OTRoutines
begin

text \<open>
  The masking function of the OPRG (\<open>src/PSI/src/util/ot/opemasking.h\<close>): the client hashes its row of every OT and
  XORs the results of the OTs of a bin; the server does so for every element of the bin, with the row it would have had for
  the element's byte. The state is the array of results. Both expansions implement the interface of \<open>OTRoutines\<close> and are
  described as a list of updates \<open>(p, x)\<close>: \<open>x\<close> is XORed to entry \<open>p\<close>.
\<close>

section \<open>The object\<close>

record OPEMasking =
  m_nMaskBitLen :: nat
  m_nOTsPerElement :: nat
  m_vNumEleInBin :: "nat list"
  m_vServerChoices :: bytes
  m_vStartingPosForBin :: "nat list"
  m_nExpansionFactor :: nat
  m_vBinToResult :: "nat list"
  m_cCrypto :: crypto
  m_bServer :: bool

definition OPEMasking_server :: "nat \<Rightarrow> nat \<Rightarrow> nat \<Rightarrow> nat list \<Rightarrow> bytes \<Rightarrow> crypto \<Rightarrow> OPEMasking res" where
  "OPEMasking_server itembitlen mask_bits nbins nelements server_choices crypt =
     rbind (rassert (0 < nbins)) (\<lambda>_.
     rbind (wr (replicate nbins 0) 0 0) (\<lambda>starts.
     rbind (rd nelements 0) (\<lambda>n0.
     rbind (rfold (\<lambda>i (starts, factor).
         rbind (rd starts (i - 1)) (\<lambda>p. rbind (rd nelements (i - 1)) (\<lambda>n.
         rbind (wr starts i (p + n)) (\<lambda>starts. rbind (rd nelements i) (\<lambda>n.
         Ok (starts, if n > m_nCodeWordBits then m_nCodeWordBits else factor))))))
       [1..<nbins] (starts, if n0 > m_nCodeWordBits then m_nCodeWordBits else 1)) (\<lambda>(starts, factor).
     Ok \<lparr>m_nMaskBitLen = mask_bits, m_nOTsPerElement = ceil_divide itembitlen 8, m_vNumEleInBin = nelements,
         m_vServerChoices = server_choices, m_vStartingPosForBin = starts, m_nExpansionFactor = factor,
         m_vBinToResult = [], m_cCrypto = crypt, m_bServer = True\<rparr>))))"

definition OPEMasking_client :: "nat \<Rightarrow> nat \<Rightarrow> nat \<Rightarrow> nat list \<Rightarrow> crypto \<Rightarrow> OPEMasking res" where
  "OPEMasking_client itembitlen mask_bits nbins nelements crypt =
     rbind (rfold (\<lambda>i results.
         rbind (rd results (i - 1)) (\<lambda>p. rbind (rd nelements (i - 1)) (\<lambda>n. wr results i (p + n))))
       [1..<nbins] (replicate nbins 0)) (\<lambda>results.
     Ok \<lparr>m_nMaskBitLen = mask_bits, m_nOTsPerElement = ceil_divide itembitlen 8, m_vNumEleInBin = nelements,
         m_vServerChoices = [], m_vStartingPosForBin = [], m_nExpansionFactor = 0,
         m_vBinToResult = results, m_cCrypto = crypt, m_bServer = False\<rparr>)"

section \<open>The expansions\<close>

text \<open>The hash of the OT's number and the 32 bytes of \<open>v\<close> at \<open>pos\<close>, put together in \<open>tmpbuf\<close>.\<close>

definition ope_hash :: "OPEMasking \<Rightarrow> nat \<Rightarrow> bytes \<Rightarrow> nat \<Rightarrow> bytes \<Rightarrow> nat \<Rightarrow> bytes res" where
  "ope_hash ope ot_id v pos hash_buf off =
     rbind (rd_blk v pos m_nCodeWordBytes) (\<lambda>x.
     crypto_hash (m_cCrypto ope) hash_buf off (ceil_divide (m_nMaskBitLen ope) 8) (le_bytes 8 (of_nat ot_id :: u64) @ x)
       (m_nCodeWordBytes + 8))"

definition ServerExpand :: "OPEMasking \<Rightarrow> bytes \<Rightarrow> bytes \<Rightarrow> nat \<Rightarrow> nat \<Rightarrow> bytes \<Rightarrow> bytes res" where
  "ServerExpand ope uptr matrix ot_begin_id processedOTs results =
     (let maskbytelen = ceil_divide (m_nMaskBitLen ope) 8; k = m_nOTsPerElement ope in
      rbind (rfold (\<lambda>j (mask, hash_buf, results).
          let ot_id = ot_begin_id + j; bin_id = ot_id div k; bit_id = ot_id mod k; Mptr = j * m_nCodeWordBytes in
          rbind (rd (m_vStartingPosForBin ope) bin_id) (\<lambda>start. let binoffset = start * k in
          rbind (rd (m_vNumEleInBin ope) bin_id) (\<lambda>nele.
          if nele < m_nCodeWordBits then
            rfold (\<lambda>u (mask, hash_buf, results).
              rbind (Copy mask 0 uptr 0 m_nCodeWordBytes) (\<lambda>mask.
              rbind (Get32 (m_vServerChoices ope) ((binoffset + bit_id + u * k) * 8) 8) (\<lambda>choice.
              rbind (rd m_vCodeWords choice) (\<lambda>code.
              rbind (ANDBytes mask 0 code 0 m_nCodeWordBytes) (\<lambda>mask.
              rbind (XORBytes mask 0 matrix Mptr m_nCodeWordBytes) (\<lambda>mask.
              rbind (ope_hash ope ot_id mask 0 hash_buf 0) (\<lambda>hash_buf.
              rbind (XORBits results hash_buf 0 ((start + u) * m_nMaskBitLen ope) (m_nMaskBitLen ope)) (\<lambda>results.
              Ok (mask, hash_buf, results))))))))) [0..<nele] (mask, hash_buf, results)
          else
            rbind (rfold (\<lambda>u mask.
              rbind (Copy mask (u * m_nCodeWordBytes) uptr 0 m_nCodeWordBytes) (\<lambda>mask.
              rbind (rd m_vCodeWords u) (\<lambda>code.
              rbind (ANDBytes mask (u * m_nCodeWordBytes) code 0 m_nCodeWordBytes) (\<lambda>mask.
              XORBytes mask (u * m_nCodeWordBytes) matrix Mptr m_nCodeWordBytes)))) [0..<m_nCodeWordBits] mask) (\<lambda>mask.
            rbind (rfold (\<lambda>u hash_buf. ope_hash ope ot_id mask (u * m_nCodeWordBytes) hash_buf (u * maskbytelen))
              [0..<m_nCodeWordBits] hash_buf) (\<lambda>hash_buf.
            rbind (rfold (\<lambda>u results.
              rbind (Get32 (m_vServerChoices ope) ((binoffset + bit_id + u * k) * 8) 8) (\<lambda>mask_id.
              XORBits results hash_buf (mask_id * maskbytelen) ((start + u) * m_nMaskBitLen ope) (m_nMaskBitLen ope)))
              [0..<nele] results) (\<lambda>results. Ok (mask, hash_buf, results)))))))
        [0..<processedOTs] (Create (m_nCodeWordBits * m_nExpansionFactor ope), replicate (maskbytelen * m_nExpansionFactor ope) 0, results))
      (\<lambda>(mask, hash_buf, results). Ok results))"

definition ClientExpand :: "OPEMasking \<Rightarrow> bytes \<Rightarrow> nat \<Rightarrow> nat \<Rightarrow> bytes \<Rightarrow> bytes res" where
  "ClientExpand ope matrix ot_begin_id processedOTs results =
     (let maskbytelen = ceil_divide (m_nMaskBitLen ope) 8 in
      rbind (rfold (\<lambda>j (hash_buf, results).
          let ot_id = ot_begin_id + j; bin_id = ot_id div m_nOTsPerElement ope in
          rbind (rd (m_vNumEleInBin ope) bin_id) (\<lambda>nele.
          if nele > 0 then
            rbind (ope_hash ope ot_id matrix (j * m_nCodeWordBytes) hash_buf 0) (\<lambda>hash_buf.
            rbind (rd (m_vBinToResult ope) bin_id) (\<lambda>p.
            rbind (XORBits results hash_buf 0 (p * m_nMaskBitLen ope) (m_nMaskBitLen ope)) (\<lambda>results.
            Ok (hash_buf, results))))
          else Ok (hash_buf, results)))
        [0..<processedOTs] (replicate maskbytelen 0, results)) (\<lambda>(hash_buf, results). Ok results))"

definition expandMask :: "OPEMasking \<Rightarrow> bytes \<Rightarrow> bytes \<Rightarrow> nat \<Rightarrow> nat \<Rightarrow> bytes \<Rightarrow> bytes res" where
  "expandMask ope uptr matrix ot_begin_id processedOTs results =
     (if m_bServer ope then ServerExpand ope uptr matrix ot_begin_id processedOTs results
      else ClientExpand ope matrix ot_begin_id processedOTs results)"

section \<open>Updates\<close>

definition xor_at :: "nat \<Rightarrow> nat \<times> bytes \<Rightarrow> bytes \<Rightarrow> bytes" where
  "xor_at m = (\<lambda>(p, x) v. blit v (p * m) (bxor (take m (drop (p * m) v)) x))"

definition updates_fit :: "nat \<Rightarrow> nat \<Rightarrow> (nat \<times> bytes) list \<Rightarrow> bool" where
  "updates_fit m n ps \<longleftrightarrow> (\<forall>(p, x)\<in>set ps. p < n \<and> length x = m)"

lemma length_xor_at: "length v = n * m \<Longrightarrow> p < n \<Longrightarrow> length x = m \<Longrightarrow> length (xor_at m (p, x) v) = n * m"
  using chunk_fits [of v n m p] by (simp add: xor_at_def)

lemma chunk_xor_at:
  assumes "length v = n * m" and "p < n" and "q < n" and "length x = m"
  shows "chunk m (xor_at m (p, x) v) q = (if q = p then bxor (chunk m v q) x else chunk m v q)"
proof -
  have "length (bxor (chunk m v p) x) = m" using assms length_chunk [of v n m p] by simp
  then show ?thesis
    using chunk_blit [OF assms(1-3), of "bxor (chunk m v p) x"] by (auto simp: xor_at_def chunk_def)
qed

lemma updates_fit_Cons [simp]: "updates_fit m n ((p, x) # ps) \<longleftrightarrow> p < n \<and> length x = m \<and> updates_fit m n ps"
  by (auto simp: updates_fit_def)

lemma length_updates: "length v = n * m \<Longrightarrow> updates_fit m n ps \<Longrightarrow> length (fold (xor_at m) ps v) = n * m"
  by (induction ps arbitrary: v) (auto simp: length_xor_at)

lemma chunk_updates:
  assumes "length v = n * m" and "updates_fit m n ps" and "q < n"
  shows "chunk m (fold (xor_at m) ps v) q = bxors (chunk m v q) (map snd (filter (\<lambda>(p, x). p = q) ps))"
  using assms
proof (induction ps arbitrary: v)
  case (Cons px ps)
  obtain p x where px: "px = (p, x)" by (cases px)
  then have fit: "p < n" "length x = m" "updates_fit m n ps" using Cons.prems(2) by simp_all
  have "chunk m (xor_at m (p, x) v) q = (if q = p then bxor (chunk m v q) x else chunk m v q)"
    by (rule chunk_xor_at [OF Cons.prems(1) fit(1) Cons.prems(3) fit(2)])
  then show ?case using Cons.IH [OF length_xor_at [OF Cons.prems(1) fit(1,2)] fit(3) Cons.prems(3)] px by auto
qed simp

section \<open>What an object holds\<close>

abbreviation mask_bytes :: "OPEMasking \<Rightarrow> nat" where "mask_bytes ope \<equiv> ceil_divide (m_nMaskBitLen ope) 8"

text \<open>Masks are whole bytes and no longer than a digest.\<close>

definition ope_sizes :: "OPEMasking \<Rightarrow> bool" where
  "ope_sizes ope \<longleftrightarrow> m_nMaskBitLen ope = 8 * mask_bytes ope \<and> 0 < mask_bytes ope \<and> mask_bytes ope \<le> 64 \<and>
     0 < m_nOTsPerElement ope \<and> digest_lengths (m_cCrypto ope)"

text \<open>The client's object for \<open>nbins\<close> bins and \<open>n\<close> results.\<close>

definition client_holds :: "OPEMasking \<Rightarrow> nat \<Rightarrow> nat \<Rightarrow> bool" where
  "client_holds ope nbins n \<longleftrightarrow> ope_sizes ope \<and> \<not> m_bServer ope \<and> nbins \<le> length (m_vNumEleInBin ope) \<and>
     length (m_vBinToResult ope) = nbins \<and> (\<forall>b<nbins. m_vBinToResult ope ! b = length (owners (m_vNumEleInBin ope) b)) \<and>
     length (owners (m_vNumEleInBin ope) nbins) \<le> n"

text \<open>The server's object. The buffers for 256 masks are there when a bin needs them: they are reserved for bins with more
  than 256 elements and used from 256 elements on.\<close>

definition server_holds :: "OPEMasking \<Rightarrow> nat \<Rightarrow> bool" where
  "server_holds ope nbins \<longleftrightarrow> ope_sizes ope \<and> m_bServer ope \<and> nbins \<le> length (m_vNumEleInBin ope) \<and>
     length (m_vStartingPosForBin ope) = nbins \<and>
     (\<forall>b<nbins. m_vStartingPosForBin ope ! b = length (owners (m_vNumEleInBin ope) b)) \<and>
     length (m_vServerChoices ope) = length (owners (m_vNumEleInBin ope) nbins) * m_nOTsPerElement ope \<and>
     0 < m_nExpansionFactor ope \<and> ((\<exists>b<nbins. 256 \<le> m_vNumEleInBin ope ! b) \<longrightarrow> m_nExpansionFactor ope = 256)"

lemma length_owners_Suc: "length (owners nele (Suc b)) = length (owners nele b) + nele ! b"
  by (simp add: owners_Suc)

lemma owners_at: "b < nbins \<Longrightarrow> u < nele ! b \<Longrightarrow> length (owners nele b) + u < length (owners nele nbins)"
  using owners_mono [of "Suc b" nbins nele] by (simp add: length_owners_Suc)

lemma starts_run:
  assumes "nbins \<le> length nele" and "length v = nbins" and "0 < nbins" and "v ! 0 = 0"
  shows "\<exists>v'. rfold (\<lambda>i v. rbind (rd v (i - 1)) (\<lambda>p. rbind (rd nele (i - 1)) (\<lambda>n. wr v i (p + n)))) [1..<nbins] v = Ok v' \<and>
    length v' = nbins \<and> (\<forall>b<nbins. v' ! b = length (owners nele b))"
proof -
  let ?P = "\<lambda>i v. length v = nbins \<and> (\<forall>b<i. v ! b = length (owners nele b))"
  show ?thesis
  proof (rule rfold_upt_inv [where P = ?P])
    show "?P 1 v" using assms(2,4) by (simp add: owners_def)
    fix i v' assume i: "1 \<le> i" "i < nbins" and P: "?P i v'"
    obtain b where b: "i = Suc b" using i by (cases i) auto
    have "?P (Suc i) (v'[i := v' ! b + nele ! b])" using P b i(2) by (auto simp: length_owners_Suc less_Suc_eq nth_list_update)
    then show "\<exists>s'. rbind (rd v' (i - 1)) (\<lambda>p. rbind (rd nele (i - 1)) (\<lambda>n. wr v' i (p + n))) = Ok s' \<and> ?P (Suc i) s'"
      using i P b assms(1) by simp
  qed (use assms in simp)
qed

lemma OPEMasking_client_ok:
  assumes "nbins \<le> length nele" and "mask_bits = 8 * m" and "0 < m" and "m \<le> 64" and "0 < itembits" and "digest_lengths c"
    and "length (owners nele nbins) \<le> n" and "0 < nbins"
  shows "\<exists>ope. OPEMasking_client itembits mask_bits nbins nele c = Ok ope \<and> client_holds ope nbins n \<and> m_nMaskBitLen ope = mask_bits \<and>
    m_nOTsPerElement ope = ceil_divide itembits 8 \<and> m_vNumEleInBin ope = nele \<and> m_cCrypto ope = c"
proof -
  obtain v' where v': "rfold (\<lambda>i v. rbind (rd v (i - 1)) (\<lambda>p. rbind (rd nele (i - 1)) (\<lambda>n. wr v i (p + n)))) [1..<nbins] (replicate nbins 0) = Ok v'"
    "length v' = nbins" "\<forall>b<nbins. v' ! b = length (owners nele b)"
    using starts_run [OF assms(1), of "replicate nbins 0"] assms(8) by auto
  have "ceil_divide (8 * m) 8 = m" by (cases m) (simp_all add: ceil_divide_def)
  moreover have "0 < ceil_divide itembits 8" using assms(5) by (simp add: ceil_divide_def)
  ultimately show ?thesis using v' assms by (simp add: OPEMasking_client_def client_holds_def ope_sizes_def)
qed

lemma OPEMasking_server_ok:
  assumes "nbins \<le> length nele" and "mask_bits = 8 * m" and "0 < m" and "m \<le> 64" and "0 < itembits" and "digest_lengths c"
    and "length choices = length (owners nele nbins) * ceil_divide itembits 8" and "0 < nbins"
    and "(\<exists>b<nbins. nele ! b = 256) \<longrightarrow> (\<exists>b<nbins. 256 < nele ! b)"
  shows "\<exists>ope. OPEMasking_server itembits mask_bits nbins nele choices c = Ok ope \<and> server_holds ope nbins \<and> m_nMaskBitLen ope = mask_bits \<and>
    m_nOTsPerElement ope = ceil_divide itembits 8 \<and> m_vNumEleInBin ope = nele \<and> m_cCrypto ope = c \<and> m_vServerChoices ope = choices"
proof -
  let ?f = "\<lambda>i (starts, factor). rbind (rd starts (i - 1)) (\<lambda>p. rbind (rd nele (i - 1)) (\<lambda>n.
         rbind (wr starts i (p + n)) (\<lambda>starts. rbind (rd nele i) (\<lambda>n. Ok (starts, if n > 256 then 256 else factor)))))"
  let ?P = "\<lambda>i (starts, factor :: nat). length starts = nbins \<and> (\<forall>b<i. starts ! b = length (owners nele b)) \<and>
    factor = (if \<exists>b<i. 256 < nele ! b then 256 else 1)"
  let ?s = "(replicate nbins 0, if nele ! 0 > 256 then 256 else 1)"
  have "\<exists>s. rfold ?f [1..<nbins] ?s = Ok s \<and> ?P nbins s"
  proof (rule rfold_upt_inv [where P = ?P and f = ?f])
    show "?P 1 ?s" using assms(8) by (simp add: owners_def)
    fix i s assume i: "1 \<le> i" "i < nbins" and P: "?P i s"
    obtain starts factor where s: "s = (starts, factor)" by (cases s)
    obtain b where b: "i = Suc b" using i by (cases i) auto
    have "?P (Suc i) (starts[i := starts ! b + nele ! b], if nele ! i > 256 then 256 else factor)"
      using P s b i(2) by (auto simp: length_owners_Suc less_Suc_eq nth_list_update)
    moreover have "?f i s = Ok (starts[i := starts ! b + nele ! b], if nele ! i > 256 then 256 else factor)"
      using i P b assms(1) s by simp
    ultimately show "\<exists>s'. ?f i s = Ok s' \<and> ?P (Suc i) s'" by blast
  qed (use assms in simp)
  then obtain starts factor where run: "rfold ?f [1..<nbins] ?s = Ok (starts, factor)" and P: "?P nbins (starts, factor)" by auto
  have m: "ceil_divide (8 * m) 8 = m" by (cases m) (simp_all add: ceil_divide_def)
  have k: "0 < ceil_divide itembits 8" using assms(5) by (simp add: ceil_divide_def)
  have big: "(\<exists>b<nbins. 256 \<le> nele ! b) \<longrightarrow> (\<exists>b<nbins. 256 < nele ! b)" using assms(9) by (auto simp: le_less)
  define ope where "ope = \<lparr>m_nMaskBitLen = mask_bits, m_nOTsPerElement = ceil_divide itembits 8,
      m_vNumEleInBin = nele, m_vServerChoices = choices, m_vStartingPosForBin = starts, m_nExpansionFactor = factor,
      m_vBinToResult = [], m_cCrypto = c, m_bServer = True\<rparr>"
  have "length nele \<noteq> 0" using assms(1,8) by auto
  then have "OPEMasking_server itembits mask_bits nbins nele choices c = Ok ope"
  proof -
    have "wr (replicate nbins (0 :: nat)) 0 0 = Ok (replicate nbins 0)" using assms(8) by (cases nbins) simp_all
    then show ?thesis using run assms(8) \<open>length nele \<noteq> 0\<close>
      unfolding OPEMasking_server_def code_sizes ope_def by (simp add: rassert_def)
  qed
  moreover have "ope_sizes ope" using assms(2-6) m k by (simp add: ope_sizes_def ope_def)
  moreover have "length starts = nbins" "\<forall>b<nbins. starts ! b = length (owners nele b)" "0 < factor"
    "(\<exists>b<nbins. 256 \<le> nele ! b) \<longrightarrow> factor = 256" using P big by (simp_all split: if_splits)
  ultimately show ?thesis using assms(1,7) by (intro exI [of _ ope]) (simp add: server_holds_def ope_def)
qed

section \<open>Rows as updates\<close>

definition ope_mask :: "OPEMasking \<Rightarrow> nat \<Rightarrow> bytes \<Rightarrow> bytes" where
  "ope_mask ope i x = take (mask_bytes ope) (SHA (m_cCrypto ope) (routine_for (m_cCrypto ope) (mask_bytes ope)) (le_bytes 8 (of_nat i :: u64) @ x))"

definition client_updates :: "OPEMasking \<Rightarrow> nat \<Rightarrow> bytes \<Rightarrow> (nat \<times> bytes) list" where
  "client_updates ope i r = (let b = i div m_nOTsPerElement ope in
     if 0 < m_vNumEleInBin ope ! b then [(m_vBinToResult ope ! b, ope_mask ope i r)] else [])"

text \<open>The row the server uses for a byte \<open>x\<close>, and the byte of an entry the OT \<open>i\<close> is about.\<close>

definition with_code :: "bytes \<Rightarrow> u8 \<Rightarrow> bytes \<Rightarrow> bytes" where
  "with_code U x r = bxor (band U (m_vCodeWords ! unat x)) r"

definition entry_byte :: "OPEMasking \<Rightarrow> nat \<Rightarrow> nat \<Rightarrow> u8" where
  "entry_byte ope p i = m_vServerChoices ope ! (p * m_nOTsPerElement ope + i mod m_nOTsPerElement ope)"

definition server_updates :: "OPEMasking \<Rightarrow> bytes \<Rightarrow> nat \<Rightarrow> bytes \<Rightarrow> (nat \<times> bytes) list" where
  "server_updates ope U i r = (let b = i div m_nOTsPerElement ope; s = m_vStartingPosForBin ope ! b in
     map (\<lambda>u. (s + u, ope_mask ope i (with_code U (entry_byte ope (s + u) i) r))) [0..<m_vNumEleInBin ope ! b])"

lemma length_ope_mask: "ope_sizes ope \<Longrightarrow> length (ope_mask ope i x) = mask_bytes ope"
  by (auto simp: ope_sizes_def ope_mask_def digest_lengths_def routine_for_def SHA_OUT_BYTES_def split: sha_routine.splits)

lemma ope_hash_ok:
  assumes "ope_sizes ope" and "pos + 32 \<le> length v" and "off + mask_bytes ope \<le> length buf"
  shows "ope_hash ope i v pos buf off = Ok (blit buf off (ope_mask ope i (take 32 (drop pos v))))"
  using assms crypto_hash_ok [of "m_cCrypto ope" "mask_bytes ope" 40 "le_bytes 8 (of_nat i :: u64) @ take 32 (drop pos v)" off buf]
  by (simp add: ope_hash_def ope_sizes_def code_sizes rd_blk_def ope_mask_def)

lemma XORBits_mask:
  assumes "ope_sizes ope" and "length v = n * mask_bytes ope" and "p < n" and "off + mask_bytes ope \<le> length buf"
  shows "XORBits v buf off (p * m_nMaskBitLen ope) (m_nMaskBitLen ope) = Ok (xor_at (mask_bytes ope) (p, take (mask_bytes ope) (drop off buf)) v)"
proof -
  let ?m = "mask_bytes ope"
  have bits: "m_nMaskBitLen ope = 8 * ?m" "p * m_nMaskBitLen ope = 8 * (p * ?m)" and pos: "0 < ?m"
    using assms(1) unfolding ope_sizes_def by (metis mult.left_commute)+
  show ?thesis using XORBits_bytes [OF chunk_fits [OF assms(2,3)] assms(4) pos] bits by (simp only: xor_at_def prod.case)
qed

lemma ClientExpand_rows:
  assumes c: "client_holds ope nbins N" and v: "length v = N * mask_bytes ope" and at: "at + n \<le> nbins * m_nOTsPerElement ope"
    and M: "32 * n \<le> length M"
  shows "ClientExpand ope M at n v = Ok (fold (\<lambda>j. fold (xor_at (mask_bytes ope)) (client_updates ope (at + j) (take 32 (drop (32 * j) M)))) [0..<n] v)"
proof -
  let ?m = "mask_bytes ope" and ?k = "m_nOTsPerElement ope"
  have sizes: "ope_sizes ope" using c by (simp add: client_holds_def)
  let ?f = "\<lambda>j (hash_buf, results). let ot_id = at + j; bin_id = ot_id div ?k in
          rbind (rd (m_vNumEleInBin ope) bin_id) (\<lambda>nele.
          if nele > 0 then
            rbind (ope_hash ope ot_id M (j * 32) hash_buf 0) (\<lambda>hash_buf.
            rbind (rd (m_vBinToResult ope) bin_id) (\<lambda>p.
            rbind (XORBits results hash_buf 0 (p * m_nMaskBitLen ope) (m_nMaskBitLen ope)) (\<lambda>results.
            Ok (hash_buf, results))))
          else Ok (hash_buf, results))"
  let ?u = "\<lambda>j. fold (xor_at ?m) (client_updates ope (at + j) (take 32 (drop (32 * j) M)))"
  let ?P = "\<lambda>j (hash_buf :: bytes, r). length hash_buf = ?m \<and> r = fold ?u [0..<j] v \<and> length r = N * ?m"
  have "\<exists>s. rfold ?f [0..<n] (replicate ?m 0, v) = Ok s \<and> ?P n s"
  proof (rule rfold_upt_inv [where P = ?P and f = ?f])
    fix j s assume j: "j < n" and P: "?P j s"
    obtain buf r where s: "s = (buf, r)" by (cases s)
    have l: "length buf = ?m" "length r = N * ?m" and r: "r = fold ?u [0..<j] v" using P unfolding s prod.case by blast+
    let ?b = "(at + j) div ?k" and ?x = "take 32 (drop (32 * j) M)"
    have "at + j < nbins * ?k" using j at by simp
    then have b: "?b < nbins" by (rule less_mult_imp_div_less)
    have nele: "rd (m_vNumEleInBin ope) ?b = Ok (m_vNumEleInBin ope ! ?b)" using b c by (simp add: client_holds_def)
    show "\<exists>s'. ?f j s = Ok s' \<and> ?P (Suc j) s'"
    proof (cases "0 < m_vNumEleInBin ope ! ?b")
      case True
      let ?p = "m_vBinToResult ope ! ?b" and ?h = "ope_mask ope (at + j) ?x"
      have p: "rd (m_vBinToResult ope) ?b = Ok ?p" "?p < N"
        using b c owners_at [OF b True] by (simp_all add: client_holds_def)
      have lh: "length ?h = ?m" by (rule length_ope_mask [OF sizes])
      have hash: "ope_hash ope (at + j) M (j * 32) buf 0 = Ok ?h"
        using ope_hash_ok [OF sizes, of "j * 32" M 0 buf "at + j"] M j l(1) lh by (simp add: mult.commute blit_def)
      have x: "XORBits r ?h 0 (?p * m_nMaskBitLen ope) (m_nMaskBitLen ope) = Ok (xor_at ?m (?p, ?h) r)"
        using XORBits_mask [OF sizes l(2) p(2), of 0 ?h] lh by simp
      have "?u j r = xor_at ?m (?p, ?h) r" using True by (simp add: client_updates_def Let_def)
      then show ?thesis using nele True hash p x r lh length_xor_at [OF l(2) p(2) lh] unfolding s by (simp add: Let_def)
    next
      case False
      then have "?u j r = r" by (simp add: client_updates_def Let_def)
      then show ?thesis using nele False l r unfolding s by (simp add: Let_def)
    qed
  qed (use v in simp_all)
  then show ?thesis unfolding ClientExpand_def Let_def code_sizes by (auto simp: Let_def)
qed

lemma blit_twice: "length x = length y \<Longrightarrow> pos + length x \<le> length v \<Longrightarrow> blit (blit v pos x) pos y = blit v pos y"
  by (simp add: blit_def)

text \<open>The three steps that make the server's row for a code word.\<close>

lemma masking_steps:
  assumes "length U = 32" and "length code = 32" and "pos + 32 \<le> length buf" and "off + 32 \<le> length M"
  shows "Copy buf pos U 0 32 = Ok (blit buf pos U)"
    and "ANDBytes (blit buf pos U) pos code 0 32 = Ok (blit buf pos (band U code))"
    and "XORBytes (blit buf pos (band U code)) pos M off 32 = Ok (blit buf pos (bxor (band U code) (take 32 (drop off M))))"
proof -
  show "Copy buf pos U 0 32 = Ok (blit buf pos U)" using assms Copy_ok [of pos 32 buf 0 U] by simp
  have u: "take 32 (drop pos (blit buf pos U)) = U" by (rule blk_blit_same) (use assms in simp_all)
  have "ANDBytes (blit buf pos U) pos code 0 32 = Ok (blit (blit buf pos U) pos (band U (take 32 (drop 0 code))))"
    using ANDBytes_ok [of pos 32 "blit buf pos U" 0 code] assms unfolding u by simp
  moreover have "blit (blit buf pos U) pos (band U code) = blit buf pos (band U code)" by (rule blit_twice) (use assms in simp_all)
  ultimately show "ANDBytes (blit buf pos U) pos code 0 32 = Ok (blit buf pos (band U code))" using assms(2) by simp
  let ?b = "band U code"
  have l: "length ?b = 32" using assms by simp
  have u: "take 32 (drop pos (blit buf pos ?b)) = ?b" by (rule blk_blit_same) (use assms l in simp_all)
  have "XORBytes (blit buf pos ?b) pos M off 32 = Ok (blit (blit buf pos ?b) pos (bxor ?b (take 32 (drop off M))))"
    using XORBytes_ok [of pos 32 "blit buf pos ?b" off M] assms l unfolding u by simp
  also have "blit (blit buf pos ?b) pos (bxor ?b (take 32 (drop off M))) = blit buf pos (bxor ?b (take 32 (drop off M)))"
    by (rule blit_twice) (use assms l in simp_all)
  finally show "XORBytes (blit buf pos ?b) pos M off 32 = Ok (blit buf pos (bxor ?b (take 32 (drop off M))))" .
qed

lemma length_code: "length (m_vCodeWords ! unat (x :: u8)) = 32"
  using unsigned_less [of x, where ?'a = nat] by simp

lemma server_here:
  assumes server: "server_holds ope nbins" and i: "i < nbins * m_nOTsPerElement ope"
  shows "i div m_nOTsPerElement ope < nbins" "ope_sizes ope"
    "rd (m_vStartingPosForBin ope) (i div m_nOTsPerElement ope) = Ok (m_vStartingPosForBin ope ! (i div m_nOTsPerElement ope))"
    "rd (m_vNumEleInBin ope) (i div m_nOTsPerElement ope) = Ok (m_vNumEleInBin ope ! (i div m_nOTsPerElement ope))"
proof -
  show b: "i div m_nOTsPerElement ope < nbins" using i by (rule less_mult_imp_div_less)
  show "ope_sizes ope" using server by (simp add: server_holds_def)
  show "rd (m_vStartingPosForBin ope) (i div m_nOTsPerElement ope) = Ok (m_vStartingPosForBin ope ! (i div m_nOTsPerElement ope))"
    "rd (m_vNumEleInBin ope) (i div m_nOTsPerElement ope) = Ok (m_vNumEleInBin ope ! (i div m_nOTsPerElement ope))"
    using server b by (simp_all add: server_holds_def)
qed

lemma server_entry:
  assumes server: "server_holds ope nbins" and i: "i < nbins * m_nOTsPerElement ope"
    and u: "u < m_vNumEleInBin ope ! (i div m_nOTsPerElement ope)"
  defines "s \<equiv> m_vStartingPosForBin ope ! (i div m_nOTsPerElement ope)"
  shows "s + u < length (owners (m_vNumEleInBin ope) nbins)"
    and "Get32 (m_vServerChoices ope) ((s * m_nOTsPerElement ope + i mod m_nOTsPerElement ope + u * m_nOTsPerElement ope) * 8) 8 =
      Ok (unat (entry_byte ope (s + u) i))"
proof -
  note here = server_here [OF server i]
  let ?k = "m_nOTsPerElement ope" and ?N = "length (owners (m_vNumEleInBin ope) nbins)"
  show lt: "s + u < ?N" using owners_at [OF here(1) u] server here(1) by (simp add: server_holds_def s_def)
  have "i mod ?k < ?k" using here(2) by (simp add: ope_sizes_def)
  then have "(s + u) * ?k + i mod ?k < ?N * ?k" by (rule code_less [OF lt])
  then have "Get32 (m_vServerChoices ope) (8 * ((s + u) * ?k + i mod ?k)) 8 = Ok (unat (entry_byte ope (s + u) i))"
    using server Get32_byte [of "(s + u) * ?k + i mod ?k" "m_vServerChoices ope"] by (simp add: server_holds_def entry_byte_def)
  moreover have "(s * ?k + i mod ?k + u * ?k) * 8 = 8 * ((s + u) * ?k + i mod ?k)" by (simp add: algebra_simps)
  ultimately show "Get32 (m_vServerChoices ope) ((s * ?k + i mod ?k + u * ?k) * 8) 8 = Ok (unat (entry_byte ope (s + u) i))" by (simp only:)
qed

text \<open>A bin with fewer than 256 elements: one hash for each of them.\<close>

lemma server_small_bin:
  assumes server: "server_holds ope nbins" and U: "length U = 32" and M: "32 * j + 32 \<le> length M"
    and v: "length v = length (owners (m_vNumEleInBin ope) nbins) * mask_bytes ope" and i: "i < nbins * m_nOTsPerElement ope"
    and bufs: "length msk = 32 * m_nExpansionFactor ope" "length buf = mask_bytes ope * m_nExpansionFactor ope"
  defines "start \<equiv> m_vStartingPosForBin ope ! (i div m_nOTsPerElement ope)" and "k \<equiv> m_nOTsPerElement ope"
    and "nele \<equiv> m_vNumEleInBin ope ! (i div m_nOTsPerElement ope)"
  shows "\<exists>msk' buf'. rfold (\<lambda>u (mask, hash_buf, results).
              rbind (Copy mask 0 U 0 32) (\<lambda>mask.
              rbind (Get32 (m_vServerChoices ope) ((start * k + i mod k + u * k) * 8) 8) (\<lambda>choice.
              rbind (rd m_vCodeWords choice) (\<lambda>code.
              rbind (ANDBytes mask 0 code 0 32) (\<lambda>mask.
              rbind (XORBytes mask 0 M (j * 32) 32) (\<lambda>mask.
              rbind (ope_hash ope i mask 0 hash_buf 0) (\<lambda>hash_buf.
              rbind (XORBits results hash_buf 0 ((start + u) * m_nMaskBitLen ope) (m_nMaskBitLen ope)) (\<lambda>results.
              Ok (mask, hash_buf, results))))))))) [0..<nele] (msk, buf, v) =
      Ok (msk', buf', fold (xor_at (mask_bytes ope)) (server_updates ope U i (take 32 (drop (32 * j) M))) v) \<and>
    length msk' = 32 * m_nExpansionFactor ope \<and> length buf' = mask_bytes ope * m_nExpansionFactor ope"
proof -
  let ?m = "mask_bytes ope" and ?r = "take 32 (drop (32 * j) M)" and ?N = "length (owners (m_vNumEleInBin ope) nbins)"
  note here = server_here [OF server i]
  let ?u = "\<lambda>u. (start + u, ope_mask ope i (with_code U (entry_byte ope (start + u) i) ?r))"
  let ?f = "\<lambda>u (mask, hash_buf, results). rbind (Copy mask 0 U 0 32) (\<lambda>mask.
              rbind (Get32 (m_vServerChoices ope) ((start * k + i mod k + u * k) * 8) 8) (\<lambda>choice.
              rbind (rd m_vCodeWords choice) (\<lambda>code. rbind (ANDBytes mask 0 code 0 32) (\<lambda>mask.
              rbind (XORBytes mask 0 M (j * 32) 32) (\<lambda>mask. rbind (ope_hash ope i mask 0 hash_buf 0) (\<lambda>hash_buf.
              rbind (XORBits results hash_buf 0 ((start + u) * m_nMaskBitLen ope) (m_nMaskBitLen ope)) (\<lambda>results.
              Ok (mask, hash_buf, results))))))))"
  let ?P = "\<lambda>u (msk :: bytes, buf :: bytes, r). length msk = 32 * m_nExpansionFactor ope \<and> length buf = ?m * m_nExpansionFactor ope \<and>
    r = fold (xor_at ?m) (map ?u [0..<u]) v \<and> length r = ?N * ?m"
  have F: "32 \<le> 32 * m_nExpansionFactor ope" "?m \<le> ?m * m_nExpansionFactor ope" using server by (simp_all add: server_holds_def)
  have "\<exists>s. rfold ?f [0..<nele] (msk, buf, v) = Ok s \<and> ?P nele s"
  proof (rule rfold_upt_inv [where P = ?P and f = ?f])
    fix u s assume u: "u < nele" and P: "?P u s"
    obtain a h r where s: "s = (a, h, r)" by (cases s)
    have l: "length a = 32 * m_nExpansionFactor ope" "length h = ?m * m_nExpansionFactor ope" "length r = ?N * ?m"
      and r: "r = fold (xor_at ?m) (map ?u [0..<u]) v" using P unfolding s prod.case by blast+
    note e = server_entry [OF server i u [unfolded nele_def], folded start_def k_def]
    let ?x = "entry_byte ope (start + u) i" and ?a = "blit a 0 (with_code U (entry_byte ope (start + u) i) ?r)"
    have fits: "0 + 32 \<le> length a" "j * 32 + 32 \<le> length M" using l(1) F(1) M by simp_all
    have steps: "Copy a 0 U 0 32 = Ok (blit a 0 U)"
      "ANDBytes (blit a 0 U) 0 (m_vCodeWords ! unat ?x) 0 32 = Ok (blit a 0 (band U (m_vCodeWords ! unat ?x)))"
      "XORBytes (blit a 0 (band U (m_vCodeWords ! unat ?x))) 0 M (j * 32) 32 = Ok ?a"
      using masking_steps [OF U length_code fits] by (simp_all add: with_code_def mult.commute)
    have code: "rd m_vCodeWords (unat ?x) = Ok (m_vCodeWords ! unat ?x)" using unsigned_less [of ?x, where ?'a = nat] by simp
    have lw: "length (with_code U ?x ?r) = 32" using U M length_code by (simp add: with_code_def)
    have la: "length ?a = 32 * m_nExpansionFactor ope" using lw l(1) F(1) by simp
    have "take 32 (drop 0 ?a) = with_code U ?x ?r" using blk_blit_same [of 0 "with_code U ?x ?r" a 32] lw fits(1) by simp
    then have hash: "ope_hash ope i ?a 0 h 0 = Ok (blit h 0 (ope_mask ope i (with_code U ?x ?r)))"
      using ope_hash_ok [OF here(2), of 0 ?a 0 h i] la l(2) F by simp
    have lh: "length (ope_mask ope i (with_code U ?x ?r)) = ?m" by (rule length_ope_mask [OF here(2)])
    let ?h = "blit h 0 (ope_mask ope i (with_code U ?x ?r))"
    have lh': "length ?h = ?m * m_nExpansionFactor ope" using l(2) lh F(2) by simp
    have "take ?m (drop 0 ?h) = ope_mask ope i (with_code U ?x ?r)"
      by (rule blk_blit_same) (use lh l(2) F(2) in simp_all)
    then have x: "XORBits r ?h 0 ((start + u) * m_nMaskBitLen ope) (m_nMaskBitLen ope) = Ok (xor_at ?m (?u u) r)"
      using XORBits_mask [OF here(2) l(3) e(1), of 0 ?h] lh' F(2) by simp
    have run: "?f u s = Ok (?a, ?h, xor_at ?m (?u u) r)"
      by (simp only: s prod.case steps e(2) code hash x rbind.simps)
    have "xor_at ?m (?u u) r = fold (xor_at ?m) (map ?u [0..<Suc u]) v" unfolding r by simp
    then have inv: "?P (Suc u) (?a, ?h, xor_at ?m (?u u) r)"
      unfolding prod.case using la lh' length_xor_at [OF l(3) e(1) lh] by (intro conjI)
    show "\<exists>s'. ?f u s = Ok s' \<and> ?P (Suc u) s'"
      by (rule exI [of "\<lambda>s'. ?f u s = Ok s' \<and> ?P (Suc u) s'", OF conjI [OF run inv]])
  qed (use bufs v in simp_all)
  then obtain st where run: "rfold ?f [0..<nele] (msk, buf, v) = Ok st" and P: "?P nele st" by (elim exE conjE) (rule that)
  obtain a h r where st: "st = (a, h, r)" by (cases st)
  have "map ?u [0..<nele] = server_updates ope U i ?r" by (simp add: server_updates_def Let_def start_def nele_def)
  then have "r = fold (xor_at ?m) (server_updates ope U i ?r) v" using P unfolding st prod.case by (elim conjE) simp
  moreover have "length a = 32 * m_nExpansionFactor ope" "length h = ?m * m_nExpansionFactor ope"
    using P unfolding st prod.case by blast+
  ultimately show ?thesis using run unfolding st by (intro exI conjI) (simp_all only:)
qed

text \<open>A larger bin: the hashes for all 256 bytes first.\<close>

lemma all_codes:
  assumes U: "length U = 32" and M: "off + 32 \<le> length M" and msk: "length msk = 256 * 32"
  shows "\<exists>msk'. rfold (\<lambda>u mask. rbind (Copy mask (u * 32) U 0 32) (\<lambda>mask. rbind (rd m_vCodeWords u) (\<lambda>code.
              rbind (ANDBytes mask (u * 32) code 0 32) (\<lambda>mask. XORBytes mask (u * 32) M off 32)))) [0..<256] msk = Ok msk' \<and>
    length msk' = 256 * 32 \<and> (\<forall>u<256. chunk 32 msk' u = bxor (band U (m_vCodeWords ! u)) (take 32 (drop off M)))"
proof -
  let ?w = "\<lambda>u. bxor (band U (m_vCodeWords ! u)) (take 32 (drop off M))"
  let ?P = "\<lambda>u a. length a = 256 * 32 \<and> (\<forall>u'<u. chunk 32 a u' = ?w u')"
  show ?thesis
  proof (rule rfold_upt_inv [where P = ?P])
    fix u a assume u: "u < 256" and P: "?P u a"
    have code: "length (m_vCodeWords ! u) = 32" "rd m_vCodeWords u = Ok (m_vCodeWords ! u)" using u by simp_all
    have lw: "length (?w u) = 32" using U M code by simp
    have la: "length a = 256 * 32" using P by blast
    have fits: "u * 32 + 32 \<le> length a" by (rule chunk_fits [OF la u])
    have "?P (Suc u) (blit a (u * 32) (?w u))"
    proof (intro conjI allI impI)
      show "length (blit a (u * 32) (?w u)) = 256 * 32" using fits lw la by simp
      show "chunk 32 (blit a (u * 32) (?w u)) u' = ?w u'" if "u' < Suc u" for u'
        using chunk_blit [OF la u _ lw, of u'] that u P by (auto simp: less_Suc_eq)
    qed
    then show "\<exists>a'. rbind (Copy a (u * 32) U 0 32) (\<lambda>mask. rbind (rd m_vCodeWords u) (\<lambda>code.
        rbind (ANDBytes mask (u * 32) code 0 32) (\<lambda>mask. XORBytes mask (u * 32) M off 32))) = Ok a' \<and> ?P (Suc u) a'"
      unfolding masking_steps(1) [OF U code(1) fits M] code(2) rbind.simps masking_steps(2,3) [OF U code(1) fits M] by blast
  qed (use msk in simp_all)
qed

lemma all_hashes:
  assumes ope: "ope_sizes ope" and msk: "length msk = 256 * 32" and buf: "length buf = 256 * mask_bytes ope"
  shows "\<exists>buf'. rfold (\<lambda>u hash_buf. ope_hash ope i msk (u * 32) hash_buf (u * mask_bytes ope)) [0..<256] buf = Ok buf' \<and>
    length buf' = 256 * mask_bytes ope \<and> (\<forall>u<256. chunk (mask_bytes ope) buf' u = ope_mask ope i (chunk 32 msk u))"
proof -
  let ?m = "mask_bytes ope"
  let ?P = "\<lambda>u h. length h = 256 * ?m \<and> (\<forall>u'<u. chunk ?m h u' = ope_mask ope i (chunk 32 msk u'))"
  show ?thesis
  proof (rule rfold_upt_inv [where P = ?P])
    fix u h assume u: "u < 256" and P: "?P u h"
    let ?w = "ope_mask ope i (chunk 32 msk u)"
    have lw: "length ?w = ?m" by (rule length_ope_mask [OF ope])
    have lh: "length h = 256 * ?m" using P by blast
    have fits: "u * ?m + ?m \<le> length h" by (rule chunk_fits [OF lh u])
    have "?P (Suc u) (blit h (u * ?m) ?w)"
    proof (intro conjI allI impI)
      show "length (blit h (u * ?m) ?w) = 256 * ?m" using fits lw lh by simp
      show "chunk ?m (blit h (u * ?m) ?w) u' = ope_mask ope i (chunk 32 msk u')" if "u' < Suc u" for u'
        using chunk_blit [OF lh u _ lw, of u'] that u P by (auto simp: less_Suc_eq)
    qed
    moreover have "ope_hash ope i msk (u * 32) h (u * ?m) = Ok (blit h (u * ?m) ?w)"
      unfolding chunk_def by (rule ope_hash_ok [OF ope chunk_fits [OF msk u] fits])
    ultimately show "\<exists>h'. ope_hash ope i msk (u * 32) h (u * ?m) = Ok h' \<and> ?P (Suc u) h'" by blast
  qed (use buf in simp_all)
qed

lemma select_masks:
  assumes server: "server_holds ope nbins" and i: "i < nbins * m_nOTsPerElement ope"
    and v: "length v = length (owners (m_vNumEleInBin ope) nbins) * mask_bytes ope"
    and buf: "length buf = 256 * mask_bytes ope" "\<forall>u<256. chunk (mask_bytes ope) buf u = ope_mask ope i (bxor (band U (m_vCodeWords ! u)) r)"
  defines "start \<equiv> m_vStartingPosForBin ope ! (i div m_nOTsPerElement ope)" and "k \<equiv> m_nOTsPerElement ope"
    and "nele \<equiv> m_vNumEleInBin ope ! (i div m_nOTsPerElement ope)"
  shows "rfold (\<lambda>u results. rbind (Get32 (m_vServerChoices ope) ((start * k + i mod k + u * k) * 8) 8) (\<lambda>mask_id.
      XORBits results buf (mask_id * mask_bytes ope) ((start + u) * m_nMaskBitLen ope) (m_nMaskBitLen ope))) [0..<nele] v =
    Ok (fold (xor_at (mask_bytes ope)) (server_updates ope U i r) v)"
proof -
  let ?m = "mask_bytes ope" and ?N = "length (owners (m_vNumEleInBin ope) nbins)"
  let ?u = "\<lambda>u. (start + u, ope_mask ope i (with_code U (entry_byte ope (start + u) i) r))"
  let ?f = "\<lambda>u results. rbind (Get32 (m_vServerChoices ope) ((start * k + i mod k + u * k) * 8) 8) (\<lambda>mask_id.
      XORBits results buf (mask_id * ?m) ((start + u) * m_nMaskBitLen ope) (m_nMaskBitLen ope))"
  let ?P = "\<lambda>u r. r = fold (xor_at ?m) (map ?u [0..<u]) v \<and> length r = ?N * ?m"
  note here = server_here [OF server i]
  have "\<exists>s. rfold ?f [0..<nele] v = Ok s \<and> ?P nele s"
  proof (rule rfold_upt_inv [where P = ?P and f = ?f])
    fix u w assume u: "u < nele" and P: "?P u w"
    note e = server_entry [OF server i u [unfolded nele_def], folded start_def k_def]
    let ?x = "entry_byte ope (start + u) i"
    have lw: "length w = ?N * ?m" using P by blast
    have x: "unat ?x < 256" using unsigned_less [of ?x, where ?'a = nat] by simp
    have "take ?m (drop (unat ?x * ?m) buf) = ope_mask ope i (with_code U ?x r)"
      using buf(2) x by (simp add: with_code_def chunk_def)
    then have "XORBits w buf (unat ?x * ?m) ((start + u) * m_nMaskBitLen ope) (m_nMaskBitLen ope) = Ok (xor_at ?m (?u u) w)"
      using XORBits_mask [OF here(2) lw e(1) chunk_fits [OF buf(1) x]] by (simp only:)
    then have run: "?f u w = Ok (xor_at ?m (?u u) w)" by (simp only: e(2) rbind.simps)
    have "length (xor_at ?m (?u u) w) = ?N * ?m" by (rule length_xor_at [OF lw e(1) length_ope_mask [OF here(2)]])
    moreover have "xor_at ?m (?u u) w = fold (xor_at ?m) (map ?u [0..<Suc u]) v" using P by simp
    ultimately show "\<exists>s'. ?f u w = Ok s' \<and> ?P (Suc u) s'" using run by blast
  qed (use v in simp_all)
  moreover have "map ?u [0..<nele] = server_updates ope U i r" by (simp add: server_updates_def Let_def start_def nele_def)
  ultimately show ?thesis by (simp only:) blast
qed

lemma ServerExpand_rows:
  assumes server: "server_holds ope nbins" and U: "length U = 32"
    and v: "length v = length (owners (m_vNumEleInBin ope) nbins) * mask_bytes ope"
    and at: "at + n \<le> nbins * m_nOTsPerElement ope" and M: "32 * n \<le> length M"
  shows "ServerExpand ope U M at n v = Ok (fold (\<lambda>j. fold (xor_at (mask_bytes ope)) (server_updates ope U (at + j) (take 32 (drop (32 * j) M)))) [0..<n] v)"
proof -
  let ?m = "mask_bytes ope" and ?N = "length (owners (m_vNumEleInBin ope) nbins)" and ?F = "m_nExpansionFactor ope"
    and ?k = "m_nOTsPerElement ope"
  define f where "f = (\<lambda>j (mask, hash_buf, results).
          let ot_id = at + j; bin_id = ot_id div ?k; bit_id = ot_id mod ?k; Mptr = j * 32 in
          rbind (rd (m_vStartingPosForBin ope) bin_id) (\<lambda>start. let binoffset = start * ?k in
          rbind (rd (m_vNumEleInBin ope) bin_id) (\<lambda>nele.
          if nele < 256 then
            rfold (\<lambda>u (mask, hash_buf, results).
              rbind (Copy mask 0 U 0 32) (\<lambda>mask.
              rbind (Get32 (m_vServerChoices ope) ((binoffset + bit_id + u * ?k) * 8) 8) (\<lambda>choice.
              rbind (rd m_vCodeWords choice) (\<lambda>code.
              rbind (ANDBytes mask 0 code 0 32) (\<lambda>mask.
              rbind (XORBytes mask 0 M Mptr 32) (\<lambda>mask.
              rbind (ope_hash ope ot_id mask 0 hash_buf 0) (\<lambda>hash_buf.
              rbind (XORBits results hash_buf 0 ((start + u) * m_nMaskBitLen ope) (m_nMaskBitLen ope)) (\<lambda>results.
              Ok (mask, hash_buf, results))))))))) [0..<nele] (mask, hash_buf, results)
          else
            rbind (rfold (\<lambda>u mask.
              rbind (Copy mask (u * 32) U 0 32) (\<lambda>mask.
              rbind (rd m_vCodeWords u) (\<lambda>code.
              rbind (ANDBytes mask (u * 32) code 0 32) (\<lambda>mask.
              XORBytes mask (u * 32) M Mptr 32)))) [0..<256] mask) (\<lambda>mask.
            rbind (rfold (\<lambda>u hash_buf. ope_hash ope ot_id mask (u * 32) hash_buf (u * ?m)) [0..<256] hash_buf) (\<lambda>hash_buf.
            rbind (rfold (\<lambda>u results.
              rbind (Get32 (m_vServerChoices ope) ((binoffset + bit_id + u * ?k) * 8) 8) (\<lambda>mask_id.
              XORBits results hash_buf (mask_id * ?m) ((start + u) * m_nMaskBitLen ope) (m_nMaskBitLen ope)))
              [0..<nele] results) (\<lambda>results. Ok (mask, hash_buf, results)))))))"
  let ?u = "\<lambda>j. fold (xor_at ?m) (server_updates ope U (at + j) (take 32 (drop (32 * j) M)))"
  define P where "P = (\<lambda>j (msk :: bytes, buf :: bytes, r). length msk = 32 * ?F \<and> length buf = ?m * ?F \<and> r = fold ?u [0..<j] v \<and> length r = ?N * ?m)"
  have "\<exists>s. rfold f [0..<n] (Create (256 * ?F), replicate (?m * ?F) 0, v) = Ok s \<and> P n s"
  proof (rule rfold_upt_inv)
    have "0 < ?F" using server by (simp add: server_holds_def)
    moreover have "ceil_divide (8 * (32 * ?F)) 8 = 32 * ?F" using \<open>0 < ?F\<close> by (cases "32 * ?F") (simp_all add: ceil_divide_def)
    ultimately have "Create (256 * ?F) = replicate (32 * ?F) 0" by (simp add: Create_def)
    then show "P 0 (Create (256 * ?F), replicate (?m * ?F) 0, v)" using v by (simp add: P_def)
    fix j s assume j: "j < n" and s: "P j s"
    obtain a h r where abs: "s = (a, h, r)" by (cases s)
    have l: "length a = 32 * ?F" "length h = ?m * ?F" "length r = ?N * ?m" and r: "r = fold ?u [0..<j] v"
      using s unfolding abs P_def prod.case by blast+
    let ?i = "at + j" and ?r = "take 32 (drop (32 * j) M)" and ?b = "(at + j) div ?k"
    have i: "?i < nbins * ?k" using j at by simp
    note here = server_here [OF server i]
    have Mj: "32 * j + 32 \<le> length M" "j * 32 + 32 \<le> length M" using M j by simp_all
    have fit: "updates_fit ?m ?N (server_updates ope U ?i ?r)"
      using server_entry(1) [OF server i] length_ope_mask [OF here(2)] by (auto simp: updates_fit_def server_updates_def Let_def)
    have lu: "length (?u j r) = ?N * ?m" by (rule length_updates [OF l(3) fit])
    have "\<exists>a' h'. f j (a, h, r) = Ok (a', h', ?u j r) \<and> length a' = 32 * ?F \<and> length h' = ?m * ?F"
    proof (cases "m_vNumEleInBin ope ! ?b < 256")
      case True
      show ?thesis unfolding f_def prod.case Let_def here(3,4) rbind.simps if_P [OF True]
        by (rule server_small_bin [OF server U Mj(1) l(3) i l(1,2)])
    next
      case False
      then have F: "?F = 256" using server here(1) by (auto simp: server_holds_def not_less)
      have la: "length a = 256 * 32" and lh: "length h = 256 * ?m" using l F by simp_all
      obtain a' where a': "rfold (\<lambda>u mask. rbind (Copy mask (u * 32) U 0 32) (\<lambda>mask. rbind (rd m_vCodeWords u) (\<lambda>code.
              rbind (ANDBytes mask (u * 32) code 0 32) (\<lambda>mask. XORBytes mask (u * 32) M (j * 32) 32)))) [0..<256] a = Ok a'"
        "length a' = 256 * 32" "\<forall>u<256. chunk 32 a' u = bxor (band U (m_vCodeWords ! u)) (take 32 (drop (j * 32) M))"
        using all_codes [OF U Mj(2) la] by (elim exE conjE) (rule that)
      obtain h' where h': "rfold (\<lambda>u hash_buf. ope_hash ope ?i a' (u * 32) hash_buf (u * ?m)) [0..<256] h = Ok h'"
        "length h' = 256 * ?m" "\<forall>u<256. chunk ?m h' u = ope_mask ope ?i (chunk 32 a' u)"
        using all_hashes [OF here(2) a'(2) lh, where i = "at + j"] by (elim exE conjE) (rule that)
      have "\<forall>u<256. chunk ?m h' u = ope_mask ope ?i (bxor (band U (m_vCodeWords ! u)) ?r)"
        using a'(3) h'(3) by (simp add: mult.commute [of j 32])
      note sel = select_masks [OF server i l(3) h'(2) this]
      have "f j (a, h, r) = Ok (a', h', ?u j r)"
        unfolding f_def prod.case Let_def here(3,4) rbind.simps if_not_P [OF False] a'(1) h'(1) sel ..
      moreover have "length a' = 32 * ?F" "length h' = ?m * ?F" using a'(2) h'(2) F by simp_all
      ultimately show ?thesis by (intro exI conjI)
    qed
    then obtain a' h' where run: "f j (a, h, r) = Ok (a', h', ?u j r)" "length a' = 32 * ?F" "length h' = ?m * ?F"
      by (elim exE conjE) (rule that)
    have "P (Suc j) (a', h', ?u j r)" unfolding P_def prod.case using run(2,3) lu r by simp
    then show "\<exists>s'. f j s = Ok s' \<and> P (Suc j) s'" unfolding abs using run(1) by blast
  qed simp
  then obtain s where run: "rfold f [0..<n] (Create (256 * ?F), replicate (?m * ?F) 0, v) = Ok s" and s: "P n s" by blast
  have "ServerExpand ope U M at n v = rbind (rfold f [0..<n] (Create (256 * ?F), replicate (?m * ?F) 0, v)) (\<lambda>(mask, hash_buf, results). Ok results)"
    unfolding ServerExpand_def Let_def code_sizes f_def ..
  then show ?thesis using run s by (cases s) (simp add: P_def)
qed

section \<open>The interface\<close>

definition client_row :: "OPEMasking \<Rightarrow> nat \<Rightarrow> bytes \<Rightarrow> bytes \<Rightarrow> bytes" where
  "client_row ope i r = fold (xor_at (mask_bytes ope)) (client_updates ope i r)"

definition server_row :: "OPEMasking \<Rightarrow> bytes \<Rightarrow> nat \<Rightarrow> bytes \<Rightarrow> bytes \<Rightarrow> bytes" where
  "server_row ope U i r = fold (xor_at (mask_bytes ope)) (server_updates ope U i r)"

definition client_good :: "OPEMasking \<Rightarrow> nat \<Rightarrow> nat \<Rightarrow> bytes \<Rightarrow> bool" where
  "client_good ope nbins n v \<longleftrightarrow> client_holds ope nbins n \<and> length v = n * mask_bytes ope"

definition server_good :: "OPEMasking \<Rightarrow> bytes \<Rightarrow> nat \<Rightarrow> bytes \<Rightarrow> bool" where
  "server_good ope U nbins v \<longleftrightarrow> server_holds ope nbins \<and> length U = 32 \<and>
     length v = length (owners (m_vNumEleInBin ope) nbins) * mask_bytes ope"

lemma client_updates_fit:
  assumes c: "client_holds ope nbins n" and i: "i < nbins * m_nOTsPerElement ope"
  shows "updates_fit (mask_bytes ope) n (client_updates ope i r)"
proof -
  have b: "i div m_nOTsPerElement ope < nbins" using i by (rule less_mult_imp_div_less)
  have "ope_sizes ope" using c by (simp add: client_holds_def)
  moreover have "m_vBinToResult ope ! (i div m_nOTsPerElement ope) < n" if "0 < m_vNumEleInBin ope ! (i div m_nOTsPerElement ope)"
    using owners_at [OF b that] c b by (simp add: client_holds_def)
  ultimately show ?thesis by (auto simp: updates_fit_def client_updates_def Let_def length_ope_mask)
qed

lemma server_updates_fit:
  assumes s: "server_holds ope nbins" and i: "i < nbins * m_nOTsPerElement ope"
  shows "updates_fit (mask_bytes ope) (length (owners (m_vNumEleInBin ope) nbins)) (server_updates ope U i r)"
  using server_entry(1) [OF s i] length_ope_mask [OF server_here(2) [OF s i]] by (auto simp: updates_fit_def server_updates_def Let_def)

interpretation client_masks: masking_function "expandMask ope U" "client_row ope" "client_good ope nbins n" "nbins * m_nOTsPerElement ope"
  for ope U nbins n
proof
  show "expandMask ope U M at k s = Ok (fold (\<lambda>j. client_row ope (at + j) (take 32 (drop (32 * j) M))) [0..<k] s)"
    if "client_good ope nbins n s" "at + k \<le> nbins * m_nOTsPerElement ope" "32 * k \<le> length M" for s at k M
    using ClientExpand_rows [of ope nbins n s at k M] that by (simp add: client_good_def client_holds_def expandMask_def client_row_def)
  show "client_good ope nbins n (client_row ope i r s)"
    if "client_good ope nbins n s" "i < nbins * m_nOTsPerElement ope" "length r = 32" for s i r
    using that length_updates client_updates_fit unfolding client_good_def client_row_def by metis
qed

interpretation server_masks: masking_function "expandMask ope U" "server_row ope U" "server_good ope U nbins" "nbins * m_nOTsPerElement ope"
  for ope U nbins
proof
  show "expandMask ope U M at k s = Ok (fold (\<lambda>j. server_row ope U (at + j) (take 32 (drop (32 * j) M))) [0..<k] s)"
    if "server_good ope U nbins s" "at + k \<le> nbins * m_nOTsPerElement ope" "32 * k \<le> length M" for s at k M
    using ServerExpand_rows [of ope nbins U s at k M] that by (simp add: server_good_def server_holds_def expandMask_def server_row_def)
  show "server_good ope U nbins (server_row ope U i r s)"
    if "server_good ope U nbins s" "i < nbins * m_nOTsPerElement ope" "length r = 32" for s i r
    using that length_updates server_updates_fit unfolding server_good_def server_row_def by metis
qed

end
