(* ===== verification/BaseOT.thy ===== *)
theory BaseOT
  imports OTRoutines
begin

text \<open>
  The base transfers of the OPRG: Naor-Pinkas (\<open>src/PSI/src/util/ot/naor-pinkas.cpp\<close>, \<open>baseOT.h\<close>) and the keys both
  sides make of its results (\<open>InitOTSender\<close>, \<open>InitOTReceiver\<close> in \<open>src/PSI/src/ot-based/ot-psi.cpp\<close>, \<open>InitAESKey\<close>
  in \<open>ot-extension.h\<close>). The group (\<open>pk_crypto\<close>, implemented with MIRACL or GMP) is a parameter, the random exponents
  are arguments. The sender's side is split where it waits for the receiver.
\<close>

section \<open>Groups and hashes\<close>

record 'e pk_crypto =
  fe_generator :: 'e
  fe_pow :: "'e \<Rightarrow> nat \<Rightarrow> 'e"
  fe_div :: "'e \<Rightarrow> 'e \<Rightarrow> 'e"
  fe_export :: "'e \<Rightarrow> bytes"
  fe_import :: "bytes \<Rightarrow> 'e"
  fe_byte_size :: nat

definition pk_ok :: "'e pk_crypto \<Rightarrow> bool" where
  "pk_ok G \<longleftrightarrow> (\<forall>x a b. fe_pow G (fe_pow G x a) b = fe_pow G (fe_pow G x b) a) \<and>
     (\<forall>x y a. fe_pow G (fe_div G x y) a = fe_div G (fe_pow G x a) (fe_pow G y a)) \<and>
     (\<forall>x y. fe_div G x (fe_div G x y) = y) \<and>
     (\<forall>x. fe_import G (fe_export G x) = x) \<and> (\<forall>x. length (fe_export G x) = fe_byte_size G)"

definition get_aes_key_bytes :: "nat \<Rightarrow> nat" where
  "get_aes_key_bytes symbits =
     (if symbits = 80 then 16 else if symbits = 112 then 16 else if symbits = 128 then 16
      else if symbits = 192 then 24 else if symbits = 256 then 32 else 64)"

definition get_hash_bytes :: "nat \<Rightarrow> nat" where
  "get_hash_bytes symbits =
     (if symbits = 80 then 20 else if symbits = 112 then 32 else if symbits = 128 then 32
      else if symbits = 192 then 64 else if symbits = 256 then 64 else 64)"

definition hash_ctr :: "crypto \<Rightarrow> bytes \<Rightarrow> nat \<Rightarrow> nat \<Rightarrow> bytes \<Rightarrow> nat \<Rightarrow> nat \<Rightarrow> bytes res" where
  "hash_ctr c resbuf off noutbytes inbuf ninbytes ctr =
     rbind (rd_blk inbuf 0 ninbytes) (\<lambda>b.
     sha_hash c (hash_routine c) resbuf off noutbytes (le_bytes 4 (of_nat ctr :: u32) @ b) (ninbytes + 4))"

section \<open>Naor-Pinkas\<close>

text \<open>The sender up to its \<open>Send\<close>: the bytes and the elements \<open>C\<close> with the exponents \<open>alpha\<close> and \<open>rs\<close>.\<close>

definition np_Sender_first :: "'e pk_crypto \<Rightarrow> nat \<Rightarrow> nat \<Rightarrow> nat list \<Rightarrow> (bytes \<times> 'e list) res" where
  "np_Sender_first G nSndVals alpha rs =
     rbind (rmap (\<lambda>u. rbind (rd rs (u - 1)) (\<lambda>tmp. Ok (fe_pow G (fe_generator G) tmp))) [1..<nSndVals]) (\<lambda>pC.
     let pC = fe_pow G (fe_generator G) alpha # pC in Ok (concat (map (fe_export G) pC), pC))"

definition np_Receiver ::
    "'e pk_crypto \<Rightarrow> crypto \<Rightarrow> nat \<Rightarrow> nat \<Rightarrow> nat \<Rightarrow> bytes \<Rightarrow> nat list \<Rightarrow> bytes \<Rightarrow> bytes \<Rightarrow> (bytes \<times> bytes) res" where
  "np_Receiver G c hash_bytes nSndVals nOTs choices pK stream ret =
     (let fe_bytes = fe_byte_size G in
      rbind (rmap (\<lambda>k. rbind (rd pK k) (\<lambda>e. Ok (fe_pow G (fe_generator G) e))) [0..<nOTs]) (\<lambda>PK_sigma.
      rbind (csocket_Receive (replicate (nOTs * fe_bytes) 0) (nSndVals * fe_bytes) stream) (\<lambda>(pBuf, _).
      rbind (rmap (\<lambda>u. rbind (rd_blk pBuf (u * fe_bytes) fe_bytes) (\<lambda>b. Ok (fe_import G b))) [0..<nSndVals]) (\<lambda>pC.
      rbind (rfold (\<lambda>k pBuf. rbind (GetBit choices k) (\<lambda>choice. rbind (rd PK_sigma k) (\<lambda>sigma.
          rbind (if choice then rbind (rd pC 1) (\<lambda>C. Ok (fe_div G C sigma)) else Ok sigma) (\<lambda>PK0.
          wr_blk pBuf (k * fe_bytes) (fe_export G PK0)))))
        [0..<nOTs] pBuf) (\<lambda>pBuf.
      rbind (rd_blk pBuf 0 (nOTs * fe_bytes)) (\<lambda>sent.
      rbind (rfold (\<lambda>k ret. rbind (rd pC 0) (\<lambda>C. rbind (rd pK k) (\<lambda>e.
          hash_ctr c ret (k * hash_bytes) hash_bytes (fe_export G (fe_pow G C e)) fe_bytes k)))
        [0..<nOTs] ret) (\<lambda>ret. Ok (sent, ret))))))))"

text \<open>The sender after its \<open>Receive\<close>.\<close>

definition np_Sender_second ::
    "'e pk_crypto \<Rightarrow> crypto \<Rightarrow> nat \<Rightarrow> nat \<Rightarrow> nat \<Rightarrow> nat \<Rightarrow> 'e list \<Rightarrow> bytes \<Rightarrow> bytes \<Rightarrow> bytes res" where
  "np_Sender_second G c hash_bytes nSndVals nOTs alpha pC stream ret =
     (let fe_bytes = fe_byte_size G in
      rbind (csocket_Receive (replicate (fe_bytes * nOTs) 0) (fe_bytes * nOTs) stream) (\<lambda>(pBuf, _).
      rbind (rmap (\<lambda>k. rbind (rd_blk pBuf (k * fe_bytes) fe_bytes) (\<lambda>b. Ok (fe_import G b))) [0..<nOTs]) (\<lambda>pPK0.
      rfold (\<lambda>k ret. rbind (rd pPK0 k) (\<lambda>PK0. let PK0r = fe_pow G PK0 alpha in
          rfold (\<lambda>u ret.
            rbind (if u = 0 then Ok PK0r else rbind (rd pC u) (\<lambda>C. Ok (fe_div G (fe_pow G C alpha) PK0r))) (\<lambda>key.
            hash_ctr c ret ((k * nSndVals + u) * hash_bytes) hash_bytes (fe_export G key) fe_bytes k))
          [0..<nSndVals] ret))
        [0..<nOTs] ret)))"

section \<open>Keys\<close>

text \<open>\<open>InitAESKey\<close> reads keys of 16 bytes, one after another.\<close>

definition InitAESKey :: "bytes \<Rightarrow> nat \<Rightarrow> bytes list res" where
  "InitAESKey keybytes numkeys = rmap (\<lambda>i. rd_blk keybytes (i * 16) 16) [0..<numkeys]"

definition copy_keys :: "nat \<Rightarrow> nat \<Rightarrow> nat \<Rightarrow> bytes \<Rightarrow> bytes res" where
  "copy_keys symbits n hash_bytes pBuf =
     rfold (\<lambda>i keys. rbind (rd_blk pBuf (i * hash_bytes) (get_aes_key_bytes symbits)) (\<lambda>key. wr_blk keys (i * get_aes_key_bytes symbits) key))
       [0..<n] (replicate (get_aes_key_bytes symbits * n) 0)"

text \<open>The sender of the extension is the receiver of the base transfers, with its choice bits \<open>U\<close>.\<close>

definition InitOTSender :: "'e pk_crypto \<Rightarrow> crypto \<Rightarrow> nat \<Rightarrow> bytes \<Rightarrow> nat list \<Rightarrow> bytes \<Rightarrow> (bytes \<times> bytes) res" where
  "InitOTSender G c symbits U pK stream =
     rbind (np_Receiver G c (get_hash_bytes symbits) 2 m_nCodeWordBits U pK stream (replicate (m_nCodeWordBits * get_hash_bytes symbits) 0)) (\<lambda>(sent, pBuf).
     rbind (copy_keys symbits m_nCodeWordBits (get_hash_bytes symbits) pBuf) (\<lambda>keySeeds. Ok (sent, keySeeds)))"

definition InitOTReceiver :: "'e pk_crypto \<Rightarrow> crypto \<Rightarrow> nat \<Rightarrow> nat \<Rightarrow> 'e list \<Rightarrow> bytes \<Rightarrow> bytes res" where
  "InitOTReceiver G c symbits alpha pC stream =
     rbind (np_Sender_second G c (get_hash_bytes symbits) 2 m_nCodeWordBits alpha pC stream
       (replicate (get_hash_bytes symbits * m_nCodeWordBits * 2) 0)) (\<lambda>pBuf.
     copy_keys symbits (m_nCodeWordBits * 2) (get_hash_bytes symbits) pBuf)"

section \<open>What both sides compute\<close>

text \<open>The string both sides derive from an element in transfer \<open>k\<close>.\<close>

definition np_key :: "'e pk_crypto \<Rightarrow> crypto \<Rightarrow> nat \<Rightarrow> 'e \<Rightarrow> bytes" where
  "np_key G c k x = SHA c (hash_routine c) (le_bytes 4 (of_nat k :: u32) @ fe_export G x)"

lemma length_np_key: "digest_lengths c \<Longrightarrow> length (np_key G c k x) = num_hash_bytes c"
  by (simp add: digest_lengths_def np_key_def)

lemma hash_ctr_np:
  assumes "digest_lengths c" and "pk_ok G"
  shows "hash_ctr c ret off (num_hash_bytes c) (fe_export G x) (fe_byte_size G) k = wr_blk ret off (np_key G c k x)"
  using assms by (simp add: hash_ctr_def sha_hash_def rd_blk_def np_key_def digest_lengths_def pk_ok_def)

lemma blocks_written:
  assumes "\<And>i. i < N \<Longrightarrow> length (F i) = sz" and "length v = N * sz"
  shows "rfold (\<lambda>i v. wr_blk v (i * sz) (F i)) [0..<N] v = Ok (concat (map F [0..<N]))"
  using fill_blocks [of N F sz 0 v] assms length_concat_same [of N F sz] by (simp add: blit_def)

lemma blocks_read:
  fixes F :: "nat \<Rightarrow> bytes"
  assumes "\<And>i. i < N \<Longrightarrow> length (F i) = sz" and "i < N"
  shows "rd_blk (concat (map F [0..<N])) (i * sz) sz = Ok (F i)"
proof -
  have l: "length (concat (map F [0..<N])) = N * sz" by (rule length_concat_same [OF assms(1)])
  show ?thesis using chunk_concat [of N F sz i] assms chunk_fits [OF l assms(2)] by (simp add: rd_blk_def chunk_def)
qed

lemma receive_all: "length v = n \<Longrightarrow> length stream = n \<Longrightarrow> csocket_Receive v n stream = Ok (stream, [])"
  by (simp add: csocket_Receive_def wr_blk_def blit_def)

lemma np_Sender_first_ok:
  assumes "rs \<noteq> []"
  shows "np_Sender_first G 2 alpha rs = Ok (fe_export G (fe_pow G (fe_generator G) alpha) @ fe_export G (fe_pow G (fe_generator G) (rs ! 0)),
    [fe_pow G (fe_generator G) alpha, fe_pow G (fe_generator G) (rs ! 0)])"
proof -
  have "[1..<2] = [1 :: nat]" by (simp add: upt_rec)
  then show ?thesis using assms by (simp add: np_Sender_first_def Let_def)
qed

lemma np_Receiver_ok:
  assumes G: "pk_ok G" and c: "digest_lengths c" and n: "2 \<le> n" "n \<le> length pK" "n \<le> 8 * length U"
    and ret: "length ret = n * num_hash_bytes c"
  shows "np_Receiver G c (num_hash_bytes c) 2 n U pK (fe_export G C0 @ fe_export G C1) ret =
    Ok (concat (map (\<lambda>k. fe_export G (if bit_at U k then fe_div G C1 (fe_pow G (fe_generator G) (pK ! k)) else fe_pow G (fe_generator G) (pK ! k))) [0..<n]),
        concat (map (\<lambda>k. np_key G c k (fe_pow G C0 (pK ! k))) [0..<n]))"
proof -
  let ?e = "fe_byte_size G" and ?g = "fe_generator G"
  let ?PK = "\<lambda>k. if bit_at U k then fe_div G C1 (fe_pow G ?g (pK ! k)) else fe_pow G ?g (pK ! k)"
  have le: "length (fe_export G x) = ?e" for x using G by (simp add: pk_ok_def)
  have imp: "fe_import G (fe_export G x) = x" for x using G by (simp add: pk_ok_def)
  have sigma: "rmap (\<lambda>k. rbind (rd pK k) (\<lambda>e. Ok (fe_pow G ?g e))) [0..<n] = Ok (map (\<lambda>k. fe_pow G ?g (pK ! k)) [0..<n])"
    by (rule rmap_Ok) (use n in simp)
  let ?m = "fe_export G C0 @ fe_export G C1" and ?z = "replicate (n * ?e) (0 :: u8)"
  have "2 * ?e \<le> n * ?e" using n(1) by simp
  then have rcv: "csocket_Receive ?z (2 * ?e) ?m = Ok (?m @ drop (2 * ?e) ?z, [])"
    using le by (simp add: csocket_Receive_def wr_blk_def blit_def mult_2 [symmetric] del: drop_replicate)
  let ?p = "?m @ drop (2 * ?e) ?z"
  have "length ?p = 2 * ?e + (n * ?e - 2 * ?e)" using le by (simp only: length_append length_drop length_replicate mult_2)
  also have "\<dots> = n * ?e" by (rule le_add_diff_inverse [OF \<open>2 * ?e \<le> n * ?e\<close>])
  finally have lp: "length ?p = n * ?e" .
  have pC: "rmap (\<lambda>u. rbind (rd_blk ?p (u * ?e) ?e) (\<lambda>b. Ok (fe_import G b))) [0..<2] = Ok [C0, C1]"
  proof -
    have "[0..<2] = [0, 1 :: nat]" by (simp add: upt_rec)
    moreover have "rd_blk ?p 0 ?e = Ok (fe_export G C0)" "rd_blk ?p ?e ?e = Ok (fe_export G C1)"
    proof -
      have "?e + ?e \<le> length ?p" unfolding lp using \<open>2 * ?e \<le> n * ?e\<close> by linarith
      then show "rd_blk ?p 0 ?e = Ok (fe_export G C0)" "rd_blk ?p ?e ?e = Ok (fe_export G C1)" using le by (simp_all add: rd_blk_def)
    qed
    ultimately show ?thesis by (simp add: imp)
  qed
  have body: "rbind (GetBit U k) (\<lambda>choice. rbind (rd (map (\<lambda>k. fe_pow G ?g (pK ! k)) [0..<n]) k) (\<lambda>sigma.
          rbind (if choice then rbind (rd [C0, C1] 1) (\<lambda>C. Ok (fe_div G C sigma)) else Ok sigma) (\<lambda>PK0.
          wr_blk v (k * ?e) (fe_export G PK0)))) = wr_blk v (k * ?e) (fe_export G (?PK k))" if "k \<in> set [0..<n]" for k v
    using that n GetBit_bit_at [of k U] by simp
  have send: "rfold (\<lambda>k pBuf. rbind (GetBit U k) (\<lambda>choice. rbind (rd (map (\<lambda>k. fe_pow G ?g (pK ! k)) [0..<n]) k) (\<lambda>sigma.
          rbind (if choice then rbind (rd [C0, C1] 1) (\<lambda>C. Ok (fe_div G C sigma)) else Ok sigma) (\<lambda>PK0.
          wr_blk pBuf (k * ?e) (fe_export G PK0))))) [0..<n] ?p = Ok (concat (map (\<lambda>k. fe_export G (?PK k)) [0..<n]))"
    using blocks_written [of n "\<lambda>k. fe_export G (?PK k)" ?e ?p] le lp by (subst rfold_cong [OF refl refl body]) auto
  have all: "rd_blk (concat (map (\<lambda>k. fe_export G (?PK k)) [0..<n])) 0 (n * ?e) = Ok (concat (map (\<lambda>k. fe_export G (?PK k)) [0..<n]))"
    using length_concat_same [of n "\<lambda>k. fe_export G (?PK k)" ?e] le by (simp add: rd_blk_def)
  have keys: "rfold (\<lambda>k ret. rbind (rd [C0, C1] 0) (\<lambda>C. rbind (rd pK k) (\<lambda>e.
          hash_ctr c ret (k * num_hash_bytes c) (num_hash_bytes c) (fe_export G (fe_pow G C e)) ?e k))) [0..<n] ret =
      Ok (concat (map (\<lambda>k. np_key G c k (fe_pow G C0 (pK ! k))) [0..<n]))"
  proof -
    have "rbind (rd [C0, C1] 0) (\<lambda>C. rbind (rd pK k) (\<lambda>e. hash_ctr c v (k * num_hash_bytes c) (num_hash_bytes c) (fe_export G (fe_pow G C e)) ?e k)) =
        wr_blk v (k * num_hash_bytes c) (np_key G c k (fe_pow G C0 (pK ! k)))" if "k \<in> set [0..<n]" for k v
      using that n by (simp add: hash_ctr_np [OF c G])
    then have "rfold (\<lambda>k ret. rbind (rd [C0, C1] 0) (\<lambda>C. rbind (rd pK k) (\<lambda>e.
          hash_ctr c ret (k * num_hash_bytes c) (num_hash_bytes c) (fe_export G (fe_pow G C e)) ?e k))) [0..<n] ret =
        rfold (\<lambda>k v. wr_blk v (k * num_hash_bytes c) (np_key G c k (fe_pow G C0 (pK ! k)))) [0..<n] ret"
      by (rule rfold_cong [OF refl refl])
    then show ?thesis using blocks_written [of n "\<lambda>k. np_key G c k (fe_pow G C0 (pK ! k))" "num_hash_bytes c" ret] ret
      by (simp add: length_np_key [OF c])
  qed
  show ?thesis unfolding np_Receiver_def Let_def sigma rcv pC rbind.simps prod.case send all keys ..
qed

text \<open>The sender's two strings of a transfer, and their order in its result.\<close>

definition np_secret :: "'e pk_crypto \<Rightarrow> nat \<Rightarrow> 'e list \<Rightarrow> 'e \<Rightarrow> nat \<Rightarrow> 'e" where
  "np_secret G alpha pC PK0 u = (let r = fe_pow G PK0 alpha in if u = 0 then r else fe_div G (fe_pow G (pC ! u) alpha) r)"

lemma np_Sender_second_ok:
  assumes G: "pk_ok G" and c: "digest_lengths c" and pC: "length pC = 2" and ret: "length ret = n * 2 * num_hash_bytes c"
  shows "np_Sender_second G c (num_hash_bytes c) 2 n alpha pC (concat (map (\<lambda>k. fe_export G (PK k)) [0..<n])) ret =
    Ok (concat (map (\<lambda>i. np_key G c (i div 2) (np_secret G alpha pC (PK (i div 2)) (i mod 2))) [0..<n * 2]))"
proof -
  let ?e = "fe_byte_size G" and ?h = "num_hash_bytes c" and ?m = "concat (map (\<lambda>k. fe_export G (PK k)) [0..<n])"
  let ?F = "\<lambda>i. np_key G c (i div 2) (np_secret G alpha pC (PK (i div 2)) (i mod 2))"
  have le: "length (fe_export G x) = ?e" for x using G by (simp add: pk_ok_def)
  have imp: "fe_import G (fe_export G x) = x" for x using G by (simp add: pk_ok_def)
  have lm: "length ?m = ?e * n" using length_concat_same [of n "\<lambda>k. fe_export G (PK k)" ?e] le by simp
  have rcv: "csocket_Receive (replicate (?e * n) 0) (?e * n) ?m = Ok (?m, [])" by (rule receive_all) (simp_all add: lm)
  have pks: "rmap (\<lambda>k. rbind (rd_blk ?m (k * ?e) ?e) (\<lambda>b. Ok (fe_import G b))) [0..<n] = Ok (map PK [0..<n])"
    by (rule rmap_Ok) (use blocks_read [of n "\<lambda>k. fe_export G (PK k)" ?e] le imp in simp)
  have lF: "length (?F i) = ?h" for i by (rule length_np_key [OF c])
  let ?in = "\<lambda>k PK0r u ret. rbind (if u = 0 then Ok PK0r else rbind (rd pC u) (\<lambda>C. Ok (fe_div G (fe_pow G C alpha) PK0r))) (\<lambda>key.
            hash_ctr c ret ((k * 2 + u) * ?h) ?h (fe_export G key) ?e k)"
  let ?body = "\<lambda>k ret. rbind (rd (map PK [0..<n]) k) (\<lambda>PK0. let PK0r = fe_pow G PK0 alpha in rfold (?in k PK0r) [0..<2] ret)"
  have "\<exists>r. rfold ?body [0..<n] ret = Ok r \<and> r = blit ret 0 (concat (map ?F [0..<n * 2]))"
  proof (rule rfold_upt_inv [where P = "\<lambda>k r. r = blit ret 0 (concat (map ?F [0..<k * 2]))"])
    fix k r assume k: "k < n" and r: "r = blit ret 0 (concat (map ?F [0..<k * 2]))"
    have lX: "length (concat (map ?F [0..<k * 2])) = k * 2 * ?h" by (rule length_concat_same [OF lF])
    have "(k * 2 + 2) * ?h \<le> n * 2 * ?h" using k by (intro mult_le_mono1) simp
    then have fits: "k * 2 * ?h + 2 * ?h \<le> length ret" using ret by (simp add: add_mult_distrib)
    have lr: "length r = length ret" unfolding r using lX fits by simp
    have step: "?in k (fe_pow G (PK k) alpha) u v = wr_blk v (k * 2 * ?h + u * ?h) (?F (k * 2 + u))" if "u \<in> set [0..<2]" for u v
    proof -
      have u: "u < 2" using that by simp
      then have "(k * 2 + u) div 2 = k" "(k * 2 + u) mod 2 = u" by simp_all
      then show ?thesis using u pC by (simp add: hash_ctr_np [OF c G] np_secret_def Let_def add_mult_distrib)
    qed
    have "rfold (?in k (fe_pow G (PK k) alpha)) [0..<2] r = rfold (\<lambda>u v. wr_blk v (k * 2 * ?h + u * ?h) (?F (k * 2 + u))) [0..<2] r"
      by (rule rfold_cong [OF refl refl step])
    also have "\<dots> = Ok (blit r (k * 2 * ?h) (concat (map (\<lambda>u. ?F (k * 2 + u)) [0..<2])))"
      by (rule fill_blocks) (use length_np_key [OF c] lr fits in simp_all)
    also have "blit r (k * 2 * ?h) (concat (map (\<lambda>u. ?F (k * 2 + u)) [0..<2])) = blit ret 0 (concat (map ?F [0..<Suc k * 2]))"
    proof -
      have two: "[0..<2] = [0, 1 :: nat]" by (simp add: upt_rec)
      have l2: "length (concat (map (\<lambda>u. ?F (k * 2 + u)) [0..<2])) = 2 * ?h" by (rule length_concat_same [OF lF])
      have "concat (map ?F [0..<Suc k * 2]) = concat (map ?F [0..<k * 2]) @ concat (map (\<lambda>u. ?F (k * 2 + u)) [0..<2])"
      proof -
        have "Suc (k * 2) mod 2 = 1" by presburger
        then show ?thesis by (simp add: two)
      qed
      then show ?thesis
        using blit_append [of 0 "concat (map ?F [0..<k * 2])" "concat (map (\<lambda>u. ?F (k * 2 + u)) [0..<2])" ret] r lX l2 fits by simp
    qed
    finally have run: "rfold (?in k (fe_pow G (PK k) alpha)) [0..<2] r = Ok (blit ret 0 (concat (map ?F [0..<Suc k * 2])))" .
    have "?body k r = rfold (?in k (fe_pow G (PK k) alpha)) [0..<2] r" using k by (simp add: Let_def)
    then show "\<exists>s'. ?body k r = Ok s' \<and> s' = blit ret 0 (concat (map ?F [0..<Suc k * 2]))" unfolding run by blast
  qed (simp_all add: blit_def)
  moreover have "length (concat (map ?F [0..<n * 2])) = length ret" unfolding ret by (rule length_concat_same [OF lF])
  ultimately have "rfold ?body [0..<n] ret = Ok (concat (map ?F [0..<n * 2]))" by (simp add: blit_def)
  then show ?thesis unfolding np_Sender_second_def Let_def rcv pks rbind.simps prod.case .
qed

lemma copy_keys_ok:
  assumes "\<And>i. i < n \<Longrightarrow> length (F i) = h" and "get_aes_key_bytes symbits = 16" and "16 \<le> h"
  shows "copy_keys symbits n h (concat (map F [0..<n])) = Ok (concat (map (\<lambda>i. take 16 (F i)) [0..<n]))"
proof -
  have l: "length (concat (map F [0..<n])) = n * h" by (rule length_concat_same [OF assms(1)])
  have "rbind (rd_blk (concat (map F [0..<n])) (i * h) 16) (\<lambda>key. wr_blk v (i * 16) key) = wr_blk v (i * 16) (take 16 (F i))"
    if "i \<in> set [0..<n]" for i v
  proof -
    have i: "i < n" using that by simp
    have "take h (drop (i * h) (concat (map F [0..<n]))) = F i" using chunk_concat [of n F h i] assms(1) i by (simp add: chunk_def)
    then have "take 16 (take h (drop (i * h) (concat (map F [0..<n])))) = take 16 (F i)" by (simp only:)
    then have "take 16 (drop (i * h) (concat (map F [0..<n]))) = take 16 (F i)" using assms(3) by (simp add: min.absorb1)
    then show ?thesis using chunk_fits [OF l i] assms(3) by (simp add: rd_blk_def)
  qed
  then have "copy_keys symbits n h (concat (map F [0..<n])) = rfold (\<lambda>i v. wr_blk v (i * 16) (take 16 (F i))) [0..<n] (replicate (16 * n) 0)"
    unfolding copy_keys_def assms(2) by (rule rfold_cong [OF refl refl])
  then show ?thesis using blocks_written [of n "\<lambda>i. take 16 (F i)" 16 "replicate (16 * n) 0"] assms(1,3) by simp
qed

lemma InitAESKey_ok:
  assumes "\<And>i. i < n \<Longrightarrow> length (F i) = 16"
  shows "InitAESKey (concat (map F [0..<n])) n = Ok (map F [0..<n])"
  unfolding InitAESKey_def by (rule rmap_Ok) (use blocks_read [OF assms] in simp)

text \<open>The crypto objects both sides use: keys of AES-128, and the digest the security level selects.\<close>

definition crypto_level :: "nat \<Rightarrow> crypto \<Rightarrow> bool" where
  "crypto_level symbits c \<longleftrightarrow> symbits \<in> {80, 112, 128} \<and> digest_lengths c \<and> num_hash_bytes c = get_hash_bytes symbits"

lemma base_OT:
  assumes G: "pk_ok G" and c: "crypto_level symbits c" and U: "length U = 32" and pK: "256 \<le> length pK" and rs: "rs \<noteq> []"
  shows "\<exists>msg1 pC msg2 seeds mtx keySeeds keys. np_Sender_first G 2 alpha rs = Ok (msg1, pC) \<and>
    InitOTSender G c symbits U pK msg1 = Ok (msg2, seeds) \<and> InitOTReceiver G c symbits alpha pC msg2 = Ok mtx \<and>
    InitAESKey seeds 256 = Ok keySeeds \<and> InitAESKey mtx 512 = Ok keys \<and> keys_match keySeeds keys U"
proof -
  let ?g = "fe_generator G" and ?h = "num_hash_bytes c"
  let ?C0 = "fe_pow G ?g alpha" and ?C1 = "fe_pow G ?g (rs ! 0)"
  let ?PK = "\<lambda>k. if bit_at U k then fe_div G ?C1 (fe_pow G ?g (pK ! k)) else fe_pow G ?g (pK ! k)"
  let ?R = "\<lambda>k. np_key G c k (fe_pow G ?C0 (pK ! k))"
  let ?S = "\<lambda>i. np_key G c (i div 2) (np_secret G alpha [?C0, ?C1] (?PK (i div 2)) (i mod 2))"
  have d: "digest_lengths c" "get_hash_bytes symbits = ?h" "get_aes_key_bytes symbits = 16" "16 \<le> ?h"
    using c by (auto simp: crypto_level_def get_aes_key_bytes_def get_hash_bytes_def)
  let ?msg1 = "fe_export G ?C0 @ fe_export G ?C1" and ?msg2 = "concat (map (\<lambda>k. fe_export G (?PK k)) [0..<256])"
  have first: "np_Sender_first G 2 alpha rs = Ok (?msg1, [?C0, ?C1])" by (rule np_Sender_first_ok [OF rs])
  have rcv: "np_Receiver G c ?h 2 256 U pK ?msg1 (replicate (256 * ?h) 0) = Ok (?msg2, concat (map ?R [0..<256]))"
    by (rule np_Receiver_ok [OF G d(1)]) (use pK U in simp_all)
  have snd: "np_Sender_second G c ?h 2 256 alpha [?C0, ?C1] ?msg2 (replicate (?h * 256 * 2) 0) = Ok (concat (map ?S [0..<512]))"
    using np_Sender_second_ok [OF G d(1), of "[?C0, ?C1]" "replicate (?h * 256 * 2) 0" 256 alpha ?PK] by simp
  have seeds: "InitOTSender G c symbits U pK ?msg1 = Ok (?msg2, concat (map (\<lambda>i. take 16 (?R i)) [0..<256]))"
    unfolding InitOTSender_def code_sizes d(2) rcv rbind.simps prod.case copy_keys_ok [OF length_np_key [OF d(1)] d(3,4)] ..
  have e: "256 * 2 = (512 :: nat)" by simp
  have mtx: "InitOTReceiver G c symbits alpha [?C0, ?C1] ?msg2 = Ok (concat (map (\<lambda>i. take 16 (?S i)) [0..<512]))"
    unfolding InitOTReceiver_def code_sizes d(2) snd rbind.simps e by (rule copy_keys_ok [OF length_np_key [OF d(1)] d(3,4)])
  have l16: "length (take 16 (np_key G c k x)) = 16" for k x using d(4) by (simp add: length_np_key [OF d(1)])
  have same: "?S (2 * k + of_bool (bit_at U k)) = ?R k" for k
  proof -
    have "fe_pow G (fe_pow G ?g (pK ! k)) alpha = fe_pow G ?C0 (pK ! k)" using G unfolding pk_ok_def by blast
    moreover have "fe_pow G (fe_div G ?C1 x) alpha = fe_div G (fe_pow G ?C1 alpha) (fe_pow G x alpha)" for x using G unfolding pk_ok_def by blast
    moreover have "fe_div G x (fe_div G x y) = y" for x y using G unfolding pk_ok_def by blast
    ultimately show ?thesis by (simp add: np_secret_def Let_def)
  qed
  have "keys_match (map (\<lambda>i. take 16 (?R i)) [0..<256]) (map (\<lambda>i. take 16 (?S i)) [0..<512]) U"
    unfolding keys_match_def
  proof (intro conjI allI impI)
    fix k :: nat assume k: "k < 256"
    have "2 * k + of_bool (bit_at U k) < 512" using k by simp
    then show "map (\<lambda>i. take 16 (?R i)) [0..<256] ! k = map (\<lambda>i. take 16 (?S i)) [0..<512] ! (2 * k + of_bool (bit_at U k))"
    proof -
      have "map (\<lambda>i. take 16 (?R i)) [0..<256] ! k = take 16 (?R k)" using k by simp
      moreover have "map (\<lambda>i. take 16 (?S i)) [0..<512] ! j = take 16 (?S j)" if "j < 512" for j using that by (subst nth_map_upt) simp_all
      ultimately show ?thesis unfolding same [of k, symmetric] using \<open>2 * k + of_bool (bit_at U k) < 512\<close> by (simp only:)
    qed
  qed (simp_all add: U)
  moreover have "InitAESKey (concat (map (\<lambda>i. take 16 (?R i)) [0..<256])) 256 = Ok (map (\<lambda>i. take 16 (?R i)) [0..<256])"
    by (rule InitAESKey_ok) (rule l16)
  moreover have "InitAESKey (concat (map (\<lambda>i. take 16 (?S i)) [0..<512])) 512 = Ok (map (\<lambda>i. take 16 (?S i)) [0..<512])"
    by (rule InitAESKey_ok) (rule l16)
  ultimately show ?thesis using first seeds mtx by (intro exI conjI)
qed

end
