(* ===== verification/Oprg.thy ===== *)
theory Oprg
  imports OpeMasking BaseOT
begin

text \<open>
  The oblivious pseudo-random function of the multiparty protocol (\<open>oprg_client\<close>, \<open>oprg_server\<close>, \<open>evaluate_crf\<close> in
  \<open>src/PSI/src/ot-based/ot-psi.cpp\<close>), composed of the base transfers, the OT extension and the masking function. The
  client learns a mask for the entry of each of its bins, the server the masks of all its entries; equal entries of a bin
  have equal masks. What \<open>InitOTReceiver\<close>, \<open>InitOTSender\<close> and the threads of the extension send is passed on as bytes.
\<close>

section \<open>The correlation-robust function\<close>

definition const_seed :: bytes where
  "const_seed = [0x00, 0x11, 0x22, 0x33, 0x44, 0x55, 0x66, 0x77, 0x88, 0x99, 0xAA, 0xBB, 0xCC, 0xDD, 0xEE, 0xFF]"

definition fixed_key_aes_hash :: "(bytes \<Rightarrow> bytes) \<Rightarrow> bytes \<Rightarrow> nat \<Rightarrow> nat \<Rightarrow> bytes \<Rightarrow> nat \<Rightarrow> bytes res" where
  "fixed_key_aes_hash aes_key resbuf off noutbytes inbuf ninbytes =
     rbind (rd_blk inbuf 0 ninbytes) (\<lambda>b.
     rbind (wr_blk (replicate AES_BYTES 0) 0 b) (\<lambda>aes_hash_in_buf.
     rbind (rd_blk (bxor (aes_key aes_hash_in_buf) aes_hash_in_buf) 0 noutbytes) (\<lambda>out. wr_blk resbuf off out)))"

text \<open>Both buffers of \<open>evaluate_crf\<close> are the array of masks.\<close>

definition evaluate_crf :: "(bytes \<Rightarrow> bytes \<Rightarrow> bytes) \<Rightarrow> crypto \<Rightarrow> bytes \<Rightarrow> nat \<Rightarrow> nat \<Rightarrow> bytes res" where
  "evaluate_crf E crypt masks nelements elebytelen =
     (if elebytelen \<le> AES_BYTES then
        rfold (\<lambda>i masks. rbind (rd_blk masks (i * elebytelen) elebytelen) (\<lambda>m.
          fixed_key_aes_hash (E const_seed) masks (i * elebytelen) elebytelen m elebytelen)) [0..<nelements] masks
      else
        rfold (\<lambda>i masks. rbind (rd_blk masks (i * elebytelen) elebytelen) (\<lambda>m.
          crypto_hash crypt masks (i * elebytelen) elebytelen m elebytelen)) [0..<nelements] masks)"

section \<open>The two sides\<close>

text \<open>\<open>keyMtx\<close> is what \<open>InitOTReceiver\<close> leaves. The result holds what is sent on every socket.\<close>

definition oprg_client ::
    "(bytes \<Rightarrow> bytes \<Rightarrow> bytes) \<Rightarrow> crypto \<Rightarrow> bytes \<Rightarrow> nat \<Rightarrow> bytes \<Rightarrow> nat \<Rightarrow> nat \<Rightarrow> nat list \<Rightarrow> nat \<Rightarrow> nat \<Rightarrow> (bytes list \<times> bytes) res" where
  "oprg_client E crypt keyMtx nthreads hash_table nbins neles nelesinbin elebitlen mask_bits =
     (let maskbytelen = ceil_divide mask_bits 8; OTsPerElement = ceil_divide elebitlen 8; numOTs = nbins * OTsPerElement in
      rbind (InitAESKey keyMtx (m_nCodeWordBits * 2)) (\<lambda>keys.
      rbind (rd_blk hash_table 0 (ceil_divide (numOTs * 8) 8)) (\<lambda>choices.
      rbind (OPEMasking_client elebitlen mask_bits nbins nelesinbin crypt) (\<lambda>mskfct.
      rbind (ot_receive (expandMask mskfct []) E keys choices 0 numOTs nthreads (replicate (neles * maskbytelen) 0)) (\<lambda>(sockets, _, masks).
      rbind (evaluate_crf E crypt masks neles maskbytelen) (\<lambda>masks. Ok (sockets, masks)))))))"

text \<open>\<open>keySeeds\<close> is what \<open>InitOTSender\<close> leaves for the choices \<open>U\<close>.\<close>

definition oprg_server ::
    "(bytes \<Rightarrow> bytes \<Rightarrow> bytes) \<Rightarrow> crypto \<Rightarrow> bytes \<Rightarrow> bytes \<Rightarrow> nat \<Rightarrow> bytes list \<Rightarrow> bytes \<Rightarrow> nat \<Rightarrow> nat \<Rightarrow> nat list \<Rightarrow> nat \<Rightarrow> nat \<Rightarrow> bytes res" where
  "oprg_server E crypt U keySeeds nthreads sockets hash_table nbins totaleles nelesinbin elebitlen mask_bits =
     (let maskbytelen = mask_bits div 8; OTsPerBin = ceil_divide elebitlen 8; numOTs = nbins * OTsPerBin in
      rbind (InitAESKey keySeeds m_nCodeWordBits) (\<lambda>keys.
      rbind (rd_blk hash_table 0 (totaleles * ceil_divide elebitlen 8)) (\<lambda>input.
      rbind (OPEMasking_server elebitlen mask_bits nbins nelesinbin input crypt) (\<lambda>mskfct.
      rbind (ot_send (expandMask mskfct U) E keys U 0 numOTs nthreads sockets (replicate (totaleles * maskbytelen) 0)) (\<lambda>(_, masks).
      evaluate_crf E crypt masks totaleles maskbytelen)))))"

text \<open>An evaluation: the base transfers in both directions, the client's extension messages, the server. The client's side
  is \<open>(table, neles, nelesinbin)\<close>, the server's as well.\<close>

definition oprg_run ::
    "'e pk_crypto \<Rightarrow> (bytes \<Rightarrow> bytes \<Rightarrow> bytes) \<Rightarrow> crypto \<Rightarrow> nat \<Rightarrow> nat \<Rightarrow> nat list \<Rightarrow> bytes \<Rightarrow> nat list \<Rightarrow> nat \<Rightarrow> nat \<Rightarrow> nat \<Rightarrow> nat \<Rightarrow>
     bytes \<times> nat \<times> nat list \<Rightarrow> bytes \<times> nat \<times> nat list \<Rightarrow> (bytes \<times> bytes) res" where
  "oprg_run G E crypt symbits alpha rs U pK nthreads nbins elebitlen mask_bits = (\<lambda>(ctab, cneles, cnele) (stab, sneles, snele).
     rbind (np_Sender_first G 2 alpha rs) (\<lambda>(msg1, pC).
     rbind (InitOTSender G crypt symbits U pK msg1) (\<lambda>(msg2, keySeeds).
     rbind (InitOTReceiver G crypt symbits alpha pC msg2) (\<lambda>keyMtx.
     rbind (oprg_client E crypt keyMtx nthreads ctab nbins cneles cnele elebitlen mask_bits) (\<lambda>(sockets, cmasks).
     rbind (oprg_server E crypt U keySeeds nthreads sockets stab nbins sneles snele elebitlen mask_bits) (\<lambda>smasks.
     Ok (cmasks, smasks)))))))"

section \<open>The correlation-robust function on whole arrays\<close>

definition crf :: "(bytes \<Rightarrow> bytes \<Rightarrow> bytes) \<Rightarrow> crypto \<Rightarrow> bytes \<Rightarrow> bytes" where
  "crf E c x = (if length x \<le> 16 then (let b = x @ replicate (16 - length x) 0 in take (length x) (bxor (E const_seed b) b))
     else take (length x) (SHA c (routine_for c (length x)) x))"

lemma evaluate_crf_ok:
  assumes E: "aes_ok E" and c: "digest_lengths c" and eb: "eb \<le> 64" and v: "length v = n * eb"
  shows "\<exists>v'. evaluate_crf E c v n eb = Ok v' \<and> length v' = n * eb \<and> (\<forall>i<n. chunk eb v' i = crf E c (chunk eb v i))"
proof -
  let ?P = "\<lambda>i v'. length v' = n * eb \<and> (\<forall>j<n. chunk eb v' j = (if j < i then crf E c (chunk eb v j) else chunk eb v j))"
  have lcrf: "length (crf E c x) = length x" if "length x \<le> 64" for x
    using that E c by (auto simp: crf_def Let_def aes_ok_def digest_lengths_def routine_for_def SHA_OUT_BYTES_def split: sha_routine.splits)
  have next_entry: "\<exists>s'. f i w = Ok s' \<and> ?P (Suc i) s'"
    if i: "i < n" and P: "?P i w" and f: "f i w = Ok (blit w (i * eb) (crf E c (chunk eb w i)))" for f :: "nat \<Rightarrow> bytes \<Rightarrow> bytes res" and i w
  proof -
    have lw: "length w = n * eb" using P by blast
    have lc: "length (crf E c (chunk eb w i)) = eb" using lcrf [of "chunk eb w i"] length_chunk [OF lw i] eb by simp
    have "?P (Suc i) (blit w (i * eb) (crf E c (chunk eb w i)))"
    proof (intro conjI allI impI)
      show "length (blit w (i * eb) (crf E c (chunk eb w i))) = n * eb" using chunk_fits [OF lw i] lc lw by simp
      show "chunk eb (blit w (i * eb) (crf E c (chunk eb w i))) j = (if j < Suc i then crf E c (chunk eb v j) else chunk eb v j)" if "j < n" for j
        using chunk_blit [OF lw i that lc] P i that by (auto simp: less_Suc_eq)
    qed
    then show ?thesis using f by blast
  qed
  have read: "rd_blk w (i * eb) eb = Ok (chunk eb w i)" if "i < n" "length w = n * eb" for i w
    using chunk_fits [OF that(2,1)] by (simp add: rd_blk_def chunk_def)
  show ?thesis
  proof (cases "eb \<le> AES_BYTES")
    case True
    then have small: "eb \<le> 16" by (simp add: AES_BYTES_def)
    have "\<exists>v'. rfold (\<lambda>i masks. rbind (rd_blk masks (i * eb) eb) (\<lambda>m. fixed_key_aes_hash (E const_seed) masks (i * eb) eb m eb)) [0..<n] v = Ok v' \<and> ?P n v'"
    proof (rule rfold_upt_inv [where P = ?P], goal_cases)
      case (3 i w)
      have lw: "length w = n * eb" using 3 by blast
      have lc: "length (chunk eb w i) = eb" by (rule length_chunk [OF lw]) (use 3 in simp)
      have "fixed_key_aes_hash (E const_seed) w (i * eb) eb (chunk eb w i) eb = Ok (blit w (i * eb) (crf E c (chunk eb w i)))"
        using lc small E chunk_fits [OF lw, of i] 3
        by (simp add: fixed_key_aes_hash_def AES_BYTES_def rd_blk_def wr_blk_def blit_def crf_def Let_def aes_ok_def)
      then show ?case using next_entry [of i w "\<lambda>i masks. rbind (rd_blk masks (i * eb) eb) (\<lambda>m. fixed_key_aes_hash (E const_seed) masks (i * eb) eb m eb)"]
          read [of i w] 3 by simp
    qed (use v in simp_all)
    then show ?thesis using True by (auto simp: evaluate_crf_def)
  next
    case False
    then have small: "\<not> eb \<le> 16" by (simp add: AES_BYTES_def)
    have "\<exists>v'. rfold (\<lambda>i masks. rbind (rd_blk masks (i * eb) eb) (\<lambda>m. crypto_hash c masks (i * eb) eb m eb)) [0..<n] v = Ok v' \<and> ?P n v'"
    proof (rule rfold_upt_inv [where P = ?P], goal_cases)
      case (3 i w)
      have lw: "length w = n * eb" using 3 by blast
      have lc: "length (chunk eb w i) = eb" by (rule length_chunk [OF lw]) (use 3 in simp)
      have "crypto_hash c w (i * eb) eb (chunk eb w i) eb = Ok (blit w (i * eb) (crf E c (chunk eb w i)))"
        using crypto_hash_ok [OF c eb, of eb "chunk eb w i" "i * eb" w] lc small chunk_fits [OF lw, of i] 3 by (simp add: crf_def)
      then show ?case using next_entry [of i w "\<lambda>i masks. rbind (rd_blk masks (i * eb) eb) (\<lambda>m. crypto_hash c masks (i * eb) eb m eb)"]
          read [of i w] 3 by simp
    qed (use v in simp_all)
    then show ?thesis using False by (auto simp: evaluate_crf_def)
  qed
qed

section \<open>The masks before the function\<close>

lemma fold_concat_updates: "fold (\<lambda>i. fold f (g i)) is s = fold f (concat (map g is)) s"
  by (induction "is" arbitrary: s) simp_all

lemma upt_split_at: "a \<le> b \<Longrightarrow> b \<le> c \<Longrightarrow> [a..<c] = [a..<b] @ [b..<c]"
  using upt_add_eq_append [of a b "c - b"] by simp

lemma concat_block:
  assumes "0 < k" and "b < n"
  shows "concat (map (\<lambda>i. if i div k = b then [F i] else []) [0..<n * k]) = map F [b * k..<b * k + k]"
proof -
  have le: "b * k + k \<le> n * k" using assms(2) mult_le_mono1 [of "Suc b" n k] by simp
  have split: "[0..<n * k] = [0..<b * k] @ [b * k..<b * k + k] @ [b * k + k..<n * k]"
  proof -
    have "b * k \<le> n * k" using le by linarith
    then have "[0..<n * k] = [0..<b * k] @ [b * k..<n * k]" by (intro upt_split_at) simp_all
    also have "[b * k..<n * k] = [b * k..<b * k + k] @ [b * k + k..<n * k]" using le by (intro upt_split_at) simp_all
    finally show ?thesis .
  qed
  have none: "concat (map (\<lambda>i. if i div k = b then [F i] else []) is) = []" if "\<And>i. i \<in> set is \<Longrightarrow> i div k \<noteq> b" for "is"
    using that by (induction "is") auto
  have all: "concat (map (\<lambda>i. if i div k = b then [F i] else []) is) = map F is" if "\<And>i. i \<in> set is \<Longrightarrow> i div k = b" for "is"
    using that by (induction "is") auto
  have lo: "i div k \<noteq> b" if "i < b * k" for i using less_mult_imp_div_less [OF that] by simp
  have mid: "i div k = b" if "b * k \<le> i" "i < b * k + k" for i using that by (intro div_nat_eqI) (simp_all add: mult.commute)
  have hi: "i div k \<noteq> b" if "b * k + k \<le> i" for i
  proof -
    have "Suc b * k div k \<le> i div k" using that by (intro div_le_mono) simp
    then show ?thesis using assms(1) by simp
  qed
  let ?g = "\<lambda>i. if i div k = b then [F i] else []"
  have "concat (map ?g [0..<b * k]) = []" by (rule none) (use lo in simp)
  moreover have "concat (map ?g [b * k..<b * k + k]) = map F [b * k..<b * k + k]" by (rule all) (use mid in simp)
  moreover have "concat (map ?g [b * k + k..<n * k]) = []" by (rule none) (use hi in simp)
  ultimately show ?thesis unfolding split map_append concat_append by (simp only: append_Nil append_Nil2)
qed

lemma filter_run:
  "filter (\<lambda>(q, x). q = p) (map (\<lambda>u. (s + u, F u)) [0..<n]) = (if s \<le> p \<and> p < s + n then [(p, F (p - s))] else [])"
  by (induction n) auto

lemma owners_lt:
  assumes "b < b'" and "0 < nele ! b"
  shows "length (owners nele b) < length (owners nele b')"
  using owners_at [OF assms] by simp

text \<open>An entry \<open>p\<close> of bin \<open>b\<close> lies between the first entry of the bin and that of the next one.\<close>

lemma entry_of_bin:
  assumes "p < length (owners nele n)"
  shows "owners nele n ! p < n \<and> length (owners nele (owners nele n ! p)) \<le> p \<and>
    p < length (owners nele (owners nele n ! p)) + nele ! (owners nele n ! p)"
  using assms
proof (induction n)
  case (Suc n)
  show ?case
  proof (cases "p < length (owners nele n)")
    case True
    then show ?thesis using Suc.IH by (simp add: owners_Suc nth_append)
  next
    case False
    then have "owners nele (Suc n) ! p = n" using Suc.prems by (simp add: owners_Suc nth_append)
    then show ?thesis using False Suc.prems by (simp add: length_owners_Suc)
  qed
qed (simp add: owners_def)

lemma other_bin:
  assumes "length (owners nele b) \<le> p" "p < length (owners nele b) + nele ! b" and "b' \<noteq> b"
  shows "\<not> (length (owners nele b') \<le> p \<and> p < length (owners nele b') + nele ! b')"
proof (cases "b' < b")
  case True
  then show ?thesis using owners_mono [of "Suc b'" b nele] assms by (simp add: length_owners_Suc)
next
  case False
  then show ?thesis using owners_mono [of "Suc b" b' nele] assms by (simp add: length_owners_Suc)
qed

text \<open>The XOR of the hashes of the OTs of a bin.\<close>

definition bin_mask :: "OPEMasking \<Rightarrow> nat \<Rightarrow> (nat \<Rightarrow> bytes) \<Rightarrow> bytes" where
  "bin_mask ope b R = (let k = m_nOTsPerElement ope in
     bxors (replicate (mask_bytes ope) 0) (map (\<lambda>i. ope_mask ope i (R i)) [b * k..<b * k + k]))"

lemma client_masks_are:
  assumes c: "client_holds ope nbins n" and b: "b < nbins" "0 < m_vNumEleInBin ope ! b"
  shows "chunk (mask_bytes ope) (fold (\<lambda>i. client_row ope i (R i)) [0..<nbins * m_nOTsPerElement ope] (replicate (n * mask_bytes ope) 0))
      (length (owners (m_vNumEleInBin ope) b)) = bin_mask ope b R"
proof -
  let ?m = "mask_bytes ope" and ?k = "m_nOTsPerElement ope" and ?nele = "m_vNumEleInBin ope"
  let ?p = "length (owners ?nele b)" and ?N = "nbins * m_nOTsPerElement ope"
  have k: "0 < ?k" using c by (simp add: client_holds_def ope_sizes_def)
  have p: "?p < n" using owners_at [OF b] c by (simp add: client_holds_def)
  let ?ups = "concat (map (\<lambda>i. client_updates ope i (R i)) [0..<?N])"
  have fit: "updates_fit ?m n ?ups" using client_updates_fit [OF c] by (fastforce simp: updates_fit_def)
  have one: "filter (\<lambda>(q, x). q = ?p) (client_updates ope i (R i)) = (if i div ?k = b then [(?p, ope_mask ope i (R i))] else [])"
    if "i \<in> set [0..<?N]" for i
  proof -
    let ?b = "i div ?k"
    have lt: "?b < nbins" by (rule less_mult_imp_div_less) (use that in simp)
    then have r: "m_vBinToResult ope ! ?b = length (owners ?nele ?b)" using c by (simp add: client_holds_def)
    have "length (owners ?nele ?b) \<noteq> ?p" if "?b \<noteq> b" "0 < ?nele ! ?b"
      using that owners_lt [of ?b b ?nele] owners_lt [of b ?b ?nele] b(2) by (metis less_irrefl linorder_neqE_nat)
    then show ?thesis using r b(2) by (auto simp: client_updates_def Let_def)
  qed
  have "filter (\<lambda>(q, x). q = ?p) ?ups = concat (map (\<lambda>i. filter (\<lambda>(q, x). q = ?p) (client_updates ope i (R i))) [0..<?N])"
    by (simp add: filter_concat comp_def)
  also have "\<dots> = concat (map (\<lambda>i. if i div ?k = b then [(?p, ope_mask ope i (R i))] else []) [0..<?N])"
    by (rule arg_cong [of _ _ concat], rule map_cong [OF refl one])
  also have "\<dots> = map (\<lambda>i. (?p, ope_mask ope i (R i))) [b * ?k..<b * ?k + ?k]" by (rule concat_block [OF k b(1)])
  finally have f: "map snd (filter (\<lambda>(q, x). q = ?p) ?ups) = map (\<lambda>i. ope_mask ope i (R i)) [b * ?k..<b * ?k + ?k]" by (simp add: comp_def)
  have z: "chunk ?m (replicate (n * ?m) 0) ?p = replicate ?m 0"
  proof -
    have "?p * ?m + ?m \<le> n * ?m" using chunk_fits [of "replicate (n * ?m) 0" n ?m ?p] p by simp
    then show ?thesis by (simp add: chunk_def min.absorb1 le_diff_conv2)
  qed
  have "chunk ?m (fold (xor_at ?m) ?ups (replicate (n * ?m) 0)) ?p = bin_mask ope b R"
    using chunk_updates [OF _ fit p, of "replicate (n * ?m) 0"] f z by (simp add: bin_mask_def Let_def)
  then show ?thesis unfolding client_row_def fold_concat_updates .
qed

lemma server_masks_are:
  assumes s: "server_holds ope nbins" and p: "p < length (owners (m_vNumEleInBin ope) nbins)"
  shows "chunk (mask_bytes ope) (fold (\<lambda>i. server_row ope U i (R i)) [0..<nbins * m_nOTsPerElement ope]
        (replicate (length (owners (m_vNumEleInBin ope) nbins) * mask_bytes ope) 0)) p =
      bin_mask ope (owners (m_vNumEleInBin ope) nbins ! p) (\<lambda>i. with_code U (entry_byte ope p i) (R i))"
proof -
  let ?m = "mask_bytes ope" and ?k = "m_nOTsPerElement ope" and ?nele = "m_vNumEleInBin ope"
  let ?b = "owners ?nele nbins ! p" and ?N = "nbins * m_nOTsPerElement ope" and ?n = "length (owners ?nele nbins)"
  have k: "0 < ?k" using s by (simp add: server_holds_def ope_sizes_def)
  have b: "?b < nbins" "length (owners ?nele ?b) \<le> p" "p < length (owners ?nele ?b) + ?nele ! ?b" using entry_of_bin [OF p] by blast+
  let ?ups = "concat (map (\<lambda>i. server_updates ope U i (R i)) [0..<?N])" and ?x = "\<lambda>i. ope_mask ope i (with_code U (entry_byte ope p i) (R i))"
  have fit: "updates_fit ?m ?n ?ups" using server_updates_fit [OF s] by (fastforce simp: updates_fit_def)
  have one: "filter (\<lambda>(q, x). q = p) (server_updates ope U i (R i)) = (if i div ?k = ?b then [(p, ?x i)] else [])" if "i \<in> set [0..<?N]" for i
  proof -
    let ?c = "i div ?k"
    have lt: "?c < nbins" by (rule less_mult_imp_div_less) (use that in simp)
    then have st: "m_vStartingPosForBin ope ! ?c = length (owners ?nele ?c)" using s by (simp add: server_holds_def)
    have "?c = ?b \<longleftrightarrow> length (owners ?nele ?c) \<le> p \<and> p < length (owners ?nele ?c) + ?nele ! ?c"
    proof (cases "?c = ?b")
      case True
      then show ?thesis using b(2,3) by (simp only: simp_thms)
    next
      case False
      then show ?thesis using other_bin [OF b(2,3) False] by (simp only: simp_thms)
    qed
    then show ?thesis unfolding server_updates_def Let_def st filter_run by simp
  qed
  have "filter (\<lambda>(q, x). q = p) ?ups = concat (map (\<lambda>i. filter (\<lambda>(q, x). q = p) (server_updates ope U i (R i))) [0..<?N])"
    by (simp add: filter_concat comp_def)
  also have "\<dots> = concat (map (\<lambda>i. if i div ?k = ?b then [(p, ?x i)] else []) [0..<?N])"
    by (rule arg_cong [of _ _ concat], rule map_cong [OF refl one])
  also have "\<dots> = map (\<lambda>i. (p, ?x i)) [?b * ?k..<?b * ?k + ?k]" by (rule concat_block [OF k b(1)])
  finally have f: "map snd (filter (\<lambda>(q, x). q = p) ?ups) = map ?x [?b * ?k..<?b * ?k + ?k]" by (simp add: comp_def)
  have z: "chunk ?m (replicate (?n * ?m) 0) p = replicate ?m 0"
  proof -
    have "p * ?m + ?m \<le> ?n * ?m" using chunk_fits [of "replicate (?n * ?m) 0" ?n ?m p] p by simp
    then show ?thesis by (simp add: chunk_def min.absorb1 le_diff_conv2)
  qed
  have "chunk ?m (fold (xor_at ?m) ?ups (replicate (?n * ?m) 0)) p = bin_mask ope ?b (\<lambda>i. with_code U (entry_byte ope p i) (R i))"
    using chunk_updates [OF _ fit p, of "replicate (?n * ?m) 0"] f z by (simp add: bin_mask_def Let_def)
  then show ?thesis unfolding server_row_def fold_concat_updates .
qed

section \<open>The two sides\<close>

text \<open>The mask of an entry of bin \<open>b\<close>, from the rows \<open>R\<close> of its OTs.\<close>

definition oprg_mask :: "(bytes \<Rightarrow> bytes \<Rightarrow> bytes) \<Rightarrow> crypto \<Rightarrow> nat \<Rightarrow> nat \<Rightarrow> nat \<Rightarrow> (nat \<Rightarrow> bytes) \<Rightarrow> bytes" where
  "oprg_mask E c m k b R = crf E c (bxors (replicate m 0)
     (map (\<lambda>i. take m (SHA c (routine_for c m) (le_bytes 8 (of_nat i :: u64) @ R i))) [b * k..<b * k + k]))"

text \<open>The sizes of an evaluation.\<close>

definition oprg_sizes :: "(bytes \<Rightarrow> bytes \<Rightarrow> bytes) \<Rightarrow> crypto \<Rightarrow> nat \<Rightarrow> nat \<Rightarrow> nat \<Rightarrow> nat \<Rightarrow> bool" where
  "oprg_sizes E c nthreads nbins elebits mask_bits \<longleftrightarrow> aes_ok E \<and> digest_lengths c \<and> 0 < nthreads \<and> 0 < nbins \<and> 0 < elebits \<and>
     mask_bits mod 8 = 0 \<and> 0 < mask_bits \<and> mask_bits \<le> 512"

lemma oprg_sizes_bytes:
  assumes "oprg_sizes E c nthreads nbins elebits mask_bits"
  shows "mask_bits = 8 * ceil_divide mask_bits 8" "0 < ceil_divide mask_bits 8" "ceil_divide mask_bits 8 \<le> 64"
    "mask_bits div 8 = ceil_divide mask_bits 8" "0 < nbins * ceil_divide elebits 8"
proof -
  obtain m where m: "mask_bits = 8 * m" using assms by (auto simp: oprg_sizes_def mod_eq_0_iff_dvd)
  have "ceil_divide (8 * m) 8 = m" by (cases m) (simp_all add: ceil_divide_def)
  then show "mask_bits = 8 * ceil_divide mask_bits 8" "0 < ceil_divide mask_bits 8" "ceil_divide mask_bits 8 \<le> 64"
    "mask_bits div 8 = ceil_divide mask_bits 8" using assms by (simp_all add: m oprg_sizes_def)
  show "0 < nbins * ceil_divide elebits 8" using assms by (simp add: oprg_sizes_def ceil_divide_def)
qed

lemma oprg_client_ok:
  assumes sizes: "oprg_sizes E c nthreads nbins elebits mask_bits" and keys: "InitAESKey keyMtx 512 = Ok keys" "length keys = 512"
    and table: "length table = nbins * ceil_divide elebits 8" and nele: "nbins \<le> length nele" "length (owners nele nbins) \<le> n"
  defines "k \<equiv> ceil_divide elebits 8" and "m \<equiv> ceil_divide mask_bits 8"
  defines "my \<equiv> internal_numOTs (nbins * k) nthreads"
  shows "\<exists>res. oprg_client E c keyMtx nthreads table nbins n nele elebits mask_bits =
      Ok (map (thread_msgs E keys table 0 (nbins * k) my) [0..<nthreads], res) \<and> length res = n * m \<and>
    (\<forall>b<nbins. 0 < nele ! b \<longrightarrow> chunk m res (length (owners nele b)) = oprg_mask E c m k b (ot_row E keys 0 my))"
proof -
  have E: "aes_ok E" "digest_lengths c" "0 < nthreads" "0 < nbins" "0 < elebits" using sizes by (simp_all add: oprg_sizes_def)
  note bytes = oprg_sizes_bytes [OF sizes, folded k_def m_def]
  obtain ope where ope: "OPEMasking_client elebits mask_bits nbins nele c = Ok ope" "client_holds ope nbins n"
    "m_nMaskBitLen ope = mask_bits" "m_nOTsPerElement ope = k" "m_vNumEleInBin ope = nele" "m_cCrypto ope = c"
    using OPEMasking_client_ok [OF nele(1) bytes(1-3) E(5,2) nele(2) E(4)] unfolding k_def by blast
  have mb: "mask_bytes ope = m" unfolding ope(3) m_def ..
  let ?N = "nbins * k" and ?z = "replicate (n * m) (0 :: u8)"
  have ch: "rd_blk table 0 (ceil_divide (?N * 8) 8) = Ok table"
  proof -
    have "ceil_divide (x * 8) 8 = x" for x by (cases x) (simp_all add: ceil_divide_def)
    then show ?thesis using table by (simp add: rd_blk_def k_def)
  qed
  let ?masks = "fold (\<lambda>i. client_row ope i (ot_row E keys 0 my i)) [0..<?N] ?z"
  have good: "client_good ope nbins n ?z" using ope(2) mb by (simp add: client_good_def)
  have fits: "?N \<le> length table" "?N \<le> nbins * m_nOTsPerElement ope" using table ope(4) by (simp_all add: k_def)
  have rcv: "ot_receive (expandMask ope []) E keys table 0 ?N nthreads ?z =
      Ok (map (thread_msgs E keys table 0 ?N my) [0..<nthreads], 0 + ?N, ?masks)"
    unfolding my_def by (rule client_masks.ot_receive_rows [OF E(1) keys(2) fits good bytes(5) E(3)])
  have lm: "length ?masks = n * m"
  proof -
    have "client_good ope nbins n ?masks" by (rule client_masks.good_rows [OF good]) (use ope(4) in auto)
    then show ?thesis using mb by (simp add: client_good_def)
  qed
  obtain res where res: "evaluate_crf E c ?masks n m = Ok res" "length res = n * m" "\<forall>i<n. chunk m res i = crf E c (chunk m ?masks i)"
    using evaluate_crf_ok [OF E(1,2) bytes(3) lm] by blast
  have e: "256 * 2 = (512 :: nat)" by simp
  have run: "oprg_client E c keyMtx nthreads table nbins n nele elebits mask_bits = Ok (map (thread_msgs E keys table 0 ?N my) [0..<nthreads], res)"
    unfolding oprg_client_def Let_def code_sizes e keys(1) rbind.simps k_def [symmetric] m_def [symmetric] ch ope(1) rcv prod.case res(1) ..
  have "chunk m res (length (owners nele b)) = oprg_mask E c m k b (ot_row E keys 0 my)" if b: "b < nbins" "0 < nele ! b" for b
  proof -
    have "length (owners nele b) < n" using owners_at [OF b] nele(2) by simp
    moreover have "chunk m ?masks (length (owners nele b)) = bin_mask ope b (ot_row E keys 0 my)"
      using client_masks_are [OF ope(2), of b "ot_row E keys 0 my"] b mb ope(4,5) by simp
    ultimately show ?thesis using res(3) by (simp add: oprg_mask_def bin_mask_def ope_mask_def Let_def ope(3,4,6) m_def)
  qed
  then show ?thesis using run res(2) by blast
qed

lemma oprg_server_ok:
  assumes sizes: "oprg_sizes E c nthreads nbins elebits mask_bits" and keys: "InitAESKey seeds 256 = Ok keySeeds" "keys_match keySeeds keys U"
    and nele: "nbins \<le> length nele" "(\<exists>b<nbins. nele ! b = 256) \<longrightarrow> (\<exists>b<nbins. 256 < nele ! b)"
    and table: "length table = length (owners nele nbins) * ceil_divide elebits 8"
  defines "k \<equiv> ceil_divide elebits 8" and "m \<equiv> ceil_divide mask_bits 8" and "tot \<equiv> length (owners nele nbins)"
  defines "my \<equiv> internal_numOTs (nbins * k) nthreads"
  assumes sockets: "sockets = map (thread_msgs E keys choices 0 (nbins * k) my) [0..<nthreads]"
  shows "\<exists>res. oprg_server E c U seeds nthreads sockets table nbins tot nele elebits mask_bits = Ok res \<and> length res = tot * m \<and>
    (\<forall>p<tot. chunk m res p = oprg_mask E c m k (owners nele nbins ! p)
       (\<lambda>i. with_code U (chunk k table p ! (i mod k)) (bxor (ot_row E keys 0 my i) (band U (m_vCodeWords ! unat (choices ! i))))))"
proof -
  have E: "aes_ok E" "digest_lengths c" "0 < nthreads" "0 < nbins" "0 < elebits" using sizes by (simp_all add: oprg_sizes_def)
  note bytes = oprg_sizes_bytes [OF sizes, folded k_def m_def]
  obtain ope where ope: "OPEMasking_server elebits mask_bits nbins nele table c = Ok ope" "server_holds ope nbins"
    "m_nMaskBitLen ope = mask_bits" "m_nOTsPerElement ope = k" "m_vNumEleInBin ope = nele" "m_cCrypto ope = c" "m_vServerChoices ope = table"
    using OPEMasking_server_ok [OF nele(1) bytes(1-3) E(5,2) table E(4) nele(2)] unfolding k_def by blast
  have mb: "mask_bytes ope = m" unfolding ope(3) m_def ..
  let ?N = "nbins * k" and ?z = "replicate (tot * m) (0 :: u8)"
  have inp: "rd_blk table 0 (tot * k) = Ok table" using table by (simp add: rd_blk_def tot_def k_def)
  let ?R = "\<lambda>i. bxor (ot_row E keys 0 my i) (band U (m_vCodeWords ! unat (choices ! i)))"
  let ?masks = "fold (\<lambda>i. server_row ope U i (?R i)) [0..<?N] ?z"
  have U: "length U = 32" using keys(2) by (simp add: keys_match_def)
  have good: "server_good ope U nbins ?z" using ope(2,5) U mb by (simp add: server_good_def tot_def)
  have fits: "?N \<le> nbins * m_nOTsPerElement ope" using ope(4) by simp
  have snd: "ot_send (expandMask ope U) E keySeeds U 0 ?N nthreads sockets ?z = Ok (0 + ?N, ?masks)"
    by (rule server_masks.ot_send_rows [OF E(1) keys(2) fits good bytes(5) E(3) sockets [unfolded my_def], folded my_def])
  have lR: "length (?R i) = 32" for i using U length_code by simp
  have lm: "length ?masks = tot * m"
  proof -
    have "server_good ope U nbins ?masks" by (rule server_masks.good_rows [OF good _ lR]) (use ope(4) in auto)
    then show ?thesis using ope(5) mb by (simp add: server_good_def tot_def)
  qed
  obtain res where res: "evaluate_crf E c ?masks tot m = Ok res" "length res = tot * m" "\<forall>i<tot. chunk m res i = crf E c (chunk m ?masks i)"
    using evaluate_crf_ok [OF E(1,2) bytes(3) lm] by blast
  have run: "oprg_server E c U seeds nthreads sockets table nbins tot nele elebits mask_bits = Ok res"
    unfolding oprg_server_def Let_def code_sizes keys(1) rbind.simps bytes(4) k_def [symmetric] inp ope(1) snd prod.case res(1) ..
  have "chunk m res p = oprg_mask E c m k (owners nele nbins ! p) (\<lambda>i. with_code U (chunk k table p ! (i mod k)) (?R i))" if p: "p < tot" for p
  proof -
    have "p < length (owners (m_vNumEleInBin ope) nbins)" using p ope(5) by (simp add: tot_def)
    then have "chunk m ?masks p = bin_mask ope (owners nele nbins ! p) (\<lambda>i. with_code U (entry_byte ope p i) (?R i))"
      using server_masks_are [OF ope(2), of p U ?R] mb ope(4,5) by (simp add: tot_def)
    moreover have "entry_byte ope p i = chunk k table p ! (i mod k)" for i
    proof -
      have k: "0 < k" using bytes(5) by simp
      have "p * k + k \<le> length table" using chunk_fits [of table tot k p] table p by (simp add: tot_def k_def)
      then show ?thesis using k by (simp add: entry_byte_def ope(4,7) chunk_def)
    qed
    ultimately show ?thesis using res(3) p by (simp add: oprg_mask_def bin_mask_def ope_mask_def Let_def ope(3,4,6) m_def)
  qed
  then show ?thesis using run res(2) by blast
qed

section \<open>Equal entries\<close>

lemma oprg_mask_cong:
  "(\<And>i. b * k \<le> i \<Longrightarrow> i < b * k + k \<Longrightarrow> R i = R' i) \<Longrightarrow> oprg_mask E c m k b R = oprg_mask E c m k b R'"
  unfolding oprg_mask_def by (intro arg_cong [of _ _ "crf E c"] arg_cong [of _ _ "bxors (replicate m 0)"] map_cong refl) simp

text \<open>With the byte the client chose, the server's row is the client's.\<close>

lemma with_code_same:
  assumes "length U = 32" and "length t = 32"
  shows "with_code U x (bxor t (band U (m_vCodeWords ! unat x))) = t"
proof -
  have "length (band U (m_vCodeWords ! unat x)) = 32" using assms(1) length_code by simp
  then show ?thesis unfolding with_code_def bxor_commute [of t] using assms(2) by (intro bxor_cancel_left) simp
qed

text \<open>The server's value for bin \<open>b\<close>, once the client has chosen.\<close>

definition oprg_ev where
  "oprg_ev E c U keys my choices m k b v = oprg_mask E c m k b
     (\<lambda>i. with_code U (v ! (i mod k)) (bxor (ot_row E keys 0 my i) (band U (m_vCodeWords ! unat (choices ! i)))))"

lemma oprg_ev_own:
  assumes U: "length U = 32" and table: "length table = nbins * k" "b < nbins"
  shows "oprg_ev E c U keys my table m k b (chunk k table b) = oprg_mask E c m k b (ot_row E keys 0 my)"
  unfolding oprg_ev_def
proof (rule oprg_mask_cong)
  fix i assume i: "b * k \<le> i" "i < b * k + k"
  have k: "0 < k" using i by simp
  obtain l where l: "i = b * k + l" "l < k" using i by (metis add_less_cancel_left le_Suc_ex)
  then have "chunk k table b ! (i mod k) = table ! i" using chunk_fits [OF table] by (simp add: chunk_def)
  then show "with_code U (chunk k table b ! (i mod k)) (bxor (ot_row E keys 0 my i) (band U (m_vCodeWords ! unat (table ! i)))) = ot_row E keys 0 my i"
    using with_code_same [OF U length_ot_row] by simp
qed

text \<open>A run evaluates one function on both sides.\<close>

lemma oprg_run_evaluates:
  assumes G: "pk_ok G" "crypto_level symbits c" and U: "length U = 32" and pK: "256 \<le> length pK" and rs: "rs \<noteq> []"
    and sizes: "oprg_sizes E c nthreads nbins elebits mask_bits"
    and client: "length ctab = nbins * ceil_divide elebits 8" "nbins \<le> length cnele" "length (owners cnele nbins) \<le> n"
    and server: "nbins \<le> length snele" "(\<exists>b<nbins. snele ! b = 256) \<longrightarrow> (\<exists>b<nbins. 256 < snele ! b)"
      "length stab = length (owners snele nbins) * ceil_divide elebits 8"
  defines "k \<equiv> ceil_divide elebits 8" and "m \<equiv> ceil_divide mask_bits 8" and "tot \<equiv> length (owners snele nbins)"
  shows "\<exists>ev cmasks smasks. oprg_run G E c symbits alpha rs U pK nthreads nbins elebits mask_bits (ctab, n, cnele) (stab, tot, snele) =
      Ok (cmasks, smasks) \<and> length cmasks = n * m \<and> length smasks = tot * m \<and>
    (\<forall>b<nbins. 0 < cnele ! b \<longrightarrow> chunk m cmasks (length (owners cnele b)) = ev b (chunk k ctab b)) \<and>
    (\<forall>p<tot. chunk m smasks p = ev (owners snele nbins ! p) (chunk k stab p))"
proof -
  obtain msg1 pC msg2 seeds mtx keySeeds keys where base: "np_Sender_first G 2 alpha rs = Ok (msg1, pC)"
    "InitOTSender G c symbits U pK msg1 = Ok (msg2, seeds)" "InitOTReceiver G c symbits alpha pC msg2 = Ok mtx"
    and ks: "InitAESKey seeds 256 = Ok keySeeds" "InitAESKey mtx 512 = Ok keys" "keys_match keySeeds keys U"
    using base_OT [where alpha = alpha, OF G U pK rs] by (elim exE conjE) (rule that)
  let ?my = "internal_numOTs (nbins * k) nthreads"
  have lk: "length keys = 512" using ks(3) by (simp add: keys_match_def)
  obtain cmasks where c: "oprg_client E c mtx nthreads ctab nbins n cnele elebits mask_bits =
      Ok (map (thread_msgs E keys ctab 0 (nbins * k) ?my) [0..<nthreads], cmasks)" "length cmasks = n * m"
    "\<forall>b<nbins. 0 < cnele ! b \<longrightarrow> chunk m cmasks (length (owners cnele b)) = oprg_mask E c m k b (ot_row E keys 0 ?my)"
    using oprg_client_ok [OF sizes ks(2) lk client, folded k_def m_def] by (elim exE conjE) (rule that)
  obtain smasks where s: "oprg_server E c U seeds nthreads (map (thread_msgs E keys ctab 0 (nbins * k) ?my) [0..<nthreads])
      stab nbins tot snele elebits mask_bits = Ok smasks" "length smasks = tot * m"
    "\<forall>p<tot. chunk m smasks p = oprg_mask E c m k (owners snele nbins ! p)
       (\<lambda>i. with_code U (chunk k stab p ! (i mod k)) (bxor (ot_row E keys 0 ?my i) (band U (m_vCodeWords ! unat (ctab ! i)))))"
    using oprg_server_ok [where choices = ctab, OF sizes ks(1,3) server, folded k_def m_def tot_def, OF refl] by (elim exE conjE) (rule that)
  have run: "oprg_run G E c symbits alpha rs U pK nthreads nbins elebits mask_bits (ctab, n, cnele) (stab, tot, snele) = Ok (cmasks, smasks)"
    unfolding oprg_run_def prod.case base rbind.simps c(1) s(1) ..
  let ?ev = "oprg_ev E c U keys ?my ctab m k"
  have "\<forall>b<nbins. 0 < cnele ! b \<longrightarrow> chunk m cmasks (length (owners cnele b)) = ?ev b (chunk k ctab b)"
    using c(3) oprg_ev_own [OF U client(1) [folded k_def]] by simp
  moreover have "\<forall>p<tot. chunk m smasks p = ?ev (owners snele nbins ! p) (chunk k stab p)" using s(3) unfolding oprg_ev_def .
  ultimately show ?thesis using run c(2) s(2) by blast
qed


text \<open>The group of bytes under addition, and a cipher and digests that repeat a byte.\<close>

definition byte_group :: "u8 pk_crypto" where
  "byte_group = \<lparr>fe_generator = 1, fe_pow = (\<lambda>x n. x * of_nat n), fe_div = (-), fe_export = (\<lambda>x. [x]), fe_import = hd, fe_byte_size = 1\<rparr>"

lemma byte_group_ok: "pk_ok byte_group"
  by (simp add: pk_ok_def byte_group_def algebra_simps)

lemma flat_level: "crypto_level 80 flat_crypto"
  by (simp add: crypto_level_def flat_crypto_def crypto_init_def digest_lengths_def SHA_OUT_BYTES_def get_hash_bytes_def)


end
