(* ===== verification/PsiProtocol.thy ===== *)
theory PsiProtocol
  imports Session Oprg
begin

text \<open>
  The multiparty protocol with its OPRG: the leader runs \<open>oprg_client\<close> with every follower on its cuckoo table, every
  follower \<open>oprg_server\<close> on its simple hash table with what it received from the leader. The contract \<open>oprg_ok\<close> of a
  session follows from the lemmas of \<open>Oprg\<close>, so that the session counts the common elements with no hypothesis on the
  results of the OPRG.
\<close>

section \<open>The evaluations of a session\<close>

text \<open>The random values of the evaluation with one follower: the exponents of both sides of the base transfers and the
  follower's choice bits.\<close>

record ot_random =
  r_alpha :: nat
  r_rs :: "nat list"
  r_U :: bytes
  r_pK :: "nat list"

text \<open>The base transfers between the leader and a follower: the keys both sides are left with.\<close>

definition base_keys :: "'e pk_crypto \<Rightarrow> crypto \<Rightarrow> nat \<Rightarrow> ot_random \<Rightarrow> (bytes \<times> bytes) res" where
  "base_keys G c symbits R =
     rbind (np_Sender_first G 2 (r_alpha R) (r_rs R)) (\<lambda>(msg1, pC).
     rbind (InitOTSender G c symbits (r_U R) (r_pK R) msg1) (\<lambda>(msg2, keySeeds).
     rbind (InitOTReceiver G c symbits (r_alpha R) pC msg2) (\<lambda>keyMtx. Ok (keyMtx, keySeeds))))"

text \<open>\<open>runLeaderAgainstFollower\<close>: what the leader sends after the base transfers, and its masks.\<close>

definition runLeaderAgainstFollower ::
    "'e pk_crypto \<Rightarrow> (bytes \<Rightarrow> bytes \<Rightarrow> bytes) \<Rightarrow> crypto \<Rightarrow> nat \<Rightarrow> nat \<Rightarrow> ot_random \<Rightarrow> bytes \<Rightarrow> nat \<Rightarrow> nat \<Rightarrow> nat list \<Rightarrow> nat \<Rightarrow> nat \<Rightarrow>
     (bytes list \<times> bytes) res" where
  "runLeaderAgainstFollower G E c symbits nthreads R table nbins n nelesinbin outbits mask_bits =
     rbind (base_keys G c symbits R) (\<lambda>(keyMtx, _).
     oprg_client E c keyMtx nthreads table nbins n nelesinbin outbits mask_bits)"

text \<open>What the leader sends to a follower, from its own table.\<close>

definition leader_messages ::
    "'e pk_crypto \<Rightarrow> (bytes \<Rightarrow> bytes \<Rightarrow> bytes) \<Rightarrow> nat \<Rightarrow> nat \<Rightarrow> ot_random \<Rightarrow> PsiParty \<Rightarrow> nat list \<Rightarrow> bytes list res" where
  "leader_messages G E symbits nthreads R P heap =
     rbind (init_hashing_state (pp_setSize P) (internal_bitlen P) (pp_numOfBins P) (prfState P)) (\<lambda>(hs, prf).
     rbind (leader_table P hs heap) (\<lambda>out.
     rbind (runLeaderAgainstFollower G E (crypt P) symbits nthreads R (co_hash_table out) (pp_numOfBins P) (pp_setSize P)
       (co_nelesinbin out) (outbitlen hs) (maskbitlen P)) (\<lambda>(sockets, masks). Ok sockets)))"

definition leader_evaluation where
  "leader_evaluation G E c symbits nthreads R table nbins n nelesinbin outbits mask_bits =
     rbind (runLeaderAgainstFollower G E c symbits nthreads R table nbins n nelesinbin outbits mask_bits) (\<lambda>(sockets, masks). Ok masks)"

definition follower_evaluation where
  "follower_evaluation G E c symbits nthreads R P heap table nbins totaleles nelesinbin outbits mask_bits =
     rbind (base_keys G c symbits R) (\<lambda>(_, keySeeds).
     rbind (leader_messages G E symbits nthreads R P heap) (\<lambda>sockets.
     oprg_server E c (r_U R) keySeeds nthreads sockets table nbins totaleles nelesinbin outbits mask_bits))"

text \<open>A session of all parties; \<open>R q\<close> are the random values of the evaluation with party \<open>q\<close>.\<close>

definition psi_protocol where
  "psi_protocol G E symbits nthreads R other otherF prg fprg rnd heap Ps N sched =
     rbind (initPsi (Ps 1)) (\<lambda>P.
     psi_session other otherF (\<lambda>q. leader_evaluation G E (crypt P) symbits nthreads (R q))
       (\<lambda>q. follower_evaluation G E (crypt (Ps q)) symbits nthreads (R q) P heap) prg fprg rnd heap Ps N sched)"

section \<open>The contract of the evaluations\<close>

text \<open>What the set-up has to provide: a group, AES, hashes of the security level, threads, and random values in sufficient
  number.\<close>

definition oprg_setup :: "'e pk_crypto \<Rightarrow> (bytes \<Rightarrow> bytes \<Rightarrow> bytes) \<Rightarrow> nat \<Rightarrow> nat \<Rightarrow> (nat \<Rightarrow> ot_random) \<Rightarrow> (nat \<Rightarrow> PsiParty) \<Rightarrow> nat \<Rightarrow> bool" where
  "oprg_setup G E symbits nthreads R Ps N \<longleftrightarrow> pk_ok G \<and> aes_ok E \<and> crypto_level symbits (crypt (Ps 1)) \<and> 0 < nthreads \<and>
     0 < maskbitlen (prepared (Ps 1)) \<and>
     (\<forall>q\<in>{2..N}. length (r_U (R q)) = 32 \<and> 256 \<le> length (r_pK (R q)) \<and> r_rs (R q) \<noteq> [])"

lemma owners_rank: "\<forall>c<b. nele ! c \<le> 1 \<Longrightarrow> length (owners nele b) = bin_rank nele b"
proof (induction b)
  case (Suc b)
  then have "length (owners nele b) = bin_rank nele b" "nele ! b \<le> 1" by simp_all
  then show ?case by (auto simp: owners_def bin_rank_def le_Suc_eq)
qed (simp add: owners_def bin_rank_def)

text \<open>One evaluation of the leader with a follower.\<close>

lemma evaluation_ok:
  assumes G: "pk_ok G" "crypto_level symbits (crypt P)" and R: "length (r_U R) = 32" "256 \<le> length (r_pK R)" "r_rs R \<noteq> []"
    and sizes: "oprg_sizes E (crypt P) nthreads (pp_numOfBins P) (outbitlen hs) (maskbitlen P)"
    and init: "init_hashing_state (pp_setSize P) (internal_bitlen P) (pp_numOfBins P) (prfState P) = Ok (hs, prf)"
    and out: "leader_table P hs heap = Ok out"
    and table: "length (co_hash_table out) = pp_numOfBins P * ceil_divide (outbitlen hs) 8" "length (co_nelesinbin out) = pp_numOfBins P"
      "\<forall>b<pp_numOfBins P. co_nelesinbin out ! b \<le> 1" "bin_rank (co_nelesinbin out) (pp_numOfBins P) \<le> pp_setSize P"
  shows "\<exists>ev. client_ok ev (leader_evaluation G E (crypt P) symbits nthreads R) (pp_numOfBins P) (pp_setSize P) (outbitlen hs) (maskbitlen P)
      (co_hash_table out) (co_nelesinbin out) \<and>
    server_ok ev (follower_evaluation G E (crypt P) symbits nthreads R P heap) (pp_numOfBins P) (outbitlen hs) (maskbitlen P)"
proof -
  let ?nb = "pp_numOfBins P" and ?tab = "co_hash_table out" and ?c = "crypt P" and ?U = "r_U R"
  define k where "k = ceil_divide (outbitlen hs) 8"
  define m where "m = ceil_divide (maskbitlen P) 8"
  obtain msg1 pC msg2 seeds mtx keySeeds keys where base: "np_Sender_first G 2 (r_alpha R) (r_rs R) = Ok (msg1, pC)"
    "InitOTSender G ?c symbits ?U (r_pK R) msg1 = Ok (msg2, seeds)" "InitOTReceiver G ?c symbits (r_alpha R) pC msg2 = Ok mtx"
    and ks: "InitAESKey seeds 256 = Ok keySeeds" "InitAESKey mtx 512 = Ok keys" "keys_match keySeeds keys ?U"
    using base_OT [where alpha = "r_alpha R", OF G R] by (elim exE conjE) (rule that)
  let ?my = "internal_numOTs (?nb * k) nthreads"
  let ?ev = "oprg_ev E ?c ?U keys ?my ?tab m k"
  have bk: "base_keys G ?c symbits R = Ok (mtx, seeds)" by (simp add: base_keys_def base)
  have lk: "length keys = 512" using ks(3) by (simp add: keys_match_def)
  have rank: "length (owners (co_nelesinbin out) b) = bin_rank (co_nelesinbin out) b" if "b \<le> ?nb" for b
    by (rule owners_rank) (use table(3) that in simp)
  have own: "length (owners (co_nelesinbin out) ?nb) \<le> pp_setSize P" "?nb \<le> length (co_nelesinbin out)" using table(2,4) rank by simp_all
  let ?sockets = "map (thread_msgs E keys ?tab 0 (?nb * k) ?my) [0..<nthreads]"
  obtain cmasks where c: "oprg_client E ?c mtx nthreads ?tab ?nb (pp_setSize P) (co_nelesinbin out) (outbitlen hs) (maskbitlen P) =
      Ok (?sockets, cmasks)" "length cmasks = pp_setSize P * m"
    "\<forall>b<?nb. 0 < co_nelesinbin out ! b \<longrightarrow> chunk m cmasks (length (owners (co_nelesinbin out) b)) = oprg_mask E ?c m k b (ot_row E keys 0 ?my)"
    using oprg_client_ok [OF sizes ks(2) lk table(1) own(2,1), folded k_def m_def] by (elim exE conjE) (rule that)
  have lead: "runLeaderAgainstFollower G E ?c symbits nthreads R ?tab ?nb (pp_setSize P) (co_nelesinbin out) (outbitlen hs) (maskbitlen P) =
      Ok (?sockets, cmasks)" by (simp add: runLeaderAgainstFollower_def bk c(1))
  have "client_ok ?ev (leader_evaluation G E ?c symbits nthreads R) ?nb (pp_setSize P) (outbitlen hs) (maskbitlen P) ?tab (co_nelesinbin out)"
    unfolding client_ok_def leader_evaluation_def lead rbind.simps prod.case m_def [symmetric] k_def [symmetric]
    using c(2,3) rank oprg_ev_own [OF R(1) table(1) [folded k_def]] by simp
  moreover have "server_ok ?ev (follower_evaluation G E ?c symbits nthreads R P heap) ?nb (outbitlen hs) (maskbitlen P)"
    unfolding server_ok_def m_def [symmetric] k_def [symmetric]
  proof (intro allI impI)
    fix stab :: bytes and nele :: "nat list"
    assume nele: "?nb \<le> length nele" "length stab = length (owners nele ?nb) * k" "expansion_fits ((!) nele) ?nb"
    have "leader_messages G E symbits nthreads R P heap = Ok ?sockets"
      unfolding leader_messages_def init rbind.simps prod.case out lead ..
    then have run: "follower_evaluation G E ?c symbits nthreads R P heap stab ?nb (length (owners nele ?nb)) nele (outbitlen hs) (maskbitlen P) =
        oprg_server E ?c ?U seeds nthreads ?sockets stab ?nb (length (owners nele ?nb)) nele (outbitlen hs) (maskbitlen P)"
      by (simp add: follower_evaluation_def bk)
    show "\<exists>masks. follower_evaluation G E ?c symbits nthreads R P heap stab ?nb (length (owners nele ?nb)) nele (outbitlen hs) (maskbitlen P) =
        Ok masks \<and> length masks = length (owners nele ?nb) * m \<and>
        (\<forall>p<length (owners nele ?nb). chunk m masks p = ?ev (owners nele ?nb ! p) (chunk k stab p))"
      unfolding run oprg_ev_def
      by (rule oprg_server_ok [where choices = ?tab, OF sizes ks(1,3) nele(1) nele(3) [unfolded expansion_fits_def] nele(2) [unfolded k_def],
            folded k_def m_def, OF refl])
  qed
  ultimately show ?thesis by blast
qed

lemma prepared_crypt: "crypt (prepared P) = crypt P"
  by (simp add: prepared_def Let_def sized_def initializeMaskSize_def setBinsParameters_def)

lemma mask_lengths: "maskbitlen (prepared P) mod 8 = 0" "maskbitlen (prepared P) \<le> 512"
proof -
  have "pad_to_multiple x 8 mod 8 = 0" for x by (simp add: pad_to_multiple_def)
  then show "maskbitlen (prepared P) mod 8 = 0" "maskbitlen (prepared P) \<le> 512"
    by (cases "strategy P"; simp add: sized_def initializeMaskSize_def setBinsParameters_def Let_def min_def)+
qed

text \<open>All evaluations of a session.\<close>

lemma evaluations_ok:
  assumes c: "session_config Ps N" and h: "session_hashing Ps hs" and f: "hashing_fits Ps N hs heap"
    and su: "oprg_setup G E symbits nthreads R Ps N"
  defines "P \<equiv> prepared (Ps 1)"
  shows "\<exists>out ev. leader_table P hs heap = Ok out \<and>
    oprg_ok ev (\<lambda>q. leader_evaluation G E (crypt P) symbits nthreads (R q))
      (\<lambda>q. follower_evaluation G E (crypt (Ps q)) symbits nthreads (R q) P heap) P N hs out"
proof -
  have one: "1 \<in> {1..N}" and ok: "party_ok (Ps 1)" using c by (auto simp: session_config_def)
  note s = session_hashing_ok [OF c h one, folded P_def]
  obtain p where init: "init_hashing_state (pp_setSize P) (internal_bitlen P) (pp_numOfBins P) (prfState P) = Ok (hs, p)" using s(1) by blast
  obtain out where out: "leader_table P hs heap = Ok out" "co_failed out = []" and fits: "hs_fits hs" and heap: "length heap = pp_numOfBins P"
    using f unfolding hashing_fits_def Let_def P_def by blast
  have T: "0 < pp_numCores P" using ok by (simp add: P_def party_ok_def)
  note table = leader_table_ok(2-5) [OF s(2) fits s(4-7) T heap out]
  have crypt: "crypt P = crypt (Ps 1)" by (simp add: P_def prepared_crypt)
  have nb: "0 < pp_numOfBins P"
    using ok by (simp add: P_def sized_def initializeMaskSize_def setBinsParameters_def Let_def party_ok_def ceil_divide_pos)
  have "0 < outbitlen hs" by (rule s(8))
  then have sizes: "oprg_sizes E (crypt P) nthreads (pp_numOfBins P) (outbitlen hs) (maskbitlen P)"
    using su nb mask_lengths [of "Ps 1"] unfolding P_def [symmetric] oprg_sizes_def oprg_setup_def crypto_level_def crypt by blast
  have "\<exists>ev. client_ok ev (leader_evaluation G E (crypt P) symbits nthreads (R q)) (pp_numOfBins P) (pp_setSize P) (outbitlen hs) (maskbitlen P)
      (co_hash_table out) (co_nelesinbin out) \<and>
    server_ok ev (follower_evaluation G E (crypt (Ps q)) symbits nthreads (R q) P heap) (pp_numOfBins P) (outbitlen hs) (maskbitlen P)"
    if q: "q \<in> {2..N}" for q
  proof -
    have "q \<in> {1..N}" using q by simp
    then have "same_config (Ps 1) (Ps q)" using c unfolding session_config_def by blast
    then have "crypt (Ps q) = crypt P" by (simp add: crypt same_config_def)
    then show ?thesis using evaluation_ok [OF _ _ _ _ _ sizes init out(1) table, of G symbits "R q"] su q by (simp add: oprg_setup_def crypt)
  qed
  then obtain ev where "\<And>q. q \<in> {2..N} \<Longrightarrow> client_ok (ev q) (leader_evaluation G E (crypt P) symbits nthreads (R q)) (pp_numOfBins P) (pp_setSize P)
      (outbitlen hs) (maskbitlen P) (co_hash_table out) (co_nelesinbin out) \<and>
    server_ok (ev q) (follower_evaluation G E (crypt (Ps q)) symbits nthreads (R q) P heap) (pp_numOfBins P) (outbitlen hs) (maskbitlen P)" by metis
  then show ?thesis using out(1) unfolding oprg_ok_def by blast
qed

section \<open>The protocol counts the common elements\<close>


section \<open>A concrete session\<close>

lemma tiny_session:
  "\<exists>hs. session_hashing tiny_party hs \<and> hashing_fits tiny_party 3 hs [9, 9]"
proof -
  let ?P = "prepared (tiny_party 1)"
  obtain hs p where init: "init_hashing_state 1 48 2 flat_prf = Ok (hs, p)" and wf: "hs_wf hs" "hs_shape 1 48 2 hs"
    using init_hashing_ok [of flat_prf 2 1 48] by (auto simp: prf_ok_def flat_prf_def)
  have sh: "session_hashing tiny_party hs" using init by (auto simp: session_hashing_def tiny_sized tiny_fields)
  have s: "inbitlen hs = 48" "inbytelen hs = 6" "outbitlen hs = 48" "outbytelen hs = 6" "hs_nbins hs = 2" "floor_addrbitlen hs = 1"
    using wf(2) by (simp_all add: hs_shape_def tiny_logs [unfolded One_nat_def] ceil_divide_def)
  have fits: "hs_fits hs" by (simp add: hs_fits_def s)
  have l: "length (eleptr ?P) = 6" using session_hashing_ok(7) [OF tiny_config sh, of 1] by (simp add: s tiny_fields)
  have cl: "length (cleared 2 [9, 9]) = 2" by (simp add: cleared_def)
  have "\<exists>out. leader_table ?P hs [9, 9] = Ok out \<and> co_failed out = []"
    using single_element_placed [of hs "eleptr ?P" 2 "cleared 2 [9, 9]" "replicate 2 0" "replicate 2 0"] wf(1) fits l cl
    by (simp add: leader_table_def Let_def tiny_sized tiny_fields s ceil_divide_def)
  moreover have "expansion_fits (bin_load hs elt 1) 2" for elt
  proof -
    have "bin_load hs elt 1 b \<le> 3" for b
      using length_filter_le [of "\<lambda>(idx, i). addr_of hs (elt idx) i = b" "hash_pairs [0..<1]"]
      unfolding bin_load_def placed_def length_map by (simp add: hash_pairs_def NUM_HASH_FUNCTIONS_def)
    then show ?thesis by (metis expansion_fits_def numeral_le_iff semiring_norm(69,71,72))
  qed
  moreover have "card {j. j < 1 \<and> Q j} \<le> 3" for Q :: "nat \<Rightarrow> bool"
    using card_mono [of "{0::nat}" "{j. j < 1 \<and> Q j}"] by (simp add: subset_iff)
  ultimately have "hashing_fits tiny_party 3 hs [9, 9]"
    using fits by (simp add: hashing_fits_def Let_def tiny_sized tiny_fields s room_def)
  then show ?thesis using sh by blast
qed


end
