(* ===== verification/Spec2Isabelle.thy ===== *)
theory Spec2Isabelle
  imports OTTasks BuilderTasks PsiProtocol
begin

text \<open>
  Verification of the private set intersection code of MultiPartyPSI.

  \<^bold>\<open>The programs.\<close> The repository holds two implementations. \<open>src/PSI_C_0.1/PSI\<close> is a two-party protocol in C and
  C++ with garbled Bloom filters: the server builds a garbled Bloom filter of its set, the client a Bloom filter of its own,
  and an oblivious transfer gives the client the slots its filter selects; an element is in the intersection when its slots
  XOR to its encoding. \<open>src/Source Files\<close> with \<open>src/Header Files\<close> is the multiparty protocol on top of the
  library \<open>src/PSI/src\<close>: the leader hashes its set into a cuckoo table, every follower into a simple hash table;
  an oblivious pseudo-random function (OPRG) masks the entries; the followers XOR secret shares of zero to the masks, and
  the leader counts the elements for which the masks of all parties cancel.

  \<^bold>\<open>Conventions (Prelude).\<close> A fallible function returns \<open>'a res\<close>, a sum of an error and a value. Arrays are
  lists with checked access (\<open>rd\<close>, \<open>wr\<close>, \<open>rd_blk\<close>, \<open>wr_blk\<close>), so an access outside an array
  is the value \<open>Err OutOfBounds\<close>, not an assumption; a failing assertion or \<open>exit\<close> is \<open>AssertFail\<close>,
  a poll without data \<open>WouldBlock\<close>. Counted loops are \<open>rfold\<close>. Integers whose wrap-around matters are
  words or carry an explicit \<open>mod\<close>; sizes and offsets below their 32-bit limits are natural numbers.

  \<^bold>\<open>The two-party protocol\<close> (\<open>src/PSI_C_0.1/PSI\<close>).
  \<^item> CUtil: the helpers of \<open>headers/Util.h\<close>; XOR by words equals XOR by bytes, the bit order, and the comparison
    that ignores the tail of longer elements.
  \<^item> Primitives: RangeHash, MessageDigest, AESRandom, RandomSource. SHA and the AES key stream are parameters.
  \<^item> BloomFilter, GarbledBF: \<open>BF.cpp\<close>, \<open>GarbledBF.cpp\<close>; the interface of a bit store is a locale
    interpreted on the Bloom filter. Sizing by \<open>log2\<close> is the exact floating-point computation. Adding keeps the
    recoverability of earlier elements, and the query answers exactly for recoverable encodings.
  \<^item> BitMatrix, NaorPinkas, OTExtension: the matrix and its transposition, the base transfer over a group with the laws of
    elliptic curves (a parameter), and the extension with its resynchronising generators.
  \<^item> Network: the framing; \<open>recv\<close> splits the stream by an arbitrary schedule, \<open>receiveBulk\<close> is a partial function
    whose termination is proved for peers that send enough.
  \<^item> Concurrency, OTTasks, BuilderTasks: threads as queues of actions under an arbitrary schedule. A locale of commuting
    actions gives that every schedule ends in the sequential result; it is interpreted on the transfer and builder tasks.

  \<^bold>\<open>The multiparty protocol\<close> (\<open>src/Source Files\<close>, \<open>src/PSI/src\<close>).
  \<^item> Hashing, SimpleHashing, Cuckoo: \<open>hashing_util.h\<close>, \<open>simple_hashing.cpp\<close>, \<open>cuckoo.cpp\<close>; permutation-based
    hashing is injective where its bounds allow it, every entry of a table is an element under one of its functions, and
    the insertion with evictions stops after the bound of the code (\<open>neles\<close> rounds, which is the fuel).
  \<^item> Leader, Follower, MultiParty, Session: \<open>Leader.cpp\<close>, the naive strategies, \<open>PsiParty.cpp\<close> and the factories. The
    session composes all parties for any number of them and any schedule of the leader's threads, with the OPRG as a
    parameter whose contract is \<open>oprg_ok\<close>.
  \<^item> BitVector, Transpose, CodeWords: the bit vectors of the OT extension (\<open>util/cbitvector.cpp\<close>), Eklundh's
    transposition, and the table of the code (\<open>util/codewords.h\<close>).
  \<^item> OTWindows, OTRoutines: the 1-out-of-256 OT extension (\<open>util/ot/ot-extension-1oon-ecc.cpp\<close>), its matrices per window
    and its routines. A locale states what a masking function does with the rows it gets; the lemmas on the routines and their
    threads are proved for every such function. The loop over windows is a recursion on the OTs left, which ends because a
    window is never empty. The threads run one after another.
  \<^item> OpeMasking: the masking function of the OPRG (\<open>util/ot/opemasking.h\<close>); its client and its server side interpret the locale.
  \<^item> BaseOT, Oprg: the base transfers (\<open>util/ot/naor-pinkas.cpp\<close>) and the OPRG (\<open>oprg_client\<close>, \<open>oprg_server\<close> in
    \<open>ot-based/ot-psi.cpp\<close>): a run from the base transfers on gives an entry of the server and the equal entry of the client in
    the same bin the same mask.
  \<^item> PsiProtocol: the session with this OPRG in place of the parameter; its theorem counts the common elements with no
    hypothesis on the OPRG's results.

  \<^bold>\<open>Parameters.\<close> OpenSSL (AES, SHA, curves), GLib, libscapi, NTL and the operating system are arguments of the
  definitions; what the code relies on (lengths of results, the laws of a group, that a peer sends what it announced) are
  hypotheses of the theorems, and every such theorem has a witness with concrete functions.

  \<^bold>\<open>Not modelled.\<close> Freeing of memory, console output, timing and command lines; the vendored MIRACL and gf2x and the
  scripts; the polynomial strategies (interpolation by NTL), the inverse naive and two-party leaders (hash tables of GLib),
  the Kissner-Song and Paillier benchmarks, the other protocols of \<open>src/PSI/src\<close>, and the connection set-up. In a
  session the strategies that are not modelled are the parameters \<open>other\<close> and \<open>otherF\<close>.
\<close>

end
